(* ===== verification/GoBase.thy ===== *)
theory GoBase
  imports
    Main
    "HOL-Library.Word"
    "HOL-Library.Char_ord"
    "HOL-Library.List_Lexorder"
    "HOL-Library.Multiset"
    "HOL-Library.Sublist"
begin

text \<open>
  Prelude: the part of Go and of its standard library that the components share.
  A Go \<^verbatim>\<open>string\<close> is a sequence of bytes, so it is modelled by \<open>char list\<close>
  (an Isabelle \<open>char\<close> is one byte). Byte buffers (\<^verbatim>\<open>[]byte\<close>) are lists of
  8-bit words, fixed-width unsigned integers are words. Case mapping and white space are
  those of the ASCII range: bytes above 0x7f are left alone by \<open>to_lower\<close> and are never
  white space, which is what Go does for every string without non-ASCII letters or
  non-ASCII spaces.
\<close>

unbundle bit_operations_syntax

named_theorems go_simps \<open>unfolding rules of the string and path helpers\<close>
named_theorems inv_intros \<open>introduction rules for the invariants of the components\<close>

type_synonym u8 = "8 word"
type_synonym u32 = "32 word"
type_synonym u64 = "64 word"
type_synonym bytes = "u8 list"

lemma unat_half [simp]:
  fixes w :: "'a::len word"
  shows "unat (drop_bit (Suc 0) w) = unat w div 2"
  using unat_drop_bit_eq [of "Suc 0" w] drop_bit_eq_div [of "Suc 0" "unat w"] by simp

lemma and_one_iff_bit:
  fixes w :: "'a::len word"
  shows "w AND 1 \<noteq> 0 \<longleftrightarrow> bit w 0"
  by (simp add: and_one_eq bit_0 odd_iff_mod_2_eq_one)

section \<open>Characters\<close>

definition chr_le :: "char \<Rightarrow> char \<Rightarrow> bool" where
  "chr_le a b \<longleftrightarrow> (of_char a :: nat) \<le> of_char b"

definition is_digit :: "char \<Rightarrow> bool" where
  "is_digit c \<longleftrightarrow> chr_le (CHR ''0'') c \<and> chr_le c (CHR ''9'')"

definition is_lower :: "char \<Rightarrow> bool" where
  "is_lower c \<longleftrightarrow> chr_le (CHR ''a'') c \<and> chr_le c (CHR ''z'')"

definition is_upper :: "char \<Rightarrow> bool" where
  "is_upper c \<longleftrightarrow> chr_le (CHR ''A'') c \<and> chr_le c (CHR ''Z'')"

text \<open>\<^verbatim>\<open>unicode.IsSpace\<close> on ASCII: tab, line feed, vertical tab, form feed,
  carriage return and the blank.\<close>

definition is_space :: "char \<Rightarrow> bool" where
  "is_space c \<longleftrightarrow> c \<in> {CHR '' '', CHR 0x09, CHR 0x0A, CHR 0x0B, CHR 0x0C, CHR 0x0D}"

definition lower_chr :: "char \<Rightarrow> char" where
  "lower_chr c = (if is_upper c then char_of ((of_char c :: nat) + 32) else c)"

definition upper_chr :: "char \<Rightarrow> char" where
  "upper_chr c = (if is_lower c then char_of ((of_char c :: nat) - 32) else c)"

definition to_lower :: "string \<Rightarrow> string" where
  "to_lower s = map lower_chr s"

definition to_upper :: "string \<Rightarrow> string" where
  "to_upper s = map upper_chr s"

definition bytes_of :: "string \<Rightarrow> bytes" where
  "bytes_of s = map of_char s"

lemma of_char_nat_less [simp]: "(of_char c :: nat) < 256"
proof -
  have "(of_char c :: nat) \<in> {0..<256}"
    by (metis range_nat_of_char rangeI)
  then show ?thesis by simp
qed

lemma lower_chr_not_upper [simp]: "\<not> is_upper (lower_chr c)"
  by (auto simp: lower_chr_def is_upper_def chr_le_def take_bit_nat_def)

lemma lower_chr_idem [simp]: "lower_chr (lower_chr c) = lower_chr c"
  by (simp add: lower_chr_def [of "lower_chr c"])

lemma lower_chr_fix: "\<not> is_upper c \<Longrightarrow> lower_chr c = c"
  by (simp add: lower_chr_def)

lemma to_lower_idem [simp]: "to_lower (to_lower s) = to_lower s"
  by (simp add: to_lower_def)

lemma to_lower_append [simp]: "to_lower (s @ t) = to_lower s @ to_lower t"
  by (simp add: to_lower_def)

lemma to_lower_Nil [simp]: "to_lower [] = []"
  by (simp add: to_lower_def)

lemma to_lower_eq_Nil [simp]: "to_lower s = [] \<longleftrightarrow> s = []"
  by (simp add: to_lower_def)

lemma length_to_lower [simp]: "length (to_lower s) = length s"
  by (simp add: to_lower_def)

section \<open>Strings\<close>

definition has_prefix :: "string \<Rightarrow> string \<Rightarrow> bool" where
  "has_prefix s p \<longleftrightarrow> prefix p s"

definition has_suffix :: "string \<Rightarrow> string \<Rightarrow> bool" where
  "has_suffix s p \<longleftrightarrow> suffix p s"

definition trim_suffix :: "string \<Rightarrow> string \<Rightarrow> string" where
  "trim_suffix s p = (if has_suffix s p then take (length s - length p) s else s)"

definition trim_prefix :: "string \<Rightarrow> string \<Rightarrow> string" where
  "trim_prefix s p = (if has_prefix s p then drop (length p) s else s)"

text \<open>\<^verbatim>\<open>strings.Contains\<close>.\<close>

definition contains :: "string \<Rightarrow> string \<Rightarrow> bool" where
  "contains s p \<longleftrightarrow> sublist p s"

definition trim_left_by :: "(char \<Rightarrow> bool) \<Rightarrow> string \<Rightarrow> string" where
  "trim_left_by p s = dropWhile p s"

definition trim_right_by :: "(char \<Rightarrow> bool) \<Rightarrow> string \<Rightarrow> string" where
  "trim_right_by p s = rev (dropWhile p (rev s))"

definition trim_by :: "(char \<Rightarrow> bool) \<Rightarrow> string \<Rightarrow> string" where
  "trim_by p s = trim_right_by p (trim_left_by p s)"

definition trim_space :: "string \<Rightarrow> string" where
  "trim_space s = trim_by is_space s"

text \<open>\<^verbatim>\<open>strings.FieldsFunc\<close>: the maximal runs of characters not in the class.\<close>

fun fields_acc :: "(char \<Rightarrow> bool) \<Rightarrow> string \<Rightarrow> string \<Rightarrow> string list" where
  "fields_acc p acc [] = (if acc = [] then [] else [rev acc])"
| "fields_acc p acc (c # cs) =
     (if p c then (if acc = [] then fields_acc p [] cs else rev acc # fields_acc p [] cs)
      else fields_acc p (c # acc) cs)"

definition fields_func :: "(char \<Rightarrow> bool) \<Rightarrow> string \<Rightarrow> string list" where
  "fields_func p s = fields_acc p [] s"

fun join :: "string \<Rightarrow> string list \<Rightarrow> string" where
  "join sep [] = []"
| "join sep [x] = x"
| "join sep (x # y # zs) = x @ sep @ join sep (y # zs)"

text \<open>\<^verbatim>\<open>strings.Split\<close> on a one-character separator.\<close>

fun split_on :: "char \<Rightarrow> string \<Rightarrow> string list" where
  "split_on c [] = [[]]"
| "split_on c (x # xs) =
     (if x = c then [] # split_on c xs
      else (case split_on c xs of [] \<Rightarrow> [[x]] | w # ws \<Rightarrow> (x # w) # ws))"

lemma split_on_ne [simp]: "split_on c s \<noteq> []"
  by (induction s) (auto split: list.splits)

lemma split_on_no_sep: "w \<in> set (split_on c s) \<Longrightarrow> c \<notin> set w"
proof (induction s arbitrary: w)
  case Nil
  then show ?case by simp
next
  case (Cons x xs)
  then show ?case by (cases "split_on c xs") (auto split: if_splits)
qed

lemma fields_acc_sound:
  "w \<in> set (fields_acc p acc s) \<Longrightarrow> \<forall>x \<in> set acc. \<not> p x
   \<Longrightarrow> w \<noteq> [] \<and> (\<forall>x \<in> set w. \<not> p x)"
proof (induction s arbitrary: acc)
  case Nil
  then show ?case by (simp split: if_split_asm)
next
  case (Cons c cs)
  show ?case
  proof (cases "p c")
    case True
    then have "w \<in> set (fields_acc p [] cs) \<or> (acc \<noteq> [] \<and> w = rev acc)"
      using Cons.prems(1) by (simp split: if_split_asm) blast
    then show ?thesis
      using Cons.IH [of "[]"] Cons.prems(2) by (elim disjE) simp_all
  next
    case False
    then have "w \<in> set (fields_acc p (c # acc) cs)" using Cons.prems(1) by simp
    moreover have "\<forall>x \<in> set (c # acc). \<not> p x" using False Cons.prems(2) by simp
    ultimately show ?thesis by (rule Cons.IH)
  qed
qed

lemma fields_func_sound: "w \<in> set (fields_func p s) \<Longrightarrow> w \<noteq> [] \<and> (\<forall>x \<in> set w. \<not> p x)"
  using fields_acc_sound [of w p "[]" s] by (simp add: fields_func_def)

lemma fields_acc_chars: "w \<in> set (fields_acc p acc s) \<Longrightarrow> set w \<subseteq> set acc \<union> set s"
proof (induction s arbitrary: acc)
  case Nil
  then show ?case by (simp split: if_split_asm)
next
  case (Cons c cs)
  show ?case
  proof (cases "p c")
    case True
    then have "w \<in> set (fields_acc p [] cs) \<or> (acc \<noteq> [] \<and> w = rev acc)"
      using Cons.prems(1) by (simp split: if_split_asm) blast
    then show ?thesis
    proof
      assume "w \<in> set (fields_acc p [] cs)"
      from Cons.IH [OF this] show ?thesis by auto
    qed auto
  next
    case False
    then have "w \<in> set (fields_acc p (c # acc) cs)" using Cons.prems(1) by simp
    from Cons.IH [OF this] show ?thesis by auto
  qed
qed

lemma fields_func_chars: "w \<in> set (fields_func p s) \<Longrightarrow> set w \<subseteq> set s"
  using fields_acc_chars [of w p "[]" s] by (simp add: fields_func_def)

lemma set_join: "set (join sep ws) \<subseteq> set sep \<union> \<Union> (set ` set ws)"
  by (induction sep ws rule: join.induct) auto

lemma trim_by_set: "set (trim_by p s) \<subseteq> set s"
  unfolding trim_by_def trim_right_by_def trim_left_by_def
  by (metis set_dropWhileD set_rev subsetI)

text \<open>A trimmed string neither starts nor ends in the trimmed class.\<close>

lemma trim_left_hd: "trim_left_by p s \<noteq> [] \<Longrightarrow> \<not> p (hd (trim_left_by p s))"
  by (simp add: trim_left_by_def hd_dropWhile)

lemma trim_by_id: "s = [] \<or> (\<not> p (hd s) \<and> \<not> p (last s)) \<Longrightarrow> trim_by p s = s"
proof -
  assume *: "s = [] \<or> (\<not> p (hd s) \<and> \<not> p (last s))"
  then have "dropWhile p s = s" by (auto simp: dropWhile_eq_self_iff)
  moreover from * have "dropWhile p (rev s) = rev s" by (auto simp: dropWhile_eq_self_iff hd_rev)
  ultimately show ?thesis
    by (simp add: trim_by_def trim_right_by_def trim_left_by_def)
qed

section \<open>Numbers as text\<close>

fun itoa_nat :: "nat \<Rightarrow> string" where
  "itoa_nat n = (if n < 10 then [char_of (48 + n)]
     else itoa_nat (n div 10) @ [char_of (48 + n mod 10)])"

declare itoa_nat.simps [simp del]

text \<open>\<^verbatim>\<open>strconv.Itoa\<close>, \<^verbatim>\<open>%d\<close>.\<close>

definition itoa :: "int \<Rightarrow> string" where
  "itoa i = (if i < 0 then CHR ''-'' # itoa_nat (nat (- i)) else itoa_nat (nat i))"

definition digit_val :: "char \<Rightarrow> nat" where
  "digit_val c = of_char c - 48"

definition atoi_nat :: "string \<Rightarrow> nat" where
  "atoi_nat s = foldl (\<lambda>n c. 10 * n + digit_val c) 0 s"

lemma is_digit_code: "d < 10 \<Longrightarrow> is_digit (char_of (48 + d :: nat)) \<and> digit_val (char_of (48 + d :: nat)) = d"
  by (simp add: is_digit_def chr_le_def digit_val_def take_bit_nat_def)

lemma itoa_nat_digits: "\<forall>c \<in> set (itoa_nat n). is_digit c"
proof (induction n rule: itoa_nat.induct)
  case (1 n)
  then show ?case
    by (subst itoa_nat.simps) (auto simp: is_digit_code)
qed

lemma atoi_itoa_nat [simp]: "atoi_nat (itoa_nat n) = n"
proof (induction n rule: itoa_nat.induct)
  case (1 n)
  then show ?case
    by (subst itoa_nat.simps) (auto simp: atoi_nat_def is_digit_code)
qed

lemma itoa_nat_inj: "itoa_nat m = itoa_nat n \<Longrightarrow> m = n"
  by (metis atoi_itoa_nat)

lemma itoa_nat_ne [simp]: "itoa_nat n \<noteq> []"
  by (subst itoa_nat.simps) simp

text \<open>\<^verbatim>\<open>%08x\<close> of a 32-bit word.\<close>

definition hex_digit :: "nat \<Rightarrow> char" where
  "hex_digit d = (if d < 10 then char_of (48 + d) else char_of (87 + d))"

definition hex8 :: "u32 \<Rightarrow> string" where
  "hex8 w = map (\<lambda>i. hex_digit (unat (drop_bit (28 - 4 * i) w) mod 16)) [0..<8]"

lemma length_hex8 [simp]: "length (hex8 w) = 8"
  by (simp add: hex8_def)

end
