(* ===== verification/Pool.thy ===== *)
theory Pool
  imports GoBase
begin

text \<open>
  The worker pool of \<^verbatim>\<open>UploadToUsenet\<close> (\<^verbatim>\<open>services/upload_usenet.go\<close>) as a transition
  system. A file of \<open>n\<close> chunks is posted by \<open>W\<close> workers. One goroutine reads the chunks in order and
  sends them to a channel of \<open>2 * W\<close> places; each worker takes a chunk, yEnc-encodes it (the final
  part of several waits until every part has registered its checksum), then makes up to three
  attempts to connect and post; a posted chunk goes to a result channel of \<open>2 * W\<close> places that the
  caller drains. What the network, the file and the shutdown signal do is the choice of the event.
  A segment is represented by its chunk number.
\<close>

section \<open>States\<close>

text \<open>The flag of a worker says whether it holds a connection; \<open>Trying c j a\<close> is the attempt \<open>a\<close> at
  chunk \<open>j\<close>, \<open>Posted c j\<close> is about to send its segment to the result channel.\<close>

datatype wstate =
    Idle bool
  | Pulled bool nat
  | Waiting bool nat
  | Trying bool nat nat
  | Posted bool nat
  | Exited

record pool =
  todo :: "nat list"
  closed :: bool
  chan :: "nat list"
  enc :: "nat list"
  workers :: "wstate list"
  resq :: "nat list"
  perr :: "string option"
  collected :: "nat list"
  cancelled :: bool

definition pool_init :: "nat \<Rightarrow> nat \<Rightarrow> pool" where
  "pool_init W n = \<lparr>todo = [1..<n + 1], closed = False, chan = [], enc = [],
     workers = replicate W (Idle False), resq = [], perr = None, collected = [], cancelled = False\<rparr>"

text \<open>The error channel has one place and is written with a non-blocking select.\<close>

definition send_err :: "string \<Rightarrow> pool \<Rightarrow> pool" where
  "send_err e s = (case perr s of None \<Rightarrow> s\<lparr>perr := Some e\<rparr> | Some _ \<Rightarrow> s)"

section \<open>Steps\<close>

datatype wev =
    WCtx | WClosed | WPull | WEncode | WWake | WAbort
  | WConnOk | WConnAuth | WConnFail | WConnFailAbort
  | WPostOk | WPostAuth | WPostFail | WPostFailAbort | WGiveUp | WResult

datatype ev =
    Cancel | DSend | DEnd | DCancel | DReadErr | DEof | Take | Work nat wev

text \<open>One step of a worker in each of its states. The attempts are bounded by
  \<^verbatim>\<open>maxRetries = 3\<close>.\<close>

definition idle_ev :: "wev \<Rightarrow> bool \<Rightarrow> pool \<Rightarrow> (wstate \<times> pool) option" where
  "idle_ev e c s =
     (case e of
        WCtx \<Rightarrow> if cancelled s then Some (Exited, s) else None
      | WClosed \<Rightarrow> if closed s \<and> chan s = [] then Some (Exited, s) else None
      | WPull \<Rightarrow> (case chan s of [] \<Rightarrow> None | j # js \<Rightarrow> Some (Pulled c j, s\<lparr>chan := js\<rparr>))
      | _ \<Rightarrow> None)"

definition encode_ev :: "nat \<Rightarrow> bool \<Rightarrow> nat \<Rightarrow> pool \<Rightarrow> wstate \<times> pool" where
  "encode_ev n c j s =
     (if n \<le> 1 then (Trying c j 1, s)
      else (let en = List.insert j (enc s)
            in if j \<noteq> n then (Trying c j 1, s\<lparr>enc := en\<rparr>)
               else if length en < n then (Waiting c j, s\<lparr>enc := en\<rparr>)
               else (Trying c j 1, s\<lparr>enc := []\<rparr>)))"

definition wake_ev :: "nat \<Rightarrow> bool \<Rightarrow> nat \<Rightarrow> pool \<Rightarrow> (wstate \<times> pool) option" where
  "wake_ev n c j s = (if length (enc s) < n then None else Some (Trying c j 1, s\<lparr>enc := []\<rparr>))"

definition try_ev :: "wev \<Rightarrow> bool \<Rightarrow> nat \<Rightarrow> nat \<Rightarrow> pool \<Rightarrow> (wstate \<times> pool) option" where
  "try_ev e c j a s =
     (if a > 3 then (if e = WGiveUp then Some (Exited, send_err ''chunk failed after 3 attempts'' s) else None)
      else case e of
        WAbort \<Rightarrow> if cancelled s then Some (Exited, s) else None
      | WConnOk \<Rightarrow> if c then None else Some (Trying True j a, s)
      | WConnAuth \<Rightarrow> if c then None else Some (Exited, send_err ''nntp auth failed'' s)
      | WConnFail \<Rightarrow> if c then None else Some (Trying False j (a + 1), s)
      | WConnFailAbort \<Rightarrow> if \<not> c \<and> cancelled s then Some (Exited, s) else None
      | WPostOk \<Rightarrow> if c then Some (Posted True j, s) else None
      | WPostAuth \<Rightarrow> if c then Some (Exited, send_err ''nntp auth failed'' s) else None
      | WPostFail \<Rightarrow> if c then Some (Trying False j (a + 1), s) else None
      | WPostFailAbort \<Rightarrow> if c \<and> cancelled s then Some (Exited, s) else None
      | _ \<Rightarrow> None)"

definition result_ev :: "nat \<Rightarrow> bool \<Rightarrow> nat \<Rightarrow> pool \<Rightarrow> (wstate \<times> pool) option" where
  "result_ev cap c j s =
     (if length (resq s) < cap then Some (Idle c, s\<lparr>resq := resq s @ [j]\<rparr>) else None)"

definition worker_ev :: "nat \<Rightarrow> nat \<Rightarrow> wev \<Rightarrow> wstate \<Rightarrow> pool \<Rightarrow> (wstate \<times> pool) option" where
  "worker_ev n cap e w s =
     (case w of
        Idle c \<Rightarrow> idle_ev e c s
      | Pulled c j \<Rightarrow> if e = WEncode then Some (encode_ev n c j s) else None
      | Waiting c j \<Rightarrow> if e = WWake then wake_ev n c j s else None
      | Trying c j a \<Rightarrow> try_ev e c j a s
      | Posted c j \<Rightarrow> if e = WResult then result_ev cap c j s else None
      | Exited \<Rightarrow> None)"

lemmas worker_defs = worker_ev_def idle_ev_def encode_ev_def wake_ev_def try_ev_def result_ev_def send_err_def

fun pool_ev :: "nat \<Rightarrow> ev \<Rightarrow> pool \<Rightarrow> pool option" where
  "pool_ev n Cancel s = (if cancelled s then None else Some (s\<lparr>cancelled := True\<rparr>))"
| "pool_ev n DSend s =
     (case todo s of
        [] \<Rightarrow> None
      | j # js \<Rightarrow> if \<not> closed s \<and> length (chan s) < 2 * length (workers s)
                   then Some (s\<lparr>todo := js, chan := chan s @ [j]\<rparr>) else None)"
| "pool_ev n DEnd s = (if \<not> closed s \<and> todo s = [] then Some (s\<lparr>closed := True\<rparr>) else None)"
| "pool_ev n DCancel s = (if \<not> closed s \<and> todo s \<noteq> [] \<and> cancelled s then Some (s\<lparr>closed := True\<rparr>) else None)"
| "pool_ev n DReadErr s =
     (if \<not> closed s \<and> todo s \<noteq> [] then Some ((send_err ''read chunk'' s)\<lparr>closed := True\<rparr>) else None)"
| "pool_ev n DEof s = (if \<not> closed s \<and> todo s \<noteq> [] then Some (s\<lparr>closed := True\<rparr>) else None)"
| "pool_ev n Take s =
     (case resq s of
        [] \<Rightarrow> None
      | j # js \<Rightarrow> Some (if cancelled s then s\<lparr>resq := js\<rparr> else s\<lparr>resq := js, collected := collected s @ [j]\<rparr>))"
| "pool_ev n (Work i e) s =
     (if i < length (workers s)
      then (case worker_ev n (2 * length (workers s)) e (workers s ! i) s of
              Some (w, s') \<Rightarrow> Some (s'\<lparr>workers := (workers s)[i := w]\<rparr>)
            | None \<Rightarrow> None)
      else None)"

fun pool_run :: "nat \<Rightarrow> ev list \<Rightarrow> pool \<Rightarrow> pool option" where
  "pool_run n [] s = Some s"
| "pool_run n (e # es) s = (case pool_ev n e s of None \<Rightarrow> None | Some s' \<Rightarrow> pool_run n es s')"

text \<open>The collector's loop ends when all workers have exited (the result channel is closed then) and
  the channel is drained; then the function returns.\<close>

definition finished :: "pool \<Rightarrow> bool" where
  "finished s \<longleftrightarrow> list_all (\<lambda>w. w = Exited) (workers s) \<and> resq s = []"

definition upload_result :: "pool \<Rightarrow> string + nat list" where
  "upload_result s =
     (if cancelled s then Inl ''context canceled''
      else case perr s of Some e \<Rightarrow> Inl e | None \<Rightarrow> Inr (collected s))"

section \<open>Termination\<close>

fun wpot :: "wstate \<Rightarrow> nat" where
  "wpot (Idle c) = 1"
| "wpot (Pulled c j) = 13"
| "wpot (Waiting c j) = 12"
| "wpot (Trying c j a) = 2 + 2 * (5 - a) + (if c then 0 else 1)"
| "wpot (Posted c j) = 4"
| "wpot Exited = 0"

definition pool_pot :: "pool \<Rightarrow> nat" where
  "pool_pot s = 14 * length (todo s) + 13 * length (chan s) + sum_list (map wpot (workers s))
     + 2 * length (resq s) + of_bool (\<not> closed s) + of_bool (\<not> cancelled s)"

lemma sum_list_wpot_update:
  "i < length ws \<Longrightarrow> sum_list (map wpot (ws[i := w])) + wpot (ws ! i) = sum_list (map wpot ws) + wpot w"
  by (induction ws arbitrary: i) (auto split: nat.splits)

lemma worker_ev_pot:
  "worker_ev n cap e w s = Some (w', s') \<Longrightarrow>
     wpot w' + pool_pot (s'\<lparr>workers := []\<rparr>) < wpot w + pool_pot (s\<lparr>workers := []\<rparr>)"
  by (auto simp: pool_pot_def worker_defs Let_def split: wstate.splits wev.splits if_splits list.splits option.splits)

lemma pool_pot_split: "pool_pot s = sum_list (map wpot (workers s)) + pool_pot (s\<lparr>workers := []\<rparr>)"
  by (simp add: pool_pot_def)

lemma worker_ev_workers: "worker_ev n cap e w s = Some (w', s') \<Longrightarrow> workers s' = workers s"
  by (auto simp: worker_defs Let_def split: wstate.splits wev.splits if_splits list.splits option.splits)

lemma pool_ev_pot: "pool_ev n e s = Some s' \<Longrightarrow> pool_pot s' < pool_pot s"
proof (cases e)
  case (Work i x)
  assume "pool_ev n e s = Some s'"
  then obtain w u where w: "i < length (workers s)" "worker_ev n (2 * length (workers s)) x (workers s ! i) s = Some (w, u)"
    "s' = u\<lparr>workers := (workers s)[i := w]\<rparr>"
    by (auto simp: Work split: if_splits option.splits)
  have "s'\<lparr>workers := []\<rparr> = u\<lparr>workers := []\<rparr>" "workers s' = (workers s)[i := w]" by (simp_all add: w(3))
  then have "pool_pot s' = sum_list (map wpot ((workers s)[i := w])) + pool_pot (u\<lparr>workers := []\<rparr>)"
    using pool_pot_split [of s'] by (simp only:)
  then show ?thesis
    using worker_ev_pot [OF w(2)] sum_list_wpot_update [OF w(1), of w] pool_pot_split [of s] by linarith
qed (auto simp: pool_pot_def send_err_def split: if_splits list.splits option.splits)

lemma pool_run_pot: "pool_run n es s = Some s' \<Longrightarrow> length es + pool_pot s' \<le> pool_pot s"
proof (induction es arbitrary: s)
  case (Cons e es)
  then obtain s1 where s1: "pool_ev n e s = Some s1" "pool_run n es s1 = Some s'"
    by (auto split: option.splits)
  show ?case using Cons.IH [OF s1(2)] pool_ev_pot [OF s1(1)] by simp
qed simp

lemma pool_pot_init: "pool_pot (pool_init W n) = 14 * n + W + 2"
  by (simp add: pool_pot_def pool_init_def sum_list_replicate)

section \<open>Invariants\<close>

text \<open>The chunks a worker holds, and those it has taken but not yet registered, and the final part
  that waits.\<close>

fun holds :: "wstate \<Rightarrow> nat list" where
  "holds (Pulled c j) = [j]"
| "holds (Waiting c j) = [j]"
| "holds (Trying c j a) = [j]"
| "holds (Posted c j) = [j]"
| "holds w = []"

fun unregistered :: "wstate \<Rightarrow> nat list" where
  "unregistered (Pulled c j) = [j]"
| "unregistered w = []"

fun waiting :: "wstate \<Rightarrow> nat list" where
  "waiting (Waiting c j) = [j]"
| "waiting w = []"

definition over :: "(wstate \<Rightarrow> nat list) \<Rightarrow> wstate list \<Rightarrow> nat multiset" where
  "over f ws = mset (concat (map f ws))"

lemma over_update: "i < length ws \<Longrightarrow> over f (ws[i := w]) + mset (f (ws ! i)) = over f ws + mset (f w)"
  unfolding over_def
  by (induction ws arbitrary: i) (auto split: nat.splits simp: add.assoc add.commute add.left_commute)

lemma over_empty_nth: "over f ws = {#} \<Longrightarrow> i < length ws \<Longrightarrow> f (ws ! i) = []"
  by (auto simp: over_def)

lemma over_mem: "j \<in># over f ws \<longleftrightarrow> (\<exists>i < length ws. j \<in> set (f (ws ! i)))"
  by (auto simp: over_def in_set_conv_nth) (metis nth_mem)+

text \<open>Every chunk is somewhere, as long as nothing has failed.\<close>

definition inv_chunks :: "nat \<Rightarrow> pool \<Rightarrow> bool" where
  "inv_chunks n s \<longleftrightarrow> (\<not> cancelled s \<and> perr s = None \<longrightarrow>
     mset (todo s) + mset (chan s) + over holds (workers s) + mset (resq s) + mset (collected s) = mset [1..<n + 1])"

text \<open>A worker exits only for a reason.\<close>

definition inv_exit :: "pool \<Rightarrow> bool" where
  "inv_exit s \<longleftrightarrow> (Exited \<in> set (workers s) \<longrightarrow> cancelled s \<or> perr s \<noteq> None \<or> (closed s \<and> chan s = []))"

text \<open>The channel is a queue, so what has been taken is a prefix; until the final part is encoded
  every taken chunk is registered or about to be.\<close>

definition inv_registry :: "nat \<Rightarrow> pool \<Rightarrow> bool" where
  "inv_registry n s \<longleftrightarrow> (\<exists>k \<le> n. chan s @ todo s = [k + 1..<n + 1] \<and>
     ((n \<le> 1 \<and> over waiting (workers s) = {#})
      \<or> (enc s = [] \<and> k = n \<and> over unregistered (workers s) = {#} \<and> over waiting (workers s) = {#})
      \<or> (mset (enc s) + over unregistered (workers s) = mset [1..<k + 1]
          \<and> (over waiting (workers s) = {#} \<or> (over waiting (workers s) = {#n#} \<and> n \<in> set (enc s))))))"

definition pool_inv :: "nat \<Rightarrow> pool \<Rightarrow> bool" where
  "pool_inv n s \<longleftrightarrow> inv_chunks n s \<and> inv_exit s \<and> inv_registry n s"

lemma over_replicate_Idle [simp]: "over f (replicate W (Idle c)) = mset (concat (replicate W (f (Idle c))))"
  by (simp add: over_def)

lemma pool_inv_init: "pool_inv n (pool_init W n)"
proof -
  have "concat (replicate W []) = ([] :: nat list)" by (induction W) auto
  then show ?thesis
    by (auto simp: pool_inv_def inv_chunks_def inv_exit_def inv_registry_def pool_init_def intro!: exI [of _ 0])
qed

lemma work_step:
  assumes "pool_ev n (Work i e) s = Some s'"
  obtains w u where "i < length (workers s)"
    "worker_ev n (2 * length (workers s)) e (workers s ! i) s = Some (w, u)"
    "s' = u\<lparr>workers := (workers s)[i := w]\<rparr>" "workers u = workers s"
  using assms worker_ev_workers by (auto split: if_splits option.splits)

text \<open>What a step of a worker does to what it holds.\<close>

lemma worker_ev_chunks:
  "worker_ev n cap e w s = Some (w', s') \<Longrightarrow> \<not> cancelled s' \<and> perr s' = None \<Longrightarrow>
     \<not> cancelled s \<and> perr s = None \<and> todo s' = todo s \<and> collected s' = collected s \<and>
     mset (chan s') + mset (holds w') + mset (resq s') = mset (chan s) + mset (holds w) + mset (resq s)"
  by (auto simp: worker_defs Let_def split: wstate.splits wev.splits if_splits list.splits option.splits)

lemma worker_ev_exit:
  "worker_ev n cap e w s = Some (w', s') \<Longrightarrow>
     (cancelled s \<or> perr s \<noteq> None \<or> (closed s \<and> chan s = [])
        \<longrightarrow> cancelled s' \<or> perr s' \<noteq> None \<or> (closed s' \<and> chan s' = []))
     \<and> (w' = Exited \<longrightarrow> cancelled s' \<or> perr s' \<noteq> None \<or> (closed s' \<and> chan s' = []))"
  by (auto simp: worker_defs Let_def split: wstate.splits wev.splits if_splits list.splits option.splits)

lemma inv_chunks_step:
  assumes "pool_ev n e s = Some s'" and "inv_chunks n s"
  shows "inv_chunks n s'"
proof (cases e)
  case (Work i x)
  obtain w u where w: "i < length (workers s)"
    "worker_ev n (2 * length (workers s)) x (workers s ! i) s = Some (w, u)"
    "s' = u\<lparr>workers := (workers s)[i := w]\<rparr>" "workers u = workers s"
    using assms(1) unfolding Work by (rule work_step)
  show ?thesis
    unfolding inv_chunks_def
  proof
    assume "\<not> cancelled s' \<and> perr s' = None"
    then have ok: "\<not> cancelled u \<and> perr u = None" by (simp add: w(3))
    note ch = worker_ev_chunks [OF w(2) ok]
    have "over holds ((workers s)[i := w]) + mset (holds (workers s ! i)) = over holds (workers s) + mset (holds w)"
      by (rule over_update [OF w(1)])
    moreover have "mset (todo s) + mset (chan s) + over holds (workers s) + mset (resq s) + mset (collected s) = mset [1..<n + 1]"
      using assms(2) ch by (simp add: inv_chunks_def)
    ultimately have "(mset (todo u) + mset (chan u) + over holds ((workers s)[i := w]) + mset (resq u) + mset (collected u))
        + mset (holds (workers s ! i)) = mset [1..<n + 1] + mset (holds (workers s ! i))"
      using ch by (smt (verit, ccfv_threshold) add.assoc add.commute)
    then show "mset (todo s') + mset (chan s') + over holds (workers s') + mset (resq s') + mset (collected s') = mset [1..<n + 1]"
      by (simp only: w(3)) simp
  qed
qed (use assms in \<open>auto simp: inv_chunks_def send_err_def split: if_splits list.splits option.splits\<close>)

lemma inv_exit_step:
  assumes "pool_ev n e s = Some s'" and "inv_exit s"
  shows "inv_exit s'"
proof (cases e)
  case (Work i x)
  obtain w u where w: "i < length (workers s)"
    "worker_ev n (2 * length (workers s)) x (workers s ! i) s = Some (w, u)"
    "s' = u\<lparr>workers := (workers s)[i := w]\<rparr>" "workers u = workers s"
    using assms(1) unfolding Work by (rule work_step)
  show ?thesis
    using worker_ev_exit [OF w(2)] assms(2) set_update_subset_insert [of "workers s" i w]
    by (auto simp: inv_exit_def w(3))
qed (use assms in \<open>auto simp: inv_exit_def send_err_def split: if_splits list.splits option.splits\<close>)

definition reg_ok :: "nat \<Rightarrow> nat \<Rightarrow> nat list \<Rightarrow> nat multiset \<Rightarrow> nat multiset \<Rightarrow> bool" where
  "reg_ok n k en un wa \<longleftrightarrow>
     ((n \<le> 1 \<and> wa = {#})
      \<or> (en = [] \<and> k = n \<and> un = {#} \<and> wa = {#})
      \<or> (mset en + un = mset [1..<k + 1] \<and> (wa = {#} \<or> (wa = {#n#} \<and> n \<in> set en))))"

lemma inv_registry_iff:
  "inv_registry n s \<longleftrightarrow> (\<exists>k \<le> n. chan s @ todo s = [k + 1..<n + 1]
     \<and> reg_ok n k (enc s) (over unregistered (workers s)) (over waiting (workers s)))"
  by (simp add: inv_registry_def reg_ok_def)

lemma reg_ok_pull: "reg_ok n k en un wa \<Longrightarrow> k < n \<Longrightarrow> reg_ok n (k + 1) en (add_mset (k + 1) un) wa"
  by (auto simp: reg_ok_def)

lemma reg_ok_insert:
  assumes "reg_ok n k en (add_mset j un) wa" and "1 < n" and "k \<le> n"
  shows "mset (List.insert j en) + un = mset [1..<k + 1]" and "j \<notin> set en"
    and "wa = {#} \<or> (wa = {#n#} \<and> n \<in> set en)"
proof -
  from assms have *: "mset en + add_mset j un = mset [1..<k + 1]" "wa = {#} \<or> (wa = {#n#} \<and> n \<in> set en)"
    by (auto simp: reg_ok_def)
  show j: "j \<notin> set en"
  proof
    assume "j \<in> set en"
    then have "2 \<le> count (mset en + add_mset j un) j" by (simp add: Suc_leI count_mset_gt_0)
    moreover have "count (mset [1..<k + 1]) j \<le> 1"
      using distinct_count_atmost_1 [THEN iffD1, OF distinct_upt [of 1 "k + 1"], rule_format, of j]
      by (simp del: upt_Suc)
    ultimately show False unfolding *(1) by linarith
  qed
  show "mset (List.insert j en) + un = mset [1..<k + 1]" using * j by simp
  show "wa = {#} \<or> (wa = {#n#} \<and> n \<in> set en)" by (rule *(2))
qed

lemma full_registry:
  assumes "mset en + un = mset [1..<k + 1]" and "\<not> length en < n" and "k \<le> n"
  shows "k = n" and "un = {#}"
proof -
  have "length en + size un = k" using assms(1) by (metis add_diff_cancel_right' length_upt size_mset size_union)
  then show "k = n" using assms(2,3) by linarith
  have "size un = 0" using \<open>length en + size un = k\<close> assms(2,3) by linarith
  then show "un = {#}" by simp
qed

lemma encode_reg:
  assumes "reg_ok n k (enc s) (add_mset j un) wa" and "k \<le> n" and "(w, u) = encode_ev n c j s"
  shows "reg_ok n k (enc u) un (wa + mset (waiting w)) \<and> chan u = chan s \<and> todo u = todo s"
proof (cases "n \<le> 1")
  case True
  then show ?thesis using assms by (auto simp: encode_ev_def reg_ok_def)
next
  case False
  then have n: "1 < n" by simp
  note ins = reg_ok_insert [OF assms(1) n assms(2)]
  let ?en = "List.insert j (enc s)"
  consider (part) "j \<noteq> n" | (wait) "j = n" "length ?en < n" | (full) "j = n" "\<not> length ?en < n" by blast
  then show ?thesis
  proof cases
    case part
    then have "w = Trying c j 1" "u = s\<lparr>enc := ?en\<rparr>" using assms(3) n by (auto simp: encode_ev_def Let_def)
    then show ?thesis using ins(1,3) by (auto simp: reg_ok_def)
  next
    case wait
    then have "w = Waiting c j" "u = s\<lparr>enc := ?en\<rparr>" using assms(3) n by (auto simp: encode_ev_def Let_def)
    then show ?thesis using ins wait by (auto simp: reg_ok_def)
  next
    case full
    then have "w = Trying c j 1" "u = s\<lparr>enc := []\<rparr>" using assms(3) n by (auto simp: encode_ev_def Let_def)
    then show ?thesis using ins(2,3) full full_registry [OF ins(1) full(2) assms(2)] by (auto simp: reg_ok_def)
  qed
qed

lemma inv_registryI:
  "k \<le> n \<Longrightarrow> chan s @ todo s = [k + 1..<n + 1]
   \<Longrightarrow> reg_ok n k (enc s) (over unregistered (workers s)) (over waiting (workers s)) \<Longrightarrow> inv_registry n s"
  by (auto simp: inv_registry_iff)

lemma inv_registry_same:
  "inv_registry n s \<Longrightarrow> chan s' @ todo s' = chan s @ todo s \<Longrightarrow> enc s' = enc s \<Longrightarrow> workers s' = workers s
   \<Longrightarrow> inv_registry n s'"
  by (simp only: inv_registry_def)

lemma inv_registry_step:
  assumes "pool_ev n e s = Some s'" and "inv_registry n s"
  shows "inv_registry n s'"
proof (cases e)
  case (Work i x)
  obtain w u where w: "i < length (workers s)"
    "worker_ev n (2 * length (workers s)) x (workers s ! i) s = Some (w, u)"
    "s' = u\<lparr>workers := (workers s)[i := w]\<rparr>" "workers u = workers s"
    using assms(1) unfolding Work by (rule work_step)
  obtain k where k: "k \<le> n" "chan s @ todo s = [k + 1..<n + 1]"
    "reg_ok n k (enc s) (over unregistered (workers s)) (over waiting (workers s))"
    using assms(2) by (auto simp: inv_registry_iff)
  have un: "over unregistered ((workers s)[i := w]) + mset (unregistered (workers s ! i))
      = over unregistered (workers s) + mset (unregistered w)"
    and wa: "over waiting ((workers s)[i := w]) + mset (waiting (workers s ! i))
      = over waiting (workers s) + mset (waiting w)"
    by (rule over_update [OF w(1)])+
  show ?thesis
  proof (cases "workers s ! i")
    case (Idle c)
    show ?thesis
    proof (cases "x = WPull")
      case True
      then obtain j js where j: "chan s = j # js" "w = Pulled c j" "u = s\<lparr>chan := js\<rparr>"
        using w(2) Idle by (auto simp: worker_defs split: list.splits)
      have eq: "[k + 1..<n + 1] = j # js @ todo s" using k(2) j by simp
      then have "k + 1 < n + 1" by (metis list.distinct(1) upt_rec)
      then have "k < n" "j = k + 1" "js @ todo s = [k + 2..<n + 1]"
        using eq upt_conv_Cons [of "k + 1" "n + 1"] by (simp_all del: upt_Suc)
      then show ?thesis
        using reg_ok_pull [OF k(3)] un wa Idle j
        by (auto simp: inv_registry_iff w(3) intro!: exI [of _ "k + 1"])
    next
      case False
      then have "w = Exited" "u = s"
        using w(2) Idle by (auto simp: worker_defs split: wev.splits if_splits)
      then show ?thesis
        using un wa Idle k by (auto simp: inv_registry_iff w(3))
    qed
  next
    case (Pulled c j)
    then have x: "(w, u) = encode_ev n c j s" using w(2) by (auto simp: worker_ev_def split: if_splits)
    have un': "over unregistered (workers s) = add_mset j (over unregistered ((workers s)[i := w]))"
      using un Pulled x by (auto simp: encode_ev_def Let_def split: if_splits)
    have wa': "over waiting ((workers s)[i := w]) = over waiting (workers s) + mset (waiting w)"
      using wa Pulled by simp
    from encode_reg [OF k(3) [unfolded un'] k(1) x]
    show ?thesis
      using k(1,2) by (intro inv_registryI [of k]) (simp_all add: w(3) wa')
  next
    case (Waiting c j)
    then have x: "\<not> length (enc s) < n" "w = Trying c j 1" "u = s\<lparr>enc := []\<rparr>"
      using w(2) by (auto simp: worker_defs split: if_splits)
    have wa': "over waiting (workers s) = add_mset j (over waiting ((workers s)[i := w]))"
      using wa Waiting x by simp
    then have r: "mset (enc s) + over unregistered (workers s) = mset [1..<k + 1]"
      "over waiting ((workers s)[i := w]) = {#}"
      using k(3) by (auto simp: reg_ok_def)
    then show ?thesis
      using full_registry [OF r(1) x(1) k(1)] un Waiting x k
      by (intro inv_registryI [of n]) (auto simp: w(3) reg_ok_def)
  next
    case (Trying c j a)
    then have "u\<lparr>perr := perr s\<rparr> = s" "unregistered w = []" "waiting w = []"
      using w(2) by (auto simp: worker_defs split: wev.splits if_splits option.splits)
    moreover from this(1) have "chan u = chan s" "todo u = todo s" "enc u = enc s"
      by (metis pool.select_convs pool.surjective pool.update_convs)+
    ultimately show ?thesis
      using un wa Trying k by (auto simp: inv_registry_iff w(3))
  next
    case (Posted c j)
    then show ?thesis
      using w(2) un wa k by (auto simp: inv_registry_iff w(3) worker_defs split: if_splits)
  next
    case Exited
    then show ?thesis using w(2) by (simp add: worker_ev_def)
  qed
qed (rule inv_registry_same, use assms in \<open>auto simp: send_err_def split: if_splits list.splits option.splits\<close>)+

lemma pool_inv_run: "pool_run n es s = Some s' \<Longrightarrow> pool_inv n s \<Longrightarrow> pool_inv n s'"
proof (induction es arbitrary: s)
  case (Cons e es)
  then show ?case
    using inv_chunks_step inv_exit_step inv_registry_step
    by (auto simp: pool_inv_def split: option.splits)
qed simp

lemma workers_run: "pool_run n es s = Some s' \<Longrightarrow> length (workers s') = length (workers s)"
proof (induction es arbitrary: s)
  case (Cons e es)
  then obtain s1 where s1: "pool_ev n e s = Some s1" "pool_run n es s1 = Some s'" by (auto split: option.splits)
  have "length (workers s1) = length (workers s)"
  proof (cases e)
    case (Work i x)
    show ?thesis using s1(1) unfolding Work by (rule work_step) simp
  qed (use s1(1) in \<open>auto simp: send_err_def split: if_splits list.splits option.splits\<close>)
  then show ?case using Cons.IH [OF s1(2)] by simp
qed simp

section \<open>No deadlock\<close>

lemma waiting_ready:
  assumes "pool_inv n s" and "i < length (workers s)" and "workers s ! i = Waiting c j"
  shows "\<not> length (enc s) < n \<or> (\<exists>l < length (workers s). \<exists>c j. workers s ! l = Pulled c j)"
proof -
  have "over waiting (workers s) \<noteq> {#}" using over_empty_nth [of waiting "workers s" i] assms(2,3) by auto
  then obtain k where k: "k \<le> n" "n \<in> set (enc s)"
    "mset (enc s) + over unregistered (workers s) = mset [1..<k + 1]"
    using assms(1) unfolding pool_inv_def inv_registry_iff reg_ok_def by blast
  have "n \<in># mset (enc s) + over unregistered (workers s)" using k(2) by simp
  then have "n \<in> set [1..<k + 1]" unfolding k(3) by (simp only: set_mset_mset)
  then have kn: "k = n" using k(1) by auto
  show ?thesis
  proof (cases "over unregistered (workers s) = {#}")
    case True
    then have "length (enc s) = n" using k(3) kn by (metis add.right_neutral add_diff_cancel_right' length_upt size_mset)
    then show ?thesis by simp
  next
    case False
    then obtain m where "m \<in># over unregistered (workers s)" by blast
    then obtain l where l: "l < length (workers s)" "m \<in> set (unregistered (workers s ! l))"
      by (auto simp: over_mem)
    then have "\<exists>c j. workers s ! l = Pulled c j" by (cases "workers s ! l") auto
    with l(1) show ?thesis by blast
  qed
qed

lemma work_enabled:
  "i < length (workers s) \<Longrightarrow> worker_ev n (2 * length (workers s)) e (workers s ! i) s \<noteq> None
   \<Longrightarrow> \<exists>s'. pool_ev n (Work i e) s = Some s'"
  by (auto split: option.splits)

lemma no_deadlock:
  assumes "pool_inv n s" and "\<not> finished s"
  shows "\<exists>e s'. pool_ev n e s = Some s'"
proof (cases "resq s")
  case (Cons j js)
  then have "\<exists>s'. pool_ev n Take s = Some s'" by simp
  then show ?thesis by blast
next
  case Nil
  then have "\<not> list_all (\<lambda>w. w = Exited) (workers s)" using assms(2) by (simp add: finished_def)
  then obtain i where i: "i < length (workers s)" "workers s ! i \<noteq> Exited"
    by (auto simp: list_all_length)
  have work: "\<exists>e s'. pool_ev n e s = Some s'"
    if "l < length (workers s)" "worker_ev n (2 * length (workers s)) x (workers s ! l) s \<noteq> None" for l x
    using work_enabled [OF that] by blast
  show ?thesis
  proof (cases "workers s ! i")
    case (Idle c)
    consider "chan s \<noteq> []" | "chan s = []" "closed s" | "chan s = []" "\<not> closed s" "todo s = []"
      | (send) "chan s = []" "\<not> closed s" "todo s \<noteq> []" by blast
    then show ?thesis
    proof cases
      case 1
      then show ?thesis by (intro work [OF i(1), of WPull]) (auto simp: Idle worker_defs split: list.splits)
    next
      case 2
      then show ?thesis by (intro work [OF i(1), of WClosed]) (simp add: Idle worker_defs)
    next
      case 3
      then have "\<exists>s'. pool_ev n DEnd s = Some s'" by simp
      then show ?thesis by blast
    next
      case send
      then have "\<exists>s'. pool_ev n DSend s = Some s'" using i(1) by (auto split: list.splits)
      then show ?thesis by blast
    qed
  next
    case (Pulled c j)
    then show ?thesis by (intro work [OF i(1), of WEncode]) (simp add: worker_ev_def)
  next
    case (Waiting c j)
    from waiting_ready [OF assms(1) i(1) Waiting] show ?thesis
    proof
      assume "\<not> length (enc s) < n"
      then show ?thesis by (intro work [OF i(1), of WWake]) (simp add: Waiting worker_defs)
    next
      assume "\<exists>l < length (workers s). \<exists>c j. workers s ! l = Pulled c j"
      then obtain l c j where "l < length (workers s)" "workers s ! l = Pulled c j" by blast
      then show ?thesis by (intro work [of l WEncode]) (simp_all add: worker_ev_def)
    qed
  next
    case (Trying c j a)
    consider "a > 3" | "\<not> a > 3" "c" | "\<not> a > 3" "\<not> c" by blast
    then show ?thesis
    proof cases
      case 1
      then show ?thesis by (intro work [OF i(1), of WGiveUp]) (simp add: Trying worker_ev_def try_ev_def)
    next
      case 2
      then show ?thesis by (intro work [OF i(1), of WPostOk]) (simp add: Trying worker_ev_def try_ev_def)
    next
      case 3
      then show ?thesis by (intro work [OF i(1), of WConnOk]) (simp add: Trying worker_ev_def try_ev_def)
    qed
  next
    case (Posted c j)
    then show ?thesis using Nil i(1) by (intro work [OF i(1), of WResult]) (auto simp: worker_defs)
  qed (use i in simp)
qed

lemma finished_holds: "list_all (\<lambda>w. w = Exited) ws \<Longrightarrow> over holds ws = {#}"
  by (induction ws) (auto simp: over_def)

text \<open>The chunk channel has two places per worker.\<close>

lemma chan_step:
  assumes "pool_ev n e s = Some s'" and "length (chan s) \<le> 2 * length (workers s)"
  shows "length (chan s') \<le> 2 * length (workers s')"
proof (cases e)
  case (Work i x)
  obtain w u where w: "i < length (workers s)"
    "worker_ev n (2 * length (workers s)) x (workers s ! i) s = Some (w, u)"
    "s' = u\<lparr>workers := (workers s)[i := w]\<rparr>" "workers u = workers s"
    using assms(1) unfolding Work by (rule work_step)
  have "length (chan u) \<le> length (chan s)"
    using w(2) by (auto simp: worker_defs Let_def split: wstate.splits wev.splits if_splits list.splits option.splits)
  then show ?thesis using assms(2) by (simp add: w(3))
qed (use assms in \<open>auto simp: send_err_def split: if_splits list.splits option.splits\<close>)

lemma chan_run: "pool_run n es s = Some s' \<Longrightarrow> length (chan s) \<le> 2 * length (workers s) \<Longrightarrow> length (chan s') \<le> 2 * length (workers s')"
  by (induction es arbitrary: s) (auto split: option.splits dest: chan_step)

text \<open>The reader closes the channel before the end of the file only after a cancellation, an error or
  an early end of the file.\<close>

definition read_all :: "pool \<Rightarrow> bool" where
  "read_all s \<longleftrightarrow> (closed s \<longrightarrow> cancelled s \<or> perr s \<noteq> None \<or> todo s = [])"

lemma read_all_step:
  assumes "pool_ev n e s = Some s'" and "read_all s" and "e \<noteq> DEof"
  shows "read_all s'"
proof (cases e)
  case (Work i x)
  obtain w u where w: "i < length (workers s)"
    "worker_ev n (2 * length (workers s)) x (workers s ! i) s = Some (w, u)"
    "s' = u\<lparr>workers := (workers s)[i := w]\<rparr>" "workers u = workers s"
    using assms(1) unfolding Work by (rule work_step)
  have "closed u = closed s \<and> cancelled u = cancelled s \<and> todo u = todo s \<and> (perr s \<noteq> None \<longrightarrow> perr u \<noteq> None)"
    using w(2) by (auto simp: worker_defs Let_def split: wstate.splits wev.splits if_splits list.splits option.splits)
  then show ?thesis using assms(2) by (auto simp: read_all_def w(3))
qed (use assms in \<open>auto simp: read_all_def send_err_def split: if_splits list.splits option.splits\<close>)

lemma read_all_run: "pool_run n es s = Some s' \<Longrightarrow> read_all s \<Longrightarrow> DEof \<notin> set es \<Longrightarrow> read_all s'"
  by (induction es arbitrary: s) (auto split: option.splits dest: read_all_step)

lemma run_result:
  assumes "pool_run n es (pool_init W n) = Some s" and "finished s" and "upload_result s = Inr segs"
  shows "mset segs = mset [1..<n + 1 - length (todo s)]" and "0 < W \<Longrightarrow> DEof \<notin> set es \<Longrightarrow> todo s = []"
proof -
  have inv: "pool_inv n s" by (rule pool_inv_run [OF assms(1) pool_inv_init])
  have ok: "\<not> cancelled s" "perr s = None" "segs = collected s"
    using assms(3) by (auto simp: upload_result_def split: if_splits option.splits)
  have len: "length (workers s) = W" using workers_run [OF assms(1)] by (simp add: pool_init_def)
  have exited: "closed s \<and> chan s = []" if "0 < W"
  proof -
    have "Exited \<in> set (workers s)" using assms(2) len that by (cases "workers s") (auto simp: finished_def)
    then show ?thesis using inv ok by (simp add: pool_inv_def inv_exit_def)
  qed
  have chan: "chan s = []"
  proof (cases "0 < W")
    case False
    then show ?thesis using chan_run [OF assms(1)] len by (simp add: pool_init_def)
  qed (simp add: exited)
  obtain k where k: "k \<le> n" "todo s = [k + 1..<n + 1]"
    using inv chan by (auto simp: pool_inv_def inv_registry_def)
  have "mset (todo s) + mset segs = mset [1..<n + 1]"
    using inv ok assms(2) chan finished_holds [of "workers s"]
    by (simp add: pool_inv_def inv_chunks_def finished_def del: upt_Suc)
  moreover have "[1..<n + 1] = [1..<k + 1] @ [k + 1..<n + 1]"
    using k(1) by (metis add_le_mono1 le_add2 le_add_diff_inverse upt_add_eq_append)
  ultimately have "mset [k + 1..<n + 1] + mset segs = mset [k + 1..<n + 1] + mset [1..<k + 1]"
    using k(2) by (metis add.commute mset_append)
  then have "mset segs = mset [1..<k + 1]" by (rule add_left_imp_eq)
  moreover have "n + 1 - length (todo s) = k + 1" using k by simp
  ultimately show "mset segs = mset [1..<n + 1 - length (todo s)]" by simp
  show "todo s = []" if "0 < W" "DEof \<notin> set es"
    using read_all_run [OF assms(1) _ that(2)] exited [OF that(1)] ok by (auto simp: read_all_def pool_init_def)
qed

section \<open>Properties\<close>

text \<open>
  C9. The worker pool terminates and never deadlocks: from the start, whatever the network, the file
  and the shutdown signal do, a run has at most \<open>14 * n + W + 2\<close> steps, and as long as the pool is
  not finished some step is possible. In particular the final part's wait for the checksums of the
  other parts always ends, and a full result channel or job channel never stops the workers.
\<close>

theorem pool_progress:
  assumes "pool_run n es (pool_init W n) = Some s"
  shows "length es \<le> 14 * n + W + 2 \<and> (finished s \<or> (\<exists>e s'. pool_ev n e s = Some s'))"
  using pool_run_pot [OF assms] no_deadlock [OF pool_inv_run [OF assms pool_inv_init]]
  by (auto simp: pool_pot_init)

theorem pool_progress_witness:
  "pool_run 2 [DSend, DSend, Work 0 WPull, Work 1 WPull, Work 1 WEncode] (pool_init 2 2) \<noteq> None
   \<and> length [DSend, DSend, Work 0 WPull, Work 1 WPull, Work 1 WEncode] \<le> 14 * 2 + 2 + 2"
proof -
  let ?es = "[DSend, DSend, Work 0 WPull, Work 1 WPull, Work 1 WEncode]"
  have run: "pool_run 2 ?es (pool_init 2 2) \<noteq> None" by code_simp
  then obtain s where "pool_run 2 ?es (pool_init 2 2) = Some s" by blast
  from pool_progress [OF this] run show ?thesis by simp
qed

text \<open>
  C8. When the pool has finished and reports success, the segments it returns are exactly the chunks the
  reader handed over, the first \<open>m\<close> of the file, each once, whatever the interleaving and however many
  workers. With at least one worker and a file that does not end early these are all the chunks \<open>1..n\<close>.
\<close>

theorem pool_result_complete:
  assumes "pool_run n es (pool_init W n) = Some s" and "finished s" and "upload_result s = Inr segs"
  shows "mset segs = mset [1..<n + 1 - length (todo s)]
     \<and> (0 < W \<and> DEof \<notin> set es \<longrightarrow> mset segs = mset [1..<n + 1])"
proof -
  note r = run_result [OF assms]
  show ?thesis using r(1) r(2) by (metis diff_zero list.size(3))
qed

definition example_run :: "ev list" where
  "example_run = [DSend, DSend, DEnd, Work 0 WPull, Work 1 WPull, Work 1 WEncode, Work 0 WEncode, Work 1 WWake,
     Work 0 WConnOk, Work 0 WPostFail, Work 0 WConnOk, Work 1 WConnOk, Work 1 WPostOk, Work 1 WResult,
     Take, Work 0 WPostOk, Work 0 WResult, Take, Work 0 WClosed, Work 1 WClosed]"

theorem pool_result_complete_witness:
  "\<exists>s segs. pool_run 2 example_run (pool_init 2 2) = Some s \<and> upload_result s = Inr segs \<and> mset segs = mset [1..<2 + 1]"
proof -
  have run: "(case pool_run 2 example_run (pool_init 2 2) of
      Some s \<Rightarrow> finished s \<and> upload_result s = Inr [2, 1] | None \<Rightarrow> False)"
    by code_simp
  then obtain s where s: "pool_run 2 example_run (pool_init 2 2) = Some s" "finished s"
    "upload_result s = Inr [2, 1]" by (auto split: option.splits)
  have "DEof \<notin> set example_run" by (simp add: example_run_def)
  then have "mset [2, 1] = mset [1..<2 + 1]"
    using conjunct2 [OF pool_result_complete [OF s]] by simp
  then show ?thesis using s by blast
qed

text \<open>
  With no worker (\<^verbatim>\<open>NNTP_CONNECTIONS=0\<close>, which nothing rejects) the upload of a file of any
  size is finished at once and reports success with no segment.
\<close>

theorem pool_no_worker: "finished (pool_init 0 n) \<and> upload_result (pool_init 0 n) = Inr []"
  by (simp add: finished_def pool_init_def upload_result_def)

text \<open>
  A file that was cut short after its size was read ends the reader early, and the upload succeeds
  without the chunks that are missing.
\<close>

theorem pool_short_file:
  "\<exists>es s. pool_run 2 es (pool_init 1 2) = Some s \<and> finished s \<and> upload_result s = Inr [1]"
proof -
  let ?es = "[DSend, DEof, Work 0 WPull, Work 0 WEncode, Work 0 WConnOk, Work 0 WPostOk, Work 0 WResult, Take, Work 0 WClosed]"
  have "(case pool_run 2 ?es (pool_init 1 2) of Some s \<Rightarrow> finished s \<and> upload_result s = Inr [1] | None \<Rightarrow> False)"
    by code_simp
  then obtain s where "pool_run 2 ?es (pool_init 1 2) = Some s" "finished s" "upload_result s = Inr [1]"
    by (auto simp del: pool_run.simps split: option.splits)
  then show ?thesis by blast
qed

end
