(* ===== verification/Crc32.thy ===== *)
theory Crc32
  imports GoBase
begin

text \<open>
  CRC-32/IEEE and its combination (\<^verbatim>\<open>services/upload_usenet.go\<close>:
  \<^verbatim>\<open>crc32CombineIEEE\<close>, \<^verbatim>\<open>gf2MatrixTimes\<close>, \<^verbatim>\<open>gf2MatrixSquare\<close>).
  The checksum itself is Go's \<^verbatim>\<open>hash/crc32\<close>; it is written here bit by bit,
  as its documentation defines it (reflected polynomial 0xedb88320, initial register and final
  exclusive or of all ones). The locale \<open>combinable_checksum\<close> is the contract the yEnc
  encoder relies on.
\<close>

section \<open>The checksum of the standard library\<close>

definition crc_poly :: u32 where
  "crc_poly = 0xedb88320"

definition crc_shift :: "u32 \<Rightarrow> u32" where
  "crc_shift r = (if bit r 0 then drop_bit 1 r XOR crc_poly else drop_bit 1 r)"

definition crc_byte :: "u32 \<Rightarrow> u8 \<Rightarrow> u32" where
  "crc_byte r b = (crc_shift ^^ 8) (r XOR ucast b)"

definition checksumIEEE :: "bytes \<Rightarrow> u32" where
  "checksumIEEE data = NOT (foldl crc_byte (NOT 0) data)"

section \<open>Matrices over GF(2)\<close>

function gf2_times_loop :: "u32 list \<Rightarrow> u32 \<Rightarrow> nat \<Rightarrow> u32 \<Rightarrow> u32" where
  "gf2_times_loop mat vec i acc =
     (if vec = 0 then acc
      else gf2_times_loop mat (drop_bit 1 vec) (Suc i)
             (if vec AND 1 \<noteq> 0 then acc XOR mat ! i else acc))"
  by pat_completeness auto
termination
proof (relation "measure (\<lambda>(mat, vec, i, sum). unat vec)", goal_cases)
  case 1
  show ?case by simp
next
  case (2 mat vec i acc)
  then have "0 < unat vec" by (simp add: unat_gt_0)
  then show ?case by simp
qed

declare gf2_times_loop.simps [simp del]

definition gf2MatrixTimes :: "u32 list \<Rightarrow> u32 \<Rightarrow> u32" where
  "gf2MatrixTimes mat vec = gf2_times_loop mat vec 0 0"

definition gf2MatrixSquare :: "u32 list \<Rightarrow> u32 list" where
  "gf2MatrixSquare mat = map (\<lambda>i. gf2MatrixTimes mat (mat ! i)) [0..<32]"

section \<open>Combining two checksums\<close>

text \<open>The initial operator: the first entry is the polynomial, entry \<open>i\<close> is
  \<open>2 ^ (i - 1)\<close>.\<close>

definition odd_init :: "u32 list" where
  "odd_init = crc_poly # map (\<lambda>i. push_bit i 1) [0..<31]"

function combine_loop :: "u32 list \<Rightarrow> u32 \<Rightarrow> u64 \<Rightarrow> u32" where
  "combine_loop oddm crc l =
     (let evenm = gf2MatrixSquare oddm;
          crc1 = (if l AND 1 \<noteq> 0 then gf2MatrixTimes evenm crc else crc);
          l1 = drop_bit 1 l
      in if l1 = 0 then crc1
         else let odd1 = gf2MatrixSquare evenm;
                  crc2 = (if l1 AND 1 \<noteq> 0 then gf2MatrixTimes odd1 crc1 else crc1);
                  l2 = drop_bit 1 l1
              in if l2 = 0 then crc2 else combine_loop odd1 crc2 l2)"
  by pat_completeness auto
termination
proof (relation "measure (\<lambda>(oddm, crc, l). unat l)", goal_cases)
  case 1
  show ?case by simp
next
  case (2 oddm crc l evenm crc1 l1 odd1 crc2 l2)
  then have "unat l1 \<noteq> 0" using unat_eq_zero by blast
  moreover have "unat l1 = unat l div 2" "unat l2 = unat l1 div 2"
    using 2 unat_half [of l] unat_half [of l1] by simp_all
  ultimately show ?case by simp
qed

declare combine_loop.simps [simp del]

definition crc32CombineIEEE :: "u32 \<Rightarrow> u32 \<Rightarrow> int \<Rightarrow> u32" where
  "crc32CombineIEEE crc1 crc2 len2 =
     (if len2 \<le> 0 then crc1
      else combine_loop (gf2MatrixSquare (gf2MatrixSquare odd_init)) crc1 (word_of_int len2)
             XOR crc2)"

section \<open>Linear operators and their matrices\<close>

definition xor_linear :: "(u32 \<Rightarrow> u32) \<Rightarrow> bool" where
  "xor_linear f \<longleftrightarrow> (\<forall>x y. f (x XOR y) = f x XOR f y)"

definition mat_of :: "(u32 \<Rightarrow> u32) \<Rightarrow> u32 list" where
  "mat_of f = map (\<lambda>i. f (push_bit i 1)) [0..<32]"

lemma xor_linear_zero: "xor_linear f \<Longrightarrow> f 0 = 0"
  unfolding xor_linear_def by (metis xor.right_neutral xor_self_eq)

lemma xor_linear_comp [intro]: "xor_linear f \<Longrightarrow> xor_linear g \<Longrightarrow> xor_linear (f \<circ> g)"
  by (simp add: xor_linear_def)

lemma xor_linear_funpow [intro]: "xor_linear f \<Longrightarrow> xor_linear (f ^^ n)"
  by (induction n) (auto simp: xor_linear_def)

lemma xor_linear_crc_shift [intro, simp]: "xor_linear crc_shift"
proof -
  have "crc_shift (x XOR y) = crc_shift x XOR crc_shift y" for x y
    by (rule bit_word_eqI) (auto simp: crc_shift_def bit_simps)
  then show ?thesis by (simp add: xor_linear_def)
qed

lemma mat_of_nth: "i < 32 \<Longrightarrow> mat_of f ! i = f (push_bit i 1)"
  by (simp add: mat_of_def)

text \<open>The multiplication loop reads at most entry 31: a vector shifted right \<open>i\<close>
  times has at most \<open>32 - i\<close> bits.\<close>

lemma shift_split:
  fixes vec :: u32
  assumes "unat vec < 2 ^ (32 - i)" "vec \<noteq> 0" "i \<le> 32"
  shows "i < 32" "unat (drop_bit 1 vec) < 2 ^ (32 - Suc i)"
    "push_bit i vec = (if vec AND 1 \<noteq> 0 then push_bit i 1 else 0) XOR push_bit (Suc i) (drop_bit 1 vec)"
proof -
  from assms(2) have "unat vec \<noteq> 0" by (simp add: unat_eq_zero)
  with assms show i: "i < 32" by (cases "i = 32") auto
  have "unat vec < 2 * 2 ^ (32 - Suc i)"
    using assms(1) i by (metis Suc_diff_Suc power_Suc)
  then show "unat (drop_bit 1 vec) < 2 ^ (32 - Suc i)"
    by simp
  show "push_bit i vec = (if vec AND 1 \<noteq> 0 then push_bit i 1 else 0) XOR push_bit (Suc i) (drop_bit 1 vec)"
  proof (rule bit_word_eqI)
    fix n assume "n < LENGTH(32)"
    then show "bit (push_bit i vec) n =
        bit ((if vec AND 1 \<noteq> 0 then push_bit i 1 else 0) XOR push_bit (Suc i) (drop_bit 1 vec)) n"
      unfolding and_one_iff_bit
      by (cases "n < i"; cases "n = i")
         (auto simp add: bit_simps Suc_diff_Suc simp del: push_bit_Suc)
  qed
qed

lemma gf2_times_loop_mat_of:
  assumes "xor_linear f"
  shows "unat vec < 2 ^ (32 - i) \<Longrightarrow> i \<le> 32
    \<Longrightarrow> gf2_times_loop (mat_of f) vec i acc = acc XOR f (push_bit i vec)"
proof (induction "mat_of f" vec i acc rule: gf2_times_loop.induct)
  case (1 vec i acc)
  show ?case
  proof (cases "vec = 0")
    case True
    then show ?thesis
      using xor_linear_zero [OF assms] by (simp add: gf2_times_loop.simps)
  next
    case False
    note split = shift_split [OF "1.prems"(1) False "1.prems"(2)]
    have "gf2_times_loop (mat_of f) vec i acc =
        (if vec AND 1 \<noteq> 0 then acc XOR mat_of f ! i else acc)
          XOR f (push_bit (Suc i) (drop_bit 1 vec))"
      using False split(1,2) "1.hyps" [OF False] by (subst gf2_times_loop.simps) simp
    also have "\<dots> = acc XOR f (push_bit i vec)"
      using split(1,3) assms
      by (simp add: xor_linear_def mat_of_nth xor_linear_zero [OF assms] xor.assoc del: push_bit_Suc)
    finally show ?thesis .
  qed
qed

lemma gf2MatrixTimes_mat_of: "xor_linear f \<Longrightarrow> gf2MatrixTimes (mat_of f) v = f v"
  using unsigned_less [of v, where 'a = nat]
  by (simp add: gf2MatrixTimes_def gf2_times_loop_mat_of)

lemma gf2MatrixSquare_mat_of: "xor_linear f \<Longrightarrow> gf2MatrixSquare (mat_of f) = mat_of (f \<circ> f)"
  by (auto simp: gf2MatrixSquare_def gf2MatrixTimes_mat_of mat_of_nth) (simp add: mat_of_def)

lemma odd_init_mat_of: "odd_init = mat_of crc_shift"
proof (rule nth_equalityI)
  show "length odd_init = length (mat_of crc_shift)" by (simp add: odd_init_def mat_of_def)
next
  fix i assume "i < length odd_init"
  then have i: "i < 32" by (simp add: odd_init_def)
  show "odd_init ! i = mat_of crc_shift ! i"
  proof (cases i)
    case 0
    then show ?thesis by (simp add: odd_init_def mat_of_nth crc_shift_def)
  next
    case (Suc j)
    then have "\<not> bit (push_bit i 1 :: u32) 0" by (simp add: bit_simps del: push_bit_Suc)
    moreover have "drop_bit 1 (push_bit i 1 :: u32) = push_bit j 1"
      using i Suc by (intro bit_word_eqI) (auto simp add: bit_simps simp del: push_bit_Suc)
    ultimately show ?thesis
      using i Suc by (simp add: odd_init_def mat_of_nth crc_shift_def del: push_bit_Suc)
  qed
qed

section \<open>The combination loop\<close>

lemma funpow_comp_self: "(f \<circ> f) ^^ n = f ^^ (2 * n)"
  by (induction n) (simp_all add: funpow_add comp_assoc)

lemma bit_step_funpow:
  fixes w :: u64
  shows "(if w AND 1 \<noteq> 0 then F c else c) = (F ^^ (unat w mod 2)) c"
proof (cases "bit w 0")
  case True
  then have "odd (unat w)" using bit_unsigned_iff [where 'a = nat, of w 0] by (simp add: bit_0)
  then have "unat w mod 2 = 1" by presburger
  with True show ?thesis by (simp add: and_one_iff_bit)
next
  case False
  then have "even (unat w)" using bit_unsigned_iff [where 'a = nat, of w 0] by (simp add: bit_0)
  then have "unat w mod 2 = 0" by presburger
  with False show ?thesis by (simp add: and_one_iff_bit)
qed

lemma combine_loop_funpow:
  assumes "xor_linear f"
  shows "combine_loop (mat_of f) crc l = (f ^^ (2 * unat l)) crc"
  using assms
proof (induction "unat l" arbitrary: f crc l rule: less_induct)
  case less
  let ?g = "f \<circ> f"
  let ?h = "?g \<circ> ?g"
  let ?n = "unat l"
  let ?crc1 = "(?g ^^ (?n mod 2)) crc"
  let ?l1 = "drop_bit 1 l"
  let ?l2 = "drop_bit 1 ?l1"
  let ?crc2 = "(?h ^^ (unat ?l1 mod 2)) ?crc1"
  have lin: "xor_linear ?g" "xor_linear ?h" using less.prems by auto
  have app: "gf2MatrixTimes (mat_of ?g) = ?g" "gf2MatrixTimes (mat_of ?h) = ?h"
    by (rule ext, rule gf2MatrixTimes_mat_of, rule lin)+
  have step: "combine_loop (mat_of f) crc l =
      (if ?l1 = 0 then ?crc1 else if ?l2 = 0 then ?crc2 else combine_loop (mat_of ?h) ?crc2 ?l2)"
    by (subst combine_loop.simps)
       (simp only: Let_def gf2MatrixSquare_mat_of less.prems lin app
          bit_step_funpow [of l ?g crc] bit_step_funpow [of ?l1 ?h ?crc1])
  have half: "unat ?l1 = ?n div 2" "unat ?l2 = ?n div 2 div 2"
    using unat_half [of l] unat_half [of ?l1] by simp_all
  have z: "?l1 = 0 \<longleftrightarrow> ?n div 2 = 0" "?l2 = 0 \<longleftrightarrow> ?n div 2 div 2 = 0"
    using half unat_eq_zero by metis+
  have crc1: "?crc1 = (f ^^ (2 * (?n mod 2))) crc"
    by (simp only: funpow_comp_self)
  have crc2: "?crc2 = (f ^^ (4 * (?n div 2 mod 2) + 2 * (?n mod 2))) crc"
    unfolding half(1) by (simp add: funpow_comp_self funpow_add)
  show ?case
  proof (cases "?n div 2 div 2 = 0")
    case True
    note z2 = True
    show ?thesis
    proof (cases "?n div 2 = 0")
      case True
      then have "2 * (?n mod 2) = 2 * ?n" by presburger
      moreover have "combine_loop (mat_of f) crc l = ?crc1"
        unfolding step using z True by (auto intro: if_P)
      ultimately show ?thesis using crc1 by (simp only:)
    next
      case False
      have "4 * (?n div 2 mod 2) + 2 * (?n mod 2) = 2 * ?n" using z2 by presburger
      moreover have "combine_loop (mat_of f) crc l = ?crc2"
      proof -
        have "?l1 \<noteq> 0" "?l2 = 0" using z False z2 by blast+
        then show ?thesis unfolding step by (simp only: if_False if_True simp_thms)
      qed
      ultimately show ?thesis using crc2 by (simp only:)
    qed
  next
    case False
    then have "unat ?l2 < ?n" using half by simp
    from less.hyps [OF this lin(2)]
    have "combine_loop (mat_of ?h) ?crc2 ?l2 = (?h ^^ (2 * (?n div 2 div 2))) ?crc2"
      unfolding half(2) .
    also have "\<dots> = (f ^^ (8 * (?n div 2 div 2) + (4 * (?n div 2 mod 2) + 2 * (?n mod 2)))) crc"
      unfolding crc2 by (simp add: funpow_comp_self funpow_add)
    also have "8 * (?n div 2 div 2) + (4 * (?n div 2 mod 2) + 2 * (?n mod 2)) = 2 * ?n"
      by presburger
    finally have rest: "combine_loop (mat_of ?h) ?crc2 ?l2 = (f ^^ (2 * ?n)) crc" .
    have "?n div 2 \<noteq> 0" using False by presburger
    then have "combine_loop (mat_of f) crc l = combine_loop (mat_of ?h) ?crc2 ?l2"
    proof -
      have "?l1 \<noteq> 0" "?l2 \<noteq> 0" using z False \<open>?n div 2 \<noteq> 0\<close> by blast+
      then show ?thesis unfolding step by (simp only: if_False simp_thms)
    qed
    then show ?thesis using rest by (simp only:)
  qed
qed

lemma combine_operator:
  "combine_loop (gf2MatrixSquare (gf2MatrixSquare odd_init)) crc l = (crc_shift ^^ (8 * unat l)) crc"
proof -
  have "gf2MatrixSquare (gf2MatrixSquare odd_init) = mat_of (crc_shift ^^ 4)"
    by (simp add: odd_init_mat_of gf2MatrixSquare_mat_of xor_linear_comp comp_assoc
        numeral_eq_Suc)
  moreover have "xor_linear (crc_shift ^^ 4)" by auto
  ultimately show ?thesis
    by (simp add: combine_loop_funpow funpow_mult)
qed

section \<open>The register of a concatenation\<close>

lemma crc_byte_linear: "crc_byte (r XOR s) b = (crc_shift ^^ 8) s XOR crc_byte r b"
  using xor_linear_funpow [OF xor_linear_crc_shift, of 8]
  by (simp add: crc_byte_def xor_linear_def xor.assoc xor.left_commute xor.commute)

lemma foldl_crc_linear:
  "foldl crc_byte (r XOR s) data = (crc_shift ^^ (8 * length data)) s XOR foldl crc_byte r data"
proof (induction data arbitrary: r s)
  case Nil
  then show ?case by (simp add: xor.commute)
next
  case (Cons b data)
  have "foldl crc_byte (crc_byte (r XOR s) b) data =
      foldl crc_byte (crc_byte r b XOR (crc_shift ^^ 8) s) data"
    by (simp only: crc_byte_linear xor.commute)
  also have "\<dots> = (crc_shift ^^ (8 * length data)) ((crc_shift ^^ 8) s) XOR foldl crc_byte (crc_byte r b) data"
    by (rule Cons.IH)
  also have "(crc_shift ^^ (8 * length data)) ((crc_shift ^^ 8) s) = (crc_shift ^^ (8 * length (b # data))) s"
  proof -
    have "8 * length (b # data) = 8 * length data + 8" by simp
    then show ?thesis by (simp only: funpow_add o_apply)
  qed
  finally show ?case by simp
qed

lemma not_eq_xor: "NOT (w :: u32) = NOT 0 XOR w"
  by (rule bit_word_eqI) (simp add: bit_simps)

lemma xor_cancel_middle: "(x XOR y) XOR (n XOR (x XOR z)) = n XOR (y XOR z)" for x y z n :: u32
  by (simp add: xor.assoc xor.left_commute)

lemma checksum_append:
  "(crc_shift ^^ (8 * length b)) (checksumIEEE a) XOR checksumIEEE b = checksumIEEE (a @ b)"
proof -
  define S where "S = crc_shift ^^ (8 * length b)"
  define A where "A = foldl crc_byte (NOT 0) a"
  define B where "B = foldl crc_byte 0 b"
  have lin: "S (x XOR y) = S x XOR S y" for x y
    using xor_linear_funpow [OF xor_linear_crc_shift] by (simp add: S_def xor_linear_def)
  have fb: "foldl crc_byte r b = S r XOR B" for r
    using foldl_crc_linear [of 0 r b] by (simp add: S_def B_def)
  have a: "checksumIEEE a = NOT 0 XOR A"
    unfolding A_def checksumIEEE_def by (rule not_eq_xor)
  have b: "checksumIEEE b = NOT 0 XOR (S (NOT 0) XOR B)"
    unfolding checksumIEEE_def fb by (rule not_eq_xor)
  have ab: "checksumIEEE (a @ b) = NOT 0 XOR (S A XOR B)"
    unfolding checksumIEEE_def foldl_append A_def [symmetric] fb by (rule not_eq_xor)
  show ?thesis
    unfolding a b ab S_def [symmetric] lin by (rule xor_cancel_middle)
qed

lemma crc32_combine_append:
  assumes "length b < 2 ^ 63"
  shows "crc32CombineIEEE (checksumIEEE a) (checksumIEEE b) (int (length b)) = checksumIEEE (a @ b)"
proof (cases "b = []")
  case True
  then show ?thesis by (simp add: crc32CombineIEEE_def)
next
  case False
  have "unat (word_of_int (int (length b)) :: u64) = length b"
    using assms by (simp add: unsigned_of_nat take_bit_nat_eq_self)
  with False show ?thesis
    using checksum_append [of b a]
    by (simp add: crc32CombineIEEE_def combine_operator)
qed

section \<open>The contract of a combinable checksum\<close>

text \<open>
  What a multi-part encoder needs of its checksum: the checksum of nothing is the neutral start
  value of the accumulation, and combining the checksums of two blocks with the length of the
  second one gives the checksum of their concatenation. Under this contract the checksums of any
  sequence of parts, taken in part order, accumulate to the checksum of the whole file.
\<close>

locale combinable_checksum =
  fixes crc :: "'b list \<Rightarrow> 'w"
    and combine :: "'w \<Rightarrow> 'w \<Rightarrow> int \<Rightarrow> 'w"
    and start :: 'w
    and max_len :: nat
  assumes crc_empty: "crc [] = start"
    and combine_append: "length b < max_len \<Longrightarrow> combine (crc a) (crc b) (int (length b)) = crc (a @ b)"
begin

lemma combine_fold:
  "\<forall>b \<in> set bs. length b < max_len
   \<Longrightarrow> foldl (\<lambda>c b. combine c (crc b) (int (length b))) (crc a) bs = crc (a @ concat bs)"
proof (induction bs arbitrary: a)
  case Nil
  then show ?case by simp
next
  case (Cons b bs)
  then show ?case using Cons.IH [of "a @ b"] by (simp add: combine_append)
qed

lemma combine_parts:
  "\<forall>b \<in> set bs. length b < max_len
   \<Longrightarrow> foldl (\<lambda>c b. combine c (crc b) (int (length b))) start bs = crc (concat bs)"
  using combine_fold [of bs "[]"] by (simp add: crc_empty)

end

interpretation crc32: combinable_checksum checksumIEEE crc32CombineIEEE 0 "2 ^ 63"
proof
  show "checksumIEEE [] = 0" by (simp add: checksumIEEE_def)
next
  fix a b :: bytes
  assume "length b < 2 ^ 63"
  then show "crc32CombineIEEE (checksumIEEE a) (checksumIEEE b) (int (length b)) = checksumIEEE (a @ b)"
    by (rule crc32_combine_append)
qed

section \<open>Properties\<close>

text \<open>
  C23. Combining the checksums of two blocks with the length of the second gives the checksum of
  their concatenation, for every pair of blocks whose second length is a Go \<^verbatim>\<open>int64\<close>.
\<close>

theorem crc32_combine_correct:
  assumes "length b < 2 ^ 63"
  shows "crc32CombineIEEE (checksumIEEE a) (checksumIEEE b) (int (length b)) = checksumIEEE (a @ b)"
  using assms by (rule crc32.combine_append)

theorem crc32_combine_correct_witness:
  "crc32CombineIEEE (checksumIEEE [1, 2]) (checksumIEEE [3]) 1 = checksumIEEE [1, 2, 3]"
  using crc32_combine_correct [of "[3]" "[1, 2]"] by simp

end
