(* ===== verification/Yenc.thy ===== *)
theory Yenc
  imports Crc32 "HOL-Library.AList"
begin

text \<open>
  The yEnc encoder of \<^verbatim>\<open>services/upload_usenet.go\<close>: \<^verbatim>\<open>yEncodeChunk\<close> and the
  registry of part checksums \<^verbatim>\<open>fileCRCStates\<close> that it keeps so that the final part's
  trailer carries the checksum of the whole file. The registry is a map from the key
  (file name, total size) to an association list from part numbers to part checksums. A call for
  the final part waits on a condition variable until every part is registered; a waiting call is
  the result \<open>None\<close> of \<open>yEncodeChunk\<close>, and \<open>yenc_final\<close> is what it runs when it is
  woken up.
\<close>

section \<open>The registry of part checksums\<close>

record partCRCInfo =
  pcrc :: u32
  plength :: int

type_synonym crc_parts = "(int \<times> partCRCInfo) list"
type_synonym crc_states = "string \<Rightarrow> crc_parts option"

definition fileCRCKey :: "string \<Rightarrow> int \<Rightarrow> string" where
  "fileCRCKey filename totalSize = filename @ [CHR 0x00] @ itoa totalSize"

definition loadOrCreateFileCRCState :: "crc_states \<Rightarrow> string \<Rightarrow> crc_parts" where
  "loadOrCreateFileCRCState st key = (case st key of Some ps \<Rightarrow> ps | None \<Rightarrow> [])"

text \<open>Reading a missing key of a Go map gives the zero value.\<close>

definition part_at :: "crc_parts \<Rightarrow> int \<Rightarrow> partCRCInfo" where
  "part_at ps i = (case map_of ps i of Some p \<Rightarrow> p | None \<Rightarrow> \<lparr>pcrc = 0, plength = 0\<rparr>)"

definition register_part :: "crc_states \<Rightarrow> string \<Rightarrow> int \<Rightarrow> bytes \<Rightarrow> crc_states" where
  "register_part st key partNumber data =
     st(key \<mapsto> AList.update partNumber
         \<lparr>pcrc = checksumIEEE data, plength = int (length data)\<rparr>
         (loadOrCreateFileCRCState st key))"

definition whole_file_crc :: "crc_parts \<Rightarrow> int \<Rightarrow> u32" where
  "whole_file_crc ps totalParts =
     foldl (\<lambda>c i. crc32CombineIEEE c (pcrc (part_at ps i)) (plength (part_at ps i))) 0
       [1..totalParts]"

section \<open>The encoder\<close>

definition crlf :: bytes where
  "crlf = [13, 10]"

definition yenc_escapes :: "nat \<Rightarrow> u8 \<Rightarrow> bool" where
  "yenc_escapes lineLen val \<longleftrightarrow>
     val = 0 \<or> val = 10 \<or> val = 13 \<or> val = 61 \<or> (lineLen = 0 \<and> val = 46)"

fun yenc_body :: "nat \<Rightarrow> bytes \<Rightarrow> bytes" where
  "yenc_body lineLen [] = (if 0 < lineLen then crlf else [])"
| "yenc_body lineLen (b # data) =
     (let val = b + 42;
          out = (if yenc_escapes lineLen val then [61, val + 64] else [val]);
          lineLen' = lineLen + length out
      in if 128 \<le> lineLen' then out @ crlf @ yenc_body 0 data
         else out @ yenc_body lineLen' data)"

definition yenc_header :: "bytes \<Rightarrow> string \<Rightarrow> int \<Rightarrow> int \<Rightarrow> int \<Rightarrow> int \<Rightarrow> bytes" where
  "yenc_header data filename partNumber totalParts chunkOffset totalSize =
     bytes_of (''=ybegin part='' @ itoa partNumber @ '' total='' @ itoa totalParts
        @ '' line=128 size='' @ itoa totalSize @ '' name='' @ filename) @ crlf
     @ bytes_of (''=ypart begin='' @ itoa (chunkOffset + 1)
        @ '' end='' @ itoa (chunkOffset + int (length data))) @ crlf"

definition yenc_trailer :: "bytes \<Rightarrow> int \<Rightarrow> u32 \<Rightarrow> u32 option \<Rightarrow> bytes" where
  "yenc_trailer data partNumber crc whole =
     bytes_of (''=yend size='' @ itoa (int (length data)) @ '' part='' @ itoa partNumber
        @ '' pcrc32='' @ hex8 crc
        @ (case whole of Some w \<Rightarrow> '' crc32='' @ hex8 w | None \<Rightarrow> [])) @ crlf"

definition yenc_article :: "bytes \<Rightarrow> string \<Rightarrow> int \<Rightarrow> int \<Rightarrow> int \<Rightarrow> int \<Rightarrow> u32 option \<Rightarrow> bytes" where
  "yenc_article data filename partNumber totalParts chunkOffset totalSize whole =
     yenc_header data filename partNumber totalParts chunkOffset totalSize
     @ yenc_body 0 data
     @ yenc_trailer data partNumber (checksumIEEE data) whole"

text \<open>The final part: wait until as many parts are registered as the file has, combine them in
  part order, and delete the entry.\<close>

definition yenc_final ::
  "crc_states \<Rightarrow> bytes \<Rightarrow> string \<Rightarrow> int \<Rightarrow> int \<Rightarrow> int \<Rightarrow> int \<Rightarrow> crc_states \<times> bytes option" where
  "yenc_final st data filename partNumber totalParts chunkOffset totalSize =
     (let key = fileCRCKey filename totalSize;
          ps = loadOrCreateFileCRCState st key
      in if int (length ps) < totalParts then (st, None)
         else (st(key := None),
               Some (yenc_article data filename partNumber totalParts chunkOffset totalSize
                       (Some (whole_file_crc ps totalParts)))))"

definition yEncodeChunk ::
  "crc_states \<Rightarrow> bytes \<Rightarrow> string \<Rightarrow> int \<Rightarrow> int \<Rightarrow> int \<Rightarrow> int \<Rightarrow> crc_states \<times> bytes option" where
  "yEncodeChunk st data filename partNumber totalParts chunkOffset totalSize =
     (if 1 < totalParts then
        (let st' = register_part st (fileCRCKey filename totalSize) partNumber data
         in if partNumber = totalParts
            then yenc_final st' data filename partNumber totalParts chunkOffset totalSize
            else (st', Some (yenc_article data filename partNumber totalParts chunkOffset totalSize None)))
      else if totalParts = 1 then
        (st, Some (yenc_article data filename partNumber totalParts chunkOffset totalSize
                     (Some (checksumIEEE data))))
      else (st, Some (yenc_article data filename partNumber totalParts chunkOffset totalSize None)))"

section \<open>The reference decoder\<close>

text \<open>What a yEnc decoder does with the body: line breaks are dropped, the byte after an escape
  is read with 64 more subtracted.\<close>

fun yenc_decode :: "bytes \<Rightarrow> bytes" where
  "yenc_decode [] = []"
| "yenc_decode (b # bs) =
     (if b = 13 \<or> b = 10 then yenc_decode bs
      else if b = 61 then (case bs of [] \<Rightarrow> [] | c # cs \<Rightarrow> (c - 64 - 42) # yenc_decode cs)
      else (b - 42) # yenc_decode bs)"

lemma yenc_decode_crlf [simp]: "yenc_decode (crlf @ bs) = yenc_decode bs"
  by (simp add: crlf_def)

lemma yenc_decode_out:
  "yenc_decode ((if yenc_escapes n (b + 42) then [61, b + 42 + 64] else [b + 42]) @ bs)
     = b # yenc_decode bs"
  by (auto simp: yenc_escapes_def)

lemma yenc_decode_body: "yenc_decode (yenc_body n data) = data"
proof (induction data arbitrary: n)
  case Nil
  then show ?case by (simp add: crlf_def)
next
  case (Cons b data)
  show ?case
    by (simp only: yenc_body.simps Let_def if_distrib [of yenc_decode] yenc_decode_out
        yenc_decode_crlf Cons.IH if_cancel)
qed

section \<open>The shape of the body\<close>

text \<open>A line of the body: not empty, at most 129 bytes, without NUL, CR and LF, and not starting
  with a dot (which NNTP would stuff) nor with \<^verbatim>\<open>=y\<close> (which a decoder would take for a keyword
  line).\<close>

definition yenc_line :: "bytes \<Rightarrow> bool" where
  "yenc_line l \<longleftrightarrow> l \<noteq> [] \<and> length l \<le> 129 \<and> 0 \<notin> set l \<and> 10 \<notin> set l \<and> 13 \<notin> set l
     \<and> hd l \<noteq> 46 \<and> take 2 l \<noteq> [61, 121]"

definition yenc_prefix :: "bytes \<Rightarrow> bool" where
  "yenc_prefix l \<longleftrightarrow> l = [] \<or> (yenc_line l \<and> length l < 128 \<and> l \<noteq> [61])"

lemma yenc_out_line:
  assumes "yenc_prefix l"
    and "out = (if yenc_escapes (length l) val then [61, val + 64] else [val])"
  shows "yenc_line (l @ out)"
  using assms
  by (cases l rule: list.exhaust; cases "tl l")
     (auto simp: yenc_prefix_def yenc_line_def yenc_escapes_def split: if_splits)

lemma yenc_body_lines:
  "yenc_prefix l \<Longrightarrow> \<exists>ls. l @ yenc_body (length l) data = concat (map (\<lambda>l. l @ crlf) ls) \<and> list_all yenc_line ls"
proof (induction data arbitrary: l)
  case Nil
  show ?case
  proof (cases "l = []")
    case True
    then show ?thesis by (intro exI [of _ "[]"]) simp
  next
    case False
    with Nil show ?thesis by (intro exI [of _ "[l]"]) (simp add: yenc_prefix_def)
  qed
next
  case (Cons b data)
  define out where "out = (if yenc_escapes (length l) (b + 42) then [61, b + 42 + 64] else [b + 42])"
  have line: "yenc_line (l @ out)" by (rule yenc_out_line [OF Cons.prems out_def])
  have body: "yenc_body (length l) (b # data) =
      (if 128 \<le> length (l @ out) then out @ crlf @ yenc_body 0 data
       else out @ yenc_body (length (l @ out)) data)"
    by (simp add: out_def Let_def)
  show ?case
  proof (cases "128 \<le> length (l @ out)")
    case True
    have "yenc_prefix []" by (simp add: yenc_prefix_def)
    then obtain ls where "yenc_body 0 data = concat (map (\<lambda>l. l @ crlf) ls)" "list_all yenc_line ls"
      using Cons.IH [of "[]"] by auto
    then show ?thesis
      unfolding body using True line by (intro exI [of _ "(l @ out) # ls"]) simp
  next
    case False
    have "l @ out \<noteq> [61]"
      using Cons.prems by (cases l) (auto simp: out_def yenc_prefix_def yenc_escapes_def)
    with line False have "yenc_prefix (l @ out)" by (simp add: yenc_prefix_def)
    from Cons.IH [OF this] show ?thesis unfolding body using False by simp
  qed
qed

section \<open>Encoding all the parts of a file\<close>

text \<open>A file cut into parts, the call for its part \<open>i\<close>, and the wake-up of the final part.\<close>

record yfile =
  yname :: string
  ysize :: int
  ychunks :: "bytes list"

definition yparts :: "yfile \<Rightarrow> int" where
  "yparts f = int (length (ychunks f))"

definition ychunk :: "yfile \<Rightarrow> int \<Rightarrow> bytes" where
  "ychunk f i = ychunks f ! (nat i - 1)"

definition yoffset :: "yfile \<Rightarrow> int \<Rightarrow> int" where
  "yoffset f i = int (length (concat (take (nat i - 1) (ychunks f))))"

definition ykey :: "yfile \<Rightarrow> string" where
  "ykey f = fileCRCKey (yname f) (ysize f)"

definition ycall :: "yfile \<Rightarrow> crc_states \<Rightarrow> int \<Rightarrow> crc_states \<times> bytes option" where
  "ycall f st i = yEncodeChunk st (ychunk f i) (yname f) i (yparts f) (yoffset f i) (ysize f)"

definition ywake :: "yfile \<Rightarrow> crc_states \<Rightarrow> crc_states \<times> bytes option" where
  "ywake f st = yenc_final st (ychunk f (yparts f)) (yname f) (yparts f) (yparts f)
     (yoffset f (yparts f)) (ysize f)"

text \<open>The calls of the workers in the order in which they take the lock; \<open>w\<close> says that the call
  for the final part is waiting. Every registration broadcasts, so the waiting call is tried
  again after each of them.\<close>

fun encode_run :: "yfile \<Rightarrow> crc_states \<Rightarrow> bool \<Rightarrow> int list \<Rightarrow> crc_states \<times> bool \<times> bytes list" where
  "encode_run f st w [] = (st, w, [])"
| "encode_run f st w (i # order) =
     (case ycall f st i of
        (st1, None) \<Rightarrow> encode_run f st1 True order
      | (st1, Some a) \<Rightarrow>
          if w then
            (case ywake f st1 of
               (st2, None) \<Rightarrow> (case encode_run f st2 True order of (s, w', out) \<Rightarrow> (s, w', a # out))
             | (st2, Some b) \<Rightarrow> (case encode_run f st2 False order of (s, w', out) \<Rightarrow> (s, w', a # b # out)))
          else (case encode_run f st1 False order of (s, w', out) \<Rightarrow> (s, w', a # out)))"

text \<open>What the article of part \<open>i\<close> has to be.\<close>

definition yexpected :: "yfile \<Rightarrow> int \<Rightarrow> bytes" where
  "yexpected f i = yenc_article (ychunk f i) (yname f) i (yparts f) (yoffset f i) (ysize f)
     (if i = yparts f then Some (checksumIEEE (concat (ychunks f))) else None)"

definition yinfo :: "yfile \<Rightarrow> int \<Rightarrow> partCRCInfo" where
  "yinfo f i = \<lparr>pcrc = checksumIEEE (ychunk f i), plength = int (length (ychunk f i))\<rparr>"

definition yreg :: "yfile \<Rightarrow> int list \<Rightarrow> crc_parts" where
  "yreg f pre = map (\<lambda>i. (i, yinfo f i)) pre"

definition ystate :: "yfile \<Rightarrow> crc_states \<Rightarrow> int list \<Rightarrow> crc_states" where
  "ystate f st pre = (if pre = [] then st else st(ykey f \<mapsto> yreg f pre))"

lemma map_of_yreg: "map_of (yreg f pre) i = (if i \<in> set pre then Some (yinfo f i) else None)"
  by (induction pre) (auto simp: yreg_def)

lemma update_fresh: "k \<notin> fst ` set al \<Longrightarrow> AList.update k v al = al @ [(k, v)]"
  by (induction al) auto

lemma register_ystate:
  assumes "st (ykey f) = None" and "i \<notin> set pre"
  shows "register_part (ystate f st pre) (ykey f) i (ychunk f i) = ystate f st (pre @ [i])"
proof -
  have "AList.update i (yinfo f i) (yreg f pre) = yreg f (pre @ [i])"
    using assms(2) by (subst update_fresh) (auto simp: yreg_def)
  then show ?thesis
    using assms(1)
    by (auto simp: register_part_def ystate_def loadOrCreateFileCRCState_def yinfo_def yreg_def)
qed

lemma upto_as_upt: "[1..int n] = map (\<lambda>k. int k + 1) [0..<n]"
  by (induction n) (simp_all add: upto_rec2 algebra_simps)

lemma map_ychunk: "map (ychunk f) [1..yparts f] = ychunks f"
proof -
  have "map (ychunk f) [1..yparts f] = map (\<lambda>k. ychunks f ! k) [0..<length (ychunks f)]"
    unfolding yparts_def upto_as_upt by (simp add: ychunk_def nat_add_distrib)
  then show ?thesis by (simp add: map_nth)
qed

lemma whole_file_crc_yreg:
  assumes "set pre = {1..yparts f}" and "\<forall>c \<in> set (ychunks f). length c < 2 ^ 63"
  shows "whole_file_crc (yreg f pre) (yparts f) = checksumIEEE (concat (ychunks f))"
proof -
  have "whole_file_crc (yreg f pre) (yparts f) =
      foldl (\<lambda>c i. crc32CombineIEEE c (checksumIEEE (ychunk f i)) (int (length (ychunk f i)))) 0 [1..yparts f]"
    unfolding whole_file_crc_def
    by (intro foldl_cong refl) (simp add: part_at_def map_of_yreg assms(1) yinfo_def)
  also have "\<dots> = foldl (\<lambda>c b. crc32CombineIEEE c (checksumIEEE b) (int (length b))) 0
      (map (ychunk f) [1..yparts f])"
    by (simp add: foldl_map)
  also have "\<dots> = checksumIEEE (concat (ychunks f))"
    unfolding map_ychunk by (rule crc32.combine_parts [OF assms(2)])
  finally show ?thesis .
qed

lemma ywake_ystate:
  assumes "st (ykey f) = None" "distinct pre" "set pre \<subseteq> {1..yparts f}" "pre \<noteq> []"
    and "\<forall>c \<in> set (ychunks f). length c < 2 ^ 63"
  shows "ywake f (ystate f st pre) =
    (if set pre = {1..yparts f} then (st, Some (yexpected f (yparts f))) else (ystate f st pre, None))"
proof -
  have card: "length pre = card (set pre)" using assms(2) by (simp add: distinct_card)
  have load: "loadOrCreateFileCRCState (ystate f st pre) (ykey f) = yreg f pre"
    using assms(4) by (simp add: ystate_def loadOrCreateFileCRCState_def)
  have del: "(ystate f st pre)(ykey f := None) = st"
    using assms(1) by (auto simp: ystate_def)
  show ?thesis
  proof (cases "set pre = {1..yparts f}")
    case True
    then have "int (length (yreg f pre)) = yparts f" using card by (simp add: yreg_def yparts_def)
    then show ?thesis
      using True load del whole_file_crc_yreg [OF True assms(5)]
      by (simp add: ywake_def yenc_final_def ykey_def [symmetric] yexpected_def Let_def)
  next
    case False
    then have "card (set pre) < card {1..yparts f}"
      using assms(3) by (intro psubset_card_mono) auto
    then have "int (length (yreg f pre)) < yparts f" using card by (simp add: yreg_def)
    then show ?thesis
      using False load by (simp add: ywake_def yenc_final_def ykey_def [symmetric] Let_def)
  qed
qed

lemma ycall_ystate:
  assumes "st (ykey f) = None" "i \<notin> set pre" "1 < yparts f"
  shows "ycall f (ystate f st pre) i =
    (if i = yparts f then ywake f (ystate f st (pre @ [i]))
     else (ystate f st (pre @ [i]), Some (yexpected f i)))"
  using assms(3) register_ystate [where st = st, OF assms(1,2)]
  by (simp add: ycall_def yEncodeChunk_def ykey_def [symmetric] Let_def ywake_def yexpected_def)

lemma encode_run_gen:
  assumes "st (ykey f) = None" "1 < yparts f" "\<forall>c \<in> set (ychunks f). length c < 2 ^ 63"
  shows "distinct (pre @ order) \<Longrightarrow> set (pre @ order) = {1..yparts f} \<Longrightarrow> order \<noteq> []
    \<Longrightarrow> \<exists>outs. encode_run f (ystate f st pre) (yparts f \<in> set pre) order = (st, False, outs)
          \<and> mset outs = image_mset (yexpected f) (mset order)
              + (if yparts f \<in> set pre then {#yexpected f (yparts f)#} else {#})"
proof (induction order arbitrary: pre)
  case Nil
  then show ?case by simp
next
  case (Cons i order)
  let ?pre = "pre @ [i]"
  have d: "i \<notin> set pre" "distinct (?pre @ order)" "set (?pre @ order) = {1..yparts f}"
    using Cons.prems by auto
  have wake: "ywake f (ystate f st ?pre) =
      (if order = [] then (st, Some (yexpected f (yparts f))) else (ystate f st ?pre, None))"
  proof -
    have "set ?pre = {1..yparts f} \<longleftrightarrow> order = []"
      using d(2,3) by (cases order) auto
    moreover have "set ?pre \<subseteq> {1..yparts f}" using d(3) by auto
    ultimately show ?thesis
      using ywake_ystate [where st = st and pre = ?pre, OF assms(1) _ _ _ assms(3)] d(2) by simp
  qed
  note call = ycall_ystate [where st = st, OF assms(1) d(1) assms(2)]
  show ?case
  proof (cases "order = []")
    case True
    moreover have "yparts f \<in> set (?pre @ order)" unfolding d(3) using assms(2) by simp
    ultimately show ?thesis using wake call d(1) by auto
  next
    case False
    from Cons.IH [OF d(2,3) False] obtain outs where
      outs: "encode_run f (ystate f st ?pre) (yparts f \<in> set ?pre) order = (st, False, outs)"
        "mset outs = image_mset (yexpected f) (mset order)
              + (if yparts f \<in> set ?pre then {#yexpected f (yparts f)#} else {#})" by blast
    show ?thesis
    proof (cases "i = yparts f")
      case True
      then show ?thesis using wake call outs False d(1) by auto
    next
      case no: False
      then show ?thesis using wake call outs False by auto
    qed
  qed
qed

lemma encode_run_one:
  assumes "yparts f = 1"
  shows "encode_run f st False [1] = (st, False, [yexpected f 1])"
proof -
  from assms obtain c where "ychunks f = [c]" by (cases "ychunks f") (auto simp: yparts_def)
  then show ?thesis using assms by (simp add: ycall_def yEncodeChunk_def yexpected_def ychunk_def)
qed

lemma encode_run_all:
  assumes "yparts f \<le> 1 \<or> st (ykey f) = None" "\<forall>c \<in> set (ychunks f). length c < 2 ^ 63"
    and "distinct order" "set order = {1..yparts f}"
  shows "\<exists>outs. encode_run f st False order = (st, False, outs)
          \<and> mset outs = image_mset (yexpected f) (mset order)"
proof -
  consider (none) "yparts f \<le> 0" | (one) "yparts f = 1" | (many) "1 < yparts f" by linarith
  then show ?thesis
  proof cases
    case none
    then show ?thesis using assms(4) by simp
  next
    case one
    then have "order = [1]" using assms(3,4) by (cases order; cases "tl order") auto
    then show ?thesis using encode_run_one [OF one] by simp
  next
    case many
    then have "order \<noteq> []" "st (ykey f) = None" using assms(1,4) by auto
    then show ?thesis
      using encode_run_gen [where st = st and pre = "[]" and order = order, OF _ many assms(2)] assms(3,4) by (simp add: ystate_def)
  qed
qed

section \<open>Properties\<close>

text \<open>
  C25. A yEnc decoder recovers every part from its encoded body: decoding what
  \<^verbatim>\<open>yEncodeChunk\<close> writes between header and trailer gives the bytes of the chunk.
\<close>

theorem yenc_roundtrip: "yenc_decode (yenc_body 0 data) = data"
  by (rule yenc_decode_body)

text \<open>
  The encoded body is a sequence of lines ended by CR LF; every line has between 1 and 129
  bytes, no NUL, CR or LF, does not start with a dot (so NNTP dot-stuffing never changes it) and
  does not start with \<^verbatim>\<open>=y\<close> (so no decoder takes it for a keyword line).
\<close>

theorem yenc_body_well_formed:
  "\<exists>ls. yenc_body 0 data = concat (map (\<lambda>l. l @ crlf) ls) \<and> list_all yenc_line ls"
  using yenc_body_lines [of "[]" data] by (simp add: yenc_prefix_def)

text \<open>
  C24. However the workers interleave the parts of a file, of one part or of several: the call for the
  final part never waits for ever, every part is encoded exactly once, the final part (and no other)
  carries the checksum of the whole file, and the registry is as it was before. For a file of several
  parts the registry must hold no entry for the file, as it does unless an upload of a file with the same
  name and size was aborted before; what happens then is \<open>yenc_stale_entry\<close>.
\<close>

theorem yenc_any_order:
  assumes "yparts f \<le> 1 \<or> st (ykey f) = None"
    and "\<forall>c \<in> set (ychunks f). length c < 2 ^ 63"
    and "distinct order" and "set order = {1..yparts f}"
  shows "\<exists>outs. encode_run f st False order = (st, False, outs)
          \<and> mset outs = image_mset (yexpected f) (mset order)"
  using assms by (rule encode_run_all)

theorem yenc_any_order_witness:
  "\<exists>outs. encode_run \<lparr>yname = ''a.mkv'', ysize = 3, ychunks = [[1], [2], [3]]\<rparr> Map.empty False [3, 1, 2]
       = (Map.empty, False, outs)
     \<and> mset outs = image_mset (yexpected \<lparr>yname = ''a.mkv'', ysize = 3, ychunks = [[1], [2], [3]]\<rparr>)
         (mset [3, 1, 2])"
proof (rule yenc_any_order)
  show "set [3, 1, 2] = {1..yparts \<lparr>yname = ''a.mkv'', ysize = 3, ychunks = [[1], [2], [3]]\<rparr>}"
    by (auto simp: yparts_def)
qed (simp_all add: yparts_def)

text \<open>
  An upload that is aborted after its first part leaves the registry entry behind. A later
  upload of another two-part file with the same name and size then does not wait for its own first
  part: its final article carries the checksum of the old first part followed by the new second
  part.
\<close>

theorem yenc_stale_entry:
  assumes "length a1 < 2 ^ 63" and "length b2 < 2 ^ 63"
  shows "let st = fst (yEncodeChunk Map.empty a1 name 1 2 0 tsz)
         in yEncodeChunk st b2 name 2 2 off tsz =
              (Map.empty, Some (yenc_article b2 name 2 2 off tsz (Some (checksumIEEE (a1 @ b2)))))"
proof -
  have two: "[1..2] = [1, 2 :: int]" by (simp add: upto.simps)
  have one: "crc32CombineIEEE 0 (checksumIEEE a1) (int (length a1)) = checksumIEEE a1"
    if "length a1 < 2 ^ 63" for a1
    using crc32.combine_parts [of "[a1]"] that by simp
  show ?thesis
    using assms crc32.combine_append [of b2 a1] one [OF assms(1)]
    by (auto simp: yEncodeChunk_def yenc_final_def register_part_def loadOrCreateFileCRCState_def
        whole_file_crc_def two part_at_def Let_def)
qed

theorem yenc_stale_entry_witness:
  "(let st = fst (yEncodeChunk Map.empty [7] ''x'' 1 2 0 2)
    in yEncodeChunk st [2] ''x'' 2 2 1 2 =
         (Map.empty, Some (yenc_article [2] ''x'' 2 2 1 2 (Some (checksumIEEE [7, 2])))))
   \<and> checksumIEEE [7, 2] \<noteq> checksumIEEE [1, 2]"
proof
  show "checksumIEEE [7, 2] \<noteq> checksumIEEE [1, 2]" by code_simp
  show "let st = fst (yEncodeChunk Map.empty [7] ''x'' 1 2 0 2)
    in yEncodeChunk st [2] ''x'' 2 2 1 2 =
         (Map.empty, Some (yenc_article [2] ''x'' 2 2 1 2 (Some (checksumIEEE [7, 2]))))"
    using yenc_stale_entry [of "[7]" "[2]" "''x''" 2 1] by simp
qed

end
