(* ===== verification/Paths.thy ===== *)
theory Paths
  imports GoBase
begin

text \<open>
  The functions of Go's \<^verbatim>\<open>path/filepath\<close> (on Unix) that the components use: \<open>file_ext\<close>,
  \<open>path_base\<close>, \<open>path_clean\<close>, \<open>path_join\<close> and \<open>path_dir\<close>. A path is a string; \<open>path_clean\<close>
  splits it at the slashes, drops empty elements and dots, and resolves \<^verbatim>\<open>..\<close> against the element
  before it.
\<close>

definition slash :: char where
  "slash = CHR ''/''"

definition dot :: char where
  "dot = CHR ''.''"

section \<open>Extension and base name\<close>

text \<open>\<^verbatim>\<open>filepath.Ext\<close>: from the last dot of the last element to the end.\<close>

definition file_ext :: "string \<Rightarrow> string" where
  "file_ext name =
     (let r = takeWhile (\<lambda>c. c \<noteq> dot \<and> c \<noteq> slash) (rev name)
      in if length r < length name \<and> rev name ! length r = dot then dot # rev r else [])"

text \<open>\<^verbatim>\<open>filepath.Base\<close>.\<close>

definition path_base :: "string \<Rightarrow> string" where
  "path_base p =
     (if p = [] then ''.''
      else let q = trim_right_by (\<lambda>c. c = slash) p;
               b = rev (takeWhile (\<lambda>c. c \<noteq> slash) (rev q))
           in if b = [] then [slash] else b)"

lemma file_ext_append:
  assumes "dot \<notin> set e" and "slash \<notin> set e"
  shows "file_ext (s @ dot # e) = dot # e"
proof -
  have "takeWhile (\<lambda>c. c \<noteq> dot \<and> c \<noteq> slash) (rev e @ dot # rev s) = rev e"
    using assms by (subst takeWhile_append2) (auto simp: in_set_conv_decomp)
  then show ?thesis by (simp add: file_ext_def nth_append)
qed

lemma file_ext_shape: "file_ext s = [] \<or> (\<exists>b e. s = b @ dot # e \<and> file_ext s = dot # e \<and> dot \<notin> set e \<and> slash \<notin> set e)"
proof -
  define r where "r = takeWhile (\<lambda>c. c \<noteq> dot \<and> c \<noteq> slash) (rev s)"
  show ?thesis
  proof (cases "length r < length s \<and> rev s ! length r = dot")
    case True
    then have r: "rev s = r @ dot # drop (Suc (length r)) (rev s)"
      unfolding r_def by (metis append_take_drop_id Cons_nth_drop_Suc length_rev takeWhile_eq_take)
    have "s = rev (rev s)" by simp
    also have "\<dots> = rev (drop (Suc (length r)) (rev s)) @ dot # rev r"
      by (subst r) simp
    finally have "s = rev (drop (Suc (length r)) (rev s)) @ dot # rev r" .
    moreover have "file_ext s = dot # rev r"
      using True by (simp add: file_ext_def r_def [symmetric])
    moreover have "dot \<notin> set r" "slash \<notin> set r"
      unfolding r_def by (auto dest: set_takeWhileD)
    ultimately show ?thesis by auto
  next
    case False
    then show ?thesis by (simp add: file_ext_def r_def [symmetric] Let_def)
  qed
qed

section \<open>Clean, Join, Dir\<close>

fun clean_elems :: "bool \<Rightarrow> string list \<Rightarrow> string list \<Rightarrow> string list" where
  "clean_elems rooted acc [] = rev acc"
| "clean_elems rooted acc (e # es) =
     (if e = [] \<or> e = ''.'' then clean_elems rooted acc es
      else if e = ''..'' then
        (case acc of
           [] \<Rightarrow> clean_elems rooted (if rooted then [] else [e]) es
         | a # as \<Rightarrow> if a = ''..'' then clean_elems rooted (e # acc) es
                   else clean_elems rooted as es)
      else clean_elems rooted (e # acc) es)"

definition path_rooted :: "string \<Rightarrow> bool" where
  "path_rooted p \<longleftrightarrow> has_prefix p [slash]"

definition path_clean :: "string \<Rightarrow> string" where
  "path_clean p =
     (let es = clean_elems (path_rooted p) [] (split_on slash p);
          body = join [slash] es
      in if path_rooted p then slash # body else if body = [] then ''.'' else body)"

text \<open>\<^verbatim>\<open>filepath.Join\<close> of two elements: an empty element is ignored.\<close>

definition path_join :: "string \<Rightarrow> string \<Rightarrow> string" where
  "path_join a b =
     (if a = [] then (if b = [] then [] else path_clean b)
      else path_clean (if b = [] then a else a @ [slash] @ b))"

text \<open>\<^verbatim>\<open>filepath.Join\<close> of any number of elements.\<close>

definition path_join_all :: "string list \<Rightarrow> string" where
  "path_join_all es =
     (let es' = filter (\<lambda>e. e \<noteq> []) es in if es' = [] then [] else path_clean (join [slash] es'))"

definition path_dir :: "string \<Rightarrow> string" where
  "path_dir p = path_clean (rev (dropWhile (\<lambda>c. c \<noteq> slash) (rev p)))"

text \<open>An element of a cleaned path is never empty, a dot, or contains a slash; \<^verbatim>\<open>..\<close> only stands at
  the front of a relative path.\<close>

text \<open>The stack (top first) is ordinary elements above a block of \<^verbatim>\<open>..\<close>.\<close>

fun dots_below :: "string list \<Rightarrow> bool" where
  "dots_below [] = True"
| "dots_below (e # es) = (if e = ''..'' then list_all (\<lambda>d. d = ''..'') es else dots_below es)"

definition clean_stack :: "bool \<Rightarrow> string list \<Rightarrow> bool" where
  "clean_stack rooted acc \<longleftrightarrow>
     list_all (\<lambda>e. e \<noteq> [] \<and> e \<noteq> ''.'' \<and> slash \<notin> set e) acc
     \<and> (rooted \<longrightarrow> ''..'' \<notin> set acc) \<and> dots_below acc"

lemma clean_stack_Nil [simp, intro]: "clean_stack r []"
  by (simp add: clean_stack_def)

lemma clean_stack_push:
  "clean_stack r acc \<Longrightarrow> e \<noteq> [] \<Longrightarrow> e \<noteq> ''.'' \<Longrightarrow> e \<noteq> ''..'' \<Longrightarrow> slash \<notin> set e \<Longrightarrow> clean_stack r (e # acc)"
  by (simp add: clean_stack_def)

lemma clean_stack_pop: "clean_stack r (a # as) \<Longrightarrow> a \<noteq> ''..'' \<Longrightarrow> clean_stack r as"
  by (simp add: clean_stack_def)

lemma clean_stack_dots:
  "clean_stack False acc \<Longrightarrow> acc = [] \<or> hd acc = ''..'' \<Longrightarrow> clean_stack False (''..'' # acc)"
  by (cases acc) (auto simp: clean_stack_def slash_def)

lemma clean_elems_stack:
  "clean_stack r acc \<Longrightarrow> \<forall>e \<in> set es. slash \<notin> set e \<Longrightarrow> clean_stack r (rev (clean_elems r acc es))"
proof (induction r acc es rule: clean_elems.induct)
  case (1 r acc)
  then show ?case by simp
next
  case (2 r acc e es)
  show ?case
  proof (cases "e = [] \<or> e = ''.''")
    case True
    then show ?thesis using 2 by auto
  next
    case False
    show ?thesis
    proof (cases "e = ''..''")
      case dd: True
      show ?thesis
      proof (cases acc)
        case Nil
        then show ?thesis
          using 2(2) [OF False dd Nil] 2(5-) dd False clean_stack_dots [of "[]"] by (cases r) auto
      next
        case (Cons a as)
        show ?thesis
        proof (cases "a = ''..''")
          case True
          then have nr: "\<not> r" using "2.prems"(1) Cons True by (cases r) (auto simp: clean_stack_def)
          then show ?thesis
            using 2(3) [OF False dd Cons True] 2(5-) dd False Cons True clean_stack_dots [of acc] nr by auto
        next
          case no: False
          then show ?thesis
            using 2(4) [OF False dd Cons no] 2(5-) dd False Cons clean_stack_pop [of r a as] by auto
        qed
      qed
    next
      case no: False
      then show ?thesis
        using 2(1) 2(5-) False clean_stack_push [of r acc e] by auto
    qed
  qed
qed

lemma clean_elems_plain:
  "\<forall>e \<in> set es. e \<noteq> [] \<and> e \<noteq> ''.'' \<and> e \<noteq> ''..'' \<Longrightarrow> clean_elems r acc es = rev acc @ es"
  by (induction es arbitrary: acc) auto

lemma clean_elems_append:
  "clean_elems r acc (es @ fs) = clean_elems r (rev (clean_elems r acc es)) fs"
  by (induction r acc es rule: clean_elems.induct) (auto split: list.splits)

lemma split_on_append:
  "split_on c (xs @ c # ys) = split_on c xs @ split_on c ys"
proof (induction xs)
  case Nil
  then show ?case by simp
next
  case (Cons x xs)
  then show ?case by (cases "split_on c xs") auto
qed

lemma split_on_single: "c \<notin> set xs \<Longrightarrow> split_on c xs = [xs]"
  by (induction xs) auto

lemma split_on_join:
  "\<forall>e \<in> set es. c \<notin> set e \<Longrightarrow> es \<noteq> [] \<Longrightarrow> split_on c (join [c] es) = es"
proof (induction es)
  case Nil
  then show ?case by simp
next
  case (Cons e es)
  then show ?case
    by (cases es) (simp_all add: split_on_single split_on_append)
qed

section \<open>Absolute paths of plain elements\<close>

definition plain_elem :: "string \<Rightarrow> bool" where
  "plain_elem e \<longleftrightarrow> e \<noteq> [] \<and> e \<noteq> ''.'' \<and> e \<noteq> ''..'' \<and> slash \<notin> set e"

definition abs_path :: "string list \<Rightarrow> string" where
  "abs_path es = slash # join [slash] es"

lemma join_snoc: "join sep (es @ [e]) = (if es = [] then e else join sep es @ sep @ e)"
  by (induction sep es rule: join.induct) auto

lemma takeWhile_not_slash: "slash \<notin> set e \<Longrightarrow> takeWhile (\<lambda>c. c \<noteq> slash) (rev e @ slash # r) = rev e"
  by (subst takeWhile_append2) auto

lemma dropWhile_not_slash: "slash \<notin> set e \<Longrightarrow> dropWhile (\<lambda>c. c \<noteq> slash) (rev e @ slash # r) = slash # r"
  by (subst dropWhile_append2) auto

lemma abs_path_snoc:
  "abs_path (es @ [e]) = (if es = [] then [] else abs_path es) @ slash # e"
  by (simp add: abs_path_def join_snoc)

lemma path_base_abs [go_simps]:
  assumes "list_all plain_elem es" and "es \<noteq> []"
  shows "path_base (abs_path es) = last es"
proof -
  from assms obtain bs e where es: "es = bs @ [e]" "plain_elem e" by (cases es rule: rev_cases) auto
  let ?X = "if bs = [] then [] else abs_path bs"
  have e: "e \<noteq> []" "slash \<notin> set e" using es(2) by (auto simp: plain_elem_def)
  have p: "abs_path es = ?X @ slash # e" by (simp add: es(1) abs_path_snoc)
  have "trim_right_by (\<lambda>c. c = slash) (?X @ slash # e) = ?X @ slash # e"
    using e by (cases e rule: rev_cases) (auto simp: trim_right_by_def)
  then show ?thesis
    unfolding p using e takeWhile_not_slash [OF e(2), of "rev ?X"]
    by (simp add: path_base_def es(1) Let_def)
qed

lemma path_clean_abs [go_simps]:
  assumes "list_all plain_elem es"
  shows "path_clean (abs_path es) = abs_path es" and "path_clean (abs_path es @ [slash]) = abs_path es"
proof -
  have ne: "\<forall>e \<in> set es. e \<noteq> [] \<and> e \<noteq> ''.'' \<and> e \<noteq> ''..''" "\<forall>e \<in> set es. slash \<notin> set e"
    using assms by (auto simp: plain_elem_def list_all_iff)
  have sp: "split_on slash (join [slash] es) = (if es = [] then [[]] else es)"
    using split_on_join [OF ne(2)] by simp
  have cl: "clean_elems True [] es = es" using clean_elems_plain [OF ne(1), of True "[]"] by simp
  have cl2: "clean_elems True [] (es @ [[]]) = es"
    by (simp add: clean_elems_append cl)
  have r: "path_rooted (abs_path es)" "path_rooted (abs_path es @ [slash])"
    by (simp_all add: path_rooted_def has_prefix_def abs_path_def)
  show "path_clean (abs_path es) = abs_path es"
    using r(1) sp cl by (simp add: path_clean_def abs_path_def Let_def)
  have "split_on slash (abs_path es @ [slash]) = [] # split_on slash (join [slash] es) @ [[]]"
    using split_on_append [of slash "join [slash] es" "[]"] by (simp add: abs_path_def)
  then show "path_clean (abs_path es @ [slash]) = abs_path es"
    using r(2) sp cl2 by (auto simp: path_clean_def abs_path_def Let_def)
qed

lemma path_dir_abs [go_simps]:
  assumes "list_all plain_elem es" and "es \<noteq> []"
  shows "path_dir (abs_path es) = abs_path (butlast es)"
proof -
  from assms obtain bs e where es: "es = bs @ [e]" "plain_elem e" "list_all plain_elem bs"
    by (cases es rule: rev_cases) auto
  let ?X = "if bs = [] then [] else abs_path bs"
  have e: "slash \<notin> set e" using es(2) by (auto simp: plain_elem_def)
  have p: "abs_path es = ?X @ slash # e" by (simp add: es(1) abs_path_snoc)
  have d: "path_dir (abs_path es) = path_clean (?X @ [slash])"
    unfolding path_dir_def p using dropWhile_not_slash [OF e, of "rev ?X"] by simp
  show ?thesis
  proof (cases "bs = []")
    case True
    have "path_clean (abs_path []) = abs_path []" by (rule path_clean_abs(1)) simp
    then show ?thesis using d True by (simp add: es(1) abs_path_def)
  next
    case False
    then show ?thesis using d path_clean_abs(2) [OF es(3)] by (simp add: es(1))
  qed
qed

lemma path_clean_join_abs:
  assumes "list_all plain_elem es" and "list_all plain_elem fs"
  shows "path_clean (abs_path es @ slash # join [slash] fs) = abs_path (es @ fs)"
proof -
  have ne: "\<forall>e \<in> set (es @ fs). e \<noteq> [] \<and> e \<noteq> ''.'' \<and> e \<noteq> ''..''"
    "\<forall>e \<in> set es. slash \<notin> set e" "\<forall>e \<in> set fs. slash \<notin> set e"
    using assms by (auto simp: plain_elem_def list_all_iff)
  have sp: "split_on slash (join [slash] xs) = (if xs = [] then [[]] else xs)"
    if "\<forall>e \<in> set xs. slash \<notin> set e" for xs
    using split_on_join [OF that] by simp
  have cl: "clean_elems True [] xs = xs" if "\<forall>e \<in> set xs. e \<noteq> [] \<and> e \<noteq> ''.'' \<and> e \<noteq> ''..''" for xs
    using clean_elems_plain [OF that, of True "[]"] by simp
  have "split_on slash (abs_path es @ slash # join [slash] fs)
      = [] # (if es = [] then [[]] else es) @ (if fs = [] then [[]] else fs)"
    using split_on_append [of slash "join [slash] es" "join [slash] fs"] sp [OF ne(2)] sp [OF ne(3)]
    by (simp add: abs_path_def)
  moreover have "clean_elems True [] ([] # (if es = [] then [[]] else es) @ (if fs = [] then [[]] else fs)) = es @ fs"
    using ne(1) cl [of "es @ fs"] cl [of es] cl [of fs] by (auto simp: clean_elems_append)
  ultimately show ?thesis
    by (simp add: path_clean_def path_rooted_def has_prefix_def abs_path_def Let_def)
qed

lemma abs_path_inj_nil: "abs_path es = [slash] \<longleftrightarrow> join [slash] es = []"
  by (simp add: abs_path_def)

end
