(* ===== verification/Config.thy ===== *)
theory Config
  imports Paths "HOL-Library.AList"
begin

text \<open>
  The layered configuration (\<^verbatim>\<open>config/layered.go\<close> and the layered part of
  \<^verbatim>\<open>config/config.go\<close>): three tiers (file, environment, site), the value in effect, the reader
  and the writer of \<^verbatim>\<open>config.yml\<close>, and \<open>Refresh\<close>. A tier is an association list. The file is a
  list of lines. Parsing a float is a parameter of the operations that use it.
\<close>

type_synonym tier = "(string \<times> string) list"

record layered =
  yml :: tier
  env :: tier
  web :: tier
  writable :: bool

definition ConfigYmlKeys :: "string list" where
  "ConfigYmlKeys =
    [''torrent_max_upload_kbps'', ''torrent_seed_ratio'', ''torrent_seed_hours'', ''torrent_require_full_seed'',
     ''torrent_no_full_seed_timeout_mins'', ''torrent_port'',
     ''max_concurrent_downloads'', ''cpu_max_percent'', ''max_disk_usage_gb'',
     ''slow_speed_threshold_mbs'', ''slow_speed_timeout_mins'', ''low_peers_threshold'', ''low_peers_timeout_mins'',
     ''local_ui_port'', ''local_ui_bind'']"

definition EnvOnlyKeys :: "string list" where
  "EnvOnlyKeys =
    [''site_url'', ''agent_token'', ''vpn_provider'', ''vpn_download_only'', ''vpn_proxy_addr'',
     ''nntp_server'', ''nntp_ssl'', ''nntp_connections'', ''nntp_user'', ''nntp_pass'', ''nntp_group'',
     ''nntp_poster'', ''nntp_from'', ''nntp_domain'']"

section \<open>Reading the file\<close>

definition quote_char :: "char \<Rightarrow> bool" where
  "quote_char c \<longleftrightarrow> c = CHR 0x22 \<or> c = CHR 0x27"

definition hash_char :: char where
  "hash_char = CHR 0x23"

definition colon :: char where
  "colon = CHR '':''"

definition parse_line :: "string \<Rightarrow> (string \<times> string) option" where
  "parse_line raw =
     (let line = trim_space raw
      in if line = [] \<or> hd line = hash_char then None
         else if colon \<notin> set line then None
         else (let k = takeWhile (\<lambda>c. c \<noteq> colon) line;
                   v = drop (length k + 1) line
               in Some (to_lower (trim_space k), trim_by quote_char (trim_space v))))"

text \<open>\<^verbatim>\<open>bufio.Scanner\<close> stops for good at a line that does not fit its 64 KiB buffer; the error is
  not looked at.\<close>

definition scanner_lines :: "string list \<Rightarrow> string list" where
  "scanner_lines = takeWhile (\<lambda>l. int (length l) < 65536)"

definition load_line :: "tier \<Rightarrow> string \<Rightarrow> tier" where
  "load_line t line = (case parse_line line of Some (k, v) \<Rightarrow> AList.update k v t | None \<Rightarrow> t)"

definition loadYml :: "string list \<Rightarrow> tier" where
  "loadYml lines = foldl load_line [] (scanner_lines lines)"

text \<open>\<open>lookup\<close> is \<^verbatim>\<open>os.LookupEnv\<close>.\<close>

definition loadEnv :: "(string \<Rightarrow> string option) \<Rightarrow> tier" where
  "loadEnv lookup =
     foldl (\<lambda>t k. case lookup (to_upper k) of Some v \<Rightarrow> AList.update k v t | None \<Rightarrow> t) [] ConfigYmlKeys"

definition NewLayered :: "string list \<Rightarrow> (string \<Rightarrow> string option) \<Rightarrow> bool \<Rightarrow> layered" where
  "NewLayered lines lookup writes = \<lparr>yml = loadYml lines, env = loadEnv lookup, web = [], writable = writes\<rparr>"

section \<open>Values\<close>

definition Effective :: "layered \<Rightarrow> string \<Rightarrow> string" where
  "Effective l key =
     (case map_of (web l) key of
        Some v \<Rightarrow> if v \<noteq> [] then v else
          (case map_of (env l) key of
             Some e \<Rightarrow> if e \<noteq> [] then e else (case map_of (yml l) key of Some y \<Rightarrow> y | None \<Rightarrow> [])
           | None \<Rightarrow> (case map_of (yml l) key of Some y \<Rightarrow> y | None \<Rightarrow> []))
      | None \<Rightarrow>
          (case map_of (env l) key of
             Some e \<Rightarrow> if e \<noteq> [] then e else (case map_of (yml l) key of Some y \<Rightarrow> y | None \<Rightarrow> [])
           | None \<Rightarrow> (case map_of (yml l) key of Some y \<Rightarrow> y | None \<Rightarrow> [])))"

text \<open>A local value with its source.\<close>

definition LocalSnapshot :: "layered \<Rightarrow> (string \<times> string \<times> string) list" where
  "LocalSnapshot l =
     foldl (\<lambda>out (k, v). AList.update k (v, ''env'') out)
       (foldl (\<lambda>out (k, v). AList.update k (v, ''yml'') out) [] (yml l)) (env l)"

definition WebSnapshot :: "layered \<Rightarrow> tier" where
  "WebSnapshot l = web l"

definition ApplyWeb :: "layered \<Rightarrow> tier \<Rightarrow> layered" where
  "ApplyWeb l m = l\<lparr>web := foldl (\<lambda>t (k, v). AList.update (to_lower k) v t) [] m\<rparr>"

section \<open>Writing the file\<close>

text \<open>\<^verbatim>\<open>%q\<close> on ASCII (the printable characters beyond it stand for themselves as well): the double quote and the backslash are escaped with a backslash, the control
  characters have their short or hexadecimal escapes, everything else stands for itself.\<close>

definition quote_one :: "char \<Rightarrow> string" where
  "quote_one c =
     (let n = of_char c :: nat
      in if c = CHR 0x22 then [CHR 0x5C, CHR 0x22]
         else if c = CHR 0x5C then [CHR 0x5C, CHR 0x5C]
         else if n = 7 then [CHR 0x5C, CHR ''a''] else if n = 8 then [CHR 0x5C, CHR ''b'']
         else if n = 9 then [CHR 0x5C, CHR ''t''] else if n = 10 then [CHR 0x5C, CHR ''n'']
         else if n = 11 then [CHR 0x5C, CHR ''v''] else if n = 12 then [CHR 0x5C, CHR ''f'']
         else if n = 13 then [CHR 0x5C, CHR ''r'']
         else if n < 32 \<or> n = 127 then [CHR 0x5C, CHR ''x'', hex_digit (n div 16), hex_digit (n mod 16)]
         else [c])"

definition go_quote :: "string \<Rightarrow> string" where
  "go_quote s = [CHR 0x22] @ concat (map quote_one s) @ [CHR 0x22]"

definition needs_quotes :: "string \<Rightarrow> bool" where
  "needs_quotes v \<longleftrightarrow> list_ex (\<lambda>c. c = colon \<or> c = hash_char \<or> quote_char c \<or> c = CHR 0x0A) v"

definition yml_line :: "string \<times> string \<Rightarrow> string" where
  "yml_line kv = (case kv of (k, v) \<Rightarrow> k @ '': '' @ (if needs_quotes v then go_quote v else v))"

definition yml_header :: "string list" where
  "yml_header =
     [hash_char # '' indexer-agent config.yml '' @ [CHR 0xE2, CHR 0x80, CHR 0x94] @ '' edit with care.'',
      hash_char # '' Writes from the site UI or the local UI overwrite this file in place.'',
      hash_char # '' Keys in .env (VPN_*, NNTP_*, SITE_URL, AGENT_TOKEN) are NOT managed here.'',
      '''']"

definition merge_updates :: "tier \<Rightarrow> (string \<times> string) list \<Rightarrow> tier \<times> string list" where
  "merge_updates t updates =
     foldl (\<lambda>(t, written) (k, v).
        (let kk = to_lower k in if kk \<in> set EnvOnlyKeys then (t, written) else (AList.update kk v t, written @ [kk])))
       (t, []) updates"

definition render_yml :: "tier \<Rightarrow> string list" where
  "render_yml t = yml_header @ map yml_line (map (\<lambda>k. (k, the (map_of t k))) (sort (map fst t)))"

text \<open>\<open>disk\<close> is the error of writing or renaming the temporary file, if any. The result is the keys
  written and the lines of the new file.\<close>

definition WriteYml ::
  "string option \<Rightarrow> layered \<Rightarrow> (string \<times> string) list \<Rightarrow> layered \<times> (string + string list \<times> string list)" where
  "WriteYml disk l updates =
     (if \<not> writable l then (l, Inl ''config.yml is not writable'')
      else case merge_updates (yml l) updates of
        (t, written) \<Rightarrow>
          (l\<lparr>yml := t\<rparr>,
           case disk of Some e \<Rightarrow> Inl e | None \<Rightarrow> Inr (sort written, render_yml t)))"

section \<open>The typed configuration\<close>

record 'f config =
  SiteURL :: string
  AgentToken :: string
  PollInterval :: int
  SiteName :: string
  TempDir :: string
  WatchDir :: string
  DoneDir :: string
  AgentMode :: string
  WatchHandoffTimeoutMin :: int
  VPNProvider :: string
  VPNDownloadOnly :: bool
  VPNProxyAddr :: string
  NNTPServer :: string
  NNTPSSL :: bool
  NNTPConnections :: int
  NNTPUser :: string
  NNTPPass :: string
  NNTPGroup :: string
  NNTPPoster :: string
  NNTPFrom :: string
  NNTPDomain :: string
  PAR2Redundancy :: int
  PAR2Threads :: int
  PAR2Memory :: int
  PAR2Method :: string
  MaxConcurrentDownloads :: int
  MaxDiskUsageGB :: 'f
  CPUMaxPercent :: 'f
  SlowSpeedThresholdMBs :: 'f
  SlowSpeedTimeoutMins :: int
  GeneratorName :: string
  Obfuscate :: bool
  Encrypt :: bool
  CollectionRoot :: string
  OfferEnabled :: bool
  OfferConfigPath :: string
  OfferSyncIntervalMin :: int
  OfferRemoteFulfill :: bool
  OfferRemoteMaxGB :: int
  OfferRemoteTimeoutMin :: int
  InventoryEnabled :: bool
  InventoryRoots :: string
  InventoryIntervalMin :: int
  InventoryMinMB :: int
  InventoryMaxFiles :: int
  InventoryProbeEnabled :: bool
  InventoryProbeIntervalMin :: int
  InventoryProbeBatch :: int

text \<open>\<^verbatim>\<open>strconv.Atoi\<close>.\<close>

definition go_atoi :: "string \<Rightarrow> int option" where
  "go_atoi s =
     (let neg = (s \<noteq> [] \<and> hd s = CHR ''-'');
          ds = (if s \<noteq> [] \<and> (hd s = CHR ''-'' \<or> hd s = CHR ''+'') then tl s else s);
          n = int (atoi_nat ds)
      in if ds = [] \<or> \<not> list_all is_digit ds then None
         else if neg then (if n \<le> 2 ^ 63 then Some (- n) else None)
         else (if n < 2 ^ 63 then Some n else None))"

definition layeredInt :: "layered \<Rightarrow> string \<Rightarrow> int \<Rightarrow> int" where
  "layeredInt l key fallback =
     (if Effective l key \<noteq> [] then (case go_atoi (Effective l key) of Some i \<Rightarrow> i | None \<Rightarrow> fallback) else fallback)"

definition layeredFloat :: "(string \<Rightarrow> 'f option) \<Rightarrow> layered \<Rightarrow> string \<Rightarrow> 'f \<Rightarrow> 'f" where
  "layeredFloat parseFloat l key fallback =
     (if Effective l key \<noteq> [] then (case parseFloat (Effective l key) of Some i \<Rightarrow> i | None \<Rightarrow> fallback) else fallback)"

definition getEnv :: "(string \<Rightarrow> string option) \<Rightarrow> string \<Rightarrow> string \<Rightarrow> string" where
  "getEnv lookup key fallback = (case lookup key of Some v \<Rightarrow> v | None \<Rightarrow> fallback)"

definition getEnvAsInt :: "(string \<Rightarrow> string option) \<Rightarrow> string \<Rightarrow> int \<Rightarrow> int" where
  "getEnvAsInt lookup key fallback =
     (case lookup key of
        Some v \<Rightarrow> (case go_atoi v of Some i \<Rightarrow> i | None \<Rightarrow> fallback)
      | None \<Rightarrow> fallback)"

text \<open>The float defaults 0, 85 and 0.05 are parameters.\<close>

definition newConfigFromLayered ::
  "(string \<Rightarrow> 'f option) \<Rightarrow> 'f \<times> 'f \<times> 'f \<Rightarrow> (string \<Rightarrow> string option) \<Rightarrow> layered \<Rightarrow> 'f config" where
  "newConfigFromLayered parseFloat defs lookup l =
     (case defs of (d0, d85, d005) \<Rightarrow>
       \<lparr>SiteURL = getEnv lookup ''SITE_URL'' [],
        AgentToken = getEnv lookup ''AGENT_TOKEN'' [],
        PollInterval = getEnvAsInt lookup ''POLL_INTERVAL'' 30,
        SiteName = getEnv lookup ''SITE_NAME'' [],
        TempDir = getEnv lookup ''TEMP_DIR'' ''./temp'',
        WatchDir = getEnv lookup ''WATCH_DIR'' ''./watch'',
        DoneDir = getEnv lookup ''DONE_DIR'' ''./done'',
        AgentMode = getEnv lookup ''AGENT_MODE'' ''internal'',
        WatchHandoffTimeoutMin = getEnvAsInt lookup ''WATCH_HANDOFF_TIMEOUT_MIN'' 360,
        VPNProvider = getEnv lookup ''VPN_PROVIDER'' ''Unknown'',
        VPNDownloadOnly = (getEnv lookup ''VPN_DOWNLOAD_ONLY'' ''false'' = ''true''),
        VPNProxyAddr = getEnv lookup ''VPN_PROXY_ADDR'' ''vpn:1080'',
        NNTPServer = getEnv lookup ''NNTP_SERVER'' ''news.example.com:119'',
        NNTPSSL = (getEnv lookup ''NNTP_SSL'' ''false'' = ''true''),
        NNTPConnections = getEnvAsInt lookup ''NNTP_CONNECTIONS'' 10,
        NNTPUser = getEnv lookup ''NNTP_USER'' ''username'',
        NNTPPass = getEnv lookup ''NNTP_PASS'' ''password'',
        NNTPGroup = getEnv lookup ''NNTP_GROUP'' ''alt.binaries.test'',
        NNTPPoster = getEnv lookup ''NNTP_POSTER'' ''Pipeline_Uploader'',
        NNTPFrom = getEnv lookup ''NNTP_FROM'' ''uploader@yourdomain.com'',
        NNTPDomain = getEnv lookup ''NNTP_DOMAIN'' [],
        PAR2Redundancy = getEnvAsInt lookup ''PAR2_REDUNDANCY'' 5,
        PAR2Threads = getEnvAsInt lookup ''PAR2_THREADS'' 0,
        PAR2Memory = getEnvAsInt lookup ''PAR2_MEMORY_MB'' 0,
        PAR2Method = getEnv lookup ''PAR2_METHOD'' [],
        MaxConcurrentDownloads = layeredInt l ''max_concurrent_downloads'' 3,
        MaxDiskUsageGB = layeredFloat parseFloat l ''max_disk_usage_gb'' d0,
        CPUMaxPercent = layeredFloat parseFloat l ''cpu_max_percent'' d85,
        SlowSpeedThresholdMBs = layeredFloat parseFloat l ''slow_speed_threshold_mbs'' d005,
        SlowSpeedTimeoutMins = layeredInt l ''slow_speed_timeout_mins'' 10,
        GeneratorName = getEnv lookup ''GENERATOR_NAME'' ''loon-agent'',
        Obfuscate = (getEnv lookup ''OBFUSCATE'' ''false'' = ''true''),
        Encrypt = (getEnv lookup ''ENCRYPT'' ''false'' = ''true''),
        CollectionRoot = getEnv lookup ''COLLECTION_ROOT'' [],
        OfferEnabled = (getEnv lookup ''OFFER_ENABLED'' ''false'' = ''true''),
        OfferConfigPath = getEnv lookup ''OFFER_CONFIG'' (path_join (getEnv lookup ''CONFIG_DIR'' ''.'') ''offer.json''),
        OfferSyncIntervalMin = getEnvAsInt lookup ''OFFER_SYNC_INTERVAL_MIN'' 60,
        OfferRemoteFulfill = (getEnv lookup ''OFFER_REMOTE_FULFILL'' ''false'' = ''true''),
        OfferRemoteMaxGB = getEnvAsInt lookup ''OFFER_REMOTE_MAX_GB'' 25,
        OfferRemoteTimeoutMin = getEnvAsInt lookup ''OFFER_REMOTE_TIMEOUT_MIN'' 240,
        InventoryEnabled = (getEnv lookup ''INVENTORY_ENABLED'' ''false'' = ''true''),
        InventoryRoots = getEnv lookup ''INVENTORY_ROOTS'' [],
        InventoryIntervalMin = getEnvAsInt lookup ''INVENTORY_INTERVAL_MIN'' 360,
        InventoryMinMB = getEnvAsInt lookup ''INVENTORY_MIN_MB'' 1,
        InventoryMaxFiles = getEnvAsInt lookup ''INVENTORY_MAX_FILES'' 200000,
        InventoryProbeEnabled = (getEnv lookup ''INVENTORY_PROBE_ENABLED'' ''true'' = ''true''),
        InventoryProbeIntervalMin = getEnvAsInt lookup ''INVENTORY_PROBE_INTERVAL_MIN'' 15,
        InventoryProbeBatch = getEnvAsInt lookup ''INVENTORY_PROBE_BATCH'' 25\<rparr>)"

definition Refresh ::
  "(string \<Rightarrow> 'f option) \<Rightarrow> 'f \<times> 'f \<times> 'f \<Rightarrow> (string \<Rightarrow> string option) \<Rightarrow> layered \<Rightarrow> 'f config \<Rightarrow> 'f config" where
  "Refresh parseFloat defs lookup l c =
     (let fresh = newConfigFromLayered parseFloat defs lookup l
      in c\<lparr>MaxDiskUsageGB := MaxDiskUsageGB fresh,
           MaxConcurrentDownloads := MaxConcurrentDownloads fresh,
           CPUMaxPercent := CPUMaxPercent fresh,
           SlowSpeedThresholdMBs := SlowSpeedThresholdMBs fresh,
           SlowSpeedTimeoutMins := SlowSpeedTimeoutMins fresh\<rparr>)"

section \<open>Reading back what was written\<close>

text \<open>Keys and values for which the file format is faithful.\<close>

definition plain_chr :: "char \<Rightarrow> bool" where
  "plain_chr c \<longleftrightarrow> 32 \<le> (of_char c :: nat) \<and> (of_char c :: nat) < 127 \<and> c \<noteq> CHR 0x5C \<and> \<not> quote_char c"

definition yml_key :: "string \<Rightarrow> bool" where
  "yml_key k \<longleftrightarrow> k \<noteq> [] \<and> list_all (\<lambda>c. is_lower c \<or> is_digit c \<or> c = CHR ''_'') k"

definition yml_value :: "string \<Rightarrow> bool" where
  "yml_value v \<longleftrightarrow> list_all plain_chr v \<and> (v = [] \<or> needs_quotes v \<or> (\<not> is_space (hd v) \<and> \<not> is_space (last v)))"

lemma quote_one_plain: "plain_chr c \<Longrightarrow> quote_one c = [c]"
  by (auto simp: plain_chr_def quote_one_def quote_char_def Let_def)

lemma concat_quote_plain: "list_all plain_chr v \<Longrightarrow> concat (map quote_one v) = v"
  by (induction v) (auto simp: quote_one_plain)

lemma key_chr: "is_lower c \<or> is_digit c \<or> c = CHR ''_'' \<Longrightarrow> c \<noteq> colon \<and> c \<noteq> hash_char \<and> \<not> is_space c \<and> lower_chr c = c"
  by (auto simp: colon_def hash_char_def is_space_def is_lower_def is_digit_def chr_le_def lower_chr_def is_upper_def)

lemma space_class: "is_space (CHR '' '') = True" "is_space (CHR 0x22) = False" "quote_char (CHR 0x22) = True"
  by (simp_all add: is_space_def quote_char_def)

lemma trim_by_quoted:
  "list_all plain_chr v \<Longrightarrow> trim_by quote_char ([CHR 0x22] @ v @ [CHR 0x22]) = v"
proof -
  assume p: "list_all plain_chr v"
  then have nq: "\<forall>c \<in> set v. \<not> quote_char c" by (auto simp: list_all_iff plain_chr_def)
  have l: "dropWhile quote_char ([CHR 0x22] @ v @ [CHR 0x22]) = (if v = [] then [] else v @ [CHR 0x22])"
    using nq by (cases v) (auto simp: space_class)
  have r: "dropWhile quote_char (rev v) = rev v"
  proof (cases v rule: rev_cases)
    case (snoc ys y)
    then show ?thesis using nq by simp
  qed simp
  show ?thesis
    unfolding trim_by_def trim_left_by_def trim_right_by_def l
    using r by (auto simp: space_class)
qed

lemma trim_by_plain: "list_all plain_chr v \<Longrightarrow> trim_by quote_char v = v"
proof (cases "v = []")
  case True
  then show ?thesis by (simp add: trim_by_def trim_left_by_def trim_right_by_def)
next
  case False
  assume "list_all plain_chr v"
  then have "\<forall>c \<in> set v. \<not> quote_char c" by (auto simp: plain_chr_def list_all_iff)
  then show ?thesis using False by (intro trim_by_id) auto
qed

lemma parse_yml_line:
  assumes "yml_key k" and "yml_value v"
  shows "parse_line (yml_line (k, v)) = Some (k, v)"
proof -
  define q where "q = (if needs_quotes v then [CHR 0x22] @ v @ [CHR 0x22] else v)"
  have pv: "list_all plain_chr v" using assms(2) by (simp add: yml_value_def)
  have line: "yml_line (k, v) = k @ colon # CHR '' '' # q"
    by (simp add: yml_line_def q_def go_quote_def concat_quote_plain [OF pv] colon_def)
  have kc: "\<forall>c \<in> set k. c \<noteq> colon \<and> c \<noteq> hash_char \<and> \<not> is_space c \<and> lower_chr c = c"
    using assms(1) key_chr by (auto simp: yml_key_def list_all_iff)
  have kne: "k \<noteq> []" using assms(1) by (simp add: yml_key_def)
  have lowk: "to_lower k = k" unfolding to_lower_def by (rule map_idI) (use kc in blast)
  have trk: "trim_space k = k"
    unfolding trim_space_def by (rule trim_by_id) (use kc kne in auto)
  have trq: "trim_space (CHR '' '' # q) = q"
  proof (cases "q = []")
    case True
    then show ?thesis
      by (simp add: trim_space_def trim_by_def trim_left_by_def trim_right_by_def space_class)
  next
    case False
    have "\<not> is_space (hd q) \<and> \<not> is_space (last q)"
      using False assms(2) by (auto simp: q_def yml_value_def space_class split: if_splits)
    moreover from this have "dropWhile is_space q = q" using False by (cases q) auto
    moreover have "dropWhile is_space (rev q) = rev q"
      using calculation(1) False by (cases q rule: rev_cases) auto
    ultimately show ?thesis
      by (simp add: trim_space_def trim_by_def trim_left_by_def trim_right_by_def space_class)
  qed
  have trl: "trim_space (k @ colon # CHR '' '' # q) = (if q = [] then k @ [colon] else k @ colon # CHR '' '' # q)"
  proof (cases "q = []")
    case True
    have "dropWhile is_space (k @ [colon, CHR '' '']) = k @ [colon, CHR '' '']"
      using kc kne by (cases k) auto
    then show ?thesis using True
      by (simp add: trim_space_def trim_by_def trim_left_by_def trim_right_by_def space_class colon_def is_space_def)
  next
    case False
    have "\<not> is_space (last q)" using False assms(2) by (auto simp: q_def yml_value_def space_class split: if_splits)
    then show ?thesis
      using False kc kne unfolding trim_space_def by (subst trim_by_id) auto
  qed
  have tw: "takeWhile (\<lambda>c. c \<noteq> colon) (k @ colon # r) = k" for r
    using kc by (subst takeWhile_append2) auto
  have "trim_by quote_char (trim_space (drop (length k + 1) (trim_space (yml_line (k, v))))) = v"
  proof (cases "q = []")
    case True
    then have "v = []" by (simp add: q_def split: if_splits)
    have "trim_space (yml_line (k, v)) = k @ [colon]" using True trl by (simp add: line)
    then show ?thesis using \<open>v = []\<close>
      by (simp add: trim_space_def trim_by_def trim_left_by_def trim_right_by_def)
  next
    case False
    then show ?thesis
      using trl trq trim_by_quoted [OF pv] trim_by_plain [OF pv] by (simp add: line q_def)
  qed
  moreover have "trim_space (yml_line (k, v)) \<noteq> []" "hd (trim_space (yml_line (k, v))) \<noteq> hash_char"
    "colon \<in> set (trim_space (yml_line (k, v)))" "takeWhile (\<lambda>c. c \<noteq> colon) (trim_space (yml_line (k, v))) = k"
    using kne kc by (auto simp: line trl tw hd_append)
  ultimately show ?thesis
    by (simp add: parse_line_def Let_def lowk trk)
qed

lemma parse_header: "line \<in> set yml_header \<Longrightarrow> parse_line line = None"
proof -
  have "list_all (\<lambda>l. parse_line l = None) yml_header" by code_simp
  then show "line \<in> set yml_header \<Longrightarrow> parse_line line = None" by (simp add: list_all_iff)
qed

definition yml_entry :: "string \<times> string \<Rightarrow> bool" where
  "yml_entry kv \<longleftrightarrow> yml_key (fst kv) \<and> yml_value (snd kv) \<and> int (length (fst kv)) + int (length (snd kv)) < 65532"

lemma yml_line_fits:
  assumes "yml_entry kv"
  shows "length (yml_line kv) < 65536"
proof (cases kv)
  case (Pair k v)
  have "list_all plain_chr v" using assms Pair by (simp add: yml_entry_def yml_value_def)
  then have "go_quote v = [CHR 0x22] @ v @ [CHR 0x22]" by (simp add: go_quote_def concat_quote_plain)
  then show ?thesis using assms Pair by (simp add: yml_line_def yml_entry_def)
qed

lemma scanner_lines_all: "\<forall>l \<in> set ls. length l < 65536 \<Longrightarrow> scanner_lines ls = ls"
  unfolding scanner_lines_def by (rule takeWhile_eq_all_conv [THEN iffD2]) auto

lemma fold_load_entries:
  "\<forall>kv \<in> set es. yml_entry kv \<Longrightarrow>
   foldl load_line t (List.map yml_line es) = foldl (\<lambda>t (k, v). AList.update k v t) t es"
proof (induction es arbitrary: t)
  case (Cons e es)
  obtain k v where e: "e = (k, v)" by (cases e)
  have "parse_line (yml_line (k, v)) = Some (k, v)"
    using Cons.prems e by (intro parse_yml_line) (auto simp: yml_entry_def)
  then have "load_line t (yml_line e) = AList.update k v t" by (simp add: load_line_def e)
  then show ?case using Cons e by simp
qed simp

lemma fold_update_map_of:
  "map_of (foldl (\<lambda>t (k, v). AList.update k v t) t es) = map_of t ++ map_of (rev es)"
proof (induction es arbitrary: t)
  case (Cons e es)
  then show ?case
    by (cases e) (simp add: update_conv' map_add_assoc [symmetric] map_add_upd_left fun_eq_iff map_add_def split: option.splits)
qed simp

definition accepted :: "(string \<times> string) list \<Rightarrow> tier" where
  "accepted updates =
     List.map (\<lambda>(k, v). (to_lower k, v)) (filter (\<lambda>(k, v). to_lower k \<notin> set EnvOnlyKeys) updates)"

lemma merge_updates_acc:
  "foldl (\<lambda>(t, written) (k, v).
     (let kk = to_lower k in if kk \<in> set EnvOnlyKeys then (t, written) else (AList.update kk v t, written @ [kk])))
     (t, w) ups =
   (foldl (\<lambda>t (k, v). AList.update k v t) t (accepted ups), w @ List.map fst (accepted ups))"
proof (induction ups arbitrary: t w)
  case (Cons u ups)
  then show ?case by (cases u) (simp add: accepted_def Let_def)
qed (simp add: accepted_def)

lemma merge_updates_alt:
  "merge_updates t ups = (foldl (\<lambda>t (k, v). AList.update k v t) t (accepted ups), List.map fst (accepted ups))"
  unfolding merge_updates_def by (subst merge_updates_acc) simp

lemma merged_set:
  "set (foldl (\<lambda>t (k, v). AList.update k v t) t es) \<subseteq> set t \<union> set es"
proof (induction es arbitrary: t)
  case (Cons e es)
  obtain k v where e: "e = (k, v)" by (cases e)
  have "set (AList.update k v t) \<subseteq> insert (k, v) (set t)" by (induction t) auto
  then show ?case using Cons.IH [of "AList.update k v t"] e by auto
qed simp

lemma load_header: "foldl load_line t (yml_header @ ls) = foldl load_line t ls"
proof -
  have "foldl load_line t hs = t" if "\<forall>h \<in> set hs. parse_line h = None" for hs t
    using that by (induction hs) (auto simp: load_line_def)
  then show ?thesis using parse_header by simp
qed

lemma load_render:
  assumes ok: "\<forall>kv \<in> set t. yml_entry kv"
  shows "map_of (loadYml (render_yml t)) = map_of t"
proof -
  define es where "es = List.map (\<lambda>k. (k, the (map_of t k))) (sort (List.map fst t))"
  have es: "\<forall>kv \<in> set es. yml_entry kv"
  proof
    fix kv assume "kv \<in> set es"
    then obtain k where k: "k \<in> fst ` set t" "kv = (k, the (map_of t k))" by (auto simp: es_def)
    then obtain v where "map_of t k = Some v" by (metis domIff dom_map_of_conv_image_fst not_None_eq)
    then have "(k, v) \<in> set t" and "kv = (k, v)" using k by (auto dest: map_of_SomeD)
    then show "yml_entry kv" using ok by blast
  qed
  have "length h < 65536" if "h \<in> set yml_header" for h
    using that by (auto simp: yml_header_def)
  then have "scanner_lines (render_yml t) = render_yml t"
    using es yml_line_fits by (intro scanner_lines_all) (auto simp: render_yml_def es_def [symmetric])
  then have "loadYml (render_yml t) = foldl (\<lambda>t (k, v). AList.update k v t) [] es"
    unfolding loadYml_def using es
    by (simp add: render_yml_def es_def [symmetric] load_header fold_load_entries del: foldl_append)
  then have "map_of (loadYml (render_yml t)) = map_of (rev es)" by (simp add: fold_update_map_of)
  also have "map_of (rev es) = (Some \<circ> (\<lambda>k. the (map_of t k))) |` set (rev (sort (List.map fst t)))"
    unfolding es_def rev_map map_of_map_restrict ..
  also have "\<dots> = map_of t"
  proof
    fix x
    show "((Some \<circ> (\<lambda>k. the (map_of t k))) |` set (rev (sort (List.map fst t)))) x = map_of t x"
    proof (cases "map_of t x")
      case None
      then have "x \<notin> fst ` set t" by (simp add: map_of_eq_None_iff)
      then show ?thesis using None by (simp add: restrict_map_def)
    next
      case (Some v)
      then have "x \<in> fst ` set t" by (metis map_of_eq_None_iff option.distinct(1))
      then show ?thesis using Some by (simp add: restrict_map_def)
    qed
  qed
  finally show ?thesis .
qed

text \<open>
  C37. For entries that fit the format (plain keys; printable values without quotes, backslashes or outer
  blanks, within one scanner line): writing the configuration merges the accepted updates into the file
  tier, ignores updates of the keys reserved for the environment, whose value in the file, if any, stays
  as it is, and reading the written file back yields exactly that tier. A value with a quote does not
  survive (\<open>quoted_value_changes\<close>).
\<close>

theorem WriteYml_roundtrip:
  assumes "writable l"
    and "\<forall>kv \<in> set (yml l). yml_entry kv"
    and "\<forall>kv \<in> set updates. yml_entry (to_lower (fst kv), snd kv)"
  shows "\<exists>l' written lines. WriteYml None l updates = (l', Inr (written, lines))
    \<and> map_of (yml l') = map_of (yml l) ++ map_of (rev (accepted updates))
    \<and> (\<forall>k \<in> set EnvOnlyKeys. map_of (yml l') k = map_of (yml l) k \<and> k \<notin> set written)
    \<and> map_of (loadYml lines) = map_of (yml l')"
proof -
  let ?t = "foldl (\<lambda>t (k, v). AList.update k v t) (yml l) (accepted updates)"
  have w: "WriteYml None l updates =
      (l\<lparr>yml := ?t\<rparr>, Inr (sort (List.map fst (accepted updates)), render_yml ?t))"
    using assms(1) by (simp add: WriteYml_def merge_updates_alt)
  have acc: "\<forall>kv \<in> set (accepted updates). yml_entry kv \<and> fst kv \<notin> set EnvOnlyKeys"
    using assms(3) by (auto simp: accepted_def)
  then have "\<forall>kv \<in> set ?t. yml_entry kv" using merged_set [of "yml l" "accepted updates"] assms(2) by blast
  then have "map_of (loadYml (render_yml ?t)) = map_of ?t" by (rule load_render)
  moreover have "map_of ?t = map_of (yml l) ++ map_of (rev (accepted updates))" by (rule fold_update_map_of)
  moreover have "map_of (rev (accepted updates)) k = None" if "k \<in> set EnvOnlyKeys" for k
    using acc that by (auto simp: map_of_eq_None_iff)
  ultimately show ?thesis
    using acc by (auto simp: w map_add_def)
qed

lemma WriteYml_roundtrip_witness:
  "\<exists>l' written lines. WriteYml None \<lparr>yml = [(''local_ui_port'', ''8081'')], env = [], web = [], writable = True\<rparr>
       [(''Local_UI_Bind'', ''127.0.0.1:8081''), (''NNTP_PASS'', ''secret'')] = (l', Inr (written, lines))
    \<and> map_of (yml l') ''local_ui_bind'' = Some ''127.0.0.1:8081''"
proof -
  let ?l = "\<lparr>yml = [(''local_ui_port'', ''8081'')], env = [], web = [], writable = True\<rparr>"
  let ?u = "[(''Local_UI_Bind'', ''127.0.0.1:8081''), (''NNTP_PASS'', ''secret'')]"
  have "writable ?l" "list_all yml_entry (yml ?l)" "list_all (\<lambda>kv. yml_entry (to_lower (fst kv), snd kv)) ?u"
    "map_of (rev (accepted ?u)) ''local_ui_bind'' = Some ''127.0.0.1:8081''"
    by code_simp+
  then show ?thesis using WriteYml_roundtrip [of ?l ?u] by (fastforce simp: list_all_iff map_add_def)
qed

text \<open>
  The site's overrides sit on top and can be taken back: a key the site does not set has its
  local value (the environment's unless that is empty, else the file's), the local snapshot does not
  depend on the overrides, and resetting them and refreshing gives the typed configuration the same
  five tunable fields as if they had never been applied, every other field untouched throughout.
\<close>

theorem web_overrides_reset:
  "Effective (ApplyWeb l []) key =
     (case map_of (env l) key of
        Some e \<Rightarrow> if e \<noteq> [] then e else (case map_of (yml l) key of Some y \<Rightarrow> y | None \<Rightarrow> [])
      | None \<Rightarrow> (case map_of (yml l) key of Some y \<Rightarrow> y | None \<Rightarrow> []))
   \<and> LocalSnapshot (ApplyWeb l m) = LocalSnapshot l
   \<and> Refresh pf defs lookup (ApplyWeb (ApplyWeb l m) []) (Refresh pf defs lookup (ApplyWeb l m) c)
     = Refresh pf defs lookup (ApplyWeb l []) c
   \<and> (Refresh pf defs lookup (ApplyWeb l m) c)
       \<lparr>MaxDiskUsageGB := MaxDiskUsageGB c, MaxConcurrentDownloads := MaxConcurrentDownloads c,
        CPUMaxPercent := CPUMaxPercent c, SlowSpeedThresholdMBs := SlowSpeedThresholdMBs c,
        SlowSpeedTimeoutMins := SlowSpeedTimeoutMins c\<rparr> = c"
proof -
  have "ApplyWeb (ApplyWeb l m) [] = ApplyWeb l []" by (simp add: ApplyWeb_def)
  moreover have "Refresh pf defs lookup l' (Refresh pf defs lookup l'' c) = Refresh pf defs lookup l' c" for l' l''
    by (simp add: Refresh_def Let_def)
  ultimately show ?thesis
    by (simp add: Effective_def ApplyWeb_def LocalSnapshot_def split: option.split) (simp add: Refresh_def Let_def)
qed

text \<open>
  A value with a double quote does not survive the file: the writer escapes it and the reader
  only strips the outer quotes, so the backslash stays in the value.
\<close>

theorem quoted_value_changes:
  "map_of (loadYml (render_yml [(''local_ui_bind'', [CHR ''a'', CHR 0x22, CHR ''b''])])) ''local_ui_bind''
     = Some [CHR ''a'', CHR 0x5C, CHR 0x22, CHR ''b'']"
  by code_simp

end
