(* ===== verification/FileTree.thy ===== *)
theory FileTree
  imports Paths
begin

text \<open>
  Directory trees and \<^verbatim>\<open>filepath.Walk\<close>. A node is a regular file with its bytes, a directory
  with its entries in the lexical order in which \<^verbatim>\<open>Walk\<close> visits them, a directory that cannot be
  listed, or a symbolic link with the length of its text (its \<^verbatim>\<open>Lstat\<close> size) and the node it
  resolves to, if any. Paths are lists of elements relative to the root of the walk. The callback
  threads a state and returns what the Go closure returns: nil, \<^verbatim>\<open>SkipDir\<close>, \<^verbatim>\<open>SkipAll\<close> or
  another error; the error with which \<^verbatim>\<open>Walk\<close> calls it is \<open>node_err\<close> of the node.
\<close>

datatype fnode =
    FFile bytes
  | FDir "(string \<times> fnode) list"
  | FUnreadable
  | FLink nat "fnode option"

datatype wres = WNil | WSkipDir | WSkipAll | WErr string

type_synonym fpath = "string list"

fun is_dir :: "fnode \<Rightarrow> bool" where
  "is_dir (FDir xs) = True"
| "is_dir FUnreadable = True"
| "is_dir _ = False"

text \<open>\<^verbatim>\<open>info.Size()\<close> of what \<^verbatim>\<open>Lstat\<close> returns (never read for a directory).\<close>

fun lsize :: "fnode \<Rightarrow> nat" where
  "lsize (FFile b) = length b"
| "lsize (FLink n t) = n"
| "lsize _ = 4096"

fun node_err :: "fnode \<Rightarrow> string option" where
  "node_err FUnreadable = Some ''permission denied''"
| "node_err _ = None"

text \<open>What \<^verbatim>\<open>os.Stat\<close> and \<^verbatim>\<open>os.Open\<close> see: links are followed.\<close>

fun resolve :: "fnode \<Rightarrow> fnode option" where
  "resolve (FLink n None) = None"
| "resolve (FLink n (Some t)) = resolve t"
| "resolve t = Some t"

section \<open>Walk\<close>

fun walk :: "('s \<Rightarrow> fpath \<Rightarrow> fnode \<Rightarrow> 's \<times> wres) \<Rightarrow> 's \<Rightarrow> fpath \<Rightarrow> fnode \<Rightarrow> 's \<times> wres"
and walk_list :: "('s \<Rightarrow> fpath \<Rightarrow> fnode \<Rightarrow> 's \<times> wres) \<Rightarrow> 's \<Rightarrow> fpath \<Rightarrow> (string \<times> fnode) list \<Rightarrow> 's \<times> wres" where
  "walk f s p (FDir xs) = (case f s p (FDir xs) of (s', r) \<Rightarrow>
     if r = WNil then walk_list f s' p xs else (s', r))"
| "walk f s p (FFile b) = f s p (FFile b)"
| "walk f s p FUnreadable = f s p FUnreadable"
| "walk f s p (FLink n t) = f s p (FLink n t)"
| "walk_list f s p [] = (s, WNil)"
| "walk_list f s p ((n, t) # xs) = (case walk f s (p @ [n]) t of (s', r) \<Rightarrow>
     if r = WNil \<or> (r = WSkipDir \<and> is_dir t) then walk_list f s' p xs else (s', r))"

definition file_walk :: "('s \<Rightarrow> fpath \<Rightarrow> fnode \<Rightarrow> 's \<times> wres) \<Rightarrow> 's \<Rightarrow> fnode \<Rightarrow> 's \<times> wres" where
  "file_walk f s t = (case walk f s [] t of (s', r) \<Rightarrow>
     (s', if r = WSkipDir \<or> r = WSkipAll then WNil else r))"

section \<open>Reference: the entries of a tree\<close>

text \<open>All nodes in visiting order, and the nodes a walk visits when it skips the directories
  that \<open>skip\<close> selects.\<close>

fun visits :: "(fpath \<Rightarrow> bool) \<Rightarrow> fpath \<Rightarrow> fnode \<Rightarrow> (fpath \<times> fnode) list"
and visits_list :: "(fpath \<Rightarrow> bool) \<Rightarrow> fpath \<Rightarrow> (string \<times> fnode) list \<Rightarrow> (fpath \<times> fnode) list" where
  "visits skip p (FDir xs) = (p, FDir xs) # (if skip p then [] else visits_list skip p xs)"
| "visits skip p (FFile b) = [(p, FFile b)]"
| "visits skip p FUnreadable = [(p, FUnreadable)]"
| "visits skip p (FLink n t) = [(p, FLink n t)]"
| "visits_list skip p [] = []"
| "visits_list skip p ((n, t) # xs) = visits skip (p @ [n]) t @ visits_list skip p xs"

text \<open>A tree all of whose visited directories can be listed.\<close>

definition readable :: "(fpath \<Rightarrow> bool) \<Rightarrow> fpath \<Rightarrow> fnode \<Rightarrow> bool" where
  "readable skip p t \<longleftrightarrow> (\<forall>(q, n) \<in> set (visits skip p t). n \<noteq> FUnreadable)"

definition no_skip :: "fpath \<Rightarrow> bool" where
  "no_skip n = False"

text \<open>A callback that answers \<^verbatim>\<open>SkipDir\<close> exactly for the directories that \<open>skip\<close> selects (or
  stops with another error). The walk then is the plain sequence of the calls for the visited
  entries, up to the first error.\<close>

definition obeys :: "(fpath \<Rightarrow> bool) \<Rightarrow> ('s \<Rightarrow> fpath \<Rightarrow> fnode \<Rightarrow> 's \<times> wres) \<Rightarrow> bool" where
  "obeys skip f \<longleftrightarrow>
     (\<forall>s p n. (is_dir n \<and> skip p \<longrightarrow> snd (f s p n) \<noteq> WNil)
            \<and> (\<not> (is_dir n \<and> skip p) \<longrightarrow> snd (f s p n) \<noteq> WSkipDir))"

fun walk_seq :: "('s \<Rightarrow> fpath \<Rightarrow> fnode \<Rightarrow> 's \<times> wres) \<Rightarrow> 's \<Rightarrow> (fpath \<times> fnode) list \<Rightarrow> 's \<times> wres" where
  "walk_seq f s [] = (s, WNil)"
| "walk_seq f s ((p, n) # vs) = (case f s p n of (s', r) \<Rightarrow>
     if r = WNil \<or> r = WSkipDir then walk_seq f s' vs else (s', r))"

lemma walk_seq_append:
  "walk_seq f s (vs @ ws) = (case walk_seq f s vs of (s', r) \<Rightarrow>
     if r = WNil then walk_seq f s' ws else (s', r))"
  by (induction f s vs rule: walk_seq.induct) (auto split: prod.splits)

lemma walk_seq_not_skip: "walk_seq f s vs = (s', r) \<Longrightarrow> r \<noteq> WSkipDir"
  by (induction f s vs rule: walk_seq.induct) (auto split: prod.splits if_splits)

lemma walk_walk_seq:
  shows "obeys skip f \<Longrightarrow> walk f s p t = (case walk_seq f s (visits skip p t) of (s', r) \<Rightarrow>
           (s', if r = WNil \<and> is_dir t \<and> skip p then WSkipDir else r))"
    and "obeys skip f \<Longrightarrow> walk_list f s p xs = walk_seq f s (visits_list skip p xs)"
proof (induction skip p t and skip p xs arbitrary: s and s rule: visits_visits_list.induct)
  case (1 skip p xs)
  obtain s' r where sr: "f s p (FDir xs) = (s', r)" by fastforce
  have r: "skip p \<Longrightarrow> r \<noteq> WNil" "\<not> skip p \<Longrightarrow> r \<noteq> WSkipDir"
    using 1(2) sr unfolding obeys_def by (metis is_dir.simps(1) snd_conv)+
  show ?case using 1 sr r by (auto split: prod.splits dest: walk_seq_not_skip)
next
  case (3 skip p)
  then show ?case
    unfolding obeys_def
    by (auto split: prod.splits) (metis is_dir.simps(2) snd_conv)+
next
  case (6 skip p n t xs)
  obtain s' r where sr: "walk_seq f s (visits skip (p @ [n]) t) = (s', r)" by fastforce
  show ?case using 6 sr by (auto simp: walk_seq_append dest: walk_seq_not_skip)
next
  case (2 skip p b)
  then show ?case unfolding obeys_def by (auto split: prod.splits) (metis is_dir.simps(3) snd_conv)
next
  case (4 skip p n t)
  then show ?case unfolding obeys_def by (auto split: prod.splits) (metis is_dir.simps(4) snd_conv)
qed auto

lemma file_walk_seq:
  "obeys skip f \<Longrightarrow> file_walk f s t = (case walk_seq f s (visits skip [] t) of (s', r) \<Rightarrow>
     (s', if r = WSkipAll then WNil else r))"
  by (auto simp: file_walk_def walk_walk_seq(1) split: prod.splits dest: walk_seq_not_skip)

text \<open>A callback that never fails on the entries acts as a fold.\<close>

lemma walk_seq_fold:
  "(\<And>s q n. (q, n) \<in> set vs \<Longrightarrow> f s q n = (g s (q, n), WNil) \<or> f s q n = (g s (q, n), WSkipDir))
   \<Longrightarrow> walk_seq f s vs = (foldl g s vs, WNil)"
proof (induction vs arbitrary: s)
  case Nil
  then show ?case by simp
next
  case (Cons v vs)
  obtain p n where v: "v = (p, n)" by fastforce
  from Cons.prems [of p n s] have "f s p n = (g s v, WNil) \<or> f s p n = (g s v, WSkipDir)"
    by (simp add: v)
  moreover have "walk_seq f (g s v) vs = (foldl g (g s v) vs, WNil)"
    using Cons.IH Cons.prems by simp
  ultimately show ?case by (auto simp: v)
qed

text \<open>What a walk can change: every property of the state that the callback keeps on the visited
  entries.\<close>

lemma walk_seq_inv:
  "(\<And>s q n. (q, n) \<in> set vs \<Longrightarrow> P s \<Longrightarrow> P (fst (f s q n))) \<Longrightarrow> P s \<Longrightarrow> P (fst (walk_seq f s vs))"
proof (induction vs arbitrary: s)
  case Nil
  then show ?case by simp
next
  case (Cons v vs)
  obtain p n where v: "v = (p, n)" by fastforce
  obtain s' r where sr: "f s p n = (s', r)" by fastforce
  have "P s'" using Cons.prems(1) [of p n s] Cons.prems(2) sr by (simp add: v)
  then have "P (fst (walk_seq f s' vs))" using Cons.IH Cons.prems(1) by simp
  then show ?case using \<open>P s'\<close> by (simp add: v sr)
qed

lemma file_walk_inv:
  assumes "obeys skip f" and "\<And>s q n. (q, n) \<in> set (visits skip [] t) \<Longrightarrow> P s \<Longrightarrow> P (fst (f s q n))"
    and "P s"
  shows "P (fst (file_walk f s t))"
  using walk_seq_inv [of "visits skip [] t" P f s] assms(2,3)
  by (auto simp: file_walk_seq [OF assms(1)] split: prod.splits)

section \<open>Looking up and writing paths\<close>

fun node_at :: "fnode \<Rightarrow> fpath \<Rightarrow> fnode option" where
  "node_at t [] = Some t"
| "node_at (FDir xs) (a # p) = (case map_of xs a of None \<Rightarrow> None | Some m \<Rightarrow> node_at m p)"
| "node_at t (a # p) = None"

definition file_at :: "fnode \<Rightarrow> fpath \<Rightarrow> fnode option" where
  "file_at t p = (case node_at t p of Some n \<Rightarrow> if is_dir n then None else Some n | None \<Rightarrow> None)"

fun ins_entry :: "string \<Rightarrow> fnode \<Rightarrow> (string \<times> fnode) list \<Rightarrow> (string \<times> fnode) list" where
  "ins_entry a n [] = [(a, n)]"
| "ins_entry a n ((b, m) # xs) = (if a < b then (a, n) # (b, m) # xs else (b, m) # ins_entry a n xs)"

fun repl_entry :: "string \<Rightarrow> fnode \<Rightarrow> (string \<times> fnode) list \<Rightarrow> (string \<times> fnode) list" where
  "repl_entry a n [] = []"
| "repl_entry a n ((b, m) # xs) = (if b = a then (b, n) # xs else (b, m) # repl_entry a n xs)"

definition set_entry :: "string \<Rightarrow> fnode \<Rightarrow> (string \<times> fnode) list \<Rightarrow> (string \<times> fnode) list" where
  "set_entry a n xs = (if map_of xs a = None then ins_entry a n xs else repl_entry a n xs)"

text \<open>\<^verbatim>\<open>os.MkdirAll\<close> of the parent, then a file is put at the path; an element that is not a
  directory on the way, or a directory at the path itself, is an error.\<close>

fun tree_put :: "fpath \<Rightarrow> fnode \<Rightarrow> fnode \<Rightarrow> fnode option" where
  "tree_put [a] n (FDir xs) =
     (case map_of xs a of
        Some m \<Rightarrow> if is_dir m then None else Some (FDir (set_entry a n xs))
      | None \<Rightarrow> Some (FDir (set_entry a n xs)))"
| "tree_put (a # b # p) n (FDir xs) =
     (case tree_put (b # p) n (case map_of xs a of Some m \<Rightarrow> m | None \<Rightarrow> FDir []) of
        Some m \<Rightarrow> Some (FDir (set_entry a m xs))
      | None \<Rightarrow> None)"
| "tree_put p n t = None"

text \<open>No directory holds two entries of the same name.\<close>

fun wf_tree :: "fnode \<Rightarrow> bool" where
  "wf_tree (FDir xs) \<longleftrightarrow> distinct (map fst xs) \<and> list_all (\<lambda>(a, m). wf_tree m) xs"
| "wf_tree t \<longleftrightarrow> True"

lemma map_of_ins_entry: "map_of xs a = None \<Longrightarrow> map_of (ins_entry a n xs) b = (if b = a then Some n else map_of xs b)"
  by (induction a n xs rule: ins_entry.induct) (auto split: if_splits)

lemma map_of_repl_entry:
  "map_of (repl_entry a n xs) b = (if b = a \<and> map_of xs a \<noteq> None then Some n else map_of xs b)"
  by (induction a n xs rule: repl_entry.induct) auto

lemma map_of_set_entry [simp]: "map_of (set_entry a n xs) b = (if b = a then Some n else map_of xs b)"
  by (auto simp: set_entry_def map_of_ins_entry map_of_repl_entry)

lemma set_ins_entry: "set (ins_entry a n xs) = insert (a, n) (set xs)"
  by (induction a n xs rule: ins_entry.induct) auto

lemma fst_repl_entry: "map fst (repl_entry a n xs) = map fst xs"
  by (induction a n xs rule: repl_entry.induct) auto

lemma set_repl_entry: "set (repl_entry a n xs) \<subseteq> insert (a, n) (set xs)"
  by (induction a n xs rule: repl_entry.induct) auto

lemma distinct_ins_entry: "a \<notin> fst ` set xs \<Longrightarrow> distinct (map fst xs) \<Longrightarrow> distinct (map fst (ins_entry a n xs))"
  by (induction a n xs rule: ins_entry.induct) (auto simp: set_ins_entry split: if_splits)

lemma distinct_set_entry: "distinct (map fst xs) \<Longrightarrow> distinct (map fst (set_entry a n xs))"
  by (simp add: set_entry_def fst_repl_entry distinct_ins_entry map_of_eq_None_iff)

lemma set_set_entry: "set (set_entry a n xs) \<subseteq> insert (a, n) (set xs)"
  by (simp add: set_entry_def set_ins_entry set_repl_entry)

lemma wf_set_entry:
  "wf_tree (FDir xs) \<Longrightarrow> wf_tree n \<Longrightarrow> wf_tree (FDir (set_entry a n xs))"
  using set_set_entry [of a n xs] distinct_set_entry [of xs a n] by (auto simp: list_all_iff)

lemma wf_tree_put: "tree_put p n t = Some t' \<Longrightarrow> wf_tree t \<Longrightarrow> wf_tree n \<Longrightarrow> wf_tree t'"
proof (induction p n t arbitrary: t' rule: tree_put.induct)
  case (1 a n xs)
  then show ?case
    using wf_set_entry [of xs n a] by (auto split: option.splits if_splits)
next
  case (2 a b p n xs)
  then obtain m where m: "tree_put (b # p) n (case map_of xs a of Some m \<Rightarrow> m | None \<Rightarrow> FDir []) = Some m"
    "t' = FDir (set_entry a m xs)" by (auto split: option.splits)
  have "wf_tree (case map_of xs a of Some m \<Rightarrow> m | None \<Rightarrow> FDir [])"
    using 2(3) by (auto simp: list_all_iff split: option.splits dest: map_of_SomeD)
  then have "wf_tree m" using 2(1) [OF m(1)] 2(4) by simp
  then show ?case using wf_set_entry [OF 2(3)] m(2) by simp
qed auto

text \<open>The lookup law of a file store.\<close>

lemma file_at_Nil_dir: "is_dir t \<Longrightarrow> file_at t [] = None"
  by (simp add: file_at_def)

lemma file_at_Cons:
  "file_at (FDir xs) (a # p) = (case map_of xs a of None \<Rightarrow> None | Some m \<Rightarrow> file_at m p)"
  by (simp add: file_at_def split: option.splits)

lemma file_at_no_dir: "\<not> is_dir t \<Longrightarrow> file_at t (a # p) = None"
  by (cases t) (auto simp: file_at_def)

lemma file_at_file: "\<not> is_dir t \<Longrightarrow> file_at t q = (if q = [] then Some t else None)"
  by (cases q; cases t) (simp_all add: file_at_def)

lemma file_at_empty [simp]: "file_at (FDir []) q = None"
  by (cases q) (auto simp: file_at_Cons file_at_Nil_dir)

lemma file_at_unreadable [simp]: "file_at FUnreadable q = None"
  by (cases q) (auto simp: file_at_def)

lemma tree_put_dir: "tree_put p n t = Some t' \<Longrightarrow> (\<exists>xs. t = FDir xs) \<and> (\<exists>ys. t' = FDir ys)"
  by (induction p n t rule: tree_put.induct) (auto split: option.splits if_splits)

lemma file_at_put:
  assumes "\<not> is_dir n"
  shows "tree_put p n t = Some t' \<Longrightarrow> file_at t' q = (if q = p then Some n else file_at t q)"
  using assms
proof (induction p n t arbitrary: t' q rule: tree_put.induct)
  case (1 a n xs)
  from 1(1) have t': "t' = FDir (set_entry a n xs)"
    by (auto split: option.splits if_splits)
  show ?case
  proof (cases q)
    case Nil
    then show ?thesis by (simp add: t' file_at_Nil_dir)
  next
    case (Cons c q')
    then show ?thesis using 1 by (auto simp: t' file_at_Cons file_at_file split: option.splits if_splits)
  qed
next
  case (2 a b p n xs)
  let ?sub = "case map_of xs a of Some m \<Rightarrow> m | None \<Rightarrow> FDir []"
  from 2(2) obtain m where m: "tree_put (b # p) n ?sub = Some m" "t' = FDir (set_entry a m xs)"
    by (auto split: option.splits)
  note IH = 2(1) [OF m(1) 2(3)]
  show ?case
  proof (cases q)
    case Nil
    then show ?thesis by (simp add: m(2) file_at_Nil_dir)
  next
    case (Cons c q')
    then show ?thesis
      using IH [of q'] by (auto simp: m(2) file_at_Cons split: option.splits)
  qed
qed auto

section \<open>The visited files\<close>

lemma visits_prefix:
  "(q, n) \<in> set (visits skip p t) \<Longrightarrow> prefix p q"
  "(q, n) \<in> set (visits_list skip p xs) \<Longrightarrow> \<exists>a \<in> fst ` set xs. prefix (p @ [a]) q"
  by (induction skip p t and skip p xs rule: visits_visits_list.induct)
     (auto split: if_splits dest: append_prefixD)

lemma distinct_visits:
  "wf_tree t \<Longrightarrow> distinct (map fst (visits skip p t))"
  "wf_tree (FDir xs) \<Longrightarrow> distinct (map fst (visits_list skip p xs))"
proof (induction skip p t and skip p xs rule: visits_visits_list.induct)
  case (1 skip p xs)
  then show ?case by (fastforce dest: visits_prefix(2) simp: prefix_def)
next
  case (6 skip p n t xs)
  have "fst ` set (visits skip (p @ [n]) t) \<inter> fst ` set (visits_list skip p xs) = {}"
  proof (rule ccontr)
    assume "\<not> ?thesis"
    then obtain q m m' where q: "(q, m) \<in> set (visits skip (p @ [n]) t)" "(q, m') \<in> set (visits_list skip p xs)"
      by auto
    then obtain a where "a \<in> fst ` set xs" "prefix (p @ [a]) q" "prefix (p @ [n]) q"
      using visits_prefix(1) [OF q(1)] visits_prefix(2) [OF q(2)] by blast
    moreover from this have "a = n" by (auto simp: prefix_def)
    ultimately show False using 6(3) by auto
  qed
  then show ?case using 6 by simp
qed auto

lemma visits_file_at:
  "wf_tree t \<Longrightarrow> (p @ q, n) \<in> set (visits skip p t) \<and> \<not> is_dir n
     \<longleftrightarrow> file_at t q = Some n \<and> (\<forall>k < length q. \<not> skip (p @ take k q))"
  "wf_tree (FDir xs) \<Longrightarrow> (p @ q, n) \<in> set (visits_list skip p xs) \<and> \<not> is_dir n
     \<longleftrightarrow> file_at (FDir xs) q = Some n \<and> (\<forall>k < length q. 0 < k \<longrightarrow> \<not> skip (p @ take k q))"
proof (induction skip p t and skip p xs arbitrary: q and q rule: visits_visits_list.induct)
  case (1 skip p xs)
  show ?case
  proof (cases q)
    case Nil
    then show ?thesis by (auto simp: file_at_Nil_dir dest!: visits_prefix(2))
  next
    case (Cons a q')
    then show ?thesis
      using 1 by (auto simp: less_Suc_eq_0_disj)
  qed
next
  case (6 skip p a t xs)
  show ?case
  proof (cases q)
    case Nil
    then show ?thesis
      by (auto simp: file_at_Nil_dir dest!: visits_prefix)
  next
    case (Cons b q')
    have tk: "(\<forall>k < length q. 0 < k \<longrightarrow> \<not> skip (p @ take k q)) \<longleftrightarrow>
        (\<forall>k < length q'. \<not> skip ((p @ [b]) @ take k q'))"
      unfolding Cons by (auto simp: less_Suc_eq_0_disj)
    have no: "(p @ q, n) \<notin> set (visits skip (p @ [a]) t)" if "a \<noteq> b"
      using that by (auto simp: Cons dest!: visits_prefix)
    have nox: "(p @ q, n) \<notin> set (visits_list skip p xs)" if "a = b"
      using that 6(3) by (force simp: Cons dest!: visits_prefix(2))
    show ?thesis
    proof (cases "a = b")
      case True
      then show ?thesis
        using 6(1) [of q'] 6(3) tk nox by (simp add: Cons file_at_Cons list_all_iff)
    next
      case False
      then show ?thesis
        using 6(2) [of q] 6(3) no by (simp add: Cons file_at_Cons)
    qed
  qed
qed (auto simp: file_at_file)

text \<open>A tree that has only files and directories where \<open>t\<close> has them takes every file of \<open>t\<close>.\<close>

inductive embeds :: "fnode \<Rightarrow> fnode \<Rightarrow> bool" where
  embeds_file: "\<not> is_dir d \<Longrightarrow> \<not> is_dir t \<Longrightarrow> embeds d t"
| embeds_dir: "(\<And>a m. map_of xs a = Some m \<Longrightarrow> \<exists>m'. map_of ys a = Some m' \<and> embeds m m')
    \<Longrightarrow> embeds (FDir xs) (FDir ys)"

inductive_cases embeds_dirE: "embeds (FDir xs) t"

lemma embeds_empty: "embeds (FDir []) (FDir ys)"
  by (rule embeds_dir) simp

lemma embeds_is_dir: "embeds d t \<Longrightarrow> is_dir d = is_dir t"
  by (cases rule: embeds.cases) auto

lemma embeds_FDir: "embeds d (FDir ys) \<Longrightarrow> \<exists>xs. d = FDir xs"
  by (cases rule: embeds.cases) auto

lemma embeds_put:
  "embeds (FDir xs) t \<Longrightarrow> file_at t p = Some n0 \<Longrightarrow> \<not> is_dir n
   \<Longrightarrow> \<exists>d'. tree_put p n (FDir xs) = Some d' \<and> embeds d' t"
proof (induction p arbitrary: xs t)
  case Nil
  then show ?case by (auto elim!: embeds_dirE simp: file_at_Nil_dir)
next
  case (Cons a p)
  then obtain ys where t: "t = FDir ys"
    and ys: "\<And>a m. map_of xs a = Some m \<Longrightarrow> \<exists>m'. map_of ys a = Some m' \<and> embeds m m'"
    by (auto elim!: embeds_dirE)
  from Cons.prems(2) obtain m' where m': "map_of ys a = Some m'" "file_at m' p = Some n0"
    by (auto simp: t file_at_Cons split: option.splits)
  show ?case
  proof (cases p)
    case Nil
    then have "\<not> is_dir m'" using m'(2) by (auto simp: file_at_Nil_dir)
    then have "\<not> is_dir m" if "map_of xs a = Some m" for m
      using ys [OF that] m'(1) embeds_is_dir by auto
    then have "tree_put (a # p) n (FDir xs) = Some (FDir (set_entry a n xs))"
      using Nil by (auto split: option.splits)
    moreover have "embeds (FDir (set_entry a n xs)) (FDir ys)"
      using ys m'(1) Cons.prems(3) \<open>\<not> is_dir m'\<close>
      by (intro embeds_dir) (auto split: if_splits intro: embeds_file)
    ultimately show ?thesis by (simp add: t)
  next
    case (Cons b q)
    let ?sub = "case map_of xs a of Some m \<Rightarrow> m | None \<Rightarrow> FDir []"
    have "is_dir m'" using m'(2) by (auto simp: Cons file_at_no_dir intro: ccontr)
    then obtain zs where zs: "m' = FDir zs" using m'(2) by (cases m') auto
    have "embeds ?sub m'"
      using ys [of a] m'(1) by (cases "map_of xs a") (auto simp: zs embeds_empty)
    then obtain us where us: "?sub = FDir us" "embeds (FDir us) m'"
      using embeds_FDir zs by metis
    from Cons.IH [OF us(2) m'(2) Cons.prems(3)] obtain d where d: "tree_put p n (FDir us) = Some d" "embeds d m'"
      by blast
    then have "tree_put (a # p) n (FDir xs) = Some (FDir (set_entry a d xs))"
      using us(1) Cons by simp
    moreover have "embeds (FDir (set_entry a d xs)) (FDir ys)"
      using ys m'(1) d(2) by (intro embeds_dir) (auto split: if_splits)
    ultimately show ?thesis by (simp add: t)
  qed
qed

section \<open>Trees that can be listed\<close>

fun listable :: "fnode \<Rightarrow> bool" where
  "listable (FDir xs) \<longleftrightarrow> list_all (\<lambda>(a, m). listable m) xs"
| "listable FUnreadable \<longleftrightarrow> False"
| "listable t \<longleftrightarrow> True"

lemma listable_visits:
  "listable t \<Longrightarrow> (q, n) \<in> set (visits skip p t) \<Longrightarrow> n \<noteq> FUnreadable"
  "list_all (\<lambda>(a, m). listable m) xs \<Longrightarrow> (q, n) \<in> set (visits_list skip p xs) \<Longrightarrow> n \<noteq> FUnreadable"
  by (induction skip p t and skip p xs rule: visits_visits_list.induct) (auto split: if_splits)

lemma listable_readable: "listable t \<Longrightarrow> readable skip p t"
  unfolding readable_def using listable_visits(1) by fast

lemma listable_file: "\<not> is_dir n \<Longrightarrow> listable n"
  by (cases n) auto

lemma listable_set_entry: "listable (FDir xs) \<Longrightarrow> listable n \<Longrightarrow> listable (FDir (set_entry a n xs))"
  using set_set_entry [of a n xs] by (fastforce simp: list_all_iff)

lemma listable_tree_put: "tree_put p n t = Some t' \<Longrightarrow> listable t \<Longrightarrow> \<not> is_dir n \<Longrightarrow> listable t'"
proof (induction p n t arbitrary: t' rule: tree_put.induct)
  case (1 a n xs)
  then have "t' = FDir (set_entry a n xs)" by (auto split: option.splits if_splits)
  then show ?case using listable_set_entry [OF 1(2)] listable_file [OF 1(3)] by simp
next
  case (2 a b p n xs)
  let ?sub = "case map_of xs a of Some m \<Rightarrow> m | None \<Rightarrow> FDir []"
  from 2(2) obtain m where m: "tree_put (b # p) n ?sub = Some m" "t' = FDir (set_entry a m xs)"
    by (auto split: option.splits)
  have "listable ?sub" using 2(3) by (auto simp: list_all_iff split: option.splits dest: map_of_SomeD)
  then have "listable m" using 2(1) [OF m(1)] 2(4) by blast
  then show ?case using listable_set_entry [OF 2(3)] m(2) by simp
qed auto

end
