(* ===== verification/Uploader.thy ===== *)
theory Uploader
  imports FileTree
begin

text \<open>
  The upload of a directory to Usenet (\<^verbatim>\<open>services/upload_usenet.go\<close>): the subjects of the
  articles, the list of files that \<open>UploadDirectory\<close> posts, the worker pool of \<open>UploadToUsenet\<close>
  as a transition system, and the NNTP dialogue of a worker (\<open>connectNNTP\<close>, \<open>uploadChunk\<close>).
\<close>

section \<open>Subjects\<close>

definition subject_special :: "char \<Rightarrow> bool" where
  "subject_special c \<longleftrightarrow> c \<in> {CHR ''['', CHR '']'', CHR ''('', CHR '')'', CHR 0x22, CHR 0x0D, CHR 0x0A, CHR 0x09}"

definition subjectSafe :: "string \<Rightarrow> string" where
  "subjectSafe s =
     (let t = map (\<lambda>c. if subject_special c then CHR '' '' else c) s;
          u = join '' '' (fields_func is_space t)
      in if u = [] then ''release'' else u)"

definition quote :: string where
  "quote = [CHR 0x22]"

definition subject_prefix :: "string \<Rightarrow> nat \<Rightarrow> nat \<Rightarrow> string \<Rightarrow> string" where
  "subject_prefix base i fileCount name =
     base @ '' ['' @ itoa (int i) @ ''/'' @ itoa (int fileCount) @ ''] - '' @ quote @ name @ quote @ '' yEnc''"

definition chunk_subject :: "string \<Rightarrow> nat \<Rightarrow> nat \<Rightarrow> string" where
  "chunk_subject pre i totalChunks = pre @ '' ('' @ itoa (int i) @ ''/'' @ itoa (int totalChunks) @ '')''"

section \<open>UploadDirectory\<close>

record 'seg FileSegments =
  FileName :: string
  Segments :: "'seg list"

definition upload_cb :: "(fpath \<times> fnode) list \<Rightarrow> fpath \<Rightarrow> fnode \<Rightarrow> (fpath \<times> fnode) list \<times> wres" where
  "upload_cb files p n =
     (case node_err n of
        Some e \<Rightarrow> (files, WErr e)
      | None \<Rightarrow> if is_dir n \<or> lsize n = 0 then (files, WNil) else (files @ [(p, n)], WNil))"

text \<open>The result of the walk is ignored.\<close>

definition upload_list :: "fnode \<Rightarrow> (fpath \<times> fnode) list" where
  "upload_list dir = fst (file_walk upload_cb [] dir)"

text \<open>The size \<^verbatim>\<open>os.Stat\<close> gives for a file; an error counts as 0.\<close>

definition stat_size :: "fnode \<Rightarrow> int" where
  "stat_size n = (case resolve n of Some m \<Rightarrow> int (lsize m) | None \<Rightarrow> 0)"

definition post_name :: "bool \<Rightarrow> (nat \<Rightarrow> string) \<Rightarrow> nat \<Rightarrow> fpath \<Rightarrow> string" where
  "post_name obfuscate rnd i p =
     (let base = path_base (join [slash] p) in if obfuscate then rnd i @ file_ext base else base)"

definition nzb_subject :: "string \<Rightarrow> nat \<Rightarrow> nat \<Rightarrow> fpath \<Rightarrow> nat \<Rightarrow> string" where
  "nzb_subject releaseName i fileCount p segs =
     subject_prefix (subjectSafe releaseName) i fileCount (join [slash] p) @ '' (1/'' @ itoa (int segs) @ '')''"

text \<open>\<open>upload i p subjectPrefix embedName cumulative totalDir\<close> is the upload of one file, \<open>cancelled i\<close>
  the state of the context before file \<open>i\<close>. Files are numbered from 1; \<open>rnd 0\<close> is the release token.\<close>

fun upload_files ::
  "(nat \<Rightarrow> fpath \<Rightarrow> string \<Rightarrow> string \<Rightarrow> int \<Rightarrow> int \<Rightarrow> string + 'seg list) \<Rightarrow> (nat \<Rightarrow> bool) \<Rightarrow> bool \<Rightarrow> (nat \<Rightarrow> string)
    \<Rightarrow> string \<Rightarrow> nat \<Rightarrow> int \<Rightarrow> nat \<Rightarrow> int \<Rightarrow> (fpath \<times> fnode) list \<Rightarrow> string + 'seg FileSegments list" where
  "upload_files upload cancelled obfuscate rnd releaseName fileCount totalDir i cum [] = Inr []"
| "upload_files upload cancelled obfuscate rnd releaseName fileCount totalDir i cum ((p, n) # files) =
     (if cancelled i then Inl ''context canceled''
      else
        (let base = (if obfuscate then rnd 0 else subjectSafe releaseName);
             name = post_name obfuscate rnd i p
         in case upload i p (subject_prefix base i fileCount (subjectSafe name)) name cum totalDir of
              Inl e \<Rightarrow> Inl (''upload '' @ join [slash] p @ '': '' @ e)
            | Inr segs \<Rightarrow>
                (case upload_files upload cancelled obfuscate rnd releaseName fileCount totalDir (i + 1) (cum + stat_size n) files of
                   Inl e \<Rightarrow> Inl e
                 | Inr rest \<Rightarrow>
                     Inr (\<lparr>FileName = nzb_subject releaseName i fileCount p (length segs), Segments = segs\<rparr> # rest))))"

definition UploadDirectory ::
  "(nat \<Rightarrow> fpath \<Rightarrow> string \<Rightarrow> string \<Rightarrow> int \<Rightarrow> int \<Rightarrow> string + 'seg list) \<Rightarrow> (nat \<Rightarrow> bool) \<Rightarrow> bool \<Rightarrow> (nat \<Rightarrow> string)
    \<Rightarrow> fnode \<Rightarrow> string \<Rightarrow> string + 'seg FileSegments list" where
  "UploadDirectory upload cancelled obfuscate rnd dir releaseName =
     (let files = upload_list dir
      in if files = [] then Inl ''no files to upload''
         else upload_files upload cancelled obfuscate rnd releaseName (length files)
                (sum_list (map (stat_size \<circ> snd) files)) 1 0 files)"

section \<open>Facts of the subjects\<close>

lemma subjectSafe_chars:
  "c \<in> set (subjectSafe s) \<Longrightarrow> \<not> subject_special c"
proof -
  let ?t = "map (\<lambda>c. if subject_special c then CHR '' '' else c) s"
  assume c: "c \<in> set (subjectSafe s)"
  show ?thesis
  proof (cases "join '' '' (fields_func is_space ?t) = []")
    case True
    then show ?thesis using c by (auto simp: subjectSafe_def Let_def subject_special_def)
  next
    case False
    then have "c \<in> set (join '' '' (fields_func is_space ?t))" using c by (simp add: subjectSafe_def Let_def)
    then have "c = CHR '' '' \<or> c \<in> \<Union> (set ` set (fields_func is_space ?t))"
      using set_join [of "'' ''" "fields_func is_space ?t"] by auto
    then show ?thesis
      using fields_func_chars [of _ is_space ?t] by (auto simp: subject_special_def split: if_splits)
  qed
qed

lemma subjectSafe_ne [simp]: "subjectSafe s \<noteq> []"
  by (simp add: subjectSafe_def Let_def)

lemma count_digits: "\<not> is_digit c \<Longrightarrow> c \<noteq> CHR ''-'' \<Longrightarrow> count_list (itoa i) c = 0"
  using itoa_nat_digits by (auto simp: itoa_def count_list_0_iff)

lemma count_safe: "subject_special c \<Longrightarrow> count_list (subjectSafe s) c = 0"
  using subjectSafe_chars by (auto simp: count_list_0_iff)

section \<open>The files that are posted\<close>

lemma obeys_upload_cb: "obeys no_skip upload_cb"
  by (auto simp: obeys_def upload_cb_def no_skip_def split: option.splits)

lemma upload_list_readable:
  assumes "readable no_skip [] dir"
  shows "upload_list dir = filter (\<lambda>(p, n). \<not> is_dir n \<and> lsize n \<noteq> 0) (visits no_skip [] dir)"
proof -
  let ?g = "\<lambda>files (p, n). if is_dir n \<or> lsize n = 0 then files else files @ [(p, n)]"
  have fold: "foldl ?g acc vs = acc @ filter (\<lambda>(p, n). \<not> is_dir n \<and> lsize n \<noteq> 0) vs" for acc vs
    by (induction vs arbitrary: acc) (auto split: if_splits)
  have "walk_seq upload_cb [] (visits no_skip [] dir) = (foldl ?g [] (visits no_skip [] dir), WNil)"
  proof (rule walk_seq_fold)
    fix s q n assume "(q, n) \<in> set (visits no_skip [] dir)"
    then have "node_err n = None" using assms by (cases n) (auto simp: readable_def)
    then show "upload_cb s q n = (?g s (q, n), WNil) \<or> upload_cb s q n = (?g s (q, n), WSkipDir)"
      by (auto simp: upload_cb_def)
  qed
  then show ?thesis
    by (simp add: upload_list_def file_walk_seq [OF obeys_upload_cb] fold)
qed

lemma upload_files_names:
  "upload_files upload cancelled obfuscate rnd rel cnt totalDir i cum files = Inr fs \<Longrightarrow>
     length fs = length files
     \<and> (\<forall>k < length files. FileName (fs ! k) = nzb_subject rel (i + k) cnt (fst (files ! k)) (length (Segments (fs ! k)))
          \<and> (\<exists>cum. upload (i + k) (fst (files ! k))
                (subject_prefix (if obfuscate then rnd 0 else subjectSafe rel) (i + k) cnt
                   (subjectSafe (post_name obfuscate rnd (i + k) (fst (files ! k)))))
                (post_name obfuscate rnd (i + k) (fst (files ! k))) cum totalDir = Inr (Segments (fs ! k))))"
proof (induction upload cancelled obfuscate rnd rel cnt totalDir i cum files arbitrary: fs rule: upload_files.induct)
  case (1 upload cancelled obfuscate rnd rel cnt totalDir i cum)
  then show ?case by simp
next
  case (2 upload cancelled obfuscate rnd rel cnt totalDir i cum p n files)
  let ?base = "if obfuscate then rnd 0 else subjectSafe rel"
  let ?name = "post_name obfuscate rnd i p"
  from 2(2) obtain segs rest where
    up: "\<not> cancelled i" "upload i p (subject_prefix ?base i cnt (subjectSafe ?name)) ?name cum totalDir = Inr segs"
    and rest: "upload_files upload cancelled obfuscate rnd rel cnt totalDir (i + 1) (cum + stat_size n) files = Inr rest"
    and fs: "fs = \<lparr>FileName = nzb_subject rel i cnt p (length segs), Segments = segs\<rparr> # rest"
    by (auto simp: Let_def split: if_splits sum.splits)
  note IH = 2(1) [OF up(1) refl refl up(2) rest]
  show ?case
  proof (intro conjI allI impI)
    show "length fs = length ((p, n) # files)" using IH by (simp add: fs)
    fix k assume k: "k < length ((p, n) # files)"
    show "FileName (fs ! k) = nzb_subject rel (i + k) cnt (fst (((p, n) # files) ! k)) (length (Segments (fs ! k)))"
      using IH k by (cases k) (auto simp: fs)
    show "\<exists>cum. upload (i + k) (fst (((p, n) # files) ! k))
                (subject_prefix ?base (i + k) cnt
                   (subjectSafe (post_name obfuscate rnd (i + k) (fst (((p, n) # files) ! k)))))
                (post_name obfuscate rnd (i + k) (fst (((p, n) # files) ! k))) cum totalDir = Inr (Segments (fs ! k))"
      using IH k up(2) by (cases k) (auto simp: fs)
  qed
qed

section \<open>The NNTP dialogue\<close>

text \<open>A reply of the server, or an error of the connection; \<^verbatim>\<open>ReadCodeLine\<close> of Go's
  \<^verbatim>\<open>net/textproto\<close> with an expected code (0 accepts every code) turns another code into an error
  whose text starts with that code.\<close>

type_synonym nntp_reply = "string + (nat \<times> string)"

definition code_text :: "nat \<Rightarrow> string" where
  "code_text code = (if code < 10 then ''00'' else if code < 100 then ''0'' else []) @ itoa_nat code"

definition ReadCodeLine :: "nat \<Rightarrow> nntp_reply \<Rightarrow> string option" where
  "ReadCodeLine expect r =
     (case r of
        Inl e \<Rightarrow> Some e
      | Inr (code, msg) \<Rightarrow> if expect \<noteq> 0 \<and> code \<noteq> expect then Some (code_text code @ '' '' @ msg) else None)"

definition isNNTPAuthError :: "string \<Rightarrow> bool" where
  "isNNTPAuthError s \<longleftrightarrow>
     contains s ''401 '' \<or> contains s ''403 '' \<or> contains s ''480 '' \<or> contains s ''481 ''
     \<or> contains s ''482 '' \<or> contains s ''502 '' \<or> contains s ''NNTP Auth failed''"

text \<open>\<^verbatim>\<open>connectNNTP\<close>: \<open>dial\<close>, \<open>w1\<close> and \<open>w2\<close> are the errors of dialling and of the two writes, the
  replies are those to the connection, to \<^verbatim>\<open>AUTHINFO USER\<close> and to \<^verbatim>\<open>AUTHINFO PASS\<close>. The
  result is the list of lines sent and the error. An error of the reply to \<^verbatim>\<open>USER\<close> is dropped.\<close>

definition connectNNTP ::
  "string option \<Rightarrow> string \<Rightarrow> string \<Rightarrow> nntp_reply \<Rightarrow> string option \<Rightarrow> nntp_reply \<Rightarrow> string option \<Rightarrow> nntp_reply
    \<Rightarrow> string list \<times> string option" where
  "connectNNTP dial user pass banner w1 r1 w2 r2 =
     (case dial of
        Some e \<Rightarrow> ([], Some e)
      | None \<Rightarrow>
         (case ReadCodeLine 0 banner of
            Some e \<Rightarrow> ([], Some (''read banner: '' @ e))
          | None \<Rightarrow>
             if user = [] then ([], None)
             else (case w1 of
                Some e \<Rightarrow> ([], Some e)
              | None \<Rightarrow>
                 (let sent = [''AUTHINFO USER '' @ user]
                  in case ReadCodeLine 381 r1 of
                       Some e \<Rightarrow> (sent, None)
                     | None \<Rightarrow>
                        (case w2 of
                           Some e \<Rightarrow> (sent, Some e)
                         | None \<Rightarrow>
                            (sent @ [''AUTHINFO PASS '' @ pass],
                             case ReadCodeLine 281 r2 of
                               Some e \<Rightarrow> Some (''NNTP Auth failed: '' @ e)
                             | None \<Rightarrow> None))))))"

text \<open>\<^verbatim>\<open>uploadChunk\<close>: \<open>qenc\<close> is \<^verbatim>\<open>mime.QEncoding.Encode\<close>, \<open>w1\<close>, \<open>w2\<close> and \<open>w3\<close> the errors of the
  writes of the command, the article and the final dot.\<close>

definition article_headers :: "(string \<Rightarrow> string) \<Rightarrow> string \<Rightarrow> string \<Rightarrow> string \<Rightarrow> string \<Rightarrow> string \<Rightarrow> string \<Rightarrow> string list" where
  "article_headers qenc from_hdr groups subject messageID date generator =
     [''From: '' @ qenc from_hdr, ''Newsgroups: '' @ groups, ''Subject: '' @ qenc subject,
      ''Message-ID: <'' @ messageID @ ''>'', ''Date: '' @ date,
      ''X-Newsreader: '' @ qenc generator, ''X-No-Archive: yes'', '''']"

definition uploadChunk ::
  "string option \<Rightarrow> nntp_reply \<Rightarrow> string option \<Rightarrow> string option \<Rightarrow> nntp_reply \<Rightarrow> string list \<Rightarrow> bytes
    \<Rightarrow> (string list \<times> bytes) option \<times> string option" where
  "uploadChunk w1 r1 w2 w3 r2 headers encoded =
     (case w1 of
        Some e \<Rightarrow> (None, Some e)
      | None \<Rightarrow>
         (case ReadCodeLine 340 r1 of
            Some e \<Rightarrow> (None, Some e)
          | None \<Rightarrow>
             (case w2 of
                Some e \<Rightarrow> (Some (headers, encoded), Some e)
              | None \<Rightarrow>
                 (case w3 of
                    Some e \<Rightarrow> (Some (headers, encoded), Some e)
                  | None \<Rightarrow> (Some (headers, encoded), ReadCodeLine 240 r2)))))"

text \<open>The part of the message id after the at sign: the configured domain, or the domain of the
  poster; \<open>toASCII\<close> is \<^verbatim>\<open>idna.Lookup.ToASCII\<close>.\<close>

definition message_domain :: "(string \<Rightarrow> string option) \<Rightarrow> string \<Rightarrow> string \<Rightarrow> string" where
  "message_domain toASCII domain from_addr =
     (let d = (if domain \<noteq> [] then domain
               else (case split_on (CHR ''@'') from_addr of [a, b] \<Rightarrow> b | _ \<Rightarrow> ''example.com''))
      in case toASCII d of Some a \<Rightarrow> a | None \<Rightarrow> d)"

text \<open>\<^verbatim>\<open>backoffCtx\<close> in seconds: \<^verbatim>\<open>1 << attempt\<close>, at most 10.\<close>

definition backoff_secs :: "nat \<Rightarrow> nat" where
  "backoff_secs attempt = min 10 (2 ^ attempt)"

section \<open>Properties\<close>

text \<open>
  Whatever the release title and the file name contain, the subject of a posted chunk has
  exactly one opening and one closing square bracket, one opening and one closing parenthesis and
  two quotation marks, and no line break: nothing in a name can fake a file or part marker.
\<close>

theorem subject_markers:
  "let s = chunk_subject (subject_prefix (subjectSafe rel) i F (subjectSafe name)) k n
   in map (count_list s) [CHR ''['', CHR '']'', CHR ''('', CHR '')'', CHR 0x22, CHR 0x0D, CHR 0x0A] = [1, 1, 1, 1, 2, 0, 0]"
proof -
  have d: "count_list (itoa (int m)) c = 0" if "c \<in> {CHR ''['', CHR '']'', CHR ''('', CHR '')'', CHR 0x22, CHR 0x0D, CHR 0x0A}" for m c
    using that by (intro count_digits) (auto simp: is_digit_def chr_le_def)
  have s: "count_list (subjectSafe x) c = 0" if "c \<in> {CHR ''['', CHR '']'', CHR ''('', CHR '')'', CHR 0x22, CHR 0x0D, CHR 0x0A}" for x c
    using that by (intro count_safe) (auto simp: subject_special_def)
  show ?thesis
    by (simp add: Let_def chunk_subject_def subject_prefix_def quote_def d s)
qed

text \<open>
  When \<^verbatim>\<open>UploadDirectory\<close> succeeds on a directory that can be listed, its result has one entry
  per non-empty file, in the order of the walk, each with the file's NZB subject and the segments
  that the upload of this file returned.
\<close>

theorem UploadDirectory_complete:
  assumes "readable no_skip [] dir" and "UploadDirectory upload cancelled obfuscate rnd dir rel = Inr fs"
  shows "let files = filter (\<lambda>(p, n). \<not> is_dir n \<and> lsize n \<noteq> 0) (visits no_skip [] dir)
     in length fs = length files
        \<and> (\<forall>k < length files.
             FileName (fs ! k) = nzb_subject rel (k + 1) (length files) (fst (files ! k)) (length (Segments (fs ! k)))
             \<and> (\<exists>pre name cum tot. upload (k + 1) (fst (files ! k)) pre name cum tot = Inr (Segments (fs ! k))))"
proof -
  let ?files = "filter (\<lambda>(p, n). \<not> is_dir n \<and> lsize n \<noteq> 0) (visits no_skip [] dir)"
  have files: "upload_list dir = ?files" by (rule upload_list_readable [OF assms(1)])
  from assms(2) have "upload_files upload cancelled obfuscate rnd rel (length ?files)
      (sum_list (map (stat_size \<circ> snd) ?files)) 1 0 ?files = Inr fs"
    by (auto simp: UploadDirectory_def files Let_def split: if_splits)
  from upload_files_names [OF this] show ?thesis
    unfolding Let_def by (simp only: add.commute [of 1]) blast
qed

definition echo_upload :: "nat \<Rightarrow> fpath \<Rightarrow> string \<Rightarrow> string \<Rightarrow> int \<Rightarrow> int \<Rightarrow> string + string list" where
  "echo_upload i p pre name cum tot = Inr [name]"

theorem UploadDirectory_complete_witness:
  "length [\<lparr>FileName = nzb_subject ''R'' 1 1 [''b.mkv''] 1, Segments = [''b.mkv'']\<rparr>] =
     length (filter (\<lambda>(p, n). \<not> is_dir n \<and> lsize n \<noteq> 0)
       (visits no_skip [] (FDir [(''a.nfo'', FFile []), (''b.mkv'', FFile [1])])))"
proof -
  have "UploadDirectory echo_upload (\<lambda>i. False) False (\<lambda>i. []) (FDir [(''a.nfo'', FFile []), (''b.mkv'', FFile [1])]) ''R''
      = Inr [\<lparr>FileName = nzb_subject ''R'' 1 1 [''b.mkv''] 1, Segments = [''b.mkv'']\<rparr>]"
    by code_simp
  from UploadDirectory_complete [OF _ this] show ?thesis
    unfolding Let_def by (simp add: readable_def no_skip_def)
qed

text \<open>
  A directory that cannot be listed ends the walk of \<^verbatim>\<open>UploadDirectory\<close>, whose result is
  ignored: the files after it are not posted, and the upload still succeeds.
\<close>

theorem UploadDirectory_unreadable:
  assumes "\<And>i p pre name cum tot. upload i p pre name cum tot = Inr [name]"
  shows "UploadDirectory upload (\<lambda>i. False) False rnd
     (FDir [(''a.mkv'', FFile [1]), (''b'', FUnreadable), (''c.mkv'', FFile [2])]) ''R''
     = Inr [\<lparr>FileName = nzb_subject ''R'' 1 1 [''a.mkv''] 1, Segments = [''a.mkv'']\<rparr>]"
proof -
  have "path_base ''a.mkv'' = ''a.mkv''" by code_simp
  then show ?thesis
    by (simp add: UploadDirectory_def upload_list_def file_walk_def upload_cb_def assms post_name_def)
qed

theorem UploadDirectory_unreadable_witness:
  "UploadDirectory echo_upload (\<lambda>i. False) False (\<lambda>i. [])
     (FDir [(''a.mkv'', FFile [1]), (''b'', FUnreadable), (''c.mkv'', FFile [2])]) ''R''
     = Inr [\<lparr>FileName = nzb_subject ''R'' 1 1 [''a.mkv''] 1, Segments = [''a.mkv'']\<rparr>]"
  by (rule UploadDirectory_unreadable) (simp add: echo_upload_def)

text \<open>
  \<^verbatim>\<open>connectNNTP\<close> sends the password only after the server has answered 381 to the user name,
  and reports success exactly when the banner was read and either no user is configured, or the
  server did not answer 381 to the user name (a rejection of the user name is taken for success),
  or it answered 281 to the password.
\<close>

theorem connectNNTP_outcome:
  "(snd (connectNNTP dial user pass banner w1 r1 w2 r2) = None \<longleftrightarrow>
      dial = None \<and> (\<exists>m. banner = Inr m) \<and>
      (user = [] \<or> (w1 = None \<and>
         ((\<nexists>msg. r1 = Inr (381, msg)) \<or> (w2 = None \<and> (\<exists>msg. r2 = Inr (281, msg)))))))
   \<and> (2 \<le> length (fst (connectNNTP dial user pass banner w1 r1 w2 r2)) \<longrightarrow> (\<exists>msg. r1 = Inr (381, msg)))"
  by (cases dial; cases banner; cases r1; cases r2; cases w1; cases w2)
     (auto simp: connectNNTP_def ReadCodeLine_def Let_def split: if_splits)

theorem connectNNTP_outcome_witness:
  "snd (connectNNTP None ''u'' ''p'' (Inr (200, ''hi'')) None (Inr (481, ''no'')) None (Inl ''closed'')) = None"
  using connectNNTP_outcome [of None "''u''" "''p''" "Inr (200, ''hi'')" None "Inr (481, ''no'')" None "Inl ''closed''"]
  by simp

end
