(* ===== verification/Nzb.thy ===== *)
theory Nzb
  imports Uploader
begin

text \<open>
  The NZB file (\<^verbatim>\<open>services/upload_nzb.go\<close>): the newsgroups of a posting and the document that
  \<open>CreateMultiFileNZBBytes\<close> hands to the XML encoder.
\<close>

definition group_sep :: "char \<Rightarrow> bool" where
  "group_sep c \<longleftrightarrow> c \<in> {CHR '','', CHR '' '', CHR 0x09, CHR 0x0A, CHR 0x0D}"

definition group_char :: "char \<Rightarrow> bool" where
  "group_char c \<longleftrightarrow> is_lower c \<or> is_upper c \<or> is_digit c
     \<or> c = CHR ''.'' \<or> c = CHR ''+'' \<or> c = CHR ''-'' \<or> c = CHR ''_''"

definition isValidNewsgroupName :: "string \<Rightarrow> bool" where
  "isValidNewsgroupName s \<longleftrightarrow>
     s \<noteq> [] \<and> hd s \<noteq> CHR ''.'' \<and> last s \<noteq> CHR ''.'' \<and> list_all group_char s"

definition splitNNTPGroups :: "string \<Rightarrow> string list" where
  "splitNNTPGroups s =
     (let parts = map trim_space (fields_func group_sep s);
          good = filter (\<lambda>p. p \<noteq> [] \<and> isValidNewsgroupName p) parts
      in if good = [] then [s] else good)"

record NZBMeta =
  MetaType :: string
  MetaValue :: string

record NZBMetaInfo =
  Title :: string
  RequestID :: int

record 'seg NZBFile =
  Poster :: string
  Date :: int
  Subject :: string
  Groups :: "string list"
  NSegments :: "'seg list"

record 'seg NZB =
  Xmlns :: string
  Head :: "NZBMeta list"
  Files :: "'seg NZBFile list"

record nzb_config =
  GeneratorName :: string
  SiteURL :: string
  NNTPGroup :: string
  NNTPPoster :: string

definition nzb_head :: "nzb_config \<Rightarrow> string \<Rightarrow> NZBMetaInfo \<Rightarrow> NZBMeta list" where
  "nzb_head cfg password meta =
     [\<lparr>MetaType = ''x-generator'', MetaValue = GeneratorName cfg\<rparr>]
     @ (if Title meta \<noteq> [] then [\<lparr>MetaType = ''title'', MetaValue = Title meta\<rparr>] else [])
     @ (if RequestID meta > 0 \<and> SiteURL cfg \<noteq> []
        then [\<lparr>MetaType = ''x-info-url'', MetaValue = SiteURL cfg @ ''/release/'' @ itoa (RequestID meta)\<rparr>] else [])
     @ (if password \<noteq> [] then [\<lparr>MetaType = ''password'', MetaValue = password\<rparr>] else [])"

text \<open>\<open>encode\<close> is \<^verbatim>\<open>xml.Encoder.Encode\<close> with its indentation, \<open>now\<close> the Unix time.\<close>

definition CreateMultiFileNZB :: "nzb_config \<Rightarrow> int \<Rightarrow> 'seg FileSegments list \<Rightarrow> string \<Rightarrow> NZBMetaInfo \<Rightarrow> 'seg NZB" where
  "CreateMultiFileNZB cfg now files password meta =
     \<lparr>Xmlns = ''http://www.newzbin.com/DTD/2003/nzb'',
      Head = nzb_head cfg password meta,
      Files = map (\<lambda>f. \<lparr>Poster = NNTPPoster cfg, Date = now, Subject = FileName f,
                        Groups = splitNNTPGroups (NNTPGroup cfg), NSegments = Segments f\<rparr>) files\<rparr>"

definition xml_header :: string where
  "xml_header = ''<?xml version='' @ [CHR 0x22] @ ''1.0'' @ [CHR 0x22] @ '' encoding='' @ [CHR 0x22] @ ''UTF-8'' @ [CHR 0x22] @ ''?>'' @ [CHR 0x0A]"

definition CreateMultiFileNZBBytes ::
  "('seg NZB \<Rightarrow> string + string) \<Rightarrow> nzb_config \<Rightarrow> int \<Rightarrow> 'seg FileSegments list \<Rightarrow> string \<Rightarrow> NZBMetaInfo \<Rightarrow> string + string" where
  "CreateMultiFileNZBBytes encode cfg now files password meta =
     (case encode (CreateMultiFileNZB cfg now files password meta) of
        Inl e \<Rightarrow> Inl e
      | Inr body \<Rightarrow> Inr (xml_header @ ''<!-- NZB Generated by '' @ GeneratorName cfg @ '' -->'' @ [CHR 0x0A] @ body))"

definition CreateNZBBytes ::
  "('seg NZB \<Rightarrow> string + string) \<Rightarrow> nzb_config \<Rightarrow> int \<Rightarrow> string \<Rightarrow> 'seg list \<Rightarrow> string + string" where
  "CreateNZBBytes encode cfg now subject segments =
     CreateMultiFileNZBBytes encode cfg now [\<lparr>FileName = subject, Segments = segments\<rparr>] []
       \<lparr>Title = [], RequestID = 0\<rparr>"

lemma group_char_not_sep: "group_char c \<Longrightarrow> \<not> group_sep c \<and> \<not> is_space c"
  by (auto simp: group_char_def group_sep_def is_space_def is_lower_def is_upper_def is_digit_def chr_le_def)

lemma fields_join_valid:
  "list_all isValidNewsgroupName gs \<Longrightarrow> fields_func group_sep (join '','' gs) = gs"
proof (induction gs)
  case Nil
  then show ?case by (simp add: fields_func_def)
next
  case (Cons g gs)
  have run: "fields_acc group_sep acc (t @ u) = fields_acc group_sep (rev t @ acc) u"
    if "list_all group_char t" for acc t u
    using that by (induction t arbitrary: acc) (auto dest: group_char_not_sep)
  have g: "list_all group_char g" "g \<noteq> []" using Cons.prems by (auto simp: isValidNewsgroupName_def)
  show ?case
  proof (cases gs)
    case Nil
    then show ?thesis using run [OF g(1), of "[]" "[]"] g(2) by (simp add: fields_func_def)
  next
    case (Cons h hs)
    have "group_sep (CHR '','')" by (simp add: group_sep_def)
    then show ?thesis
      using run [OF g(1), of "[]" "CHR '','' # join '','' gs"] g(2) Cons.IH Cons.prems
      by (simp add: fields_func_def \<open>gs = h # hs\<close>)
  qed
qed

text \<open>
  The groups of a posting: the result is never empty; when some token of the configured list is a
  legal newsgroup name, all groups of the result are legal; and a comma-joined list of legal names
  comes back as it was.
\<close>

theorem splitNNTPGroups_valid:
  "splitNNTPGroups s \<noteq> []
   \<and> (list_ex isValidNewsgroupName (map trim_space (fields_func group_sep s)) \<longrightarrow> list_all isValidNewsgroupName (splitNNTPGroups s))
   \<and> (gs \<noteq> [] \<and> list_all isValidNewsgroupName gs \<longrightarrow> splitNNTPGroups (join '','' gs) = gs)"
proof (intro conjI impI)
  show "splitNNTPGroups s \<noteq> []" by (simp add: splitNNTPGroups_def Let_def)
next
  assume "list_ex isValidNewsgroupName (map trim_space (fields_func group_sep s))"
  then obtain p where "p \<in> set (map trim_space (fields_func group_sep s))" "isValidNewsgroupName p"
    by (auto simp: list_ex_iff)
  then have "filter (\<lambda>p. p \<noteq> [] \<and> isValidNewsgroupName p) (map trim_space (fields_func group_sep s)) \<noteq> []"
    by (auto simp: filter_empty_conv isValidNewsgroupName_def)
  then show "list_all isValidNewsgroupName (splitNNTPGroups s)"
    by (auto simp: splitNNTPGroups_def Let_def list_all_iff)
next
  assume *: "gs \<noteq> [] \<and> list_all isValidNewsgroupName gs"
  have "trim_space g = g" if "isValidNewsgroupName g" for g
  proof -
    from that have "list_all group_char g" "g \<noteq> []" by (auto simp: isValidNewsgroupName_def)
    then have "\<not> is_space (hd g) \<and> \<not> is_space (last g)"
      using group_char_not_sep by (auto simp: list_all_iff)
    then show ?thesis unfolding trim_space_def by (intro trim_by_id) simp
  qed
  then have "map trim_space gs = gs" using * by (auto simp: list_all_iff intro!: map_idI)
  moreover have "filter (\<lambda>p. p \<noteq> [] \<and> isValidNewsgroupName p) gs = gs"
    using * by (auto simp: list_all_iff isValidNewsgroupName_def intro!: filter_True)
  ultimately show "splitNNTPGroups (join '','' gs) = gs"
    using * by (simp add: splitNNTPGroups_def fields_join_valid Let_def)
qed

theorem splitNNTPGroups_valid_witness:
  "list_all isValidNewsgroupName (splitNNTPGroups ''alt.a, bad/x alt.b'')
   \<and> splitNNTPGroups (join '','' [''alt.a'', ''alt.b'']) = [''alt.a'', ''alt.b'']"
proof -
  have 1: "list_ex isValidNewsgroupName (map trim_space (fields_func group_sep ''alt.a, bad/x alt.b''))" by code_simp
  have 2: "[''alt.a'', ''alt.b''] \<noteq> [] \<and> list_all isValidNewsgroupName [''alt.a'', ''alt.b'']" by code_simp
  show ?thesis
    using splitNNTPGroups_valid [of "''alt.a, bad/x alt.b''" "[''alt.a'', ''alt.b'']"] 1 2 by blast
qed

end
