(* ===== verification/Par2.thy ===== *)
theory Par2
  imports FileTree
begin

text \<open>
  PAR2 generation (\<^verbatim>\<open>services/upload_par2.go\<close>): the choice of the kernel by probing, the files
  that are protected and the slice size, the command lines, and the splitter of the tool's output
  into lines. Running a tool is a parameter.
\<close>

section \<open>Choosing a kernel\<close>

definition par2MethodLadderFor :: "string \<Rightarrow> string list" where
  "par2MethodLadderFor goarch =
     (if goarch = ''amd64'' \<or> goarch = ''386''
      then ['''', ''xorjit-avx512'', ''shuffle-avx512'', ''xorjit-avx2'', ''shuffle-avx2'', ''shuffle-sse'', ''lookup'']
      else if goarch = ''arm64''
      then ['''', ''clmul-sve2'', ''shuffle128-sve2'', ''clmul-neon'', ''shuffle-neon'', ''lookup'']
      else if goarch = ''arm'' then ['''', ''clmul-neon'', ''shuffle-neon'', ''lookup'']
      else if goarch = ''riscv64'' then ['''', ''clmul-rvv'', ''shuffle128-rvv'', ''lookup'']
      else ['''', ''lookup''])"

definition methodLabel :: "string \<Rightarrow> string" where
  "methodLabel m = (if m = [] then ''auto'' else m)"

text \<open>\<open>smoke m\<close> is the error of the probe run with method \<open>m\<close>, if any.\<close>

fun try_methods :: "(string \<Rightarrow> string option) \<Rightarrow> string list \<Rightarrow> string list \<Rightarrow> string + string" where
  "try_methods smoke failures [] = Inl (join ''; '' failures)"
| "try_methods smoke failures (m # ms) =
     (case smoke m of
        None \<Rightarrow> Inr m
      | Some e \<Rightarrow> try_methods smoke (failures @ [methodLabel m @ '' ('' @ e @ '')'']) ms)"

definition resolveParparMethod :: "(string \<Rightarrow> string option) \<Rightarrow> string \<Rightarrow> string \<Rightarrow> string + string" where
  "resolveParparMethod smoke goarch forced =
     (let ladder = (if forced \<noteq> [] then [forced] else par2MethodLadderFor goarch)
      in try_methods smoke [] ladder)"

text \<open>\<open>parpar\<close> says whether the binary is in the path. The result is the binary and the method.\<close>

definition detectPAR2Binary :: "bool \<Rightarrow> (string \<Rightarrow> string option) \<Rightarrow> string \<Rightarrow> string \<Rightarrow> string \<times> string" where
  "detectPAR2Binary parpar smoke goarch forced =
     (if parpar then
        (case resolveParparMethod smoke goarch forced of
           Inr m \<Rightarrow> (''parpar'', m)
         | Inl e \<Rightarrow> (''par2create'', []))
      else (''par2create'', []))"

text \<open>\<open>run\<close> is the error of the probe process, \<open>hits\<close> the number of \<^verbatim>\<open>.par2\<close> files it left.\<close>

definition smokePAR2 :: "string option \<Rightarrow> nat \<Rightarrow> string option" where
  "smokePAR2 run hits =
     (case run of
        Some e \<Rightarrow> Some e
      | None \<Rightarrow> if hits = 0 then Some ''exited 0 but produced no .par2 files'' else None)"

section \<open>Slice size and command lines\<close>

definition maxPAR2Slices :: int where
  "maxPAR2Slices = 32768"

definition fitBlockSize :: "int \<Rightarrow> int \<Rightarrow> int" where
  "fitBlockSize totalSize want =
     (if want \<le> 0 \<or> totalSize \<le> 0 \<or> totalSize div want \<le> maxPAR2Slices then want
      else (let scaled = (totalSize + maxPAR2Slices - 1) div maxPAR2Slices
            in ((scaled + 3) div 4) * 4))"

record PAR2Options =
  Redundancy :: int
  BlockSize :: int
  Threads :: int
  MemoryMB :: int
  Method :: string

definition isASCII :: "string \<Rightarrow> bool" where
  "isASCII s \<longleftrightarrow> list_all (\<lambda>c. (of_char c :: nat) \<le> 127) s"

definition buildPar2createCmd :: "string \<Rightarrow> int \<Rightarrow> int \<Rightarrow> string list \<Rightarrow> string list" where
  "buildPar2createCmd baseName redundancy blockSize files =
     [''-r'' @ itoa redundancy, ''-s'' @ itoa blockSize, baseName @ ''.par2''] @ files"

definition buildParparCmd :: "string \<Rightarrow> PAR2Options \<Rightarrow> string list \<Rightarrow> string list" where
  "buildParparCmd baseName opts files =
     [''-s'', itoa (BlockSize opts) @ ''B'', ''-r'', itoa (Redundancy opts) @ ''%'', ''-o'', baseName @ ''.par2'', ''-O'']
     @ (if Threads opts > 0 then [''-t'', itoa (Threads opts)] else [])
     @ (if MemoryMB opts > 0 then [''-m'', itoa (MemoryMB opts) @ ''M''] else [])
     @ (if Method opts \<noteq> [] then [''--method'', Method opts] else [])
     @ [''--''] @ files"

definition par2_cb :: "(string list \<times> int) \<Rightarrow> fpath \<Rightarrow> fnode \<Rightarrow> (string list \<times> int) \<times> wres" where
  "par2_cb acc p n =
     (case node_err n of
        Some e \<Rightarrow> (acc, WErr e)
      | None \<Rightarrow>
          if is_dir n then (acc, WNil)
          else if has_suffix (to_lower (join [slash] p)) ''.par2'' then (acc, WNil)
          else ((fst acc @ [join [slash] p], snd acc + int (lsize n)), WNil))"

text \<open>The part of \<^verbatim>\<open>GeneratePAR2\<close> before the tool runs: the binary and its arguments.\<close>

definition GeneratePAR2_cmd :: "string \<Rightarrow> string \<Rightarrow> fnode \<Rightarrow> string \<Rightarrow> PAR2Options \<Rightarrow> string + string \<times> string list" where
  "GeneratePAR2_cmd binary probed dir baseName opts0 =
     (let opts1 = (if Redundancy opts0 \<le> 0 then opts0\<lparr>Redundancy := 5\<rparr> else opts0);
          opts2 = (if BlockSize opts1 \<le> 0 then opts1\<lparr>BlockSize := 700 * 1024\<rparr> else opts1)
      in case file_walk par2_cb ([], 0) dir of
           (_, WErr e) \<Rightarrow> Inl (''walk dir: '' @ e)
         | ((files, totalSize), _) \<Rightarrow>
             if files = [] then Inl ''no files found''
             else
               (let opts3 = opts2\<lparr>BlockSize := fitBlockSize totalSize (BlockSize opts2)\<rparr>
                in if binary = ''parpar''
                   then (let opts4 = (if Method opts3 = [] then opts3\<lparr>Method := probed\<rparr> else opts3)
                         in Inr (''parpar'', buildParparCmd baseName opts4 files))
                   else Inr (''par2create'', buildPar2createCmd baseName (Redundancy opts3) (BlockSize opts3) files)))"

section \<open>Splitting the output\<close>

text \<open>\<^verbatim>\<open>scanLinesOrCR\<close>: how far to advance and the token, or no progress (more data wanted).\<close>

fun scan_from :: "string \<Rightarrow> string \<Rightarrow> (string \<times> string) option" where
  "scan_from acc [] = None"
| "scan_from acc (c # cs) =
     (if c = CHR 0x0A then Some (rev acc, cs)
      else if c = CHR 0x0D then
        Some (rev acc, case cs of d # ds \<Rightarrow> if d = CHR 0x0A then ds else cs | [] \<Rightarrow> cs)
      else scan_from (c # acc) cs)"

definition scanLinesOrCR :: "string \<Rightarrow> bool \<Rightarrow> (string \<times> string) option" where
  "scanLinesOrCR data atEOF =
     (if atEOF \<and> data = [] then None
      else case scan_from [] data of
             Some r \<Rightarrow> Some r
           | None \<Rightarrow> if atEOF then Some (data, []) else None)"

lemma scan_from_shorter: "scan_from acc data = Some (t, rest) \<Longrightarrow> length rest < length data"
  by (induction acc data rule: scan_from.induct) (auto split: if_splits list.splits)

lemma scanLinesOrCR_shorter [termination_simp]:
  "scanLinesOrCR data eof = Some (t, rest) \<Longrightarrow> length rest < length data"
  using scan_from_shorter by (auto simp: scanLinesOrCR_def split: if_splits option.splits)

text \<open>\<^verbatim>\<open>bufio.Scanner\<close>: tokens are cut off the buffer as long as the splitter finds one, then the
  next read of the pipe is appended; the end of the pipe is the call with \<open>atEOF\<close>.\<close>

function drain :: "bool \<Rightarrow> string \<Rightarrow> string list \<times> string" where
  "drain eof buf =
     (case scanLinesOrCR buf eof of
        None \<Rightarrow> ([], buf)
      | Some (t, rest) \<Rightarrow> (case drain eof rest of (ts, b) \<Rightarrow> (t # ts, b)))"
  by pat_completeness auto
termination
  by (relation "measure (length \<circ> snd)") (auto dest: scanLinesOrCR_shorter)

declare drain.simps [simp del]

fun scan_reads :: "string \<Rightarrow> string list \<Rightarrow> string list" where
  "scan_reads buf [] = fst (drain True buf)"
| "scan_reads buf (r # rs) =
     (case drain False (buf @ r) of (ts, b) \<Rightarrow> ts @ scan_reads b rs)"

text \<open>What \<^verbatim>\<open>parsePAR2Progress\<close> keeps: the trimmed lines that are not empty.\<close>

definition output_lines :: "string list \<Rightarrow> string list" where
  "output_lines reads = filter (\<lambda>l. l \<noteq> []) (map trim_space (scan_reads [] reads))"

text \<open>The reference: cut the whole output at every carriage return and line feed.\<close>

definition line_break :: "char \<Rightarrow> bool" where
  "line_break c \<longleftrightarrow> c = CHR 0x0A \<or> c = CHR 0x0D"

definition reference_lines :: "string \<Rightarrow> string list" where
  "reference_lines s = filter (\<lambda>l. l \<noteq> []) (map trim_space (fields_func line_break s))"

section \<open>The splitter agrees with the reference\<close>

lemma fields_acc_run: "\<forall>c \<in> set t. \<not> p c \<Longrightarrow> fields_acc p acc (t @ s) = fields_acc p (rev t @ acc) s"
  by (induction t arbitrary: acc) auto

lemma fields_token: "\<forall>c \<in> set t. \<not> p c \<Longrightarrow> p d \<Longrightarrow> fields_func p (t @ d # s) = (if t = [] then [] else [t]) @ fields_func p s"
  by (simp add: fields_func_def fields_acc_run)

lemma fields_last: "\<forall>c \<in> set t. \<not> p c \<Longrightarrow> fields_func p t = (if t = [] then [] else [t])"
  using fields_acc_run [of t p "[]" "[]"] by (simp add: fields_func_def)

lemma scan_from_Some:
  "scan_from acc data = Some (t, rest) \<Longrightarrow>
     \<exists>u c v. data = u @ c # v \<and> t = rev acc @ u \<and> (\<forall>x \<in> set u. \<not> line_break x) \<and> line_break c
       \<and> (rest = v \<or> v = CHR 0x0A # rest)"
proof (induction acc data rule: scan_from.induct)
  case (2 acc c cs)
  show ?case
  proof (cases "line_break c")
    case True
    then have "t = rev acc \<and> (rest = cs \<or> cs = CHR 0x0A # rest)"
      using 2(2) by (auto simp: line_break_def split: list.splits if_splits)
    with True show ?thesis by (intro exI [of _ "[]"] exI [of _ c] exI [of _ cs]) auto
  next
    case False
    then have no: "c \<noteq> CHR 0x0A" "c \<noteq> CHR 0x0D" by (auto simp: line_break_def)
    with 2 obtain u d v where "cs = u @ d # v" "t = rev (c # acc) @ u" "\<forall>x \<in> set u. \<not> line_break x" "line_break d"
      "rest = v \<or> v = CHR 0x0A # rest" by auto
    with False show ?thesis by (intro exI [of _ "c # u"] exI [of _ d] exI [of _ v]) auto
  qed
qed simp

lemma scan_from_None: "scan_from acc data = None \<Longrightarrow> \<forall>x \<in> set data. \<not> line_break x"
  by (induction acc data rule: scan_from.induct) (auto simp: line_break_def split: if_splits)

lemma fields_scan:
  assumes "scan_from [] data = Some (t, rest)"
  shows "fields_func line_break (data @ s) = (if t = [] then [] else [t]) @ fields_func line_break (rest @ s)"
proof -
  from scan_from_Some [OF assms] obtain u c v where u: "data = u @ c # v" "t = u" "\<forall>x \<in> set u. \<not> line_break x"
    "line_break c" "rest = v \<or> v = CHR 0x0A # rest" by auto
  have "fields_func line_break (v @ s) = fields_func line_break (rest @ s)"
    using u(5) fields_token [of "[]" line_break "CHR 0x0A" "rest @ s"] by (auto simp: line_break_def)
  then show ?thesis using fields_token [OF u(3,4), of "v @ s"] by (simp add: u(1,2))
qed

lemma fields_drain_False:
  "drain False buf = (ts, b) \<Longrightarrow>
     fields_func line_break (buf @ s) = filter (\<lambda>t. t \<noteq> []) ts @ fields_func line_break (b @ s)"
proof (induction "False" buf arbitrary: ts b rule: drain.induct)
  case (1 buf)
  show ?case
  proof (cases "scanLinesOrCR buf False")
    case None
    then show ?thesis using 1(2) by (subst (asm) drain.simps) simp
  next
    case (Some tr)
    obtain t rest where tr: "tr = (t, rest)" by fastforce
    obtain ts' where ts': "drain False rest = (ts', b)" "ts = t # ts'"
      using 1(2) by (subst (asm) drain.simps) (auto simp: Some tr split: prod.splits)
    have "scan_from [] buf = Some (t, rest)"
      using Some by (simp add: scanLinesOrCR_def tr split: option.splits)
    from fields_scan [OF this, of s] show ?thesis
      using 1(1) [OF Some [unfolded tr] refl ts'(1)] ts'(2) by simp
  qed
qed

lemma fields_drain_True:
  "fields_func line_break buf = filter (\<lambda>t. t \<noteq> []) (fst (drain True buf))"
proof (induction "True" buf rule: drain.induct)
  case (1 buf)
  show ?case
  proof (cases "scanLinesOrCR buf True")
    case None
    then have "buf = []" by (auto simp: scanLinesOrCR_def split: if_splits option.splits)
    then show ?thesis by (subst drain.simps) (simp add: scanLinesOrCR_def fields_func_def)
  next
    case (Some tr)
    obtain t rest where tr: "tr = (t, rest)" by fastforce
    have IH: "fields_func line_break rest = filter (\<lambda>t. t \<noteq> []) (fst (drain True rest))"
      by (rule 1(1) [OF Some [unfolded tr] refl])
    have "fields_func line_break buf = (if t = [] then [] else [t]) @ fields_func line_break rest"
    proof (cases "scan_from [] buf")
      case None
      then have "t = buf" "rest = []" using Some by (auto simp: scanLinesOrCR_def tr split: if_splits)
      then show ?thesis using fields_last [OF scan_from_None [OF None]] by (simp add: fields_func_def)
    next
      case (Some tr')
      then have "scan_from [] buf = Some (t, rest)"
        using \<open>scanLinesOrCR buf True = Some tr\<close> by (auto simp: scanLinesOrCR_def tr split: if_splits)
      from fields_scan [OF this, of "[]"] show ?thesis by simp
    qed
    then show ?thesis
      using IH by (subst drain.simps) (simp add: Some tr split: prod.splits)
  qed
qed

lemma fields_scan_reads:
  "fields_func line_break (buf @ concat reads) = filter (\<lambda>t. t \<noteq> []) (scan_reads buf reads)"
proof (induction reads arbitrary: buf)
  case Nil
  then show ?case using fields_drain_True [of buf] by simp
next
  case (Cons r rs)
  obtain ts b where d: "drain False (buf @ r) = (ts, b)" by fastforce
  from fields_drain_False [OF d, of "concat rs"] show ?case
    using Cons.IH [of b] d by simp
qed

section \<open>Probing\<close>

lemma try_methods_Inr:
  "try_methods smoke fs ms = Inr m \<longleftrightarrow> List.find (\<lambda>x. smoke x = None) ms = Some m"
  by (induction ms arbitrary: fs) (auto split: option.splits)

section \<open>Properties\<close>

text \<open>
  However the tool's output is cut into reads, and whether it ends its lines with LF, CR or both,
  the lines kept from it are the non-empty trimmed pieces between the line breaks of the whole
  output: the progress parser does not depend on the timing of the pipe.
\<close>

theorem par2_output_lines: "output_lines reads = reference_lines (concat reads)"
proof -
  have "filter (\<lambda>l. l \<noteq> []) (map trim_space xs) = filter (\<lambda>l. l \<noteq> []) (map trim_space (filter (\<lambda>t. t \<noteq> []) xs))" for xs
    by (induction xs) (auto simp: trim_space_def trim_by_def trim_left_by_def trim_right_by_def)
  then show ?thesis
    using fields_scan_reads [of "[]" reads] by (simp add: output_lines_def reference_lines_def)
qed

text \<open>
  The kernel that is chosen is the first of the ladder whose probe succeeds (the operator's own
  choice replaces the whole ladder), and on every architecture the ladder starts with parpar's own
  selection and ends with the scalar kernel, without repetition.
\<close>

theorem resolve_first_working:
  "(resolveParparMethod smoke goarch forced = Inr m \<longleftrightarrow>
      List.find (\<lambda>x. smoke x = None) (if forced \<noteq> [] then [forced] else par2MethodLadderFor goarch) = Some m)
   \<and> hd (par2MethodLadderFor goarch) = [] \<and> last (par2MethodLadderFor goarch) = ''lookup''
   \<and> distinct (par2MethodLadderFor goarch)"
  unfolding resolveParparMethod_def Let_def try_methods_Inr
  by (intro conjI) (simp_all add: par2MethodLadderFor_def)

text \<open>
  When the slice size has to grow, the result is a multiple of four with which the release fits
  the PAR2 limit of 32768 slices, and it grows by less than one step: a size smaller by four bytes
  (or more) would be below the exact quotient rounded up.
\<close>

theorem fitBlockSize_scaled:
  assumes "fitBlockSize totalSize want \<noteq> want"
  shows "4 dvd fitBlockSize totalSize want \<and> totalSize \<le> maxPAR2Slices * fitBlockSize totalSize want
     \<and> want < fitBlockSize totalSize want
     \<and> fitBlockSize totalSize want - 4 < (totalSize + maxPAR2Slices - 1) div maxPAR2Slices"
proof -
  define q where "q = (totalSize + 32767) div 32768"
  have f: "fitBlockSize totalSize want = (q + 3) div 4 * 4"
    and c: "0 < want" "0 < totalSize" "32768 < totalSize div want"
    using assms by (auto simp: fitBlockSize_def maxPAR2Slices_def Let_def q_def split: if_splits)
  have tq: "totalSize \<le> 32768 * q" unfolding q_def by linarith
  have "32769 * want \<le> totalSize"
  proof -
    have "32769 * want \<le> (totalSize div want) * want" using c by (intro mult_right_mono) auto
    also have "\<dots> \<le> totalSize" using c(1) by (metis div_mult_mod_eq le_add_same_cancel1 pos_mod_sign)
    finally show ?thesis .
  qed
  then have "want < q" using tq c(1) by linarith
  moreover have "q \<le> (q + 3) div 4 * 4" "(q + 3) div 4 * 4 - 4 < q" by linarith+
  moreover have "(totalSize + maxPAR2Slices - 1) div maxPAR2Slices = q"
    by (simp add: q_def maxPAR2Slices_def add.commute)
  ultimately show ?thesis
    using tq by (simp add: f maxPAR2Slices_def)
qed

theorem fitBlockSize_scaled_witness:
  "4 dvd fitBlockSize 40000000000 716800 \<and> 40000000000 \<le> maxPAR2Slices * fitBlockSize 40000000000 716800
     \<and> 716800 < fitBlockSize 40000000000 716800
     \<and> fitBlockSize 40000000000 716800 - 4 < (40000000000 + maxPAR2Slices - 1) div maxPAR2Slices"
  by (rule fitBlockSize_scaled) (simp add: fitBlockSize_def maxPAR2Slices_def)

text \<open>
  The guard compares the quotient rounded down: a release that is larger than 32768 slices by less
  than one slice keeps the wanted size and needs 32769 slices, one more than the limit.
\<close>

theorem fitBlockSize_off_by_one:
  assumes "0 < want" and "0 < r" and "r < want"
  shows "fitBlockSize (maxPAR2Slices * want + r) want = want
     \<and> (maxPAR2Slices * want + r + want - 1) div want = maxPAR2Slices + 1"
proof -
  have "(32768 * want + r) div want = 32768" using assms by simp
  moreover have "(32768 * want + r + want - 1) div want = 32769"
  proof -
    have "(32768 * want + r + want - 1) div want = ((r - 1) + 32769 * want) div want" by (simp add: algebra_simps)
    also have "\<dots> = 32769" using assms by simp
    finally show ?thesis .
  qed
  ultimately show ?thesis by (simp add: fitBlockSize_def maxPAR2Slices_def)
qed

theorem fitBlockSize_off_by_one_witness:
  "fitBlockSize (maxPAR2Slices * 716800 + 1) 716800 = 716800
     \<and> (maxPAR2Slices * 716800 + 1 + 716800 - 1) div 716800 = maxPAR2Slices + 1"
  by (rule fitBlockSize_off_by_one) simp_all

end
