(* ===== verification/Stores.thy ===== *)
theory Stores
  imports FileTree
begin

text \<open>
  The contract of the stores the components write to: after a successful write the written key
  reads as the new value and every other key as before. Clients use it through the fold
  \<open>put_all\<close>. The staging directory of a release is such a store; the database tables interpret
  the contract where they are modelled.
\<close>

locale keyed_store =
  fixes look :: "'s \<Rightarrow> 'k \<Rightarrow> 'v option"
    and put :: "'k \<Rightarrow> 'v \<Rightarrow> 's \<Rightarrow> 's option"
    and ok :: "'v \<Rightarrow> bool"
  assumes look_put: "ok v \<Longrightarrow> put k v s = Some s' \<Longrightarrow> look s' q = (if q = k then Some v else look s q)"
begin

fun put_all :: "('k \<times> 'v) list \<Rightarrow> 's \<Rightarrow> 's option" where
  "put_all [] s = Some s"
| "put_all ((k, v) # kvs) s = (case put k v s of None \<Rightarrow> None | Some s' \<Rightarrow> put_all kvs s')"

lemma look_put_other: "ok v \<Longrightarrow> put k v s = Some s' \<Longrightarrow> q \<noteq> k \<Longrightarrow> look s' q = look s q"
  by (simp add: look_put)

lemma look_put_same: "ok v \<Longrightarrow> put k v s = Some s' \<Longrightarrow> look s' k = Some v"
  by (simp add: look_put)

text \<open>Writing a list of pairs reads back as the last pair of each key.\<close>

lemma look_put_all:
  "put_all kvs s = Some s' \<Longrightarrow> list_all (\<lambda>(k, v). ok v) kvs
   \<Longrightarrow> look s' q = (case map_of (rev kvs) q of Some v \<Rightarrow> Some v | None \<Rightarrow> look s q)"
proof (induction kvs arbitrary: s)
  case Nil
  then show ?case by simp
next
  case (Cons kv kvs)
  obtain k v where kv: "kv = (k, v)" by (cases kv)
  with Cons.prems obtain s1 where s1: "put k v s = Some s1" "put_all kvs s1 = Some s'" "ok v"
    by (auto split: option.splits)
  show ?case
    using Cons.IH [OF s1(2)] Cons.prems(2) look_put [OF s1(3,1), of q]
    by (auto simp: kv map_add_def split: option.splits)
qed

lemma look_put_all_distinct:
  assumes "put_all kvs s = Some s'" and "list_all (\<lambda>(k, v). ok v) kvs" and "distinct (map fst kvs)"
    and "\<And>q. look s q = None"
  shows "look s' q = map_of kvs q"
  using look_put_all [OF assms(1,2)] assms(3,4) map_of_inject_set [of "rev kvs" kvs]
  by (auto simp: rev_map [symmetric] split: option.splits)

lemma put_all_append:
  "put_all (kvs @ kws) s = (case put_all kvs s of None \<Rightarrow> None | Some s' \<Rightarrow> put_all kws s')"
  by (induction kvs arbitrary: s) (auto split: option.splits)

end

text \<open>A directory tree, written with \<open>tree_put\<close> and read with \<open>file_at\<close>.\<close>

interpretation tree: keyed_store file_at tree_put "\<lambda>n. \<not> is_dir n"
  by unfold_locales (rule file_at_put)

end
