(* ===== verification/Staging.thy ===== *)
theory Staging
  imports Stores
begin

text \<open>
  Staging of a release (\<^verbatim>\<open>services/upload_obfuscate.go\<close>): the allowlist that decides which
  files may leave the machine, the copy of a content directory into the fresh stage directory
  (\<open>CopyFiles\<close> keeps names, \<open>ObfuscateFiles\<close> replaces them) and the audit that compares file and
  byte counts afterwards.
\<close>

section \<open>The allowlist\<close>

definition agentManagedDirs :: "string list" where
  "agentManagedDirs = [''_screenshots'', ''_subtitles'']"

definition isAgentManagedFile :: "string \<Rightarrow> bool" where
  "isAgentManagedFile name = has_prefix name ''.torrent.''"

definition contentExts :: "string list" where
  "contentExts =
    [''.mkv'', ''.mp4'', ''.m4v'', ''.avi'', ''.mov'',
     ''.wmv'', ''.flv'', ''.webm'', ''.mpg'', ''.mpeg'',
     ''.m2ts'', ''.ts'', ''.vob'', ''.iso'', ''.ogm'',
     ''.flac'', ''.mp3'', ''.m4a'', ''.m4b'', ''.aac'',
     ''.ac3'', ''.dts'', ''.wav'', ''.ogg'', ''.opus'',
     ''.alac'', ''.ape'', ''.wv'', ''.mka'',
     ''.srt'', ''.ass'', ''.ssa'', ''.sub'', ''.idx'',
     ''.vtt'', ''.sup'', ''.smi'',
     ''.jpg'', ''.jpeg'', ''.png'', ''.webp'', ''.bmp'', ''.gif'',
     ''.nfo'', ''.sfv'', ''.md5'', ''.txt'', ''.cue'',
     ''.par2'', ''.rar'', ''.zip'', ''.7z'']"

definition isSplitArchivePart :: "string \<Rightarrow> bool" where
  "isSplitArchivePart ext =
     (if length ext \<noteq> 4 then False
      else if is_digit (ext ! 1) \<and> is_digit (ext ! 2) \<and> is_digit (ext ! 3) then True
      else ext ! 1 = CHR ''r'' \<and> is_digit (ext ! 2) \<and> is_digit (ext ! 3))"

definition isUploadableContent :: "string \<Rightarrow> bool" where
  "isUploadableContent name =
     (if isAgentManagedFile name then False
      else (let ext = to_lower (file_ext name) in ext \<in> set contentExts \<or> isSplitArchivePart ext))"

section \<open>Counting\<close>

record stageCounts =
  sfiles :: int
  sbytes :: int

definition count_add :: "stageCounts \<Rightarrow> fnode \<Rightarrow> stageCounts" where
  "count_add c n = c\<lparr>sfiles := sfiles c + 1, sbytes := sbytes c + int (lsize n)\<rparr>"

text \<open>\<^verbatim>\<open>filepath.Base\<close> of a path met on a walk whose root is called \<open>root\<close>.\<close>

definition base_of :: "string \<Rightarrow> fpath \<Rightarrow> string" where
  "base_of root p = (if p = [] then root else last p)"

definition managed_dir :: "string \<Rightarrow> fpath \<Rightarrow> bool" where
  "managed_dir root p \<longleftrightarrow> base_of root p \<in> set agentManagedDirs"

definition count_cb :: "string \<Rightarrow> stageCounts \<Rightarrow> fpath \<Rightarrow> fnode \<Rightarrow> stageCounts \<times> wres" where
  "count_cb root c p n =
     (case node_err n of
        Some e \<Rightarrow> (c, WErr e)
      | None \<Rightarrow>
          if is_dir n then (c, if managed_dir root p then WSkipDir else WNil)
          else if lsize n = 0 \<or> \<not> isUploadableContent (base_of root p) then (c, WNil)
          else (count_add c n, WNil))"

definition countStagedFiles :: "string \<Rightarrow> fnode \<Rightarrow> stageCounts \<times> wres" where
  "countStagedFiles root t = file_walk (count_cb root) \<lparr>sfiles = 0, sbytes = 0\<rparr> t"

definition CountUploadableBytes :: "string \<Rightarrow> fnode \<Rightarrow> int \<times> int \<times> wres" where
  "CountUploadableBytes root t = (case countStagedFiles root t of (c, r) \<Rightarrow> (sbytes c, sfiles c, r))"

definition auditStaged :: "string \<Rightarrow> fnode \<Rightarrow> stageCounts \<Rightarrow> string + unit" where
  "auditStaged dstname dst want =
     (case countStagedFiles dstname dst of (got, r) \<Rightarrow>
        if r \<noteq> WNil then Inl ''stage: audit walk failed''
        else if sfiles got \<noteq> sfiles want \<or> sbytes got \<noteq> sbytes want
        then Inl ''stage: parity mismatch''
        else Inr ())"

section \<open>Copying\<close>

text \<open>\<^verbatim>\<open>copyFile\<close> opens the source, which follows links, and writes a regular file;
  \<^verbatim>\<open>linkOrCopy\<close> first tries a hard link (of the link itself, where the source is one), which
  fails on another device and where the destination exists. Reading and writing do not fail half way,
  as they do on a full disk.\<close>

definition copyFile :: "fnode \<Rightarrow> fpath \<Rightarrow> fnode \<Rightarrow> fnode option" where
  "copyFile src p dst =
     (case resolve src of Some (FFile b) \<Rightarrow> tree_put p (FFile b) dst | _ \<Rightarrow> None)"

definition linkOrCopy :: "bool \<Rightarrow> fnode \<Rightarrow> fpath \<Rightarrow> fnode \<Rightarrow> fnode option" where
  "linkOrCopy same_device src p dst =
     (case (if same_device \<and> node_at dst p = None then tree_put p src dst else None) of
        Some dst' \<Rightarrow> Some dst'
      | None \<Rightarrow> copyFile src p dst)"

record stage_state =
  staged :: fnode
  want :: stageCounts

text \<open>The walk callback of \<^verbatim>\<open>CopyFiles\<close> and \<^verbatim>\<open>ObfuscateFiles\<close>, over the operation \<open>put\<close> that
  places one file; \<open>cancelled p\<close> says whether the context is cancelled when the walk is at \<open>p\<close>.\<close>

definition stage_cb ::
  "(fpath \<Rightarrow> fnode \<Rightarrow> fnode \<Rightarrow> fnode option) \<Rightarrow> (fpath \<Rightarrow> bool) \<Rightarrow> string
    \<Rightarrow> stage_state \<Rightarrow> fpath \<Rightarrow> fnode \<Rightarrow> stage_state \<times> wres" where
  "stage_cb put cancelled root s p n =
     (case node_err n of
        Some e \<Rightarrow> (s, WErr e)
      | None \<Rightarrow>
          if is_dir n then (s, if managed_dir root p then WSkipDir else WNil)
          else if lsize n = 0 then (s, WNil)
          else if \<not> isUploadableContent (base_of root p) then (s, WNil)
          else if cancelled p then (s, WErr ''context canceled'')
          else (case put p n (staged s) of
                  None \<Rightarrow> (s, WErr ''stage: copy failed'')
                | Some d \<Rightarrow> (s\<lparr>staged := d, want := count_add (want s) n\<rparr>, WNil)))"

definition stage_tree ::
  "(fpath \<Rightarrow> fnode \<Rightarrow> fnode \<Rightarrow> fnode option) \<Rightarrow> (fpath \<Rightarrow> bool) \<Rightarrow> string \<Rightarrow> fnode \<Rightarrow> string \<Rightarrow> fnode
    \<Rightarrow> fnode \<times> (string + unit)" where
  "stage_tree put cancelled root src dstname dst =
     (case file_walk (stage_cb put cancelled root) \<lparr>staged = dst, want = \<lparr>sfiles = 0, sbytes = 0\<rparr>\<rparr> src of
        (s, WErr e) \<Rightarrow> (staged s, Inl e)
      | (s, _) \<Rightarrow> (staged s, auditStaged dstname (staged s) (want s)))"

text \<open>A single file as the source (links followed by \<^verbatim>\<open>os.Stat\<close>).\<close>

definition stage_single ::
  "(fnode \<Rightarrow> fnode option) \<Rightarrow> string \<Rightarrow> fnode \<Rightarrow> fnode \<Rightarrow> fnode \<times> (string + unit)" where
  "stage_single put root info dst =
     (if lsize info = 0 then (dst, Inr ())
      else if \<not> isUploadableContent root then (dst, Inr ())
      else case put dst of Some d \<Rightarrow> (d, Inr ()) | None \<Rightarrow> (dst, Inl ''stage: copy failed''))"

definition CopyFiles ::
  "(fpath \<Rightarrow> bool) \<Rightarrow> (fpath \<Rightarrow> bool) \<Rightarrow> string \<Rightarrow> fnode \<Rightarrow> string \<Rightarrow> fnode \<Rightarrow> fnode \<times> (string + unit)" where
  "CopyFiles same_device cancelled root src dstname dst =
     (case resolve src of
        None \<Rightarrow> (dst, Inl ''no such file or directory'')
      | Some info \<Rightarrow>
          if \<not> is_dir info
          then stage_single (linkOrCopy (same_device []) src [root]) root info dst
          else stage_tree (\<lambda>p n d. linkOrCopy (same_device p) n p d) cancelled root src dstname dst)"

text \<open>\<open>rnd p\<close> is the random name drawn for the file at \<open>p\<close>.\<close>

definition ObfuscateFiles ::
  "(fpath \<Rightarrow> string) \<Rightarrow> (fpath \<Rightarrow> bool) \<Rightarrow> string \<Rightarrow> fnode \<Rightarrow> string \<Rightarrow> fnode \<Rightarrow> fnode \<times> (string + unit)" where
  "ObfuscateFiles rnd cancelled root src dstname dst =
     (case resolve src of
        None \<Rightarrow> (dst, Inl ''no such file or directory'')
      | Some info \<Rightarrow>
          if \<not> is_dir info
          then stage_single (copyFile src [rnd [] @ file_ext root]) root info dst
          else stage_tree (\<lambda>p n d. copyFile n [rnd p @ file_ext (base_of root p)] d) cancelled root src dstname dst)"

section \<open>Facts of the allowlist\<close>

lemma has_prefix_torrent_core: "\<not> isAgentManagedFile (''core.'' @ s)"
  by (simp add: isAgentManagedFile_def has_prefix_def)

lemma digits_no_dot: "\<forall>c \<in> set s. is_digit c \<Longrightarrow> dot \<notin> set s \<and> slash \<notin> set s"
  by (auto simp: is_digit_def dot_def slash_def chr_le_def)

lemma digit_not_upper: "is_digit c \<Longrightarrow> lower_chr c = c"
  by (auto simp: lower_chr_def is_upper_def is_digit_def chr_le_def)

lemma to_lower_digits: "\<forall>c \<in> set s. is_digit c \<Longrightarrow> to_lower s = s"
  unfolding to_lower_def by (rule map_idI) (simp add: digit_not_upper)

lemma length_itoa_nat: "length (itoa_nat n) = 3 \<longleftrightarrow> 100 \<le> n \<and> n < 1000"
proof -
  have one: "length (itoa_nat n) = 1 \<longleftrightarrow> n < 10" for n
    by (subst itoa_nat.simps) simp
  have two: "length (itoa_nat n) = 2 \<longleftrightarrow> 10 \<le> n \<and> n < 100" for n
    using one [of "n div 10"] by (subst itoa_nat.simps) auto
  show ?thesis
    using two [of "n div 10"] by (subst itoa_nat.simps) auto
qed

lemma core_dump_uploadable: "isUploadableContent (''core.'' @ itoa_nat pid) \<longleftrightarrow> 100 \<le> pid \<and> pid < 1000"
proof -
  let ?d = "itoa_nat pid"
  have dig: "\<forall>c \<in> set ?d. is_digit c" by (rule itoa_nat_digits)
  have "''core.'' @ ?d = ''core'' @ dot # ?d" by (simp add: dot_def)
  then have ext: "file_ext (''core.'' @ ?d) = dot # ?d"
    using file_ext_append [of ?d "''core''"] digits_no_dot [OF dig] by simp
  have low: "to_lower (dot # ?d) = dot # ?d"
    using to_lower_digits [OF dig] by (simp add: to_lower_def dot_def lower_chr_def is_upper_def chr_le_def)
  have no: "dot # ?d \<notin> set contentExts"
  proof
    assume "dot # ?d \<in> set contentExts"
    then have "\<exists>e \<in> set contentExts. tl e = ?d" by force
    then have "\<exists>e \<in> set contentExts. \<forall>c \<in> set (tl e). is_digit c" using dig by force
    then show False by (simp add: contentExts_def is_digit_def chr_le_def)
  qed
  have "isSplitArchivePart (dot # ?d) \<longleftrightarrow> length ?d = 3"
  proof
    assume l: "length ?d = 3"
    then have "?d ! 0 \<in> set ?d" "?d ! 1 \<in> set ?d" "?d ! 2 \<in> set ?d" by simp_all
    with dig l show "isSplitArchivePart (dot # ?d)"
      by (simp add: isSplitArchivePart_def numeral_2_eq_2 numeral_3_eq_3)
  qed (simp add: isSplitArchivePart_def split: if_splits)
  then show ?thesis
    using has_prefix_torrent_core [of ?d] ext low no length_itoa_nat [of pid]
    by (simp add: isUploadableContent_def Let_def)
qed

section \<open>What is counted\<close>

text \<open>The reference: the files of a tree that may be uploaded. Not empty, an allowed name, not
  below an agent-managed directory.\<close>

definition counts :: "string \<Rightarrow> fpath \<Rightarrow> fnode \<Rightarrow> bool" where
  "counts root p n \<longleftrightarrow> \<not> is_dir n \<and> 0 < lsize n \<and> isUploadableContent (base_of root p)"

definition uploadable :: "string \<Rightarrow> fnode \<Rightarrow> (fpath \<times> fnode) list" where
  "uploadable root t = filter (\<lambda>(p, n). counts root p n) (visits (managed_dir root) [] t)"

definition total_of :: "(fpath \<times> fnode) list \<Rightarrow> stageCounts" where
  "total_of xs = \<lparr>sfiles = int (length xs), sbytes = int (sum_list (map (lsize \<circ> snd) xs))\<rparr>"

lemma uploadable_iff:
  "wf_tree t \<Longrightarrow> (p, n) \<in> set (uploadable root t) \<longleftrightarrow>
     file_at t p = Some n \<and> 0 < lsize n \<and> isUploadableContent (base_of root p)
     \<and> (\<forall>k < length p. \<not> managed_dir root (take k p))"
  using visits_file_at(1) [of t "[]" p n "managed_dir root"]
  by (auto simp: uploadable_def counts_def)

lemma distinct_uploadable: "wf_tree t \<Longrightarrow> distinct (map fst (uploadable root t))"
  using distinct_visits(1) [of t "managed_dir root" "[]"] by (simp add: uploadable_def distinct_map_filter)

lemma obeys_count_cb: "obeys (managed_dir root) (count_cb root)"
  unfolding obeys_def count_cb_def
  by (auto split: option.splits)

lemma node_err_None: "node_err n = None \<longleftrightarrow> n \<noteq> FUnreadable"
  by (cases n) auto

lemma count_fold:
  "foldl (\<lambda>c (p, n). if counts root p n then count_add c n else c) c vs =
     \<lparr>sfiles = sfiles c + sfiles (total_of (filter (\<lambda>(p, n). counts root p n) vs)),
      sbytes = sbytes c + sbytes (total_of (filter (\<lambda>(p, n). counts root p n) vs))\<rparr>"
  by (induction vs arbitrary: c) (auto simp: total_of_def count_add_def)

lemma countStagedFiles_eq:
  assumes "readable (managed_dir root) [] t"
  shows "countStagedFiles root t = (total_of (uploadable root t), WNil)"
proof -
  let ?g = "\<lambda>c (p, n). if counts root p n then count_add c n else c"
  have "walk_seq (count_cb root) \<lparr>sfiles = 0, sbytes = 0\<rparr> (visits (managed_dir root) [] t)
      = (foldl ?g \<lparr>sfiles = 0, sbytes = 0\<rparr> (visits (managed_dir root) [] t), WNil)"
  proof (rule walk_seq_fold)
    fix s q n assume "(q, n) \<in> set (visits (managed_dir root) [] t)"
    then have "node_err n = None" using assms by (auto simp: readable_def node_err_None)
    then show "count_cb root s q n = (?g s (q, n), WNil) \<or> count_cb root s q n = (?g s (q, n), WSkipDir)"
      by (auto simp: count_cb_def counts_def)
  qed
  then show ?thesis
    by (simp add: countStagedFiles_def file_walk_seq [OF obeys_count_cb] count_fold uploadable_def)
qed

section \<open>What is staged\<close>

lemma embeds_readable:
  "wf_tree d \<Longrightarrow> embeds d t \<Longrightarrow> (q, n) \<in> set (visits skip p d) \<Longrightarrow> n \<noteq> FUnreadable"
  "wf_tree (FDir xs) \<Longrightarrow> (\<And>a m. (a, m) \<in> set xs \<Longrightarrow> \<exists>t. embeds m t)
     \<Longrightarrow> (q, n) \<in> set (visits_list skip p xs) \<Longrightarrow> n \<noteq> FUnreadable"
proof (induction skip p d and skip p xs arbitrary: t rule: visits_visits_list.induct)
  case (1 skip p xs)
  have "\<exists>t. embeds m t" if "(a, m) \<in> set xs" for a m
    using that 1(2,3) by (fastforce elim!: embeds_dirE)
  then show ?case using 1 by (auto split: if_splits)
next
  case (3 skip p)
  then show ?case using embeds.cases [of FUnreadable t] by auto
next
  case (6 skip p a u xs)
  obtain t where "embeds u t" using 6(4) by auto
  then show ?case using 6 by auto
qed auto

lemma obeys_stage_cb: "obeys (managed_dir root) (stage_cb put cancelled root)"
  unfolding obeys_def stage_cb_def
  by (auto split: option.splits)

lemma wf_put_all: "tree.put_all kvs d = Some d' \<Longrightarrow> wf_tree d \<Longrightarrow> list_all (\<lambda>(k, v). \<not> is_dir v) kvs \<Longrightarrow> wf_tree d'"
proof (induction kvs arbitrary: d)
  case (Cons kv kvs)
  obtain k v where kv: "kv = (k, v)" by fastforce
  have "wf_tree v" using Cons.prems(3) by (cases v) (auto simp: kv)
  then show ?case using Cons wf_tree_put by (auto simp: kv split: option.splits)
qed simp

lemma embeds_node_None:
  "embeds d t \<Longrightarrow> file_at t p = Some n \<Longrightarrow> file_at d p = None \<Longrightarrow> node_at d p = None"
proof (induction p arbitrary: d t)
  case Nil
  then show ?case
    using embeds_is_dir [OF Nil(1)] by (auto simp: file_at_def split: if_splits)
next
  case (Cons a p)
  have "is_dir t" using Cons.prems(2) by (auto intro: ccontr simp: file_at_no_dir)
  then obtain ys where t: "t = FDir ys" using Cons.prems(2) by (cases t) auto
  then obtain xs where d: "d = FDir xs" using embeds_FDir Cons.prems(1) by blast
  have sub: "map_of xs a = Some m \<Longrightarrow> \<exists>m'. map_of ys a = Some m' \<and> embeds m m'" for m
    using Cons.prems(1) by (auto simp: t d elim!: embeds_dirE)
  show ?case
  proof (cases "map_of xs a")
    case None
    then show ?thesis by (simp add: d)
  next
    case (Some m)
    with sub obtain m' where "map_of ys a = Some m'" "embeds m m'" by blast
    then show ?thesis using Cons.IH [of m m'] Cons.prems(2,3) Some by (simp add: t d file_at_Cons)
  qed
qed

text \<open>One file that a staging operation places as it is.\<close>

definition places :: "(fpath \<Rightarrow> fnode \<Rightarrow> fnode \<Rightarrow> fnode option) \<Rightarrow> fpath \<Rightarrow> fnode \<Rightarrow> bool" where
  "places put p n \<longleftrightarrow> (\<forall>d. node_at d p = None \<longrightarrow> tree_put p n d \<noteq> None \<longrightarrow> put p n d = tree_put p n d)"

lemma places_linkOrCopy: "same_device p \<or> (\<exists>b. n = FFile b) \<Longrightarrow> places (\<lambda>p n d. linkOrCopy (same_device p) n p d) p n"
  by (auto simp: places_def linkOrCopy_def copyFile_def split: option.splits)

lemma stage_seq:
  assumes "\<And>p n. (p, n) \<in> set vs \<Longrightarrow> n \<noteq> FUnreadable"
    and "\<And>p n. (p, n) \<in> set vs \<Longrightarrow> counts root p n \<Longrightarrow>
           file_at src p = Some n \<and> places put p n \<and> \<not> cancelled p \<and> file_at (FDir xs) p = None"
    and "distinct (map fst vs)" and "embeds (FDir xs) src"
  shows "\<exists>d. tree.put_all (filter (\<lambda>(p, n). counts root p n) vs) (FDir xs) = Some d \<and> embeds d src
     \<and> walk_seq (stage_cb put cancelled root) \<lparr>staged = FDir xs, want = w\<rparr> vs =
         (\<lparr>staged = d, want = foldl (\<lambda>c (p, n). if counts root p n then count_add c n else c) w vs\<rparr>, WNil)"
  using assms
proof (induction vs arbitrary: xs w)
  case Nil
  then show ?case by simp
next
  case (Cons v vs)
  obtain p n where v: "v = (p, n)" by fastforce
  have n: "node_err n = None" using Cons.prems(1) [of p n] by (simp add: v node_err_None)
  have rd: "m \<noteq> FUnreadable" if "(q, m) \<in> set vs" for q m
    using Cons.prems(1) [of q m] that by simp
  have tl: "file_at src q = Some m \<and> places put q m \<and> \<not> cancelled q \<and> file_at (FDir xs) q = None"
    if "(q, m) \<in> set vs" "counts root q m" for q m
    using Cons.prems(2) [of q m] that by simp
  have dist: "distinct (map fst vs)" using Cons.prems(3) by simp
  show ?case
  proof (cases "counts root p n")
    case False
    have "stage_cb put cancelled root \<lparr>staged = FDir xs, want = w\<rparr> p n
        = (\<lparr>staged = FDir xs, want = w\<rparr>, if is_dir n \<and> managed_dir root p then WSkipDir else WNil)"
      using False n by (auto simp: stage_cb_def counts_def)
    then show ?thesis
      using Cons.IH [where w = w, OF rd tl dist Cons.prems(4)] False by (auto simp: v)
  next
    case True
    from Cons.prems(2) [of p n] True
    have p: "file_at src p = Some n" "places put p n" "\<not> cancelled p" "file_at (FDir xs) p = None"
      by (auto simp: v)
    have nd: "\<not> is_dir n" using True by (simp add: counts_def)
    from embeds_put [OF Cons.prems(4) p(1) nd] obtain d where
      d: "tree_put p n (FDir xs) = Some d" "embeds d src" by blast
    then obtain ys where ys: "d = FDir ys" using tree_put_dir by blast
    have "node_at (FDir xs) p = None" by (rule embeds_node_None [OF Cons.prems(4) p(1,4)])
    then have put: "put p n (FDir xs) = Some d" using p(2) d(1) by (simp add: places_def)
    have cb: "stage_cb put cancelled root \<lparr>staged = FDir xs, want = w\<rparr> p n
        = (\<lparr>staged = FDir ys, want = count_add w n\<rparr>, WNil)"
      using True n p(3) put by (auto simp: stage_cb_def counts_def ys)
    have tl': "file_at src q = Some m \<and> places put q m \<and> \<not> cancelled q \<and> file_at (FDir ys) q = None"
      if "(q, m) \<in> set vs" "counts root q m" for q m
      using file_at_put [OF nd d(1), of q] tl [OF that] Cons.prems(3) that by (auto simp: v ys rev_image_eqI)
    show ?thesis
      using Cons.IH [where w = "count_add w n", OF rd tl' dist d(2) [unfolded ys]] d(1) cb True by (simp add: v ys)
  qed
qed

lemma total_of_mset: "mset xs = mset ys \<Longrightarrow> total_of xs = total_of ys"
  by (metis (no_types, lifting) mset_map size_mset sum_mset_sum_list total_of_def)

lemma copy_tree_exact:
  assumes "wf_tree src" and "readable (managed_dir root) [] src" and "is_dir src"
    and "\<And>p. \<not> cancelled p" and "\<not> managed_dir dstname []"
    and "\<And>p n. (p, n) \<in> set (uploadable root src) \<Longrightarrow> same_device p \<or> (\<exists>b. n = FFile b)"
  shows "\<exists>d. CopyFiles same_device cancelled root src dstname (FDir []) = (d, Inr ()) \<and> wf_tree d
    \<and> (\<forall>p. file_at d p = map_of (uploadable root src) p)"
proof -
  let ?put = "\<lambda>p n d. linkOrCopy (same_device p) n p d"
  let ?vs = "visits (managed_dir root) [] src"
  obtain ys where src: "src = FDir ys"
    using assms(2,3) by (cases src) (auto simp: readable_def)
  have emb: "embeds (FDir []) src" by (simp add: src embeds_empty)
  have up: "(p, n) \<in> set ?vs \<Longrightarrow> counts root p n \<Longrightarrow> (p, n) \<in> set (uploadable root src)" for p n
    by (simp add: uploadable_def)
  have ex: "\<exists>d. tree.put_all (uploadable root src) (FDir []) = Some d \<and> embeds d src
     \<and> walk_seq (stage_cb ?put cancelled root) \<lparr>staged = FDir [], want = \<lparr>sfiles = 0, sbytes = 0\<rparr>\<rparr> ?vs =
         (\<lparr>staged = d, want = foldl (\<lambda>c (p, n). if counts root p n then count_add c n else c) \<lparr>sfiles = 0, sbytes = 0\<rparr> ?vs\<rparr>, WNil)"
    unfolding uploadable_def
  proof (rule stage_seq)
    fix p n assume *: "(p, n) \<in> set ?vs" "counts root p n"
    show "file_at src p = Some n \<and> places ?put p n \<and> \<not> cancelled p \<and> file_at (FDir []) p = None"
      using up [OF *] uploadable_iff [OF assms(1)] assms(4,6) places_linkOrCopy by auto
  qed (use assms(1,2) distinct_visits emb in \<open>auto simp: readable_def\<close>)
  then obtain d where d: "tree.put_all (uploadable root src) (FDir []) = Some d" "embeds d src"
    "walk_seq (stage_cb ?put cancelled root) \<lparr>staged = FDir [], want = \<lparr>sfiles = 0, sbytes = 0\<rparr>\<rparr> ?vs =
         (\<lparr>staged = d, want = total_of (uploadable root src)\<rparr>, WNil)"
    by (auto simp: count_fold uploadable_def)
  have files: "list_all (\<lambda>(k, v). \<not> is_dir v) (uploadable root src)"
    by (auto simp: uploadable_def counts_def list_all_iff)
  have at: "file_at d p = map_of (uploadable root src) p" for p
    by (rule tree.look_put_all_distinct [OF d(1) files distinct_uploadable [OF assms(1)]]) simp
  have wf: "wf_tree d" by (rule wf_put_all [OF d(1) _ files]) simp
  have hid: "managed_dir dstname (take k p) = managed_dir root (take k p)" if "k < length p" "0 < k" for k p
    using that by (cases p) (auto simp: managed_dir_def base_of_def)
  have rd: "readable (managed_dir dstname) [] d"
    using embeds_readable(1) [OF wf d(2)] by (auto simp: readable_def)
  have same: "(p, n) \<in> set (uploadable dstname d) \<longleftrightarrow> (p, n) \<in> set (uploadable root src)" for p n
  proof (cases "p = []")
    case True
    then show ?thesis
      using assms(3) d(2) embeds_is_dir by (auto simp: uploadable_iff wf assms(1) file_at_Nil_dir)
  next
    case False
    have b: "base_of dstname p = base_of root p" using False by (simp add: base_of_def)
    have h: "(\<forall>k < length p. \<not> managed_dir dstname (take k p))" if "\<forall>k < length p. \<not> managed_dir root (take k p)"
      using that hid assms(5) by (metis gr0I take_0)
    have "file_at d p = Some n \<longleftrightarrow> (p, n) \<in> set (uploadable root src)"
      using at distinct_uploadable [OF assms(1)] by simp
    then show ?thesis
      using h b by (auto simp: uploadable_iff wf assms(1))
  qed
  have "distinct (uploadable dstname d)" "distinct (uploadable root src)"
    using distinct_uploadable [of d dstname] distinct_uploadable [of src root] wf assms(1)
    by (simp_all add: distinct_map)
  then have "mset (uploadable dstname d) = mset (uploadable root src)"
    using same by (subst set_eq_iff_mset_eq_distinct [symmetric]) auto
  then have "total_of (uploadable dstname d) = total_of (uploadable root src)" by (rule total_of_mset)
  then have "auditStaged dstname d (total_of (uploadable root src)) = Inr ()"
    by (simp add: auditStaged_def countStagedFiles_eq [OF rd])
  then have "CopyFiles same_device cancelled root src dstname (FDir []) = (d, Inr ())"
    using d(3) by (simp add: CopyFiles_def stage_tree_def src file_walk_seq [OF obeys_stage_cb])
  with at wf show ?thesis by blast
qed

lemma copy_exact:
  assumes "wf_tree src" and "readable (managed_dir root) [] src" and "is_dir src"
    and "\<And>p. \<not> cancelled p" and "dstname \<notin> set agentManagedDirs"
    and "\<And>p n. file_at src p = Some n \<Longrightarrow> same_device p \<or> (\<exists>b. n = FFile b)"
  shows "\<exists>d. CopyFiles same_device cancelled root src dstname (FDir []) = (d, Inr ()) \<and> wf_tree d
    \<and> (\<forall>p n. file_at d p = Some n \<longleftrightarrow>
          file_at src p = Some n \<and> 0 < lsize n \<and> isUploadableContent (base_of root p)
          \<and> (\<forall>k < length p. \<not> managed_dir root (take k p)))"
proof -
  have up: "same_device p \<or> (\<exists>b. n = FFile b)" if "(p, n) \<in> set (uploadable root src)" for p n
    using that assms(6) uploadable_iff [OF assms(1)] by blast
  have "\<not> managed_dir dstname []" using assms(5) by (simp add: managed_dir_def base_of_def)
  then have "\<exists>d. CopyFiles same_device cancelled root src dstname (FDir []) = (d, Inr ()) \<and> wf_tree d
      \<and> (\<forall>p. file_at d p = map_of (uploadable root src) p)"
    by (intro copy_tree_exact) (use assms(1-4) up in blast)+
  then obtain d where
    d: "CopyFiles same_device cancelled root src dstname (FDir []) = (d, Inr ())" "wf_tree d"
      "\<And>p. file_at d p = map_of (uploadable root src) p" by blast
  show ?thesis
    using d distinct_uploadable [OF assms(1)] by (auto simp: uploadable_iff [OF assms(1), symmetric])
qed

section \<open>Safety on every outcome\<close>

lemma linkOrCopy_file_at:
  assumes "linkOrCopy sd n p d = Some d'" and "\<not> is_dir n" and "file_at d' q = Some m"
  shows "q = p \<or> file_at d q = Some m"
  using assms file_at_put [of n p d d' q] file_at_put [of "FFile b" p d d' q for b]
  by (auto simp: linkOrCopy_def copyFile_def split: option.splits if_splits fnode.splits)

definition allowed :: "string \<Rightarrow> fpath \<Rightarrow> bool" where
  "allowed root p \<longleftrightarrow> isUploadableContent (base_of root p) \<and> (\<forall>k < length p. \<not> managed_dir root (take k p))"

lemma stage_cb_allowed:
  assumes "wf_tree src" and "(q, n) \<in> set (visits (managed_dir root) [] src)"
    and "\<forall>p m. file_at (staged s) p = Some m \<longrightarrow> allowed root p"
  shows "\<forall>p m. file_at (staged (fst (stage_cb (\<lambda>p n d. linkOrCopy (same_device p) n p d) cancelled root s q n))) p = Some m
    \<longrightarrow> allowed root p"
proof -
  have "allowed root q" if "\<not> is_dir n" "isUploadableContent (base_of root q)"
    using that visits_file_at(1) [OF assms(1), of "[]" q n "managed_dir root"] assms(2) by (auto simp: allowed_def)
  then show ?thesis
    using assms(3) by (auto simp: stage_cb_def dest!: linkOrCopy_file_at split: option.splits)
qed

lemma copy_tree_allowed:
  assumes "wf_tree src"
    and "file_at (fst (stage_tree (\<lambda>p n d. linkOrCopy (same_device p) n p d) cancelled root src dstname (FDir []))) p = Some m"
  shows "allowed root p"
proof -
  let ?P = "\<lambda>s :: stage_state. \<forall>p m. file_at (staged s) p = Some m \<longrightarrow> allowed root p"
  have "?P (fst (file_walk (stage_cb (\<lambda>p n d. linkOrCopy (same_device p) n p d) cancelled root)
      \<lparr>staged = FDir [], want = \<lparr>sfiles = 0, sbytes = 0\<rparr>\<rparr> src))"
  proof (rule file_walk_inv [OF obeys_stage_cb, where P = ?P])
    fix s :: stage_state and q n
    assume "(q, n) \<in> set (visits (managed_dir root) [] src)" "?P s"
    then show "?P (fst (stage_cb (\<lambda>p n d. linkOrCopy (same_device p) n p d) cancelled root s q n))"
      by (rule stage_cb_allowed [OF assms(1)])
  qed simp
  then show ?thesis
    using assms(2) by (auto simp: stage_tree_def split: prod.splits wres.splits)
qed

lemma copy_allowed:
  assumes "wf_tree src" and "file_at (fst (CopyFiles same_device cancelled root src dstname (FDir []))) p = Some m"
  shows "isUploadableContent (last p) \<and> set agentManagedDirs \<inter> set (butlast p) = {}"
proof -
  have single: "p = [root] \<and> isUploadableContent root"
    if "file_at (fst (stage_single (linkOrCopy sd src [root]) root info (FDir []))) p = Some m" "\<not> is_dir src" for sd info
    using that linkOrCopy_file_at [of sd src "[root]" "FDir []" _ p m]
    by (auto simp: stage_single_def split: if_splits option.splits)
  have tree: "isUploadableContent (last p) \<and> set agentManagedDirs \<inter> set (butlast p) = {}"
    if al: "allowed root p" and pn: "p \<noteq> []"
  proof -
    have "x \<notin> set agentManagedDirs" if "x \<in> set (butlast p)" for x
    proof -
      from that obtain k where k: "k < length (butlast p)" "x = butlast p ! k" by (metis in_set_conv_nth)
      then have "base_of root (take (Suc k) p) = x"
        by (simp add: base_of_def take_Suc_conv_app_nth nth_butlast)
      then show ?thesis using al k(1) by (auto simp: allowed_def managed_dir_def)
    qed
    then show ?thesis using al pn by (auto simp: allowed_def base_of_def)
  qed
  show ?thesis
  proof (cases "resolve src")
    case None
    then show ?thesis using assms(2) by (simp add: CopyFiles_def)
  next
    case (Some info)
    show ?thesis
    proof (cases "is_dir info")
      case True
      have st: "file_at (fst (stage_tree (\<lambda>p n d. linkOrCopy (same_device p) n p d) cancelled root src dstname (FDir []))) p = Some m"
        using assms(2) Some True by (simp add: CopyFiles_def)
      have al: "allowed root p" by (rule copy_tree_allowed [OF assms(1) st])
      have "p \<noteq> []"
      proof
        assume "p = []"
        moreover have "is_dir (fst (stage_tree (\<lambda>p n d. linkOrCopy (same_device p) n p d) cancelled root src dstname (FDir [])))"
        proof -
          have "is_dir (staged (fst (file_walk (stage_cb (\<lambda>p n d. linkOrCopy (same_device p) n p d) cancelled root)
              \<lparr>staged = FDir [], want = \<lparr>sfiles = 0, sbytes = 0\<rparr>\<rparr> src)))"
            by (rule file_walk_inv [OF obeys_stage_cb, where P = "\<lambda>s. is_dir (staged s)"])
               (auto simp: stage_cb_def linkOrCopy_def copyFile_def split: option.splits fnode.splits if_splits dest!: tree_put_dir)
          then show ?thesis by (auto simp: stage_tree_def split: prod.splits wres.splits)
        qed
        ultimately show False using st by (simp add: file_at_Nil_dir)
      qed
      with al show ?thesis by (rule tree)
    next
      case False
      then have "\<not> is_dir src" using Some by (cases src) auto
      moreover have "file_at (fst (stage_single (linkOrCopy (same_device []) src [root]) root info (FDir []))) p = Some m"
        using assms(2) Some False by (simp add: CopyFiles_def)
      ultimately have "p = [root] \<and> isUploadableContent root" by (rule single [rotated])
      then show ?thesis by simp
    qed
  qed
qed

section \<open>Properties\<close>

text \<open>
  C28. \<^verbatim>\<open>CopyFiles\<close> into a fresh stage directory succeeds and stages exactly the files that may
  leave the machine: not empty, an allowed extension, not below an agent-managed directory, each
  at its relative path and with its content. It needs a tree that can be listed, a context that is
  not cancelled, and for every file that is not regular (a symbolic link) that the stage directory
  is on the same device.
\<close>

theorem CopyFiles_exact:
  assumes "wf_tree src" and "readable (managed_dir root) [] src" and "is_dir src"
    and "\<And>p. \<not> cancelled p" and "dstname \<notin> set agentManagedDirs"
    and "\<And>p n. file_at src p = Some n \<Longrightarrow> same_device p \<or> (\<exists>b. n = FFile b)"
  shows "\<exists>d. CopyFiles same_device cancelled root src dstname (FDir []) = (d, Inr ())
    \<and> (\<forall>p n. file_at d p = Some n \<longleftrightarrow>
          file_at src p = Some n \<and> 0 < lsize n \<and> isUploadableContent (base_of root p)
          \<and> (\<forall>k < length p. \<not> managed_dir root (take k p)))"
  using copy_exact [where cancelled = cancelled and same_device = same_device, OF assms(1-5)] assms(6) by blast

theorem CopyFiles_exact_witness:
  "\<exists>d. CopyFiles (\<lambda>p. False) (\<lambda>p. False) ''dl''
      (FDir [(''_screenshots'', FDir [(''s.png'', FFile [1])]), (''a.mkv'', FFile [7]), (''core.33378'', FFile [9])])
      ''stage'' (FDir []) = (d, Inr ())
    \<and> (\<forall>p n. file_at d p = Some n \<longleftrightarrow>
          file_at (FDir [(''_screenshots'', FDir [(''s.png'', FFile [1])]), (''a.mkv'', FFile [7]), (''core.33378'', FFile [9])]) p = Some n
          \<and> 0 < lsize n \<and> isUploadableContent (base_of ''dl'' p)
          \<and> (\<forall>k < length p. \<not> managed_dir ''dl'' (take k p)))"
proof (rule CopyFiles_exact)
  fix p n
  assume "file_at (FDir [(''_screenshots'', FDir [(''s.png'', FFile [1])]), (''a.mkv'', FFile [7]), (''core.33378'', FFile [9])]) p = Some n"
  then show "False \<or> (\<exists>b. n = FFile b)"
    by (cases p; cases "tl p") (auto simp: file_at_Cons file_at_Nil_dir file_at_file split: if_splits)
qed (simp_all add: readable_def agentManagedDirs_def)

text \<open>
  Whatever happens during \<^verbatim>\<open>CopyFiles\<close> (directories that cannot be listed, cancellation, other
  devices, links, a single file as the source), every file in the stage directory has an allowed
  name and does not lie below an agent-managed directory.
\<close>

theorem CopyFiles_only_allowed:
  assumes "wf_tree src" and "file_at (fst (CopyFiles same_device cancelled root src dstname (FDir []))) p = Some m"
  shows "isUploadableContent (last p) \<and> set agentManagedDirs \<inter> set (butlast p) = {}"
  using assms by (rule copy_allowed)

theorem CopyFiles_only_allowed_witness:
  "isUploadableContent (last [''a.mkv'']) \<and> set agentManagedDirs \<inter> set (butlast [''a.mkv'']) = {}"
  by (rule CopyFiles_only_allowed [where src = "FDir [(''a.mkv'', FFile [7])]" and same_device = "\<lambda>p. True"
        and cancelled = "\<lambda>p. False" and root = "''dl''" and dstname = "''stage''" and m = "FFile [7]"]) code_simp+

text \<open>
  A crash dump \<^verbatim>\<open>core.<pid>\<close> passes the upload allowlist exactly when its process id has
  three digits: the rule for split-archive parts takes the process id for a volume number.
\<close>

theorem core_dump_leak: "isUploadableContent (''core.'' @ itoa_nat pid) \<longleftrightarrow> 100 \<le> pid \<and> pid < 1000"
  by (rule core_dump_uploadable)

text \<open>
  \<^verbatim>\<open>ObfuscateFiles\<close> of a directory that holds a symbolic link to a regular media file always
  fails the parity audit when the link's own size differs from the file's: the walk counts the
  size of the link, the copy follows it.
\<close>

theorem ObfuscateFiles_link_parity:
  assumes "0 < k" and "b \<noteq> []" and "length b \<noteq> k"
  shows "snd (ObfuscateFiles (\<lambda>p. ''Xk3'') (\<lambda>p. False) ''dl'' (FDir [(''a.mkv'', FLink k (Some (FFile b)))]) ''stage'' (FDir []))
    = Inl ''stage: parity mismatch''"
proof -
  have e: "file_ext ''a.mkv'' = ''.mkv''" "isUploadableContent ''a.mkv''" "isUploadableContent ''Xk3.mkv''"
    by code_simp+
  show ?thesis
    using assms e
    by (simp add: ObfuscateFiles_def stage_tree_def file_walk_def stage_cb_def managed_dir_def base_of_def
        agentManagedDirs_def copyFile_def set_entry_def auditStaged_def countStagedFiles_def count_cb_def
        count_add_def)
qed

theorem ObfuscateFiles_link_parity_witness:
  "snd (ObfuscateFiles (\<lambda>p. ''Xk3'') (\<lambda>p. False) ''dl'' (FDir [(''a.mkv'', FLink 9 (Some (FFile [1, 2])))]) ''stage'' (FDir []))
    = Inl ''stage: parity mismatch''"
  by (rule ObfuscateFiles_link_parity) simp_all

text \<open>
  When the content directory is itself a symbolic link to a directory (as the folder staged for
  a local offer is), \<^verbatim>\<open>CopyFiles\<close> reports success and stages nothing: \<^verbatim>\<open>os.Stat\<close> follows the
  link, \<^verbatim>\<open>filepath.Walk\<close> does not.
\<close>

theorem CopyFiles_linked_dir_stages_nothing:
  assumes "\<not> isUploadableContent root" and "dstname \<notin> set agentManagedDirs"
  shows "CopyFiles same_device cancelled root (FLink k (Some (FDir xs))) dstname (FDir []) = (FDir [], Inr ())"
  using assms
  by (simp add: CopyFiles_def stage_tree_def file_walk_def stage_cb_def base_of_def managed_dir_def
      auditStaged_def countStagedFiles_def count_cb_def)

theorem CopyFiles_linked_dir_stages_nothing_witness:
  "CopyFiles (\<lambda>p. True) (\<lambda>p. False) ''My Show'' (FLink 20 (Some (FDir [(''e01.mkv'', FFile [1, 2, 3])]))) ''stage'' (FDir [])
    = (FDir [], Inr ())"
  by (rule CopyFiles_linked_dir_stages_nothing) code_simp+

end
