(* ===== verification/Manifest.thy ===== *)
theory Manifest
  imports Staging
begin

text \<open>
  The upload-manifest audit (\<^verbatim>\<open>services/upload_manifest.go\<close>): the snapshot of a directory
  tree, the difference of two snapshots by base name and size, and the rule that refuses to publish
  when the upload has fewer videos than the source.
\<close>

definition videoExts :: "string list" where
  "videoExts = [''.mkv'', ''.mp4'', ''.avi'', ''.m2ts'', ''.ts'', ''.mov'', ''.wmv'', ''.webm'']"

definition minVideoBytes :: int where
  "minVideoBytes = 1048576"

record ManifestEntry =
  RelPath :: string
  Size :: int

record UploadManifest =
  VideoCount :: int
  VideoBytes :: int
  TotalCount :: int
  TotalBytes :: int
  VideoFiles :: "ManifestEntry list"

definition rel_path :: "fpath \<Rightarrow> string" where
  "rel_path p = (if p = [] then ''.'' else join [slash] p)"

text \<open>Whether a file counts as a video; the extension of a path is that of its last element.\<close>

definition is_video :: "string \<Rightarrow> fpath \<Rightarrow> fnode \<Rightarrow> bool" where
  "is_video root p n \<longleftrightarrow> minVideoBytes \<le> int (lsize n) \<and> to_lower (file_ext (base_of root p)) \<in> set videoExts"

definition manifest_cb :: "string \<Rightarrow> UploadManifest \<Rightarrow> fpath \<Rightarrow> fnode \<Rightarrow> UploadManifest \<times> wres" where
  "manifest_cb root m p n =
     (if node_err n \<noteq> None \<or> is_dir n then (m, WNil)
      else
        (let m1 = m\<lparr>TotalCount := TotalCount m + 1, TotalBytes := TotalBytes m + int (lsize n)\<rparr>
         in if \<not> is_video root p n then (m1, WNil)
            else (m1\<lparr>VideoCount := VideoCount m1 + 1, VideoBytes := VideoBytes m1 + int (lsize n),
                     VideoFiles := VideoFiles m1 @ [\<lparr>RelPath = rel_path p, Size = int (lsize n)\<rparr>]\<rparr>, WNil)))"

definition empty_manifest :: UploadManifest where
  "empty_manifest = \<lparr>VideoCount = 0, VideoBytes = 0, TotalCount = 0, TotalBytes = 0, VideoFiles = []\<rparr>"

definition ManifestOf :: "string \<Rightarrow> fnode \<Rightarrow> UploadManifest" where
  "ManifestOf root t =
     (let m = fst (file_walk (manifest_cb root) empty_manifest t)
      in m\<lparr>VideoFiles := sort_key RelPath (VideoFiles m)\<rparr>)"

record ManifestDiff =
  Missing :: "ManifestEntry list"
  Extra :: "ManifestEntry list"

text \<open>The map by base name: a later entry overwrites an earlier one.\<close>

definition by_base :: "ManifestEntry list \<Rightarrow> string \<Rightarrow> ManifestEntry option" where
  "by_base fs = map_of (rev (map (\<lambda>f. (path_base (RelPath f), f)) fs))"

definition DiffManifests :: "UploadManifest \<Rightarrow> UploadManifest \<Rightarrow> ManifestDiff" where
  "DiffManifests source upload =
     \<lparr>Missing = filter (\<lambda>f. case by_base (VideoFiles upload) (path_base (RelPath f)) of
                          None \<Rightarrow> True | Some up \<Rightarrow> Size up \<noteq> Size f) (VideoFiles source),
      Extra = filter (\<lambda>f. by_base (VideoFiles source) (path_base (RelPath f)) = None) (VideoFiles upload)\<rparr>"

record ManifestError =
  Source :: UploadManifest
  Upload :: UploadManifest
  Diff :: ManifestDiff

definition CompareManifest :: "UploadManifest \<Rightarrow> UploadManifest \<Rightarrow> bool \<Rightarrow> ManifestError option" where
  "CompareManifest source upload encrypted =
     (if encrypted then None
      else if VideoCount source = 0 then None
      else if VideoCount upload < VideoCount source
      then Some \<lparr>Source = source, Upload = upload, Diff = DiffManifests source upload\<rparr>
      else None)"

text \<open>The file named in the one-line summary of the error.\<close>

definition first_missing :: "ManifestError \<Rightarrow> string" where
  "first_missing e = (case Missing (Diff e) of [] \<Rightarrow> ''(unknown)'' | f # fs \<Rightarrow> RelPath f)"

section \<open>What the snapshot holds\<close>

lemma obeys_manifest_cb: "obeys no_skip (manifest_cb root)"
  by (auto simp: obeys_def manifest_cb_def no_skip_def Let_def)

definition plain_files :: "fnode \<Rightarrow> (fpath \<times> fnode) list" where
  "plain_files t = filter (\<lambda>(p, n). \<not> is_dir n) (visits no_skip [] t)"

definition video_files :: "string \<Rightarrow> fnode \<Rightarrow> (fpath \<times> fnode) list" where
  "video_files root t = filter (\<lambda>(p, n). is_video root p n) (plain_files t)"

lemma manifest_cb_eq:
  "fst (manifest_cb root m p n) =
     (if is_dir n then m
      else if is_video root p n
      then m\<lparr>TotalCount := TotalCount m + 1, TotalBytes := TotalBytes m + int (lsize n),
             VideoCount := VideoCount m + 1, VideoBytes := VideoBytes m + int (lsize n),
             VideoFiles := VideoFiles m @ [\<lparr>RelPath = rel_path p, Size = int (lsize n)\<rparr>]\<rparr>
      else m\<lparr>TotalCount := TotalCount m + 1, TotalBytes := TotalBytes m + int (lsize n)\<rparr>)"
  by (cases n) (simp_all add: manifest_cb_def Let_def)

lemma manifest_fold:
  "foldl (\<lambda>m (p, n). fst (manifest_cb root m p n)) m vs =
     \<lparr>VideoCount = VideoCount m + int (length (filter (\<lambda>(p, n). \<not> is_dir n \<and> is_video root p n) vs)),
      VideoBytes = VideoBytes m + int (sum_list (map (lsize \<circ> snd) (filter (\<lambda>(p, n). \<not> is_dir n \<and> is_video root p n) vs))),
      TotalCount = TotalCount m + int (length (filter (\<lambda>(p, n). \<not> is_dir n) vs)),
      TotalBytes = TotalBytes m + int (sum_list (map (lsize \<circ> snd) (filter (\<lambda>(p, n). \<not> is_dir n) vs))),
      VideoFiles = VideoFiles m @ map (\<lambda>(p, n). \<lparr>RelPath = rel_path p, Size = int (lsize n)\<rparr>)
         (filter (\<lambda>(p, n). \<not> is_dir n \<and> is_video root p n) vs)\<rparr>"
  by (induction vs arbitrary: m) (auto simp: manifest_cb_eq)

lemma ManifestOf_eq:
  "ManifestOf root t =
     \<lparr>VideoCount = int (length (video_files root t)),
      VideoBytes = int (sum_list (map (lsize \<circ> snd) (video_files root t))),
      TotalCount = int (length (plain_files t)),
      TotalBytes = int (sum_list (map (lsize \<circ> snd) (plain_files t))),
      VideoFiles = sort_key RelPath (map (\<lambda>(p, n). \<lparr>RelPath = rel_path p, Size = int (lsize n)\<rparr>) (video_files root t))\<rparr>"
proof -
  let ?g = "\<lambda>m (p, n). fst (manifest_cb root m p n)"
  have "walk_seq (manifest_cb root) empty_manifest (visits no_skip [] t) = (foldl ?g empty_manifest (visits no_skip [] t), WNil)"
    by (rule walk_seq_fold) (auto simp: manifest_cb_def Let_def)
  moreover have "filter (\<lambda>(p, n). \<not> is_dir n \<and> is_video root p n) (visits no_skip [] t) = video_files root t"
    by (auto simp: video_files_def plain_files_def intro!: filter_cong)
  ultimately show ?thesis
    by (simp add: ManifestOf_def file_walk_seq [OF obeys_manifest_cb] manifest_fold empty_manifest_def
        plain_files_def Let_def)
qed

lemma video_files_iff:
  "wf_tree t \<Longrightarrow> (p, n) \<in> set (video_files root t) \<longleftrightarrow> file_at t p = Some n \<and> is_video root p n"
  using visits_file_at(1) [of t "[]" p n no_skip]
  by (auto simp: video_files_def plain_files_def no_skip_def)

lemma distinct_video_files: "wf_tree t \<Longrightarrow> distinct (video_files root t)"
  using distinct_visits(1) [of t no_skip "[]"]
  by (simp add: video_files_def plain_files_def distinct_map)

lemma video_count_le:
  assumes "wf_tree t" and "wf_tree d"
    and "\<And>p n. file_at t p = Some n \<Longrightarrow> is_video root p n \<Longrightarrow> file_at d p = Some n \<and> is_video root' p n"
  shows "VideoCount (ManifestOf root t) \<le> VideoCount (ManifestOf root' d)"
proof -
  have "set (video_files root t) \<subseteq> set (video_files root' d)"
    using assms by (auto simp: video_files_iff)
  then have "card (set (video_files root t)) \<le> card (set (video_files root' d))"
    by (intro card_mono) auto
  then show ?thesis
    using distinct_card [OF distinct_video_files [OF assms(1), of root]]
      distinct_card [OF distinct_video_files [OF assms(2), of root']]
    by (simp add: ManifestOf_eq)
qed

lemma video_ext_content: "to_lower (file_ext s) \<in> set videoExts \<Longrightarrow> \<not> isAgentManagedFile s \<Longrightarrow> isUploadableContent s"
proof -
  have sub: "set videoExts \<subseteq> set contentExts" by code_simp
  assume "to_lower (file_ext s) \<in> set videoExts" "\<not> isAgentManagedFile s"
  then show ?thesis using sub by (auto simp: isUploadableContent_def Let_def)
qed

section \<open>Properties\<close>

text \<open>
  The snapshot agrees with the tree: its counts and byte sums are those of the files that a
  full walk meets (directories that cannot be listed are passed over), the video list is sorted by
  path and has as many entries as \<^verbatim>\<open>VideoCount\<close> says.
\<close>

theorem ManifestOf_honest:
  "let m = ManifestOf root t
   in TotalCount m = int (length (plain_files t))
      \<and> TotalBytes m = int (sum_list (map (lsize \<circ> snd) (plain_files t)))
      \<and> VideoCount m = int (length (VideoFiles m)) \<and> VideoCount m \<le> TotalCount m
      \<and> VideoBytes m = sum_list (map Size (VideoFiles m))
      \<and> sorted (map RelPath (VideoFiles m))"
proof -
  have bytes: "sum_list (map Size (sort_key RelPath xs)) = sum_list (map Size xs)" for xs :: "ManifestEntry list"
    by (metis mset_map mset_sort sum_mset_sum_list)
  have e: "map (Size \<circ> (\<lambda>(p, n). \<lparr>RelPath = rel_path p, Size = int (lsize n)\<rparr>)) xs = map (int \<circ> (lsize \<circ> snd)) xs" for xs
    by (induction xs) auto
  have s: "sum_list (map (int \<circ> f) xs) = int (sum_list (map f xs))" for f :: "fpath \<times> fnode \<Rightarrow> nat" and xs
    by (induction xs) auto
  have "length (video_files root t) \<le> length (plain_files t)" by (simp add: video_files_def)
  then show ?thesis
    unfolding Let_def ManifestOf_eq by (simp add: bytes e s)
qed

text \<open>
  The audit and the staging step agree: when no video of the source lies below an agent-managed
  directory or is called \<^verbatim>\<open>.torrent.*\<close>, \<^verbatim>\<open>CopyFiles\<close> succeeds and the audit of the staged
  directory against the source never refuses the upload.
\<close>

theorem audit_accepts_staged:
  assumes "wf_tree src" and "readable (managed_dir root) [] src" and "is_dir src"
    and "\<And>p. \<not> cancelled p" and "dstname \<notin> set agentManagedDirs"
    and "\<And>p n. file_at src p = Some n \<Longrightarrow> same_device p \<or> (\<exists>b. n = FFile b)"
    and "\<And>p n. file_at src p = Some n \<Longrightarrow> is_video root p n \<Longrightarrow>
          \<not> isAgentManagedFile (base_of root p) \<and> (\<forall>k < length p. \<not> managed_dir root (take k p))"
  shows "\<exists>d. CopyFiles same_device cancelled root src dstname (FDir []) = (d, Inr ())
     \<and> CompareManifest (ManifestOf root src) (ManifestOf dstname d) encrypted = None"
proof -
  from copy_exact [where cancelled = cancelled and same_device = same_device, OF assms(1-5)] assms(6)
  obtain d where d: "CopyFiles same_device cancelled root src dstname (FDir []) = (d, Inr ())" "wf_tree d"
    "\<And>p n. file_at d p = Some n \<longleftrightarrow>
          file_at src p = Some n \<and> 0 < lsize n \<and> isUploadableContent (base_of root p)
          \<and> (\<forall>k < length p. \<not> managed_dir root (take k p))" by blast
  have "VideoCount (ManifestOf root src) \<le> VideoCount (ManifestOf dstname d)"
  proof (rule video_count_le [OF assms(1) d(2)])
    fix p n assume *: "file_at src p = Some n" "is_video root p n"
    with assms(3,7) have p: "p \<noteq> []" "\<not> isAgentManagedFile (base_of root p)"
      "\<forall>k < length p. \<not> managed_dir root (take k p)" by (auto simp: file_at_Nil_dir)
    have "isUploadableContent (base_of root p)" "0 < lsize n"
      using *(2) p(2) video_ext_content by (auto simp: is_video_def minVideoBytes_def)
    then have "file_at d p = Some n" using d(3) * p(3) by blast
    moreover have "base_of dstname p = base_of root p" using p(1) by (simp add: base_of_def)
    ultimately show "file_at d p = Some n \<and> is_video dstname p n" using *(2) by (simp add: is_video_def)
  qed
  then show ?thesis using d(1) by (intro exI [of _ d]) (simp add: CompareManifest_def)
qed

theorem audit_accepts_staged_witness:
  "\<exists>d. CopyFiles (\<lambda>p. True) (\<lambda>p. False) ''dl'' (FDir [(''a.mkv'', FFile (replicate 1048576 7))]) ''stage'' (FDir []) = (d, Inr ())
     \<and> CompareManifest (ManifestOf ''dl'' (FDir [(''a.mkv'', FFile (replicate 1048576 7))])) (ManifestOf ''stage'' d) False = None"
proof (rule audit_accepts_staged)
  fix p n assume f: "file_at (FDir [(''a.mkv'', FFile (replicate 1048576 7))]) p = Some n"
  have "p = [''a.mkv'']" using f by (cases p) (auto simp: file_at_Cons file_at_Nil_dir file_at_file split: if_splits)
  then show "\<not> isAgentManagedFile (base_of ''dl'' p) \<and> (\<forall>k < length p. \<not> managed_dir ''dl'' (take k p))"
    by (simp add: isAgentManagedFile_def has_prefix_def base_of_def managed_dir_def agentManagedDirs_def)
qed (simp_all add: readable_def agentManagedDirs_def managed_dir_def base_of_def)

text \<open>
  The audit fires for an unencrypted upload exactly when the upload has fewer videos than the
  source; and when in addition every upload video is one of the source's and base names are
  unambiguous in the source, the error names a missing file.
\<close>

theorem CompareManifest_fires:
  "(CompareManifest source upload encrypted \<noteq> None \<longleftrightarrow>
      \<not> encrypted \<and> VideoCount source \<noteq> 0 \<and> VideoCount upload < VideoCount source)
   \<and> (VideoCount source = int (length (VideoFiles source)) \<and> VideoCount upload = int (length (VideoFiles upload))
        \<and> distinct (map (path_base \<circ> RelPath) (VideoFiles source))
        \<and> CompareManifest source upload encrypted = Some e
      \<longrightarrow> Missing (Diff e) \<noteq> [])"
proof (intro conjI impI)
  show "CompareManifest source upload encrypted \<noteq> None \<longleftrightarrow>
      \<not> encrypted \<and> VideoCount source \<noteq> 0 \<and> VideoCount upload < VideoCount source"
    by (simp add: CompareManifest_def)
next
  assume *: "VideoCount source = int (length (VideoFiles source)) \<and> VideoCount upload = int (length (VideoFiles upload))
        \<and> distinct (map (path_base \<circ> RelPath) (VideoFiles source))
        \<and> CompareManifest source upload encrypted = Some e"
  then have less: "length (VideoFiles upload) < length (VideoFiles source)"
    and e: "Diff e = DiffManifests source upload"
    by (auto simp: CompareManifest_def split: if_splits)
  show "Missing (Diff e) \<noteq> []"
  proof
    assume "Missing (Diff e) = []"
    then have "\<forall>f \<in> set (VideoFiles source). by_base (VideoFiles upload) (path_base (RelPath f)) \<noteq> None"
      by (auto simp: e DiffManifests_def filter_empty_conv split: option.splits)
    then have "set (map (path_base \<circ> RelPath) (VideoFiles source)) \<subseteq> set (map (path_base \<circ> RelPath) (VideoFiles upload))"
      by (fastforce simp: by_base_def dest!: map_of_SomeD)
    then have "card (set (map (path_base \<circ> RelPath) (VideoFiles source))) \<le> length (VideoFiles upload)"
      by (metis card_length card_mono finite_set length_map le_trans)
    then show False
      using less * distinct_card [of "map (path_base \<circ> RelPath) (VideoFiles source)"] by simp
  qed
qed

theorem CompareManifest_fires_witness:
  "CompareManifest (empty_manifest\<lparr>VideoCount := 1, VideoFiles := [\<lparr>RelPath = ''a.mkv'', Size = 5\<rparr>]\<rparr>) empty_manifest False \<noteq> None
   \<and> Missing (Diff (the (CompareManifest (empty_manifest\<lparr>VideoCount := 1, VideoFiles := [\<lparr>RelPath = ''a.mkv'', Size = 5\<rparr>]\<rparr>)
        empty_manifest False))) \<noteq> []"
  using CompareManifest_fires [of "empty_manifest\<lparr>VideoCount := 1, VideoFiles := [\<lparr>RelPath = ''a.mkv'', Size = 5\<rparr>]\<rparr>"
      empty_manifest False
      "the (CompareManifest (empty_manifest\<lparr>VideoCount := 1, VideoFiles := [\<lparr>RelPath = ''a.mkv'', Size = 5\<rparr>]\<rparr>) empty_manifest False)"]
  by (simp add: empty_manifest_def CompareManifest_def)

end
