(* ===== verification/Describe.thy ===== *)
theory Describe
  imports Paths
begin

text \<open>
  The metadata pass of the publish pipeline (\<open>describeContent\<close> in
  \<^verbatim>\<open>services/publish_pipeline.go\<close>): which stages it records on the checklist of a release and what it
  takes over from the media tools. The outcomes of the tools are the fields of \<open>media\<close>; what they
  write below the content directory is in \<open>Publish\<close>.
\<close>

section \<open>The checklist\<close>

record stageRecord =
  SStatus :: string
  SCount :: int
  SNote :: string

type_synonym checklist = "string \<Rightarrow> stageRecord option"

definition stageOK :: "string \<Rightarrow> nat \<Rightarrow> string \<Rightarrow> checklist \<Rightarrow> checklist" where
  "stageOK name n note st = st(name \<mapsto> \<lparr>SStatus = ''ok'', SCount = int n, SNote = note\<rparr>)"

definition stageEmpty :: "string \<Rightarrow> string \<Rightarrow> checklist \<Rightarrow> checklist" where
  "stageEmpty name note st = st(name \<mapsto> \<lparr>SStatus = ''empty'', SCount = 0, SNote = note\<rparr>)"

definition stageSkipped :: "string \<Rightarrow> string \<Rightarrow> checklist \<Rightarrow> checklist" where
  "stageSkipped name note st = st(name \<mapsto> \<lparr>SStatus = ''skipped'', SCount = 0, SNote = note\<rparr>)"

definition stageFailed :: "string \<Rightarrow> string \<Rightarrow> checklist \<Rightarrow> checklist" where
  "stageFailed name note st =
     st(name \<mapsto> \<lparr>SStatus = ''failed'', SCount = 0, SNote = (if 200 < length note then take 200 note else note)\<rparr>)"

section \<open>The pass\<close>

text \<open>A probed video: its duration in seconds truncated, whether it is above 10 seconds, and the
  strings of its report line.\<close>

record videoInfo =
  VDuration :: int
  VLonger10 :: bool
  VideoCodec :: string
  ResolutionLabel :: string
  HDR :: string

record audioTrack =
  TrackIndex :: int
  Language :: string

record media =
  videoFiles :: "string list"
  probeVideo :: "string \<Rightarrow> string + videoInfo"
  screenshots :: "string \<Rightarrow> string + string list"
  mangaArchive :: string
  mangaPages :: "string \<Rightarrow> string + string list"
  subtitleToolStatus :: string
  subtitleTracks :: "audioTrack list"
  subtitleErr :: "string option"
  audioTracks :: "audioTrack list"
  audioErr :: "string option"
  fingerprints :: "string list"
  fingerprintErr :: "string option"
  palette :: "string list \<Rightarrow> string list"
  ocrPages :: "string list \<Rightarrow> string \<times> string"

record description =
  VideoInfo :: "videoInfo option"
  Screenshots :: "string list"
  Subtitles :: "audioTrack list"
  AudioTracks :: "audioTrack list"
  Fingerprints :: "string list"
  DominantPalette :: "string list"
  OCRText :: string
  OCRLanguage :: string
  Stages :: checklist

definition no_description :: description where
  "no_description = \<lparr>VideoInfo = None, Screenshots = [], Subtitles = [], AudioTracks = [], Fingerprints = [],
     DominantPalette = [], OCRText = [], OCRLanguage = [], Stages = Map.empty\<rparr>"

definition two_digits :: "int \<Rightarrow> string" where
  "two_digits n = (if n < 10 then ''0'' else []) @ itoa n"

definition DurationStr :: "videoInfo \<Rightarrow> string" where
  "DurationStr v =
     (let d = VDuration v; h = d div 3600; m = (d mod 3600) div 60; s = d mod 60
      in if h > 0 then itoa h @ ''h '' @ two_digits m @ ''m '' @ two_digits s @ ''s''
         else itoa m @ ''m '' @ two_digits s @ ''s'')"

fun distinct_langs :: "string list \<Rightarrow> string list \<Rightarrow> string list" where
  "distinct_langs seen [] = []"
| "distinct_langs seen (l # ls) =
     (let lang = (if l = [] then ''und'' else l)
      in if lang \<in> set seen then distinct_langs seen ls else lang # distinct_langs (lang # seen) ls)"

definition ellipsis :: string where
  "ellipsis = [CHR 0xE2, CHR 0x80, CHR 0xA6]"

definition summarizeTrackLangs :: "string list \<Rightarrow> string" where
  "summarizeTrackLangs langs =
     (let order = distinct_langs [] langs
      in if length order \<le> 6 then join '','' order else join '','' (take 6 order) @ '','' @ ellipsis)"

text \<open>Steps 2 and 3: probe and screenshots of the largest video, or pages of a manga archive.\<close>

definition shots_stage :: "string + string list \<Rightarrow> string \<Rightarrow> string \<Rightarrow> description \<Rightarrow> description" where
  "shots_stage r ok_note empty_note d =
     (case r of
        Inl err \<Rightarrow> d\<lparr>Stages := stageFailed ''screenshots'' err (Stages d)\<rparr>
      | Inr shots \<Rightarrow>
          if shots \<noteq> []
          then d\<lparr>Screenshots := shots, Stages := stageOK ''screenshots'' (length shots) ok_note (Stages d)\<rparr>
          else d\<lparr>Stages := stageEmpty ''screenshots'' empty_note (Stages d)\<rparr>)"

definition describe_video :: "media \<Rightarrow> string \<Rightarrow> description \<Rightarrow> description" where
  "describe_video m mainVideo d =
     (case probeVideo m mainVideo of
        Inl err \<Rightarrow> d\<lparr>Stages := stageFailed ''mediainfo'' err (Stages d)\<rparr>
      | Inr info \<Rightarrow>
          (let d1 = d\<lparr>VideoInfo := Some info,
                      Stages := stageOK ''mediainfo'' 1
                        (VideoCodec info @ '' '' @ ResolutionLabel info @ '' '' @ HDR info) (Stages d)\<rparr>
           in if VLonger10 info
              then shots_stage (screenshots m mainVideo) [] ''ffmpeg returned no frames'' d1
              else d1\<lparr>Stages := stageSkipped ''screenshots''
                        (''video too short ('' @ DurationStr info @ '')'') (Stages d1)\<rparr>))"

definition is_manga :: "media \<Rightarrow> bool" where
  "is_manga m \<longleftrightarrow> videoFiles m = [] \<and> mangaArchive m \<noteq> []"

definition describe_main :: "media \<Rightarrow> description \<Rightarrow> description" where
  "describe_main m d =
     (case videoFiles m of
        mainVideo # vs \<Rightarrow> describe_video m mainVideo d
      | [] \<Rightarrow>
          if mangaArchive m \<noteq> []
          then shots_stage (mangaPages m (mangaArchive m)) ''manga pages''
                 ''manga archive yielded no extractable pages''
                 (d\<lparr>Stages := stageSkipped ''mediainfo'' ''manga archive (no video file)'' (Stages d)\<rparr>)
          else d\<lparr>Stages := stageSkipped ''screenshots'' ''no video file or manga archive found''
                   (stageSkipped ''mediainfo'' ''no video file or manga archive found'' (Stages d))\<rparr>)"

text \<open>Steps 3b to 3d: the tracks are taken over whatever the status says.\<close>

definition describe_subtitles :: "media \<Rightarrow> description \<Rightarrow> description" where
  "describe_subtitles m d =
     (let st =
        (if subtitleToolStatus m \<noteq> [] then stageSkipped ''subtitles'' (subtitleToolStatus m)
         else case subtitleErr m of
           Some err \<Rightarrow> stageFailed ''subtitles'' err
         | None \<Rightarrow>
             if subtitleTracks m \<noteq> []
             then stageOK ''subtitles'' (length (subtitleTracks m)) (summarizeTrackLangs (map Language (subtitleTracks m)))
             else stageEmpty ''subtitles'' ''no subtitle tracks found in MKV containers'')
      in d\<lparr>Subtitles := Subtitles d @ subtitleTracks m, Stages := st (Stages d)\<rparr>)"

definition describe_audio :: "media \<Rightarrow> description \<Rightarrow> description" where
  "describe_audio m d =
     (let st =
        (case audioErr m of
           Some err \<Rightarrow> stageFailed ''audio_tracks'' err
         | None \<Rightarrow>
             if audioTracks m \<noteq> []
             then stageOK ''audio_tracks'' (length (audioTracks m)) (summarizeTrackLangs (map Language (audioTracks m)))
             else stageEmpty ''audio_tracks'' ''no audio tracks cataloged'')
      in d\<lparr>AudioTracks := AudioTracks d @ audioTracks m, Stages := st (Stages d)\<rparr>)"

definition describe_fingerprints :: "media \<Rightarrow> description \<Rightarrow> description" where
  "describe_fingerprints m d =
     (let st =
        (case fingerprintErr m of
           Some err \<Rightarrow> stageFailed ''audio_fingerprints'' err
         | None \<Rightarrow>
             if fingerprints m \<noteq> [] then stageOK ''audio_fingerprints'' (length (fingerprints m)) []
             else stageEmpty ''audio_fingerprints'' ''fpcalc produced no fingerprints (missing binary or no audio)'')
      in d\<lparr>Fingerprints := Fingerprints d @ fingerprints m, Stages := st (Stages d)\<rparr>)"

definition describe_palette :: "media \<Rightarrow> description \<Rightarrow> description" where
  "describe_palette m d =
     (let pal = palette m (Screenshots d);
          st =
            (if Screenshots d = [] then stageSkipped ''dominant_palette'' ''no screenshots to sample''
             else if pal \<noteq> [] then stageOK ''dominant_palette'' (length pal) []
             else stageEmpty ''dominant_palette'' ''bucket-histogram returned no colours'')
      in d\<lparr>DominantPalette := pal, Stages := st (Stages d)\<rparr>)"

definition describe_ocr :: "media \<Rightarrow> description \<Rightarrow> description" where
  "describe_ocr m d =
     (if \<not> is_manga m
      then d\<lparr>Stages := stageSkipped ''ocr'' ''anime release (OCR runs only on manga)'' (Stages d)\<rparr>
      else if Screenshots d = []
      then d\<lparr>Stages := stageSkipped ''ocr'' ''no manga pages available to OCR'' (Stages d)\<rparr>
      else (case ocrPages m (Screenshots d) of (txt, lang) \<Rightarrow>
        d\<lparr>OCRText := txt, OCRLanguage := lang,
          Stages := (if txt \<noteq> [] then stageOK ''ocr'' (length txt) lang (Stages d)
                     else stageEmpty ''ocr'' ''tesseract produced no recognisable text'' (Stages d))\<rparr>))"

definition describeContent :: "media \<Rightarrow> description \<Rightarrow> description" where
  "describeContent m d =
     describe_ocr m (describe_palette m (describe_fingerprints m (describe_audio m (describe_subtitles m (describe_main m d)))))"

section \<open>Facts\<close>

named_theorems describe_defs \<open>the steps of the pass and the writes to the checklist\<close>

lemmas [describe_defs] = stageOK_def stageEmpty_def stageSkipped_def stageFailed_def shots_stage_def
  describe_video_def describe_main_def describe_subtitles_def describe_audio_def describe_fingerprints_def
  describe_palette_def describe_ocr_def Let_def

definition pass_stages :: "string set" where
  "pass_stages = {''mediainfo'', ''screenshots'', ''subtitles'', ''audio_tracks'', ''audio_fingerprints'',
     ''dominant_palette'', ''ocr''}"

definition probe_failed :: "media \<Rightarrow> bool" where
  "probe_failed m \<longleftrightarrow> (case videoFiles m of [] \<Rightarrow> False | v # vs \<Rightarrow> (case probeVideo m v of Inl e \<Rightarrow> True | Inr i \<Rightarrow> False))"

lemma dom_main:
  "dom (Stages (describe_main m d)) =
     dom (Stages d) \<union> (if probe_failed m then {''mediainfo''} else {''mediainfo'', ''screenshots''})"
  by (auto simp: describe_defs probe_failed_def split: list.split sum.split)

lemma dom_steps:
  "dom (Stages (describe_subtitles m d)) = insert ''subtitles'' (dom (Stages d))"
  "dom (Stages (describe_audio m d)) = insert ''audio_tracks'' (dom (Stages d))"
  "dom (Stages (describe_fingerprints m d)) = insert ''audio_fingerprints'' (dom (Stages d))"
  "dom (Stages (describe_palette m d)) = insert ''dominant_palette'' (dom (Stages d))"
  "dom (Stages (describe_ocr m d)) = insert ''ocr'' (dom (Stages d))"
  by (auto simp: describe_defs split: option.splits prod.splits if_splits)

lemma describe_dom:
  "dom (Stages (describeContent m d)) = dom (Stages d) \<union> (pass_stages - (if probe_failed m then {''screenshots''} else {}))"
  unfolding describeContent_def dom_steps dom_main pass_stages_def by auto

definition record_ok :: "stageRecord \<Rightarrow> bool" where
  "record_ok r \<longleftrightarrow> SStatus r \<in> {''ok'', ''empty'', ''skipped'', ''failed''}
     \<and> (SStatus r = ''ok'') = (0 < SCount r) \<and> (SStatus r = ''failed'' \<longrightarrow> length (SNote r) \<le> 200)"

definition list_ok :: "checklist \<Rightarrow> bool" where
  "list_ok st \<longleftrightarrow> (\<forall>r \<in> ran st. record_ok r)"

lemma list_ok_upd: "list_ok st \<Longrightarrow> record_ok r \<Longrightarrow> list_ok (st(k \<mapsto> r))"
  using ran_map_upd_Some by (auto simp: list_ok_def ran_def)

lemma list_ok_stages:
  "list_ok st \<Longrightarrow> 0 < n \<Longrightarrow> list_ok (stageOK k n note st)"
  "list_ok st \<Longrightarrow> list_ok (stageEmpty k note st)"
  "list_ok st \<Longrightarrow> list_ok (stageSkipped k note st)"
  "list_ok st \<Longrightarrow> list_ok (stageFailed k note st)"
  by (auto simp: stageOK_def stageEmpty_def stageSkipped_def stageFailed_def record_ok_def intro!: list_ok_upd)

lemma describe_list_ok:
  assumes "list_ok (Stages d)"
  shows "list_ok (Stages (describeContent m d))"
proof -
  have main: "list_ok (Stages (describe_main m d))" if "list_ok (Stages d)" for d
    using that by (auto simp: describe_main_def describe_video_def shots_stage_def Let_def list_ok_stages
        split: list.split sum.split)
  have rest: "list_ok (Stages (describe_subtitles m d))" "list_ok (Stages (describe_audio m d))"
    "list_ok (Stages (describe_fingerprints m d))" "list_ok (Stages (describe_palette m d))"
    "list_ok (Stages (describe_ocr m d))" if "list_ok (Stages d)" for d
    using that by (auto simp: describe_subtitles_def describe_audio_def describe_fingerprints_def describe_palette_def
        describe_ocr_def Let_def list_ok_stages split: option.split prod.split)
  show ?thesis unfolding describeContent_def by (intro rest main assms)
qed

section \<open>Properties\<close>

text \<open>
  C38. The metadata pass never fails and records every one of its stages exactly as the site accepts
  them (a known status, a count exactly for \<^verbatim>\<open>ok\<close>, a bounded reason), with one gap: when the probe of
  the main video fails, the screenshots stage is not recorded at all.
\<close>

theorem describe_complete:
  "dom (Stages (describeContent m no_description)) = (if probe_failed m then pass_stages - {''screenshots''} else pass_stages)
   \<and> list_ok (Stages (describeContent m no_description))"
  using describe_list_ok [of no_description m]
  by (simp add: describe_dom no_description_def list_ok_def)

end
