(* ===== verification/Names.thy ===== *)
theory Names
  imports Paths
begin

text \<open>
  The names the agent derives from titles and group names: \<^verbatim>\<open>SanitizeBaseName\<close>
  (\<^verbatim>\<open>services/upload_obfuscate.go\<close>), \<^verbatim>\<open>sanitizeDirName\<close> and the release directory
  (\<^verbatim>\<open>services/network_offline_processor.go\<close>). Strings are bytes; a title is cut by runes, so the
  decoding of UTF-8 is written out as \<^verbatim>\<open>[]rune(s)\<close> does it.
\<close>

section \<open>Runes\<close>

abbreviation byte_val :: "char \<Rightarrow> nat" where
  "byte_val c \<equiv> of_char c"

definition cont :: "char \<Rightarrow> bool" where
  "cont c \<longleftrightarrow> 128 \<le> byte_val c \<and> byte_val c < 192"

definition second_ok :: "char \<Rightarrow> char \<Rightarrow> bool" where
  "second_ok a b \<longleftrightarrow>
     (if byte_val a = 224 then 160 \<le> byte_val b \<and> byte_val b < 192
      else if byte_val a = 237 then 128 \<le> byte_val b \<and> byte_val b < 160
      else if byte_val a = 240 then 144 \<le> byte_val b \<and> byte_val b < 192
      else if byte_val a = 244 then 128 \<le> byte_val b \<and> byte_val b < 144
      else cont b)"

text \<open>The length of the rune a string starts with; \<open>0\<close> when it starts with an invalid byte.\<close>

definition rune_len :: "string \<Rightarrow> nat" where
  "rune_len s =
     (case s of [] \<Rightarrow> 0
      | a # t \<Rightarrow>
         if byte_val a < 128 then 1
         else if 194 \<le> byte_val a \<and> byte_val a < 224 \<and> t \<noteq> [] \<and> cont (hd t) then 2
         else if 224 \<le> byte_val a \<and> byte_val a < 240 \<and> 2 \<le> length t \<and> second_ok a (hd t) \<and> cont (t ! 1) then 3
         else if 240 \<le> byte_val a \<and> byte_val a < 245 \<and> 3 \<le> length t \<and> second_ok a (hd t) \<and> cont (t ! 1) \<and> cont (t ! 2) then 4
         else 0)"

definition replacement :: string where
  "replacement = [CHR 0xEF, CHR 0xBF, CHR 0xBD]"

function runes :: "string \<Rightarrow> string list" where
  "runes [] = []"
| "runes (a # t) =
     (let n = rune_len (a # t)
      in if n = 0 then replacement # runes t else take n (a # t) # runes (drop n (a # t)))"
  by pat_completeness auto

termination
  by (relation "measure length") auto

section \<open>The sanitizers\<close>

definition reserved_chr :: "char \<Rightarrow> bool" where
  "reserved_chr c \<longleftrightarrow> c \<in> set ''/:*?<>|'' \<union> {CHR 0x5C, CHR 0x22}"

text \<open>The fullwidth forms of the reserved characters, three bytes each.\<close>

definition fullwidth :: "string set" where
  "fullwidth = {[CHR 0xEF, CHR 0xBC, CHR 0x9A], [CHR 0xEF, CHR 0xBC, CHR 0x9F], [CHR 0xEF, CHR 0xBD, CHR 0x9C],
     [CHR 0xEF, CHR 0xBC, CHR 0x82], [CHR 0xEF, CHR 0xBC, CHR 0x9C], [CHR 0xEF, CHR 0xBC, CHR 0x9E],
     [CHR 0xEF, CHR 0xBC, CHR 0x8A], [CHR 0xEF, CHR 0xBC, CHR 0xBC], [CHR 0xEF, CHR 0xBC, CHR 0x8F]}"

function replace_reserved :: "string \<Rightarrow> string" where
  "replace_reserved [] = []"
| "replace_reserved (c # t) =
     (if reserved_chr c then CHR ''_'' # replace_reserved t
      else if take 3 (c # t) \<in> fullwidth then CHR ''_'' # replace_reserved (drop 2 t)
      else c # replace_reserved t)"
  by pat_completeness auto

termination
  by (relation "measure length") auto

text \<open>\<open>rnd\<close> is the token drawn for an empty name.\<close>

definition SanitizeBaseName :: "string \<Rightarrow> string \<Rightarrow> string" where
  "SanitizeBaseName rnd title =
     (let name = replace_reserved (trim_space title)
      in if name = [] then rnd
         else if length (runes name) > 200 then concat (take 200 (runes name)) else name)"

definition dir_chr :: "char \<Rightarrow> char" where
  "dir_chr c = (if reserved_chr c \<or> c = CHR '' '' then CHR ''_'' else c)"

text \<open>\<^verbatim>\<open>WriteRune\<close> turns an invalid byte into the replacement rune.\<close>

definition sanitizeDirName :: "string \<Rightarrow> string" where
  "sanitizeDirName s0 =
     (let s = trim_space s0
      in if s = [] then ''unnamed'' else map dir_chr (concat (runes s)))"

definition offlineOutputDir :: "string \<Rightarrow> string \<Rightarrow> string" where
  "offlineOutputDir env_dir tempDir =
     (if env_dir \<noteq> [] then env_dir else path_join_all [path_dir tempDir, ''offline-output''])"

text \<open>The directory of a release and its NZB.\<close>

definition release_dir :: "string \<Rightarrow> string \<Rightarrow> string \<Rightarrow> string" where
  "release_dir out groupName safeTitle = path_join_all [out, sanitizeDirName groupName, safeTitle]"

definition nzb_file :: "string \<Rightarrow> string \<Rightarrow> string" where
  "nzb_file releaseDir safeTitle = path_join_all [releaseDir, safeTitle @ ''.nzb'']"

section \<open>Facts\<close>

lemma underscore_ok [simp]: "\<not> reserved_chr (CHR ''_'')"
  by (simp add: reserved_chr_def)

lemma runes_chars: "x \<in> set (concat (runes s)) \<Longrightarrow> x \<in> set s \<or> x \<in> set replacement"
proof (induction s rule: runes.induct)
  case 1
  then show ?case by simp
next
  case (2 a t)
  show ?case
  proof (cases "rune_len (a # t) = 0")
    case True
    then show ?thesis using 2 by (auto simp: Let_def)
  next
    case False
    then have "x \<in> set (take (rune_len (a # t)) (a # t)) \<or> x \<in> set (concat (runes (drop (rune_len (a # t)) (a # t))))"
      using 2(3) by (simp add: Let_def)
    then show ?thesis using 2(2) [OF refl False] by (metis in_set_takeD in_set_dropD)
  qed
qed

lemma replacement_ok: "x \<in> set replacement \<Longrightarrow> \<not> reserved_chr x"
  by (auto simp: replacement_def reserved_chr_def)

lemma replace_reserved_safe: "x \<in> set (replace_reserved s) \<Longrightarrow> \<not> reserved_chr x"
  by (induction s rule: replace_reserved.induct) (auto split: if_splits)

lemma runes_ne: "r \<in> set (runes s) \<Longrightarrow> r \<noteq> []"
  by (induction s rule: runes.induct) (auto simp: Let_def replacement_def split: if_splits)

lemma runes_Nil: "runes s = [] \<longleftrightarrow> s = []"
  by (cases s) (simp_all add: Let_def)

lemma concat_runes_ne:
  assumes "s \<noteq> []" and "0 < k"
  shows "concat (take k (runes s)) \<noteq> []"
proof -
  from assms obtain r rs where "runes s = r # rs" "r \<noteq> []"
    using runes_Nil [of s] runes_ne [of _ s] by (cases "runes s") auto
  then show ?thesis using assms(2) by (cases k) auto
qed

lemma reserved_slash [simp]: "reserved_chr slash"
  by (simp add: reserved_chr_def slash_def)

lemma SanitizeBaseName_chars:
  assumes "list_all (\<lambda>c. \<not> reserved_chr c) rnd" and "c \<in> set (SanitizeBaseName rnd title)"
  shows "\<not> reserved_chr c"
proof -
  let ?n = "replace_reserved (trim_space title)"
  have "c \<in> set rnd \<or> c \<in> set (concat (runes ?n)) \<or> c \<in> set ?n"
    using assms(2) by (auto simp: SanitizeBaseName_def Let_def dest: in_set_takeD split: if_splits)
  then show ?thesis
    using assms(1) runes_chars [of c ?n] replacement_ok replace_reserved_safe by (auto simp: list_all_iff)
qed

lemma SanitizeBaseName_ne: "rnd \<noteq> [] \<Longrightarrow> SanitizeBaseName rnd title \<noteq> []"
  using concat_runes_ne [of "replace_reserved (trim_space title)" 200] by (auto simp: SanitizeBaseName_def Let_def)

lemma dir_chr_ok: "\<not> reserved_chr (dir_chr c)"
  by (simp add: dir_chr_def)

lemma sanitizeDirName_chars: "c \<in> set (sanitizeDirName g) \<Longrightarrow> \<not> reserved_chr c"
  by (auto simp: sanitizeDirName_def Let_def dir_chr_ok split: if_splits) (auto simp: reserved_chr_def)

lemma sanitizeDirName_ne: "sanitizeDirName g \<noteq> []"
  using concat_runes_ne [of "trim_space g" "length (runes (trim_space g))"] runes_Nil [of "trim_space g"]
  by (auto simp: sanitizeDirName_def Let_def)

lemma no_reserved_plain: "e \<noteq> [] \<Longrightarrow> e \<noteq> ''.'' \<Longrightarrow> e \<noteq> ''..'' \<Longrightarrow> (\<And>c. c \<in> set e \<Longrightarrow> \<not> reserved_chr c) \<Longrightarrow> plain_elem e"
  by (metis plain_elem_def reserved_slash)

lemma path_join_all_abs:
  assumes "list_all plain_elem es" and "list_all plain_elem fs"
  shows "path_join_all (abs_path es # fs) = abs_path (es @ fs)"
proof -
  have "filter (\<lambda>e. e \<noteq> []) (abs_path es # fs) = abs_path es # fs"
    using assms(2) by (auto simp: abs_path_def plain_elem_def list_all_iff filter_id_conv)
  then show ?thesis
    using path_clean_join_abs [OF assms] path_clean_abs(1) [OF assms(1)]
    by (cases fs) (simp_all add: path_join_all_def Let_def)
qed

section \<open>Properties\<close>

text \<open>
  The directory of a release is exactly two levels below the output directory and its NZB is
  directly in it, whatever the title and the name of the group, as long as neither sanitized name is
  a dot or two dots: no character that a file system reserves gets into a path.
\<close>

theorem release_inside_output:
  assumes "list_all plain_elem out" and "rnd \<noteq> []" and "list_all (\<lambda>c. \<not> reserved_chr c) rnd"
    and "sanitizeDirName g \<notin> {''.'', ''..''}" and "SanitizeBaseName rnd title \<notin> {''.'', ''..''}"
  shows "let d = sanitizeDirName g; t = SanitizeBaseName rnd title; r = release_dir (abs_path out) g t
     in r = abs_path (out @ [d, t]) \<and> nzb_file r t = abs_path (out @ [d, t, t @ ''.nzb''])
        \<and> (\<forall>c \<in> set d \<union> set t. \<not> reserved_chr c)"
proof -
  define d where "d = sanitizeDirName g"
  define t where "t = SanitizeBaseName rnd title"
  have c: "\<And>c. c \<in> set d \<Longrightarrow> \<not> reserved_chr c" "\<And>c. c \<in> set t \<Longrightarrow> \<not> reserved_chr c"
    using sanitizeDirName_chars SanitizeBaseName_chars [OF assms(3)] by (auto simp: d_def t_def)
  have d: "plain_elem d"
    using sanitizeDirName_ne assms(4) c(1) by (intro no_reserved_plain) (auto simp: d_def)
  have t: "plain_elem t"
    using SanitizeBaseName_ne [OF assms(2)] assms(5) c(2) by (intro no_reserved_plain) (auto simp: t_def)
  have n: "plain_elem (t @ ''.nzb'')"
    using t c(2) by (intro no_reserved_plain) (auto simp: reserved_chr_def dest: arg_cong [where f = length])
  have r: "release_dir (abs_path out) g t = abs_path (out @ [d, t])"
    using path_join_all_abs [OF assms(1), of "[d, t]"] d t by (simp add: release_dir_def d_def)
  have "nzb_file (abs_path (out @ [d, t])) t = abs_path (out @ [d, t, t @ ''.nzb''])"
    using path_join_all_abs [of "out @ [d, t]" "[t @ ''.nzb'']"] assms(1) d t n by (simp add: nzb_file_def)
  then show ?thesis using r c unfolding d_def t_def Let_def by auto
qed

theorem release_inside_output_witness:
  "let d = sanitizeDirName ''My Anime!''; t = SanitizeBaseName ''00'' ''Show: S01/E02''; r = release_dir (abs_path [''data'', ''out'']) ''My Anime!'' t
     in r = abs_path [''data'', ''out'', d, t] \<and> nzb_file r t = abs_path [''data'', ''out'', d, t, t @ ''.nzb'']
        \<and> (\<forall>c \<in> set d \<union> set t. \<not> reserved_chr c)"
proof -
  have 1: "sanitizeDirName ''My Anime!'' = ''My_Anime!''" and 2: "SanitizeBaseName ''00'' ''Show: S01/E02'' = ''Show_ S01_E02''"
    by code_simp+
  show ?thesis
    using release_inside_output [of "[''data'', ''out'']" "''00''" "''My Anime!''" "''Show: S01/E02''"]
    by (simp add: 1 2 plain_elem_def slash_def reserved_chr_def)
qed

text \<open>
  Two dots survive both sanitizers: a group of that name puts its releases beside the output
  directory, and a release of that title goes into the output directory itself.
\<close>

theorem dots_escape_output:
  "release_dir ''/data/out'' ''..'' (SanitizeBaseName rnd ''Film'') = ''/data/Film''
   \<and> release_dir ''/data/out'' ''Anime'' (SanitizeBaseName rnd ''..'') = ''/data/out''"
proof -
  have "SanitizeBaseName rnd ''Film'' = ''Film''" "SanitizeBaseName rnd ''..'' = ''..''"
    by (simp_all add: SanitizeBaseName_def Let_def, code_simp+)
  moreover have "release_dir ''/data/out'' ''..'' ''Film'' = ''/data/Film''"
    "release_dir ''/data/out'' ''Anime'' ''..'' = ''/data/out''" by code_simp+
  ultimately show ?thesis by simp
qed

end
