(* ===== verification/Disk.thy ===== *)
theory Disk
  imports FileTree "HOL-Library.AList"
begin

text \<open>
  Disk accounting (\<^verbatim>\<open>services/disk_reserve_sweep.go\<close>): the reservations of the tasks and the
  global counter that is kept beside them, the free space after reservations, and the sweep of
  orphaned working directories. A call of \<open>ReserveDisk\<close> or \<open>ReleaseDisk\<close> changes the map under a
  mutex and adds to the counter after it has released the mutex, so calls interleave between the
  two: \<open>ledger_step\<close> is that interleaving. The counter, an \<^verbatim>\<open>atomic.Int64\<close>, and the reserves are
  unbounded integers here; the bytes of all torrents together stay far below \<open>2^63\<close>.
\<close>

section \<open>The reserve of a torrent\<close>

text \<open>\<^verbatim>\<open>int64(float64(torrentBytes) * 1.3)\<close>. The constant is the double nearest to 1.3; the product
  is rounded to 53 bits, ties to even; the conversion truncates. \<^verbatim>\<open>float64(n)\<close> is exact for
  \<open>0 \<le> n < 2^53\<close>.\<close>

fun bit_length :: "nat \<Rightarrow> nat" where
  "bit_length n = (if n = 0 then 0 else Suc (bit_length (n div 2)))"

declare bit_length.simps [simp del]

definition round_53 :: "int \<Rightarrow> int" where
  "round_53 m =
     (let k = bit_length (nat m) - 53; q = m div 2 ^ k; r = m mod 2 ^ k
      in (if 2 * r > 2 ^ k \<or> (2 * r = 2 ^ k \<and> odd q) then q + 1 else q) * 2 ^ k)"

text \<open>The length of the integer itself, for evaluation.\<close>

function int_length :: "int \<Rightarrow> nat" where
  "int_length m = (if m \<le> 0 then 0 else Suc (int_length (m div 2)))"
  by auto
termination by (relation "measure nat") auto

declare int_length.simps [simp del]

lemma int_length_nat: "int_length m = bit_length (nat m)"
proof (induction m rule: int_length.induct)
  case (1 m)
  have "nat m div 2 = nat (m div 2)" by (simp add: nat_div_distrib')
  then show ?case using 1 by (subst int_length.simps, subst bit_length.simps) auto
qed

lemma round_53_code [code]:
  "round_53 m =
     (let k = int_length m - 53; q = m div 2 ^ k; r = m mod 2 ^ k
      in (if 2 * r > 2 ^ k \<or> (2 * r = 2 ^ k \<and> odd q) then q + 1 else q) * 2 ^ k)"
  by (simp add: round_53_def int_length_nat)


definition multiplier_mantissa :: int where
  "multiplier_mantissa = 5854679515581645"

definition reserve_bytes :: "int \<Rightarrow> int" where
  "reserve_bytes torrentBytes = round_53 (torrentBytes * multiplier_mantissa) div 2 ^ 52"

section \<open>The ledger\<close>

record ledger =
  reservations :: "(string \<times> int) list"
  diskReserved :: int
  pending :: "int list"

definition reserve_delta :: "ledger \<Rightarrow> string \<Rightarrow> int \<Rightarrow> int" where
  "reserve_delta s job r = r - (case map_of (reservations s) job of Some p \<Rightarrow> p | None \<Rightarrow> 0)"

text \<open>The two halves of the operations.\<close>

definition reserve_map :: "string \<Rightarrow> int \<Rightarrow> ledger \<Rightarrow> ledger" where
  "reserve_map job torrentBytes s =
     (let r = reserve_bytes torrentBytes
      in s\<lparr>reservations := AList.update job r (reservations s), pending := reserve_delta s job r # pending s\<rparr>)"

definition release_map :: "string \<Rightarrow> ledger \<Rightarrow> ledger" where
  "release_map job s =
     (case map_of (reservations s) job of
        None \<Rightarrow> s
      | Some r \<Rightarrow> s\<lparr>reservations := AList.delete job (reservations s), pending := (- r) # pending s\<rparr>)"

definition add_pending :: "int \<Rightarrow> ledger \<Rightarrow> ledger" where
  "add_pending d s = s\<lparr>diskReserved := diskReserved s + d, pending := remove1 d (pending s)\<rparr>"

text \<open>The operations without interleaving.\<close>

definition ReserveDisk :: "string \<Rightarrow> int \<Rightarrow> ledger \<Rightarrow> ledger" where
  "ReserveDisk job torrentBytes s =
     add_pending (reserve_delta s job (reserve_bytes torrentBytes)) (reserve_map job torrentBytes s)"

definition ReleaseDisk :: "string \<Rightarrow> ledger \<Rightarrow> ledger" where
  "ReleaseDisk job s =
     (case map_of (reservations s) job of
        None \<Rightarrow> s
      | Some r \<Rightarrow> add_pending (- r) (release_map job s))"

definition ledger_init :: ledger where
  "ledger_init = \<lparr>reservations = [], diskReserved = 0, pending = []\<rparr>"

inductive ledger_step :: "ledger \<Rightarrow> ledger \<Rightarrow> bool" where
  step_reserve: "0 \<le> n \<Longrightarrow> ledger_step s (reserve_map job n s)"
| step_release: "ledger_step s (release_map job s)"
| step_add: "d \<in> set (pending s) \<Longrightarrow> ledger_step s (add_pending d s)"

inductive ledger_reach :: "ledger \<Rightarrow> bool" where
  reach_init: "ledger_reach ledger_init"
| reach_step: "ledger_reach s \<Longrightarrow> ledger_step s s' \<Longrightarrow> ledger_reach s'"

inductive_cases ledger_stepE: "ledger_step s s'"

section \<open>Free space\<close>

definition disk_usage_cb :: "u64 \<Rightarrow> fpath \<Rightarrow> fnode \<Rightarrow> u64 \<times> wres" where
  "disk_usage_cb acc p n =
     (if node_err n = None \<and> \<not> is_dir n then (acc + of_nat (lsize n), WNil) else (acc, WNil))"

definition diskUsage :: "fnode \<Rightarrow> u64" where
  "diskUsage t = fst (file_walk disk_usage_cb 0 t)"

text \<open>\<open>free\<close> is the result of \<^verbatim>\<open>FreeDiskSpace\<close>, \<open>maxBytes\<close> the configured cap, \<open>reserved\<close> the counter.\<close>

definition FreeDiskAfterReservations :: "u64 option \<Rightarrow> u64 \<Rightarrow> fnode \<Rightarrow> int \<Rightarrow> u64 option" where
  "FreeDiskAfterReservations free0 maxBytes t reserved =
     (case free0 of
        None \<Rightarrow> None
      | Some free1 \<Rightarrow>
         (let free =
             (if maxBytes > 0 then
                (let used = diskUsage t
                 in if maxBytes \<le> used then 0
                    else if maxBytes - used < free1 then maxBytes - used else free1)
              else free1)
          in if reserved \<le> 0 then Some free
             else if sint free \<le> reserved then Some 0
             else Some (free - word_of_int reserved)))"

section \<open>The sweep\<close>

text \<open>The state of a job (\<^verbatim>\<open>JobState\<close> of \<^verbatim>\<open>storage/storage.go\<close>); a \<^verbatim>\<open>float64\<close> is its bit pattern.\<close>

record jobState =
  Name :: string
  Title :: string
  Phase :: string
  Details :: string
  Progress :: u64
  UpdatedAt :: string
  DownloadedPath :: string
  StagePath :: string
  Password :: string
  ZipName :: string

definition new_job :: "string \<Rightarrow> jobState" where
  "new_job name = \<lparr>Name = name, Title = [], Phase = [], Details = [], Progress = 0, UpdatedAt = [],
     DownloadedPath = [], StagePath = [], Password = [], ZipName = []\<rparr>"

definition sweep_family :: "string \<Rightarrow> bool" where
  "sweep_family b \<longleftrightarrow> has_prefix b ''dl-'' \<or> has_prefix b ''stage-'' \<or> has_prefix b ''screens-''"

text \<open>The climb from a downloaded path to its first element of a sweep family.\<close>

fun climb :: "nat \<Rightarrow> string \<Rightarrow> string option" where
  "climb 0 p = None"
| "climb (Suc fuel) p =
     (if p = [] \<or> p = ''/'' \<or> p = ''.'' then None
      else
        (let b = path_base p
         in if sweep_family b then Some b
            else (let nxt = path_dir p in if nxt = p then None else climb fuel nxt)))"

definition dl_name :: "string \<Rightarrow> string" where
  "dl_name job = ''dl-'' @ job"

definition keep_path :: "jobState \<Rightarrow> string list" where
  "keep_path job =
     (if DownloadedPath job \<noteq> []
      then (case climb (Suc (length (DownloadedPath job))) (DownloadedPath job) of Some b \<Rightarrow> [b] | None \<Rightarrow> [])
      else [])"

definition keep_stage :: "jobState \<Rightarrow> string list" where
  "keep_stage job = (if StagePath job \<noteq> [] then [path_base (StagePath job)] else [])"

definition keep_dl :: "string \<Rightarrow> jobState \<Rightarrow> string list" where
  "keep_dl jobName job =
     (if jobName \<noteq> [] then [dl_name jobName] else [])
     @ (if Name job \<noteq> [] \<and> Name job \<noteq> jobName then [dl_name (Name job)] else [])"

definition keep_names :: "string \<times> jobState option \<Rightarrow> string list" where
  "keep_names x =
     (case x of
        (jobName, None) \<Rightarrow> []
      | (jobName, Some job) \<Rightarrow> keep_dl jobName job @ keep_path job @ keep_stage job)"

definition sweep_matches :: "bool \<Rightarrow> string \<Rightarrow> bool" where
  "sweep_matches includeExtended name \<longleftrightarrow>
     has_prefix name ''dl-'' \<or> has_prefix name ''screens-'' \<or> has_prefix name ''stage-''
     \<or> (includeExtended \<and>
         (has_prefix name ''offline-'' \<or> has_prefix name ''enc-'' \<or> has_prefix name ''wrap-''
          \<or> has_prefix name ''offer-'' \<or> has_suffix name ''.7z''))"

text \<open>An entry of the temporary directory with its age, if its information can be read. The result
  is the entries that the sweep removes.\<close>

definition sweepWithMinAge ::
  "(string \<times> jobState option) list \<Rightarrow> int \<Rightarrow> bool \<Rightarrow> (string \<times> int option) list \<Rightarrow> string list" where
  "sweepWithMinAge jobs minAge includeExtended entries =
     (let keep = concat (map keep_names jobs)
      in map fst (filter (\<lambda>(name, age).
           sweep_matches includeExtended name \<and> name \<notin> set keep
           \<and> (0 < minAge \<longrightarrow> (case age of None \<Rightarrow> False | Some a \<Rightarrow> \<not> a < minAge))) entries))"

definition SweepOrphanDownloads :: "(string \<times> jobState option) list \<Rightarrow> (string \<times> int option) list \<Rightarrow> string list" where
  "SweepOrphanDownloads jobs = sweepWithMinAge jobs 0 False"

definition SweepOrphanDownloadsAged :: "(string \<times> jobState option) list \<Rightarrow> int \<Rightarrow> (string \<times> int option) list \<Rightarrow> string list" where
  "SweepOrphanDownloadsAged jobs minAge = sweepWithMinAge jobs minAge False"

definition SweepOrphanTempStartup :: "(string \<times> jobState option) list \<Rightarrow> (string \<times> int option) list \<Rightarrow> string list" where
  "SweepOrphanTempStartup jobs = sweepWithMinAge jobs 0 True"

section \<open>Rounding\<close>

lemma bit_length_bounds: "0 < n \<Longrightarrow> 2 ^ (bit_length n - 1) \<le> n \<and> n < 2 ^ bit_length n \<and> 0 < bit_length n"
proof (induction n rule: bit_length.induct)
  case (1 n)
  show ?case
  proof (cases "n div 2 = 0")
    case True
    then have "n = 1" using 1(2) by linarith
    then show ?thesis by (simp add: bit_length.simps)
  next
    case False
    then obtain k where k: "bit_length (n div 2) = Suc k" "2 ^ k \<le> n div 2" "n div 2 < 2 ^ Suc k"
      using 1 by (cases "bit_length (n div 2)") auto
    then have "bit_length n = Suc (Suc k)" using 1(2) by (subst bit_length.simps) simp
    then show ?thesis using k(2,3) by simp linarith
  qed
qed

text \<open>Rounding to 53 bits moves a number by at most its own \<open>2^53\<close>-th part.\<close>

lemma round_53_error:
  assumes "0 \<le> m"
  shows "2 ^ 53 * (round_53 m - m) \<le> m" and "2 ^ 53 * (m - round_53 m) \<le> m"
proof -
  define k where "k = bit_length (nat m) - 53"
  define q where "q = m div 2 ^ k"
  define r where "r = m mod 2 ^ k"
  have m: "m = q * 2 ^ k + r" unfolding q_def r_def by (rule div_mult_mod_eq [symmetric])
  have r: "0 \<le> r" "r < 2 ^ k" by (simp_all add: r_def)
  have R: "round_53 m = (if 2 * r > 2 ^ k \<or> (2 * r = 2 ^ k \<and> odd q) then q + 1 else q) * 2 ^ k"
    by (simp add: round_53_def k_def q_def r_def Let_def)
  have near: "2 * (round_53 m - m) \<le> (if k = 0 then 0 else 2 ^ k)" "2 * (m - round_53 m) \<le> (if k = 0 then 0 else 2 ^ k)"
    using r by (auto simp: R m [symmetric] algebra_simps) (auto simp: m algebra_simps)
  have "2 ^ 53 * (round_53 m - m) \<le> m \<and> 2 ^ 53 * (m - round_53 m) \<le> m"
  proof (cases "k = 0")
    case True
    then show ?thesis using near assms by auto
  next
    case False
    then have bl: "bit_length (nat m) = k + 53" by (simp add: k_def)
    then have "0 < nat m" by (cases "nat m") (auto simp: bit_length.simps)
    with bit_length_bounds [OF this] bl have "2 ^ (k + 52) \<le> nat m" by (simp add: add.commute)
    then have "2 ^ (k + 52) \<le> m" using assms by (metis nat_0_le of_nat_le_iff of_nat_numeral of_nat_power)
    then have "2 ^ 52 * 2 ^ k \<le> m" by (simp add: power_add mult.commute)
    then show ?thesis using near False by simp
  qed
  then show "2 ^ 53 * (round_53 m - m) \<le> m" "2 ^ 53 * (m - round_53 m) \<le> m" by simp_all
qed

lemma reserve_bytes_bound:
  assumes "0 \<le> n" and "n < 2 ^ 53"
  shows "\<bar>10 * reserve_bytes n - 13 * n\<bar> \<le> 24"
proof -
  let ?m = "n * 5854679515581645"
  have m: "0 \<le> ?m" using assms(1) by simp
  note e = round_53_error [OF m]
  have "reserve_bytes n = round_53 ?m div 4503599627370496"
    by (simp add: reserve_bytes_def multiplier_mantissa_def)
  then show ?thesis using e assms by simp
qed

section \<open>The ledger invariant\<close>

definition ledger_inv :: "ledger \<Rightarrow> bool" where
  "ledger_inv s \<longleftrightarrow> distinct (map fst (reservations s))
     \<and> diskReserved s + sum_list (pending s) = sum_list (map snd (reservations s))"

lemma sum_update:
  "distinct (map fst xs) \<Longrightarrow>
     sum_list (map snd (AList.update k v xs)) = sum_list (map snd xs) - (case map_of xs k of Some p \<Rightarrow> p | None \<Rightarrow> 0) + v"
  for v :: int
  by (induction xs) (auto split: option.splits simp: map_of_eq_None_iff)

lemma sum_delete:
  "distinct (map fst xs) \<Longrightarrow> map_of xs k = Some r \<Longrightarrow>
     sum_list (map snd (AList.delete k xs)) = sum_list (map snd xs) - r"
  for r :: int
proof (induction xs)
  case Nil
  then show ?case by simp
next
  case (Cons x xs)
  obtain a b where x: "x = (a, b)" by fastforce
  show ?case
  proof (cases "a = k")
    case True
    then have "AList.delete k xs = xs"
      using Cons.prems(1) by (auto simp: x intro!: delete_id)
    then show ?thesis using Cons.prems(2) True by (simp add: x)
  next
    case False
    then show ?thesis using Cons by (simp add: x)
  qed
qed

lemma sum_remove1: "d \<in> set ds \<Longrightarrow> sum_list (remove1 d ds) = sum_list ds - d" for d :: int
  by (induction ds) auto

lemma ledger_step_inv: "ledger_step s s' \<Longrightarrow> ledger_inv s \<Longrightarrow> ledger_inv s'"
proof (induction rule: ledger_step.cases)
  case (step_reserve n s job)
  then show ?case
    by (simp add: ledger_inv_def reserve_map_def reserve_delta_def Let_def sum_update distinct_update)
next
  case (step_release s job)
  then show ?case
    by (auto simp: ledger_inv_def release_map_def sum_delete distinct_delete split: option.split)
next
  case (step_add d s)
  then show ?case by (simp add: ledger_inv_def add_pending_def sum_remove1)
qed

lemma ledger_reach_inv: "ledger_reach s \<Longrightarrow> ledger_inv s"
proof (induction rule: ledger_reach.induct)
  case reach_init
  show ?case by (simp add: ledger_inv_def ledger_init_def)
next
  case (reach_step s s')
  then show ?case by (simp add: ledger_step_inv)
qed

section \<open>The climb\<close>

lemma length_abs_path: "list_all plain_elem es \<Longrightarrow> length es < length (abs_path es)"
proof (induction es)
  case Nil
  then show ?case by (simp add: abs_path_def)
next
  case (Cons e es)
  then show ?case by (cases es) (auto simp: abs_path_def plain_elem_def Suc_le_eq)
qed

lemma abs_path_special: "list_all plain_elem es \<Longrightarrow> es \<noteq> [] \<Longrightarrow> abs_path es \<noteq> [] \<and> abs_path es \<noteq> ''/'' \<and> abs_path es \<noteq> ''.''"
  by (cases es; cases "tl es") (auto simp: abs_path_def plain_elem_def slash_def)

lemma abs_path_butlast_ne:
  assumes "list_all plain_elem es" and "es \<noteq> []"
  shows "abs_path (butlast es) \<noteq> abs_path es"
proof -
  from assms obtain bs e where es: "es = bs @ [e]" "plain_elem e" by (cases es rule: rev_cases) auto
  have "length (abs_path bs) < length (abs_path (bs @ [e]))"
    using es(2) by (auto simp: abs_path_snoc plain_elem_def) (simp add: abs_path_def)
  then show ?thesis by (auto simp: es(1))
qed

lemma climb_abs:
  "list_all plain_elem es \<Longrightarrow> length es < fuel \<Longrightarrow> climb fuel (abs_path es) = List.find sweep_family (rev es)"
proof (induction es arbitrary: fuel rule: rev_induct)
  case Nil
  then show ?case by (cases fuel) (simp_all add: abs_path_def slash_def)
next
  case (snoc e es)
  then obtain f where f: "fuel = Suc f" "length es < f" by (cases fuel) auto
  have pl: "list_all plain_elem (es @ [e])" "es @ [e] \<noteq> []" using snoc.prems by simp_all
  show ?case
    using snoc.IH [OF _ f(2)] snoc.prems(1) abs_path_special [OF pl] path_base_abs [OF pl] path_dir_abs [OF pl]
      abs_path_butlast_ne [OF pl]
    by (simp add: f(1) Let_def)
qed

section \<open>Properties\<close>

text \<open>
  C34. Under every interleaving of the calls, the global counter together with the additions that are
  still to come equals the sum of the reservations in the map; when no call is in flight, the counter
  is exactly that sum, whatever was reserved twice, released twice or re-dispatched.
\<close>

theorem ledger_consistent:
  assumes "ledger_reach s"
  shows "diskReserved s + sum_list (pending s) = sum_list (map snd (reservations s))
    \<and> distinct (map fst (reservations s))"
  using ledger_reach_inv [OF assms] by (simp add: ledger_inv_def)

theorem ledger_consistent_witness:
  "diskReserved (ReserveDisk ''a'' 0 ledger_init) + sum_list (pending (ReserveDisk ''a'' 0 ledger_init))
     = sum_list (map snd (reservations (ReserveDisk ''a'' 0 ledger_init)))
   \<and> distinct (map fst (reservations (ReserveDisk ''a'' 0 ledger_init)))"
proof (rule ledger_consistent)
  have "ledger_reach (reserve_map ''a'' 0 ledger_init)"
    by (rule reach_step [OF reach_init step_reserve]) simp
  then show "ledger_reach (ReserveDisk ''a'' 0 ledger_init)"
    unfolding ReserveDisk_def
    by (rule reach_step) (rule step_add, simp add: reserve_map_def ledger_init_def Let_def)
qed

text \<open>
  \<^verbatim>\<open>ReserveDisk\<close> is idempotent on the job, and \<^verbatim>\<open>ReleaseDisk\<close> after any number of reservations of
  a job gives the counter back what it was before the first one.
\<close>

theorem reserve_release:
  assumes "ledger_inv s" and "map_of (reservations s) job = None"
  shows "diskReserved (ReserveDisk job n (ReserveDisk job m s)) = diskReserved (ReserveDisk job n s)
     \<and> diskReserved (ReleaseDisk job (ReserveDisk job n (ReserveDisk job m s))) = diskReserved s"
  using assms(2)
  by (simp add: ReserveDisk_def ReleaseDisk_def add_pending_def reserve_map_def release_map_def reserve_delta_def
      Let_def update_conv')

theorem reserve_release_witness:
  "diskReserved (ReserveDisk ''a'' 5 (ReserveDisk ''a'' 9 ledger_init)) = diskReserved (ReserveDisk ''a'' 5 ledger_init)
     \<and> diskReserved (ReleaseDisk ''a'' (ReserveDisk ''a'' 5 (ReserveDisk ''a'' 9 ledger_init))) = diskReserved ledger_init"
  by (rule reserve_release) (simp_all add: ledger_inv_def ledger_init_def)

text \<open>
  The reserve computed in floating point is 1.3 times the torrent's size to within 2.4 bytes, for
  every size below \<open>2^53\<close>.
\<close>

theorem reserve_precision:
  assumes "0 \<le> n" and "n < 2 ^ 53"
  shows "\<bar>10 * reserve_bytes n - 13 * n\<bar> \<le> 24"
  using assms by (rule reserve_bytes_bound)

theorem reserve_precision_witness: "\<bar>10 * reserve_bytes 1400000000 - 13 * 1400000000\<bar> \<le> 24"
  by (rule reserve_precision) simp_all

text \<open>
  The space offered to a new task is what is left of the budget (the free space, capped by the
  configured maximum minus the current usage) after the reservations, and 0 when they exceed it.
\<close>

theorem free_after_reservations:
  assumes "FreeDiskAfterReservations (Some free0) maxBytes t reserved = Some r"
    and "free0 < 2 ^ 63" and "reserved < 2 ^ 63"
  shows "uint r =
    (let budget = (if maxBytes > 0 then min (uint free0) (max 0 (uint maxBytes - uint (diskUsage t))) else uint free0)
     in max 0 (budget - max 0 reserved))"
proof -
  define used where "used = diskUsage t"
  define free where "free = (if maxBytes > 0 then (if maxBytes \<le> used then 0
      else if maxBytes - used < free0 then maxBytes - used else free0) else free0)"
  have u: "uint free = (if maxBytes > 0 then min (uint free0) (max 0 (uint maxBytes - uint used)) else uint free0)"
  proof (cases "maxBytes \<le> used")
    case True
    then show ?thesis by (auto simp: free_def word_le_def max_def min_def)
  next
    case False
    then have "uint (maxBytes - used) = uint maxBytes - uint used"
      by (intro uint_sub_lem [THEN iffD1]) (simp add: word_le_def)
    then show ?thesis using False by (auto simp: free_def word_le_def word_less_def max_def min_def)
  qed
  have "uint free \<le> uint free0" using u by (auto simp: min_def split: if_splits)
  then have lt: "uint free < 2 ^ 63" using assms(2) by (simp add: word_less_def)
  then have s: "sint free = uint free"
    unfolding sint_uint
    by (intro signed_take_bit_int_eq_self order_trans [OF _ uint_ge_0 [of free]]) simp_all
  have r: "r = (if reserved \<le> 0 then free else if uint free \<le> reserved then 0 else free - word_of_int reserved)"
    using assms(1) s by (auto simp: FreeDiskAfterReservations_def Let_def free_def used_def split: if_splits)
  show ?thesis
  proof (cases "reserved \<le> 0 \<or> uint free \<le> reserved")
    case True
    then show ?thesis using u r uint_ge_0 [of free] by (auto simp: Let_def used_def)
  next
    case False
    have w: "uint (word_of_int reserved :: u64) = reserved"
      using False assms(3) by (simp add: uint_word_of_int take_bit_int_eq_self)
    have "uint (free - word_of_int reserved) = uint free - reserved"
      using False w by (subst uint_sub_lem [THEN iffD1]) auto
    then show ?thesis using False u r by (auto simp: Let_def used_def)
  qed
qed

theorem free_after_reservations_witness:
  "uint (60 :: u64) =
    (let budget = (if (100 :: u64) > 0 then min (uint (500 :: u64)) (max 0 (uint (100 :: u64) - uint (diskUsage (FDir [])))) else uint (500 :: u64))
     in max 0 (budget - max 0 40))"
proof (rule free_after_reservations)
  show "FreeDiskAfterReservations (Some 500) 100 (FDir []) 40 = Some 60" by code_simp
qed simp_all

text \<open>
  What the sweep removes: only entries of the temporary directory that belong to its families;
  never the download directory or the stage directory of a known job, nor the deepest working
  directory on a job's downloaded path; and on the periodic run nothing younger than the minimum age.
\<close>

theorem sweep_safe:
  assumes "name \<in> set (sweepWithMinAge jobs minAge ext entries)" and "(jobName, Some job) \<in> set jobs"
  shows "sweep_matches ext name \<and> (\<exists>age. (name, age) \<in> set entries \<and> (minAge \<le> 0 \<or> (\<exists>a. age = Some a \<and> minAge \<le> a)))
     \<and> (jobName \<noteq> [] \<longrightarrow> name \<noteq> dl_name jobName)
     \<and> (StagePath job \<noteq> [] \<longrightarrow> name \<noteq> path_base (StagePath job))
     \<and> (DownloadedPath job = abs_path es \<and> list_all plain_elem es \<longrightarrow> List.find sweep_family (rev es) \<noteq> Some name)"
proof -
  from assms(1) obtain age where age: "(name, age) \<in> set entries" "sweep_matches ext name"
    "name \<notin> set (concat (map keep_names jobs))"
    "0 < minAge \<longrightarrow> (case age of None \<Rightarrow> False | Some a \<Rightarrow> \<not> a < minAge)"
    by (auto simp: sweepWithMinAge_def Let_def)
  have keep: "name \<notin> set (keep_names (jobName, Some job))" using age(3) assms(2) by auto
  have "List.find sweep_family (rev es) \<noteq> Some name" if "DownloadedPath job = abs_path es" "list_all plain_elem es"
  proof
    assume f: "List.find sweep_family (rev es) = Some name"
    have "climb (Suc (length (abs_path es))) (abs_path es) = List.find sweep_family (rev es)"
      using length_abs_path [OF that(2)] by (intro climb_abs [OF that(2)]) simp
    moreover have "abs_path es \<noteq> []" by (simp add: abs_path_def)
    ultimately have "name \<in> set (keep_names (jobName, Some job))"
      by (simp add: keep_names_def keep_path_def that(1) f del: climb.simps)
    with keep show False by blast
  qed
  moreover have "minAge \<le> 0 \<or> (\<exists>a. age = Some a \<and> minAge \<le> a)"
    using age(4) by (cases age) auto
  moreover have "jobName \<noteq> [] \<longrightarrow> name \<noteq> dl_name jobName" "StagePath job \<noteq> [] \<longrightarrow> name \<noteq> path_base (StagePath job)"
    using keep by (auto simp: keep_names_def keep_dl_def keep_stage_def)
  ultimately show ?thesis using age(1,2) by blast
qed

theorem sweep_safe_witness:
  "sweep_matches False ''dl-old'' \<and> ''dl-old'' \<noteq> dl_name ''request-7''"
proof -
  let ?job = "(new_job ''request-7'')\<lparr>DownloadedPath := abs_path [''tmp'', ''dl-request-7'', ''x.mkv'']\<rparr>"
  have "''dl-old'' \<in> set (sweepWithMinAge [(''request-7'', Some ?job)] 1800 False [(''dl-request-7'', Some 9000), (''dl-old'', Some 9000)])"
    by code_simp
  from sweep_safe [OF this, of "''request-7''" ?job] show ?thesis by simp
qed

end
