(* ===== verification/AppState.thy ===== *)
theory AppState
  imports Disk
begin

text \<open>
  The state of the running jobs (\<^verbatim>\<open>storage/storage.go\<close>) and its file. The map of jobs is an
  association list with distinct keys; a value \<open>None\<close> is a nil pointer and a map \<open>None\<close> the nil map,
  which only \<^verbatim>\<open>LoadState\<close> can bring in. An operation returns \<open>None\<close> where the code panics.
  The operations by themselves save to a file that is the document it holds (\<open>state_file\<close>).
  \<^verbatim>\<open>SaveState\<close> takes its snapshot and writes it outside the lock of the operation that called it, and
  \<^verbatim>\<open>os.WriteFile\<close> truncates the file and then writes it: \<open>app_step\<close> is the interleaving of the operations
  of several goroutines with the snapshot, the opening, the writing and the closing of each save, and
  with crashes and restarts at any point. There the file is its bytes.
\<close>

section \<open>Operations\<close>

type_synonym jobs_map = "(string \<times> jobState option) list"

datatype state_file = NoFile | BadFile | Doc "jobs_map option"

record appState =
  Jobs :: "jobs_map option"
  StateFile :: state_file

definition entries_of :: "jobs_map option \<Rightarrow> jobs_map" where
  "entries_of m = (case m of None \<Rightarrow> [] | Some js \<Rightarrow> js)"

text \<open>\<^verbatim>\<open>json.MarshalIndent\<close> fails when a number is infinite or not a number.\<close>

definition finite_f64 :: "u64 \<Rightarrow> bool" where
  "finite_f64 x \<longleftrightarrow> x AND 0x7FF0000000000000 \<noteq> 0x7FF0000000000000"

definition marshals :: "jobs_map option \<Rightarrow> bool" where
  "marshals m \<longleftrightarrow> list_all (\<lambda>(k, j). case j of None \<Rightarrow> True | Some job \<Rightarrow> finite_f64 (Progress job)) (entries_of m)"

text \<open>\<open>has_path\<close> is whether a state file is configured.\<close>

definition SaveState :: "bool \<Rightarrow> appState \<Rightarrow> appState" where
  "SaveState has_path s = (if has_path \<and> marshals (Jobs s) then s\<lparr>StateFile := Doc (Jobs s)\<rparr> else s)"

definition LoadState :: "bool \<Rightarrow> appState \<Rightarrow> appState" where
  "LoadState has_path s =
     (if \<not> has_path then s
      else (case StateFile s of Doc js \<Rightarrow> s\<lparr>Jobs := js\<rparr> | NoFile \<Rightarrow> s | BadFile \<Rightarrow> s))"

text \<open>A write through the pointer of a job that may be absent.\<close>

definition on_job :: "string \<Rightarrow> (jobState \<Rightarrow> jobState) \<Rightarrow> jobs_map option \<Rightarrow> jobs_map option option" where
  "on_job name f m =
     (case map_of (entries_of m) name of
        None \<Rightarrow> Some m
      | Some None \<Rightarrow> None
      | Some (Some job) \<Rightarrow> Some (Some (AList.update name (Some (f job)) (entries_of m))))"

definition set_meta :: "string \<Rightarrow> string \<Rightarrow> string \<Rightarrow> jobState \<Rightarrow> jobState" where
  "set_meta path password zipName job =
     (let j1 = (if path \<noteq> [] then job\<lparr>DownloadedPath := path\<rparr> else job);
          j2 = (if password \<noteq> [] then j1\<lparr>Password := password\<rparr> else j1)
      in if zipName \<noteq> [] then j2\<lparr>ZipName := zipName\<rparr> else j2)"

definition set_progress :: "string \<Rightarrow> string \<Rightarrow> u64 \<Rightarrow> string \<Rightarrow> jobState \<Rightarrow> jobState" where
  "set_progress phase details progress now job =
     job\<lparr>Phase := phase, Details := details, Progress := progress, UpdatedAt := now\<rparr>"

text \<open>What the operations do under the lock. \<^verbatim>\<open>UpdateJobMeta\<close> with three empty arguments does not
  touch the entry.\<close>

datatype app_op =
  OpMeta string string string string
| OpTitle string string
| OpStage string string
| OpUpdate string string string u64 string
| OpRemove string

fun op_locked :: "app_op \<Rightarrow> jobs_map option \<Rightarrow> jobs_map option option" where
  "op_locked (OpMeta name path password zipName) m =
     (if path = [] \<and> password = [] \<and> zipName = [] then Some m else on_job name (set_meta path password zipName) m)"
| "op_locked (OpTitle name title) m = on_job name (\<lambda>job. job\<lparr>Title := title\<rparr>) m"
| "op_locked (OpStage name stagePath) m = on_job name (\<lambda>job. job\<lparr>StagePath := stagePath\<rparr>) m"
| "op_locked (OpUpdate name phase details progress now) m =
     (case m of
        None \<Rightarrow> None
      | Some js \<Rightarrow>
         on_job name (set_progress phase details progress now)
           (Some (if map_of js name = None then AList.update name (Some (new_job name)) js else js)))"
| "op_locked (OpRemove name) m = Some (case m of None \<Rightarrow> None | Some js \<Rightarrow> Some (AList.delete name js))"

text \<open>The early returns of the operations.\<close>

fun op_guard :: "app_op \<Rightarrow> bool" where
  "op_guard (OpMeta name path password zipName) = True"
| "op_guard (OpTitle name title) = (name \<noteq> [] \<and> title \<noteq> [])"
| "op_guard (OpStage name stagePath) = True"
| "op_guard (OpUpdate name phase details progress now) = True"
| "op_guard (OpRemove name) = (name \<noteq> [])"

definition run_op :: "bool \<Rightarrow> app_op \<Rightarrow> appState \<Rightarrow> appState option" where
  "run_op has_path c s =
     (if \<not> op_guard c then Some s
      else case op_locked c (Jobs s) of None \<Rightarrow> None | Some m \<Rightarrow> Some (SaveState has_path (s\<lparr>Jobs := m\<rparr>)))"

definition UpdateJobMeta :: "bool \<Rightarrow> string \<Rightarrow> string \<Rightarrow> string \<Rightarrow> string \<Rightarrow> appState \<Rightarrow> appState option" where
  "UpdateJobMeta has_path name path password zipName = run_op has_path (OpMeta name path password zipName)"

definition SetJobTitle :: "bool \<Rightarrow> string \<Rightarrow> string \<Rightarrow> appState \<Rightarrow> appState option" where
  "SetJobTitle has_path name title = run_op has_path (OpTitle name title)"

definition SetJobStagePath :: "bool \<Rightarrow> string \<Rightarrow> string \<Rightarrow> appState \<Rightarrow> appState option" where
  "SetJobStagePath has_path name stagePath = run_op has_path (OpStage name stagePath)"

definition UpdateState :: "bool \<Rightarrow> string \<Rightarrow> string \<Rightarrow> string \<Rightarrow> u64 \<Rightarrow> string \<Rightarrow> appState \<Rightarrow> appState option" where
  "UpdateState has_path name phase details progress now = run_op has_path (OpUpdate name phase details progress now)"

definition RemoveJob :: "bool \<Rightarrow> string \<Rightarrow> appState \<Rightarrow> appState option" where
  "RemoveJob has_path name = run_op has_path (OpRemove name)"

section \<open>Concurrent saves\<close>

text \<open>\<open>to_marshal\<close> counts the operations that have left the lock and not taken their snapshot,
  \<open>marshalled\<close> holds the snapshots whose file is not yet opened, \<open>writing\<close> the document and the offset of
  every open file, \<open>past\<close> every map there has been. \<open>enc\<close> and \<open>dec\<close> are the JSON encoder and decoder. A
  write may be short and may be the last one of its file: an error of \<^verbatim>\<open>os.WriteFile\<close> is ignored.\<close>

record app_run =
  mem :: "jobs_map option"
  to_marshal :: nat
  marshalled :: "jobs_map option list"
  writing :: "(bytes \<times> nat) list"
  disk_file :: "bytes option"
  past :: "jobs_map option list"

definition app_init :: app_run where
  "app_init = \<lparr>mem = Some [], to_marshal = 0, marshalled = [], writing = [], disk_file = None, past = [Some []]\<rparr>"

text \<open>Writing \<open>d\<close> at an offset; a hole is filled with zeros.\<close>

definition put_bytes :: "nat \<Rightarrow> bytes \<Rightarrow> bytes \<Rightarrow> bytes" where
  "put_bytes off d f = take off (f @ replicate (off - length f) 0) @ d @ drop (off + length d) f"

definition read_state :: "(bytes \<Rightarrow> jobs_map option option) \<Rightarrow> bytes option \<Rightarrow> jobs_map option" where
  "read_state dec file = (case Option.bind file dec of Some m \<Rightarrow> m | None \<Rightarrow> Some [])"

inductive app_step ::
  "(jobs_map option \<Rightarrow> bytes) \<Rightarrow> (bytes \<Rightarrow> jobs_map option option) \<Rightarrow> app_run \<Rightarrow> app_run \<Rightarrow> bool"
  for enc :: "jobs_map option \<Rightarrow> bytes" and dec :: "bytes \<Rightarrow> jobs_map option option" where
  app_op: "op_guard c \<Longrightarrow> op_locked c (mem s) = Some m
     \<Longrightarrow> app_step enc dec s (s\<lparr>mem := m, to_marshal := Suc (to_marshal s), past := m # past s\<rparr>)"
| app_marshal: "to_marshal s = Suc n
     \<Longrightarrow> app_step enc dec s (s\<lparr>to_marshal := n, marshalled := (if marshals (mem s) then mem s # marshalled s else marshalled s)\<rparr>)"
| app_open: "m \<in> set (marshalled s)
     \<Longrightarrow> app_step enc dec s (s\<lparr>marshalled := remove1 m (marshalled s), writing := (enc m, 0) # writing s, disk_file := Some []\<rparr>)"
| app_write: "(d, off) \<in> set (writing s) \<Longrightarrow> off \<le> n \<Longrightarrow> n \<le> length d \<Longrightarrow> disk_file s = Some f
     \<Longrightarrow> app_step enc dec s (s\<lparr>writing := (d, n) # remove1 (d, off) (writing s),
           disk_file := Some (put_bytes off (take (n - off) (drop off d)) f)\<rparr>)"
| app_close: "x \<in> set (writing s) \<Longrightarrow> app_step enc dec s (s\<lparr>writing := remove1 x (writing s)\<rparr>)"
| app_restart: "app_step enc dec s (s\<lparr>mem := read_state dec (disk_file s), to_marshal := 0, marshalled := [], writing := []\<rparr>)"

inductive app_reach ::
  "(jobs_map option \<Rightarrow> bytes) \<Rightarrow> (bytes \<Rightarrow> jobs_map option option) \<Rightarrow> app_run \<Rightarrow> bool"
  for enc :: "jobs_map option \<Rightarrow> bytes" and dec :: "bytes \<Rightarrow> jobs_map option option" where
  app_reach_init: "app_reach enc dec app_init"
| app_reach_step: "app_reach enc dec s \<Longrightarrow> app_step enc dec s s' \<Longrightarrow> app_reach enc dec s'"

text \<open>The runs in which no save opens the file while another has it open.\<close>

inductive app_calm ::
  "(jobs_map option \<Rightarrow> bytes) \<Rightarrow> (bytes \<Rightarrow> jobs_map option option) \<Rightarrow> app_run \<Rightarrow> bool"
  for enc :: "jobs_map option \<Rightarrow> bytes" and dec :: "bytes \<Rightarrow> jobs_map option option" where
  app_calm_init: "app_calm enc dec app_init"
| app_calm_step: "app_calm enc dec s \<Longrightarrow> app_step enc dec s s' \<Longrightarrow> length (writing s') \<le> 1 \<Longrightarrow> app_calm enc dec s'"

text \<open>A document decodes to its map, and the beginning of a document is not a document.\<close>

definition json_ok ::
  "(jobs_map option \<Rightarrow> bytes) \<Rightarrow> (bytes \<Rightarrow> jobs_map option option) \<Rightarrow> jobs_map option set \<Rightarrow> bool" where
  "json_ok enc dec ms \<longleftrightarrow>
     (\<forall>m \<in> ms. dec (enc m) = Some m \<and> (\<forall>k < length (enc m). dec (take k (enc m)) = None))"

section \<open>The map\<close>

text \<open>Every entry is a job with the name of its key, and no key occurs twice.\<close>

definition named :: "string \<times> jobState option \<Rightarrow> bool" where
  "named e \<longleftrightarrow> (case snd e of None \<Rightarrow> False | Some job \<Rightarrow> Name job = fst e)"

definition jobmap_ok :: "jobs_map option \<Rightarrow> bool" where
  "jobmap_ok m \<longleftrightarrow> (case m of None \<Rightarrow> False | Some js \<Rightarrow> distinct (map fst js) \<and> list_all named js)"

lemma jobmap_ok_Some [simp]: "jobmap_ok (Some js) \<longleftrightarrow> distinct (map fst js) \<and> list_all named js"
  by (simp add: jobmap_ok_def)

lemma jobmap_okE:
  assumes "jobmap_ok m"
  obtains js where "m = Some js" and "distinct (map fst js)" and "list_all named js"
  using assms by (cases m) (simp_all add: jobmap_ok_def)

lemma named_update: "list_all named js \<Longrightarrow> Name job = k \<Longrightarrow> list_all named (AList.update k (Some job) js)"
  by (induction js) (auto simp: named_def)

lemma named_delete: "list_all named js \<Longrightarrow> list_all named (AList.delete k js)"
  by (induction js) auto

lemma named_lookup: "list_all named js \<Longrightarrow> map_of js k = Some e \<Longrightarrow> \<exists>job. e = Some job \<and> Name job = k"
  by (induction js) (auto simp: named_def split: if_splits option.splits)

text \<open>On a well-formed map an operation on a job is an update of its entry, never a panic.\<close>

definition keeps_name :: "(jobState \<Rightarrow> jobState) \<Rightarrow> bool" where
  "keeps_name f \<longleftrightarrow> (\<forall>job. Name (f job) = Name job)"

lemma on_job_ok:
  assumes "jobmap_ok m" and "keeps_name f"
  obtains m' where "on_job name f m = Some m'" and "jobmap_ok m'"
proof -
  from assms(1) obtain js where js: "m = Some js" "distinct (map fst js)" "list_all named js" by (rule jobmap_okE)
  show thesis
  proof (cases "map_of js name")
    case None
    then show thesis using that js by (simp add: on_job_def entries_of_def)
  next
    case (Some e)
    with js(3) obtain job where "e = Some job" "Name job = name" using named_lookup by blast
    then show thesis
      using that js Some assms(2) by (simp add: on_job_def entries_of_def keeps_name_def named_update distinct_update)
  qed
qed

lemma op_locked_ok:
  assumes "jobmap_ok m"
  obtains m' where "op_locked c m = Some m'" and "jobmap_ok m'"
proof (cases c)
  case (OpMeta name path password zipName)
  have "keeps_name (set_meta path password zipName)" by (simp add: keeps_name_def set_meta_def Let_def)
  with assms obtain m' where m': "on_job name (set_meta path password zipName) m = Some m'" "jobmap_ok m'"
    by (rule on_job_ok)
  show thesis
  proof (cases "path = [] \<and> password = [] \<and> zipName = []")
    case True
    show thesis using that [of m] OpMeta True assms by simp
  next
    case False
    have "op_locked c m = Some m'" unfolding OpMeta op_locked.simps using False m'(1) by (simp only: if_False)
    then show thesis using m'(2) by (rule that)
  qed
next
  case (OpTitle name title)
  have "keeps_name (\<lambda>job. job\<lparr>Title := title\<rparr>)" by (simp add: keeps_name_def)
  with assms obtain m' where "on_job name (\<lambda>job. job\<lparr>Title := title\<rparr>) m = Some m'" "jobmap_ok m'" by (rule on_job_ok)
  then show thesis using that [of m'] OpTitle by simp
next
  case (OpStage name stagePath)
  have "keeps_name (\<lambda>job. job\<lparr>StagePath := stagePath\<rparr>)" by (simp add: keeps_name_def)
  with assms obtain m' where "on_job name (\<lambda>job. job\<lparr>StagePath := stagePath\<rparr>) m = Some m'" "jobmap_ok m'" by (rule on_job_ok)
  then show thesis using that [of m'] OpStage by simp
next
  case (OpUpdate name phase details progress now)
  from assms obtain js where js: "m = Some js" "distinct (map fst js)" "list_all named js" by (rule jobmap_okE)
  let ?js = "if map_of js name = None then AList.update name (Some (new_job name)) js else js"
  have "jobmap_ok (Some ?js)" using js by (simp add: named_update distinct_update new_job_def)
  moreover have "keeps_name (set_progress phase details progress now)" by (simp add: keeps_name_def set_progress_def)
  ultimately obtain m' where "on_job name (set_progress phase details progress now) (Some ?js) = Some m'" "jobmap_ok m'"
    by (rule on_job_ok)
  then show thesis using OpUpdate js(1) that by simp
next
  case (OpRemove name)
  from assms obtain js where js: "m = Some js" "distinct (map fst js)" "list_all named js" by (rule jobmap_okE)
  then show thesis using OpRemove that by (simp add: named_delete distinct_delete)
qed

text \<open>The file is the beginning of the document of a map there once was; while it is being written, up to
  the offset.\<close>

definition file_inv :: "(jobs_map option \<Rightarrow> bytes) \<Rightarrow> app_run \<Rightarrow> bool" where
  "file_inv enc s \<longleftrightarrow>
     (case writing s of
        [] \<Rightarrow> disk_file s = None \<or> (\<exists>m \<in> set (past s). \<exists>k. disk_file s = Some (take k (enc m)))
      | [(d, off)] \<Rightarrow> off \<le> length d \<and> (\<exists>m \<in> set (past s). d = enc m) \<and> disk_file s = Some (take off d)
      | _ \<Rightarrow> False)"

definition app_inv :: "(jobs_map option \<Rightarrow> bytes) \<Rightarrow> app_run \<Rightarrow> bool" where
  "app_inv enc s \<longleftrightarrow> jobmap_ok (mem s) \<and> mem s \<in> set (past s) \<and> Some [] \<in> set (past s) \<and> set (marshalled s) \<subseteq> set (past s)
     \<and> (\<forall>m \<in> set (past s). jobmap_ok m) \<and> file_inv enc s"

lemma put_bytes_append: "length f = off \<Longrightarrow> put_bytes off d f = f @ d"
  by (simp add: put_bytes_def)

lemma take_more: "off \<le> n \<Longrightarrow> take off d @ take (n - off) (drop off d) = take n d"
  by (metis le_add_diff_inverse take_add)

lemma file_inv_begun: "file_inv enc s \<Longrightarrow> disk_file s = None \<or> (\<exists>m \<in> set (past s). \<exists>k. disk_file s = Some (take k (enc m)))"
  unfolding file_inv_def by (cases "writing s"; cases "tl (writing s)") (auto split: prod.splits)

lemma read_begun:
  assumes "json_ok enc dec (set (past s))" and "file_inv enc s" and "Some [] \<in> set (past s)"
  shows "read_state dec (disk_file s) \<in> set (past s)"
proof -
  from file_inv_begun [OF assms(2)] consider "disk_file s = None"
    | m k where "m \<in> set (past s)" "disk_file s = Some (take k (enc m))" by (elim disjE bexE exE)
  then show ?thesis
  proof cases
    case 1
    then show ?thesis using assms(3) by (simp add: read_state_def)
  next
    case 2
    then have "dec (take k (enc m)) = (if k < length (enc m) then None else Some m)"
      using assms(1) by (simp add: json_ok_def)
    then show ?thesis using 2 assms(3) by (simp add: read_state_def)
  qed
qed

lemma app_step_past: "app_step enc dec s s' \<Longrightarrow> set (past s) \<subseteq> set (past s')"
  by (induction rule: app_step.induct) auto

lemma file_inv_mono:
  "file_inv enc s \<Longrightarrow> writing s' = writing s \<Longrightarrow> disk_file s' = disk_file s \<Longrightarrow> set (past s) \<subseteq> set (past s')
   \<Longrightarrow> file_inv enc s'"
  unfolding file_inv_def by (cases "writing s"; cases "tl (writing s)") (auto split: prod.splits)

lemma file_inv_one: "file_inv enc s \<Longrightarrow> x \<in> set (writing s) \<Longrightarrow> writing s = [x]"
  unfolding file_inv_def by (cases "writing s"; cases "tl (writing s)") (auto split: prod.splits)

lemma app_step_inv:
  assumes "app_step enc dec s s'" and "app_inv enc s" and "json_ok enc dec (set (past s))" and "length (writing s') \<le> 1"
  shows "app_inv enc s'"
  using assms(1)
proof (cases rule: app_step.cases)
  case (app_op c m)
  from assms(2) have "jobmap_ok (mem s)" by (simp add: app_inv_def)
  then obtain m' where "op_locked c (mem s) = Some m'" "jobmap_ok m'" by (rule op_locked_ok)
  moreover have "file_inv enc s'" by (rule file_inv_mono [of enc s]) (use assms(2) app_op in \<open>auto simp: app_inv_def\<close>)
  ultimately show ?thesis using assms(2) app_op by (auto simp: app_inv_def)
next
  case (app_marshal n)
  moreover have "file_inv enc s'" by (rule file_inv_mono [of enc s]) (use assms(2) app_marshal in \<open>auto simp: app_inv_def\<close>)
  ultimately show ?thesis using assms(2) by (auto simp: app_inv_def)
next
  case (app_open m)
  then have "writing s = []" using assms(4) by simp
  then show ?thesis using app_open assms(2) set_remove1_subset [of m "marshalled s"]
    by (auto simp: app_inv_def file_inv_def)
next
  case (app_write d off n f)
  have "writing s = [(d, off)]"
    using app_write(2) assms(2) file_inv_one unfolding app_inv_def by blast
  then show ?thesis using app_write assms(2)
    by (auto simp: app_inv_def file_inv_def put_bytes_append take_more)
next
  case (app_close x)
  have "writing s = [x]" using app_close(2) assms(2) file_inv_one unfolding app_inv_def by blast
  then show ?thesis using app_close assms(2) by (auto simp: app_inv_def file_inv_def split: prod.splits)
next
  case app_restart
  from assms(2) have i: "file_inv enc s" "Some [] \<in> set (past s)" "\<forall>m \<in> set (past s). jobmap_ok m" by (simp_all add: app_inv_def)
  note r = read_begun [OF assms(3) i(1,2)]
  have "file_inv enc s'" using file_inv_begun [OF i(1)] by (simp add: app_restart file_inv_def)
  then show ?thesis using r i by (simp add: app_restart app_inv_def)
qed

lemma app_calm_inv: "app_calm enc dec s \<Longrightarrow> json_ok enc dec (set (past s)) \<Longrightarrow> app_inv enc s"
proof (induction rule: app_calm.induct)
  case app_calm_init
  show ?case by (simp add: app_inv_def file_inv_def app_init_def)
next
  case (app_calm_step s s')
  then have "json_ok enc dec (set (past s))" using app_step_past [OF app_calm_step.hyps(2)] by (auto simp: json_ok_def)
  with app_calm_step show ?case using app_step_inv by blast
qed

lemma app_calm_ok: "app_calm enc dec s \<Longrightarrow> json_ok enc dec (set (past s)) \<Longrightarrow> jobmap_ok (mem s)"
  using app_calm_inv [of enc dec s] by (simp add: app_inv_def)

section \<open>The end of a task\<close>

text \<open>The removal of the job and the sweep that follows it (\<^verbatim>\<open>cmd/agent/main.go\<close>): the new map and
  the entries of the temporary directory that go.\<close>

definition end_of_task :: "string \<Rightarrow> (string \<times> int option) list \<Rightarrow> jobs_map option \<Rightarrow> (jobs_map option \<times> string list) option" where
  "end_of_task jobName entries m =
     (case op_locked (OpRemove jobName) m of
        None \<Rightarrow> None
      | Some m' \<Rightarrow> Some (m', SweepOrphanDownloads (entries_of m') entries))"

text \<open>What a job keeps: its download directory, its stage directory, the deepest working directory
  on its downloaded path.\<close>

definition keeps_dir :: "string \<times> jobState option \<Rightarrow> string \<Rightarrow> bool" where
  "keeps_dir e name \<longleftrightarrow> (case snd e of
     None \<Rightarrow> False
   | Some job \<Rightarrow> (fst e \<noteq> [] \<and> name = dl_name (fst e))
        \<or> (StagePath job \<noteq> [] \<and> name = path_base (StagePath job))
        \<or> (DownloadedPath job \<noteq> [] \<and> climb (Suc (length (DownloadedPath job))) (DownloadedPath job) = Some name))"

lemma keep_names_named:
  assumes "named e"
  shows "name \<in> set (keep_names e) \<longleftrightarrow> keeps_dir e name"
proof -
  from assms obtain k job where e: "e = (k, Some job)" "Name job = k"
    by (cases e; cases "snd e") (auto simp: named_def)
  have "name \<in> set (case c of Some b \<Rightarrow> [b] | None \<Rightarrow> []) \<longleftrightarrow> c = Some name" for c by (cases c) auto
  then have "name \<in> set (keep_path job) \<longleftrightarrow>
      DownloadedPath job \<noteq> [] \<and> climb (Suc (length (DownloadedPath job))) (DownloadedPath job) = Some name"
    unfolding keep_path_def by (cases "DownloadedPath job = []") (simp_all only: if_True if_False not_False_eq_True list.set empty_iff simp_thms)
  moreover have "name \<in> set (keep_stage job) \<longleftrightarrow> StagePath job \<noteq> [] \<and> name = path_base (StagePath job)"
    by (auto simp: keep_stage_def)
  moreover have "name \<in> set (keep_dl k job) \<longleftrightarrow> k \<noteq> [] \<and> name = dl_name k"
    by (auto simp: keep_dl_def e(2))
  ultimately show ?thesis by (auto simp: e(1) keep_names_def keeps_dir_def simp del: climb.simps)
qed

lemma keeps_none: "list_all named js \<Longrightarrow> (name \<notin> set (concat (map keep_names js))) = (\<not> (\<exists>e \<in> set js. keeps_dir e name))"
  using keep_names_named by (auto simp: list_all_iff)

lemma sweep_named:
  "list_all named js \<Longrightarrow> name \<in> set (SweepOrphanDownloads js entries)
     \<longleftrightarrow> name \<in> fst ` set entries \<and> sweep_matches False name \<and> \<not> (\<exists>e \<in> set js. keeps_dir e name)"
  unfolding SweepOrphanDownloads_def sweepWithMinAge_def Let_def
  using keeps_none [of js name] by (force simp: image_iff)

lemma delete_entries: "set (AList.delete k js) = {e \<in> set js. fst e \<noteq> k}"
  by (induction js) auto

section \<open>A published stage directory\<close>

fun run_ops :: "app_op list \<Rightarrow> jobs_map option \<Rightarrow> jobs_map option option" where
  "run_ops [] m = Some m"
| "run_ops (c # cs) m = (case op_locked c m of None \<Rightarrow> None | Some m' \<Rightarrow> run_ops cs m')"

fun unpublishes :: "string \<Rightarrow> app_op \<Rightarrow> bool" where
  "unpublishes n (OpStage name p) = (name = n)"
| "unpublishes n (OpRemove name) = (name = n)"
| "unpublishes n c = False"

definition staged_at :: "string \<Rightarrow> string \<Rightarrow> jobs_map option \<Rightarrow> bool" where
  "staged_at n p m \<longleftrightarrow> (\<exists>job. map_of (entries_of m) n = Some (Some job) \<and> StagePath job = p)"

lemma on_job_staged:
  assumes "on_job name f m = Some m'" and "staged_at n p m"
    and "\<And>job. name = n \<Longrightarrow> StagePath (f job) = StagePath job"
  shows "staged_at n p m'"
  using assms by (auto simp: on_job_def staged_at_def entries_of_def update_conv' split: option.splits)

lemma op_locked_staged:
  assumes "op_locked c m = Some m'" and "staged_at n p m" and "\<not> unpublishes n c"
  shows "staged_at n p m'"
proof (cases c)
  case (OpMeta name path password zipName)
  have "StagePath (set_meta path password zipName job) = StagePath job" for job by (simp add: set_meta_def Let_def)
  moreover have "m' = m \<or> on_job name (set_meta path password zipName) m = Some m'"
    using assms(1) unfolding OpMeta op_locked.simps
    by (cases "path = [] \<and> password = [] \<and> zipName = []") (simp_all only: if_True if_False option.inject simp_thms)
  ultimately show ?thesis using assms(2) on_job_staged by blast
next
  case (OpTitle name title)
  with assms(1) have "on_job name (\<lambda>job. job\<lparr>Title := title\<rparr>) m = Some m'" by simp
  from on_job_staged [OF this assms(2)] show ?thesis by simp
next
  case (OpStage name path)
  with assms(1) have "on_job name (\<lambda>job. job\<lparr>StagePath := path\<rparr>) m = Some m'" by simp
  from on_job_staged [OF this assms(2)] show ?thesis using assms(3) OpStage by simp
next
  case (OpUpdate name phase details progress now)
  obtain js where js: "m = Some js" using assms(2) by (cases m) (auto simp: staged_at_def entries_of_def)
  let ?js = "if map_of js name = None then AList.update name (Some (new_job name)) js else js"
  have "staged_at n p (Some ?js)"
    using assms(2) by (auto simp: js staged_at_def entries_of_def update_conv')
  moreover have "StagePath (set_progress phase details progress now job) = StagePath job" for job
    by (simp add: set_progress_def)
  moreover have "on_job name (set_progress phase details progress now) (Some ?js) = Some m'"
    using assms(1) OpUpdate js by simp
  ultimately show ?thesis using on_job_staged by blast
next
  case (OpRemove name)
  then show ?thesis using assms
    by (auto simp: staged_at_def entries_of_def delete_conv' split: option.splits)
qed

lemma run_ops_staged:
  "run_ops cs m = Some m' \<Longrightarrow> staged_at n p m \<Longrightarrow> list_all (\<lambda>c. \<not> unpublishes n c) cs \<Longrightarrow> staged_at n p m'"
  by (induction cs arbitrary: m) (auto split: option.splits dest: op_locked_staged)

lemma staged_kept: "staged_at n p m \<Longrightarrow> p \<noteq> [] \<Longrightarrow> path_base p \<notin> set (sweepWithMinAge (entries_of m) minAge ext entries)"
  by (force simp: staged_at_def sweepWithMinAge_def Let_def keep_names_def keep_stage_def dest: map_of_SomeD)

section \<open>Properties\<close>

text \<open>
  C32. In every interleaving of operations, saves, crashes and restarts in which no two saves have the
  state file open at once, the map of jobs holds one entry per job under the job's own name, no
  operation panics on it, and the state file is absent or the beginning of the document of a map
  that the program once had in memory: the whole document, or a part that was cut off or is still
  being written. A restart at any point has a map there once was.
\<close>

theorem app_state_ok:
  assumes "app_calm enc dec s" and "json_ok enc dec (set (past s))"
  shows "jobmap_ok (mem s) \<and> (\<exists>m'. op_locked c (mem s) = Some m' \<and> jobmap_ok m')
     \<and> (\<forall>m \<in> set (past s). jobmap_ok m)
     \<and> (disk_file s = None \<or> (\<exists>m \<in> set (past s). \<exists>k. disk_file s = Some (take k (enc m))))
     \<and> read_state dec (disk_file s) \<in> set (past s)"
proof -
  note inv = app_calm_inv [OF assms]
  then obtain m' where "op_locked c (mem s) = Some m'" "jobmap_ok m'"
    using op_locked_ok [of "mem s" c] by (auto simp: app_inv_def)
  moreover have "read_state dec (disk_file s) \<in> set (past s)"
    using read_begun [OF assms(2)] inv by (simp add: app_inv_def)
  ultimately show ?thesis using inv file_inv_begun by (auto simp: app_inv_def)
qed

text \<open>A run that crashes in the middle of its second save.\<close>

definition demo_map :: "jobs_map option" where
  "demo_map = Some [(''request-7'', Some (set_progress ''claimed'' [] 0 ''12:00:00'' (new_job ''request-7'')))]"

definition demo_enc :: "jobs_map option \<Rightarrow> bytes" where
  "demo_enc m = replicate (length (entries_of m)) 44 @ [123, 125]"

definition demo_dec :: "bytes \<Rightarrow> jobs_map option option" where
  "demo_dec b = (if b = demo_enc (Some []) then Some (Some []) else if b = demo_enc demo_map then Some demo_map else None)"

definition demo_crash :: app_run where
  "demo_crash = \<lparr>mem = Some [], to_marshal = 0, marshalled = [], writing = [], disk_file = Some [123],
     past = [Some [], demo_map, Some []]\<rparr>"

lemma demo_json: "json_ok demo_enc demo_dec (set (past demo_crash))"
proof -
  have "take k (demo_enc (Some [])) \<noteq> demo_enc demo_map" "k < 2 \<Longrightarrow> take k (demo_enc (Some [])) \<noteq> demo_enc (Some [])"
    "k < 3 \<Longrightarrow> take k (demo_enc demo_map) \<noteq> demo_enc demo_map" "take k (demo_enc demo_map) \<noteq> demo_enc (Some [])"
    "demo_enc (Some []) \<noteq> demo_enc demo_map" for k
    by (cases k; cases "k - 1"; simp add: demo_enc_def demo_map_def entries_of_def)+
  then show ?thesis by (auto simp: json_ok_def demo_crash_def demo_dec_def)
qed

lemma op_demo_map: "op_locked (OpUpdate ''request-7'' ''claimed'' [] 0 ''12:00:00'') (Some []) = Some demo_map"
  by (simp add: demo_map_def on_job_def entries_of_def)

lemma marshals_demo: "marshals demo_map" "marshals (Some [])"
  by (simp_all add: marshals_def demo_map_def entries_of_def set_progress_def finite_f64_def)

lemma demo_crash_calm: "app_calm demo_enc demo_dec demo_crash"
proof -
  let ?u = "OpUpdate ''request-7'' ''claimed'' [] 0 ''12:00:00''"
  note step = app_calm_step [of demo_enc demo_dec]
  have 1: "app_calm demo_enc demo_dec (app_init\<lparr>mem := demo_map, to_marshal := 1, past := [demo_map, Some []]\<rparr>)"
    using step [OF app_calm_init app_op [of ?u app_init demo_map]] op_demo_map by (simp add: app_init_def)
  have 2: "app_calm demo_enc demo_dec (app_init\<lparr>to_marshal := 2, past := [Some [], demo_map, Some []]\<rparr>)"
    using step [OF 1 app_op [of "OpRemove ''request-7''" _ "Some []"]] by (simp add: app_init_def demo_map_def numeral_2_eq_2)
  have 3: "app_calm demo_enc demo_dec (app_init\<lparr>to_marshal := 1, marshalled := [Some []], past := [Some [], demo_map, Some []]\<rparr>)"
    using step [OF 2 app_marshal [of _ 1]] marshals_demo by (simp add: app_init_def)
  have 4: "app_calm demo_enc demo_dec (app_init\<lparr>to_marshal := 1, writing := [(demo_enc (Some []), 0)], disk_file := Some [],
      past := [Some [], demo_map, Some []]\<rparr>)"
    using step [OF 3 app_open [of "Some []"]] by (simp add: app_init_def)
  have 5: "app_calm demo_enc demo_dec (app_init\<lparr>to_marshal := 1, writing := [(demo_enc (Some []), 1)], disk_file := Some [123],
      past := [Some [], demo_map, Some []]\<rparr>)"
    using step [OF 4 app_write [of "demo_enc (Some [])" 0 _ 1 "[]"]]
    by (simp add: app_init_def put_bytes_def demo_enc_def entries_of_def)
  show ?thesis using step [OF 5 app_restart]
    by (simp add: app_init_def demo_crash_def read_state_def demo_dec_def demo_enc_def demo_map_def entries_of_def)
qed

theorem app_state_ok_witness:
  "disk_file demo_crash = Some [123] \<and> length (past demo_crash) = 3 \<and> jobmap_ok (mem demo_crash)
     \<and> (\<exists>m'. op_locked (OpUpdate ''request-7'' ''claimed'' [] 0 ''12:00:00'') (mem demo_crash) = Some m' \<and> jobmap_ok m')
     \<and> read_state demo_dec (disk_file demo_crash) \<in> set (past demo_crash)"
  using app_state_ok [OF demo_crash_calm demo_json, of "OpUpdate ''request-7'' ''claimed'' [] 0 ''12:00:00''"]
  by (simp add: demo_crash_def del: op_locked.simps)

text \<open>
  The end of a task removes from the temporary directory exactly the working directories of the
  families \<^verbatim>\<open>dl-\<close>, \<^verbatim>\<open>stage-\<close> and \<^verbatim>\<open>screens-\<close> that no other job keeps: what the other jobs use stays, and
  what the finished task left behind goes, however it ended.
\<close>

theorem end_of_task_exact:
  assumes "jobmap_ok m" and "end_of_task jobName entries m = Some (m', gone)"
  shows "map_of (entries_of m') jobName = None
     \<and> set gone = {name \<in> fst ` set entries. sweep_matches False name
          \<and> \<not> (\<exists>e \<in> set (entries_of m). fst e \<noteq> jobName \<and> keeps_dir e name)}"
proof -
  from assms(1) obtain js where js: "m = Some js" "list_all named js" by (rule jobmap_okE)
  with assms(2) have m': "m' = Some (AList.delete jobName js)"
    and gone: "gone = SweepOrphanDownloads (AList.delete jobName js) entries"
    by (auto simp: end_of_task_def entries_of_def)
  have "name \<in> set gone \<longleftrightarrow> name \<in> fst ` set entries \<and> sweep_matches False name
      \<and> \<not> (\<exists>e \<in> set js. fst e \<noteq> jobName \<and> keeps_dir e name)" for name
    unfolding gone using sweep_named [OF named_delete [OF js(2)], of name jobName entries]
    unfolding delete_entries by blast
  then show ?thesis by (auto simp: m' js(1) entries_of_def delete_conv')
qed

theorem end_of_task_exact_witness:
  "map_of (entries_of (Some [])) ''request-7'' = None
     \<and> set [''dl-request-7''] = {name \<in> fst ` set [(''dl-request-7'', None :: int option), (''notes'', None)]. sweep_matches False name
          \<and> \<not> (\<exists>e \<in> set (entries_of (Some [])). fst e \<noteq> ''request-7'' \<and> keeps_dir e name)}"
proof -
  have "end_of_task ''request-7'' [(''dl-request-7'', None), (''notes'', None)] (Some []) = Some (Some [], [''dl-request-7''])"
    by code_simp
  from end_of_task_exact [OF _ this] show ?thesis by simp
qed

text \<open>
  When operations follow each other, the file always holds the map in memory: a restart after an
  operation has the state the operation left, as long as no progress value is infinite or not a number.
\<close>

theorem save_load:
  assumes "run_op True c s = Some s'" and "op_guard c" and "marshals (Jobs s')"
  shows "Jobs (LoadState True \<lparr>Jobs = Some [], StateFile = StateFile s'\<rparr>) = Jobs s'"
  using assms by (auto simp: run_op_def SaveState_def LoadState_def split: option.splits if_splits)

theorem save_load_witness:
  "Jobs (LoadState True \<lparr>Jobs = Some [], StateFile = Doc (Some [])\<rparr>) = Some []"
proof -
  have "run_op True (OpRemove ''request-7'') \<lparr>Jobs = Some [(''request-7'', Some (new_job ''request-7''))], StateFile = NoFile\<rparr>
      = Some \<lparr>Jobs = Some [], StateFile = Doc (Some [])\<rparr>"
    by code_simp
  from save_load [OF this] show ?thesis by (simp add: marshals_def entries_of_def)
qed

text \<open>Two operations whose saves have taken their snapshots: the older with the job, the newer without.\<close>

lemma two_saves:
  "app_reach enc dec (app_init\<lparr>past := [Some [], demo_map, Some []], marshalled := [Some [], demo_map]\<rparr>)"
proof -
  let ?u = "OpUpdate ''request-7'' ''claimed'' [] 0 ''12:00:00''"
  note step = app_reach_step
  have 1: "app_reach enc dec (app_init\<lparr>mem := demo_map, to_marshal := 1, past := [demo_map, Some []]\<rparr>)"
    using step [OF app_reach_init app_op [of ?u app_init demo_map]] op_demo_map by (simp add: app_init_def)
  have 2: "app_reach enc dec (app_init\<lparr>mem := demo_map, past := [demo_map, Some []], marshalled := [demo_map]\<rparr>)"
    using step [OF 1 app_marshal [of _ 0]] marshals_demo by (simp add: app_init_def)
  have 3: "app_reach enc dec (app_init\<lparr>to_marshal := 1, past := [Some [], demo_map, Some []], marshalled := [demo_map]\<rparr>)"
    using step [OF 2 app_op [of "OpRemove ''request-7''" _ "Some []"]] by (simp add: app_init_def demo_map_def)
  show ?thesis using step [OF 3 app_marshal [of _ 0]] marshals_demo by (simp add: app_init_def)
qed

text \<open>
  Two saves that do not even overlap can leave the older one in the file: there is a run that has removed
  a job, with every save finished, whose file still holds the job, so that the next start has it again.
\<close>

theorem removed_job_returns:
  "\<exists>s. app_reach enc dec s \<and> to_marshal s = 0 \<and> marshalled s = [] \<and> writing s = [] \<and> mem s = Some []
     \<and> disk_file s = Some (enc demo_map)"
proof -
  let ?p = "[Some [], demo_map, Some []]"
  note step = app_reach_step
  have 1: "app_reach enc dec (app_init\<lparr>past := ?p, marshalled := [demo_map], writing := [(enc (Some []), 0)], disk_file := Some []\<rparr>)"
    using step [OF two_saves app_open [of "Some []"]] by (simp add: app_init_def)
  have 2: "app_reach enc dec (app_init\<lparr>past := ?p, marshalled := [demo_map], disk_file := Some []\<rparr>)"
    using step [OF 1 app_close] by (simp add: app_init_def)
  have 3: "app_reach enc dec (app_init\<lparr>past := ?p, writing := [(enc demo_map, 0)], disk_file := Some []\<rparr>)"
    using step [OF 2 app_open [of demo_map]] by (simp add: app_init_def)
  have 4: "app_reach enc dec (app_init\<lparr>past := ?p, writing := [(enc demo_map, length (enc demo_map))], disk_file := Some (enc demo_map)\<rparr>)"
    using step [OF 3 app_write [of "enc demo_map" 0 _ "length (enc demo_map)" "[]"]] by (simp add: app_init_def put_bytes_def)
  have 5: "app_reach enc dec (app_init\<lparr>past := ?p, disk_file := Some (enc demo_map)\<rparr>)"
    using step [OF 4 app_close] by (simp add: app_init_def)
  show ?thesis by (rule exI, rule conjI, rule 5) (simp add: app_init_def)
qed

text \<open>
  Two saves that overlap can mix their documents: with both files open, the shorter document is written
  over the beginning of the longer one, although every write succeeds.
\<close>

theorem state_file_mixed:
  "\<exists>s. app_reach enc dec s \<and> to_marshal s = 0 \<and> marshalled s = [] \<and> writing s = [] \<and> mem s = Some []
     \<and> disk_file s = Some (enc (Some []) @ drop (length (enc (Some []))) (enc demo_map))"
proof -
  let ?p = "[Some [], demo_map, Some []]" and ?a = "enc (Some [])" and ?b = "enc demo_map"
  let ?m = "?a @ drop (length ?a) ?b"
  note step = app_reach_step
  have 1: "app_reach enc dec (app_init\<lparr>past := ?p, marshalled := [demo_map], writing := [(?a, 0)], disk_file := Some []\<rparr>)"
    using step [OF two_saves app_open [of "Some []"]] by (simp add: app_init_def)
  have 2: "app_reach enc dec (app_init\<lparr>past := ?p, writing := [(?b, 0), (?a, 0)], disk_file := Some []\<rparr>)"
    using step [OF 1 app_open [of demo_map]] by (simp add: app_init_def)
  have 3: "app_reach enc dec (app_init\<lparr>past := ?p, writing := [(?b, length ?b), (?a, 0)], disk_file := Some ?b\<rparr>)"
    using step [OF 2 app_write [of ?b 0 _ "length ?b" "[]"]] by (simp add: app_init_def put_bytes_def)
  have 4: "app_reach enc dec (app_init\<lparr>past := ?p, writing := [(?a, 0)], disk_file := Some ?b\<rparr>)"
    using step [OF 3 app_close [of "(?b, length ?b)"]] by (simp add: app_init_def)
  have 5: "app_reach enc dec (app_init\<lparr>past := ?p, writing := [(?a, length ?a)], disk_file := Some ?m\<rparr>)"
    using step [OF 4 app_write [of ?a 0 _ "length ?a" ?b]] by (simp add: app_init_def put_bytes_def)
  have 6: "app_reach enc dec (app_init\<lparr>past := ?p, disk_file := Some ?m\<rparr>)"
    using step [OF 5 app_close] by (simp add: app_init_def)
  show ?thesis by (rule exI, rule conjI, rule 6) (simp add: app_init_def)
qed

text \<open>
  Once the stage directory of a task is published, no sweep of any kind takes it, whatever the
  tasks do in the meantime, until the task itself withdraws it or is removed. For a job that is not in
  the map, publishing has no effect.
\<close>

theorem stage_protected:
  assumes "map_of (entries_of m) n = Some (Some job)" and "p \<noteq> []"
    and "op_locked (OpStage n p) m = Some m1" and "run_ops cs m1 = Some m2"
    and "list_all (\<lambda>c. \<not> unpublishes n c) cs"
  shows "path_base p \<notin> set (sweepWithMinAge (entries_of m2) minAge ext entries)
     \<and> (map_of (entries_of m) n' = None \<longrightarrow> op_locked (OpStage n' q) m = Some m)"
proof -
  have "staged_at n p m1"
    using assms(1,3) by (auto simp: on_job_def staged_at_def entries_of_def update_conv')
  then have "staged_at n p m2" using run_ops_staged assms(4,5) by blast
  then show ?thesis using staged_kept assms(2) by (auto simp: on_job_def)
qed

theorem stage_protected_witness:
  "path_base ''/tmp/stage-x'' \<notin> set (sweepWithMinAge
      (entries_of (Some [(''request-7'', Some ((new_job ''request-7'')\<lparr>StagePath := ''/tmp/stage-x'', Title := ''Film''\<rparr>))]))
      0 True [(''stage-x'', Some 0)])
     \<and> (map_of (entries_of (Some [(''request-7'', Some (new_job ''request-7''))])) ''offline-3'' = None
         \<longrightarrow> op_locked (OpStage ''offline-3'' ''/tmp/stage-y'') (Some [(''request-7'', Some (new_job ''request-7''))])
             = Some (Some [(''request-7'', Some (new_job ''request-7''))]))"
  by (rule stage_protected [where n = "''request-7''" and cs = "[OpTitle ''request-7'' ''Film'']"]) code_simp+

end
