(* ===== verification/Publish.thy ===== *)
theory Publish
  imports Nzb Par2 Manifest Describe Names AppState
begin

text \<open>
  The publish pipeline (\<^verbatim>\<open>services/publish_pipeline.go\<close>): from a directory of content to an NZB.
  \<open>PublishDirectory\<close> threads a \<open>world\<close>: the entries of the temporary directory, the map of the running
  jobs and the upload slot. The deferred calls of the code are \<open>deferred\<close>, which runs the cleanup after
  the body whatever the body returns. What the pipeline calls outside itself is in \<open>pub_env\<close>: the
  random names, the outcomes of system calls, the extractors, the PAR2 tool, 7z, the transfer of one
  file and the XML encoder. The slot is free when the pipeline gets it, since it blocks until then.
  Two things are left out: a panic, after which the deferred calls run all the same, and the
  screenshots and subtitles that the description writes below the content directory, in directories
  that staging never takes and that go with the content when the caller removes it.
\<close>

section \<open>The world\<close>

record world =
  Temp :: "(string \<times> fnode) list"
  JobsMap :: "jobs_map option"
  Slot :: bool

record pub_error =
  Step :: string
  Msg :: string
  Err :: string

definition publishFail :: "string \<Rightarrow> string \<Rightarrow> string \<Rightarrow> pub_error" where
  "publishFail step msg err = \<lparr>Step = step, Msg = msg, Err = err\<rparr>"

definition deferred :: "('w \<Rightarrow> 'w) \<Rightarrow> ('w \<Rightarrow> 'w \<times> 'r) \<Rightarrow> 'w \<Rightarrow> 'w \<times> 'r" where
  "deferred cleanup body w = (case body w of (w', r) \<Rightarrow> (cleanup w', r))"

text \<open>\<^verbatim>\<open>os.MkdirAll\<close>, \<^verbatim>\<open>os.RemoveAll\<close> and \<^verbatim>\<open>os.Rename\<close> on entries of the temporary directory; \<open>ok\<close> is
  whether the file system lets the call through.\<close>

definition mkdir_temp :: "bool \<Rightarrow> string \<Rightarrow> world \<Rightarrow> world option" where
  "mkdir_temp ok name w =
     (if \<not> ok then None
      else case map_of (Temp w) name of
             None \<Rightarrow> Some (w\<lparr>Temp := AList.update name (FDir []) (Temp w)\<rparr>)
           | Some n \<Rightarrow> if is_dir n then Some w else None)"

definition remove_temp :: "string \<Rightarrow> world \<Rightarrow> world" where
  "remove_temp name w = w\<lparr>Temp := AList.delete name (Temp w)\<rparr>"

definition set_temp :: "string \<Rightarrow> fnode \<Rightarrow> world \<Rightarrow> world" where
  "set_temp name n w = w\<lparr>Temp := AList.update name n (Temp w)\<rparr>"

definition rename_temp :: "bool \<Rightarrow> string \<Rightarrow> string \<Rightarrow> string \<Rightarrow> world \<Rightarrow> world option" where
  "rename_temp ok old dir name w =
     (if \<not> ok then None
      else case (map_of (Temp w) old, map_of (Temp w) dir) of
             (Some f, Some d) \<Rightarrow>
               (case tree_put [name] f d of
                  Some d' \<Rightarrow> Some (set_temp dir d' (remove_temp old w))
                | None \<Rightarrow> None)
           | _ \<Rightarrow> None)"

text \<open>What a walk finds at an entry; a missing root is an error of the walk, as an unreadable one is.\<close>

definition temp_tree :: "string \<Rightarrow> world \<Rightarrow> fnode" where
  "temp_tree name w = (case map_of (Temp w) name of Some n \<Rightarrow> n | None \<Rightarrow> FUnreadable)"

text \<open>An operation on the map of jobs; on the maps the program has (\<open>jobmap_ok\<close>) it does not panic.\<close>

definition on_jobs :: "app_op \<Rightarrow> world \<Rightarrow> world" where
  "on_jobs c w = w\<lparr>JobsMap := (case op_locked c (JobsMap w) of Some m \<Rightarrow> m | None \<Rightarrow> JobsMap w)\<rparr>"

section \<open>The job and its environment\<close>

record 'seg pub_env =
  r_stage :: string
  r_base :: string
  r_title :: string
  r_password :: string
  r_archive :: string
  r_enc :: string
  r_names :: "nat \<Rightarrow> string"
  obf_name :: "fpath \<Rightarrow> string"
  mkdir_ok :: bool
  mkdir_enc_ok :: bool
  rename_ok :: bool
  same_dev :: "fpath \<Rightarrow> bool"
  stage_cancelled :: "fpath \<Rightarrow> bool"
  upload_cancelled :: "nat \<Rightarrow> bool"
  extractor :: "nat \<Rightarrow> fnode \<Rightarrow> fnode \<times> (nat \<times> string option)"
  par2_tool :: "fnode \<Rightarrow> string \<Rightarrow> PAR2Options \<Rightarrow> fnode \<times> (string + string list)"
  seven_zip :: "fnode \<Rightarrow> string \<Rightarrow> bytes option \<times> string option"
  send_file :: "nat \<Rightarrow> fpath \<Rightarrow> string \<Rightarrow> string \<Rightarrow> int \<Rightarrow> int \<Rightarrow> string + 'seg list"
  xml_encode :: "'seg NZB \<Rightarrow> string + string"
  unix_now :: int

record pub_config =
  P_TempDir :: string
  P_Obfuscate :: bool
  P_Encrypt :: bool
  P_Redundancy :: int
  P_Threads :: int
  P_MemoryMB :: int
  P_nzb :: nzb_config

text \<open>\<open>ContentRoot\<close> is the name of the content directory and \<open>Content\<close> the tree below it; \<open>JProgress\<close>
  is the hook of the caller, which may write the map of jobs.\<close>

record publishJob =
  Cfg :: pub_config
  JobName :: string
  PTitle :: string
  PRequestID :: int
  ContentRoot :: string
  Content :: fnode
  Describe :: bool
  JProgress :: "string \<Rightarrow> jobs_map option \<Rightarrow> jobs_map option"

record publishResult =
  NzbData :: string
  PPassword :: string
  Described :: description

definition progress :: "publishJob \<Rightarrow> string \<Rightarrow> world \<Rightarrow> world" where
  "progress job step w = w\<lparr>JobsMap := JProgress job step (JobsMap w)\<rparr>"

definition stage_name :: "'seg pub_env \<Rightarrow> string" where
  "stage_name e = ''stage-'' @ r_stage e"

definition archive_name :: "'seg pub_env \<Rightarrow> string" where
  "archive_name e = r_archive e @ ''.7z''"

definition enc_name :: "'seg pub_env \<Rightarrow> string" where
  "enc_name e = ''enc-'' @ r_enc e"

section \<open>The steps\<close>

text \<open>Step 4: stage into the fresh directory.\<close>

definition prepare :: "'seg pub_env \<Rightarrow> publishJob \<Rightarrow> string \<Rightarrow> fnode \<Rightarrow> fnode \<times> (string + unit)" where
  "prepare e job stage dst =
     (if P_Obfuscate (Cfg job)
      then ObfuscateFiles (obf_name e) (stage_cancelled e) (ContentRoot job) (Content job) stage dst
      else CopyFiles (same_dev e) (stage_cancelled e) (ContentRoot job) (Content job) stage dst)"

text \<open>Steps 4.5 to 4.10: the six extractors in order; an error is logged and what was extracted stays.\<close>

definition extract_all :: "'seg pub_env \<Rightarrow> fnode \<Rightarrow> fnode" where
  "extract_all e stage = foldl (\<lambda>s k. fst (extractor e k s)) stage [0, 1, 2, 3, 4, 5]"

text \<open>Step 5: PAR2; a failure is recorded on the checklist and is not fatal. The note of the success
  (sizes) is left out.\<close>

definition par2_base :: "'seg pub_env \<Rightarrow> publishJob \<Rightarrow> string" where
  "par2_base e job =
     (if P_Obfuscate (Cfg job) then r_base e
      else (let b = SanitizeBaseName (r_title e) (PTitle job) in if b = [] then JobName job else b))"

definition par2_options :: "pub_config \<Rightarrow> PAR2Options" where
  "par2_options cfg =
     \<lparr>Redundancy = P_Redundancy cfg, BlockSize = 716800, Threads = P_Threads cfg, MemoryMB = P_MemoryMB cfg, Method = []\<rparr>"

definition par2_step :: "'seg pub_env \<Rightarrow> publishJob \<Rightarrow> fnode \<Rightarrow> checklist \<Rightarrow> fnode \<times> checklist" where
  "par2_step e job stage st =
     (case par2_tool e stage (par2_base e job) (par2_options (Cfg job)) of
        (stage', Inl err) \<Rightarrow>
          (stage', stageEmpty ''par2'' ''no recovery files generated (see /admin/errors for the underlying binary error)'' st)
      | (stage', Inr files) \<Rightarrow>
          if files = []
          then (stage', stageEmpty ''par2'' ''binary returned success but no files were produced (see /admin/errors)'' st)
          else (stage', stageOK ''par2'' (length files) [] st))"

text \<open>Steps 7 and 8, with the slot held until the function returns.\<close>

definition upload_step ::
  "'seg pub_env \<Rightarrow> publishJob \<Rightarrow> string \<Rightarrow> string \<Rightarrow> description \<Rightarrow> world \<Rightarrow> world \<times> (pub_error + publishResult)" where
  "upload_step e job dirname password d w0 =
     (let w1 = progress job ''Queued'' w0;
          w2 = w1\<lparr>Slot := True\<rparr>
      in deferred (\<lambda>w. w\<lparr>Slot := False\<rparr>)
        (\<lambda>w. case CompareManifest (ManifestOf (ContentRoot job) (Content job)) (ManifestOf dirname (temp_tree dirname w))
                   (P_Encrypt (Cfg job)) of
             Some me \<Rightarrow> (w, Inl (publishFail ''ManifestMismatch'' (''Manifest check failed '' @ [CHR 0xE2, CHR 0x80, CHR 0x94] @ '' aborting publish'') (first_missing me)))
           | None \<Rightarrow>
               (let w3 = progress job ''Uploading'' w
                in case UploadDirectory (send_file e) (upload_cancelled e) (P_Obfuscate (Cfg job)) (r_names e)
                          (temp_tree dirname w3) (PTitle job) of
                     Inl err \<Rightarrow> (w3, Inl (publishFail ''Upload'' ''Upload error'' err))
                   | Inr fileSegments \<Rightarrow>
                       (let w4 = progress job ''Finalizing'' w3
                        in case CreateMultiFileNZBBytes (xml_encode e) (P_nzb (Cfg job)) (unix_now e) fileSegments password
                                  \<lparr>NZBMetaInfo.Title = PTitle job, RequestID = PRequestID job\<rparr> of
                             Inl err \<Rightarrow> (w4, Inl (publishFail ''NZB'' ''NZB error'' err))
                           | Inr nzb \<Rightarrow> (w4, Inr \<lparr>NzbData = nzb, PPassword = password, Described = d\<rparr>)))) w2)"

text \<open>Step 6: with encryption the archive is made in the temporary directory and moved into a
  directory of its own. Neither the creation of that directory nor the move is checked.\<close>

definition encrypt_step ::
  "'seg pub_env \<Rightarrow> publishJob \<Rightarrow> description \<Rightarrow> world \<Rightarrow> world \<times> (pub_error + publishResult)" where
  "encrypt_step e job d w0 =
     (if \<not> P_Encrypt (Cfg job) then upload_step e job (stage_name e) [] d w0
      else deferred (remove_temp (archive_name e))
        (\<lambda>w. let w1 = progress job ''Encrypting'' w;
                 (archive, err) = seven_zip e (temp_tree (stage_name e) w1) (r_password e);
                 w2 = (case archive of Some b \<Rightarrow> set_temp (archive_name e) (FFile b) w1 | None \<Rightarrow> w1)
             in case err of
                  Some msg \<Rightarrow> (w2, Inl (publishFail ''Encrypt'' ''Encryption error'' msg))
                | None \<Rightarrow>
                    deferred (remove_temp (enc_name e))
                      (\<lambda>w. let w3 = (case mkdir_temp (mkdir_enc_ok e) (enc_name e) w of Some w' \<Rightarrow> w' | None \<Rightarrow> w);
                               w4 = (case rename_temp (rename_ok e) (archive_name e) (enc_name e) (archive_name e) w3 of
                                       Some w' \<Rightarrow> w' | None \<Rightarrow> w3)
                           in upload_step e job (enc_name e) (r_password e) d w4) w2) w0)"

definition stage_body ::
  "'seg pub_env \<Rightarrow> publishJob \<Rightarrow> description \<Rightarrow> world \<Rightarrow> world \<times> (pub_error + publishResult)" where
  "stage_body e job d w0 =
     (let w1 = progress job ''Preparing'' w0
      in case prepare e job (stage_name e) (temp_tree (stage_name e) w1) of
           (t, Inl err) \<Rightarrow> (set_temp (stage_name e) t w1, Inl (publishFail ''Prepare'' ''Prepare error'' err))
         | (t, Inr u) \<Rightarrow>
             (let w2 = progress job ''PAR2'' w1;
                  (t', st) = par2_step e job (extract_all e t) (Stages d)
              in encrypt_step e job (d\<lparr>Stages := st\<rparr>) (set_temp (stage_name e) t' w2)))"

definition PublishDirectory ::
  "'seg pub_env \<Rightarrow> media \<Rightarrow> publishJob \<Rightarrow> world \<Rightarrow> world \<times> (pub_error + publishResult)" where
  "PublishDirectory e m job w0 =
     (let w1 = (if Describe job then progress job ''Analyzing'' w0 else w0);
          d = (if Describe job then describeContent m no_description else no_description);
          stageDir = path_join_all [P_TempDir (Cfg job), stage_name e]
      in case mkdir_temp (mkdir_ok e) (stage_name e) w1 of
           None \<Rightarrow> (w1, Inl (publishFail ''Prepare'' ''Stage dir error'' ''mkdir''))
         | Some w2 \<Rightarrow>
             deferred (\<lambda>w. on_jobs (OpStage (JobName job) []) (remove_temp (stage_name e) w))
               (stage_body e job d) (on_jobs (OpStage (JobName job) stageDir) w2))"

section \<open>What the pipeline leaves behind\<close>

lemma progress_sel [simp]: "Temp (progress job step w) = Temp w" "Slot (progress job step w) = Slot w"
  by (simp_all add: progress_def)

lemma on_jobs_sel [simp]: "Temp (on_jobs c w) = Temp w" "Slot (on_jobs c w) = Slot w"
  by (simp_all add: on_jobs_def)

lemma remove_temp_sel [simp]: "map_of (Temp (remove_temp name w)) = (map_of (Temp w))(name := None)"
  "Slot (remove_temp name w) = Slot w"
  by (simp_all add: remove_temp_def delete_conv')

lemma set_temp_sel [simp]: "map_of (Temp (set_temp name n w)) = (map_of (Temp w))(name \<mapsto> n)"
  "Slot (set_temp name n w) = Slot w"
  by (simp_all add: set_temp_def update_conv')

lemma mkdir_temp_Some:
  "mkdir_temp ok name w = Some w' \<Longrightarrow> map_of (Temp w) name = None \<Longrightarrow>
     map_of (Temp w') = (map_of (Temp w))(name \<mapsto> FDir []) \<and> Slot w' = Slot w"
  by (auto simp: mkdir_temp_def update_conv' split: if_splits option.splits)

lemma mkdir_temp_other:
  "mkdir_temp ok name w = Some w' \<Longrightarrow> k \<noteq> name \<Longrightarrow> map_of (Temp w') k = map_of (Temp w) k \<and> Slot w' = Slot w"
  by (auto simp: mkdir_temp_def update_conv' split: if_splits option.splits)

lemma rename_temp_other:
  "rename_temp ok old dir name w = Some w' \<Longrightarrow> k \<noteq> old \<Longrightarrow> k \<noteq> dir \<Longrightarrow> map_of (Temp w') k = map_of (Temp w) k"
  by (auto simp: rename_temp_def split: if_splits option.splits)

lemma deferred_fst [simp]: "fst (deferred cleanup body w) = cleanup (fst (body w))"
  "snd (deferred cleanup body w) = snd (body w)"
  by (simp_all add: deferred_def split: prod.split)

lemma upload_step_temp: "Temp (fst (upload_step e job dir pw d w)) = Temp w" "\<not> Slot (fst (upload_step e job dir pw d w))"
  by (simp_all add: upload_step_def Let_def split: option.split sum.split)

lemma encrypt_step_temp:
  assumes "map_of (Temp w) (archive_name e) = None" and "map_of (Temp w) (enc_name e) = None"
  shows "map_of (Temp (fst (encrypt_step e job d w))) = map_of (Temp w)"
    and "\<not> Slot w \<Longrightarrow> \<not> Slot (fst (encrypt_step e job d w))"
proof -
  obtain archive err where z: "seven_zip e (temp_tree (stage_name e) (progress job ''Encrypting'' w)) (r_password e) = (archive, err)"
    by fastforce
  let ?w2 = "case archive of Some b \<Rightarrow> set_temp (archive_name e) (FFile b) (progress job ''Encrypting'' w) | None \<Rightarrow> progress job ''Encrypting'' w"
  have w2: "k \<noteq> archive_name e \<Longrightarrow> map_of (Temp ?w2) k = map_of (Temp w) k" "Slot ?w2 = Slot w" for k
    by (simp_all split: option.split)
  let ?w3 = "case mkdir_temp (mkdir_enc_ok e) (enc_name e) ?w2 of Some w' \<Rightarrow> w' | None \<Rightarrow> ?w2"
  have w3: "k \<noteq> enc_name e \<Longrightarrow> map_of (Temp ?w3) k = map_of (Temp ?w2) k" for k
    using mkdir_temp_other [of "mkdir_enc_ok e" "enc_name e" ?w2] by (auto split: option.split)
  let ?w4 = "case rename_temp (rename_ok e) (archive_name e) (enc_name e) (archive_name e) ?w3 of Some w' \<Rightarrow> w' | None \<Rightarrow> ?w3"
  have w4: "k \<noteq> archive_name e \<Longrightarrow> k \<noteq> enc_name e \<Longrightarrow> map_of (Temp ?w4) k = map_of (Temp ?w3) k" for k
    using rename_temp_other [of "rename_ok e" "archive_name e" "enc_name e" "archive_name e" ?w3 _ k]
    by (auto split: option.split)
  have "map_of (Temp (fst (encrypt_step e job d w))) k = map_of (Temp w) k" for k
  proof (cases "P_Encrypt (Cfg job)")
    case False
    then show ?thesis by (simp add: encrypt_step_def upload_step_temp)
  next
    case True
    show ?thesis
      using assms w2(1) [of k] w3 [of k] w4 [of k] True z
      by (cases "k = archive_name e"; cases "k = enc_name e"; cases err)
         (simp_all add: encrypt_step_def Let_def upload_step_temp)
  qed
  then show "map_of (Temp (fst (encrypt_step e job d w))) = map_of (Temp w)" by blast
  show "\<not> Slot (fst (encrypt_step e job d w))" if "\<not> Slot w"
    using that w2(2) z by (cases err) (simp_all add: encrypt_step_def Let_def upload_step_temp)
qed

lemma stage_body_temp:
  assumes "map_of (Temp w) (archive_name e) = None" and "map_of (Temp w) (enc_name e) = None"
    and "stage_name e \<noteq> archive_name e" and "\<not> Slot w"
  shows "k \<noteq> stage_name e \<Longrightarrow> map_of (Temp (fst (stage_body e job d w))) k = map_of (Temp w) k"
    and "\<not> Slot (fst (stage_body e job d w))"
proof -
  have ne: "stage_name e \<noteq> enc_name e" by (simp add: stage_name_def enc_name_def)
  obtain t r where p: "prepare e job (stage_name e) (temp_tree (stage_name e) (progress job ''Preparing'' w)) = (t, r)" by fastforce
  obtain t' st where q: "par2_step e job (extract_all e t) (Stages d) = (t', st)" by fastforce
  let ?w2 = "set_temp (stage_name e) t' (progress job ''PAR2'' (progress job ''Preparing'' w))"
  have en: "map_of (Temp ?w2) (archive_name e) = None" "map_of (Temp ?w2) (enc_name e) = None"
    using assms(1,2,3) ne by simp_all
  show "map_of (Temp (fst (stage_body e job d w))) k = map_of (Temp w) k" if "k \<noteq> stage_name e"
    using that p q encrypt_step_temp(1) [OF en] by (cases r) (simp_all add: stage_body_def Let_def)
  show "\<not> Slot (fst (stage_body e job d w))"
    using assms(4) p q encrypt_step_temp(2) [OF en] by (cases r) (simp_all add: stage_body_def Let_def)
qed

lemma PublishDirectory_temp:
  assumes "map_of (Temp w) (stage_name e) = None" and "map_of (Temp w) (archive_name e) = None"
    and "map_of (Temp w) (enc_name e) = None" and "stage_name e \<noteq> archive_name e" and "\<not> Slot w"
  shows "map_of (Temp (fst (PublishDirectory e m job w))) = map_of (Temp w)
     \<and> \<not> Slot (fst (PublishDirectory e m job w))"
proof -
  let ?w1 = "if Describe job then progress job ''Analyzing'' w else w"
  let ?d = "if Describe job then describeContent m no_description else no_description"
  have w1: "Temp ?w1 = Temp w" "Slot ?w1 = Slot w" by simp_all
  show ?thesis
  proof (cases "mkdir_temp (mkdir_ok e) (stage_name e) ?w1")
    case None
    then show ?thesis using assms(5) w1 by (simp add: PublishDirectory_def Let_def)
  next
    case (Some w2)
    let ?w3 = "on_jobs (OpStage (JobName job) (path_join_all [P_TempDir (Cfg job), stage_name e])) w2"
    have w2: "map_of (Temp w2) = (map_of (Temp w))(stage_name e \<mapsto> FDir [])" "\<not> Slot w2"
      using mkdir_temp_Some [OF Some] w1 assms(1,5) by simp_all
    have ne: "stage_name e \<noteq> enc_name e" by (simp add: stage_name_def enc_name_def)
    have free: "map_of (Temp ?w3) (archive_name e) = None" "map_of (Temp ?w3) (enc_name e) = None" "\<not> Slot ?w3"
      using w2 assms(2,3,4) ne by simp_all
    note body = stage_body_temp [OF free(1,2) assms(4) free(3), where job = job and d = ?d]
    have "map_of (Temp (fst (PublishDirectory e m job w))) k = map_of (Temp w) k" for k
      using body(1) [of k] Some w2(1) assms(1) by (simp add: PublishDirectory_def Let_def)
    then have "map_of (Temp (fst (PublishDirectory e m job w))) = map_of (Temp w)" by blast
    moreover have "\<not> Slot (fst (PublishDirectory e m job w))"
      using body(2) Some by (simp add: PublishDirectory_def Let_def)
    ultimately show ?thesis by (rule conjI)
  qed
qed

lemma jobs_sel [simp]: "JobsMap (set_temp name n w) = JobsMap w" "JobsMap (remove_temp name w) = JobsMap w"
  "JobsMap (progress job step w) = JProgress job step (JobsMap w)"
  by (simp_all add: set_temp_def remove_temp_def progress_def)

lemma mkdir_temp_jobs: "mkdir_temp ok name w = Some w' \<Longrightarrow> JobsMap w' = JobsMap w"
  by (auto simp: mkdir_temp_def split: if_splits option.splits)

lemma rename_temp_jobs: "rename_temp ok old dir name w = Some w' \<Longrightarrow> JobsMap w' = JobsMap w"
  by (auto simp: rename_temp_def split: if_splits option.splits)

text \<open>The pipeline writes the map of jobs through the hook of its caller and by publishing its stage
  directory, and not otherwise.\<close>

lemma upload_step_jobs:
  assumes "P (JobsMap w)" and "\<And>step m. P m \<Longrightarrow> P (JProgress job step m)"
  shows "P (JobsMap (fst (upload_step e job dir pw d w)))"
  using assms by (simp add: upload_step_def Let_def split: option.split sum.split)

lemma encrypt_step_jobs:
  assumes "P (JobsMap w)" and "\<And>step m. P m \<Longrightarrow> P (JProgress job step m)"
  shows "P (JobsMap (fst (encrypt_step e job d w)))"
proof (cases "P_Encrypt (Cfg job)")
  case False
  then show ?thesis using upload_step_jobs [where P = P, OF assms] by (simp add: encrypt_step_def)
next
  case True
  obtain archive err where z: "seven_zip e (temp_tree (stage_name e) (progress job ''Encrypting'' w)) (r_password e) = (archive, err)"
    by fastforce
  let ?w2 = "case archive of Some b \<Rightarrow> set_temp (archive_name e) (FFile b) (progress job ''Encrypting'' w) | None \<Rightarrow> progress job ''Encrypting'' w"
  let ?w3 = "case mkdir_temp (mkdir_enc_ok e) (enc_name e) ?w2 of Some w' \<Rightarrow> w' | None \<Rightarrow> ?w2"
  let ?w4 = "case rename_temp (rename_ok e) (archive_name e) (enc_name e) (archive_name e) ?w3 of Some w' \<Rightarrow> w' | None \<Rightarrow> ?w3"
  have w2: "P (JobsMap ?w2)" using assms by (simp split: option.split)
  have "JobsMap ?w3 = JobsMap ?w2" by (auto split: option.split dest: mkdir_temp_jobs)
  moreover have "JobsMap ?w4 = JobsMap ?w3" by (auto split: option.split dest: rename_temp_jobs)
  ultimately have "P (JobsMap ?w4)" using w2 by simp
  from upload_step_jobs [where P = P, OF this assms(2)] w2 show ?thesis
    using True z by (cases err) (simp_all add: encrypt_step_def Let_def)
qed

lemma PublishDirectory_jobs:
  assumes P: "P (JobsMap w)" and hook: "\<And>step m. P m \<Longrightarrow> P (JProgress job step m)"
    and stage: "\<And>p w. P (JobsMap w) \<Longrightarrow> P (JobsMap (on_jobs (OpStage (JobName job) p) w))"
  shows "P (JobsMap (fst (PublishDirectory e m job w)))"
proof -
  let ?w1 = "if Describe job then progress job ''Analyzing'' w else w"
  let ?d = "if Describe job then describeContent m no_description else no_description"
  have w1: "P (JobsMap ?w1)" using P hook by simp
  show ?thesis
  proof (cases "mkdir_temp (mkdir_ok e) (stage_name e) ?w1")
    case None
    then show ?thesis using w1 by (simp add: PublishDirectory_def Let_def)
  next
    case (Some w2)
    let ?w3 = "on_jobs (OpStage (JobName job) (path_join_all [P_TempDir (Cfg job), stage_name e])) w2"
    have "P (JobsMap w2)" using mkdir_temp_jobs [OF Some] w1 by simp
    then have w3: "P (JobsMap ?w3)" by (rule stage)
    obtain t r where p: "prepare e job (stage_name e) (temp_tree (stage_name e) (progress job ''Preparing'' ?w3)) = (t, r)" by fastforce
    obtain t' st where q: "par2_step e job (extract_all e t) (Stages ?d) = (t', st)" by fastforce
    let ?w5 = "set_temp (stage_name e) t' (progress job ''PAR2'' (progress job ''Preparing'' ?w3))"
    have "P (JobsMap ?w5)" using w3 hook by simp
    then have enc: "P (JobsMap (fst (encrypt_step e job (?d\<lparr>Stages := st\<rparr>) ?w5)))" by (rule encrypt_step_jobs) (rule hook)
    have "P (JobsMap (fst (stage_body e job ?d ?w3)))"
      using p q enc w3 hook by (cases r) (simp_all add: stage_body_def Let_def)
    then have "P (JobsMap (on_jobs (OpStage (JobName job) []) (remove_temp (stage_name e) (fst (stage_body e job ?d ?w3)))))"
      by (intro stage) simp
    then show ?thesis using Some by (simp add: PublishDirectory_def Let_def)
  qed
qed

text \<open>The entry of a job, if there is one, publishes no stage directory.\<close>

definition no_stage_path :: "string \<Rightarrow> jobs_map option \<Rightarrow> bool" where
  "no_stage_path name m =
     (case m of
        None \<Rightarrow> True
      | Some js \<Rightarrow> (case map_of js name of Some (Some j) \<Rightarrow> StagePath j = [] | _ \<Rightarrow> True))"

lemma on_jobs_no_stage: "no_stage_path name (JobsMap (on_jobs (OpStage name []) w))"
  by (auto simp: on_jobs_def on_job_def entries_of_def no_stage_path_def update_conv' split: option.splits)

lemma PublishDirectory_unpublishes:
  assumes "map_of (Temp w) (stage_name e) = None"
  shows "if mkdir_ok e then no_stage_path (JobName job) (JobsMap (fst (PublishDirectory e m job w)))
     else JobsMap (fst (PublishDirectory e m job w)) = JobsMap (if Describe job then progress job ''Analyzing'' w else w)"
proof (cases "mkdir_ok e")
  case True
  let ?w1 = "if Describe job then progress job ''Analyzing'' w else w"
  have "map_of (Temp ?w1) (stage_name e) = None" using assms by simp
  then obtain w2 where "mkdir_temp (mkdir_ok e) (stage_name e) ?w1 = Some w2"
    using True by (simp add: mkdir_temp_def)
  then show ?thesis using True on_jobs_no_stage by (simp add: PublishDirectory_def Let_def)
next
  case False
  then show ?thesis by (simp add: PublishDirectory_def Let_def mkdir_temp_def)
qed

section \<open>What a success means\<close>

abbreviation nzb_of :: "'seg pub_env \<Rightarrow> publishJob \<Rightarrow> 'seg FileSegments list \<Rightarrow> string \<Rightarrow> string + string" where
  "nzb_of e job fs pw \<equiv> CreateMultiFileNZBBytes (xml_encode e) (P_nzb (Cfg job)) (unix_now e) fs pw
     \<lparr>NZBMetaInfo.Title = PTitle job, RequestID = PRequestID job\<rparr>"

abbreviation posted :: "'seg pub_env \<Rightarrow> publishJob \<Rightarrow> fnode \<Rightarrow> string + 'seg FileSegments list" where
  "posted e job t \<equiv> UploadDirectory (send_file e) (upload_cancelled e) (P_Obfuscate (Cfg job)) (r_names e) t (PTitle job)"

lemma temp_tree_progress [simp]: "temp_tree name (progress job step w) = temp_tree name w"
  by (simp add: temp_tree_def)

lemma upload_step_Inr:
  assumes "snd (upload_step e job dir pw d w) = Inr r"
  shows "\<exists>fs. posted e job (temp_tree dir w) = Inr fs \<and> nzb_of e job fs pw = Inr (NzbData r) \<and> PPassword r = pw
     \<and> CompareManifest (ManifestOf (ContentRoot job) (Content job)) (ManifestOf dir (temp_tree dir w)) (P_Encrypt (Cfg job)) = None"
proof -
  have "temp_tree dir (w\<lparr>Slot := True\<rparr>) = temp_tree dir w" for w by (simp add: temp_tree_def)
  then show ?thesis using assms by (auto simp: upload_step_def Let_def split: option.splits sum.splits)
qed

lemma upload_list_single: "upload_list (FDir [(a, FFile b)]) = (if b = [] then [] else [([a], FFile b)])"
  by (simp add: upload_list_def file_walk_def upload_cb_def)

lemma upload_list_none: "upload_list (FDir []) = []" "upload_list FUnreadable = []"
  by (simp_all add: upload_list_def file_walk_def upload_cb_def)

lemma posted_single:
  assumes "posted e job (FDir [(a, FFile b)]) = Inr fs"
  shows "b \<noteq> [] \<and> (\<exists>segs pre name. send_file e 1 [a] pre name 0 (int (length b)) = Inr segs
     \<and> fs = [\<lparr>FileName = nzb_subject (PTitle job) 1 1 [a] (length segs), Segments = segs\<rparr>])"
  using assms by (auto simp: UploadDirectory_def upload_list_single stat_size_def Let_def split: if_splits sum.splits)

lemma encrypt_step_Inr:
  assumes r: "snd (encrypt_step e job d w) = Inr r" and enc: "P_Encrypt (Cfg job)"
    and free: "map_of (Temp w) (archive_name e) = None" "map_of (Temp w) (enc_name e) = None"
    and ne: "archive_name e \<noteq> enc_name e"
  shows "\<exists>b fs. seven_zip e (temp_tree (stage_name e) w) (r_password e) = (Some b, None)
     \<and> posted e job (FDir [(archive_name e, FFile b)]) = Inr fs
     \<and> nzb_of e job fs (r_password e) = Inr (NzbData r) \<and> PPassword r = r_password e"
proof -
  let ?w1 = "progress job ''Encrypting'' w"
  obtain archive err where z: "seven_zip e (temp_tree (stage_name e) ?w1) (r_password e) = (archive, err)" by fastforce
  define w2 where "w2 = (case archive of Some b \<Rightarrow> set_temp (archive_name e) (FFile b) ?w1 | None \<Rightarrow> ?w1)"
  define w3 where "w3 = (case mkdir_temp (mkdir_enc_ok e) (enc_name e) w2 of Some w' \<Rightarrow> w' | None \<Rightarrow> w2)"
  define w4 where "w4 = (case rename_temp (rename_ok e) (archive_name e) (enc_name e) (archive_name e) w3 of Some w' \<Rightarrow> w' | None \<Rightarrow> w3)"
  have err: "err = None" and up: "snd (upload_step e job (enc_name e) (r_password e) d w4) = Inr r"
    using r enc z by (auto simp: encrypt_step_def Let_def w2_def w3_def w4_def split: option.splits)
  from upload_step_Inr [OF up] obtain fs where fs: "posted e job (temp_tree (enc_name e) w4) = Inr fs"
    "nzb_of e job fs (r_password e) = Inr (NzbData r)" "PPassword r = r_password e" by blast
  have some: "upload_list (temp_tree (enc_name e) w4) \<noteq> []"
    using fs(1) by (auto simp: UploadDirectory_def Let_def split: if_splits)
  have w2: "map_of (Temp w2) (enc_name e) = None"
    "map_of (Temp w2) (archive_name e) = (case archive of Some b \<Rightarrow> Some (FFile b) | None \<Rightarrow> None)"
    using free ne by (auto simp: w2_def split: option.split)
  have w3: "map_of (Temp w3) (enc_name e) \<in> {None, Some (FDir [])}"
    "map_of (Temp w3) (archive_name e) = map_of (Temp w2) (archive_name e)"
    using mkdir_temp_Some [OF _ w2(1), of "mkdir_enc_ok e"] w2(1) ne by (auto simp: w3_def split: option.split)
  have "\<exists>b. archive = Some b \<and> temp_tree (enc_name e) w4 = FDir [(archive_name e, FFile b)]"
  proof (cases "rename_temp (rename_ok e) (archive_name e) (enc_name e) (archive_name e) w3")
    case None
    then have "temp_tree (enc_name e) w4 = FUnreadable \<or> temp_tree (enc_name e) w4 = FDir []"
      using w3(1) by (auto simp: w4_def temp_tree_def)
    then show ?thesis using some upload_list_none by metis
  next
    case (Some w')
    then obtain f dd d' where f: "map_of (Temp w3) (archive_name e) = Some f" "map_of (Temp w3) (enc_name e) = Some dd"
      "tree_put [archive_name e] f dd = Some d'" "w' = set_temp (enc_name e) d' (remove_temp (archive_name e) w3)"
      by (auto simp: rename_temp_def split: if_splits option.splits)
    from f(1) w3(2) w2(2) obtain b where b: "archive = Some b" "f = FFile b" by (auto split: option.splits)
    have "dd = FDir []" using w3(1) f(2) by simp
    then have "d' = FDir [(archive_name e, FFile b)]" using f(3) b(2) by (simp add: set_entry_def)
    then show ?thesis using b(1) Some f(4) by (simp add: w4_def temp_tree_def)
  qed
  then show ?thesis using fs z err by auto
qed
















section \<open>Example\<close>

definition demo_env :: "string pub_env" where
  "demo_env =
     \<lparr>r_stage = ''a1'', r_base = ''b1'', r_title = ''c1'', r_password = ''p1'', r_archive = ''d1'', r_enc = ''e1'',
      r_names = (\<lambda>i. ''n''), obf_name = (\<lambda>p. ''o''), mkdir_ok = True, mkdir_enc_ok = True, rename_ok = True,
      same_dev = (\<lambda>p. True), stage_cancelled = (\<lambda>p. False), upload_cancelled = (\<lambda>i. False),
      extractor = (\<lambda>k s. (s, 0, None)), par2_tool = (\<lambda>s b opts. (s, Inr [])),
      seven_zip = (\<lambda>s pw. (Some [7], None)), send_file = echo_upload, xml_encode = (\<lambda>z. Inr ''nzb''), unix_now = 0\<rparr>"

definition demo_job :: "bool \<Rightarrow> publishJob" where
  "demo_job enc =
     \<lparr>Cfg = \<lparr>P_TempDir = ''/tmp'', P_Obfuscate = False, P_Encrypt = enc, P_Redundancy = 5, P_Threads = 0, P_MemoryMB = 0,
        P_nzb = \<lparr>GeneratorName = ''agent'', SiteURL = [], NNTPGroup = ''alt.binaries.test'', NNTPPoster = ''p''\<rparr>\<rparr>,
      JobName = ''request-7'', PTitle = ''Film'', PRequestID = 7, ContentRoot = ''dl-request-7'',
      Content = FDir [(''a.mkv'', FFile [1, 2])], Describe = False, JProgress = (\<lambda>step m. m)\<rparr>"

definition demo_media :: media where
  "demo_media =
     \<lparr>videoFiles = [], probeVideo = (\<lambda>v. Inl ''no''), screenshots = (\<lambda>v. Inl ''no''), mangaArchive = [],
      mangaPages = (\<lambda>a. Inl ''no''), subtitleToolStatus = [], subtitleTracks = [], subtitleErr = None,
      audioTracks = [], audioErr = None, fingerprints = [], fingerprintErr = None, palette = (\<lambda>s. []),
      ocrPages = (\<lambda>s. ([], []))\<rparr>"

definition demo_world :: world where
  "demo_world = \<lparr>Temp = [(''dl-request-7'', FDir [])], JobsMap = Some [], Slot = False\<rparr>"




section \<open>Properties\<close>

text \<open>
  C12. However it returns (every error of every step included), the pipeline leaves the temporary
  directory as it found it and gives the upload slot back. Once its stage directory was made, the
  entry of the job carries no stage path; when it could not be made, nothing but the hook of the
  caller has touched the map of jobs. It relies on the random names being unused. The screenshots and
  subtitles of the description, which stay inside the content directory for the caller, and panics
  are not part of it.
\<close>

theorem publish_cleans_up:
  assumes "map_of (Temp w) (stage_name e) = None" and "map_of (Temp w) (archive_name e) = None"
    and "map_of (Temp w) (enc_name e) = None" and "stage_name e \<noteq> archive_name e" and "\<not> Slot w"
  shows "map_of (Temp (fst (PublishDirectory e m job w))) = map_of (Temp w)
     \<and> \<not> Slot (fst (PublishDirectory e m job w))
     \<and> (if mkdir_ok e then no_stage_path (JobName job) (JobsMap (fst (PublishDirectory e m job w)))
        else JobsMap (fst (PublishDirectory e m job w)) = JobsMap (if Describe job then progress job ''Analyzing'' w else w))"
  using PublishDirectory_temp [OF assms] PublishDirectory_unpublishes [OF assms(1)] by blast

theorem publish_cleans_up_witness:
  "map_of (Temp (fst (PublishDirectory demo_env demo_media (demo_job True) (demo_world\<lparr>JobsMap := Some [(''request-7'', Some (new_job ''request-7''))]\<rparr>))))
       = map_of (Temp demo_world)
     \<and> no_stage_path ''request-7'' (JobsMap (fst (PublishDirectory demo_env demo_media (demo_job True)
          (demo_world\<lparr>JobsMap := Some [(''request-7'', Some (new_job ''request-7''))]\<rparr>))))"
  using publish_cleans_up [of "demo_world\<lparr>JobsMap := Some [(''request-7'', Some (new_job ''request-7''))]\<rparr>" demo_env demo_media "demo_job True"]
  by (simp add: demo_env_def demo_world_def stage_name_def archive_name_def enc_name_def demo_job_def)

text \<open>
  With encryption on, a publish that succeeds has put exactly one file on Usenet, the password
  archive 7z made of the staged content: its name is the random archive name, it is not empty, and
  the password is in the NZB and in the result. No name and no byte of the content is posted by itself.
\<close>

theorem publish_encrypted:
  assumes "snd (PublishDirectory e m job w) = Inr r" and "P_Encrypt (Cfg job)"
    and "map_of (Temp w) (archive_name e) = None" and "map_of (Temp w) (enc_name e) = None"
    and "distinct [stage_name e, archive_name e, enc_name e]"
  shows "\<exists>staged b segs pre name. seven_zip e staged (r_password e) = (Some b, None) \<and> b \<noteq> []
     \<and> send_file e 1 [archive_name e] pre name 0 (int (length b)) = Inr segs
     \<and> nzb_of e job [\<lparr>FileName = nzb_subject (PTitle job) 1 1 [archive_name e] (length segs), Segments = segs\<rparr>] (r_password e)
         = Inr (NzbData r)
     \<and> PPassword r = r_password e"
proof -
  let ?w1 = "if Describe job then progress job ''Analyzing'' w else w"
  let ?d = "if Describe job then describeContent m no_description else no_description"
  from assms(1) obtain w2 where w2: "mkdir_temp (mkdir_ok e) (stage_name e) ?w1 = Some w2"
    by (auto simp: PublishDirectory_def Let_def split: option.splits)
  let ?w3 = "on_jobs (OpStage (JobName job) (path_join_all [P_TempDir (Cfg job), stage_name e])) w2"
  have body: "snd (stage_body e job ?d ?w3) = Inr r"
    using assms(1) w2 by (simp add: PublishDirectory_def Let_def)
  obtain t q where p: "prepare e job (stage_name e) (temp_tree (stage_name e) (progress job ''Preparing'' ?w3)) = (t, q)" by fastforce
  obtain t' st where par: "par2_step e job (extract_all e t) (Stages ?d) = (t', st)" by fastforce
  let ?w5 = "set_temp (stage_name e) t' (progress job ''PAR2'' (progress job ''Preparing'' ?w3))"
  have enc: "snd (encrypt_step e job (?d\<lparr>Stages := st\<rparr>) ?w5) = Inr r"
    using body p par by (cases q) (simp_all add: stage_body_def Let_def)
  have other: "map_of (Temp ?w5) k = map_of (Temp w) k" if "k \<noteq> stage_name e" for k
    using that mkdir_temp_other [OF w2 that] by simp
  have free: "map_of (Temp ?w5) (archive_name e) = None" "map_of (Temp ?w5) (enc_name e) = None"
    using other assms(3,4,5) by auto
  have ne: "archive_name e \<noteq> enc_name e" using assms(5) by simp
  from encrypt_step_Inr [OF enc assms(2) free ne] show ?thesis using posted_single by fast
qed

theorem publish_encrypted_witness:
  "\<exists>(r :: publishResult) staged b segs pre name. seven_zip demo_env staged (r_password demo_env) = (Some b, None) \<and> b \<noteq> []
     \<and> send_file demo_env 1 [archive_name demo_env] pre name 0 (int (length b)) = Inr segs
     \<and> nzb_of demo_env (demo_job True)
         [\<lparr>FileName = nzb_subject (PTitle (demo_job True)) 1 1 [archive_name demo_env] (length segs), Segments = segs\<rparr>]
         (r_password demo_env) = Inr (NzbData r)
     \<and> PPassword r = r_password demo_env"
proof -
  have "case snd (PublishDirectory demo_env demo_media (demo_job True) demo_world) of Inr r \<Rightarrow> True | Inl err \<Rightarrow> False"
    by code_simp
  then obtain r where r: "snd (PublishDirectory demo_env demo_media (demo_job True) demo_world) = Inr r"
    by (auto split: sum.splits)
  show ?thesis
    by (rule exI [of _ r], rule publish_encrypted [OF r])
       (simp_all add: demo_job_def demo_env_def demo_world_def stage_name_def archive_name_def enc_name_def)
qed



end
