(* ===== verification/Blocklist.thy ===== *)
theory Blocklist
  imports Stores
begin

text \<open>
  The extension blocklist (\<^verbatim>\<open>services/disk_blocklist.go\<close>) and the check of a download directory
  before it is resumed (\<^verbatim>\<open>services/resume_validation.go\<close>). A blocklist is the list of the keys of
  the Go map; \<open>None\<close> is the nil map.
\<close>

section \<open>Which extensions are blocked\<close>

definition DefaultBlockedExtensions :: "string list" where
  "DefaultBlockedExtensions =
   [
    ''.ade'', ''.adp'', ''.app'', ''.application'', ''.appref-ms'', ''.asp'', ''.aspx'', ''.asx'',
    ''.bas'', ''.bat'', ''.bgi'', ''.cab'', ''.cer'', ''.chm'', ''.cmd'', ''.cnt'', ''.com'',
    ''.cpl'', ''.crt'', ''.csh'', ''.der'', ''.diagcab'', ''.exe'', ''.fxp'', ''.gadget'', ''.grp'',
    ''.hlp'', ''.hpj'', ''.hta'', ''.htc'', ''.inf'', ''.ins'', ''.iso'', ''.isp'', ''.its'',
    ''.jar'', ''.jnlp'', ''.js'', ''.jse'', ''.ksh'', ''.lnk'', ''.mad'', ''.maf'', ''.mag'',
    ''.mam'', ''.maq'', ''.mar'', ''.mas'', ''.mat'', ''.mau'', ''.mav'', ''.maw'', ''.mcf'',
    ''.mda'', ''.mdb'', ''.mde'', ''.mdt'', ''.mdw'', ''.mdz'', ''.msc'', ''.msh'', ''.msh1'',
    ''.msh2'', ''.mshxml'', ''.msh1xml'', ''.msh2xml'', ''.msi'', ''.msp'', ''.mst'', ''.msu'',
    ''.ops'', ''.osd'', ''.pcd'', ''.pif'', ''.pl'', ''.plg'', ''.prf'', ''.prg'',
    ''.printerexport'', ''.ps1'', ''.ps1xml'', ''.ps2'', ''.ps2xml'', ''.psc1'', ''.psc2'',
    ''.psd1'', ''.psdm1'', ''.pst'', ''.py'', ''.pyc'', ''.pyo'', ''.pyw'', ''.pyz'', ''.pyzw'',
    ''.reg'', ''.scf'', ''.scr'', ''.sct'', ''.shb'', ''.shs'', ''.sln'', ''.theme'', ''.tmp'',
    ''.url'', ''.vb'', ''.vbe'', ''.vbp'', ''.vbs'', ''.vcxproj'', ''.vhd'', ''.vhdx'',
    ''.vsmacros'', ''.vsw'', ''.webpnp'', ''.website'', ''.ws'', ''.wsc'', ''.wsf'', ''.wsh'',
    ''.xbap'', ''.xll'', ''.xnk'']"

definition normal_ext :: "string \<Rightarrow> string" where
  "normal_ext ext =
     (let e = to_lower (trim_space ext)
      in if e = [] then [] else if has_prefix e ''.'' then e else dot # e)"

definition EffectiveBlocklist :: "string list \<Rightarrow> string list" where
  "EffectiveBlocklist groupList =
     (if groupList = [] then DefaultBlockedExtensions
      else filter (\<lambda>e. e \<noteq> []) (map normal_ext groupList))"

text \<open>The published override; \<open>None\<close> before the first configuration.\<close>

definition SetRemoteBannedExtensions :: "string list \<Rightarrow> string list option" where
  "SetRemoteBannedExtensions exts = Some exts"

definition OnlineBlocklist :: "string list option \<Rightarrow> string list" where
  "OnlineBlocklist remote =
     (case remote of
        Some exts \<Rightarrow> if exts \<noteq> [] then EffectiveBlocklist exts else DefaultBlockedExtensions
      | None \<Rightarrow> DefaultBlockedExtensions)"

section \<open>Removing the blocked files\<close>

definition lower_ext :: "string \<Rightarrow> string" where
  "lower_ext name = to_lower (file_ext name)"

text \<open>The callback records the paths it removes, with their extensions. \<open>base\<close> is the name of the
  walk's root.\<close>

definition remove_cb :: "string \<Rightarrow> string list \<Rightarrow> (fpath \<times> string) list \<Rightarrow> fpath \<Rightarrow> fnode \<Rightarrow> (fpath \<times> string) list \<times> wres" where
  "remove_cb base blocklist acc p n =
     (case node_err n of
        Some e \<Rightarrow> (acc, WErr e)
      | None \<Rightarrow>
          if is_dir n then (acc, WNil)
          else (let ext = lower_ext (if p = [] then base else last p)
                in if ext \<in> set blocklist then (acc @ [(p, ext)], WNil) else (acc, WNil)))"

definition blocklist_or_default :: "string list option \<Rightarrow> string list" where
  "blocklist_or_default blocklist = (case blocklist of None \<Rightarrow> DefaultBlockedExtensions | Some b \<Rightarrow> b)"

definition removed_files :: "string \<Rightarrow> string list option \<Rightarrow> fnode \<Rightarrow> (fpath \<times> string) list" where
  "removed_files base blocklist t = fst (file_walk (remove_cb base (blocklist_or_default blocklist)) [] t)"

text \<open>The result of \<^verbatim>\<open>RemoveBlockedFiles\<close>: how many, and how many per extension.\<close>

definition RemoveBlockedFiles :: "string \<Rightarrow> string list option \<Rightarrow> fnode \<Rightarrow> nat \<times> (string \<Rightarrow> nat)" where
  "RemoveBlockedFiles base blocklist t =
     (let rm = removed_files base blocklist t
      in (length rm, \<lambda>ext. count_list (map snd rm) ext))"

record ExpectedFile =
  EPath :: string
  ELength :: int

definition ExpectedAfterBlocklist :: "ExpectedFile list \<Rightarrow> string list option \<Rightarrow> ExpectedFile list \<times> nat" where
  "ExpectedAfterBlocklist files blocked0 =
     (let blocked = blocklist_or_default blocked0;
          keep = filter (\<lambda>f. lower_ext (EPath f) \<notin> set blocked) files
      in (keep, length files - length keep))"

text \<open>\<^verbatim>\<open>DirHasUsableFiles\<close>: the walk stops with an error of its own at the first usable file;
  nothing else makes it fail.\<close>

definition usable_cb :: "bool \<Rightarrow> fpath \<Rightarrow> fnode \<Rightarrow> bool \<times> wres" where
  "usable_cb found p n =
     (if node_err n \<noteq> None \<or> is_dir n \<or> lsize n = 0 then (found, WNil) else (True, WErr ''found''))"

definition DirHasUsableFiles :: "fnode \<Rightarrow> bool" where
  "DirHasUsableFiles t =
     (case file_walk usable_cb False t of
        (found, r) \<Rightarrow> if r \<noteq> WNil \<and> r \<noteq> WErr ''found'' then True else found)"

section \<open>The order of the extension counts\<close>

text \<open>A pair of the report, ordered by count (largest first) and then by extension.\<close>

datatype extcount = ExtCount (ec_ext: string) (ec_count: nat)

instantiation extcount :: linorder
begin

definition less_eq_extcount :: "extcount \<Rightarrow> extcount \<Rightarrow> bool" where
  "less_eq_extcount a b \<longleftrightarrow> ec_count b < ec_count a \<or> (ec_count a = ec_count b \<and> ec_ext a \<le> ec_ext b)"

definition less_extcount :: "extcount \<Rightarrow> extcount \<Rightarrow> bool" where
  "less_extcount a b \<longleftrightarrow> ec_count b < ec_count a \<or> (ec_count a = ec_count b \<and> ec_ext a < ec_ext b)"

instance
proof
  fix x y z :: extcount
  show "(x < y) = (x \<le> y \<and> \<not> y \<le> x)" by (auto simp: less_eq_extcount_def less_extcount_def)
  show "x \<le> x" by (simp add: less_eq_extcount_def)
  show "x \<le> y \<Longrightarrow> y \<le> z \<Longrightarrow> x \<le> z" by (auto simp: less_eq_extcount_def)
  show "x \<le> y \<Longrightarrow> y \<le> x \<Longrightarrow> x = y" by (cases x; cases y) (auto simp: less_eq_extcount_def)
  show "x \<le> y \<or> y \<le> x" by (auto simp: less_eq_extcount_def)
qed

end

text \<open>\<open>cross_sign\<close> is the multiplication sign of the report.\<close>

definition FormatExtCounts :: "string \<Rightarrow> (string \<times> nat) list \<Rightarrow> string" where
  "FormatExtCounts cross_sign byExt =
     (if byExt = [] then []
      else join '', '' (map (\<lambda>p. ec_ext p @ cross_sign @ itoa (int (ec_count p)))
             (sort (map (\<lambda>(e, c). ExtCount e c) byExt))))"

section \<open>Resuming a download\<close>

definition errSymlinkFound :: string where
  "errSymlinkFound = ''symlink found''"

definition validate_cb :: "nat \<times> int \<Rightarrow> fpath \<Rightarrow> fnode \<Rightarrow> (nat \<times> int) \<times> wres" where
  "validate_cb acc p n =
     (case node_err n of
        Some e \<Rightarrow> (acc, WErr e)
      | None \<Rightarrow>
         (case n of
            FLink k t \<Rightarrow> (acc, WErr errSymlinkFound)
          | FFile b \<Rightarrow> if 0 < length b then ((fst acc + 1, snd acc + int (length b)), WNil) else (acc, WNil)
          | _ \<Rightarrow> (acc, WNil)))"

text \<open>\<open>dir\<close> is the name of the directory (empty when there is none) and \<open>t\<close> what it names, if anything.\<close>

definition ValidatePartialDownload :: "string \<Rightarrow> fnode option \<Rightarrow> int \<Rightarrow> bool" where
  "ValidatePartialDownload dir t expectedBytes =
     (if dir = [] then False
      else (case t of
        None \<Rightarrow> False
      | Some t \<Rightarrow>
          (case resolve t of
             None \<Rightarrow> False
           | Some info \<Rightarrow>
               if \<not> is_dir info then False
               else (case file_walk validate_cb (0, 0) t of
                       ((fileCount, totalBytes), r) \<Rightarrow>
                         if r \<noteq> WNil then False
                         else if fileCount = 0 then False
                         else if expectedBytes > 0 \<and>
                              (totalBytes < expectedBytes div 2 \<or> totalBytes > expectedBytes + expectedBytes div 2)
                         then False
                         else True))))"

section \<open>What is removed\<close>

definition base_name :: "string \<Rightarrow> fpath \<Rightarrow> string" where
  "base_name base p = (if p = [] then base else last p)"

lemma obeys_remove_cb: "obeys no_skip (remove_cb base bl)"
  by (auto simp: obeys_def remove_cb_def no_skip_def Let_def split: option.splits)

lemma removed_files_eq:
  assumes "readable no_skip [] t"
  shows "removed_files base bl t =
    map (\<lambda>(p, n). (p, lower_ext (base_name base p)))
      (filter (\<lambda>(p, n). \<not> is_dir n \<and> lower_ext (base_name base p) \<in> set (blocklist_or_default bl)) (visits no_skip [] t))"
proof -
  let ?bl = "blocklist_or_default bl"
  let ?g = "\<lambda>acc (p, n). if \<not> is_dir n \<and> lower_ext (base_name base p) \<in> set ?bl
      then acc @ [(p, lower_ext (base_name base p))] else acc"
  have fold: "foldl ?g acc vs = acc @ map (\<lambda>(p, n). (p, lower_ext (base_name base p)))
      (filter (\<lambda>(p, n). \<not> is_dir n \<and> lower_ext (base_name base p) \<in> set ?bl) vs)" for acc vs
    by (induction vs arbitrary: acc) (auto split: if_splits)
  have "walk_seq (remove_cb base ?bl) [] (visits no_skip [] t) = (foldl ?g [] (visits no_skip [] t), WNil)"
  proof (rule walk_seq_fold)
    fix s q n assume "(q, n) \<in> set (visits no_skip [] t)"
    then have "node_err n = None" using assms by (cases n) (auto simp: readable_def)
    then show "remove_cb base ?bl s q n = (?g s (q, n), WNil) \<or> remove_cb base ?bl s q n = (?g s (q, n), WSkipDir)"
      by (auto simp: remove_cb_def base_name_def Let_def)
  qed
  then show ?thesis
    by (simp add: removed_files_def file_walk_seq [OF obeys_remove_cb] fold)
qed

lemma removed_iff:
  assumes "wf_tree t" and "readable no_skip [] t"
  shows "(p, e) \<in> set (removed_files base bl t) \<longleftrightarrow>
    (\<exists>n. file_at t p = Some n) \<and> e = lower_ext (base_name base p) \<and> e \<in> set (blocklist_or_default bl)"
proof -
  have "(p, e) \<in> set (removed_files base bl t) \<longleftrightarrow>
      (\<exists>n. (p, n) \<in> set (visits no_skip [] t) \<and> \<not> is_dir n) \<and> e = lower_ext (base_name base p) \<and> e \<in> set (blocklist_or_default bl)"
    unfolding removed_files_eq [OF assms(2)] by force
  then show ?thesis
    using visits_file_at(1) [OF assms(1), of "[]" p _ no_skip] by (simp add: no_skip_def)
qed

text \<open>The extension of a path is that of its last element.\<close>

lemma file_ext_join:
  assumes "slash \<notin> set e"
  shows "file_ext (d @ slash # e) = file_ext e"
proof -
  let ?P = "\<lambda>c. c \<noteq> dot \<and> c \<noteq> slash"
  show ?thesis
  proof (cases "dot \<in> set e")
    case True
    then obtain x where x: "x \<in> set (rev e)" "\<not> ?P x" by auto
    have tw: "takeWhile ?P (rev e @ slash # rev d) = takeWhile ?P (rev e)" by (rule takeWhile_append1 [where P = ?P, OF x])
    have "length (takeWhile ?P (rev e)) < length (rev e)"
    proof -
      have "dropWhile ?P (rev e) \<noteq> []" using x by (auto simp: dropWhile_eq_Nil_conv)
      moreover have "length (takeWhile ?P (rev e)) + length (dropWhile ?P (rev e)) = length (rev e)"
        by (metis length_append takeWhile_dropWhile_id)
      ultimately show ?thesis by (metis add_less_cancel_left add.right_neutral length_greater_0_conv)
    qed
    then show ?thesis using tw by (simp add: file_ext_def Let_def nth_append)
  next
    case False
    then have all: "\<And>x. x \<in> set (rev e) \<Longrightarrow> ?P x" using assms by auto
    have "takeWhile ?P (rev e @ slash # rev d) = rev e @ takeWhile ?P (slash # rev d)"
      by (rule takeWhile_append2 [where P = ?P]) (use all in blast)
    moreover have "takeWhile ?P (rev e) = rev e" using all by (simp add: takeWhile_eq_all_conv)
    ultimately have tw: "takeWhile ?P (rev e @ slash # rev d) = rev e" "takeWhile ?P (rev e) = rev e" by simp_all
    have "slash \<noteq> dot" by (simp add: slash_def dot_def)
    then show ?thesis by (simp add: file_ext_def Let_def tw nth_append)
  qed
qed

lemma file_ext_path: "list_all plain_elem p \<Longrightarrow> p \<noteq> [] \<Longrightarrow> file_ext (join [slash] p) = file_ext (last p)"
proof (cases p rule: rev_cases)
  case (snoc bs e)
  assume "list_all plain_elem p"
  then have "slash \<notin> set e" by (simp add: snoc plain_elem_def)
  then show ?thesis using file_ext_join [of e "join [slash] bs"] by (simp add: snoc join_snoc)
qed simp

section \<open>What a resumable directory is\<close>

lemma obeys_validate_cb: "obeys no_skip validate_cb"
  by (auto simp: obeys_def validate_cb_def no_skip_def split: option.splits fnode.splits)

definition is_link :: "fnode \<Rightarrow> bool" where
  "is_link n = (case n of FLink k t \<Rightarrow> True | _ \<Rightarrow> False)"

definition payload :: "(fpath \<times> fnode) list \<Rightarrow> (fpath \<times> fnode) list" where
  "payload vs = filter (\<lambda>(p, n). \<not> is_dir n \<and> 0 < lsize n) vs"

definition no_link :: "fpath \<times> fnode \<Rightarrow> bool" where
  "no_link v \<longleftrightarrow> snd v \<noteq> FUnreadable \<and> \<not> is_link (snd v)"

lemma no_link_simps [simp]:
  "no_link (p, FFile b)" "no_link (p, FDir xs)" "\<not> no_link (p, FUnreadable)" "\<not> no_link (p, FLink k u)"
  by (simp_all add: no_link_def is_link_def)

definition payload_bytes :: "(fpath \<times> fnode) list \<Rightarrow> int" where
  "payload_bytes vs = int (sum_list (map (\<lambda>v. lsize (snd v)) (payload vs)))"

lemma validate_seq_ok:
  "list_all no_link vs \<Longrightarrow>
     walk_seq validate_cb (c, b) vs = ((c + length (payload vs), b + payload_bytes vs), WNil)"
proof (induction vs arbitrary: c b)
  case Nil
  then show ?case by (simp add: payload_def payload_bytes_def)
next
  case (Cons v vs)
  obtain p n where v: "v = (p, n)" by fastforce
  from Cons.prems have vs: "list_all no_link vs" by simp
  show ?case
    using Cons.IH [OF vs] Cons.prems
    by (cases n) (auto simp: v validate_cb_def payload_def payload_bytes_def)
qed

lemma validate_seq_bad:
  "\<not> list_all no_link vs \<Longrightarrow> \<exists>s e. walk_seq validate_cb (c, b) vs = (s, WErr e)"
proof (induction vs arbitrary: c b)
  case Nil
  then show ?case by simp
next
  case (Cons v vs)
  obtain p n where v: "v = (p, n)" by fastforce
  show ?case
  proof (cases n)
    case (FFile u)
    then have "\<not> list_all no_link vs" using Cons.prems by (simp add: v FFile)
    then show ?thesis using Cons.IH by (simp add: v FFile validate_cb_def)
  next
    case (FDir xs)
    then have "\<not> list_all no_link vs" using Cons.prems by (simp add: v FDir)
    then show ?thesis using Cons.IH by (simp add: v FDir validate_cb_def)
  qed (simp_all add: v validate_cb_def)
qed

lemma validate_walk_ok:
  "list_all no_link (visits no_skip [] t) \<Longrightarrow> file_walk validate_cb (0, 0) t =
     ((length (payload (visits no_skip [] t)), payload_bytes (visits no_skip [] t)), WNil)"
  by (simp add: file_walk_seq [OF obeys_validate_cb] validate_seq_ok)

lemma validate_walk_bad:
  "\<not> list_all no_link (visits no_skip [] t) \<Longrightarrow> snd (file_walk validate_cb (0, 0) t) \<noteq> WNil"
  using validate_seq_bad [of "visits no_skip [] t" 0 0] by (auto simp: file_walk_seq [OF obeys_validate_cb])

section \<open>Properties\<close>

text \<open>
  The two halves of the blocklist agree: of the files a torrent declares and that are on disk,
  exactly those that \<^verbatim>\<open>RemoveBlockedFiles\<close> leaves are still expected by the pre-stage check
  afterwards, in a tree that can be listed.
\<close>

theorem expected_iff_not_removed:
  assumes "wf_tree t" and "readable no_skip [] t"
    and "f \<in> set files" and "EPath f = join [slash] p" and "list_all plain_elem p" and "p \<noteq> []"
    and "file_at t p = Some n"
  shows "f \<in> set (fst (ExpectedAfterBlocklist files bl)) \<longleftrightarrow> p \<notin> fst ` set (removed_files base bl t)"
proof -
  have e: "lower_ext (EPath f) = lower_ext (base_name base p)"
    using file_ext_path [OF assms(5,6)] assms(4,6) by (simp add: lower_ext_def base_name_def)
  have "p \<in> fst ` set (removed_files base bl t) \<longleftrightarrow> (\<exists>e. (p, e) \<in> set (removed_files base bl t))" by force
  also have "\<dots> \<longleftrightarrow> lower_ext (base_name base p) \<in> set (blocklist_or_default bl)"
    using assms(7) by (auto simp: removed_iff [OF assms(1,2)])
  finally show ?thesis using assms(3) e by (auto simp: ExpectedAfterBlocklist_def Let_def)
qed

theorem expected_iff_not_removed_witness:
  "\<lparr>EPath = ''a/setup.exe'', ELength = 1\<rparr> \<in> set (fst (ExpectedAfterBlocklist [\<lparr>EPath = ''a/setup.exe'', ELength = 1\<rparr>] None))
   \<longleftrightarrow> [''a'', ''setup.exe''] \<notin> fst ` set (removed_files ''dl'' None (FDir [(''a'', FDir [(''setup.exe'', FFile [1])])]))"
  by (rule expected_iff_not_removed [where n = "FFile [1]"])
     (simp_all add: readable_def slash_def plain_elem_def file_at_Cons file_at_file no_skip_def)

text \<open>
  The removal is not best-effort: a directory that cannot be listed ends the walk, and every blocked
  file after it stays.
\<close>

theorem blocklist_walk_aborts:
  "removed_files base bl (FDir ((a, FUnreadable) # xs)) = []"
  by (simp add: removed_files_def file_walk_def remove_cb_def)

text \<open>
  An empty list published by the site gives the default list, and a list of one blank entry gives an
  empty blocklist, which blocks nothing.
\<close>

theorem empty_override:
  "OnlineBlocklist (SetRemoteBannedExtensions []) = DefaultBlockedExtensions
   \<and> OnlineBlocklist (SetRemoteBannedExtensions ['' '']) = []"
  by (simp add: OnlineBlocklist_def SetRemoteBannedExtensions_def EffectiveBlocklist_def normal_ext_def
      trim_space_def trim_by_def trim_left_by_def trim_right_by_def is_space_def)

text \<open>
  A directory is accepted for resuming exactly when it exists as a real directory, everything below
  it can be listed, it holds no symbolic link, at least one non-empty file, and (when a size is
  expected) between half and one and a half times the expected bytes.
\<close>

theorem resume_accepts:
  "ValidatePartialDownload dir (Some t) expectedBytes \<longleftrightarrow>
     (let vs = visits no_skip [] t
      in dir \<noteq> [] \<and> is_dir t \<and> list_all no_link vs \<and> payload vs \<noteq> []
         \<and> (expectedBytes \<le> 0 \<or> (expectedBytes div 2 \<le> payload_bytes vs
              \<and> payload_bytes vs \<le> expectedBytes + expectedBytes div 2)))"
proof -
  have link: "\<not> list_all no_link (visits no_skip [] t)" if "is_link t"
    using that by (cases t) (auto simp: is_link_def no_link_def)
  have res: "resolve t = Some t" if "\<not> is_link t" using that by (cases t) (auto simp: is_link_def)
  show ?thesis
  proof (cases "list_all no_link (visits no_skip [] t)")
    case False
    then show ?thesis
      using validate_walk_bad [OF False]
      by (auto simp: ValidatePartialDownload_def Let_def split: option.splits prod.splits)
  next
    case True
    then have "resolve t = Some t" using res link by blast
    then show ?thesis
      using True validate_walk_ok [OF True] by (auto simp: ValidatePartialDownload_def Let_def)
  qed
qed

theorem resume_accepts_witness:
  "ValidatePartialDownload ''dl-1'' (Some (FDir [(''a.mkv'', FFile [1, 2])])) 3"
  by (subst resume_accepts) (simp add: payload_def payload_bytes_def no_skip_def Let_def)

end
