(* ===== verification/Tables.thy ===== *)
theory Tables
  imports Paths Complex_Main
begin

text \<open>
  The tables of the agent's SQLite file (\<^verbatim>\<open>storage/migrations\<close>) as lists of rows in row order, with
  the statements the storage package issues: insert with the constraints of the schema, update and
  delete with a condition, and the selection of one row by an order. Instants are integers. A
  constraint that fails is an error of \<open>db_error\<close>; a failure of the file itself is not modelled.
\<close>

datatype db_error =
    Unique string
  | ForeignKey
  | Check string
  | NotFound
  | Invalid string

record group_row =
  g_id :: int
  g_name :: string
  g_type :: string
  g_newsgroups :: "string list"
  g_bans :: "string list"
  g_screenshots :: "int option"
  g_sample_seconds :: "int option"
  g_par2 :: "int option"
  g_obfuscate :: "bool option"
  g_watermark :: string
  g_source :: string
  g_version :: int
  g_created :: int
  g_updated :: int

record watch_row =
  w_id :: int
  w_path :: string
  w_group :: "int option"
  w_enabled :: bool
  w_created :: int
  w_updated :: int

record job_row =
  j_id :: int
  j_source :: string
  j_title :: string
  j_group :: "int option"
  j_group_name :: string
  j_status :: string
  j_phase :: string
  j_progress :: rat
  j_error :: "string option"
  j_nzb :: "string option"
  j_password :: "string option"
  j_created :: int
  j_started :: "int option"
  j_completed :: "int option"

record offer_row =
  o_hash :: string
  o_path :: string
  o_size :: int
  o_seen :: int
  o_torrent :: string
  o_source :: string

text \<open>The \<open>_seq\<close> fields are the counters of \<^verbatim>\<open>AUTOINCREMENT\<close>.\<close>

record db =
  groups :: "group_row list"
  groups_seq :: int
  watches :: "watch_row list"
  watches_seq :: int
  jobs :: "job_row list"
  jobs_seq :: int
  offers :: "offer_row list"
  cursors :: "(string \<times> int) list"

definition empty_db :: db where
  "empty_db = \<lparr>groups = [], groups_seq = 0, watches = [], watches_seq = 0, jobs = [], jobs_seq = 0,
               offers = [], cursors = []\<rparr>"

section \<open>Statements\<close>

definition update_where :: "('r \<Rightarrow> bool) \<Rightarrow> ('r \<Rightarrow> 'r) \<Rightarrow> 'r list \<Rightarrow> 'r list" where
  "update_where p f rs = map (\<lambda>r. if p r then f r else r) rs"

definition delete_where :: "('r \<Rightarrow> bool) \<Rightarrow> 'r list \<Rightarrow> 'r list" where
  "delete_where p rs = filter (\<lambda>r. \<not> p r) rs"

definition affected :: "('r \<Rightarrow> bool) \<Rightarrow> 'r list \<Rightarrow> nat" where
  "affected p rs = length (filter p rs)"

text \<open>The first row no other row comes before: \<^verbatim>\<open>ORDER BY ... LIMIT 1\<close>.\<close>

fun first_by :: "('r \<Rightarrow> 'r \<Rightarrow> bool) \<Rightarrow> 'r list \<Rightarrow> 'r option" where
  "first_by before [] = None"
| "first_by before (r # rs) =
     (case first_by before rs of None \<Rightarrow> Some r | Some s \<Rightarrow> if before s r then Some s else Some r)"

definition find_row :: "('r \<Rightarrow> bool) \<Rightarrow> 'r list \<Rightarrow> 'r option" where
  "find_row p rs = find p rs"

definition fk_ok :: "int option \<Rightarrow> db \<Rightarrow> bool" where
  "fk_ok gid d = (case gid of None \<Rightarrow> True | Some g \<Rightarrow> g \<in> set (map g_id (groups d)))"

text \<open>\<^verbatim>\<open>ON DELETE SET NULL\<close>: what the deletion of a group does to the rows that refer to it.\<close>

definition unlink_group :: "int \<Rightarrow> db \<Rightarrow> db" where
  "unlink_group g d =
     d\<lparr>watches := update_where (\<lambda>w. w_group w = Some g) (\<lambda>w. w\<lparr>w_group := None\<rparr>) (watches d),
       jobs := update_where (\<lambda>j. j_group j = Some g) (\<lambda>j. j\<lparr>j_group := None\<rparr>) (jobs d)\<rparr>"

section \<open>Facts about statements\<close>

named_theorems tables

lemma length_update_where [simp]: "length (update_where p f rs) = length rs"
  by (simp add: update_where_def)

lemma affected_0 [simp]: "affected p rs = 0 \<longleftrightarrow> (\<forall>r \<in> set rs. \<not> p r)"
  by (auto simp: affected_def filter_empty_conv)

lemma in_update_where [tables]:
  "r \<in> set (update_where p f rs) \<longleftrightarrow> (\<exists>s \<in> set rs. r = (if p s then f s else s))"
  by (auto simp: update_where_def)

lemma in_delete_where [tables]: "r \<in> set (delete_where p rs) \<longleftrightarrow> r \<in> set rs \<and> \<not> p r"
  by (auto simp: delete_where_def)

lemma update_where_keeps [tables]:
  "(\<And>r. k (f r) = k r) \<Longrightarrow> map k (update_where p f rs) = map k rs"
  by (auto simp: update_where_def)

lemma distinct_delete_where [tables]: "distinct (map k rs) \<Longrightarrow> distinct (map k (delete_where p rs))"
  by (simp add: delete_where_def distinct_map_filter)

lemma update_where_all: "\<forall>r \<in> set rs. Q r \<Longrightarrow> (\<And>r. r \<in> set rs \<Longrightarrow> p r \<Longrightarrow> Q r \<Longrightarrow> Q (f r)) \<Longrightarrow> \<forall>r \<in> set (update_where p f rs). Q r"
  by (auto simp: update_where_def)

lemma first_by_mem: "first_by before rs = Some r \<Longrightarrow> r \<in> set rs"
  by (induction rs arbitrary: r) (auto split: option.splits if_splits)

lemma first_by_None [simp]: "first_by before rs = None \<longleftrightarrow> rs = []"
  by (cases rs) (auto split: option.splits)

lemma first_by_least:
  "first_by (\<lambda>a b. (f a :: 'k :: linorder) < f b) rs = Some r \<Longrightarrow> s \<in> set rs \<Longrightarrow> f r \<le> f s"
proof (induction rs arbitrary: r)
  case (Cons x rs)
  then show ?case by (fastforce split: option.splits if_splits)
qed simp

lemma first_by_sort:
  "first_by (\<lambda>a b. (f a :: 'k :: linorder) < f b) rs = Some r \<Longrightarrow> sort_key f rs = r # sort_key f (remove1 r rs)"
proof (induction rs arbitrary: r)
  case (Cons x rs)
  show ?case
  proof (cases "first_by (\<lambda>a b. f a < f b) rs")
    case None
    then show ?thesis using Cons.prems by simp
  next
    case (Some y)
    have s: "sort_key f rs = y # sort_key f (remove1 y rs)" by (rule Cons.IH [OF Some])
    show ?thesis
    proof (cases "f y < f x")
      case True
      then have r: "r = y" using Some Cons.prems by simp
      have "x \<noteq> y" using True by auto
      then show ?thesis using True s by (simp add: r)
    next
      case False
      then have r: "r = x" using Some Cons.prems by simp
      have "f x \<le> f y" using False by simp
      then show ?thesis using s by (simp add: r)
    qed
  qed
qed simp

lemma first_by_single: "(\<And>s. s \<in> set rs \<Longrightarrow> s = r) \<Longrightarrow> r \<in> set rs \<Longrightarrow> first_by before rs = Some r"
  by (metis first_by_None first_by_mem list.set_cases list.distinct(1) not_None_eq)

lemma update_by_key:
  assumes "distinct (map k rs)" and "r \<in> set rs"
  shows "update_where (\<lambda>s. k s = k r) f rs = map (\<lambda>s. if s = r then f s else s) rs"
  unfolding update_where_def
proof (rule map_cong [OF refl])
  fix s assume "s \<in> set rs"
  then show "(if k s = k r then f s else s) = (if s = r then f s else s)"
    using assms by (auto dest: inj_onD [OF distinct_map [THEN iffD1, THEN conjunct2]])
qed

lemma filter_update_leaves:
  "distinct rs \<Longrightarrow> r \<in> set rs \<Longrightarrow> q r \<Longrightarrow> \<not> q (f r) \<Longrightarrow>
   filter q (map (\<lambda>s. if s = r then f s else s) rs) = remove1 r (filter q rs)"
proof (induction rs)
  case (Cons x rs)
  show ?case
  proof (cases "x = r")
    case True
    then have "map (\<lambda>s. if s = r then f s else s) rs = rs" using Cons.prems by (auto intro: map_idI)
    then show ?thesis using True Cons.prems by simp
  next
    case False
    then show ?thesis using Cons by auto
  qed
qed simp

text \<open>Setting a unique column of the one row with a given key to a value no other row has.\<close>

lemma distinct_update_one:
  assumes "distinct (map k rs)" and "distinct (map i rs)" and "\<And>r. k (f r) = n"
    and "n \<notin> set (map k (delete_where (\<lambda>r. i r = c) rs))"
  shows "distinct (map k (update_where (\<lambda>r. i r = c) f rs))"
  using assms(1,2,4)
proof (induction rs)
  case Nil
  then show ?case by (simp add: update_where_def)
next
  case (Cons x rs)
  have sub: "set (map k (update_where (\<lambda>r. i r = c) f rs)) \<subseteq> insert n (set (map k rs))"
    using assms(3) by (auto simp: update_where_def)
  show ?case
  proof (cases "i x = c")
    case True
    then have "\<forall>r \<in> set rs. i r \<noteq> c" using Cons.prems(2) by (force simp: image_iff)
    then have "update_where (\<lambda>r. i r = c) f rs = rs" "delete_where (\<lambda>r. i r = c) rs = rs"
      by (auto simp: update_where_def delete_where_def intro!: map_idI filter_True)
    then show ?thesis using Cons.prems True assms(3) by (simp add: update_where_def delete_where_def)
  next
    case False
    then have "k x \<noteq> n" "k x \<notin> set (map k rs)" using Cons.prems by (auto simp: delete_where_def)
    moreover have "distinct (map k (update_where (\<lambda>r. i r = c) f rs))"
      using Cons False by (auto simp: delete_where_def)
    ultimately show ?thesis using sub False by (auto simp: update_where_def)
  qed
qed

lemma find_row_update:
  "(\<And>r. p (f r) = p r) \<Longrightarrow> find_row p (update_where p f rs) = map_option f (find_row p rs)"
  unfolding find_row_def update_where_def by (induction rs) auto

lemma find_row_update_other:
  "(\<And>r. q r \<Longrightarrow> \<not> p r) \<Longrightarrow> (\<And>r. p r \<Longrightarrow> \<not> q (f r)) \<Longrightarrow> find_row q (update_where p f rs) = find_row q rs"
  unfolding find_row_def update_where_def by (induction rs) auto

lemma find_row_append: "find_row p (rs @ [r]) = (case find_row p rs of Some s \<Rightarrow> Some s | None \<Rightarrow> if p r then Some r else None)"
  unfolding find_row_def by (induction rs) auto

end
