(* ===== verification/Jobs.thy ===== *)
theory Jobs
  imports Tables FileTree
begin

text \<open>
  The offline jobs: \<^verbatim>\<open>storage/jobs.go\<close>, the processor loop and the status transitions of
  \<^verbatim>\<open>services/network_offline_processor.go\<close>, and the watcher of
  \<^verbatim>\<open>services/network_offline_watcher.go\<close>. The pipeline of one job is a parameter of the loop.
\<close>

definition statuses :: "string list" where
  "statuses = [''queued'', ''processing'', ''completed'', ''failed'', ''cancelled'']"

record OfflineJob =
  ID :: int
  SourcePath :: string
  Title :: string
  GroupID :: "int option"
  GroupNameAtCreation :: string
  Status :: string
  Phase :: string
  Progress :: rat
  Error :: string
  NzbPath :: string
  Password :: string
  CreatedAt :: "int option"
  StartedAt :: "int option"
  CompletedAt :: "int option"

section \<open>Operations\<close>

definition coalesce :: "string option \<Rightarrow> string" where
  "coalesce v = (case v of None \<Rightarrow> [] | Some s \<Rightarrow> s)"

definition scanJob :: "job_row \<Rightarrow> OfflineJob" where
  "scanJob r =
     \<lparr>ID = j_id r, SourcePath = j_source r, Title = j_title r, GroupID = j_group r,
      GroupNameAtCreation = j_group_name r, Status = j_status r, Phase = j_phase r, Progress = j_progress r,
      Error = coalesce (j_error r), NzbPath = coalesce (j_nzb r), Password = coalesce (j_password r),
      CreatedAt = Some (j_created r), StartedAt = j_started r, CompletedAt = j_completed r\<rparr>"

definition job_of :: "int \<Rightarrow> OfflineJob \<Rightarrow> job_row" where
  "job_of i j =
     \<lparr>j_id = i, j_source = SourcePath j, j_title = Title j, j_group = GroupID j,
      j_group_name = GroupNameAtCreation j, j_status = Status j, j_phase = Phase j, j_progress = Progress j,
      j_error = None, j_nzb = None, j_password = None,
      j_created = (case CreatedAt j of Some t \<Rightarrow> t | None \<Rightarrow> 0), j_started = None, j_completed = None\<rparr>"

definition CreateOfflineJob :: "int \<Rightarrow> OfflineJob \<Rightarrow> db \<Rightarrow> db \<times> (db_error + OfflineJob)" where
  "CreateOfflineJob now j0 d =
     (let j1 = (if Status j0 = [] then j0\<lparr>Status := ''queued''\<rparr> else j0);
          j = (if CreatedAt j1 = None then j1\<lparr>CreatedAt := Some now\<rparr> else j1)
      in if Status j \<notin> set statuses then (d, Inl (Check ''status''))
         else if SourcePath j \<in> set (map j_source (jobs d)) then (d, Inl (Unique ''source_path''))
         else if \<not> fk_ok (GroupID j) d then (d, Inl ForeignKey)
         else (d\<lparr>jobs := jobs d @ [job_of (jobs_seq d + 1) j], jobs_seq := jobs_seq d + 1\<rparr>,
               Inr (j\<lparr>ID := jobs_seq d + 1\<rparr>)))"

definition queued :: "job_row \<Rightarrow> bool" where
  "queued r \<longleftrightarrow> j_status r = ''queued''"

definition processing :: "job_row \<Rightarrow> bool" where
  "processing r \<longleftrightarrow> j_status r = ''processing''"

text \<open>\<^verbatim>\<open>ORDER BY created_at ASC LIMIT 1\<close> (the first row among equals) and
  \<^verbatim>\<open>ORDER BY started_at DESC LIMIT 1\<close> (a null comes last).\<close>

definition next_queued :: "job_row list \<Rightarrow> job_row option" where
  "next_queued rs = first_by (\<lambda>a b. j_created a < j_created b) (filter queued rs)"

definition later_start :: "job_row \<Rightarrow> job_row \<Rightarrow> bool" where
  "later_start a b =
     (case j_started a of None \<Rightarrow> False
      | Some s \<Rightarrow> (case j_started b of None \<Rightarrow> True | Some t \<Rightarrow> t < s))"

definition last_started :: "job_row list \<Rightarrow> job_row option" where
  "last_started rs = first_by later_start (filter processing rs)"

definition start_row :: "int \<Rightarrow> job_row \<Rightarrow> job_row" where
  "start_row now r = r\<lparr>j_status := ''processing'', j_started := Some now, j_phase := ''starting''\<rparr>"

definition ClaimNextJob :: "int \<Rightarrow> db \<Rightarrow> db \<times> (db_error + OfflineJob option)" where
  "ClaimNextJob now d =
     (case next_queued (jobs d) of
        None \<Rightarrow> (d, Inr None)
      | Some r \<Rightarrow>
          (let d' = d\<lparr>jobs := update_where (\<lambda>s. j_id s = j_id r) (start_row now) (jobs d)\<rparr>
           in (d', case last_started (jobs d') of None \<Rightarrow> Inl NotFound | Some s \<Rightarrow> Inr (Some (scanJob s)))))"

definition SourcePathExists :: "string \<Rightarrow> db \<Rightarrow> bool" where
  "SourcePathExists path d = (0 < affected (\<lambda>r. j_source r = path) (jobs d))"

definition UpdateJobPhase :: "int \<Rightarrow> string \<Rightarrow> rat \<Rightarrow> db \<Rightarrow> db" where
  "UpdateJobPhase i phase pct d =
     d\<lparr>jobs := update_where (\<lambda>r. j_id r = i) (\<lambda>r. r\<lparr>j_phase := phase, j_progress := pct\<rparr>) (jobs d)\<rparr>"

definition done_row :: "int \<Rightarrow> string \<Rightarrow> string \<Rightarrow> job_row \<Rightarrow> job_row" where
  "done_row now nzb pw r =
     r\<lparr>j_status := ''completed'', j_phase := ''done'', j_progress := 100,
       j_nzb := Some nzb, j_password := Some pw, j_completed := Some now\<rparr>"

definition MarkJobCompleted :: "int \<Rightarrow> int \<Rightarrow> string \<Rightarrow> string \<Rightarrow> db \<Rightarrow> db" where
  "MarkJobCompleted now i nzb pw d = d\<lparr>jobs := update_where (\<lambda>r. j_id r = i) (done_row now nzb pw) (jobs d)\<rparr>"

definition failed_row :: "int \<Rightarrow> string \<Rightarrow> job_row \<Rightarrow> job_row" where
  "failed_row now msg r = r\<lparr>j_status := ''failed'', j_error := Some msg, j_completed := Some now\<rparr>"

definition MarkJobFailed :: "int \<Rightarrow> int \<Rightarrow> string \<Rightarrow> db \<Rightarrow> db" where
  "MarkJobFailed now i msg d = d\<lparr>jobs := update_where (\<lambda>r. j_id r = i) (failed_row now msg) (jobs d)\<rparr>"

definition reset_row :: "job_row \<Rightarrow> job_row" where
  "reset_row r =
     r\<lparr>j_status := ''queued'', j_phase := [], j_progress := 0, j_error := None, j_nzb := None,
       j_started := None, j_completed := None\<rparr>"

definition ResetQueuedJob :: "int \<Rightarrow> db \<Rightarrow> db \<times> db_error option" where
  "ResetQueuedJob i d =
     (d\<lparr>jobs := update_where (\<lambda>r. j_id r = i) reset_row (jobs d)\<rparr>,
      if affected (\<lambda>r. j_id r = i) (jobs d) = 0 then Some NotFound else None)"

definition requeue_row :: "job_row \<Rightarrow> job_row" where
  "requeue_row r = r\<lparr>j_status := ''queued'', j_phase := [], j_progress := 0, j_started := None\<rparr>"

definition RequeueStuckJobs :: "db \<Rightarrow> db \<times> nat" where
  "RequeueStuckJobs d =
     (d\<lparr>jobs := update_where processing requeue_row (jobs d)\<rparr>, affected processing (jobs d))"

definition DeleteJob :: "int \<Rightarrow> db \<Rightarrow> db \<times> db_error option" where
  "DeleteJob i d =
     (d\<lparr>jobs := delete_where (\<lambda>r. j_id r = i) (jobs d)\<rparr>,
      if affected (\<lambda>r. j_id r = i) (jobs d) = 0 then Some NotFound else None)"

definition CountJobsByStatus :: "db \<Rightarrow> string \<Rightarrow> nat option" where
  "CountJobsByStatus d =
     map_of (map (\<lambda>s. (s, affected (\<lambda>r. j_status r = s) (jobs d))) (remdups (map j_status (jobs d))))"

definition ListOfflineJobs :: "int \<Rightarrow> db \<Rightarrow> OfflineJob list" where
  "ListOfflineJobs limit d =
     (let n = (if limit \<le> 0 then 100 else limit)
      in map scanJob (take (nat n) (sort_key (\<lambda>r. - j_created r) (jobs d))))"

section \<open>The processor\<close>

text \<open>The pipeline of one job may publish phases; its result is an error or the pair of NZB path and
  password. \<open>StartOfflineProcessor\<close> goes through a list of polls, each with the instants its claim
  and its final status are written at; a poll that finds nothing sleeps.\<close>

definition runOneOfflineJob ::
  "(OfflineJob \<Rightarrow> (string \<times> rat) list \<times> (string + string \<times> string)) \<Rightarrow> int \<Rightarrow> OfflineJob \<Rightarrow> db \<Rightarrow> db" where
  "runOneOfflineJob pipeline now j d =
     (let (phases, res) = pipeline j;
          d1 = foldl (\<lambda>d (p, pct). UpdateJobPhase (ID j) p pct d) d phases
      in case res of
           Inl err \<Rightarrow> MarkJobFailed now (ID j) err d1
         | Inr (nzb, pw) \<Rightarrow> MarkJobCompleted now (ID j) nzb pw d1)"

fun StartOfflineProcessor ::
  "(OfflineJob \<Rightarrow> (string \<times> rat) list \<times> (string + string \<times> string)) \<Rightarrow> (int \<times> int) list \<Rightarrow> db \<Rightarrow> db \<times> OfflineJob list" where
  "StartOfflineProcessor pipeline [] d = (d, [])"
| "StartOfflineProcessor pipeline ((t0, t1) # polls) d =
     (case ClaimNextJob t0 d of
        (d1, Inl e) \<Rightarrow> StartOfflineProcessor pipeline polls d1
      | (d1, Inr None) \<Rightarrow> StartOfflineProcessor pipeline polls d1
      | (d1, Inr (Some j)) \<Rightarrow>
          (case StartOfflineProcessor pipeline polls (runOneOfflineJob pipeline t1 j d1) of
             (d2, js) \<Rightarrow> (d2, j # js)))"

section \<open>The queue in claiming order\<close>

definition queue_of :: "db \<Rightarrow> job_row list" where
  "queue_of d = sort_key j_created (filter queued (jobs d))"

text \<open>What every reachable table of jobs satisfies; \<open>Database\<close> proves it of the whole store.\<close>

definition job_row_ok :: "job_row \<Rightarrow> bool" where
  "job_row_ok r \<longleftrightarrow>
     j_status r \<in> set statuses
     \<and> (queued r \<longrightarrow> j_started r = None \<and> j_completed r = None)
     \<and> (processing r \<longrightarrow> j_started r \<noteq> None \<and> j_completed r = None)
     \<and> (j_status r = ''completed'' \<longrightarrow> j_completed r \<noteq> None \<and> j_nzb r \<noteq> None)
     \<and> (j_status r = ''failed'' \<longrightarrow> j_completed r \<noteq> None \<and> j_error r \<noteq> None)"

definition jobs_ok :: "db \<Rightarrow> bool" where
  "jobs_ok d \<longleftrightarrow>
     distinct (map j_id (jobs d)) \<and> (\<forall>r \<in> set (jobs d). j_id r \<le> jobs_seq d)
     \<and> distinct (map j_source (jobs d))"

lemma start_row_fields [simp]:
  "j_id (start_row now r) = j_id r" "j_source (start_row now r) = j_source r" "j_group (start_row now r) = j_group r"
  "j_created (start_row now r) = j_created r" "processing (start_row now r)" "\<not> queued (start_row now r)"
  "j_started (start_row now r) = Some now"
  by (simp_all add: start_row_def processing_def queued_def)

lemma end_row_fields [simp]:
  "j_id (done_row now nzb pw r) = j_id r" "j_source (done_row now nzb pw r) = j_source r"
  "j_group (done_row now nzb pw r) = j_group r" "\<not> queued (done_row now nzb pw r)" "\<not> processing (done_row now nzb pw r)"
  "j_id (failed_row now msg r) = j_id r" "j_source (failed_row now msg r) = j_source r"
  "j_group (failed_row now msg r) = j_group r" "\<not> queued (failed_row now msg r)" "\<not> processing (failed_row now msg r)"
  by (simp_all add: done_row_def failed_row_def processing_def queued_def)

lemma reset_row_fields [simp]:
  "j_id (reset_row r) = j_id r" "j_source (reset_row r) = j_source r" "j_group (reset_row r) = j_group r"
  "queued (reset_row r)" "\<not> processing (reset_row r)"
  "j_id (requeue_row r) = j_id r" "j_source (requeue_row r) = j_source r" "j_group (requeue_row r) = j_group r"
  "j_created (requeue_row r) = j_created r" "queued (requeue_row r)" "\<not> processing (requeue_row r)"
  by (simp_all add: reset_row_def requeue_row_def processing_def queued_def)

lemma queued_not_processing: "queued r \<Longrightarrow> \<not> processing r"
  by (auto simp: queued_def processing_def)

lemma next_queued_sort:
  assumes "next_queued (jobs d) = Some r"
  shows "queue_of d = r # sort_key j_created (remove1 r (filter queued (jobs d)))"
  using first_by_sort [of j_created "filter queued (jobs d)" r] assms by (simp add: next_queued_def queue_of_def)

lemma next_queued_mem:
  assumes "next_queued rs = Some r"
  shows "r \<in> set rs" and "queued r"
  using first_by_mem [of _ "filter queued rs" r] assms by (auto simp: next_queued_def)

lemma next_queued_None: "next_queued rs = None \<longleftrightarrow> filter queued rs = []"
  by (simp add: next_queued_def)

text \<open>The row a claim picks out again, when every other processing row started earlier.\<close>

lemma last_started_claimed:
  assumes m: "map (\<lambda>s. if s = r then start_row now s else s) (jobs d) = js"
    and r: "r \<in> set (jobs d)" and d: "distinct (jobs d)"
    and old: "\<forall>s \<in> set (jobs d). processing s \<longrightarrow> (\<exists>t < now. j_started s = Some t)"
  shows "last_started js = Some (start_row now r)"
proof -
  have mem: "start_row now r \<in> set (filter processing js)" using r m by force
  have uniq: "s = start_row now r \<or> later_start (start_row now r) s \<and> \<not> later_start s (start_row now r)"
    if "s \<in> set (filter processing js)" for s
  proof -
    from that m obtain s0 where "s0 \<in> set (jobs d)" "s = (if s0 = r then start_row now s0 else s0)" "processing s" by auto
    then show ?thesis using old by (auto simp: later_start_def split: if_splits)
  qed
  have gen: "\<lbrakk>x \<in> set xs; \<forall>s \<in> set xs. s = x \<or> later_start x s \<and> \<not> later_start s x\<rbrakk> \<Longrightarrow> first_by later_start xs = Some x" for x xs
  proof (induction xs)
    case (Cons y ys)
    show ?case
    proof (cases "x \<in> set ys")
      case True
      then have "first_by later_start ys = Some x" using Cons by simp
      moreover have "y = x \<or> later_start x y" using Cons.prems by auto
      ultimately show ?thesis by auto
    next
      case False
      then have "y = x" using Cons.prems by simp
      show ?thesis
      proof (cases "first_by later_start ys")
        case (Some z)
        then have "z \<in> set ys" by (rule first_by_mem)
        then have "\<not> later_start z x" using Cons.prems False by auto
        then show ?thesis using Some \<open>y = x\<close> by simp
      qed (simp add: \<open>y = x\<close>)
    qed
  qed simp
  show ?thesis unfolding last_started_def using mem uniq by (intro gen) auto
qed

lemma claim_alt:
  assumes ok: "jobs_ok d" and r: "next_queued (jobs d) = Some r"
    and old: "\<forall>s \<in> set (jobs d). processing s \<longrightarrow> (\<exists>t < now. j_started s = Some t)"
  shows "ClaimNextJob now d =
    (d\<lparr>jobs := map (\<lambda>s. if s = r then start_row now s else s) (jobs d)\<rparr>, Inr (Some (scanJob (start_row now r))))"
proof -
  have d: "distinct (map j_id (jobs d))" "distinct (jobs d)"
    using ok by (auto simp: jobs_ok_def distinct_map)
  note mem = next_queued_mem [OF r]
  have u: "update_where (\<lambda>s. j_id s = j_id r) (start_row now) (jobs d) = map (\<lambda>s. if s = r then start_row now s else s) (jobs d)"
    by (rule update_by_key [OF d(1) mem(1)])
  show ?thesis
    by (simp add: ClaimNextJob_def r u Let_def last_started_claimed [OF refl mem(1) d(2) old])
qed

lemma queue_of_start:
  assumes ok: "jobs_ok d" and r: "next_queued (jobs d) = Some r" and f: "\<not> queued (f r)"
  shows "queue_of (d\<lparr>jobs := map (\<lambda>s. if s = r then f s else s) (jobs d)\<rparr>) = tl (queue_of d)"
proof -
  have d: "distinct (jobs d)" using ok by (auto simp: jobs_ok_def distinct_map)
  have "filter queued (map (\<lambda>s. if s = r then f s else s) (jobs d)) = remove1 r (filter queued (jobs d))"
    by (rule filter_update_leaves [where f = f, OF d next_queued_mem [OF r] f])
  then show ?thesis using next_queued_sort [OF r] by (simp add: queue_of_def)
qed

text \<open>
  Claiming takes the oldest queued job: with nothing queued the claim changes nothing and returns
  no job; otherwise it returns the head of the queue, now processing, removes exactly it from the
  queue and leaves every other row as it was. This needs every other processing row to have started
  earlier by the clock.
\<close>

theorem ClaimNextJob_fifo:
  assumes "jobs_ok d"
    and "\<forall>s \<in> set (jobs d). processing s \<longrightarrow> (\<exists>t < now. j_started s = Some t)"
  shows "case queue_of d of
      [] \<Rightarrow> ClaimNextJob now d = (d, Inr None)
    | r # rest \<Rightarrow> \<exists>d'. ClaimNextJob now d = (d', Inr (Some (scanJob (start_row now r))))
        \<and> queue_of d' = rest \<and> jobs d' = map (\<lambda>s. if s = r then start_row now s else s) (jobs d)"
proof (cases "next_queued (jobs d)")
  case None
  then have "filter queued (jobs d) = []" by (simp only: next_queued_None)
  then show ?thesis using None by (simp add: ClaimNextJob_def queue_of_def)
next
  case (Some r)
  show ?thesis
    using claim_alt [OF assms(1) Some assms(2)] queue_of_start [OF assms(1) Some, of "start_row now"]
      next_queued_sort [OF Some] by simp
qed

section \<open>A round of the processor\<close>

definition outcome_ok :: "string + string \<times> string \<Rightarrow> job_row \<Rightarrow> bool" where
  "outcome_ok res r \<longleftrightarrow>
     (case res of
        Inl e \<Rightarrow> j_status r = ''failed'' \<and> j_error r = Some e
      | Inr (nzb, pw) \<Rightarrow> j_status r = ''completed'' \<and> j_nzb r = Some nzb \<and> j_password r = Some pw)"

lemma update_where_twice:
  "(\<And>r. p (g r) = p r) \<Longrightarrow> update_where p f (update_where p g rs) = update_where p (\<lambda>r. f (g r)) rs"
  by (auto simp: update_where_def)

lemma phases_rows:
  "\<exists>g. (\<forall>r. j_id (g r) = j_id r \<and> j_source (g r) = j_source r \<and> j_group (g r) = j_group r \<and> j_status (g r) = j_status r
           \<and> j_created (g r) = j_created r \<and> j_started (g r) = j_started r \<and> j_completed (g r) = j_completed r
           \<and> j_error (g r) = j_error r \<and> j_nzb (g r) = j_nzb r)
     \<and> foldl (\<lambda>d (p, pct). UpdateJobPhase i p pct d) d phases = d\<lparr>jobs := update_where (\<lambda>r. j_id r = i) g (jobs d)\<rparr>"
proof (induction phases arbitrary: d)
  case Nil
  show ?case by (rule exI [of _ "\<lambda>r. r"]) (simp add: update_where_def)
next
  case (Cons x phases)
  obtain p pct where x: "x = (p, pct)" by (cases x)
  obtain g where g: "\<forall>r. j_id (g r) = j_id r \<and> j_source (g r) = j_source r \<and> j_group (g r) = j_group r \<and> j_status (g r) = j_status r
           \<and> j_created (g r) = j_created r \<and> j_started (g r) = j_started r \<and> j_completed (g r) = j_completed r
           \<and> j_error (g r) = j_error r \<and> j_nzb (g r) = j_nzb r"
    "foldl (\<lambda>d (p, pct). UpdateJobPhase i p pct d) (UpdateJobPhase i p pct d) phases
      = (UpdateJobPhase i p pct d)\<lparr>jobs := update_where (\<lambda>r. j_id r = i) g (jobs (UpdateJobPhase i p pct d))\<rparr>"
    using Cons.IH [of "UpdateJobPhase i p pct d"] by blast
  show ?case
    by (rule exI [of _ "\<lambda>r. g (r\<lparr>j_phase := p, j_progress := pct\<rparr>)"])
       (use g in \<open>simp add: x\<close>, simp add: UpdateJobPhase_def update_where_twice)
qed

lemma runOne_rows:
  "\<exists>f. (\<forall>r. j_id (f r) = j_id r \<and> j_source (f r) = j_source r \<and> j_group (f r) = j_group r
         \<and> \<not> queued (f r) \<and> \<not> processing (f r) \<and> outcome_ok (snd (pipeline j)) (f r))
     \<and> runOneOfflineJob pipeline now j d = d\<lparr>jobs := update_where (\<lambda>r. j_id r = ID j) f (jobs d)\<rparr>"
proof -
  obtain phases res where p: "pipeline j = (phases, res)" by (cases "pipeline j")
  obtain g where g: "\<forall>r. j_id (g r) = j_id r \<and> j_source (g r) = j_source r \<and> j_group (g r) = j_group r"
    "foldl (\<lambda>d (p, pct). UpdateJobPhase (ID j) p pct d) d phases = d\<lparr>jobs := update_where (\<lambda>r. j_id r = ID j) g (jobs d)\<rparr>"
    using phases_rows [of "ID j" d phases] by metis
  define h where "h = (case res of Inl err \<Rightarrow> failed_row now err | Inr (nzb, pw) \<Rightarrow> done_row now nzb pw)"
  have h: "j_id (h r) = j_id r \<and> j_source (h r) = j_source r \<and> j_group (h r) = j_group r
     \<and> \<not> queued (h r) \<and> \<not> processing (h r) \<and> outcome_ok res (h r)" for r
    by (auto simp: h_def outcome_ok_def failed_row_def done_row_def queued_def processing_def split: sum.splits prod.splits)
  have "runOneOfflineJob pipeline now j d = d\<lparr>jobs := update_where (\<lambda>r. j_id r = ID j) (\<lambda>r. h (g r)) (jobs d)\<rparr>"
    using g by (cases res) (auto simp: runOneOfflineJob_def p h_def MarkJobFailed_def MarkJobCompleted_def update_where_twice)
  then show ?thesis using g(1) h p by (intro exI [of _ "\<lambda>r. h (g r)"]) auto
qed

lemma round_rows:
  assumes ok: "jobs_ok d" and idle: "\<forall>s \<in> set (jobs d). \<not> processing s" and r: "next_queued (jobs d) = Some r"
  shows "\<exists>d1 f. ClaimNextJob t0 d = (d1, Inr (Some (scanJob (start_row t0 r))))
     \<and> (\<forall>r. j_id (f r) = j_id r \<and> j_source (f r) = j_source r \<and> j_group (f r) = j_group r \<and> \<not> queued (f r) \<and> \<not> processing (f r))
     \<and> outcome_ok (snd (pipeline (scanJob (start_row t0 r)))) (f r)
     \<and> runOneOfflineJob pipeline t1 (scanJob (start_row t0 r)) d1
       = d\<lparr>jobs := map (\<lambda>s. if s = r then f s else s) (jobs d)\<rparr>"
proof -
  let ?j = "scanJob (start_row t0 r)"
  have old: "\<forall>s \<in> set (jobs d). processing s \<longrightarrow> (\<exists>t < t0. j_started s = Some t)" using idle by blast
  note mem = next_queued_mem [OF r]
  have dist: "distinct (map j_id (jobs d))" using ok by (simp add: jobs_ok_def)
  obtain h where h: "\<forall>r. j_id (h r) = j_id r \<and> j_source (h r) = j_source r \<and> j_group (h r) = j_group r
       \<and> \<not> queued (h r) \<and> \<not> processing (h r) \<and> outcome_ok (snd (pipeline ?j)) (h r)"
    "runOneOfflineJob pipeline t1 ?j (d\<lparr>jobs := map (\<lambda>s. if s = r then start_row t0 s else s) (jobs d)\<rparr>)
     = d\<lparr>jobs := update_where (\<lambda>s. j_id s = j_id r) h (map (\<lambda>s. if s = r then start_row t0 s else s) (jobs d))\<rparr>"
    using runOne_rows [of pipeline ?j t1 "d\<lparr>jobs := map (\<lambda>s. if s = r then start_row t0 s else s) (jobs d)\<rparr>"]
    by (auto simp: scanJob_def)
  have "update_where (\<lambda>s. j_id s = j_id r) h (update_where (\<lambda>s. j_id s = j_id r) (start_row t0) (jobs d))
      = map (\<lambda>s. if s = r then h (start_row t0 s) else s) (jobs d)"
    by (subst update_where_twice) (simp_all add: update_by_key [OF dist mem(1)])
  then have "runOneOfflineJob pipeline t1 ?j (d\<lparr>jobs := map (\<lambda>s. if s = r then start_row t0 s else s) (jobs d)\<rparr>)
     = d\<lparr>jobs := map (\<lambda>s. if s = r then h (start_row t0 s) else s) (jobs d)\<rparr>"
    using h(2) by (simp add: update_by_key [OF dist mem(1)])
  then show ?thesis
    using claim_alt [OF ok r old] h(1)
    by (intro exI [of _ "d\<lparr>jobs := map (\<lambda>s. if s = r then start_row t0 s else s) (jobs d)\<rparr>"]
         exI [of _ "\<lambda>s. h (start_row t0 s)"]) auto
qed

lemma jobs_ok_map:
  "jobs_ok d \<Longrightarrow> (\<And>r. j_id (f r) = j_id r) \<Longrightarrow> (\<And>r. j_source (f r) = j_source r) \<Longrightarrow> jobs_ok (d\<lparr>jobs := map f (jobs d)\<rparr>)"
  by (simp add: jobs_ok_def comp_def)

lemma processor_run:
  assumes "jobs_ok d" and "\<forall>s \<in> set (jobs d). \<not> processing s" and "length (queue_of d) \<le> length polls"
  shows "\<exists>d' js. StartOfflineProcessor pipeline polls d = (d', js)
    \<and> map ID js = map j_id (queue_of d) \<and> (\<forall>s \<in> set (jobs d'). \<not> queued s \<and> \<not> processing s)
    \<and> map j_id (jobs d') = map j_id (jobs d)
    \<and> (\<forall>j \<in> set js. \<exists>r \<in> set (jobs d'). j_id r = ID j \<and> outcome_ok (snd (pipeline j)) r)
    \<and> (\<forall>r \<in> set (jobs d). \<not> queued r \<longrightarrow> r \<in> set (jobs d'))"
  using assms
proof (induction pipeline polls d rule: StartOfflineProcessor.induct)
  case (1 pipeline d)
  then have "filter queued (jobs d) = []"
    by (simp add: queue_of_def)
  then show ?case using 1 by (auto simp: queue_of_def filter_empty_conv)
next
  case (2 pipeline t0 t1 polls d)
  note prems = "2.prems"
  show ?case
  proof (cases "next_queued (jobs d)")
    case None
    then have e: "filter queued (jobs d) = []" by (simp only: next_queued_None)
    then have c: "ClaimNextJob t0 d = (d, Inr None)" using None by (simp add: ClaimNextJob_def)
    have "length (queue_of d) \<le> length polls" using e by (simp add: queue_of_def)
    then show ?thesis using "2.IH"(2) [OF c [symmetric] refl refl prems(1,2)] by (simp add: c)
  next
    case (Some r)
    let ?j = "scanJob (start_row t0 r)"
    obtain d1 f where c: "ClaimNextJob t0 d = (d1, Inr (Some ?j))"
      and f: "\<forall>r. j_id (f r) = j_id r \<and> j_source (f r) = j_source r \<and> j_group (f r) = j_group r \<and> \<not> queued (f r) \<and> \<not> processing (f r)"
      and out: "outcome_ok (snd (pipeline ?j)) (f r)"
      and d2: "runOneOfflineJob pipeline t1 ?j d1 = d\<lparr>jobs := map (\<lambda>s. if s = r then f s else s) (jobs d)\<rparr>" (is "_ = ?d2")
      using round_rows [OF prems(1,2) Some] by blast
    have mem: "r \<in> set (jobs d)" by (rule next_queued_mem(1) [OF Some])
    have q: "queue_of d = r # queue_of ?d2"
      using next_queued_sort [OF Some] queue_of_start [OF prems(1) Some, of f] f by simp
    have ok2: "jobs_ok ?d2" using f by (intro jobs_ok_map prems(1)) auto
    have idle2: "\<forall>s \<in> set (jobs ?d2). \<not> processing s" using prems(2) f by auto
    have len: "length (queue_of ?d2) \<le> length polls" using prems(3) by (simp add: q)
    obtain d' js where run: "StartOfflineProcessor pipeline polls ?d2 = (d', js)"
      and r1: "map ID js = map j_id (queue_of ?d2)" "\<forall>s \<in> set (jobs d'). \<not> queued s \<and> \<not> processing s"
        "map j_id (jobs d') = map j_id (jobs ?d2)"
        "\<forall>j \<in> set js. \<exists>r \<in> set (jobs d'). j_id r = ID j \<and> outcome_ok (snd (pipeline j)) r"
        "\<forall>r \<in> set (jobs ?d2). \<not> queued r \<longrightarrow> r \<in> set (jobs d')"
      using "2.IH"(3) [OF c [symmetric] refl refl, unfolded d2, OF ok2 idle2 len] by blast
    have ids: "map j_id (jobs ?d2) = map j_id (jobs d)" using f by (simp add: comp_def if_distrib cong: if_cong)
    have "f r \<in> set (jobs d')" using r1(5) mem f by force
    moreover have "s \<in> set (jobs d')" if "s \<in> set (jobs d)" "\<not> queued s" for s
    proof -
      have "s \<noteq> r" using that next_queued_mem(2) [OF Some] by blast
      then have "s \<in> set (jobs ?d2)" using that(1) by force
      then show ?thesis using r1(5) that(2) by blast
    qed
    moreover have "ID ?j = j_id r" by (simp add: scanJob_def)
    ultimately show ?thesis
      using r1 out f run by (auto simp: c d2 q ids)
  qed
qed

text \<open>
  C33. The processor is FIFO and loses nothing: started on a table without processing rows, as a
  restart leaves it, and given at least as many polls as jobs are queued, it runs exactly the queued
  jobs, oldest first, each once; afterwards no row is queued or processing, each job that ran has the
  final status of its pipeline (failed with the error, completed with the NZB and the password), and
  no other row has changed. It depends on no clock.
\<close>

theorem processor_fifo:
  assumes "jobs_ok d" and "length (queue_of (fst (RequeueStuckJobs d))) \<le> length polls"
  shows "\<exists>d' js. StartOfflineProcessor pipeline polls (fst (RequeueStuckJobs d)) = (d', js)
    \<and> map ID js = map j_id (queue_of (fst (RequeueStuckJobs d)))
    \<and> (\<forall>s \<in> set (jobs d'). \<not> queued s \<and> \<not> processing s)
    \<and> map j_id (jobs d') = map j_id (jobs d)
    \<and> (\<forall>j \<in> set js. \<exists>r \<in> set (jobs d'). j_id r = ID j \<and> outcome_ok (snd (pipeline j)) r)
    \<and> (\<forall>r \<in> set (jobs d). \<not> queued r \<and> \<not> processing r \<longrightarrow> r \<in> set (jobs d'))"
proof -
  let ?d = "fst (RequeueStuckJobs d)"
  have j: "jobs ?d = update_where processing requeue_row (jobs d)" by (simp add: RequeueStuckJobs_def)
  have "jobs_ok ?d"
    using jobs_ok_map [OF assms(1), of "\<lambda>r. if processing r then requeue_row r else r"]
    by (simp add: RequeueStuckJobs_def update_where_def)
  moreover have "\<forall>s \<in> set (jobs ?d). \<not> processing s" by (auto simp: j update_where_def)
  moreover have "map j_id (jobs ?d) = map j_id (jobs d)" by (simp add: j tables)
  moreover have "r \<in> set (jobs ?d)" if "r \<in> set (jobs d)" "\<not> processing r" for r
    using that by (force simp: j update_where_def)
  ultimately show ?thesis using processor_run [of ?d polls pipeline, OF _ _ assms(2)] by metis
qed

definition job_example :: db where
  "job_example = empty_db\<lparr>jobs :=
     [job_of 1 \<lparr>ID = 0, SourcePath = ''/w/b.mkv'', Title = ''b'', GroupID = None, GroupNameAtCreation = ''g'',
        Status = ''queued'', Phase = [], Progress = 0, Error = [], NzbPath = [], Password = [],
        CreatedAt = Some 20, StartedAt = None, CompletedAt = None\<rparr>,
      job_of 2 \<lparr>ID = 0, SourcePath = ''/w/a.mkv'', Title = ''a'', GroupID = None, GroupNameAtCreation = ''g'',
        Status = ''queued'', Phase = [], Progress = 0, Error = [], NzbPath = [], Password = [],
        CreatedAt = Some 10, StartedAt = None, CompletedAt = None\<rparr>], jobs_seq := 2\<rparr>"

lemma job_example_ok: "jobs_ok job_example" "filter processing (jobs job_example) = []"
  "map j_id (queue_of job_example) = [2, 1]" "length (queue_of (fst (RequeueStuckJobs job_example))) = 2"
  unfolding jobs_ok_def by code_simp+

lemma ClaimNextJob_fifo_witness:
  "\<exists>d' r. ClaimNextJob 30 job_example = (d', Inr (Some (scanJob (start_row 30 r)))) \<and> j_id r = 2"
proof -
  have p: "\<forall>s \<in> set (jobs job_example). processing s \<longrightarrow> (\<exists>t < 30. j_started s = Some t)"
    using job_example_ok(2) by (auto simp: filter_empty_conv)
  obtain r rest where q: "queue_of job_example = r # rest" "j_id r = 2"
    using job_example_ok(3) by (cases "queue_of job_example") auto
  then show ?thesis using ClaimNextJob_fifo [OF job_example_ok(1) p] by auto
qed

lemma processor_fifo_witness:
  "\<exists>d' js. StartOfflineProcessor (\<lambda>j. ([(''staging'', 0)], Inl ''stat source''))
       [(30, 31), (32, 33)] (fst (RequeueStuckJobs job_example)) = (d', js)
     \<and> (\<forall>s \<in> set (jobs d'). \<not> queued s \<and> \<not> processing s)"
  using processor_fifo [OF job_example_ok(1), of "[(30, 31), (32, 33)]" "\<lambda>j. ([(''staging'', 0)], Inl ''stat source'')"]
    job_example_ok(4) by auto

end
