(* ===== verification/Watches.thy ===== *)
theory Watches
  imports Jobs
begin

text \<open>
  The watch folders (\<^verbatim>\<open>storage/watches.go\<close>) and the watcher that turns their entries into jobs
  (\<^verbatim>\<open>services/network_offline_watcher.go\<close>).
\<close>

record WatchFolder =
  WID :: int
  WPath :: string
  WGroupID :: "int option"
  WGroupName :: string
  WEnabled :: bool
  WCreatedAt :: int
  WUpdatedAt :: int

section \<open>Operations\<close>

definition is_abs :: "string \<Rightarrow> bool" where
  "is_abs p = has_prefix p ''/''"

definition validateWatch :: "WatchFolder \<Rightarrow> db_error + WatchFolder" where
  "validateWatch w =
     (let p = trim_space (WPath w)
      in if p = [] then Inl (Invalid ''path is required'')
         else if \<not> is_abs p then Inl (Invalid ''path must be absolute'')
         else Inr (w\<lparr>WPath := path_clean p\<rparr>))"

definition CreateWatch :: "int \<Rightarrow> WatchFolder \<Rightarrow> db \<Rightarrow> db \<times> (db_error + WatchFolder)" where
  "CreateWatch now w0 d =
     (case validateWatch w0 of
        Inl e \<Rightarrow> (d, Inl e)
      | Inr w \<Rightarrow>
          if WPath w \<in> set (map w_path (watches d)) then (d, Inl (Unique ''path''))
          else if \<not> fk_ok (WGroupID w) d then (d, Inl ForeignKey)
          else (d\<lparr>watches := watches d @ [\<lparr>w_id = watches_seq d + 1, w_path = WPath w, w_group = WGroupID w,
                    w_enabled = WEnabled w, w_created = now, w_updated = now\<rparr>],
                  watches_seq := watches_seq d + 1\<rparr>,
                Inr (w\<lparr>WID := watches_seq d + 1, WCreatedAt := now, WUpdatedAt := now\<rparr>)))"

definition set_watch :: "int \<Rightarrow> WatchFolder \<Rightarrow> watch_row \<Rightarrow> watch_row" where
  "set_watch now w r =
     r\<lparr>w_path := WPath w, w_group := WGroupID w, w_enabled := WEnabled w, w_updated := now\<rparr>"

definition UpdateWatch :: "int \<Rightarrow> WatchFolder \<Rightarrow> db \<Rightarrow> db \<times> (db_error + WatchFolder)" where
  "UpdateWatch now w0 d =
     (if WID w0 = 0 then (d, Inl (Invalid ''update: id is required''))
      else case validateWatch w0 of
        Inl e \<Rightarrow> (d, Inl e)
      | Inr w \<Rightarrow>
          if affected (\<lambda>r. w_id r = WID w) (watches d) = 0 then (d, Inl NotFound)
          else if WPath w \<in> set (map w_path (delete_where (\<lambda>r. w_id r = WID w) (watches d))) then (d, Inl (Unique ''path''))
          else if \<not> fk_ok (WGroupID w) d then (d, Inl ForeignKey)
          else (d\<lparr>watches := update_where (\<lambda>r. w_id r = WID w) (set_watch now w) (watches d)\<rparr>,
                Inr (w\<lparr>WUpdatedAt := now\<rparr>)))"

definition DeleteWatch :: "int \<Rightarrow> db \<Rightarrow> db \<times> db_error option" where
  "DeleteWatch i d =
     (d\<lparr>watches := delete_where (\<lambda>r. w_id r = i) (watches d)\<rparr>,
      if affected (\<lambda>r. w_id r = i) (watches d) = 0 then Some NotFound else None)"

definition group_name :: "db \<Rightarrow> int option \<Rightarrow> string option" where
  "group_name d gid =
     (case gid of None \<Rightarrow> None | Some g \<Rightarrow> map_option g_name (find_row (\<lambda>r. g_id r = g) (groups d)))"

definition watch_of :: "string \<Rightarrow> watch_row \<Rightarrow> WatchFolder" where
  "watch_of name r =
     \<lparr>WID = w_id r, WPath = w_path r, WGroupID = w_group r, WGroupName = name,
      WEnabled = w_enabled r, WCreatedAt = w_created r, WUpdatedAt = w_updated r\<rparr>"

definition ListWatches :: "db \<Rightarrow> WatchFolder list" where
  "ListWatches d =
     map (\<lambda>r. watch_of (coalesce (group_name d (w_group r))) r) (sort_key w_path (watches d))"

definition ListActiveWatches :: "db \<Rightarrow> WatchFolder list" where
  "ListActiveWatches d =
     List.map_filter
       (\<lambda>r. if w_enabled r then map_option (\<lambda>n. watch_of n r) (group_name d (w_group r)) else None)
       (sort_key w_id (watches d))"

section \<open>The watcher\<close>

text \<open>An entry of a watched directory: its name, whether it is a directory, and the seconds since its
  modification time when its \<^verbatim>\<open>Info\<close> can be read.\<close>

record dir_entry =
  e_name :: string
  e_isdir :: bool
  e_age :: "int option"

definition titleFromEntry :: "string \<Rightarrow> bool \<Rightarrow> string" where
  "titleFromEntry name isdir = (if isdir then name else trim_suffix name (file_ext name))"

definition skipped_name :: "string \<Rightarrow> bool" where
  "skipped_name n \<longleftrightarrow> has_prefix n ''.'' \<or> has_suffix n ''.part'' \<or> has_suffix n ''.tmp''"

definition watcherQuietPeriod :: int where
  "watcherQuietPeriod = 30"

definition watch_job :: "WatchFolder \<Rightarrow> dir_entry \<Rightarrow> OfflineJob" where
  "watch_job w e =
     \<lparr>ID = 0, SourcePath = path_join (WPath w) (e_name e), Title = titleFromEntry (e_name e) (e_isdir e),
      GroupID = WGroupID w, GroupNameAtCreation = WGroupName w, Status = [], Phase = [], Progress = 0,
      Error = [], NzbPath = [], Password = [], CreatedAt = None, StartedAt = None, CompletedAt = None\<rparr>"

definition settled :: "dir_entry \<Rightarrow> bool" where
  "settled e \<longleftrightarrow> \<not> skipped_name (e_name e) \<and> (case e_age e of None \<Rightarrow> False | Some s \<Rightarrow> \<not> s < watcherQuietPeriod)"

definition scan_entry :: "int \<Rightarrow> WatchFolder \<Rightarrow> dir_entry \<Rightarrow> db \<Rightarrow> db" where
  "scan_entry now w e d =
     (if \<not> settled e then d
      else if SourcePathExists (path_join (WPath w) (e_name e)) d then d
      else fst (CreateOfflineJob now (watch_job w e) d))"

text \<open>\<open>None\<close> is a directory that cannot be read.\<close>

definition scanOneWatch :: "int \<Rightarrow> WatchFolder \<Rightarrow> dir_entry list option \<Rightarrow> db \<Rightarrow> db" where
  "scanOneWatch now w entries d =
     (case entries of None \<Rightarrow> d | Some es \<Rightarrow> foldl (\<lambda>d e. scan_entry now w e d) d es)"

definition scanAllWatches :: "int \<Rightarrow> (string \<Rightarrow> dir_entry list option) \<Rightarrow> db \<Rightarrow> db" where
  "scanAllWatches now readDir d = foldl (\<lambda>d w. scanOneWatch now w (readDir (WPath w)) d) d (ListActiveWatches d)"

section \<open>Facts\<close>

lemma create_job_sources:
  "j_source ` set (jobs (fst (CreateOfflineJob now j d))) \<subseteq> insert (SourcePath j) (j_source ` set (jobs d))"
  "set (jobs d) \<subseteq> set (jobs (fst (CreateOfflineJob now j d)))"
  "groups (fst (CreateOfflineJob now j d)) = groups d"
  "watches (fst (CreateOfflineJob now j d)) = watches d"
  by (auto simp: CreateOfflineJob_def Let_def job_of_def)

lemma create_job_ok: "jobs_ok d \<Longrightarrow> jobs_ok (fst (CreateOfflineJob now j d))"
  by (fastforce simp: CreateOfflineJob_def Let_def job_of_def jobs_ok_def)

lemma create_job_new:
  "fk_ok (GroupID j) d \<Longrightarrow> Status j = [] \<Longrightarrow> SourcePath j \<in> j_source ` set (jobs (fst (CreateOfflineJob now j d)))"
  by (auto simp: CreateOfflineJob_def Let_def job_of_def statuses_def)

lemma source_exists_iff: "SourcePathExists p d \<longleftrightarrow> p \<in> j_source ` set (jobs d)"
proof -
  have "SourcePathExists p d \<longleftrightarrow> affected (\<lambda>r. j_source r = p) (jobs d) \<noteq> 0"
    unfolding SourcePathExists_def by blast
  then show ?thesis unfolding affected_0 by auto
qed

lemma scan_entry_facts:
  "jobs_ok d \<Longrightarrow> jobs_ok (scan_entry now w e d)"
  "set (jobs d) \<subseteq> set (jobs (scan_entry now w e d))"
  "groups (scan_entry now w e d) = groups d"
  "watches (scan_entry now w e d) = watches d"
  "j_source ` set (jobs (scan_entry now w e d))
     \<subseteq> j_source ` set (jobs d) \<union> (if settled e then {path_join (WPath w) (e_name e)} else {})"
  using create_job_sources [where now = now and j = "watch_job w e" and d = d] create_job_ok [where d = d and now = now and j = "watch_job w e"]
  by (auto simp: scan_entry_def watch_job_def)

lemma scan_entry_settled:
  assumes "settled e" and "fk_ok (WGroupID w) d"
  shows "path_join (WPath w) (e_name e) \<in> j_source ` set (jobs (scan_entry now w e d))"
  using assms create_job_new [of "watch_job w e" d now] source_exists_iff
  by (auto simp: scan_entry_def watch_job_def)

lemma fk_ok_groups: "groups d' = groups d \<Longrightarrow> fk_ok g d' = fk_ok g d"
  by (simp add: fk_ok_def split: option.split)

lemma scan_fold:
  assumes "jobs_ok d" and "fk_ok (WGroupID w) d"
  shows "jobs_ok (foldl (\<lambda>d e. scan_entry now w e d) d es)
    \<and> set (jobs d) \<subseteq> set (jobs (foldl (\<lambda>d e. scan_entry now w e d) d es))
    \<and> groups (foldl (\<lambda>d e. scan_entry now w e d) d es) = groups d
    \<and> watches (foldl (\<lambda>d e. scan_entry now w e d) d es) = watches d
    \<and> j_source ` set (jobs (foldl (\<lambda>d e. scan_entry now w e d) d es))
       = j_source ` set (jobs d) \<union> (\<lambda>e. path_join (WPath w) (e_name e)) ` {e \<in> set es. settled e}"
  using assms
proof (induction es arbitrary: d)
  case Nil
  then show ?case by simp
next
  case (Cons e es)
  let ?d = "scan_entry now w e d"
  have g: "groups ?d = groups d" and w: "watches ?d = watches d" and s: "set (jobs d) \<subseteq> set (jobs ?d)"
    by (rule scan_entry_facts)+
  have src: "j_source ` set (jobs ?d) = j_source ` set (jobs d) \<union> (if settled e then {path_join (WPath w) (e_name e)} else {})"
    using scan_entry_facts(5) [of now w e d] scan_entry_settled [of e w d now] Cons.prems(2) image_mono [OF s, of j_source]
    by auto
  have "jobs_ok ?d" "fk_ok (WGroupID w) ?d"
    using Cons.prems scan_entry_facts(1) g by (auto simp: fk_ok_groups [OF g])
  from Cons.IH [OF this] show ?case using g w s src by auto
qed

text \<open>
  C36. A scan of a watched folder queues exactly the settled entries it has not seen: afterwards the
  source paths are the old ones and those of the entries that are not hidden or temporary and have
  been quiet for 30 seconds, no two jobs share a source path, no earlier job has changed, and a
  second scan of the same directory, at whatever time, changes nothing.
\<close>

theorem scanOneWatch_exact:
  assumes "jobs_ok d" and "fk_ok (WGroupID w) d"
  shows "let d' = scanOneWatch now w (Some es) d in
      jobs_ok d' \<and> set (jobs d) \<subseteq> set (jobs d')
    \<and> j_source ` set (jobs d') = j_source ` set (jobs d) \<union> (\<lambda>e. path_join (WPath w) (e_name e)) ` {e \<in> set es. settled e}
    \<and> scanOneWatch later w (Some es) d' = d'"
proof -
  let ?d = "foldl (\<lambda>d e. scan_entry now w e d) d es"
  note f = scan_fold [OF assms, of now es]
  have "foldl (\<lambda>d e. scan_entry later w e d) ?d xs = ?d" if "set xs \<subseteq> set es" for xs
    using that
  proof (induction xs)
    case (Cons e xs)
    have "scan_entry later w e ?d = ?d"
      using f Cons.prems by (auto simp: scan_entry_def source_exists_iff)
    then show ?case using Cons by simp
  qed simp
  then show ?thesis using f by (simp add: scanOneWatch_def Let_def)
qed

lemma scanOneWatch_exact_witness:
  "''/w/movie.mkv'' \<in> j_source ` set (jobs (scanOneWatch 5
     \<lparr>WID = 1, WPath = ''/w'', WGroupID = None, WGroupName = [], WEnabled = True, WCreatedAt = 0, WUpdatedAt = 0\<rparr>
     (Some [\<lparr>e_name = ''movie.mkv'', e_isdir = False, e_age = Some 60\<rparr>]) empty_db))"
proof -
  let ?w = "\<lparr>WID = 1, WPath = ''/w'', WGroupID = None, WGroupName = [], WEnabled = True, WCreatedAt = 0, WUpdatedAt = 0\<rparr>"
  let ?e = "\<lparr>e_name = ''movie.mkv'', e_isdir = False, e_age = Some 60\<rparr>"
  have "jobs_ok empty_db" "fk_ok (WGroupID ?w) empty_db" by (simp_all add: jobs_ok_def empty_db_def fk_ok_def)
  moreover have "settled ?e" "path_join (WPath ?w) (e_name ?e) = ''/w/movie.mkv''" by code_simp+
  ultimately show ?thesis using scanOneWatch_exact [of empty_db ?w 5 "[?e]" 6] by (simp add: Let_def)
qed

end
