(* ===== verification/SiteGroups.thy ===== *)
theory SiteGroups
  imports Watches
begin

text \<open>
  The groups (\<^verbatim>\<open>storage/groups.go\<close> with the trigger of \<^verbatim>\<open>migrations/005\<close>) and their synchronisation
  with the site (\<^verbatim>\<open>services/network_groups_sync.go\<close>). A list of strings stored as JSON is the list.
\<close>

record Group =
  GID :: int
  GName :: string
  GType :: string
  Newsgroups :: "string list"
  Screenshots :: "int option"
  SampleSeconds :: "int option"
  GPar2Redundancy :: "int option"
  GObfuscate :: "bool option"
  WatermarkText :: string
  BannedExtensions :: "string list"
  GSource :: string
  Version :: int

section \<open>Operations\<close>

definition clean_names :: "string list \<Rightarrow> string list" where
  "clean_names ngs = filter (\<lambda>s. s \<noteq> []) (map trim_space ngs)"

definition clean_ban :: "string \<Rightarrow> string option" where
  "clean_ban ext =
     (let e = trim_space (to_lower ext)
      in if e = [] then None else Some (if has_prefix e ''.'' then e else ''.'' @ e))"

definition validateGroup :: "Group \<Rightarrow> db_error + Group" where
  "validateGroup g =
     (let name = trim_space (GName g);
          ngs = clean_names (Newsgroups g);
          ty = trim_space (to_lower (GType g));
          src = (if GSource g = [] then ''local'' else GSource g)
      in if name = [] then Inl (Invalid ''name is required'')
         else if ngs = [] then Inl (Invalid ''at least one newsgroup is required'')
         else if src \<noteq> ''local'' \<and> src \<noteq> ''site'' then Inl (Invalid ''invalid source'')
         else Inr (g\<lparr>GName := name, Newsgroups := ngs, GType := (if ty = [] then ''video'' else ty),
                     BannedExtensions := List.map_filter clean_ban (BannedExtensions g), GSource := src\<rparr>))"

text \<open>The columns an insert and an update set.\<close>

definition set_group :: "int \<Rightarrow> Group \<Rightarrow> group_row \<Rightarrow> group_row" where
  "set_group now g r =
     r\<lparr>g_type := GType g, g_newsgroups := Newsgroups g, g_bans := BannedExtensions g,
       g_screenshots := Screenshots g, g_sample_seconds := SampleSeconds g, g_par2 := GPar2Redundancy g,
       g_obfuscate := GObfuscate g, g_watermark := WatermarkText g, g_updated := now\<rparr>"

definition group_of :: "int \<Rightarrow> int \<Rightarrow> int \<Rightarrow> Group \<Rightarrow> group_row" where
  "group_of i version now g =
     set_group now g
       \<lparr>g_id = i, g_name = GName g, g_type = [], g_newsgroups = [], g_bans = [], g_screenshots = None,
        g_sample_seconds = None, g_par2 = None, g_obfuscate = None, g_watermark = [], g_source = GSource g,
        g_version = version, g_created = now, g_updated = now\<rparr>"

text \<open>The trigger \<^verbatim>\<open>groups_bump_version\<close>: an update that leaves the version as it was adds one to it.\<close>

definition bump_version :: "group_row \<Rightarrow> group_row \<Rightarrow> group_row" where
  "bump_version old new = (if g_version new = g_version old then new\<lparr>g_version := g_version old + 1\<rparr> else new)"

definition update_group :: "int \<Rightarrow> (group_row \<Rightarrow> group_row) \<Rightarrow> db \<Rightarrow> db" where
  "update_group i f d =
     d\<lparr>groups := update_where (\<lambda>r. g_id r = i) (\<lambda>r. bump_version r (f r)) (groups d)\<rparr>"

definition insert_group :: "int \<Rightarrow> int \<Rightarrow> Group \<Rightarrow> db \<Rightarrow> db" where
  "insert_group version now g d =
     d\<lparr>groups := groups d @ [group_of (groups_seq d + 1) version now g], groups_seq := groups_seq d + 1\<rparr>"

definition CreateGroup :: "int \<Rightarrow> Group \<Rightarrow> db \<Rightarrow> db \<times> (db_error + Group)" where
  "CreateGroup now g0 d =
     (case validateGroup g0 of
        Inl e \<Rightarrow> (d, Inl e)
      | Inr g \<Rightarrow>
          if GName g \<in> set (map g_name (groups d)) then (d, Inl (Unique ''name''))
          else (insert_group 1 now g d, Inr (g\<lparr>GID := groups_seq d + 1\<rparr>)))"

definition UpdateGroup :: "int \<Rightarrow> Group \<Rightarrow> db \<Rightarrow> db \<times> (db_error + Group)" where
  "UpdateGroup now g0 d =
     (if GID g0 = 0 then (d, Inl (Invalid ''update: id is required''))
      else case validateGroup g0 of
        Inl e \<Rightarrow> (d, Inl e)
      | Inr g \<Rightarrow>
          if affected (\<lambda>r. g_id r = GID g) (groups d) = 0 then (d, Inl NotFound)
          else if GName g \<in> set (map g_name (delete_where (\<lambda>r. g_id r = GID g) (groups d))) then (d, Inl (Unique ''name''))
          else (update_group (GID g) (\<lambda>r. (set_group now g r)\<lparr>g_name := GName g, g_source := GSource g\<rparr>) d, Inr g))"

definition delete_group :: "int \<Rightarrow> db \<Rightarrow> db" where
  "delete_group i d = unlink_group i (d\<lparr>groups := delete_where (\<lambda>r. g_id r = i) (groups d)\<rparr>)"

definition DeleteGroup :: "int \<Rightarrow> db \<Rightarrow> db \<times> db_error option" where
  "DeleteGroup i d =
     (if affected (\<lambda>r. g_id r = i) (groups d) = 0 then (d, Some NotFound) else (delete_group i d, None))"

definition UpsertSiteGroup :: "int \<Rightarrow> Group \<Rightarrow> db \<Rightarrow> db \<times> (db_error + bool)" where
  "UpsertSiteGroup now g0 d =
     (case validateGroup (g0\<lparr>GSource := ''site''\<rparr>) of
        Inl e \<Rightarrow> (d, Inl e)
      | Inr g \<Rightarrow>
          (case find_row (\<lambda>r. g_name r = GName g) (groups d) of
             None \<Rightarrow> (insert_group (Version g) now g d, Inr True)
           | Some r \<Rightarrow>
               if g_source r = ''local'' then (d, Inr False)
               else (update_group (g_id r) (\<lambda>r. (set_group now g r)\<lparr>g_version := Version g\<rparr>) d, Inr True)))"

definition stale_groups :: "string list \<Rightarrow> db \<Rightarrow> int list" where
  "stale_groups live d = map g_id (filter (\<lambda>r. g_source r = ''site'' \<and> g_name r \<notin> set live) (groups d))"

definition ReconcileSiteGroups :: "string list \<Rightarrow> db \<Rightarrow> db \<times> nat" where
  "ReconcileSiteGroups live d =
     (foldl (\<lambda>d i. delete_group i d) d (stale_groups live d), length (stale_groups live d))"

definition scanGroup :: "group_row \<Rightarrow> Group" where
  "scanGroup r =
     \<lparr>GID = g_id r, GName = g_name r, GType = g_type r, Newsgroups = g_newsgroups r,
      Screenshots = g_screenshots r, SampleSeconds = g_sample_seconds r, GPar2Redundancy = g_par2 r,
      GObfuscate = g_obfuscate r, WatermarkText = g_watermark r, BannedExtensions = g_bans r,
      GSource = g_source r, Version = g_version r\<rparr>"

definition GetGroup :: "int \<Rightarrow> db \<Rightarrow> db_error + Group" where
  "GetGroup i d =
     (case find_row (\<lambda>r. g_id r = i) (groups d) of None \<Rightarrow> Inl NotFound | Some r \<Rightarrow> Inr (scanGroup r))"

definition ListGroups :: "db \<Rightarrow> Group list" where
  "ListGroups d = map scanGroup (sort_key g_name (groups d))"

section \<open>Synchronisation\<close>

text \<open>An answer of the site: its groups (the fields the agent copies) and the catalogue's highest
  version. \<open>None\<close> is a fetch that failed, for maintenance or otherwise.\<close>

type_synonym groups_resp = "(Group list \<times> int) option"

record sync_state =
  lastVersion :: int
  doFullSync :: bool

definition sync_since :: "sync_state \<Rightarrow> int" where
  "sync_since st = (if doFullSync st then 0 else lastVersion st)"

definition upsert_all :: "int \<Rightarrow> Group list \<Rightarrow> db \<Rightarrow> db" where
  "upsert_all now gs d = foldl (\<lambda>d g. fst (UpsertSiteGroup now g d)) d gs"

definition sync_once :: "int \<Rightarrow> groups_resp \<Rightarrow> sync_state \<Rightarrow> db \<Rightarrow> sync_state \<times> db" where
  "sync_once now resp st d =
     (case resp of
        None \<Rightarrow> (st, d)
      | Some (gs, maxVersion) \<Rightarrow>
          (let d1 = upsert_all now gs d;
               d2 = (if doFullSync st then fst (ReconcileSiteGroups (map GName gs) d1) else d1)
           in (\<lparr>lastVersion = max (lastVersion st) maxVersion, doFullSync = False\<rparr>, d2)))"

definition StartSiteGroupsSync :: "(int \<Rightarrow> int \<Rightarrow> groups_resp) \<Rightarrow> int list \<Rightarrow> db \<Rightarrow> sync_state \<times> db" where
  "StartSiteGroupsSync fetch ticks d =
     foldl (\<lambda>(st, d) now. sync_once now (fetch now (sync_since st)) st d) (\<lparr>lastVersion = 0, doFullSync = True\<rparr>, d) ticks"

section \<open>Facts\<close>

definition group_row_ok :: "group_row \<Rightarrow> bool" where
  "group_row_ok r \<longleftrightarrow>
     g_name r \<noteq> [] \<and> trim_space (g_name r) = g_name r
     \<and> g_newsgroups r \<noteq> [] \<and> (\<forall>n \<in> set (g_newsgroups r). n \<noteq> [] \<and> trim_space n = n)
     \<and> (\<forall>e \<in> set (g_bans r). has_prefix e ''.'')
     \<and> g_type r \<noteq> [] \<and> g_source r \<in> {''local'', ''site''}"

definition groups_ok :: "db \<Rightarrow> bool" where
  "groups_ok d \<longleftrightarrow>
     distinct (map g_id (groups d)) \<and> (\<forall>r \<in> set (groups d). g_id r \<le> groups_seq d)
     \<and> distinct (map g_name (groups d)) \<and> (\<forall>r \<in> set (groups d). group_row_ok r)"

definition local_rows :: "db \<Rightarrow> group_row list" where
  "local_rows d = filter (\<lambda>r. g_source r = ''local'') (groups d)"

definition local_names :: "db \<Rightarrow> string set" where
  "local_names d = g_name ` set (local_rows d)"

definition site_names :: "db \<Rightarrow> string set" where
  "site_names d = g_name ` set (filter (\<lambda>r. g_source r = ''site'') (groups d))"

lemma trim_space_idem [simp]: "trim_space (trim_space s) = trim_space s"
proof (cases "trim_space s = []")
  case False
  let ?l = "trim_left_by is_space s"
  have t: "trim_space s = trim_right_by is_space ?l" by (simp add: trim_space_def trim_by_def)
  then have ne: "rev (dropWhile is_space (rev ?l)) \<noteq> []" using False by (simp add: trim_right_by_def)
  then have "\<not> is_space (last (trim_space s))"
    by (simp add: t trim_right_by_def last_rev hd_dropWhile)
  moreover have "\<not> is_space (hd (trim_space s))"
  proof -
    have lne: "?l \<noteq> []" using ne by auto
    obtain zs where "?l = rev (dropWhile is_space (rev ?l)) @ zs"
      by (metis rev_append rev_rev_ident takeWhile_dropWhile_id)
    then have "hd ?l = hd (trim_space s)" using ne by (metis hd_append2 t trim_right_by_def)
    then show ?thesis using trim_left_hd [OF lne] by simp
  qed
  ultimately show ?thesis by (simp add: trim_space_def [of "trim_space s"] trim_by_id)
next
  case True
  moreover have "trim_space [] = []" by (simp add: trim_space_def trim_by_def trim_left_by_def trim_right_by_def)
  ultimately show ?thesis by simp
qed

lemma clean_names_ok: "n \<in> set (clean_names ngs) \<Longrightarrow> n \<noteq> [] \<and> trim_space n = n"
  by (auto simp: clean_names_def)

lemma clean_ban_dot: "e \<in> set (List.map_filter clean_ban bans) \<Longrightarrow> has_prefix e ''.''"
  by (auto simp: map_filter_def clean_ban_def Let_def has_prefix_def split: if_splits)

lemma validateGroup_ok:
  assumes "validateGroup g0 = Inr g"
  shows "GName g = trim_space (GName g0)" "GName g \<noteq> []" "Newsgroups g = clean_names (Newsgroups g0)" "Newsgroups g \<noteq> []"
    "GType g \<noteq> []" "GSource g \<in> {''local'', ''site''}" "GSource g = (if GSource g0 = [] then ''local'' else GSource g0)"
    "\<forall>e \<in> set (BannedExtensions g). has_prefix e ''.''" "Version g = Version g0" "GID g = GID g0"
  using assms clean_ban_dot by (auto simp: validateGroup_def Let_def split: if_splits)

lemma set_group_fields [simp]:
  "g_id (set_group now g r) = g_id r" "g_name (set_group now g r) = g_name r" "g_source (set_group now g r) = g_source r"
  "g_version (set_group now g r) = g_version r"
  by (simp_all add: set_group_def)

lemma bump_fields [simp]:
  "g_id (bump_version o' r) = g_id r" "g_name (bump_version o' r) = g_name r" "g_source (bump_version o' r) = g_source r"
  "group_row_ok (bump_version o' r) = group_row_ok r"
  by (simp_all add: bump_version_def group_row_ok_def)

lemma set_group_ok:
  assumes "validateGroup g0 = Inr g" and "g_name r \<noteq> []" "trim_space (g_name r) = g_name r" "g_source r \<in> {''local'', ''site''}"
  shows "group_row_ok (set_group now g r)"
  using assms(2-) validateGroup_ok [OF assms(1)] clean_names_ok
  by (auto simp: group_row_ok_def set_group_def)

lemma group_of_fields [simp]:
  "g_id (group_of i v now g) = i" "g_name (group_of i v now g) = GName g" "g_source (group_of i v now g) = GSource g"
  "g_version (group_of i v now g) = v"
  by (simp_all add: group_of_def)

lemma group_of_ok: "validateGroup g0 = Inr g \<Longrightarrow> group_row_ok (group_of i v now g)"
  using validateGroup_ok unfolding group_of_def by (intro set_group_ok) auto

lemma find_row_Some: "find_row p rs = Some r \<Longrightarrow> r \<in> set rs \<and> p r"
  unfolding find_row_def by (metis find_Some_iff nth_mem)

lemma find_row_None: "find_row p rs = None \<longleftrightarrow> (\<forall>r \<in> set rs. \<not> p r)"
  by (auto simp: find_row_def find_None_iff)

lemma insert_group_ok:
  assumes "groups_ok d" and v: "validateGroup g0 = Inr g" and "GName g \<notin> g_name ` set (groups d)"
  shows "groups_ok (insert_group version now g d)"
  using assms(1,3) group_of_ok [OF v] by (fastforce simp: groups_ok_def insert_group_def)

lemma update_group_ok:
  assumes "groups_ok d" and id: "\<And>r. g_id (f r) = g_id r"
    and nm: "distinct (map g_name (update_where (\<lambda>r. g_id r = i) f (groups d)))"
    and ok: "\<And>r. r \<in> set (groups d) \<Longrightarrow> g_id r = i \<Longrightarrow> group_row_ok (f r)"
  shows "groups_ok (update_group i f d)"
proof -
  have "map g_name (update_where (\<lambda>r. g_id r = i) (\<lambda>r. bump_version r (f r)) (groups d))
      = map g_name (update_where (\<lambda>r. g_id r = i) f (groups d))"
    by (auto simp: update_where_def)
  moreover have "map g_id (update_where (\<lambda>r. g_id r = i) (\<lambda>r. bump_version r (f r)) (groups d)) = map g_id (groups d)"
    by (rule update_where_keeps) (simp add: id)
  ultimately show ?thesis
    using assms(1) nm ok id by (auto simp: groups_ok_def update_group_def in_update_where)
qed

lemma delete_group_ok: "groups_ok d \<Longrightarrow> groups_ok (delete_group i d)"
  by (auto simp: groups_ok_def delete_group_def unlink_group_def tables)

lemma delete_group_groups: "groups (delete_group i d) = delete_where (\<lambda>r. g_id r = i) (groups d)"
  by (simp add: delete_group_def unlink_group_def)

lemma delete_groups:
  "groups (foldl (\<lambda>d i. delete_group i d) d ids) = filter (\<lambda>r. g_id r \<notin> set ids) (groups d)"
proof (induction ids arbitrary: d)
  case (Cons i ids)
  have "filter (\<lambda>r. g_id r \<notin> set ids) (filter (\<lambda>r. \<not> g_id r = i) (groups d)) = filter (\<lambda>r. g_id r \<notin> set (i # ids)) (groups d)"
    by (simp add: filter_filter conj_commute)
  then show ?case by (simp only: foldl.simps Cons.IH delete_group_groups delete_where_def)
qed simp

lemma delete_groups_ok: "groups_ok d \<Longrightarrow> groups_ok (foldl (\<lambda>d i. delete_group i d) d ids)"
  by (induction ids arbitrary: d) (auto simp: delete_group_ok)

section \<open>Synchronisation keeps local rows\<close>

lemma update_group_rows:
  assumes "groups_ok d" and "r \<in> set (groups d)"
  shows "groups (update_group (g_id r) f d) = map (\<lambda>s. if s = r then bump_version s (f s) else s) (groups d)"
  using update_by_key [of g_id "groups d" r] assms by (simp add: update_group_def groups_ok_def)

lemma upsert_cases:
  assumes "groups_ok d"
  obtains (invalid) "fst (UpsertSiteGroup now g0 d) = d" "\<nexists>g. validateGroup (g0\<lparr>GSource := ''site''\<rparr>) = Inr g"
  | (new) g where "validateGroup (g0\<lparr>GSource := ''site''\<rparr>) = Inr g" "fst (UpsertSiteGroup now g0 d) = insert_group (Version g) now g d"
      "GName g \<notin> g_name ` set (groups d)"
  | (keep) g where "validateGroup (g0\<lparr>GSource := ''site''\<rparr>) = Inr g" "fst (UpsertSiteGroup now g0 d) = d" "GName g \<in> local_names d"
  | (upd) g r where "validateGroup (g0\<lparr>GSource := ''site''\<rparr>) = Inr g" "r \<in> set (groups d)" "g_name r = GName g" "g_source r = ''site''"
      "groups (fst (UpsertSiteGroup now g0 d))
        = map (\<lambda>s. if s = r then bump_version s ((set_group now g s)\<lparr>g_version := Version g\<rparr>) else s) (groups d)"
      "fst (UpsertSiteGroup now g0 d) = update_group (g_id r) (\<lambda>s. (set_group now g s)\<lparr>g_version := Version g\<rparr>) d"
proof (cases "validateGroup (g0\<lparr>GSource := ''site''\<rparr>)")
  case (Inl e)
  then show ?thesis by (intro invalid) (auto simp: UpsertSiteGroup_def)
next
  case (Inr g)
  show ?thesis
  proof (cases "find_row (\<lambda>r. g_name r = GName g) (groups d)")
    case None
    then have "\<forall>r \<in> set (groups d). g_name r \<noteq> GName g" by (simp only: find_row_None)
    then show ?thesis using Inr None by (intro new) (auto simp: UpsertSiteGroup_def)
  next
    case (Some r)
    have r: "r \<in> set (groups d)" "g_name r = GName g" using find_row_Some [OF Some] by auto
    show ?thesis
    proof (cases "g_source r = ''local''")
      case True
      have "GName g \<in> local_names d" using r True by (force simp: local_names_def local_rows_def)
      then show ?thesis using True Inr Some by (intro keep) (auto simp: UpsertSiteGroup_def)
    next
      case False
      have "group_row_ok r" using assms r(1) by (simp add: groups_ok_def)
      then have "g_source r = ''site''" using False by (auto simp: group_row_ok_def)
      moreover have "fst (UpsertSiteGroup now g0 d) = update_group (g_id r) (\<lambda>s. (set_group now g s)\<lparr>g_version := Version g\<rparr>) d"
        using False Inr Some by (simp add: UpsertSiteGroup_def)
      ultimately show ?thesis using upd [OF Inr r] update_group_rows [OF assms r(1)] by simp
    qed
  qed
qed

lemma groups_same_name: "groups_ok d \<Longrightarrow> r \<in> set (groups d) \<Longrightarrow> s \<in> set (groups d) \<Longrightarrow> g_name r = g_name s \<Longrightarrow> r = s"
  by (auto simp: groups_ok_def distinct_map dest: inj_onD)

lemma site_row_not_local:
  assumes "groups_ok d" and "r \<in> set (groups d)" and "g_source r = ''site''"
  shows "g_name r \<notin> local_names d"
proof
  assume "g_name r \<in> local_names d"
  then obtain s where "s \<in> set (groups d)" "g_source s = ''local''" "g_name r = g_name s"
    by (auto simp: local_names_def local_rows_def)
  then show False using groups_same_name [OF assms(1,2)] assms(3) by auto
qed

lemma upsert_ok:
  assumes "groups_ok d"
  shows "groups_ok (fst (UpsertSiteGroup now g0 d))"
  using assms
proof (cases rule: upsert_cases [of d now g0])
  case (new g)
  then show ?thesis using insert_group_ok [OF assms new(1,3)] by simp
next
  case (upd g r)
  have "group_row_ok ((set_group now g s)\<lparr>g_version := Version g\<rparr>)" if "s \<in> set (groups d)" "g_id s = g_id r" for s
  proof -
    have "group_row_ok s" using assms that(1) by (simp add: groups_ok_def)
    then have "group_row_ok (set_group now g s)" by (intro set_group_ok [OF upd(1)]) (auto simp: group_row_ok_def)
    then show ?thesis by (simp add: group_row_ok_def)
  qed
  moreover have "distinct (map g_name (update_where (\<lambda>s. g_id s = g_id r) (\<lambda>s. (set_group now g s)\<lparr>g_version := Version g\<rparr>) (groups d)))"
    using assms by (simp add: update_where_keeps groups_ok_def)
  ultimately show ?thesis unfolding upd(6) by (intro update_group_ok assms) auto
qed (use assms in auto)

lemma upsert_local:
  assumes "groups_ok d"
  shows "local_rows (fst (UpsertSiteGroup now g0 d)) = local_rows d"
  using assms
proof (cases rule: upsert_cases [of d now g0])
  case (new g)
  then show ?thesis using validateGroup_ok(7) [OF new(1)] by (simp add: local_rows_def insert_group_def)
next
  case (upd g r)
  have "filter (\<lambda>r. g_source r = ''local'') (map (\<lambda>s. if s = r then bump_version s (f s) else s) rs)
      = filter (\<lambda>r. g_source r = ''local'') rs" if "\<And>s. g_source (f s) = g_source s" for f rs
    using upd(4) that by (induction rs) auto
  then show ?thesis by (simp add: local_rows_def upd(5))
qed auto

lemma upsert_names:
  assumes "groups_ok d"
  shows "site_names (fst (UpsertSiteGroup now g0 d)) =
    site_names d \<union> {n. n \<notin> local_names d \<and> (\<exists>g. validateGroup (g0\<lparr>GSource := ''site''\<rparr>) = Inr g \<and> GName g = n)}"
  using assms
proof (cases rule: upsert_cases [of d now g0])
  case invalid
  then show ?thesis by auto
next
  case (new g)
  moreover have "GName g \<notin> local_names d" using new(3) by (auto simp: local_names_def local_rows_def)
  moreover have "site_names (insert_group (Version g) now g d) = insert (GName g) (site_names d)"
    using validateGroup_ok(7) [OF new(1)] by (simp add: site_names_def insert_group_def image_Un del: set_filter)
  ultimately show ?thesis by auto
next
  case (keep g)
  then show ?thesis by auto
next
  case (upd g r)
  have r: "GName g \<in> site_names d" using upd by (force simp: site_names_def)
  have "GName g \<notin> local_names d"
    using site_row_not_local [OF assms upd(2,4)] upd(3) by simp
  moreover have "site_names (fst (UpsertSiteGroup now g0 d)) = site_names d"
  proof -
    have "map g_name (filter (\<lambda>r. g_source r = ''site'') (map (\<lambda>s. if s = r then bump_version s (f s) else s) rs))
        = map g_name (filter (\<lambda>r. g_source r = ''site'') rs)"
      if "\<And>s. g_source (f s) = g_source s" "\<And>s. g_name (f s) = g_name s" for f rs
      using upd(4) that by (induction rs) auto
    then show ?thesis unfolding site_names_def upd(5) set_map [symmetric] by simp
  qed
  ultimately show ?thesis using r upd(1) by auto
qed

definition catalogue_names :: "Group list \<Rightarrow> string set" where
  "catalogue_names gs = {n. \<exists>g0 \<in> set gs. \<exists>g. validateGroup (g0\<lparr>GSource := ''site''\<rparr>) = Inr g \<and> GName g = n}"

lemma upsert_all_facts:
  assumes "groups_ok d"
  shows "groups_ok (upsert_all now gs d) \<and> local_rows (upsert_all now gs d) = local_rows d
    \<and> site_names (upsert_all now gs d) = site_names d \<union> (catalogue_names gs - local_names d)"
  using assms
proof (induction gs arbitrary: d)
  case Nil
  then show ?case by (simp add: upsert_all_def catalogue_names_def)
next
  case (Cons g gs)
  let ?d = "fst (UpsertSiteGroup now g d)"
  have "upsert_all now (g # gs) d = upsert_all now gs ?d" by (simp add: upsert_all_def)
  moreover have "local_names ?d = local_names d" by (simp add: local_names_def upsert_local [OF Cons.prems])
  ultimately show ?case
    using Cons.IH [OF upsert_ok [OF Cons.prems, of now g]] upsert_local [OF Cons.prems, of now g]
      upsert_names [OF Cons.prems, of now g]
    by (auto simp: catalogue_names_def)
qed

lemma reconcile_facts:
  assumes "groups_ok d"
  shows "groups_ok (fst (ReconcileSiteGroups live d))"
    and "local_rows (fst (ReconcileSiteGroups live d)) = local_rows d"
    and "site_names (fst (ReconcileSiteGroups live d)) = site_names d \<inter> set live"
proof -
  have stale: "g_id r \<in> set (stale_groups live d) \<longleftrightarrow> g_source r = ''site'' \<and> g_name r \<notin> set live" if "r \<in> set (groups d)" for r
    using that assms by (auto simp: stale_groups_def groups_ok_def distinct_map dest: inj_onD)
  have g: "groups (fst (ReconcileSiteGroups live d)) = filter (\<lambda>r. \<not> (g_source r = ''site'' \<and> g_name r \<notin> set live)) (groups d)"
    unfolding ReconcileSiteGroups_def fst_conv delete_groups by (rule filter_cong [OF refl]) (simp add: stale)
  show "groups_ok (fst (ReconcileSiteGroups live d))"
    by (simp add: ReconcileSiteGroups_def delete_groups_ok assms)
  show "local_rows (fst (ReconcileSiteGroups live d)) = local_rows d"
    by (auto simp: local_rows_def g intro!: filter_cong)
  show "site_names (fst (ReconcileSiteGroups live d)) = site_names d \<inter> set live"
    by (auto simp: site_names_def g)
qed

lemma sync_once_facts:
  assumes "groups_ok d"
  shows "groups_ok (snd (sync_once now resp st d)) \<and> local_rows (snd (sync_once now resp st d)) = local_rows d"
  using assms upsert_all_facts [OF assms, of now] reconcile_facts
  by (auto simp: sync_once_def Let_def split: option.splits prod.splits)

text \<open>
  C35. The site never overrides the operator: whatever the site answers, over any number of polls,
  every group of source local stays in the table exactly as it was, and the table stays well formed
  (distinct identifiers and names, trimmed names, at least one newsgroup each).
\<close>

theorem sync_keeps_local:
  assumes "groups_ok d"
  shows "groups_ok (snd (StartSiteGroupsSync fetch ticks d))
    \<and> local_rows (snd (StartSiteGroupsSync fetch ticks d)) = local_rows d"
proof -
  have "groups_ok (snd (foldl (\<lambda>(st, d) now. sync_once now (fetch now (sync_since st)) st d) (st, d) ticks))
    \<and> local_rows (snd (foldl (\<lambda>(st, d) now. sync_once now (fetch now (sync_since st)) st d) (st, d) ticks)) = local_rows d"
    if "groups_ok d" for st d
    using that
  proof (induction ticks arbitrary: st d)
    case (Cons now ticks)
    obtain st' d' where s: "sync_once now (fetch now (sync_since st)) st d = (st', d')" by fastforce
    then have "groups_ok d' \<and> local_rows d' = local_rows d"
      using sync_once_facts [OF Cons.prems, of now "fetch now (sync_since st)" st] by simp
    then show ?case using Cons.IH [of d' st'] by (simp add: s)
  qed simp
  then show ?thesis using assms by (simp add: StartSiteGroupsSync_def)
qed

text \<open>
  What a full synchronisation leaves: the names of the site's groups in the table are those that
  were there or that the answer's valid groups have after trimming, without the names of local
  groups, as far as they occur in the answer, in which names are compared as sent, untrimmed.
\<close>

theorem full_sync_names:
  assumes "groups_ok d" and "doFullSync st"
  shows "site_names (snd (sync_once now (Some (gs, mv)) st d))
    = (site_names d \<union> (catalogue_names gs - local_names d)) \<inter> GName ` set gs"
  using upsert_all_facts [OF assms(1), of now gs] reconcile_facts(3) [of "upsert_all now gs d" "map GName gs"] assms(2)
  by (simp add: sync_once_def Let_def)

text \<open>
  A catalogue group whose name has outer blanks is stored under the trimmed name and deleted
  again by the reconciliation of the same synchronisation, unless the trimmed name is in the
  catalogue too.
\<close>

theorem full_sync_drops_untrimmed:
  assumes "groups_ok d" and "doFullSync st" and "g \<in> set gs" and "trim_space (GName g) \<notin> GName ` set gs"
  shows "trim_space (GName g) \<notin> site_names (snd (sync_once now (Some (gs, mv)) st d))"
  using upsert_all_facts [OF assms(1), of now gs] reconcile_facts(3) [of "upsert_all now gs d" "map GName gs"] assms(2,4)
  by (simp add: sync_once_def Let_def)

text \<open>
  Storing a site group again with the version it already has does not keep that version: the
  trigger fires and the row ends one version ahead of the site.
\<close>

theorem upsert_same_version:
  assumes "groups_ok d" and "r \<in> set (groups d)" and "g_source r = ''site''"
    and "validateGroup (g0\<lparr>GSource := ''site''\<rparr>) = Inr g" and "g_name r = GName g" and "g_version r = Version g0"
  shows "\<exists>r' \<in> set (groups (fst (UpsertSiteGroup now g0 d))). g_id r' = g_id r \<and> g_version r' = Version g0 + 1"
proof -
  have v: "Version g = Version g0" using validateGroup_ok(9) [OF assms(4)] by simp
  have nl: "GName g \<notin> local_names d"
    using site_row_not_local [OF assms(1-3)] assms(5) by simp
  from assms(1) show ?thesis
  proof (cases rule: upsert_cases [of d now g0])
    case (new g')
    then have "g_name r \<notin> g_name ` set (groups d)" using assms(4,5) by simp
    then show ?thesis using assms(2) by blast
  next
    case (upd g' r')
    then have "r' = r" using groups_same_name [OF assms(1), of r' r] assms(2,4,5) by simp
    then show ?thesis
      using upd assms(2,4,6) v by (auto simp: bump_version_def set_group_def intro!: bexI [of _ "bump_version r _"] image_eqI)
  qed (use assms(4) nl in auto)
qed

definition group_example :: Group where
  "group_example = \<lparr>GID = 0, GName = '' anime'', GType = ''Video'', Newsgroups = [''alt.binaries.test''], Screenshots = None,
     SampleSeconds = None, GPar2Redundancy = None, GObfuscate = None, WatermarkText = [],
     BannedExtensions = [''EXE''], GSource = ''local'', Version = 7\<rparr>"

definition groups_example :: db where
  "groups_example = fst (UpsertSiteGroup 3 (group_example\<lparr>GName := ''manga''\<rparr>) (fst (CreateGroup 2 group_example empty_db)))"

lemma groups_example_ok: "groups_ok groups_example"
proof -
  have "groups_ok empty_db" by (simp add: groups_ok_def empty_db_def)
  moreover have "fst (CreateGroup 2 group_example empty_db) =
      insert_group 1 2 (group_example\<lparr>GName := ''anime'', GType := ''video'', BannedExtensions := [''.exe'']\<rparr>) empty_db"
    by code_simp
  moreover have "validateGroup group_example = Inr (group_example\<lparr>GName := ''anime'', GType := ''video'', BannedExtensions := [''.exe'']\<rparr>)"
    by code_simp
  ultimately have "groups_ok (fst (CreateGroup 2 group_example empty_db))"
    using insert_group_ok [of empty_db] by (simp add: empty_db_def)
  then show ?thesis unfolding groups_example_def by (rule upsert_ok)
qed

lemma sync_keeps_local_witness:
  "local_rows (snd (StartSiteGroupsSync (\<lambda>now since. Some ([group_example\<lparr>WatermarkText := ''site''\<rparr>], 9)) [10, 20] groups_example))
    = local_rows groups_example"
  using sync_keeps_local [OF groups_example_ok] by blast

lemma full_sync_names_witness:
  "''anime'' \<notin> site_names (snd (sync_once 5 (Some ([group_example], 9)) \<lparr>lastVersion = 0, doFullSync = True\<rparr> groups_example))"
proof -
  have "''anime'' \<notin> GName ` set [group_example]" by (simp add: group_example_def)
  then show ?thesis using full_sync_names [OF groups_example_ok, of "\<lparr>lastVersion = 0, doFullSync = True\<rparr>" 5 "[group_example]" 9]
    by simp
qed

lemma full_sync_drops_untrimmed_witness:
  "trim_space (GName group_example) = ''anime''
   \<and> ''anime'' \<notin> site_names (snd (sync_once 5 (Some ([group_example], 9)) \<lparr>lastVersion = 0, doFullSync = True\<rparr> groups_example))"
proof -
  have t: "trim_space (GName group_example) = ''anime''" by code_simp
  then show ?thesis
    using full_sync_drops_untrimmed [OF groups_example_ok, of "\<lparr>lastVersion = 0, doFullSync = True\<rparr>" group_example "[group_example]" 5 9]
    by (simp add: group_example_def)
qed

lemma upsert_same_version_witness:
  "\<exists>r' \<in> set (groups (fst (UpsertSiteGroup 5 (group_example\<lparr>GName := ''manga''\<rparr>) groups_example))). g_id r' = 2 \<and> g_version r' = 8"
proof -
  let ?g = "group_example\<lparr>GName := ''manga'', GType := ''video'', BannedExtensions := [''.exe''], GSource := ''site''\<rparr>"
  have v: "validateGroup (group_example\<lparr>GName := ''manga'', GSource := ''site''\<rparr>) = Inr ?g" by code_simp
  have "groups groups_example = [hd (groups groups_example), group_of 2 7 3 ?g]" by code_simp
  then have "group_of 2 7 3 ?g \<in> set (groups groups_example)" by (metis list.set_intros)
  then show ?thesis
    using upsert_same_version [OF groups_example_ok, of "group_of 2 7 3 ?g" "group_example\<lparr>GName := ''manga''\<rparr>" ?g 5] v
    by (simp add: group_example_def)
qed

end
