(* ===== verification/Offline.thy ===== *)
theory Offline
  imports Publish Blocklist SiteGroups
begin

text \<open>
  The pipeline of one offline job (\<open>processOfflineJob\<close> in
  \<^verbatim>\<open>services/network_offline_processor.go\<close>): the group's overrides, the three shapes of the source, the
  blocklist pass, samples, staging, PAR2, encryption, upload, NZB and the files of the release. It
  threads an \<open>offline_world\<close>: the temporary directory and the slot of \<open>Publish\<close>, the disk
  reservations, what the source path names, the files written to the output directory and the phases
  published. The tools and the random names are in \<open>offline_env\<close>.
\<close>

section \<open>World and environment\<close>

record offline_world =
  W :: world
  Ledger :: ledger
  SourceNode :: "fnode option"
  Outputs :: "(string \<times> bytes) list"
  Phases :: "string list"

record 'seg offline_env =
  o_wrap :: string
  o_stage :: string
  o_base :: string
  o_title :: string
  o_title2 :: string
  o_password :: string
  o_archive :: string
  o_enc :: string
  o_sample :: string
  o_names :: "nat \<Rightarrow> string"
  o_obf :: "fpath \<Rightarrow> string"
  wrap_ok :: bool
  stage_ok :: bool
  enc_ok :: bool
  enc_rename_ok :: bool
  out_ok :: bool
  nzb_write_ok :: bool
  pw_write_ok :: bool
  o_same_dev :: "fpath \<Rightarrow> bool"
  o_cancelled :: "fpath \<Rightarrow> bool"
  o_upload_cancelled :: "nat \<Rightarrow> bool"
  torrent_reserves :: bool
  torrent_bytes :: int
  torrent_dl :: "bytes \<Rightarrow> fnode option \<times> (string + unit)"
  sampler :: "string \<Rightarrow> fnode \<Rightarrow> (string + (string \<times> bytes) list) option"
  o_par2 :: "fnode \<Rightarrow> string \<Rightarrow> PAR2Options \<Rightarrow> fnode \<times> (string + string list)"
  o_seven_zip :: "fnode \<Rightarrow> string \<Rightarrow> bytes option \<times> string option"
  o_send :: "nat \<Rightarrow> fpath \<Rightarrow> string \<Rightarrow> string \<Rightarrow> int \<Rightarrow> int \<Rightarrow> string + 'seg list"
  o_encode :: "'seg NZB \<Rightarrow> string + string"
  o_now :: int
  o_out_env :: string

definition phase :: "string \<Rightarrow> offline_world \<Rightarrow> offline_world" where
  "phase p ow = ow\<lparr>Phases := Phases ow @ [p]\<rparr>"

definition on_world :: "(world \<Rightarrow> world) \<Rightarrow> offline_world \<Rightarrow> offline_world" where
  "on_world f ow = ow\<lparr>W := f (W ow)\<rparr>"

definition offline_name :: "OfflineJob \<Rightarrow> string" where
  "offline_name job = ''offline-'' @ itoa (ID job)"

section \<open>The configuration of a job\<close>

definition job_config :: "pub_config \<Rightarrow> Group \<Rightarrow> pub_config" where
  "job_config cfg g =
     (let c1 = cfg\<lparr>P_nzb := (P_nzb cfg)\<lparr>NNTPGroup := join '','' (Newsgroups g)\<rparr>\<rparr>;
          c2 = (case GPar2Redundancy g of Some r \<Rightarrow> c1\<lparr>P_Redundancy := r\<rparr> | None \<Rightarrow> c1)
      in case GObfuscate g of Some b \<Rightarrow> c2\<lparr>P_Obfuscate := b\<rparr> | None \<Rightarrow> c2)"

section \<open>The source\<close>

text \<open>Where the content is: in place at the source path, or an entry of the temporary directory. The
  name is that of the directory.\<close>

datatype content_at = AtSource string | AtTemp string

fun content_tree :: "content_at \<Rightarrow> offline_world \<Rightarrow> fnode" where
  "content_tree (AtSource r) ow = (case SourceNode ow of Some n \<Rightarrow> n | None \<Rightarrow> FUnreadable)"
| "content_tree (AtTemp name) ow = temp_tree name (W ow)"

fun content_root :: "content_at \<Rightarrow> string" where
  "content_root (AtSource r) = r"
| "content_root (AtTemp name) = name"

fun set_content :: "content_at \<Rightarrow> fnode \<Rightarrow> offline_world \<Rightarrow> offline_world" where
  "set_content (AtSource r) n ow = ow\<lparr>SourceNode := Some n\<rparr>"
| "set_content (AtTemp name) n ow = on_world (set_temp name n) ow"

text \<open>\<^verbatim>\<open>os.Remove\<close> of files by path.\<close>

fun tree_del :: "fpath \<Rightarrow> fnode \<Rightarrow> fnode" where
  "tree_del [a] (FDir xs) = FDir (filter (\<lambda>(b, n). b \<noteq> a \<or> is_dir n) xs)"
| "tree_del (a # b # p) (FDir xs) = FDir (map (\<lambda>(c, n). (c, if c = a then tree_del (b # p) n else n)) xs)"
| "tree_del p t = t"

definition drop_blocked :: "string \<Rightarrow> string list \<Rightarrow> fnode \<Rightarrow> fnode" where
  "drop_blocked base blocked t = foldl (\<lambda>t (p, ext). tree_del p t) t (removed_files base (Some blocked) t)"

text \<open>Step 2: the content with the cleanup that the function defers, or an error. A download that fails
  before its space check reserves nothing (\<open>torrent_reserves\<close>).\<close>

definition torrent_source ::
  "'seg offline_env \<Rightarrow> OfflineJob \<Rightarrow> bytes \<Rightarrow> offline_world \<Rightarrow> offline_world \<times> (string + content_at)" where
  "torrent_source e job blob ow0 =
     (let name = ''dl-'' @ offline_name job;
          ow1 = (if torrent_reserves e
                 then ow0\<lparr>Ledger := ReserveDisk (offline_name job) (torrent_bytes e) (Ledger ow0)\<rparr> else ow0)
      in case torrent_dl e blob of
           (left, Inl err) \<Rightarrow>
             (case left of Some n \<Rightarrow> on_world (set_temp name n) ow1 | None \<Rightarrow> ow1, Inl (''torrent download: '' @ err))
         | (left, Inr u) \<Rightarrow>
             (case left of Some n \<Rightarrow> on_world (set_temp name n) ow1 | None \<Rightarrow> ow1, Inr (AtTemp name)))"

definition wrap_source ::
  "'seg offline_env \<Rightarrow> string \<Rightarrow> fnode \<Rightarrow> offline_world \<Rightarrow> offline_world \<times> (string + content_at)" where
  "wrap_source e base n ow =
     (let wrap = ''wrap-'' @ o_wrap e
      in case mkdir_temp (wrap_ok e) wrap (W ow) of
           None \<Rightarrow> (ow, Inl ''wrap dir: mkdir'')
         | Some w1 \<Rightarrow>
             (let dst = temp_tree wrap w1
              in case (if o_same_dev e [] then tree_put [base] n dst else None) of
                   Some d \<Rightarrow> (ow\<lparr>W := set_temp wrap d w1\<rparr>, Inr (AtTemp wrap))
                 | None \<Rightarrow>
                     (case CopyFiles (o_same_dev e) (o_cancelled e) base n wrap dst of
                        (d, Inl err) \<Rightarrow> (ow\<lparr>W := remove_temp wrap w1\<rparr>, Inl (''wrap copy: '' @ err))
                      | (d, Inr u) \<Rightarrow> (ow\<lparr>W := set_temp wrap d w1\<rparr>, Inr (AtTemp wrap)))))"

definition locate_source ::
  "'seg offline_env \<Rightarrow> OfflineJob \<Rightarrow> offline_world \<Rightarrow> offline_world \<times> (string + content_at)" where
  "locate_source e job ow0 =
     (let ow = phase ''source'' ow0; base = path_base (SourcePath job)
      in case SourceNode ow of
           None \<Rightarrow> (ow, Inl ''stat source: no such file or directory'')
         | Some n \<Rightarrow>
             (case resolve n of
                None \<Rightarrow> (ow, Inl ''stat source: no such file or directory'')
              | Some info \<Rightarrow>
                  if to_lower (file_ext (SourcePath job)) = ''.torrent''
                  then (case info of
                          FFile blob \<Rightarrow> torrent_source e job blob (phase ''downloading'' ow)
                        | _ \<Rightarrow> (phase ''downloading'' ow, Inl ''read .torrent: is a directory''))
                  else if is_dir info then (ow, Inr (AtSource base))
                  else wrap_source e base n ow))"

fun content_cleanup :: "content_at \<Rightarrow> offline_world \<Rightarrow> offline_world" where
  "content_cleanup (AtSource r) ow = ow"
| "content_cleanup (AtTemp name) ow = on_world (remove_temp name) ow"

section \<open>Samples\<close>

text \<open>\<open>sampler\<close> is \<open>None\<close> when the content has nothing to sample or the probe fails, an error of the
  generator, or the named files it made; its argument is the kind of samples.\<close>

definition sample_kind :: "Group \<Rightarrow> (string \<times> string \<times> string) option" where
  "sample_kind g =
     (if GType g = ''video'' \<or> GType g = [] then Some (''video'', ''screenshots'', ''offline-shots-'')
      else if GType g = ''manga'' then Some (''manga'', ''pages'', ''offline-pages-'')
      else if GType g = ''music'' then Some (''music'', ''samples'', ''offline-samples-'')
      else None)"

definition generateOfflineSamples ::
  "'seg offline_env \<Rightarrow> Group \<Rightarrow> content_at \<Rightarrow> offline_world \<Rightarrow> offline_world \<times> (string \<times> (string \<times> bytes) list) option" where
  "generateOfflineSamples e g c ow =
     (case sample_kind g of
        None \<Rightarrow> (ow, None)
      | Some (kind, ph, pre) \<Rightarrow>
          (let ow1 = phase ph ow; dir = pre @ o_sample e
           in case sampler e kind (content_tree c ow1) of
                None \<Rightarrow> (ow1, None)
              | Some (Inl err) \<Rightarrow> (on_world (remove_temp dir) ow1, None)
              | Some (Inr files) \<Rightarrow>
                  (on_world (set_temp dir (FDir (map (\<lambda>(n, b). (n, FFile b)) files))) ow1, Some (dir, files))))"

definition moveSamplesInto :: "bool \<Rightarrow> string \<Rightarrow> (string \<times> bytes) list \<Rightarrow> offline_world \<Rightarrow> offline_world" where
  "moveSamplesInto ok dst files ow =
     (if ok then ow\<lparr>Outputs := Outputs ow @ map (\<lambda>(n, b). (path_join_all [dst, n], b)) files\<rparr> else ow)"

section \<open>The steps\<close>

definition offline_stage_name :: "'seg offline_env \<Rightarrow> string" where
  "offline_stage_name e = ''offline-stage-'' @ o_stage e"

definition offline_enc_name :: "'seg offline_env \<Rightarrow> string" where
  "offline_enc_name e = ''offline-enc-'' @ o_enc e"

definition offline_archive_name :: "'seg offline_env \<Rightarrow> string" where
  "offline_archive_name e = o_archive e @ ''.7z''"

text \<open>Step 8: the files of the release.\<close>

definition offline_output ::
  "'seg offline_env \<Rightarrow> pub_config \<Rightarrow> Group \<Rightarrow> OfflineJob \<Rightarrow> string \<Rightarrow> string
    \<Rightarrow> (string \<times> (string \<times> bytes) list) option \<Rightarrow> offline_world \<Rightarrow> offline_world \<times> (string + string \<times> string)" where
  "offline_output e cfg g job nzbData password samples ow =
     (let safeTitle = SanitizeBaseName (o_title2 e) (OfflineJob.Title job);
          releaseDir = release_dir (offlineOutputDir (o_out_env e) (P_TempDir cfg)) (GName g) safeTitle;
          nzbFile = nzb_file releaseDir safeTitle
      in if \<not> out_ok e then (ow, Inl ''output dir: mkdir'')
         else if \<not> nzb_write_ok e then (ow, Inl ''write nzb: write'')
         else
           (let ow1 = ow\<lparr>Outputs := Outputs ow @ [(nzbFile, bytes_of nzbData)]\<rparr>;
                ow2 = (if password \<noteq> [] \<and> pw_write_ok e
                       then ow1\<lparr>Outputs := Outputs ow1 @ [(path_join_all [releaseDir, ''password.txt''], bytes_of (password @ [CHR 0x0A]))]\<rparr>
                       else ow1);
                ow3 = (case samples of
                         Some (dir, files) \<Rightarrow> moveSamplesInto (out_ok e) (path_join_all [releaseDir, ''samples'']) files ow2
                       | None \<Rightarrow> ow2)
            in (ow3, Inr (nzbFile, password))))"

text \<open>Steps 6 and 7, with the slot held until the function returns.\<close>

definition offline_upload ::
  "'seg offline_env \<Rightarrow> pub_config \<Rightarrow> Group \<Rightarrow> OfflineJob \<Rightarrow> string \<Rightarrow> string
    \<Rightarrow> (string \<times> (string \<times> bytes) list) option \<Rightarrow> offline_world \<Rightarrow> offline_world \<times> (string + string \<times> string)" where
  "offline_upload e cfg g job dirname password samples ow0 =
     (let jobCfg = job_config cfg g;
          ow1 = on_world (\<lambda>w. w\<lparr>Slot := True\<rparr>) (phase ''queued-upload'' ow0)
      in deferred (on_world (\<lambda>w. w\<lparr>Slot := False\<rparr>))
           (\<lambda>ow. let ow2 = phase ''uploading'' ow
                in case UploadDirectory (o_send e) (o_upload_cancelled e) (P_Obfuscate jobCfg) (o_names e)
                          (temp_tree dirname (W ow2)) (OfflineJob.Title job) of
                     Inl err \<Rightarrow> (ow2, Inl (''upload: '' @ err))
                   | Inr segs \<Rightarrow>
                       (let ow3 = phase ''nzb'' ow2
                        in case CreateMultiFileNZBBytes (o_encode e) (P_nzb jobCfg) (o_now e) segs password
                                  \<lparr>NZBMetaInfo.Title = OfflineJob.Title job, RequestID = 0\<rparr> of
                             Inl err \<Rightarrow> (ow3, Inl (''nzb: '' @ err))
                           | Inr nzbData \<Rightarrow> offline_output e cfg g job nzbData password samples ow3)) ow1)"

definition offline_encrypt ::
  "'seg offline_env \<Rightarrow> pub_config \<Rightarrow> Group \<Rightarrow> OfflineJob
    \<Rightarrow> (string \<times> (string \<times> bytes) list) option \<Rightarrow> offline_world \<Rightarrow> offline_world \<times> (string + string \<times> string)" where
  "offline_encrypt e cfg g job samples ow0 =
     (if \<not> P_Encrypt (job_config cfg g) then offline_upload e cfg g job (offline_stage_name e) [] samples ow0
      else deferred (on_world (remove_temp (offline_archive_name e)))
        (\<lambda>ow. let ow1 = phase ''encrypting'' ow;
                  (archive, err) = o_seven_zip e (temp_tree (offline_stage_name e) (W ow1)) (o_password e);
                  ow2 = (case archive of Some b \<Rightarrow> on_world (set_temp (offline_archive_name e) (FFile b)) ow1 | None \<Rightarrow> ow1)
              in case err of
                   Some msg \<Rightarrow> (ow2, Inl (''encrypt: '' @ msg))
                 | None \<Rightarrow>
                     (case mkdir_temp (enc_ok e) (offline_enc_name e) (W ow2) of
                        None \<Rightarrow> (ow2, Inl ''enc dir: mkdir'')
                      | Some w3 \<Rightarrow>
                          deferred (on_world (remove_temp (offline_enc_name e)))
                            (\<lambda>ow. case rename_temp (enc_rename_ok e) (offline_archive_name e) (offline_enc_name e)
                                          (offline_archive_name e) (W ow) of
                                    None \<Rightarrow> (ow, Inl ''enc rename: rename'')
                                  | Some w4 \<Rightarrow>
                                      offline_upload e cfg g job (offline_enc_name e) (o_password e) samples (ow\<lparr>W := w4\<rparr>))
                            (ow2\<lparr>W := w3\<rparr>))) ow0)"

definition offline_copy ::
  "'seg offline_env \<Rightarrow> pub_config \<Rightarrow> string \<Rightarrow> fnode \<Rightarrow> string \<Rightarrow> fnode \<Rightarrow> fnode \<times> (string + unit)" where
  "offline_copy e jobCfg base src stage dst =
     (if P_Obfuscate jobCfg then ObfuscateFiles (o_obf e) (o_cancelled e) base src stage dst
      else CopyFiles (o_same_dev e) (o_cancelled e) base src stage dst)"

text \<open>Steps 4 and 5 (staging and PAR2, whose failure is not fatal).\<close>

definition offline_stage ::
  "'seg offline_env \<Rightarrow> pub_config \<Rightarrow> Group \<Rightarrow> OfflineJob \<Rightarrow> content_at
    \<Rightarrow> (string \<times> (string \<times> bytes) list) option \<Rightarrow> offline_world \<Rightarrow> offline_world \<times> (string + string \<times> string)" where
  "offline_stage e cfg g job c samples ow0 =
     (let jobCfg = job_config cfg g; stage = offline_stage_name e
      in case mkdir_temp (stage_ok e) stage (W ow0) of
           None \<Rightarrow> (ow0, Inl ''stage dir: mkdir'')
         | Some w1 \<Rightarrow>
             deferred (on_world (remove_temp stage))
               (\<lambda>ow. let ow1 = phase ''staging'' ow; src = content_tree c ow1; dst = temp_tree stage (W ow1)
                    in case offline_copy e jobCfg (content_root c) src stage dst of
                         (d, Inl err) \<Rightarrow>
                           (on_world (set_temp stage d) ow1,
                            Inl ((if P_Obfuscate jobCfg then ''obfuscate: '' else ''stage copy: '') @ err))
                       | (d, Inr u) \<Rightarrow>
                           (let ow2 = phase ''par2'' ow1;
                                baseName = (if P_Obfuscate jobCfg then o_base e else SanitizeBaseName (o_title e) (OfflineJob.Title job));
                                d' = fst (o_par2 e d baseName (par2_options jobCfg))
                            in offline_encrypt e cfg g job samples (on_world (set_temp stage d') ow2)))
               (ow0\<lparr>W := w1\<rparr>))"

text \<open>Steps 2b and 3: the blocklist pass runs on the content in place, then the samples.\<close>

definition offline_content ::
  "'seg offline_env \<Rightarrow> pub_config \<Rightarrow> Group \<Rightarrow> OfflineJob \<Rightarrow> content_at \<Rightarrow> offline_world \<Rightarrow> offline_world \<times> (string + string \<times> string)" where
  "offline_content e cfg g job c ow0 =
     (let ow1 = set_content c
                  (drop_blocked (content_root c) (EffectiveBlocklist (BannedExtensions g)) (content_tree c ow0)) ow0
      in case generateOfflineSamples e g c ow1 of
           (ow2, samples) \<Rightarrow>
             deferred (\<lambda>ow. case samples of Some (dir, files) \<Rightarrow> on_world (remove_temp dir) ow | None \<Rightarrow> ow)
               (offline_stage e cfg g job c samples) ow2)"

definition processOfflineJob ::
  "'seg offline_env \<Rightarrow> pub_config \<Rightarrow> db \<Rightarrow> OfflineJob \<Rightarrow> offline_world \<Rightarrow> offline_world \<times> (string + string \<times> string)" where
  "processOfflineJob e cfg d job ow0 =
     (case GroupID job of
        None \<Rightarrow> (ow0, Inl ''job has no group assigned'')
      | Some gid \<Rightarrow>
          (case GetGroup gid d of
             Inl err \<Rightarrow> (ow0, Inl ''load group: not found'')
           | Inr g \<Rightarrow>
               if Newsgroups g = [] then (ow0, Inl (''group '' @ quote @ GName g @ quote @ '' has no newsgroups''))
               else
                 deferred (\<lambda>ow. ow\<lparr>Ledger := ReleaseDisk (offline_name job) (Ledger ow)\<rparr>)
                   (\<lambda>ow. case locate_source e job ow of
                           (ow1, Inl err) \<Rightarrow> (ow1, Inl err)
                         | (ow1, Inr c) \<Rightarrow> deferred (content_cleanup c) (offline_content e cfg g job c) ow1) ow0))"

section \<open>What a job leaves behind\<close>

abbreviation temp_at :: "offline_world \<Rightarrow> string \<Rightarrow> fnode option" where
  "temp_at ow \<equiv> map_of (Temp (W ow))"

abbreviation slot_of :: "offline_world \<Rightarrow> bool" where
  "slot_of ow \<equiv> Slot (W ow)"

lemma offline_sel [simp]:
  "W (phase p ow) = W ow" "Ledger (phase p ow) = Ledger ow" "SourceNode (phase p ow) = SourceNode ow"
  "Outputs (phase p ow) = Outputs ow"
  "W (on_world f ow) = f (W ow)" "Ledger (on_world f ow) = Ledger ow" "SourceNode (on_world f ow) = SourceNode ow"
  "Outputs (on_world f ow) = Outputs ow"
  by (simp_all add: phase_def on_world_def)

lemma moveSamplesInto_sel [simp]:
  "W (moveSamplesInto ok dst files ow) = W ow" "Ledger (moveSamplesInto ok dst files ow) = Ledger ow"
  "SourceNode (moveSamplesInto ok dst files ow) = SourceNode ow"
  by (simp_all add: moveSamplesInto_def)

lemma offline_output_sel [simp]:
  "W (fst (offline_output e cfg g job nzb pw samples ow)) = W ow"
  "Ledger (fst (offline_output e cfg g job nzb pw samples ow)) = Ledger ow"
  "SourceNode (fst (offline_output e cfg g job nzb pw samples ow)) = SourceNode ow"
  by (simp_all add: offline_output_def Let_def split: option.split prod.split)

lemma offline_upload_sel [simp]:
  "Temp (W (fst (offline_upload e cfg g job dir pw samples ow))) = Temp (W ow)"
  "\<not> slot_of (fst (offline_upload e cfg g job dir pw samples ow))"
  "Ledger (fst (offline_upload e cfg g job dir pw samples ow)) = Ledger ow"
  "SourceNode (fst (offline_upload e cfg g job dir pw samples ow)) = SourceNode ow"
  by (simp_all add: offline_upload_def Let_def split: sum.split)

lemma offline_encrypt_temp:
  assumes "temp_at ow (offline_archive_name e) = None" and "temp_at ow (offline_enc_name e) = None" and "\<not> slot_of ow"
  shows "temp_at (fst (offline_encrypt e cfg g job samples ow)) = temp_at ow"
    and "\<not> slot_of (fst (offline_encrypt e cfg g job samples ow))"
    and "Ledger (fst (offline_encrypt e cfg g job samples ow)) = Ledger ow"
    and "SourceNode (fst (offline_encrypt e cfg g job samples ow)) = SourceNode ow"
proof -
  let ?a = "offline_archive_name e" and ?c = "offline_enc_name e" and ?r = "offline_encrypt e cfg g job samples ow"
  obtain archive err where z: "o_seven_zip e (temp_tree (offline_stage_name e) (W ow)) (o_password e) = (archive, err)" by fastforce
  define ow2 where "ow2 = (case archive of Some b \<Rightarrow> on_world (set_temp ?a (FFile b)) (phase ''encrypting'' ow) | None \<Rightarrow> phase ''encrypting'' ow)"
  have ow2: "k \<noteq> ?a \<Longrightarrow> temp_at ow2 k = temp_at ow k" "\<not> slot_of ow2" "Ledger ow2 = Ledger ow" "SourceNode ow2 = SourceNode ow" for k
    using assms(3) by (simp_all add: ow2_def split: option.split)
  have "(k \<noteq> ?a \<and> k \<noteq> ?c \<longrightarrow> temp_at (fst ?r) k = temp_at ow k) \<and> temp_at (fst ?r) ?a = None \<and> temp_at (fst ?r) ?c = None
      \<and> \<not> slot_of (fst ?r) \<and> Ledger (fst ?r) = Ledger ow \<and> SourceNode (fst ?r) = SourceNode ow" for k
  proof (cases "P_Encrypt (job_config cfg g)")
    case False
    then show ?thesis using assms by (simp add: offline_encrypt_def)
  next
    case enc: True
    show ?thesis
    proof (cases err)
      case (Some msg)
      then have "?r = (on_world (remove_temp ?a) ow2, Inl (''encrypt: '' @ msg))"
        using enc z by (simp add: offline_encrypt_def deferred_def ow2_def Let_def)
      then show ?thesis using ow2 assms by (cases "?c = ?a") simp_all
    next
      case None
      show ?thesis
      proof (cases "mkdir_temp (enc_ok e) ?c (W ow2)")
        case None
        then have "?r = (on_world (remove_temp ?a) ow2, Inl ''enc dir: mkdir'')"
          using enc z \<open>err = None\<close> by (simp add: offline_encrypt_def deferred_def ow2_def Let_def)
        then show ?thesis using ow2 assms by (cases "?c = ?a") simp_all
      next
        case (Some w3)
        have w3: "k \<noteq> ?c \<Longrightarrow> map_of (Temp w3) k = temp_at ow2 k" for k
          using mkdir_temp_other [OF Some] by blast
        have s3: "\<not> Slot w3" using Some ow2(2) by (auto simp: mkdir_temp_def split: if_splits option.splits)
        let ?body = "\<lambda>ow. case rename_temp (enc_rename_ok e) ?a ?c ?a (W ow) of
                            None \<Rightarrow> (ow, Inl ''enc rename: rename'')
                          | Some w4 \<Rightarrow> offline_upload e cfg g job ?c (o_password e) samples (ow\<lparr>W := w4\<rparr>)"
        have r: "fst ?r = on_world (remove_temp ?a) (on_world (remove_temp ?c) (fst (?body (ow2\<lparr>W := w3\<rparr>))))"
          using enc z \<open>err = None\<close> Some by (simp add: offline_encrypt_def ow2_def Let_def cong: option.case_cong)
        have b: "(k \<noteq> ?a \<and> k \<noteq> ?c \<longrightarrow> temp_at (fst (?body (ow2\<lparr>W := w3\<rparr>))) k = map_of (Temp w3) k)
            \<and> \<not> slot_of (fst (?body (ow2\<lparr>W := w3\<rparr>))) \<and> Ledger (fst (?body (ow2\<lparr>W := w3\<rparr>))) = Ledger ow2
            \<and> SourceNode (fst (?body (ow2\<lparr>W := w3\<rparr>))) = SourceNode ow2"
          using rename_temp_other [of "enc_rename_ok e" ?a ?c ?a w3] s3 by (auto split: option.split)
        then show ?thesis unfolding r using ow2 w3 by auto
      qed
    qed
  qed
  note all = this
  show "temp_at (fst ?r) = temp_at ow"
  proof
    fix k show "temp_at (fst ?r) k = temp_at ow k"
      using all [of k] assms by (cases "k = ?a"; cases "k = ?c") simp_all
  qed
  show "\<not> slot_of (fst ?r)" "Ledger (fst ?r) = Ledger ow" "SourceNode (fst ?r) = SourceNode ow"
    using all by blast+
qed

text \<open>The names a job draws are unused, and that of the archive is none of the others.\<close>

definition fresh_names :: "'seg offline_env \<Rightarrow> (string \<Rightarrow> fnode option) \<Rightarrow> bool" where
  "fresh_names e tmp \<longleftrightarrow>
     (let ns = [offline_stage_name e, offline_enc_name e, ''offline-shots-'' @ o_sample e, ''offline-pages-'' @ o_sample e, ''offline-samples-'' @ o_sample e]
      in list_all (\<lambda>n. tmp n = None) ns \<and> tmp (offline_archive_name e) = None \<and> offline_archive_name e \<notin> set ns)"

lemma fresh_namesD:
  assumes "fresh_names e tmp"
  shows "tmp (offline_stage_name e) = None" "tmp (offline_enc_name e) = None"
    "sample_kind g = Some (k, ph, pre) \<Longrightarrow> tmp (pre @ o_sample e) = None"
    "tmp (offline_archive_name e) = None" "offline_archive_name e \<noteq> offline_stage_name e"
    "offline_archive_name e \<noteq> offline_enc_name e"
    "sample_kind g = Some (k, ph, pre) \<Longrightarrow> offline_archive_name e \<noteq> pre @ o_sample e"
  using assms by (auto simp: fresh_names_def sample_kind_def split: if_splits)

lemma prefixed_names:
  "offline_stage_name e \<noteq> offline_enc_name e" "offline_stage_name e \<noteq> ''wrap-'' @ x" "offline_enc_name e \<noteq> ''wrap-'' @ x"
  "sample_kind g = Some (k, ph, pre) \<Longrightarrow> pre @ y \<noteq> offline_stage_name e"
  "sample_kind g = Some (k, ph, pre) \<Longrightarrow> pre @ y \<noteq> offline_enc_name e"
  "sample_kind g = Some (k, ph, pre) \<Longrightarrow> pre @ y \<noteq> ''wrap-'' @ x"
  by (auto simp: offline_stage_name_def offline_enc_name_def sample_kind_def split: if_splits)

definition fresh_stage :: "'seg offline_env \<Rightarrow> (string \<Rightarrow> fnode option) \<Rightarrow> bool" where
  "fresh_stage e tmp \<longleftrightarrow> tmp (offline_stage_name e) = None \<and> tmp (offline_enc_name e) = None
     \<and> tmp (offline_archive_name e) = None
     \<and> offline_archive_name e \<noteq> offline_stage_name e \<and> offline_archive_name e \<noteq> offline_enc_name e"

lemma offline_stage_temp:
  assumes "fresh_stage e (temp_at ow)" and "\<not> slot_of ow"
  shows "temp_at (fst (offline_stage e cfg g job c samples ow)) = temp_at ow
     \<and> \<not> slot_of (fst (offline_stage e cfg g job c samples ow))
     \<and> Ledger (fst (offline_stage e cfg g job c samples ow)) = Ledger ow
     \<and> SourceNode (fst (offline_stage e cfg g job c samples ow)) = SourceNode ow"
proof (cases "mkdir_temp (stage_ok e) (offline_stage_name e) (W ow)")
  case None
  then show ?thesis using assms(2) by (simp add: offline_stage_def Let_def)
next
  case (Some w1)
  note fr = assms(1) [unfolded fresh_stage_def]
  let ?s = "offline_stage_name e"
  have w1: "map_of (Temp w1) = (temp_at ow)(?s \<mapsto> FDir [])" "\<not> Slot w1"
    using mkdir_temp_Some [OF Some] fr assms(2) by simp_all
  let ?ow1 = "phase ''staging'' (ow\<lparr>W := w1\<rparr>)"
  let ?dst = "temp_tree ?s (W ?ow1)"
  let ?copy = "offline_copy e (job_config cfg g) (content_root c) (content_tree c ?ow1) ?s ?dst"
  obtain d r where cp: "?copy = (d, r)" by fastforce
  show ?thesis
  proof (cases r)
    case (Inl err)
    then have "fst (offline_stage e cfg g job c samples ow) = on_world (remove_temp ?s) (on_world (set_temp ?s d) ?ow1)"
      using Some cp by (simp add: offline_stage_def Let_def)
    then show ?thesis using w1 fr by (simp add: fun_upd_idem)
  next
    case (Inr u)
    let ?base = "if P_Obfuscate (job_config cfg g) then o_base e else SanitizeBaseName (o_title e) (OfflineJob.Title job)"
    let ?d' = "fst (o_par2 e d ?base (par2_options (job_config cfg g)))"
    let ?ow2 = "on_world (set_temp ?s ?d') (phase ''par2'' ?ow1)"
    have t2: "temp_at ?ow2 = (temp_at ow)(?s \<mapsto> ?d')" using w1 by simp
    have fr2: "temp_at ?ow2 (offline_archive_name e) = None" "temp_at ?ow2 (offline_enc_name e) = None" "\<not> slot_of ?ow2"
      using fr prefixed_names(1) [of e] w1(2) unfolding t2 by simp_all
    note enc = offline_encrypt_temp [OF fr2, of cfg g job samples]
    have "fst (offline_stage e cfg g job c samples ow) = on_world (remove_temp ?s) (fst (offline_encrypt e cfg g job samples ?ow2))"
      using Some cp Inr by (simp add: offline_stage_def Let_def)
    then show ?thesis using enc fr unfolding t2 by (simp add: fun_upd_idem)
  qed
qed

lemma set_content_sel:
  "k \<noteq> content_root c \<Longrightarrow> temp_at (set_content c n ow) k = temp_at ow k"
  "slot_of (set_content c n ow) = slot_of ow" "Ledger (set_content c n ow) = Ledger ow"
  by (cases c; simp)+

lemma samples_sel:
  assumes "generateOfflineSamples e g c ow = (ow', samples)"
  shows "slot_of ow' = slot_of ow" "Ledger ow' = Ledger ow" "SourceNode ow' = SourceNode ow"
    "samples = None \<Longrightarrow> temp_at ow' k = (if \<exists>kd ph pre. sample_kind g = Some (kd, ph, pre) \<and> k = pre @ o_sample e \<and> temp_at ow' k = None then None else temp_at ow k)"
    "samples = Some (dir, files) \<Longrightarrow> (\<exists>kd ph pre. sample_kind g = Some (kd, ph, pre) \<and> dir = pre @ o_sample e)
       \<and> temp_at ow' = (temp_at ow)(dir \<mapsto> FDir (map (\<lambda>(n, b). (n, FFile b)) files))"
  using assms by (auto simp: generateOfflineSamples_def Let_def split: option.splits sum.splits prod.splits)

lemma offline_content_temp:
  assumes "fresh_names e (temp_at (set_content c x ow))" and "\<not> slot_of ow"
    and x: "x = drop_blocked (content_root c) (EffectiveBlocklist (BannedExtensions g)) (content_tree c ow)"
  shows "temp_at (fst (offline_content e cfg g job c ow)) = temp_at (set_content c x ow)
     \<and> \<not> slot_of (fst (offline_content e cfg g job c ow))
     \<and> Ledger (fst (offline_content e cfg g job c ow)) = Ledger ow
     \<and> SourceNode (fst (offline_content e cfg g job c ow)) = SourceNode (set_content c x ow)"
proof -
  let ?ow1 = "set_content c x ow"
  obtain ow2 samples where s: "generateOfflineSamples e g c ?ow1 = (ow2, samples)" by fastforce
  note sel = samples_sel [OF s]
  have slot: "\<not> slot_of ow2" using sel(1) assms(2) by (simp add: set_content_sel)
  have led: "Ledger ow2 = Ledger ow" using sel(2) by (simp add: set_content_sel)
  let ?st = "fst (offline_stage e cfg g job c samples ow2)"
  have fst_eq: "fst (offline_content e cfg g job c ow)
      = (case samples of Some (dir, files) \<Rightarrow> on_world (remove_temp dir) ?st | None \<Rightarrow> ?st)"
    by (simp add: offline_content_def x [symmetric] s)
  show ?thesis
  proof (cases samples)
    case None
    have same: "temp_at ow2 k = temp_at ?ow1 k" for k
      using sel(4) [OF None, of k] fresh_namesD(3) [OF assms(1)] by (auto split: if_splits)
    then have eq: "temp_at ow2 = temp_at ?ow1" by blast
    have "fresh_stage e (temp_at ow2)" using fresh_namesD [OF assms(1)] eq by (simp add: fresh_stage_def)
    from offline_stage_temp [OF this slot, of cfg g job c samples] show ?thesis
      using None eq led sel(3) unfolding fst_eq by simp
  next
    case (Some df)
    obtain dir files where df: "samples = Some (dir, files)" using Some by (cases df) simp
    from sel(5) [OF df] obtain kd ph pre where k: "sample_kind g = Some (kd, ph, pre)" "dir = pre @ o_sample e"
      and t: "temp_at ow2 = (temp_at ?ow1)(dir \<mapsto> FDir (map (\<lambda>(n, b). (n, FFile b)) files))" by blast
    have dir: "temp_at ?ow1 dir = None" using fresh_namesD(3) [OF assms(1) k(1)] k(2) by simp
    have "fresh_stage e (temp_at ow2)"
      using fresh_namesD [OF assms(1)] fresh_namesD(7) [OF assms(1) k(1)] prefixed_names(4,5) [OF k(1), of "o_sample e" e]
      by (auto simp: fresh_stage_def t k(2))
    from offline_stage_temp [OF this slot, of cfg g job c samples] show ?thesis
      using dir led sel(3) unfolding fst_eq df t by (simp add: fun_upd_idem)
  qed
qed

lemma torrent_source_temp:
  assumes "torrent_source e job blob ow = (ow1, r)"
  shows "k \<noteq> ''dl-'' @ offline_name job \<Longrightarrow> temp_at ow1 k = temp_at ow k" "slot_of ow1 = slot_of ow"
    "Ledger ow1 = Ledger ow \<or> Ledger ow1 = ReserveDisk (offline_name job) (torrent_bytes e) (Ledger ow)"
    "SourceNode ow1 = SourceNode ow"
    "r = Inr c \<Longrightarrow> c = AtTemp (''dl-'' @ offline_name job)"
  using assms by (auto simp: torrent_source_def Let_def split: prod.splits sum.splits option.splits if_splits)

lemma wrap_source_temp:
  assumes "wrap_source e base n ow = (ow1, r)" and "temp_at ow (''wrap-'' @ o_wrap e) = None"
  shows "k \<noteq> ''wrap-'' @ o_wrap e \<or> r = Inl err \<Longrightarrow> temp_at ow1 k = temp_at ow k" "slot_of ow1 = slot_of ow"
    "Ledger ow1 = Ledger ow" "SourceNode ow1 = SourceNode ow" "r = Inr c \<Longrightarrow> c = AtTemp (''wrap-'' @ o_wrap e)"
  using assms mkdir_temp_Some [of "wrap_ok e" "''wrap-'' @ o_wrap e" "W ow"]
  by (auto simp: wrap_source_def Let_def split: prod.splits sum.splits option.splits if_splits)

definition source_names :: "'seg offline_env \<Rightarrow> OfflineJob \<Rightarrow> string set" where
  "source_names e job = {''dl-'' @ offline_name job, ''wrap-'' @ o_wrap e}"

lemma locate_source_temp:
  assumes l: "locate_source e job ow = (ow1, r)" and w: "temp_at ow (''wrap-'' @ o_wrap e) = None"
  shows "k \<notin> source_names e job \<Longrightarrow> temp_at ow1 k = temp_at ow k"
    and "r = Inl err \<Longrightarrow> k \<noteq> ''dl-'' @ offline_name job \<Longrightarrow> temp_at ow1 k = temp_at ow k"
    and "slot_of ow1 = slot_of ow"
    and "Ledger ow1 = Ledger ow \<or> Ledger ow1 = ReserveDisk (offline_name job) (torrent_bytes e) (Ledger ow)"
    and "SourceNode ow1 = SourceNode ow"
    and "r = Inr c \<Longrightarrow> (c = AtSource (path_base (SourcePath job)) \<and> temp_at ow1 = temp_at ow)
           \<or> (\<exists>n. c = AtTemp n \<and> n \<in> source_names e job \<and> (\<forall>k. k \<noteq> n \<longrightarrow> temp_at ow1 k = temp_at ow k))"
proof -
  let ?ow = "phase ''source'' ow"
  consider (fail) err where "r = Inl err" "W ow1 = W ow" "Ledger ow1 = Ledger ow" "SourceNode ow1 = SourceNode ow"
    | (torrent) blob where "torrent_source e job blob (phase ''downloading'' ?ow) = (ow1, r)"
    | (dir) "r = Inr (AtSource (path_base (SourcePath job)))" "ow1 = ?ow"
    | (wrap) n where "wrap_source e (path_base (SourcePath job)) n ?ow = (ow1, r)"
  proof (cases "SourceNode ow")
    case None
    then show thesis using l fail by (auto simp: locate_source_def Let_def)
  next
    case n: (Some n)
    show thesis
    proof (cases "resolve n")
      case None
      then show thesis using l fail n by (auto simp: locate_source_def Let_def)
    next
      case (Some info)
      show thesis
      proof (cases "to_lower (file_ext (SourcePath job)) = ''.torrent''")
        case True
        then show thesis using l fail torrent n Some by (cases info) (auto simp: locate_source_def Let_def)
      next
        case False
        then show thesis using l dir wrap n Some by (cases "is_dir info") (auto simp: locate_source_def Let_def)
      qed
    qed
  qed
  note cs = this
  have "(k \<notin> source_names e job \<longrightarrow> temp_at ow1 k = temp_at ow k)
    \<and> (r = Inl err \<and> k \<noteq> ''dl-'' @ offline_name job \<longrightarrow> temp_at ow1 k = temp_at ow k)
    \<and> slot_of ow1 = slot_of ow
    \<and> (Ledger ow1 = Ledger ow \<or> Ledger ow1 = ReserveDisk (offline_name job) (torrent_bytes e) (Ledger ow))
    \<and> SourceNode ow1 = SourceNode ow
    \<and> (r = Inr c \<longrightarrow> (c = AtSource (path_base (SourcePath job)) \<and> temp_at ow1 = temp_at ow)
         \<or> (\<exists>n. c = AtTemp n \<and> n \<in> source_names e job \<and> (\<forall>k. k \<noteq> n \<longrightarrow> temp_at ow1 k = temp_at ow k)))" for k err c
    using cs
  proof cases
    case fail
    then show ?thesis by simp
  next
    case torrent
    note t = torrent_source_temp [OF torrent]
    show ?thesis using t(1,2,3,4) t(5) [of c] by (auto simp: source_names_def)
  next
    case dir
    then show ?thesis by simp
  next
    case wrap
    have w': "temp_at ?ow (''wrap-'' @ o_wrap e) = None" using w by simp
    note t = wrap_source_temp [OF wrap w']
    show ?thesis using t(1) [of _ err] t(2,3,4) t(5) [of c] by (auto simp: source_names_def)
  qed
  then show "k \<notin> source_names e job \<Longrightarrow> temp_at ow1 k = temp_at ow k"
    and "r = Inl err \<Longrightarrow> k \<noteq> ''dl-'' @ offline_name job \<Longrightarrow> temp_at ow1 k = temp_at ow k"
    and "slot_of ow1 = slot_of ow"
    and "Ledger ow1 = Ledger ow \<or> Ledger ow1 = ReserveDisk (offline_name job) (torrent_bytes e) (Ledger ow)"
    and "SourceNode ow1 = SourceNode ow"
    and "r = Inr c \<Longrightarrow> (c = AtSource (path_base (SourcePath job)) \<and> temp_at ow1 = temp_at ow)
           \<or> (\<exists>n. c = AtTemp n \<and> n \<in> source_names e job \<and> (\<forall>k. k \<noteq> n \<longrightarrow> temp_at ow1 k = temp_at ow k))"
    by blast+
qed

lemma delete_update_absent: "map_of xs k = None \<Longrightarrow> AList.delete k (AList.update k v xs) = xs"
  by (induction xs) (auto split: if_splits simp: delete_id map_of_eq_None_iff)

lemma release_untouched:
  assumes "map_of (reservations L) job = None"
  shows "ReleaseDisk job L = L" "ReleaseDisk job (ReserveDisk job n L) = L"
  using assms
  by (simp_all add: ReleaseDisk_def release_map_def ReserveDisk_def add_pending_def reserve_map_def reserve_delta_def
      Let_def update_conv' delete_update_absent)

section \<open>What a job does to a directory of the operator\<close>

lemma tree_del_map_of:
  "map_of (map (\<lambda>(c, n). (c, if c = a then f n else n)) xs) b
     = (case map_of xs b of None \<Rightarrow> None | Some n \<Rightarrow> Some (if b = a then f n else n))"
  by (induction xs) auto

lemma filter_map_of:
  "distinct (map fst xs) \<Longrightarrow> map_of (filter (\<lambda>(b, n). b = a \<longrightarrow> is_dir n) xs) c
     = (case map_of xs c of None \<Rightarrow> None | Some n \<Rightarrow> if c = a \<and> \<not> is_dir n then None else Some n)"
proof (induction xs)
  case Nil
  then show ?case by simp
next
  case (Cons x xs)
  obtain b n where x: "x = (b, n)" by fastforce
  have "map_of xs b = None" using Cons.prems by (simp add: x map_of_eq_None_iff)
  then show ?case using Cons by (auto simp: x split: option.splits)
qed

lemma file_at_del: "wf_tree t \<Longrightarrow> file_at (tree_del p t) q = (if q = p \<and> p \<noteq> [] then None else file_at t q)"
proof (induction p t arbitrary: q rule: tree_del.induct)
  case (1 a xs)
  then have d: "distinct (map fst xs)" by simp
  show ?case
  proof (cases q)
    case Nil
    then show ?thesis by (simp add: file_at_Nil_dir)
  next
    case (Cons c r)
    then show ?thesis
      by (cases r) (auto simp: file_at_Cons filter_map_of [OF d] file_at_no_dir file_at_Nil_dir split: option.split)
  qed
next
  case (2 a b p xs)
  show ?case
  proof (cases q)
    case Nil
    then show ?thesis by (simp add: file_at_Nil_dir)
  next
    case (Cons c r)
    show ?thesis
    proof (cases "map_of xs c")
      case None
      then show ?thesis using Cons by (simp add: file_at_Cons tree_del_map_of)
    next
      case (Some n)
      then have "wf_tree n" using 2(2) by (auto simp: list_all_iff dest: map_of_SomeD)
      then have "c = a \<Longrightarrow> file_at (tree_del (b # p) n) r = (if r = b # p then None else file_at n r)"
        using 2(1) [of "(c, n)" c n r] map_of_SomeD [OF Some] by simp
      then show ?thesis using Some Cons by (cases "c = a") (simp_all add: file_at_Cons tree_del_map_of)
    qed
  qed
qed (auto simp: file_at_file)

lemma wf_tree_del: "wf_tree t \<Longrightarrow> wf_tree (tree_del p t)"
proof (induction p t rule: tree_del.induct)
  case (1 a xs)
  have "distinct (map fst (filter P xs))" if "distinct (map fst xs)" for P
    using that by (induction xs) auto
  then show ?case using 1 by (auto simp: list_all_iff)
next
  case (2 a b p xs)
  have eq: "map (fst \<circ> (\<lambda>(c, n). (c, if c = a then tree_del (b # p) n else n))) xs = map fst xs"
    by (induction xs) auto
  have "distinct (map (fst \<circ> (\<lambda>(c, n). (c, if c = a then tree_del (b # p) n else n))) xs)"
    unfolding eq using 2(2) by simp
  then show ?case using 2 by (auto simp: list_all_iff)
qed auto

lemma file_at_del_all:
  "wf_tree t \<Longrightarrow> file_at (foldl (\<lambda>t (p, ext). tree_del p t) t rm) q
     = (if q \<noteq> [] \<and> q \<in> fst ` set rm then None else file_at t q)"
proof (induction rm arbitrary: t)
  case Nil
  then show ?case by simp
next
  case (Cons pe rm)
  obtain p e where pe: "pe = (p, e)" by fastforce
  show ?case using Cons.IH [OF wf_tree_del [OF Cons.prems, of p]] file_at_del [OF Cons.prems, of p q]
    by (auto simp: pe)
qed

lemma drop_blocked_files:
  assumes "wf_tree t" and "readable no_skip [] t" and "is_dir t"
  shows "file_at (drop_blocked base bl t) q
     = (if q \<noteq> [] \<and> lower_ext (last q) \<in> set bl then None else file_at t q)"
proof -
  have "q \<in> fst ` set (removed_files base (Some bl) t) \<longleftrightarrow>
      (\<exists>n. file_at t q = Some n) \<and> lower_ext (base_name base q) \<in> set bl"
  proof -
    have "q \<in> fst ` S \<longleftrightarrow> (\<exists>x. (q, x) \<in> S)" for S :: "(fpath \<times> string) set" by force
    then show ?thesis by (simp add: removed_iff [OF assms(1,2)] blocklist_or_default_def)
  qed
  then show ?thesis
    using file_at_Nil_dir [OF assms(3)]
    by (auto simp: drop_blocked_def file_at_del_all [OF assms(1)] base_name_def)
qed

lemma offline_nzb_written:
  "snd (offline_upload e cfg g job dir pw samples ow) = Inr (f, p) \<Longrightarrow>
     f \<in> fst ` set (Outputs (fst (offline_upload e cfg g job dir pw samples ow)))"
  "snd (offline_encrypt e cfg g job samples ow) = Inr (f, p) \<Longrightarrow>
     f \<in> fst ` set (Outputs (fst (offline_encrypt e cfg g job samples ow)))"
proof -
  have out: "snd (offline_output e cfg g job nzb pw samples ow) = Inr (f, p) \<Longrightarrow>
      f \<in> fst ` set (Outputs (fst (offline_output e cfg g job nzb pw samples ow)))" for nzb ow pw
    by (auto simp: offline_output_def moveSamplesInto_def Let_def split: if_splits option.splits)
  have up: "snd (offline_upload e cfg g job dir pw samples ow) = Inr (f, p) \<Longrightarrow>
     f \<in> fst ` set (Outputs (fst (offline_upload e cfg g job dir pw samples ow)))" for dir pw ow
    using out by (auto simp: offline_upload_def Let_def split: sum.splits)
  show "snd (offline_upload e cfg g job dir pw samples ow) = Inr (f, p) \<Longrightarrow>
     f \<in> fst ` set (Outputs (fst (offline_upload e cfg g job dir pw samples ow)))" by (rule up)
  show "snd (offline_encrypt e cfg g job samples ow) = Inr (f, p) \<Longrightarrow>
     f \<in> fst ` set (Outputs (fst (offline_encrypt e cfg g job samples ow)))"
    using up by (auto simp: offline_encrypt_def Let_def split: sum.splits option.splits prod.splits if_splits)
qed

lemma offline_stage_nzb:
  "snd (offline_stage e cfg g job c samples ow) = Inr (f, p) \<Longrightarrow>
     f \<in> fst ` set (Outputs (fst (offline_stage e cfg g job c samples ow)))"
  by (auto simp: offline_stage_def Let_def split: sum.splits option.splits prod.splits dest!: offline_nzb_written(2))

lemma process_nzb:
  assumes "snd (processOfflineJob e cfg d job ow) = Inr (f, p)"
  shows "f \<in> fst ` set (Outputs (fst (processOfflineJob e cfg d job ow)))"
proof -
  have content: "snd (offline_content e cfg g job c ow) = Inr (f, p) \<Longrightarrow>
      f \<in> fst ` set (Outputs (fst (offline_content e cfg g job c ow)))" for g c ow
    using offline_stage_nzb by (auto simp: offline_content_def Let_def split: option.splits prod.splits)
  have clean: "Outputs (content_cleanup c ow) = Outputs ow" for c ow by (cases c) simp_all
  show ?thesis
    using assms content by (auto simp: processOfflineJob_def clean split: option.splits sum.splits prod.splits if_splits)
qed

section \<open>The row of the job\<close>

text \<open>The pipeline as the processor runs it: the phases published and the result.\<close>

definition offline_pipeline ::
  "'seg offline_env \<Rightarrow> pub_config \<Rightarrow> db \<Rightarrow> offline_world \<Rightarrow> OfflineJob \<Rightarrow> (string \<times> rat) list \<times> (string + string \<times> string)" where
  "offline_pipeline e cfg d ow job =
     (case processOfflineJob e cfg d job ow of (ow', r) \<Rightarrow> (map (\<lambda>p. (p, 0)) (drop (length (Phases ow)) (Phases ow')), r))"

section \<open>Example\<close>

definition demo_offline :: "string offline_env" where
  "demo_offline =
     \<lparr>o_wrap = ''w1'', o_stage = ''a1'', o_base = ''b1'', o_title = ''c1'', o_title2 = ''c2'', o_password = ''p1'',
      o_archive = ''d1'', o_enc = ''e1'', o_sample = ''s1'', o_names = (\<lambda>i. ''n''), o_obf = (\<lambda>p. ''o''),
      wrap_ok = True, stage_ok = True, enc_ok = True, enc_rename_ok = True, out_ok = True, nzb_write_ok = True,
      pw_write_ok = True, o_same_dev = (\<lambda>p. True), o_cancelled = (\<lambda>p. False), o_upload_cancelled = (\<lambda>i. False),
      torrent_reserves = True, torrent_bytes = 0, torrent_dl = (\<lambda>b. (None, Inl ''no peers'')), sampler = (\<lambda>k t. None),
      o_par2 = (\<lambda>s b opts. (s, Inr [])), o_seven_zip = (\<lambda>s pw. (Some [7], None)), o_send = echo_upload,
      o_encode = (\<lambda>z. Inr ''nzb''), o_now = 0, o_out_env = ''/out''\<rparr>"

definition demo_db :: db where
  "demo_db = empty_db\<lparr>groups :=
     [\<lparr>g_id = 1, g_name = ''Anime'', g_type = ''video'', g_newsgroups = [''alt.binaries.test''], g_bans = [],
       g_screenshots = None, g_sample_seconds = None, g_par2 = None, g_obfuscate = None, g_watermark = [],
       g_source = ''local'', g_version = 1, g_created = 0, g_updated = 0\<rparr>], groups_seq := 1\<rparr>"

definition demo_ojob :: OfflineJob where
  "demo_ojob =
     \<lparr>ID = 3, SourcePath = ''/in/Film'', Title = ''Film'', GroupID = Some 1, GroupNameAtCreation = ''Anime'',
      Status = ''processing'', Phase = [], Progress = 0, Error = [], NzbPath = [], Password = [],
      CreatedAt = Some 0, StartedAt = Some 1, CompletedAt = None\<rparr>"

definition demo_dir :: fnode where
  "demo_dir = FDir [(''a.mkv'', FFile [1, 2]), (''setup.exe'', FFile [3])]"

definition demo_ow :: "fnode option \<Rightarrow> offline_world" where
  "demo_ow src = \<lparr>W = demo_world, Ledger = ledger_init, SourceNode = src, Outputs = [], Phases = []\<rparr>"

section \<open>Properties\<close>

text \<open>
  Whatever happens to an offline job (a missing group, a source that is gone, a failure of any
  step, or success), it leaves nothing of its own in the temporary directory, gives the upload slot and
  its disk reservation back; only a torrent download that fails may leave its download directory.
\<close>

theorem offline_cleans_up:
  assumes "fresh_names e (temp_at ow)" and "\<forall>k \<in> source_names e job. temp_at ow k = None"
    and "offline_archive_name e \<notin> source_names e job" and "\<not> slot_of ow"
    and "map_of (reservations (Ledger ow)) (offline_name job) = None"
  shows "let (ow', r) = processOfflineJob e cfg d job ow
     in (\<forall>k. temp_at ow' k \<noteq> temp_at ow k \<longrightarrow> k = ''dl-'' @ offline_name job \<and> (\<exists>err. r = Inl err))
        \<and> \<not> slot_of ow' \<and> Ledger ow' = Ledger ow"
proof -
  let ?n = "offline_name job"
  note rel = release_untouched [OF assms(5)]
  have same: ?thesis if "processOfflineJob e cfg d job ow = (ow, r)" for r
    using that assms(4) by simp
  show ?thesis
  proof (cases "\<exists>gid g. GroupID job = Some gid \<and> GetGroup gid d = Inr g \<and> Newsgroups g \<noteq> []")
    case False
    then show ?thesis using same by (auto simp: processOfflineJob_def split: option.splits sum.splits)
  next
    case True
    then obtain gid g where g: "GroupID job = Some gid" "GetGroup gid d = Inr g" "Newsgroups g \<noteq> []" by blast
    obtain ow1 r1 where l: "locate_source e job ow = (ow1, r1)" by fastforce
    have wn: "temp_at ow (''wrap-'' @ o_wrap e) = None" using assms(2) by (simp add: source_names_def)
    note loc = locate_source_temp [OF l wn]
    have led: "Ledger ow1 = Ledger ow \<or> Ledger ow1 = ReserveDisk ?n (torrent_bytes e) (Ledger ow)" by (rule loc(4))
    show ?thesis
    proof (cases r1)
      case (Inl err)
      then have "processOfflineJob e cfg d job ow = (ow1\<lparr>Ledger := ReleaseDisk ?n (Ledger ow1)\<rparr>, Inl err)"
        using g l by (simp add: processOfflineJob_def deferred_def)
      then show ?thesis using loc(2) [OF Inl] loc(3) assms(4) led rel by auto
    next
      case (Inr c)
      define x where "x = drop_blocked (content_root c) (EffectiveBlocklist (BannedExtensions g)) (content_tree c ow1)"
      have other: "temp_at (set_content c x ow1) k = temp_at ow k" if "k \<notin> source_names e job" for k
        using loc(6) [OF Inr] loc(1) [OF that] that by (auto simp: on_world_def)
      have "fresh_names e (temp_at (set_content c x ow1))"
        using assms(1,3) other by (auto simp: fresh_names_def source_names_def offline_stage_name_def offline_enc_name_def Let_def)
      moreover have "\<not> slot_of ow1" using loc(3) assms(4) by simp
      ultimately have body: "temp_at (fst (offline_content e cfg g job c ow1)) = temp_at (set_content c x ow1)
          \<and> \<not> slot_of (fst (offline_content e cfg g job c ow1))
          \<and> Ledger (fst (offline_content e cfg g job c ow1)) = Ledger ow1"
        using offline_content_temp x_def by blast
      let ?ow3 = "content_cleanup c (fst (offline_content e cfg g job c ow1))"
      have fin: "processOfflineJob e cfg d job ow
          = (?ow3\<lparr>Ledger := ReleaseDisk ?n (Ledger ?ow3)\<rparr>, snd (offline_content e cfg g job c ow1))"
        using g l Inr by (simp add: processOfflineJob_def deferred_def split_beta)
      have t3: "temp_at ?ow3 k = temp_at ow k" for k
        using loc(6) [OF Inr] body assms(2) by (auto simp: on_world_def)
      have "\<not> slot_of ?ow3 \<and> Ledger ?ow3 = Ledger ow1" using body by (cases c) simp_all
      then show ?thesis using fin t3 led rel by auto
    qed
  qed
qed

theorem offline_cleans_up_witness:
  "let (ow', r) = processOfflineJob demo_offline (Cfg (demo_job True)) demo_db demo_ojob (demo_ow (Some demo_dir))
     in (\<forall>k. temp_at ow' k \<noteq> temp_at (demo_ow (Some demo_dir)) k \<longrightarrow> k = ''dl-'' @ offline_name demo_ojob \<and> (\<exists>err. r = Inl err))
        \<and> \<not> slot_of ow' \<and> Ledger ow' = Ledger (demo_ow (Some demo_dir))"
proof (rule offline_cleans_up)
  have n: "offline_name demo_ojob = ''offline-3''" by code_simp
  show "fresh_names demo_offline (temp_at (demo_ow (Some demo_dir)))"
    by (simp add: fresh_names_def demo_offline_def demo_ow_def demo_world_def offline_stage_name_def offline_enc_name_def
        offline_archive_name_def Let_def)
  show "\<forall>k \<in> source_names demo_offline demo_ojob. temp_at (demo_ow (Some demo_dir)) k = None"
    "offline_archive_name demo_offline \<notin> source_names demo_offline demo_ojob"
    by (simp_all add: source_names_def n demo_offline_def demo_ow_def demo_world_def offline_archive_name_def)
qed (simp_all add: demo_ow_def demo_world_def ledger_init_def)

text \<open>
  The blocklist pass of an offline job runs on the operator's own directory: whatever becomes of
  the job afterwards, every file of the directory with a blocked extension is gone from it, and every
  other file is still there.
\<close>

theorem offline_deletes_blocked:
  assumes "GroupID job = Some gid" and "GetGroup gid d = Inr g" and "Newsgroups g \<noteq> []"
    and "SourceNode ow = Some t" and "wf_tree t" and "readable no_skip [] t" and "is_dir t"
    and "to_lower (file_ext (SourcePath job)) \<noteq> ''.torrent''"
    and "fresh_names e (temp_at ow)" and "\<not> slot_of ow"
  shows "\<exists>t'. SourceNode (fst (processOfflineJob e cfg d job ow)) = Some t'
     \<and> (\<forall>q. file_at t' q = (if q \<noteq> [] \<and> lower_ext (last q) \<in> set (EffectiveBlocklist (BannedExtensions g)) then None
           else file_at t q))"
proof -
  let ?c = "AtSource (path_base (SourcePath job))" and ?ow1 = "phase ''source'' ow"
  have "resolve t = Some t" using assms(7) by (cases t) auto
  then have l: "locate_source e job ow = (?ow1, Inr ?c)"
    using assms(4,7,8) by (simp add: locate_source_def Let_def)
  define x where "x = drop_blocked (content_root ?c) (EffectiveBlocklist (BannedExtensions g)) (content_tree ?c ?ow1)"
  have "fresh_names e (temp_at (set_content ?c x ?ow1))" "\<not> slot_of ?ow1" using assms(9,10) by simp_all
  then have "SourceNode (fst (offline_content e cfg g job ?c ?ow1)) = SourceNode (set_content ?c x ?ow1)"
    using offline_content_temp x_def by blast
  then have "SourceNode (fst (processOfflineJob e cfg d job ow)) = Some x"
    using assms(1-3) l by (simp add: processOfflineJob_def)
  moreover have "x = drop_blocked (path_base (SourcePath job)) (EffectiveBlocklist (BannedExtensions g)) t"
    using assms(4) by (simp add: x_def)
  ultimately show ?thesis using drop_blocked_files [OF assms(5-7)] by simp
qed

theorem offline_deletes_blocked_witness:
  "\<exists>t'. SourceNode (fst (processOfflineJob demo_offline (Cfg (demo_job True)) demo_db demo_ojob (demo_ow (Some demo_dir)))) = Some t'
     \<and> (\<forall>q. file_at t' q = (if q \<noteq> [] \<and> lower_ext (last q) \<in> set (EffectiveBlocklist []) then None
           else file_at demo_dir q))"
proof -
  obtain g where g: "GetGroup 1 demo_db = Inr g" "Newsgroups g = [''alt.binaries.test'']" "BannedExtensions g = []"
    by (auto simp: GetGroup_def demo_db_def find_row_def scanGroup_def)
  have "GroupID demo_ojob = Some 1" by (simp add: demo_ojob_def)
  moreover have "to_lower (file_ext (SourcePath demo_ojob)) \<noteq> ''.torrent''" by code_simp
  moreover have "fresh_names demo_offline (temp_at (demo_ow (Some demo_dir)))"
    by (simp add: fresh_names_def demo_offline_def demo_ow_def demo_world_def offline_stage_name_def offline_enc_name_def
        offline_archive_name_def Let_def)
  ultimately show ?thesis
    using g offline_deletes_blocked [of demo_ojob 1 demo_db g "demo_ow (Some demo_dir)" demo_dir demo_offline "Cfg (demo_job True)"]
    by (simp add: demo_ow_def demo_world_def demo_dir_def readable_def)
qed

text \<open>
  C11. The database tells the truth about a job the processor has run: every row of that number is
  then completed or failed; completed means that the NZB it names was written, failed that the row
  holds the error of the pipeline.
\<close>

theorem offline_row_truth:
  assumes "r \<in> set (jobs (runOneOfflineJob (offline_pipeline e cfg d ow) now job d'))" and "j_id r = ID job"
  shows "case snd (processOfflineJob e cfg d job ow) of
       Inl err \<Rightarrow> j_status r = ''failed'' \<and> j_error r = Some err
     | Inr (f, pw) \<Rightarrow> j_status r = ''completed'' \<and> j_nzb r = Some f \<and> j_password r = Some pw
         \<and> f \<in> fst ` set (Outputs (fst (processOfflineJob e cfg d job ow)))"
proof -
  have res: "snd (offline_pipeline e cfg d ow job) = snd (processOfflineJob e cfg d job ow)"
    by (simp add: offline_pipeline_def split: prod.split)
  obtain f where f: "\<forall>r. j_id (f r) = j_id r \<and> outcome_ok (snd (offline_pipeline e cfg d ow job)) (f r)"
    "runOneOfflineJob (offline_pipeline e cfg d ow) now job d' = d'\<lparr>jobs := update_where (\<lambda>r. j_id r = ID job) f (jobs d')\<rparr>"
    using runOne_rows [of "offline_pipeline e cfg d ow" job now d'] by blast
  from assms(1) f(2) obtain s where "r = (if j_id s = ID job then f s else s)" by (auto simp: in_update_where)
  with assms(2) f(1) have "outcome_ok (snd (processOfflineJob e cfg d job ow)) r"
    unfolding res by (metis (no_types, lifting))
  then show ?thesis using process_nzb [of e cfg d job ow] by (auto simp: outcome_ok_def split: sum.splits)
qed

theorem offline_row_truth_witness:
  "\<exists>r :: job_row. case snd (processOfflineJob demo_offline (Cfg (demo_job True)) demo_db demo_ojob (demo_ow (Some demo_dir))) of
       Inl err \<Rightarrow> j_status r = ''failed'' \<and> j_error r = Some err
     | Inr (f, pw) \<Rightarrow> j_status r = ''completed'' \<and> j_nzb r = Some f \<and> j_password r = Some pw
         \<and> f \<in> fst ` set (Outputs (fst (processOfflineJob demo_offline (Cfg (demo_job True)) demo_db demo_ojob (demo_ow (Some demo_dir)))))"
proof -
  let ?p = "offline_pipeline demo_offline (Cfg (demo_job True)) demo_db (demo_ow (Some demo_dir))"
  let ?d = "demo_db\<lparr>jobs := [job_of 3 demo_ojob]\<rparr>"
  have "set (jobs (runOneOfflineJob ?p 9 demo_ojob ?d)) \<noteq> {} \<and> (\<forall>r \<in> set (jobs (runOneOfflineJob ?p 9 demo_ojob ?d)). j_id r = 3)"
    using runOne_rows [of ?p demo_ojob 9 ?d]
    by (auto simp: update_where_def job_of_def)
  moreover have "ID demo_ojob = 3" by (simp add: demo_ojob_def)
  ultimately obtain r where r: "r \<in> set (jobs (runOneOfflineJob ?p 9 demo_ojob ?d))" "j_id r = ID demo_ojob"
    by (metis equals0I)
  show ?thesis by (rule exI, rule offline_row_truth [OF r])
qed

end
