(* ===== verification/Torrent.thy ===== *)
theory Torrent
  imports Disk Config Blocklist Complex_Main "HOL-Library.Sublist"
begin

text \<open>
  The torrent download (\<^verbatim>\<open>services/network_torrent.go\<close>): the options, the space check before the
  download, the loop that watches it with its rules (slow speed, no full seed, stall, few peers), the
  files a torrent declares, and the seeding afterwards. The torrent library is behind observations:
  the loop is a sequence of \<open>dl_event\<close>s, each tick with what the library reports and the clock.
  Instants and durations are nanoseconds, one instant per tick. Rates are exact rationals: a difference
  of two counters divided by 2^20 is exact in floating point below 2^53 bytes. The comparison of the
  percentage with 95 is a parameter, since the code rounds it.
\<close>

section \<open>Helpers\<close>

definition base32_chr :: "char \<Rightarrow> bool" where
  "base32_chr c \<longleftrightarrow> is_upper c \<or> is_lower c \<or> (chr_le (CHR ''2'') c \<and> chr_le c (CHR ''7''))"

definition NormalizeInfoHash :: "string \<Rightarrow> string" where
  "NormalizeInfoHash h0 =
     (let h = trim_space h0
      in if length h \<noteq> 32 then h else if \<not> list_all base32_chr h then h else to_upper h)"

definition isBindInUseError :: "string \<Rightarrow> bool" where
  "isBindInUseError s \<longleftrightarrow>
     contains s ''address already in use'' \<or> contains s ''Only one usage of each socket address''"

text \<open>\<open>start port\<close> is the library's constructor.\<close>

definition newTorrentClient :: "(int \<Rightarrow> string + 'c) \<Rightarrow> int \<Rightarrow> string + 'c" where
  "newTorrentClient start port =
     (case start port of
        Inr c \<Rightarrow> Inr c
      | Inl err \<Rightarrow> if \<not> isBindInUseError err then Inl err else start 0)"

record 'f seedOpts =
  UploadKBps :: int
  RatioTarget :: 'f
  MaxHours :: 'f
  RequireFull :: bool
  StallMins :: int
  ListenPort :: int

definition seedOptsFromConfig :: "(string \<Rightarrow> 'f option) \<Rightarrow> 'f \<Rightarrow> layered \<Rightarrow> 'f seedOpts" where
  "seedOptsFromConfig parseFloat zero l =
     \<lparr>UploadKBps = layeredInt l ''torrent_max_upload_kbps'' 0,
      RatioTarget = layeredFloat parseFloat l ''torrent_seed_ratio'' zero,
      MaxHours = layeredFloat parseFloat l ''torrent_seed_hours'' zero,
      RequireFull = (layeredInt l ''torrent_require_full_seed'' 0 = 1),
      StallMins = layeredInt l ''torrent_no_full_seed_timeout_mins'' 0,
      ListenPort = layeredInt l ''torrent_port'' 0\<rparr>"

record downloadOpts =
  SlowThresholdMBs :: rat
  SlowTimeoutMins :: int
  LowPeersThreshold :: int
  LowPeersTimeoutMins :: int
  IsBoosted :: bool

section \<open>The space check\<close>

datatype dl_error =
    DiskShortfall int int
  | SlowDownload
  | Cancelled
  | LibError string

text \<open>\<open>effective\<close> is the result of \<^verbatim>\<open>FreeDiskAfterReservations\<close>; without one the download goes on.\<close>

definition preflight :: "u64 option \<Rightarrow> string \<Rightarrow> int \<Rightarrow> ledger \<Rightarrow> ledger \<times> dl_error option" where
  "preflight effective job torrentSize l =
     (let requiredBytes = reserve_bytes torrentSize
      in case effective of
           None \<Rightarrow> (ReserveDisk job torrentSize l, None)
         | Some eff \<Rightarrow>
             if eff < word_of_int requiredBytes then (l, Some (DiskShortfall torrentSize (sint eff)))
             else (ReserveDisk job torrentSize l, None))"

section \<open>The rules of the loop\<close>

definition minute :: int where
  "minute = 60000000000"

definition recoveryTicksRequired :: nat where
  "recoveryTicksRequired = 3"

text \<open>A rule with its timer: since when it is violated, and how many good ticks in a row there have
  been since. A bad tick starts the timer, or rejects once it has run longer than \<open>timeout\<close>; good ticks
  clear it when there have been three of them. The result is \<open>None\<close> for a rejection, or the new timer
  and whether the rule is counting.\<close>

type_synonym timer = "int option \<times> nat"

definition rule_tick :: "bool \<Rightarrow> int \<Rightarrow> int \<Rightarrow> timer \<Rightarrow> (timer \<times> bool) option" where
  "rule_tick bad now timeout t =
     (case t of (since, recovery) \<Rightarrow>
        if bad then
          (case since of
             None \<Rightarrow> Some ((Some now, 0), True)
           | Some s \<Rightarrow> if now - s > timeout then None else Some ((Some s, 0), True))
        else
          (case since of
             None \<Rightarrow> Some ((None, recovery), False)
           | Some s \<Rightarrow>
               if recovery + 1 \<ge> recoveryTicksRequired then Some ((None, 0), False)
               else Some ((Some s, recovery + 1), True)))"

record dl_state =
  lastCompleted :: int
  slowT :: timer
  stallT :: timer
  lowPeersT :: timer

definition dl_init :: dl_state where
  "dl_init = \<lparr>lastCompleted = 0, slowT = (None, 0), stallT = (None, 0), lowPeersT = (None, 0)\<rparr>"

text \<open>What a tick sees.\<close>

record tick =
  clock :: int
  completed :: int
  peers :: int

text \<open>The settings of the loop: those of the options, or the defaults without options.\<close>

record rules =
  slowThreshold :: rat
  slowTimeout :: int
  isBoosted :: bool
  lowPeersThreshold :: int
  lowPeersTimeout :: int
  requireFull :: bool
  stallMins :: int

definition rules_of :: "downloadOpts option \<Rightarrow> 'f seedOpts \<Rightarrow> rules" where
  "rules_of opts so =
     (case opts of
        None \<Rightarrow>
          \<lparr>slowThreshold = 0, slowTimeout = 0, isBoosted = False, lowPeersThreshold = -1, lowPeersTimeout = 0,
           requireFull = RequireFull so, stallMins = StallMins so\<rparr>
      | Some o1 \<Rightarrow>
          \<lparr>slowThreshold = SlowThresholdMBs o1,
           slowTimeout = (if SlowTimeoutMins o1 > 0 then SlowTimeoutMins o1 * minute else 0),
           isBoosted = IsBoosted o1,
           lowPeersThreshold = LowPeersThreshold o1,
           lowPeersTimeout = (if LowPeersTimeoutMins o1 > 0 then LowPeersTimeoutMins o1 * minute else 0),
           requireFull = RequireFull so, stallMins = StallMins so\<rparr>)"

definition speed_of :: "dl_state \<Rightarrow> tick \<Rightarrow> rat" where
  "speed_of s k = of_int (completed k - lastCompleted s) / 1048576"

definition is_slow :: "rules \<Rightarrow> rat \<Rightarrow> bool" where
  "is_slow r speed \<longleftrightarrow> (if isBoosted r then speed = 0 else speed < slowThreshold r)"

text \<open>\<open>below95 completed len\<close> is the comparison of the percentage.\<close>

definition slow_rule :: "(int \<Rightarrow> int \<Rightarrow> bool) \<Rightarrow> rules \<Rightarrow> int \<Rightarrow> dl_state \<Rightarrow> tick \<Rightarrow> (timer \<times> bool) option" where
  "slow_rule below95 r len s k =
     (if slowTimeout r > 0 \<and> slowThreshold r > 0 \<and> below95 (completed k) len
      then rule_tick (is_slow r (speed_of s k)) (clock k) (slowTimeout r) (slowT s)
      else Some (slowT s, False))"

definition full_seed_gate :: "rules \<Rightarrow> int \<Rightarrow> tick \<Rightarrow> bool" where
  "full_seed_gate r startedAt k \<longleftrightarrow> requireFull r \<and> completed k = 0 \<and> clock k - startedAt > minute"

definition stall_rule :: "rules \<Rightarrow> int \<Rightarrow> dl_state \<Rightarrow> tick \<Rightarrow> (timer \<times> bool) option" where
  "stall_rule r len s k =
     (if stallMins r > 0 \<and> completed k < len
      then rule_tick (speed_of s k = 0) (clock k) (stallMins r * minute) (stallT s)
      else if completed k \<ge> len then Some ((None, snd (stallT s)), False)
      else Some (stallT s, False))"

definition low_peers_rule :: "(int \<Rightarrow> int \<Rightarrow> bool) \<Rightarrow> rules \<Rightarrow> int \<Rightarrow> dl_state \<Rightarrow> tick \<Rightarrow> (timer \<times> bool) option" where
  "low_peers_rule below95 r len s k =
     (if lowPeersTimeout r > 0 \<and> lowPeersThreshold r \<ge> 0 \<and> below95 (completed k) len
      then rule_tick (peers k \<le> lowPeersThreshold r) (clock k) (lowPeersTimeout r) (lowPeersT s)
      else Some (lowPeersT s, False))"

text \<open>A warning the dashboard counts down: its kind and when the rule will reject.\<close>

definition warning :: "string \<Rightarrow> int \<Rightarrow> timer \<times> bool \<Rightarrow> (string \<times> int) list" where
  "warning kind timeout ta =
     (case ta of
        ((Some s, n), True) \<Rightarrow> [(kind, s + timeout)]
      | _ \<Rightarrow> [])"

text \<open>One tick: \<open>None\<close> is a rejection.\<close>

definition dl_tick ::
  "(int \<Rightarrow> int \<Rightarrow> bool) \<Rightarrow> rules \<Rightarrow> int \<Rightarrow> int \<Rightarrow> dl_state \<Rightarrow> tick \<Rightarrow> (dl_state \<times> (string \<times> int) list) option" where
  "dl_tick below95 r len startedAt s k =
     (if len \<le> 0 then Some (s, [])
      else
        (case slow_rule below95 r len s k of
           None \<Rightarrow> None
         | Some slow \<Rightarrow>
             if full_seed_gate r startedAt k then None
             else
               (case stall_rule r len s k of
                  None \<Rightarrow> None
                | Some stall \<Rightarrow>
                    (case low_peers_rule below95 r len s k of
                       None \<Rightarrow> None
                     | Some low \<Rightarrow>
                         Some (\<lparr>lastCompleted = completed k, slowT = fst slow, stallT = fst stall, lowPeersT = fst low\<rparr>,
                               warning ''slow_speed'' (slowTimeout r) slow
                               @ warning ''stalled'' (stallMins r * minute) stall
                               @ warning ''low_peers'' (lowPeersTimeout r) low)))))"

datatype dl_event = Cancel | WaitAllDone | Tick tick

text \<open>The loop over a sequence of events: the session's path, an error, or \<open>None\<close> while it still runs.\<close>

fun downloadAndWaitSeed ::
  "(int \<Rightarrow> int \<Rightarrow> bool) \<Rightarrow> rules \<Rightarrow> int \<Rightarrow> int \<Rightarrow> string \<Rightarrow> dl_event list \<Rightarrow> dl_state \<Rightarrow> (dl_error + string) option" where
  "downloadAndWaitSeed below95 r len startedAt dataDir [] s = None"
| "downloadAndWaitSeed below95 r len startedAt dataDir (Cancel # es) s = Some (Inl Cancelled)"
| "downloadAndWaitSeed below95 r len startedAt dataDir (WaitAllDone # es) s = Some (Inr dataDir)"
| "downloadAndWaitSeed below95 r len startedAt dataDir (Tick k # es) s =
     (case dl_tick below95 r len startedAt s k of
        None \<Rightarrow> Some (Inl SlowDownload)
      | Some (s', ws) \<Rightarrow> downloadAndWaitSeed below95 r len startedAt dataDir es s')"

section \<open>The two entries\<close>

text \<open>\<^verbatim>\<open>downloadTorrentFile\<close> takes no options: the loop runs without them, whatever its callers were given.\<close>

definition download_dir :: "string \<Rightarrow> string \<Rightarrow> string" where
  "download_dir tempDir jobName = path_join_all [tempDir, ''dl-'' @ jobName]"

definition downloadTorrentFile ::
  "(int \<Rightarrow> int \<Rightarrow> bool) \<Rightarrow> u64 option \<Rightarrow> 'f seedOpts \<Rightarrow> string \<Rightarrow> string \<Rightarrow> int \<Rightarrow> int \<Rightarrow> dl_event list \<Rightarrow> ledger
    \<Rightarrow> ledger \<times> (dl_error + string) option" where
  "downloadTorrentFile below95 effective so tempDir jobName len startedAt es l =
     (case preflight effective jobName len l of
        (l', Some err) \<Rightarrow> (l', Some (Inl err))
      | (l', None) \<Rightarrow>
          (l', downloadAndWaitSeed below95 (rules_of None so) len startedAt (download_dir tempDir jobName) es dl_init))"

definition DownloadPrivateTorrentBytes ::
  "(int \<Rightarrow> int \<Rightarrow> bool) \<Rightarrow> u64 option \<Rightarrow> 'f seedOpts \<Rightarrow> string \<Rightarrow> string \<Rightarrow> downloadOpts option \<Rightarrow> int \<Rightarrow> int
    \<Rightarrow> dl_event list \<Rightarrow> ledger \<Rightarrow> ledger \<times> (dl_error + string) option" where
  "DownloadPrivateTorrentBytes below95 effective so tempDir jobName opts len startedAt es l =
     downloadTorrentFile below95 effective so tempDir jobName len startedAt es l"

definition DownloadCachedTorrentBytes ::
  "(int \<Rightarrow> int \<Rightarrow> bool) \<Rightarrow> u64 option \<Rightarrow> 'f seedOpts \<Rightarrow> string \<Rightarrow> string \<Rightarrow> downloadOpts option \<Rightarrow> int \<Rightarrow> int
    \<Rightarrow> dl_event list \<Rightarrow> ledger \<Rightarrow> ledger \<times> (dl_error + string) option" where
  "DownloadCachedTorrentBytes below95 effective so tempDir jobName opts len startedAt es l =
     downloadTorrentFile below95 effective so tempDir jobName len startedAt es l"

definition downloadMagnet ::
  "(int \<Rightarrow> int \<Rightarrow> bool) \<Rightarrow> u64 option \<Rightarrow> 'f seedOpts \<Rightarrow> string \<Rightarrow> string \<Rightarrow> downloadOpts option \<Rightarrow> int \<Rightarrow> int
    \<Rightarrow> dl_event list \<Rightarrow> ledger \<Rightarrow> ledger \<times> (dl_error + string) option" where
  "downloadMagnet below95 effective so tempDir jobName opts len startedAt es l =
     (case preflight effective jobName len l of
        (l', Some err) \<Rightarrow> (l', Some (Inl err))
      | (l', None) \<Rightarrow>
          (l', downloadAndWaitSeed below95 (rules_of opts so) len startedAt (download_dir tempDir jobName) es dl_init))"

definition publicTrackers :: "string list" where
  "publicTrackers =
     [''udp://tracker.opentrackr.org:1337/announce'', ''udp://open.stealth.si:80/announce'',
      ''udp://tracker.torrent.eu.org:451/announce'', ''udp://exodus.desync.com:6969/announce'',
      ''http://nyaa.tracker.wf:7777/announce'']"

text \<open>The trackers appended to a public magnet; \<open>escape\<close> is \<^verbatim>\<open>url.QueryEscape\<close>.\<close>

definition with_trackers :: "(string \<Rightarrow> string) \<Rightarrow> bool \<Rightarrow> string \<Rightarrow> string" where
  "with_trackers escape privateMode magnetURI =
     (if privateMode then magnetURI
      else foldl (\<lambda>m tr. if contains m tr then m else m @ ''&tr='' @ escape tr) magnetURI publicTrackers)"

section \<open>The files a torrent declares\<close>

definition expectedPath :: "string \<Rightarrow> string \<Rightarrow> bool \<Rightarrow> string" where
  "expectedPath displayPath torrentName multiFileForm =
     (if torrentName = [] \<or> \<not> multiFileForm then displayPath
      else if has_prefix displayPath (torrentName @ [slash]) then displayPath
      else torrentName @ [slash] @ displayPath)"

definition ExpectedFiles :: "string \<Rightarrow> bool \<Rightarrow> (string \<times> int) list \<Rightarrow> ExpectedFile list" where
  "ExpectedFiles torrentName multiFileForm files =
     map (\<lambda>(p, n). \<lparr>EPath = expectedPath p torrentName multiFileForm, ELength = n\<rparr>) files"

section \<open>Seeding\<close>

definition seedNoProgressTimeout :: int where
  "seedNoProgressTimeout = 30 * minute"

record seed_tick =
  s_clock :: int
  s_uploaded :: int
  s_peers :: int

record seed_state =
  lastProgressUp :: int
  lastProgressAt :: int

text \<open>The end of the phase: a dead swarm, the ratio, the deadline. \<open>window\<close> is the time limit, the
  configured hours or 24 without any; \<open>hours\<close> turns hours into nanoseconds and \<open>ratio\<close> is the quotient
  of floating point, both parameters.\<close>

datatype seed_end = DeadSwarm | RatioReached | MaxTime | SeedCancelled

definition seed_window :: "(rat \<Rightarrow> int) \<Rightarrow> rat seedOpts \<Rightarrow> int" where
  "seed_window hours so = hours (if MaxHours so \<le> 0 then 24 else MaxHours so)"

definition seed_step :: "(int \<Rightarrow> int \<Rightarrow> rat) \<Rightarrow> rat seedOpts \<Rightarrow> int \<Rightarrow> int \<Rightarrow> seed_state \<Rightarrow> seed_tick \<Rightarrow> seed_end + seed_state" where
  "seed_step ratio so len deadline s k =
     (let s' = (if s_uploaded k > lastProgressUp s
                then \<lparr>lastProgressUp = s_uploaded k, lastProgressAt = s_clock k\<rparr> else s)
      in if s_peers k = 0 \<and> s_clock k - lastProgressAt s' > seedNoProgressTimeout then Inl DeadSwarm
         else if RatioTarget so > 0 \<and> ratio (s_uploaded k) len \<ge> RatioTarget so then Inl RatioReached
         else if s_clock k > deadline then Inl MaxTime
         else Inr s')"

fun seed_loop :: "(int \<Rightarrow> int \<Rightarrow> rat) \<Rightarrow> rat seedOpts \<Rightarrow> int \<Rightarrow> int \<Rightarrow> seed_state \<Rightarrow> seed_tick option list \<Rightarrow> seed_end option" where
  "seed_loop ratio so len deadline s [] = None"
| "seed_loop ratio so len deadline s (None # ks) = Some SeedCancelled"
| "seed_loop ratio so len deadline s (Some k # ks) =
     (case seed_step ratio so len deadline s k of
        Inl e \<Rightarrow> Some e
      | Inr s' \<Rightarrow> seed_loop ratio so len deadline s' ks)"

text \<open>\<^verbatim>\<open>Seed\<close>: no phase at all unless a ratio or a time is configured. \<open>Inl\<close> is a phase that is skipped.\<close>

definition Seed :: "(rat \<Rightarrow> int) \<Rightarrow> (int \<Rightarrow> int \<Rightarrow> rat) \<Rightarrow> rat seedOpts \<Rightarrow> int \<Rightarrow> int \<Rightarrow> seed_tick option list \<Rightarrow> unit + seed_end option" where
  "Seed hours ratio so len now ks =
     (if \<not> (RatioTarget so > 0 \<or> MaxHours so > 0) \<or> len \<le> 0 then Inl ()
      else Inr (seed_loop ratio so len (now + seed_window hours so) \<lparr>lastProgressUp = 0, lastProgressAt = now\<rparr> ks))"

section \<open>A rule rejects only a sustained violation\<close>

text \<open>The contract of a rule, over what it saw, oldest first: each observation says whether the rule
  was violated and when. It may reject when it is violated now, was violated longer than \<open>timeout\<close>
  ago, and in between there never were three good observations in a row.\<close>

definition sustained :: "int \<Rightarrow> (bool \<times> int) list \<Rightarrow> bool" where
  "sustained timeout obs \<longleftrightarrow>
     (\<exists>pre since mid now. obs = pre @ (True, since) # mid @ [(True, now)] \<and> now - since > timeout
        \<and> \<not> sublist (replicate recoveryTicksRequired False) (map fst mid))"

definition timer_ok :: "(bool \<times> int) list \<Rightarrow> timer \<Rightarrow> bool" where
  "timer_ok obs t =
     (case fst t of
        None \<Rightarrow> True
      | Some since \<Rightarrow>
          (\<exists>pre mid. obs = pre @ (True, since) # mid
             \<and> \<not> sublist (replicate recoveryTicksRequired False) (map fst mid)
             \<and> \<not> suffix (replicate (Suc (snd t)) False) (map fst mid)))"

lemma timer_ok_None [simp]: "timer_ok obs (None, n)"
  by (simp add: timer_ok_def)

lemma timer_okI:
  assumes "obs = pre @ (True, since) # mid"
    and "\<not> sublist (replicate recoveryTicksRequired False) (map fst mid)"
    and "\<not> suffix (replicate (Suc n) False) (map fst mid)"
  shows "timer_ok obs (Some since, n)"
  unfolding timer_ok_def using assms by auto

lemma suffix_bad: "\<not> suffix (replicate (Suc n) False) (xs @ [True])"
  by (metis last_replicate last_snoc nat.distinct(1) suffix_def last_appendR replicate_empty)

lemma sublist_bad:
  assumes "\<not> sublist (replicate recoveryTicksRequired False) xs"
  shows "\<not> sublist (replicate recoveryTicksRequired False) (xs @ [True])"
  using assms suffix_bad [of "2" xs] by (simp only: sublist_snoc recoveryTicksRequired_def) (simp add: numeral_3_eq_3)

lemma timer_ok_start: "timer_ok (obs @ [(True, now)]) (Some now, 0)"
  by (rule timer_okI [of _ obs _ "[]"]) (simp_all add: recoveryTicksRequired_def)

lemma timer_ok_bad:
  assumes "timer_ok obs (Some since, n)"
  shows "timer_ok (obs @ [(True, now)]) (Some since, 0)"
proof -
  obtain pre mid where o: "obs = pre @ (True, since) # mid"
    and q: "\<not> sublist (replicate recoveryTicksRequired False) (map fst mid)"
    using assms by (auto simp: timer_ok_def)
  show ?thesis
    by (rule timer_okI [of _ pre _ "mid @ [(True, now)]"])
      (simp_all only: o map_append list.map fst_conv sublist_bad [OF q] suffix_bad append.simps append_assoc
        not_False_eq_True)
qed

lemma suffix_more_good: "suffix (replicate (Suc n) False) (xs @ [False]) \<longleftrightarrow> suffix (replicate n False) xs"
  by (metis replicate_Suc replicate_append_same snoc_suffix_snoc)

lemma timer_ok_good:
  assumes "timer_ok obs (Some since, n)" and n: "Suc n < recoveryTicksRequired"
  shows "timer_ok (obs @ [(False, now)]) (Some since, Suc n)"
proof -
  obtain pre mid where o: "obs = pre @ (True, since) # mid"
    and q: "\<not> sublist (replicate recoveryTicksRequired False) (map fst mid)"
    and t: "\<not> suffix (replicate (Suc n) False) (map fst mid)"
    using assms(1) by (auto simp: timer_ok_def)
  have tail: "\<not> suffix (replicate (Suc (Suc n)) False) (map fst (mid @ [(False, now)]))"
    using t suffix_more_good [of "Suc n" "map fst mid"] by simp
  have "\<not> suffix (replicate recoveryTicksRequired False) (map fst (mid @ [(False, now)]))"
  proof
    assume s: "suffix (replicate recoveryTicksRequired False) (map fst (mid @ [(False, now)]))"
    have "replicate recoveryTicksRequired False
        = replicate (recoveryTicksRequired - Suc (Suc n)) False @ replicate (Suc (Suc n)) False"
      by (metis n Suc_leI le_add_diff_inverse2 replicate_add)
    then have "suffix (replicate (Suc (Suc n)) False) (replicate recoveryTicksRequired False)"
      by (metis suffix_def)
    with s tail show False by (metis suffix_order.trans)
  qed
  then have "\<not> sublist (replicate recoveryTicksRequired False) (map fst (mid @ [(False, now)]))"
    using q by (simp add: sublist_snoc)
  then show ?thesis
    by (intro timer_okI [of _ pre _ "mid @ [(False, now)]", OF _ _ tail]) (simp_all add: o)
qed

lemma rule_tick_ok:
  assumes "timer_ok obs t" "rule_tick bad now timeout t = Some (t', a)"
  shows "timer_ok (obs @ [(bad, now)]) t'"
  using assms
  by (auto simp: rule_tick_def timer_ok_start timer_ok_bad timer_ok_good
      split: if_splits option.splits prod.splits)

lemma rule_tick_reject:
  assumes "timer_ok obs t" "rule_tick bad now timeout t = None"
  shows "sustained timeout (obs @ [(bad, now)])"
proof -
  obtain since n where t: "t = (Some since, n)" and b: bad "now - since > timeout"
    using assms(2) by (auto simp: rule_tick_def split: if_splits option.splits prod.splits)
  obtain pre mid where "obs = pre @ (True, since) # mid"
    and "\<not> sublist (replicate recoveryTicksRequired False) (map fst mid)"
    using assms(1) unfolding t by (auto simp: timer_ok_def)
  with b show ?thesis by (auto simp: sustained_def)
qed

section \<open>Why a download is rejected\<close>

text \<open>The ticks of the loop, without its other events, and what the rules see: every tick with the speed
  since the one before.\<close>

fun run_ticks :: "(int \<Rightarrow> int \<Rightarrow> bool) \<Rightarrow> rules \<Rightarrow> int \<Rightarrow> int \<Rightarrow> tick list \<Rightarrow> dl_state \<Rightarrow> dl_state option" where
  "run_ticks below95 r len startedAt [] s = Some s"
| "run_ticks below95 r len startedAt (k # ks) s =
     (case dl_tick below95 r len startedAt s k of
        None \<Rightarrow> None
      | Some (s', ws) \<Rightarrow> run_ticks below95 r len startedAt ks s')"

fun samples :: "int \<Rightarrow> tick list \<Rightarrow> (tick \<times> rat) list" where
  "samples c [] = []"
| "samples c (k # ks) = (k, of_int (completed k - c) / 1048576) # samples (completed k) ks"

definition slow_obs :: "(int \<Rightarrow> int \<Rightarrow> bool) \<Rightarrow> rules \<Rightarrow> int \<Rightarrow> (tick \<times> rat) list \<Rightarrow> (bool \<times> int) list" where
  "slow_obs below95 r len xs =
     map (\<lambda>(k, v). (is_slow r v, clock k)) (filter (\<lambda>(k, v). below95 (completed k) len) xs)"

text \<open>The stall rule looks back to the last tick at which the torrent was complete.\<close>

definition stall_obs :: "int \<Rightarrow> (tick \<times> rat) list \<Rightarrow> (bool \<times> int) list" where
  "stall_obs len xs =
     map (\<lambda>(k, v). (v = 0, clock k)) (rev (takeWhile (\<lambda>(k, v). completed k < len) (rev xs)))"

definition peers_obs :: "(int \<Rightarrow> int \<Rightarrow> bool) \<Rightarrow> rules \<Rightarrow> int \<Rightarrow> (tick \<times> rat) list \<Rightarrow> (bool \<times> int) list" where
  "peers_obs below95 r len xs =
     map (\<lambda>(k, v). (peers k \<le> lowPeersThreshold r, clock k)) (filter (\<lambda>(k, v). below95 (completed k) len) xs)"

definition slow_on :: "rules \<Rightarrow> bool" where
  "slow_on r \<longleftrightarrow> slowTimeout r > 0 \<and> slowThreshold r > 0"

definition peers_on :: "rules \<Rightarrow> bool" where
  "peers_on r \<longleftrightarrow> lowPeersTimeout r > 0 \<and> lowPeersThreshold r \<ge> 0"

definition justified :: "(int \<Rightarrow> int \<Rightarrow> bool) \<Rightarrow> rules \<Rightarrow> int \<Rightarrow> int \<Rightarrow> (tick \<times> rat) list \<Rightarrow> bool" where
  "justified below95 r len startedAt xs \<longleftrightarrow>
     (slow_on r \<and> sustained (slowTimeout r) (slow_obs below95 r len xs))
     \<or> full_seed_gate r startedAt (fst (last xs))
     \<or> (stallMins r > 0 \<and> sustained (stallMins r * minute) (stall_obs len xs))
     \<or> (peers_on r \<and> sustained (lowPeersTimeout r) (peers_obs below95 r len xs))"

definition dl_inv :: "(int \<Rightarrow> int \<Rightarrow> bool) \<Rightarrow> rules \<Rightarrow> int \<Rightarrow> (tick \<times> rat) list \<Rightarrow> dl_state \<Rightarrow> bool" where
  "dl_inv below95 r len xs s \<longleftrightarrow>
     (slow_on r \<longrightarrow> timer_ok (slow_obs below95 r len xs) (slowT s))
     \<and> (stallMins r > 0 \<longrightarrow> timer_ok (stall_obs len xs) (stallT s))
     \<and> (peers_on r \<longrightarrow> timer_ok (peers_obs below95 r len xs) (lowPeersT s))"

lemma slow_obs_snoc:
  "slow_obs below95 r len (xs @ [(k, v)]) =
     slow_obs below95 r len xs @ (if below95 (completed k) len then [(is_slow r v, clock k)] else [])"
  by (simp add: slow_obs_def)

lemma peers_obs_snoc:
  "peers_obs below95 r len (xs @ [(k, v)]) =
     peers_obs below95 r len xs
       @ (if below95 (completed k) len then [(peers k \<le> lowPeersThreshold r, clock k)] else [])"
  by (simp add: peers_obs_def)

lemma stall_obs_snoc:
  "stall_obs len (xs @ [(k, v)]) =
     (if completed k < len then stall_obs len xs @ [(v = 0, clock k)] else [])"
  by (simp add: stall_obs_def)

lemmas obs_snoc = slow_obs_snoc peers_obs_snoc stall_obs_snoc

lemma slow_rule_ok:
  assumes "slow_on r \<longrightarrow> timer_ok (slow_obs below95 r len xs) (slowT s)" "slow_rule below95 r len s k = Some (t, a)"
  shows "slow_on r \<longrightarrow> timer_ok (slow_obs below95 r len (xs @ [(k, speed_of s k)])) t"
  using assms rule_tick_ok
  by (auto simp: slow_rule_def obs_snoc slow_on_def split: if_splits)

lemma slow_rule_reject:
  assumes "slow_on r \<longrightarrow> timer_ok (slow_obs below95 r len xs) (slowT s)" "slow_rule below95 r len s k = None"
  shows "slow_on r \<and> sustained (slowTimeout r) (slow_obs below95 r len (xs @ [(k, speed_of s k)]))"
  using assms rule_tick_reject
  by (auto simp: slow_rule_def obs_snoc slow_on_def split: if_splits)

lemma stall_rule_ok:
  assumes "stallMins r > 0 \<longrightarrow> timer_ok (stall_obs len xs) (stallT s)" "stall_rule r len s k = Some (t, a)"
  shows "stallMins r > 0 \<longrightarrow> timer_ok (stall_obs len (xs @ [(k, speed_of s k)])) t"
  using assms rule_tick_ok
  by (auto simp: stall_rule_def obs_snoc split: if_splits)

lemma stall_rule_reject:
  assumes "stallMins r > 0 \<longrightarrow> timer_ok (stall_obs len xs) (stallT s)" "stall_rule r len s k = None"
  shows "stallMins r > 0 \<and> sustained (stallMins r * minute) (stall_obs len (xs @ [(k, speed_of s k)]))"
  using assms rule_tick_reject
  by (auto simp: stall_rule_def obs_snoc split: if_splits)

lemma low_peers_rule_ok:
  assumes "peers_on r \<longrightarrow> timer_ok (peers_obs below95 r len xs) (lowPeersT s)"
    and "low_peers_rule below95 r len s k = Some (t, a)"
  shows "peers_on r \<longrightarrow> timer_ok (peers_obs below95 r len (xs @ [(k, v)])) t"
  using assms rule_tick_ok
  by (auto simp: low_peers_rule_def obs_snoc peers_on_def split: if_splits)

lemma low_peers_rule_reject:
  assumes "peers_on r \<longrightarrow> timer_ok (peers_obs below95 r len xs) (lowPeersT s)"
    and "low_peers_rule below95 r len s k = None"
  shows "peers_on r \<and> sustained (lowPeersTimeout r) (peers_obs below95 r len (xs @ [(k, v)]))"
  using assms rule_tick_reject
  by (auto simp: low_peers_rule_def obs_snoc peers_on_def split: if_splits)

lemma dl_tick_ok:
  assumes inv: "dl_inv below95 r len xs s" and "0 < len"
    and "dl_tick below95 r len startedAt s k = Some (s', ws)"
  shows "dl_inv below95 r len (xs @ [(k, speed_of s k)]) s'" "lastCompleted s' = completed k"
proof -
  obtain slow a1 stall a2 low a3
    where rules: "slow_rule below95 r len s k = Some (slow, a1)" "stall_rule r len s k = Some (stall, a2)"
        "low_peers_rule below95 r len s k = Some (low, a3)"
      and s': "s' = \<lparr>lastCompleted = completed k, slowT = slow, stallT = stall, lowPeersT = low\<rparr>"
    using assms(2,3) by (fastforce simp: dl_tick_def split: option.splits if_splits)
  show "dl_inv below95 r len (xs @ [(k, speed_of s k)]) s'"
    using inv slow_rule_ok [OF _ rules(1)] stall_rule_ok [OF _ rules(2)] low_peers_rule_ok [OF _ rules(3)]
    by (simp add: dl_inv_def s')
  show "lastCompleted s' = completed k" by (simp add: s')
qed

lemma dl_tick_reject:
  assumes inv: "dl_inv below95 r len xs s" and "dl_tick below95 r len startedAt s k = None"
  shows "justified below95 r len startedAt (xs @ [(k, speed_of s k)])"
proof -
  from inv have i: "slow_on r \<longrightarrow> timer_ok (slow_obs below95 r len xs) (slowT s)"
      "stallMins r > 0 \<longrightarrow> timer_ok (stall_obs len xs) (stallT s)"
      "peers_on r \<longrightarrow> timer_ok (peers_obs below95 r len xs) (lowPeersT s)"
    by (simp_all add: dl_inv_def)
  consider "slow_rule below95 r len s k = None" | "full_seed_gate r startedAt k"
    | "stall_rule r len s k = None" | "low_peers_rule below95 r len s k = None"
    using assms(2) by (auto simp: dl_tick_def split: option.splits if_splits)
  then show ?thesis
  proof cases
    case 1
    then show ?thesis using slow_rule_reject [OF i(1)] by (simp add: justified_def)
  next
    case 2
    then show ?thesis by (simp add: justified_def)
  next
    case 3
    then show ?thesis using stall_rule_reject [OF i(2)] by (simp add: justified_def)
  next
    case 4
    then show ?thesis using low_peers_rule_reject [OF i(3)] by (simp add: justified_def)
  qed
qed

lemma run_ticks_reject:
  assumes "dl_inv below95 r len xs s" "0 < len" "run_ticks below95 r len startedAt ks s = None"
  shows "\<exists>ks1 ks2. ks = ks1 @ ks2 \<and> justified below95 r len startedAt (xs @ samples (lastCompleted s) ks1)"
  using assms
proof (induction ks arbitrary: xs s)
  case (Cons k ks)
  let ?x = "(k, speed_of s k)"
  show ?case
  proof (cases "dl_tick below95 r len startedAt s k")
    case None
    then have "justified below95 r len startedAt (xs @ samples (lastCompleted s) [k])"
      using dl_tick_reject [OF Cons.prems(1) None] by (simp add: speed_of_def)
    then show ?thesis by (metis append_Cons append_Nil)
  next
    case (Some p)
    obtain s' ws where p: "p = (s', ws)" by (cases p)
    note ok = dl_tick_ok [OF Cons.prems(1,2) Some [unfolded p]]
    obtain ks1 ks2 where "ks = ks1 @ ks2"
      and "justified below95 r len startedAt ((xs @ [?x]) @ samples (lastCompleted s') ks1)"
      using Cons.IH [OF ok(1) Cons.prems(2)] Cons.prems(3) Some p by auto
    then have "k # ks = (k # ks1) @ ks2"
      and "justified below95 r len startedAt (xs @ samples (lastCompleted s) (k # ks1))"
      using ok(2) by (simp_all add: speed_of_def)
    then show ?thesis by metis
  qed
qed simp

lemma loop_rejects:
  assumes "downloadAndWaitSeed below95 r len startedAt dataDir es s = Some (Inl SlowDownload)"
  shows "\<exists>ks rest. es = map Tick ks @ rest \<and> run_ticks below95 r len startedAt ks s = None"
  using assms
proof (induction below95 r len startedAt dataDir es s rule: downloadAndWaitSeed.induct)
  case (4 below95 r len startedAt dataDir k es s)
  show ?case
  proof (cases "dl_tick below95 r len startedAt s k")
    case None
    then have "run_ticks below95 r len startedAt [k] s = None" by simp
    then show ?thesis by (metis append_Cons append_Nil list.simps(8,9))
  next
    case (Some p)
    obtain s' ws where p: "p = (s', ws)" by (cases p)
    then have "\<exists>ks rest. es = map Tick ks @ rest \<and> run_ticks below95 r len startedAt ks s' = None"
      using 4 Some by simp
    then obtain ks rest where "es = map Tick ks @ rest" "run_ticks below95 r len startedAt ks s' = None"
      by blast
    then have "Tick k # es = map Tick (k # ks) @ rest" "run_ticks below95 r len startedAt (k # ks) s = None"
      using Some p by simp_all
    then show ?thesis by blast
  qed
qed simp_all

lemma no_length_no_rejection:
  assumes "len \<le> 0"
  shows "run_ticks below95 r len startedAt ks s \<noteq> None"
  using assms by (induction ks arbitrary: s) (simp_all add: dl_tick_def)

text \<open>
  C30. A download is rejected as too slow only for one of two kinds of reason. Either the ticks before
  the rejection contain a sustained violation of a configured rule (too slow, stalled before it was
  complete, or too few peers, for longer than the timeout of the rule and never interrupted by three good
  ticks in a row); or a full seed is required and one tick more than a minute after the start finds not a
  byte complete, which needs no timer and knows no recovery.
\<close>

theorem rejected_with_reason:
  assumes "downloadAndWaitSeed below95 r len startedAt dataDir es dl_init = Some (Inl SlowDownload)"
  shows "\<exists>ks rest. es = map Tick ks @ rest \<and> justified below95 r len startedAt (samples 0 ks)"
proof -
  obtain ks rest where es: "es = map Tick ks @ rest" and none: "run_ticks below95 r len startedAt ks dl_init = None"
    using loop_rejects [OF assms] by blast
  have inv: "dl_inv below95 r len [] dl_init" by (simp add: dl_inv_def dl_init_def)
  have pos: "0 < len" using no_length_no_rejection none by (metis not_le)
  have "lastCompleted dl_init = 0" by (simp add: dl_init_def)
  then obtain ks1 ks2 where ks: "ks = ks1 @ ks2"
    and j: "justified below95 r len startedAt (samples 0 ks1)"
    using run_ticks_reject [OF inv pos none] by auto
  have "es = map Tick ks1 @ (map Tick ks2 @ rest)" by (simp add: es ks)
  with j show ?thesis by blast
qed

text \<open>Rules that only watch for a stall, and a tick, for the examples.\<close>

definition stall_only :: rules where
  "stall_only = \<lparr>slowThreshold = 0, slowTimeout = 0, isBoosted = False, lowPeersThreshold = -1,
     lowPeersTimeout = 0, requireFull = False, stallMins = 1\<rparr>"

definition tick_at :: "int \<Rightarrow> int \<Rightarrow> tick" where
  "tick_at secs bytes = \<lparr>clock = secs * 1000000000, completed = bytes, peers = 0\<rparr>"

definition percent_below95 :: "int \<Rightarrow> int \<Rightarrow> bool" where
  "percent_below95 done len \<longleftrightarrow> 100 * done < 95 * len"

lemmas loop_defs = dl_tick_def slow_rule_def full_seed_gate_def stall_rule_def low_peers_rule_def rule_tick_def
  speed_of_def dl_init_def recoveryTicksRequired_def minute_def stall_only_def tick_at_def percent_below95_def

theorem rejected_with_reason_witness:
  "\<exists>ks rest. map Tick [tick_at 1 40, tick_at 2 40, tick_at 63 40] = map Tick ks @ rest
     \<and> justified percent_below95 stall_only 100 0 (samples 0 ks)"
  by (rule rejected_with_reason [where dataDir = "''/tmp/dl-1''"]) (simp add: loop_defs)

section \<open>A dead download does not hold its slot\<close>

lemma loop_run_ticks:
  "downloadAndWaitSeed below95 r len startedAt dataDir (map Tick ks @ es) s =
     (case run_ticks below95 r len startedAt ks s of
        None \<Rightarrow> Some (Inl SlowDownload)
      | Some s' \<Rightarrow> downloadAndWaitSeed below95 r len startedAt dataDir es s')"
  by (induction ks arbitrary: s) (auto split: option.splits)

lemma run_ticks_append:
  "run_ticks below95 r len startedAt (ks1 @ ks2) s =
     Option.bind (run_ticks below95 r len startedAt ks1 s) (run_ticks below95 r len startedAt ks2)"
  by (induction ks1 arbitrary: s) (auto split: option.splits)

lemma run_ticks_appendE:
  assumes "run_ticks below95 r len startedAt (ks1 @ ks2) s = Some s2"
  obtains s1 where "run_ticks below95 r len startedAt ks1 s = Some s1" "run_ticks below95 r len startedAt ks2 s1 = Some s2"
  using assms by (auto simp: run_ticks_append bind_eq_Some_conv)

lemma dl_tick_stall:
  assumes "dl_tick below95 r len startedAt s k = Some (s', ws)" "0 < len"
  shows "\<exists>a. stall_rule r len s k = Some (stallT s', a)" "lastCompleted s' = completed k"
  using assms by (auto simp: dl_tick_def split: option.splits if_splits)

lemma rule_tick_since:
  assumes "rule_tick bad now timeout t = Some (t', a)"
  shows "fst t' = None \<or> fst t' = fst t \<or> fst t' = Some now"
  using assms by (auto simp: rule_tick_def split: prod.splits if_splits option.splits)

lemma stall_rule_since:
  assumes "stall_rule r len s k = Some (t, a)"
  shows "fst t = None \<or> fst t = fst (stallT s) \<or> fst t = Some (clock k)"
proof -
  have "(\<exists>bad timeout. rule_tick bad (clock k) timeout (stallT s) = Some (t, a))
      \<or> fst t = None \<or> t = stallT s"
    using assms unfolding stall_rule_def by (metis fst_conv option.inject prod.inject)
  then show ?thesis using rule_tick_since by blast
qed

lemma stall_since_le:
  assumes "run_ticks below95 r len startedAt ks s = Some s'" "0 < len" "\<forall>k\<in>set ks. clock k \<le> m"
    and "\<forall>s0. fst (stallT s) = Some s0 \<longrightarrow> s0 \<le> m"
  shows "\<forall>s0. fst (stallT s') = Some s0 \<longrightarrow> s0 \<le> m"
  using assms
proof (induction ks arbitrary: s)
  case (Cons k ks)
  obtain s1 ws where t: "dl_tick below95 r len startedAt s k = Some (s1, ws)"
    and r: "run_ticks below95 r len startedAt ks s1 = Some s'"
    using Cons.prems(1) by (auto split: option.splits)
  obtain a where "stall_rule r len s k = Some (stallT s1, a)"
    using dl_tick_stall(1) [OF t Cons.prems(2)] by blast
  from stall_rule_since [OF this] Cons.prems(3,4)
  have "\<forall>s0. fst (stallT s1) = Some s0 \<longrightarrow> s0 \<le> m" by auto
  moreover have "\<forall>k\<in>set ks. clock k \<le> m" using Cons.prems(3) by simp
  ultimately show ?case using Cons.IH [OF r Cons.prems(2)] by blast
qed simp

lemma rule_tick_bad:
  assumes "rule_tick True now timeout t = Some (t', a)"
  shows "fst t' = Some (case fst t of None \<Rightarrow> now | Some s0 \<Rightarrow> s0)"
    and "fst t = Some s0 \<Longrightarrow> now - s0 \<le> timeout"
  using assms by (auto simp: rule_tick_def split: prod.splits if_splits option.splits)

lemma dead_tick:
  assumes "dl_tick below95 r len startedAt s k = Some (s', ws)" "0 < len" "stallMins r > 0"
    and "lastCompleted s = c" "completed k = c" "c < len"
  shows "fst (stallT s') = Some (case fst (stallT s) of None \<Rightarrow> clock k | Some s0 \<Rightarrow> s0)"
    and "fst (stallT s) = Some s0 \<Longrightarrow> clock k - s0 \<le> stallMins r * minute"
proof -
  obtain a where "stall_rule r len s k = Some (stallT s', a)"
    using dl_tick_stall(1) [OF assms(1,2)] by blast
  then have "rule_tick True (clock k) (stallMins r * minute) (stallT s) = Some (stallT s', a)"
    using assms(3-) by (simp add: stall_rule_def speed_of_def)
  note t = rule_tick_bad [OF this]
  show "fst (stallT s') = Some (case fst (stallT s) of None \<Rightarrow> clock k | Some s0 \<Rightarrow> s0)" by (rule t(1))
  show "fst (stallT s) = Some s0 \<Longrightarrow> clock k - s0 \<le> stallMins r * minute" by (rule t(2))
qed

lemma dead_ticks:
  assumes "run_ticks below95 r len startedAt ks s = Some s'" "0 < len" "stallMins r > 0"
    and "lastCompleted s = c" "\<forall>k\<in>set ks. completed k = c" "c < len" "fst (stallT s) = Some s0"
  shows "\<forall>k\<in>set ks. clock k - s0 \<le> stallMins r * minute"
  using assms
proof (induction ks arbitrary: s)
  case (Cons k ks)
  obtain s1 ws where t: "dl_tick below95 r len startedAt s k = Some (s1, ws)"
    and r: "run_ticks below95 r len startedAt ks s1 = Some s'"
    using Cons.prems(1) by (auto split: option.splits)
  have "fst (stallT s1) = Some s0" "clock k - s0 \<le> stallMins r * minute" "lastCompleted s1 = c"
    using dead_tick [OF t Cons.prems(2-4)] dl_tick_stall(2) [OF t] Cons.prems by auto
  then show ?case using Cons.IH [OF r] Cons.prems by simp
qed simp

text \<open>C31. A stalled download gives its slot back: with the stall rule on, once the counter of bytes has
  stopped short of the end - at any percentage, after any history - and the ticks have gone on for
  longer than the configured minutes after the tick \<open>k1\<close> that saw no progress first, the loop has ended
  with the rejection.\<close>

theorem dead_download_rejected:
  assumes "stallMins r > 0" "0 \<le> c" "c < len"
    and "completed k0 = c" "completed k1 = c" "\<forall>k\<in>set ks. completed k = c" "completed kn = c"
    and "\<forall>k\<in>set before \<union> {k0}. clock k \<le> clock k1"
    and "clock kn - clock k1 > stallMins r * minute"
  shows "downloadAndWaitSeed below95 r len startedAt dataDir
           (map Tick (before @ [k0, k1] @ ks @ [kn]) @ es) dl_init = Some (Inl SlowDownload)"
proof (cases "run_ticks below95 r len startedAt (before @ [k0, k1] @ ks @ [kn]) dl_init")
  case None
  then show ?thesis by (simp only: loop_run_ticks option.case)
next
  case (Some s')
  have len: "0 < len" using assms(2,3) by simp
  have "run_ticks below95 r len startedAt ((before @ [k0]) @ [k1] @ (ks @ [kn])) dl_init = Some s'"
    using Some by simp
  then obtain s1 where r1: "run_ticks below95 r len startedAt (before @ [k0]) dl_init = Some s1"
    and r23: "run_ticks below95 r len startedAt ([k1] @ (ks @ [kn])) s1 = Some s'"
    using run_ticks_appendE by blast
  obtain s2 where r2: "run_ticks below95 r len startedAt [k1] s1 = Some s2"
    and r3: "run_ticks below95 r len startedAt (ks @ [kn]) s2 = Some s'"
    using run_ticks_appendE [OF r23] by blast
  obtain s0 where "run_ticks below95 r len startedAt [k0] s0 = Some s1"
    using run_ticks_appendE [OF r1] by blast
  then obtain ws0 where t0: "dl_tick below95 r len startedAt s0 k0 = Some (s1, ws0)"
    by (cases "dl_tick below95 r len startedAt s0 k0") auto
  have since: "\<forall>s0. fst (stallT s1) = Some s0 \<longrightarrow> s0 \<le> clock k1"
  proof (rule stall_since_le [OF r1 len])
    show "\<forall>k\<in>set (before @ [k0]). clock k \<le> clock k1" using assms(8) by simp
    show "\<forall>s0. fst (stallT dl_init) = Some s0 \<longrightarrow> s0 \<le> clock k1" by (simp add: dl_init_def)
  qed
  obtain ws1 where t1: "dl_tick below95 r len startedAt s1 k1 = Some (s2, ws1)"
    using r2 by (auto split: option.splits)
  have c1: "lastCompleted s1 = c" and c2: "lastCompleted s2 = c"
    using dl_tick_stall(2) [OF t0 len] dl_tick_stall(2) [OF t1 len] assms(4,5) by simp_all
  obtain start where "fst (stallT s2) = Some start" and "start \<le> clock k1"
    using dead_tick(1) [OF t1 len assms(1) c1 assms(5) assms(3)] since
    by (cases "fst (stallT s1)") auto
  then have "clock kn - clock k1 \<le> stallMins r * minute"
    using dead_ticks [OF r3 len assms(1) c2 _ assms(3)] assms(6,7) by fastforce
  with assms(9) show ?thesis by simp
qed

theorem dead_download_rejected_witness:
  "downloadAndWaitSeed percent_below95 stall_only 100 0 ''/tmp/dl-1''
     (map Tick ([tick_at 1 30] @ [tick_at 2 99, tick_at 3 99] @ [tick_at 4 99] @ [tick_at 64 99]) @ [WaitAllDone]) dl_init
     = Some (Inl SlowDownload)"
  by (rule dead_download_rejected [where c = 99]) (simp_all add: loop_defs)

section \<open>The rules a task asks for\<close>

lemma no_rule_no_rejection:
  assumes "\<not> slow_on r" "\<not> requireFull r" "stallMins r \<le> 0" "\<not> peers_on r"
  shows "run_ticks below95 r len startedAt ks s \<noteq> None"
proof (induction ks arbitrary: s)
  case (Cons k ks)
  have "dl_tick below95 r len startedAt s k \<noteq> None"
    using assms
    by (auto simp: dl_tick_def slow_rule_def slow_on_def full_seed_gate_def stall_rule_def low_peers_rule_def peers_on_def)
  then show ?case using Cons.IH by (auto split: option.splits)
qed simp

text \<open>The slow-speed and low-peers rules of a task have no effect on a download from a \<^verbatim>\<open>.torrent\<close>
  file: whatever options the caller passes, unless the global settings require a full seed or reject
  stalls, such a download is never rejected as too slow, however slow it is.\<close>

theorem private_download_ignores_rules:
  assumes "\<not> RequireFull so" "StallMins so \<le> 0"
  shows "snd (DownloadPrivateTorrentBytes below95 effective so tempDir jobName opts len startedAt es l)
           \<noteq> Some (Inl SlowDownload)"
proof
  let ?r = "rules_of None so"
  assume "snd (DownloadPrivateTorrentBytes below95 effective so tempDir jobName opts len startedAt es l)
    = Some (Inl SlowDownload)"
  then have "downloadAndWaitSeed below95 ?r len startedAt (download_dir tempDir jobName) es dl_init
      = Some (Inl SlowDownload)"
    by (auto simp: DownloadPrivateTorrentBytes_def downloadTorrentFile_def preflight_def Let_def
        split: option.splits prod.splits if_splits)
  then obtain ks where "run_ticks below95 ?r len startedAt ks dl_init = None"
    using loop_rejects by blast
  moreover have "\<not> slow_on ?r" "\<not> requireFull ?r" "stallMins ?r \<le> 0" "\<not> peers_on ?r"
    using assms by (simp_all add: rules_of_def slow_on_def peers_on_def)
  ultimately show False using no_rule_no_rejection by blast
qed

definition no_seed_rules :: "rat seedOpts" where
  "no_seed_rules = \<lparr>UploadKBps = 0, RatioTarget = 0, MaxHours = 0, RequireFull = False, StallMins = 0, ListenPort = 0\<rparr>"

definition strict_opts :: downloadOpts where
  "strict_opts = \<lparr>SlowThresholdMBs = 1, SlowTimeoutMins = 1, LowPeersThreshold = -1, LowPeersTimeoutMins = 0, IsBoosted = False\<rparr>"

lemma magnet_follows_rules:
  "snd (downloadMagnet percent_below95 None no_seed_rules ''/tmp'' ''1'' (Some strict_opts) 100 0
     (map Tick [tick_at 1 0, tick_at 62 1]) l) = Some (Inl SlowDownload)"
  by (simp add: downloadMagnet_def preflight_def Let_def rules_of_def no_seed_rules_def strict_opts_def
      is_slow_def loop_defs)

theorem private_download_ignores_rules_witness:
  "snd (DownloadPrivateTorrentBytes percent_below95 None no_seed_rules ''/tmp'' ''1'' (Some strict_opts) 100 0
     (map Tick [tick_at 1 0, tick_at 62 1]) ledger_init) \<noteq> Some (Inl SlowDownload)"
  by (rule private_download_ignores_rules) (simp_all add: no_seed_rules_def)

section \<open>Seeding ends\<close>

lemma seed_step_deadline:
  assumes "s_clock k > deadline"
  shows "\<exists>e. seed_step ratio so len deadline s k = Inl e"
  using assms by (simp add: seed_step_def Let_def)

lemma seed_loop_ends:
  assumes "s_clock k > deadline"
  shows "\<exists>e. seed_loop ratio so len deadline s (map Some ks @ Some k # rest) = Some e"
proof (induction ks arbitrary: s)
  case Nil
  obtain e where "seed_step ratio so len deadline s k = Inl e" using seed_step_deadline [OF assms] by blast
  then show ?case by simp
next
  case (Cons j ks)
  then show ?case by (auto split: sum.splits)
qed

text \<open>Seeding is bounded: whatever is configured and however badly the swarm does, the phase has
  ended by the first tick past its time window, which is the configured hours or 24 without any.\<close>

theorem seeding_ends:
  assumes "RatioTarget so > 0 \<or> MaxHours so > 0" "0 < len" "s_clock k > now + seed_window hours so"
  shows "\<exists>e. Seed hours ratio so len now (map Some ks @ Some k # rest) = Inr (Some e)"
proof -
  obtain e where "seed_loop ratio so len (now + seed_window hours so) \<lparr>lastProgressUp = 0, lastProgressAt = now\<rparr>
      (map Some ks @ Some k # rest) = Some e"
    using seed_loop_ends [OF assms(3)] by blast
  then show ?thesis using assms(1,2) by (simp add: Seed_def)
qed

definition ratio_only :: "rat seedOpts" where
  "ratio_only = \<lparr>UploadKBps = 0, RatioTarget = 2, MaxHours = 0, RequireFull = False, StallMins = 0, ListenPort = 0\<rparr>"

definition nanos :: "rat \<Rightarrow> int" where
  "nanos h = \<lfloor>h * 3600000000000\<rfloor>"

theorem seeding_ends_witness:
  "\<exists>e. Seed nanos (\<lambda>a b. of_int a / of_int b) ratio_only 100 0
     (map Some [\<lparr>s_clock = 2000000000, s_uploaded = 1, s_peers = 3\<rparr>]
      @ Some \<lparr>s_clock = 86400000000001, s_uploaded = 5, s_peers = 3\<rparr> # []) = Inr (Some e)"
  by (rule seeding_ends) (simp_all add: ratio_only_def seed_window_def nanos_def)

text \<open>What ended a phase as a dead swarm.\<close>

definition seed_inv :: "int \<Rightarrow> seed_tick list \<Rightarrow> seed_state \<Rightarrow> bool" where
  "seed_inv start seen s \<longleftrightarrow>
     (\<forall>j\<in>set seen. s_uploaded j \<le> lastProgressUp s)
     \<and> ((lastProgressUp s = 0 \<and> lastProgressAt s = start)
        \<or> (\<exists>i\<in>set seen. s_uploaded i = lastProgressUp s \<and> s_clock i = lastProgressAt s))"

lemma seed_dead_swarm_from:
  assumes "seed_loop ratio so len deadline s ks = Some DeadSwarm" "seed_inv start seen s"
  shows "\<exists>pre k rest best. ks = map Some pre @ Some k # rest \<and> s_peers k = 0
      \<and> (\<forall>j\<in>set (seen @ pre @ [k]). s_uploaded j \<le> best)
      \<and> ((best = 0 \<and> s_clock k - start > seedNoProgressTimeout)
         \<or> (\<exists>i\<in>set (seen @ pre @ [k]). s_uploaded i = best \<and> s_clock k - s_clock i > seedNoProgressTimeout))"
  using assms
proof (induction ratio so len deadline s ks arbitrary: seen rule: seed_loop.induct)
  case (3 ratio so len deadline s k ks)
  define s1 where "s1 = (if s_uploaded k > lastProgressUp s
      then \<lparr>lastProgressUp = s_uploaded k, lastProgressAt = s_clock k\<rparr> else s)"
  have inv: "seed_inv start (seen @ [k]) s1"
    using "3.prems"(2) by (auto simp: seed_inv_def s1_def)
  show ?case
  proof (cases "seed_step ratio so len deadline s k")
    case (Inl e)
    then have "e = DeadSwarm" using "3.prems"(1) by simp
    then have dead: "s_peers k = 0" "s_clock k - lastProgressAt s1 > seedNoProgressTimeout"
      using Inl by (auto simp: seed_step_def Let_def s1_def split: if_splits)
    have "\<forall>j\<in>set (seen @ [] @ [k]). s_uploaded j \<le> lastProgressUp s1"
      using inv by (simp add: seed_inv_def)
    moreover have "(lastProgressUp s1 = 0 \<and> s_clock k - start > seedNoProgressTimeout)
        \<or> (\<exists>i\<in>set (seen @ [] @ [k]). s_uploaded i = lastProgressUp s1 \<and> s_clock k - s_clock i > seedNoProgressTimeout)"
      using inv dead(2) unfolding seed_inv_def by auto
    moreover have "Some k # ks = map Some [] @ Some k # ks" by simp
    ultimately show ?thesis using dead(1) by blast
  next
    case (Inr s')
    then have s': "s' = s1" by (auto simp: seed_step_def Let_def s1_def split: if_splits)
    have "seed_loop ratio so len deadline s' ks = Some DeadSwarm" using "3.prems"(1) Inr by simp
    then obtain pre j rest best where ks: "ks = map Some pre @ Some j # rest" and "s_peers j = 0"
      and "\<forall>i\<in>set ((seen @ [k]) @ pre @ [j]). s_uploaded i \<le> best"
      and "(best = 0 \<and> s_clock j - start > seedNoProgressTimeout)
         \<or> (\<exists>i\<in>set ((seen @ [k]) @ pre @ [j]). s_uploaded i = best \<and> s_clock j - s_clock i > seedNoProgressTimeout)"
      using "3.IH" [OF Inr _ inv [folded s']] by blast
    moreover have "Some k # ks = map Some (k # pre) @ Some j # rest" by (simp add: ks)
    moreover have "set ((seen @ [k]) @ pre @ [j]) = set (seen @ (k # pre) @ [j])" by simp
    ultimately show ?thesis by metis
  qed
qed simp_all

text \<open>A phase that ends as a dead swarm had no peer at its last tick, and the most that was ever
  uploaded had been reached more than half an hour before (or nothing was, and the phase is older
  than that): a swarm that still takes data is never given up.\<close>

theorem dead_swarm_is_dead:
  assumes "Seed hours ratio so len now ks = Inr (Some DeadSwarm)"
  shows "\<exists>pre k rest best. ks = map Some pre @ Some k # rest \<and> s_peers k = 0
      \<and> (\<forall>j\<in>set (pre @ [k]). s_uploaded j \<le> best)
      \<and> ((best = 0 \<and> s_clock k - now > seedNoProgressTimeout)
         \<or> (\<exists>i\<in>set (pre @ [k]). s_uploaded i = best \<and> s_clock k - s_clock i > seedNoProgressTimeout))"
proof -
  have "seed_loop ratio so len (now + seed_window hours so) \<lparr>lastProgressUp = 0, lastProgressAt = now\<rparr> ks
      = Some DeadSwarm"
    using assms by (simp add: Seed_def split: if_splits)
  moreover have "seed_inv now [] \<lparr>lastProgressUp = 0, lastProgressAt = now\<rparr>" by (simp add: seed_inv_def)
  ultimately show ?thesis using seed_dead_swarm_from [where seen = "[]"] by fastforce
qed

theorem dead_swarm_is_dead_witness:
  "\<exists>pre k rest best.
     [Some \<lparr>s_clock = 2000000000, s_uploaded = 1, s_peers = 3\<rparr>,
      Some \<lparr>s_clock = 1803000000000, s_uploaded = 1, s_peers = 0\<rparr>] = map Some pre @ Some k # rest
     \<and> s_peers k = 0
     \<and> (\<forall>j\<in>set (pre @ [k]). s_uploaded j \<le> best)
     \<and> ((best = 0 \<and> s_clock k - 0 > seedNoProgressTimeout)
        \<or> (\<exists>i\<in>set (pre @ [k]). s_uploaded i = best \<and> s_clock k - s_clock i > seedNoProgressTimeout))"
  by (rule dead_swarm_is_dead [where hours = nanos and ratio = "\<lambda>a b. of_int a / of_int b"
        and so = ratio_only and len = 100])
    (simp add: Seed_def ratio_only_def seed_window_def nanos_def seed_step_def seedNoProgressTimeout_def minute_def)

section \<open>The declared files\<close>

lemma expectedPath_idem [simp]:
  "expectedPath (expectedPath p name multi) name multi = expectedPath p name multi"
  by (simp add: expectedPath_def has_prefix_def)

end
