(* ===== verification/Handoff.thy ===== *)
theory Handoff
  imports Paths FileTree Torrent
begin

text \<open>
  The hand-off to the user's own torrent client (\<^verbatim>\<open>services/network_watch_handoff.go\<close>): writing the
  magnet or the \<^verbatim>\<open>.torrent\<close> into the watch directory, cleaning it up, and waiting for the finished
  directory. Files are a map from paths to contents. A failing write leaves a prefix of the data. The
  wait is a loop over what each poll sees.
\<close>

section \<open>Writing the specification\<close>

type_synonym files = "(string \<times> bytes) list"

record handoffSpec =
  InfoHash :: string
  Magnet :: string
  TorrentBytes :: bytes

definition handoff_name :: "handoffSpec \<Rightarrow> string" where
  "handoff_name spec = InfoHash spec @ (if TorrentBytes spec \<noteq> [] then ''.torrent'' else ''.magnet'')"

definition handoff_body :: "handoffSpec \<Rightarrow> bytes" where
  "handoff_body spec =
     (if TorrentBytes spec \<noteq> [] then TorrentBytes spec
      else bytes_of (if Magnet spec = [] then ''magnet:?xt=urn:btih:'' @ NormalizeInfoHash (InfoHash spec) else Magnet spec))"

text \<open>\<open>written\<close> is how much of a failing write reached the file, \<open>None\<close> for a write that succeeds.\<close>

definition WriteHandoff ::
  "bool \<Rightarrow> nat option \<Rightarrow> bool \<Rightarrow> string \<Rightarrow> handoffSpec \<Rightarrow> files \<Rightarrow> files \<times> (string + string)" where
  "WriteHandoff mkdir_ok written rename_ok watchDir spec fs =
     (if InfoHash spec = [] then (fs, Inl ''watch_handoff: empty info_hash'')
      else if \<not> mkdir_ok then (fs, Inl ''watch_handoff: mkdir'')
      else
        (let finalPath = path_join_all [watchDir, handoff_name spec];
             tmpPath = finalPath @ ''.tmp''
         in case written of
              Some n \<Rightarrow> (AList.update tmpPath (take n (handoff_body spec)) fs, Inl ''watch_handoff: write tmp'')
            | None \<Rightarrow>
                if \<not> rename_ok
                then (AList.delete tmpPath (AList.update tmpPath (handoff_body spec) fs), Inl ''watch_handoff: rename'')
                else (AList.update finalPath (handoff_body spec)
                        (AList.delete tmpPath (AList.update tmpPath (handoff_body spec) fs)), Inr finalPath)))"

definition CleanupHandoff :: "string \<Rightarrow> string \<Rightarrow> files \<Rightarrow> files" where
  "CleanupHandoff watchDir infoHash fs =
     foldl (\<lambda>fs name. AList.delete (path_join_all [watchDir, name]) fs) fs [infoHash @ ''.torrent'', infoHash @ ''.magnet'']"

text \<open>The files as another process can see them while a hand-off is written: before, with every part of
  the temporary file, and after the rename.\<close>

definition handoff_views :: "string \<Rightarrow> handoffSpec \<Rightarrow> files \<Rightarrow> files list" where
  "handoff_views watchDir spec fs =
     (let finalPath = path_join_all [watchDir, handoff_name spec];
          tmpPath = finalPath @ ''.tmp''
      in fs # map (\<lambda>n. AList.update tmpPath (take n (handoff_body spec)) fs) [0..<Suc (length (handoff_body spec))]
         @ [fst (WriteHandoff True None True watchDir spec fs)])"

section \<open>Waiting for the download\<close>

definition dir_size_cb :: "int \<Rightarrow> fpath \<Rightarrow> fnode \<Rightarrow> int \<times> wres" where
  "dir_size_cb acc p n = (case n of FFile b \<Rightarrow> (acc + int (length b), WNil) | _ \<Rightarrow> (acc, WNil))"

definition dirSize :: "fnode \<Rightarrow> int" where
  "dirSize t = fst (file_walk dir_size_cb 0 t)"

datatype done_obs = Absent | NotDir | StatFails string | DoneDir int int

text \<open>One iteration: the clock, whether the context is cancelled, and what the directory looks like
  (its size and its modification time).\<close>

record wait_tick =
  w_clock :: int
  w_cancelled :: bool
  w_seen :: done_obs

datatype wait_result = HandoffDone | HandoffFailed string

definition mtime_quiet :: "int \<Rightarrow> int \<Rightarrow> int \<Rightarrow> bool" where
  "mtime_quiet quiet now mtime \<longleftrightarrow> now - mtime \<ge> quiet"

definition size_quiet :: "int \<Rightarrow> int \<Rightarrow> int \<Rightarrow> (int \<times> int) option \<Rightarrow> bool" where
  "size_quiet quiet now sz prev =
     (case prev of
        None \<Rightarrow> False
      | Some (prevSize, prevMtime) \<Rightarrow> sz = prevSize \<and> now - (prevMtime + quiet) \<ge> 0)"

text \<open>The result with the times at which \<^verbatim>\<open>OnTick\<close> was called; without a result the wait goes on.\<close>

fun wait_loop ::
  "int \<Rightarrow> int \<Rightarrow> int \<Rightarrow> (int \<times> int) option \<Rightarrow> wait_tick list \<Rightarrow> wait_result option \<times> int list" where
  "wait_loop quiet start deadline prev [] = (None, [])"
| "wait_loop quiet start deadline prev (t # ts) =
     (if w_cancelled t then (Some (HandoffFailed ''context canceled''), [])
      else if w_clock t > deadline then (Some (HandoffFailed ''did not appear''), [])
      else
        (case w_seen t of
           DoneDir sz mtime \<Rightarrow>
             if mtime_quiet quiet (w_clock t) mtime \<or> size_quiet quiet (w_clock t) sz prev
             then (Some HandoffDone, [])
             else wait_loop quiet start deadline (Some (sz, mtime)) ts
         | NotDir \<Rightarrow> (Some (HandoffFailed ''is a file, not a directory''), [])
         | StatFails err \<Rightarrow> (Some (HandoffFailed err), [])
         | Absent \<Rightarrow>
             (case wait_loop quiet start deadline prev ts of
                (r, beats) \<Rightarrow> (r, (w_clock t - start) # beats))))"

definition or_default :: "int \<Rightarrow> int \<Rightarrow> int" where
  "or_default n d = (if n \<le> 0 then d else n)"

definition done_target :: "string \<Rightarrow> string \<Rightarrow> string" where
  "done_target doneDir infoHash = path_join_all [doneDir, to_lower infoHash]"

text \<open>\<open>quiet0\<close> and \<open>timeout0\<close> are the options, not positive for the defaults of 30 seconds and 6 hours.\<close>

definition WaitForHandoffDone ::
  "int \<Rightarrow> int \<Rightarrow> string \<Rightarrow> string \<Rightarrow> int \<Rightarrow> wait_tick list \<Rightarrow> (string + string) option \<times> int list" where
  "WaitForHandoffDone quiet0 timeout0 doneDir infoHash start ts =
     (let quiet = or_default quiet0 30000000000;
          deadline = start + or_default timeout0 (360 * minute)
      in case wait_loop quiet start deadline None ts of
           (r, beats) \<Rightarrow>
             (map_option (\<lambda>r. case r of HandoffDone \<Rightarrow> Inr (done_target doneDir infoHash) | HandoffFailed e \<Rightarrow> Inl e) r,
              beats))"

section \<open>What the torrent client can see\<close>

lemma tmp_differs: "(p :: string) @ ''.tmp'' \<noteq> p" "p \<noteq> p @ ''.tmp''"
  by (simp_all)

text \<open>
  A hand-off is written atomically: whenever the torrent client looks, the file it watches for
  is as it was before or holds the complete specification.\<close>

theorem handoff_atomic:
  assumes "InfoHash spec \<noteq> []" "fs' \<in> set (handoff_views watchDir spec fs)"
  shows "map_of fs' (path_join_all [watchDir, handoff_name spec])
      \<in> {map_of fs (path_join_all [watchDir, handoff_name spec]), Some (handoff_body spec)}"
proof -
  define p where "p = path_join_all [watchDir, handoff_name spec]"
  have "map_of fs' p \<in> {map_of fs p, Some (handoff_body spec)}"
    using assms unfolding handoff_views_def WriteHandoff_def Let_def p_def [symmetric]
    by (auto simp: update_conv' delete_conv' tmp_differs)
  then show ?thesis by (simp add: p_def)
qed

definition demo_spec :: handoffSpec where
  "demo_spec = \<lparr>InfoHash = ''ab'', Magnet = ''magnet:?xt=urn:btih:ab'', TorrentBytes = []\<rparr>"

theorem handoff_atomic_witness:
  "map_of (AList.update (path_join_all [''/watch'', handoff_name demo_spec] @ ''.tmp'') (take 3 (handoff_body demo_spec)) [])
      (path_join_all [''/watch'', handoff_name demo_spec])
    \<in> {map_of [] (path_join_all [''/watch'', handoff_name demo_spec]), Some (handoff_body demo_spec)}"
proof (rule handoff_atomic [where fs = "[]"])
  show "InfoHash demo_spec \<noteq> []" by (simp add: demo_spec_def)
  have "(3 :: nat) \<in> set [0..<Suc (length (handoff_body demo_spec))]"
    by (simp add: demo_spec_def handoff_body_def bytes_of_def)
  then show "AList.update (path_join_all [''/watch'', handoff_name demo_spec] @ ''.tmp'') (take 3 (handoff_body demo_spec)) []
      \<in> set (handoff_views ''/watch'' demo_spec [])"
    unfolding handoff_views_def Let_def by (force simp del: upt_Suc)
qed

lemma cleanup_removes:
  assumes "WriteHandoff True None True watchDir spec fs = (fs', Inr p)"
  shows "map_of (CleanupHandoff watchDir (InfoHash spec) fs') p = None"
  using assms
  by (auto simp: WriteHandoff_def Let_def CleanupHandoff_def handoff_name_def delete_conv' split: if_splits)

section \<open>When the wait ends\<close>

text \<open>The last time the directory was seen before.\<close>

definition last_dir :: "(int \<times> int) option \<Rightarrow> wait_tick list \<Rightarrow> (int \<times> int) option" where
  "last_dir prev ts = foldl (\<lambda>a t. case w_seen t of DoneDir sz m \<Rightarrow> Some (sz, m) | _ \<Rightarrow> a) prev ts"

lemma wait_loop_done:
  assumes "wait_loop quiet start deadline prev ts = (Some HandoffDone, beats)"
  shows "\<exists>pre t rest sz mtime. ts = pre @ t # rest \<and> w_seen t = DoneDir sz mtime \<and> w_clock t \<le> deadline
      \<and> (mtime_quiet quiet (w_clock t) mtime \<or> size_quiet quiet (w_clock t) sz (last_dir prev pre))"
  using assms
proof (induction ts arbitrary: prev beats)
  case (Cons t ts)
  show ?case
  proof (cases "\<exists>sz mtime. w_seen t = DoneDir sz mtime
      \<and> (mtime_quiet quiet (w_clock t) mtime \<or> size_quiet quiet (w_clock t) sz prev)")
    case True
    then obtain sz mtime where "w_seen t = DoneDir sz mtime"
      "mtime_quiet quiet (w_clock t) mtime \<or> size_quiet quiet (w_clock t) sz (last_dir prev [])"
      by (auto simp: last_dir_def)
    moreover have "w_clock t \<le> deadline" using Cons.prems by (auto split: if_splits)
    ultimately show ?thesis by (metis append_Nil)
  next
    case False
    define prev' where "prev' = (case w_seen t of DoneDir sz m \<Rightarrow> Some (sz, m) | _ \<Rightarrow> prev)"
    have "\<exists>beats'. wait_loop quiet start deadline prev' ts = (Some HandoffDone, beats')"
      using Cons.prems False by (auto simp: prev'_def split: if_splits done_obs.splits prod.splits)
    then obtain pre t' rest sz mtime where ih: "ts = pre @ t' # rest" "w_seen t' = DoneDir sz mtime"
        "w_clock t' \<le> deadline"
      "mtime_quiet quiet (w_clock t') mtime \<or> size_quiet quiet (w_clock t') sz (last_dir prev' pre)"
      using Cons.IH by blast
    have "last_dir prev (t # pre) = last_dir prev' pre" by (simp add: last_dir_def prev'_def)
    moreover have "t # ts = (t # pre) @ t' # rest" using ih(1) by simp
    ultimately show ?thesis using ih(2-) by metis
  qed
qed simp

lemma wait_loop_ends:
  assumes "w_clock t > deadline"
  shows "fst (wait_loop quiet start deadline prev (ts @ t # rest)) \<noteq> None"
proof (induction ts arbitrary: prev)
  case Nil
  then show ?case using assms by simp
next
  case (Cons a ts)
  then show ?case by (auto split: done_obs.splits prod.splits) (metis fst_conv option.distinct(1))+
qed

text \<open>The wait ends: by the first poll past the configured timeout, or past six hours without one,
  it has returned.\<close>

theorem handoff_wait_ends:
  assumes "w_clock t > start + or_default timeout0 (360 * minute)"
  shows "fst (WaitForHandoffDone quiet0 timeout0 doneDir infoHash start (ts @ t # rest)) \<noteq> None"
  using wait_loop_ends [OF assms, of "or_default quiet0 30000000000" start None ts rest]
  by (auto simp: WaitForHandoffDone_def Let_def split: prod.splits)

theorem handoff_wait_ends_witness:
  "fst (WaitForHandoffDone 0 0 ''/done'' ''AB'' 0
     ([\<lparr>w_clock = 5, w_cancelled = False, w_seen = Absent\<rparr>]
      @ \<lparr>w_clock = 21600000000001, w_cancelled = False, w_seen = Absent\<rparr> # [])) \<noteq> None"
  by (rule handoff_wait_ends) (simp add: or_default_def minute_def)

text \<open>The rule the code has accepts a download that is still growing: the modification time of a
  directory does not change while the files in it are written, so once it is older than the quiet
  period the directory is accepted, however its size changed since the poll before.\<close>

theorem growing_download_accepted:
  assumes "0 \<le> w_clock t1" "w_clock t1 < w_clock t2" "w_clock t2 \<le> 360 * minute"
    and "\<not> w_cancelled t1" "\<not> w_cancelled t2"
    and "w_seen t1 = DoneDir old_size mtime" "w_seen t2 = DoneDir new_size mtime" "w_clock t2 - mtime \<ge> 30000000000"
  shows "fst (WaitForHandoffDone 0 0 doneDir infoHash 0 (t1 # t2 # ts)) = Some (Inr (done_target doneDir infoHash))"
  using assms by (simp add: WaitForHandoffDone_def or_default_def mtime_quiet_def)

theorem growing_download_accepted_witness:
  "fst (WaitForHandoffDone 0 0 ''/done'' ''AB'' 0
     ([\<lparr>w_clock = 15000000000, w_cancelled = False, w_seen = DoneDir 100 0\<rparr>,
       \<lparr>w_clock = 30000000000, w_cancelled = False, w_seen = DoneDir 5000 0\<rparr>])) = Some (Inr (done_target ''/done'' ''AB''))"
  by (rule growing_download_accepted [where old_size = 100 and new_size = 5000 and mtime = 0]) (simp_all add: minute_def)

lemma heartbeats_only_absent:
  "snd (wait_loop quiet start deadline prev ts) = bs \<Longrightarrow>
     set bs \<subseteq> (\<lambda>t. w_clock t - start) ` {t \<in> set ts. w_seen t = Absent}"
proof (induction ts arbitrary: prev bs)
  case (Cons t ts)
  show ?case
  proof (cases "w_seen t = Absent \<and> \<not> w_cancelled t \<and> w_clock t \<le> deadline")
    case True
    then have "bs = (w_clock t - start) # snd (wait_loop quiet start deadline prev ts)"
      using Cons.prems by (auto split: prod.splits)
    then show ?thesis using Cons.IH [OF refl, of prev] True by auto
  next
    case False
    then have "bs = [] \<or> (\<exists>p. bs = snd (wait_loop quiet start deadline p ts))"
      using Cons.prems by (auto split: done_obs.splits if_splits prod.splits)
    then show ?thesis using Cons.IH [OF refl] by auto
  qed
qed simp

end
