(* ===== verification/Backoff.thy ===== *)
theory Backoff
  imports GoBase "HOL-Library.AList"
begin

text \<open>
  How the agent backs off (\<^verbatim>\<open>cmd/agent/main.go\<close>): the pause after repeated local errors, the cooldown
  of requests that do not fit on the disk with its file, and the classes of errors that decide between
  the two. Instants and durations are nanoseconds; every instant is positive, \<open>0\<close> is Go's zero time.
\<close>

section \<open>Classes of errors\<close>

definition isAgentLocalError :: "string \<Rightarrow> bool" where
  "isAgentLocalError s \<longleftrightarrow>
     contains s ''address already in use'' \<or> contains s ''Only one usage of each socket''
     \<or> contains s ''SOCKS5'' \<or> contains s ''failed to create SOCKS5''"

definition isRuntimeDiskFullError :: "string \<Rightarrow> bool" where
  "isRuntimeDiskFullError s \<longleftrightarrow>
     contains s ''no space left'' \<or> contains s ''insufficient disk space''
     \<or> contains s ''There is not enough space on the disk''"

section \<open>The pause\<close>

record abort_state =
  consecutiveAborts :: nat
  abortPauseUntil :: int

definition abortPauseThreshold :: nat where
  "abortPauseThreshold = 5"

definition abortPauseDuration :: int where
  "abortPauseDuration = 300000000000"

definition abort_init :: abort_state where
  "abort_init = \<lparr>consecutiveAborts = 0, abortPauseUntil = 0\<rparr>"

definition recordAbort :: "int \<Rightarrow> abort_state \<Rightarrow> abort_state" where
  "recordAbort now s =
     (let n = Suc (consecutiveAborts s)
      in \<lparr>consecutiveAborts = n,
          abortPauseUntil = (if n \<ge> abortPauseThreshold then now + abortPauseDuration else abortPauseUntil s)\<rparr>)"

definition recordSuccess :: "abort_state \<Rightarrow> abort_state" where
  "recordSuccess s = s\<lparr>consecutiveAborts := 0\<rparr>"

definition abortPauseRemaining :: "int \<Rightarrow> abort_state \<Rightarrow> int" where
  "abortPauseRemaining now s = (let d = abortPauseUntil s - now in if d > 0 then d else 0)"

section \<open>The cooldown of oversized requests\<close>

text \<open>\<open>skip_file\<close> is what the file parses to, \<open>None\<close> when it is missing or unreadable. A failing write
  leaves it as it was or truncated.\<close>

record oversize =
  skip :: "(int \<times> int) list"
  skip_file :: "(int \<times> int) list option"

datatype file_write = Written | NotOpened | Truncated

definition oversizeSkipTTL :: int where
  "oversizeSkipTTL = 1800000000000"

definition saveOversizeSkipLocked :: "bool \<Rightarrow> file_write \<Rightarrow> oversize \<Rightarrow> oversize" where
  "saveOversizeSkipLocked has_path wr s =
     (if \<not> has_path then s
      else case wr of
             Written \<Rightarrow> s\<lparr>skip_file := Some (skip s)\<rparr>
           | NotOpened \<Rightarrow> s
           | Truncated \<Rightarrow> s\<lparr>skip_file := None\<rparr>)"

definition markOversize :: "bool \<Rightarrow> file_write \<Rightarrow> int \<Rightarrow> int \<Rightarrow> oversize \<Rightarrow> oversize" where
  "markOversize has_path wr now requestID s =
     saveOversizeSkipLocked has_path wr (s\<lparr>skip := AList.update requestID (now + oversizeSkipTTL) (skip s)\<rparr>)"

definition shouldSkipOversize :: "bool \<Rightarrow> file_write \<Rightarrow> int \<Rightarrow> int \<Rightarrow> oversize \<Rightarrow> bool \<times> oversize" where
  "shouldSkipOversize has_path wr now requestID s =
     (case map_of (skip s) requestID of
        None \<Rightarrow> (False, s)
      | Some exp \<Rightarrow>
          if now > exp then (False, saveOversizeSkipLocked has_path wr (s\<lparr>skip := AList.delete requestID (skip s)\<rparr>))
          else (True, s))"

definition loadOversizeSkip :: "int \<Rightarrow> oversize \<Rightarrow> oversize" where
  "loadOversizeSkip now s =
     (case skip_file s of
        None \<Rightarrow> s
      | Some raw \<Rightarrow> s\<lparr>skip := foldl (\<lambda>m (rid, exp). if exp > now then AList.update rid exp m else m) (skip s) raw\<rparr>)"

definition oversize_init :: oversize where
  "oversize_init = \<lparr>skip = [], skip_file = None\<rparr>"

text \<open>A restart: the memory is gone, the file is read.\<close>

definition restart :: "int \<Rightarrow> oversize \<Rightarrow> oversize" where
  "restart now s = loadOversizeSkip now (s\<lparr>skip := []\<rparr>)"

section \<open>When the agent pauses\<close>

datatype outcome = Aborted int | Succeeded

definition on_outcome :: "abort_state \<Rightarrow> outcome \<Rightarrow> abort_state" where
  "on_outcome s e = (case e of Aborted now \<Rightarrow> recordAbort now s | Succeeded \<Rightarrow> recordSuccess s)"

fun outcome_time :: "outcome \<Rightarrow> int list" where
  "outcome_time (Aborted t) = [t]"
| "outcome_time Succeeded = []"

text \<open>The aborts since the last success, the latest first.\<close>

definition streak :: "outcome list \<Rightarrow> int list" where
  "streak es = concat (map outcome_time (takeWhile (\<lambda>e. e \<noteq> Succeeded) (rev es)))"

lemma streak_simps [simp]:
  "streak [] = []" "streak (es @ [Aborted t]) = t # streak es" "streak (es @ [Succeeded]) = []"
  by (simp_all add: streak_def)

lemma streak_tail: "\<exists>pre. es = pre @ map Aborted (rev (streak es))"
proof (induction es rule: rev_induct)
  case (snoc e es)
  then show ?case by (cases e) auto
qed simp

lemma tail_streak:
  "es = pre @ map Aborted ts \<Longrightarrow> length ts \<le> length (streak es) \<and> take (length ts) (streak es) = rev ts"
proof (induction ts arbitrary: es rule: rev_induct)
  case (snoc t ts)
  then show ?case using snoc.IH [of "pre @ map Aborted ts"] by (simp flip: append_assoc)
qed simp

definition after :: "outcome list \<Rightarrow> abort_state" where
  "after es = foldl on_outcome abort_init es"

lemma after_simps [simp]:
  "after [] = abort_init" "after (es @ [Aborted t]) = recordAbort t (after es)"
  "after (es @ [Succeeded]) = recordSuccess (after es)"
  by (simp_all add: after_def on_outcome_def)

lemma after_count: "consecutiveAborts (after es) = length (streak es)"
proof (induction es rule: rev_induct)
  case (snoc e es)
  then show ?case by (cases e) (simp_all add: recordAbort_def recordSuccess_def Let_def)
qed (simp add: abort_init_def)

definition pauses :: "outcome list \<Rightarrow> int \<Rightarrow> bool" where
  "pauses es t \<longleftrightarrow> (\<exists>pre ts post. es = pre @ map Aborted ts @ post \<and> length ts = abortPauseThreshold
     \<and> t < last ts + abortPauseDuration)"

lemma pauses_snoc:
  "pauses (es @ [e]) t \<longleftrightarrow> pauses es t
     \<or> (\<exists>pre ts. es @ [e] = pre @ map Aborted ts \<and> length ts = abortPauseThreshold \<and> t < last ts + abortPauseDuration)"
proof
  assume "pauses (es @ [e]) t"
  then obtain pre ts post where d: "es @ [e] = pre @ map Aborted ts @ post" "length ts = abortPauseThreshold"
    "t < last ts + abortPauseDuration" by (auto simp: pauses_def)
  show "pauses es t
     \<or> (\<exists>pre ts. es @ [e] = pre @ map Aborted ts \<and> length ts = abortPauseThreshold \<and> t < last ts + abortPauseDuration)"
  proof (cases post rule: rev_cases)
    case Nil
    with d show ?thesis by auto
  next
    case (snoc ys y)
    with d(1) have "es = pre @ map Aborted ts @ ys" by simp
    with d(2,3) show ?thesis unfolding pauses_def by blast
  qed
next
  assume "pauses es t
     \<or> (\<exists>pre ts. es @ [e] = pre @ map Aborted ts \<and> length ts = abortPauseThreshold \<and> t < last ts + abortPauseDuration)"
  then show "pauses (es @ [e]) t"
    unfolding pauses_def by (metis append.assoc append.right_neutral)
qed

lemma streak_pauses:
  "(\<exists>pre ts. es @ [Aborted a] = pre @ map Aborted ts \<and> length ts = abortPauseThreshold \<and> t < last ts + abortPauseDuration)
     \<longleftrightarrow> abortPauseThreshold \<le> Suc (length (streak es)) \<and> t < a + abortPauseDuration"
proof safe
  fix pre ts
  assume d: "es @ [Aborted a] = pre @ map Aborted ts" "length ts = abortPauseThreshold" "t < last ts + abortPauseDuration"
  show "abortPauseThreshold \<le> Suc (length (streak es))"
    using tail_streak [OF d(1)] d(2) by simp
  have "ts \<noteq> []" using d(2) by (auto simp: abortPauseThreshold_def)
  then have "last ts = a" using d(1) by (metis last_map last_snoc last_appendR map_is_Nil_conv outcome.inject)
  then show "t < a + abortPauseDuration" using d(3) by simp
next
  assume n: "abortPauseThreshold \<le> Suc (length (streak es))" and t: "t < a + abortPauseDuration"
  obtain pre where "es = pre @ map Aborted (rev (streak es))" using streak_tail by blast
  then have "es @ [Aborted a] = pre @ map Aborted (rev (a # streak es))" by simp
  moreover have "rev (a # streak es) =
      take (Suc (length (streak es)) - abortPauseThreshold) (rev (a # streak es))
      @ drop (Suc (length (streak es)) - abortPauseThreshold) (rev (a # streak es))"
    by (simp only: append_take_drop_id)
  moreover define ts where "ts = drop (Suc (length (streak es)) - abortPauseThreshold) (rev (a # streak es))"
  ultimately have "\<exists>pre. es @ [Aborted a] = pre @ map Aborted ts"
    by (metis append.assoc map_append)
  moreover have l: "length ts = abortPauseThreshold" using n by (simp add: ts_def)
  moreover have "last ts = a"
    using l by (simp add: ts_def last_drop abortPauseThreshold_def)
  ultimately show "\<exists>pre ts. es @ [Aborted a] = pre @ map Aborted ts \<and> length ts = abortPauseThreshold
      \<and> t < last ts + abortPauseDuration"
    using t by metis
qed

text \<open>The agent pauses after the fifth local error in a row and for five minutes from each such
  error on, and at no other time: a success in between starts the count again, but does not end a
  pause that runs.\<close>

theorem pause_after_five:
  assumes "sorted (concat (map outcome_time es))" "0 < t"
    and "\<forall>a \<in> set (concat (map outcome_time es)). 0 < a \<and> a \<le> t"
  shows "abortPauseRemaining t (after es) > 0 \<longleftrightarrow>
     (\<exists>pre ts post. es = pre @ map Aborted ts @ post \<and> length ts = 5 \<and> t < last ts + abortPauseDuration)"
proof -
  have "(t < abortPauseUntil (after es) \<longleftrightarrow> pauses es t)
      \<and> (\<forall>m. (\<forall>a \<in> set (concat (map outcome_time es)). a \<le> m) \<longrightarrow> 0 < m \<longrightarrow> abortPauseUntil (after es) \<le> m + abortPauseDuration)"
    using assms(1,3)
  proof (induction es rule: rev_induct)
    case Nil
    then show ?case using assms(2) by (simp add: abort_init_def pauses_def abortPauseThreshold_def abortPauseDuration_def)
  next
    case (snoc e es)
    then have ih: "t < abortPauseUntil (after es) \<longleftrightarrow> pauses es t"
      "\<And>m. \<forall>a \<in> set (concat (map outcome_time es)). a \<le> m \<Longrightarrow> 0 < m \<Longrightarrow> abortPauseUntil (after es) \<le> m + abortPauseDuration"
      by (auto simp: sorted_append)
    show ?case
    proof (cases e)
      case Succeeded
      have "\<not> (\<exists>pre ts. es @ [Succeeded] = pre @ map Aborted ts \<and> length ts = abortPauseThreshold \<and> t < last ts + abortPauseDuration)"
      proof
        assume "\<exists>pre ts. es @ [Succeeded] = pre @ map Aborted ts \<and> length ts = abortPauseThreshold \<and> t < last ts + abortPauseDuration"
        then obtain pre ts where d: "es @ [Succeeded] = pre @ map Aborted ts" "length ts = abortPauseThreshold" by blast
        then show False by (cases ts rule: rev_cases) (auto simp: abortPauseThreshold_def)
      qed
      then have "pauses (es @ [e]) t = pauses es t" by (simp only: Succeeded pauses_snoc simp_thms)
      then show ?thesis using ih by (simp add: Succeeded recordSuccess_def)
    next
      case (Aborted a)
      have up: "pauses es t \<Longrightarrow> t < a + abortPauseDuration"
      proof -
        assume "pauses es t"
        then have "t < abortPauseUntil (after es)" using ih(1) by simp
        moreover have "abortPauseUntil (after es) \<le> a + abortPauseDuration"
        proof (rule ih(2))
          show "\<forall>x \<in> set (concat (map outcome_time es)). x \<le> a"
            using snoc.prems(1) by (auto simp: Aborted sorted_append)
          show "0 < a" using snoc.prems(2) by (simp add: Aborted)
        qed
        ultimately show "t < a + abortPauseDuration" by simp
      qed
      show ?thesis
        using ih up unfolding Aborted pauses_snoc streak_pauses
        by (auto simp: recordAbort_def Let_def after_count)
    qed
  qed
  then show ?thesis by (simp add: abortPauseRemaining_def Let_def pauses_def abortPauseThreshold_def)
qed

theorem pause_after_five_witness:
  "abortPauseRemaining 7 (after (map Aborted [1, 2, 3, 4, 5, 6])) > 0 \<longleftrightarrow>
     (\<exists>pre ts post. map Aborted [1, 2, 3, 4, 5, 6] = pre @ map Aborted ts @ post \<and> length ts = 5
        \<and> 7 < last ts + abortPauseDuration)"
  by (rule pause_after_five) simp_all

section \<open>A restart keeps the cooldowns\<close>

datatype skip_op = Mark int int | Query int int

definition on_skip :: "oversize \<Rightarrow> skip_op \<Rightarrow> oversize" where
  "on_skip s e = (case e of
     Mark now rid \<Rightarrow> markOversize True Written now rid s
   | Query now rid \<Rightarrow> snd (shouldSkipOversize True Written now rid s))"

text \<open>The file holds the memory once there has been a write; before that both are empty.\<close>

definition skip_inv :: "oversize \<Rightarrow> bool" where
  "skip_inv s \<longleftrightarrow> distinct (map fst (skip s)) \<and> (skip_file s = Some (skip s) \<or> (skip_file s = None \<and> skip s = []))"

lemma skip_inv_run: "skip_inv (foldl on_skip oversize_init es)"
proof (induction es rule: rev_induct)
  case Nil
  then show ?case by (simp add: skip_inv_def oversize_init_def)
next
  case (snoc e es)
  then show ?case
    by (cases e)
      (auto simp: skip_inv_def on_skip_def markOversize_def shouldSkipOversize_def saveOversizeSkipLocked_def
        distinct_update distinct_delete split: option.split)
qed

lemma load_fold:
  "distinct (map fst raw) \<Longrightarrow>
     map_of (foldl (\<lambda>m (rid, exp). if exp > now then AList.update rid exp m else m) m raw) k
       = (case map_of raw k of Some exp \<Rightarrow> if exp > now then Some exp else map_of m k | None \<Rightarrow> map_of m k)"
proof (induction raw arbitrary: m)
  case (Cons a raw)
  obtain rid exp where a: "a = (rid, exp)" by (cases a)
  have "rid = k \<Longrightarrow> map_of raw k = None" using Cons.prems a by (simp add: map_of_eq_None_iff)
  then show ?case using Cons a by (auto simp: update_conv' split: option.splits)
qed simp

text \<open>Restarting the agent forgets no cooldown and adds none: after any marks and queries, a request
  is skipped at a later time exactly if it would have been without the restart.\<close>

theorem restart_keeps_cooldowns:
  assumes "s = foldl on_skip oversize_init es" "r < t"
  shows "fst (shouldSkipOversize True Written t rid (restart r s)) = fst (shouldSkipOversize True Written t rid s)"
proof -
  have inv: "skip_inv s" using skip_inv_run assms(1) by simp
  have "map_of (skip (restart r s)) rid = (case map_of (skip s) rid of Some exp \<Rightarrow> if exp > r then Some exp else None | None \<Rightarrow> None)"
    using inv load_fold [of "skip s" r "[]" rid]
    by (auto simp: skip_inv_def restart_def loadOversizeSkip_def split: option.split)
  then show ?thesis using assms(2) by (simp add: shouldSkipOversize_def split: option.split)
qed

theorem restart_keeps_cooldowns_witness:
  "fst (shouldSkipOversize True Written 50 7 (restart 40 (foldl on_skip oversize_init [Mark 10 7])))
     = fst (shouldSkipOversize True Written 50 7 (foldl on_skip oversize_init [Mark 10 7]))"
  by (rule restart_keeps_cooldowns [where es = "[Mark 10 7]"]) simp_all

lemma mark_lasts:
  "fst (shouldSkipOversize has_path wr t rid (markOversize has_path wr' now rid s)) \<longleftrightarrow> t \<le> now + oversizeSkipTTL"
  by (cases wr') (auto simp: shouldSkipOversize_def markOversize_def saveOversizeSkipLocked_def update_conv')

end
