(* ===== verification/Task.thy ===== *)
theory Task
  imports Offline Handoff Backoff
begin

text \<open>
  One task of the site from its claim to its report (\<^verbatim>\<open>processTask\<close> of \<^verbatim>\<open>cmd/agent/main.go\<close>): the
  cooldown, the download or the hand-off, the blocklist, the checks before staging, the publish pipeline,
  the report with its retries and the seeding. The world is the one of \<open>Publish\<close> with the ledger, the
  directories outside of the temporary directory, the hand-off files, the reports sent to the site, the
  magnets given to the torrent library, and the two back-offs. What the site, the libraries and the
  clock answer is in \<open>task_env\<close>. A task ends, panics, or is still waiting for something.
\<close>

section \<open>Task, world and environment\<close>

record agent_task =
  K_RequestID :: int
  K_LockID :: int
  K_Title :: string
  K_InfoHash :: string
  K_Boost :: int
  K_Private :: bool
  K_FileURL :: string
  K_Remux :: string
  K_Upscale :: string

record remote_config =
  R_SlowThreshold :: rat
  R_SlowTimeout :: int
  R_LowPeers :: int
  R_LowPeersTimeout :: int

record complete_result =
  CLockID :: int
  CRequestID :: int
  CStatus :: string
  CFailReason :: string
  CNzb :: string
  CPassword :: string
  CDescribed :: description
  CTotalSize :: int

record task_world =
  TW :: world
  Space :: ledger
  Outside :: "(string \<times> fnode) list"
  WatchFiles :: files
  Sent :: "complete_result list"
  Magnets :: "string list"
  Skips :: oversize
  Aborts :: abort_state
  Cancels :: "string list"

record task_config =
  TC :: pub_config
  TMode :: string
  TWatchDir :: string
  TDoneDir :: string
  THandoffMins :: int
  TSlow :: rat
  TSlowMins :: int
  TSeed :: "rat seedOpts"
  TBanned :: "string list option"

datatype answer = Accepted | InMaintenance string | Refused string

record 'seg task_env =
  e_start :: int
  e_fail :: int
  e_stamp :: string
  e_skip_path :: bool
  e_write :: file_write
  e_fetch :: "string + bytes"
  e_cached :: "string + bytes"
  e_hand :: "bool \<times> nat option \<times> bool"
  e_wait_start :: int
  e_wait :: "wait_tick list"
  e_ctx :: bool
  e_below95 :: "int \<Rightarrow> int \<Rightarrow> bool"
  e_below80 :: "int \<Rightarrow> int \<Rightarrow> bool"
  e_gb :: "int \<Rightarrow> string"
  e_escape :: "string \<Rightarrow> string"
  e_lib :: "string option"
  e_len :: int
  e_free :: "u64 option"
  e_dl_start :: int
  e_dl :: "dl_event list"
  e_dl_tree :: "fnode option"
  e_declared :: "ExpectedFile list"
  e_remux :: "fnode \<Rightarrow> fnode"
  e_upscale :: "fnode \<Rightarrow> fnode"
  e_pub :: "'seg pub_env"
  e_media :: "fnode \<Rightarrow> media"
  e_answers :: "(answer \<times> bool) list"
  e_backup_ok :: bool
  e_hours :: "rat \<Rightarrow> int"
  e_ratio :: "int \<Rightarrow> int \<Rightarrow> rat"
  e_seed_start :: int
  e_seed :: "seed_tick option list"

datatype task_end = Finished | Panicked | StillRunning

text \<open>A deferred call of a function that may not return.\<close>

definition deferred_end :: "('w \<Rightarrow> 'w) \<Rightarrow> ('w \<Rightarrow> 'w \<times> task_end) \<Rightarrow> 'w \<Rightarrow> 'w \<times> task_end" where
  "deferred_end cleanup body w = (case body w of (w', r) \<Rightarrow> (if r = StillRunning then w' else cleanup w', r))"

section \<open>Places\<close>

text \<open>Where the content is: an entry of the temporary directory, or a directory elsewhere.\<close>

datatype place = InTemp string | Elsewhere string

definition place_of :: "string \<Rightarrow> string \<Rightarrow> place" where
  "place_of tempDir p = (if path_dir p = path_clean tempDir then InTemp (path_base p) else Elsewhere p)"

fun place_path :: "string \<Rightarrow> place \<Rightarrow> string" where
  "place_path tempDir (InTemp n) = path_join_all [tempDir, n]"
| "place_path tempDir (Elsewhere p) = p"

fun tree_in :: "place \<Rightarrow> task_world \<Rightarrow> fnode option" where
  "tree_in (InTemp n) w = map_of (Temp (TW w)) n"
| "tree_in (Elsewhere p) w = map_of (Outside w) p"

fun put_tree :: "place \<Rightarrow> fnode \<Rightarrow> task_world \<Rightarrow> task_world" where
  "put_tree (InTemp n) t w = w\<lparr>TW := set_temp n t (TW w)\<rparr>"
| "put_tree (Elsewhere p) t w = w\<lparr>Outside := AList.update p t (Outside w)\<rparr>"

fun remove_tree :: "place \<Rightarrow> task_world \<Rightarrow> task_world" where
  "remove_tree (InTemp n) w = w\<lparr>TW := remove_temp n (TW w)\<rparr>"
| "remove_tree (Elsewhere p) w = w\<lparr>Outside := AList.delete p (Outside w)\<rparr>"

definition the_tree :: "place \<Rightarrow> task_world \<Rightarrow> fnode" where
  "the_tree pl w = (case tree_in pl w of Some t \<Rightarrow> t | None \<Rightarrow> FUnreadable)"

section \<open>Reports\<close>

definition job_of_task :: "agent_task \<Rightarrow> string" where
  "job_of_task t = ''request-'' @ itoa (K_RequestID t)"

definition op_jobs :: "app_op \<Rightarrow> task_world \<Rightarrow> task_world" where
  "op_jobs c w = (if op_guard c then w\<lparr>TW := on_jobs c (TW w)\<rparr> else w)"

text \<open>\<^verbatim>\<open>reportProgress\<close>; the details are left out.\<close>

definition say :: "'seg task_env \<Rightarrow> agent_task \<Rightarrow> string \<Rightarrow> task_world \<Rightarrow> task_world" where
  "say e t ph w = op_jobs (OpUpdate (job_of_task t) ph [] 0 (e_stamp e)) w"

definition verdict :: "agent_task \<Rightarrow> string \<Rightarrow> string \<Rightarrow> int \<Rightarrow> complete_result" where
  "verdict t status reason total_size =
     \<lparr>CLockID = K_LockID t, CRequestID = K_RequestID t, CStatus = status, CFailReason = reason, CNzb = [],
      CPassword = [], CDescribed = no_description, CTotalSize = total_size\<rparr>"

definition send :: "complete_result \<Rightarrow> task_world \<Rightarrow> task_world" where
  "send m w = w\<lparr>Sent := Sent w @ [m]\<rparr>"

definition report :: "'seg task_env \<Rightarrow> agent_task \<Rightarrow> string \<Rightarrow> string \<Rightarrow> string \<Rightarrow> int \<Rightarrow> task_world \<Rightarrow> task_world" where
  "report e t ph status reason total_size w = send (verdict t status reason total_size) (say e t ph w)"

record task_err =
  err_text :: string
  err_short :: "int option"

text \<open>The closure \<^verbatim>\<open>fail\<close>.\<close>

definition fail_task :: "'seg task_env \<Rightarrow> agent_task \<Rightarrow> string \<Rightarrow> task_err \<Rightarrow> task_world \<Rightarrow> task_world" where
  "fail_task e t msg err w =
     (let reason = msg @ '': '' @ err_text err
      in if err_short err \<noteq> None \<or> isRuntimeDiskFullError (err_text err)
         then (let w1 = report e t ''Aborted'' ''aborted'' reason (case err_short err of Some n \<Rightarrow> n | None \<Rightarrow> 0) w
               in w1\<lparr>Skips := markOversize (e_skip_path e) (e_write e) (e_fail e) (K_RequestID t) (Skips w1)\<rparr>)
         else if isAgentLocalError (err_text err)
         then (let w1 = report e t ''Aborted'' ''aborted'' reason 0 w
               in w1\<lparr>Aborts := recordAbort (e_fail e) (Aborts w1)\<rparr>)
         else report e t ''Failed'' ''failed'' reason 0 w)"

definition plain_err :: "string \<Rightarrow> task_err" where
  "plain_err s = \<lparr>err_text = s, err_short = None\<rparr>"

fun dl_err :: "(int \<Rightarrow> string) \<Rightarrow> dl_error \<Rightarrow> task_err" where
  "dl_err gb (DiskShortfall a b) =
     \<lparr>err_text = ''insufficient disk space: torrent is '' @ gb a @ '' GB, have '' @ gb b @ '' GB free'', err_short = Some a\<rparr>"
| "dl_err gb SlowDownload = plain_err ''download too slow''"
| "dl_err gb Cancelled = plain_err ''context canceled''"
| "dl_err gb (LibError s) = plain_err s"

section \<open>Getting the content\<close>

definition magnet_of :: "agent_task \<Rightarrow> string" where
  "magnet_of t = ''magnet:?xt=urn:btih:'' @ NormalizeInfoHash (K_InfoHash t)"

text \<open>A previous download that can be used.\<close>

definition resume_place :: "task_config \<Rightarrow> agent_task \<Rightarrow> task_world \<Rightarrow> place option" where
  "resume_place cfg t w =
     (case map_of (entries_of (JobsMap (TW w))) (job_of_task t) of
        Some (Some prev) \<Rightarrow>
          if DownloadedPath prev = [] then None
          else (let pl = place_of (P_TempDir (TC cfg)) (DownloadedPath prev)
                in case tree_in pl w of
                     None \<Rightarrow> None
                   | Some n \<Rightarrow>
                       (case resolve n of
                          None \<Rightarrow> None
                        | Some info \<Rightarrow>
                            if is_dir info \<and> ValidatePartialDownload (DownloadedPath prev) (Some n) 0 then Some pl else None))
      | _ \<Rightarrow> None)"

definition from_site :: "agent_task \<Rightarrow> bool" where
  "from_site t \<longleftrightarrow> K_Private t \<and> K_FileURL t \<noteq> []"

definition handoff_spec :: "'seg task_env \<Rightarrow> agent_task \<Rightarrow> string + handoffSpec" where
  "handoff_spec e t =
     (let spec = \<lparr>InfoHash = K_InfoHash t, Magnet = magnet_of t, TorrentBytes = []\<rparr>
      in if from_site t
         then (case e_fetch e of
                 Inr blob \<Rightarrow> Inr (if blob \<noteq> [] then spec\<lparr>TorrentBytes := blob\<rparr> else spec)
               | Inl err \<Rightarrow> Inl err)
         else Inr spec)"

definition handoff_step ::
  "'seg task_env \<Rightarrow> task_config \<Rightarrow> agent_task \<Rightarrow> task_world \<Rightarrow> task_world \<times> (task_end + place \<times> bool)" where
  "handoff_step e cfg t w =
     (let w1 = say e t ''Handing off'' w
      in case handoff_spec e t of
           Inl err \<Rightarrow> (fail_task e t ''fetch private .torrent'' (plain_err err) w1, Inl Finished)
         | Inr spec \<Rightarrow>
             (case WriteHandoff (fst (e_hand e)) (fst (snd (e_hand e))) (snd (snd (e_hand e))) (TWatchDir cfg) spec (WatchFiles w1) of
                (fs, Inl err) \<Rightarrow> (fail_task e t ''write handoff'' (plain_err err) (w1\<lparr>WatchFiles := fs\<rparr>), Inl Finished)
              | (fs, Inr p) \<Rightarrow>
                  (let w2 = w1\<lparr>WatchFiles := fs\<rparr>;
                       done = w2\<lparr>WatchFiles := CleanupHandoff (TWatchDir cfg) (K_InfoHash t) fs\<rparr>
                   in case fst (WaitForHandoffDone 0 (THandoffMins cfg * minute) (TDoneDir cfg) (K_InfoHash t) (e_wait_start e) (e_wait e)) of
                        None \<Rightarrow> (w2, Inl StillRunning)
                      | Some (Inl err) \<Rightarrow>
                          (if err = ''context canceled'' \<or> e_ctx e
                           then report e t ''Skipped'' ''failed'' ''Task skipped by user'' 0 done
                           else report e t ''Aborted'' ''aborted'' err 0 done, Inl Finished)
                      | Some (Inr donePath) \<Rightarrow>
                          (op_jobs (OpMeta (job_of_task t) donePath [] []) done,
                           Inr (place_of (P_TempDir (TC cfg)) donePath, False)))))"

definition dl_options :: "task_config \<Rightarrow> remote_config option \<Rightarrow> agent_task \<Rightarrow> downloadOpts" where
  "dl_options cfg rc t =
     (let o0 = \<lparr>SlowThresholdMBs = TSlow cfg, SlowTimeoutMins = TSlowMins cfg, LowPeersThreshold = -1,
                LowPeersTimeoutMins = 0, IsBoosted = (K_Boost t > 0)\<rparr>
      in case rc of
           None \<Rightarrow> o0
         | Some r \<Rightarrow>
             (let o1 = (if R_SlowTimeout r > 0
                        then o0\<lparr>SlowThresholdMBs := R_SlowThreshold r, SlowTimeoutMins := R_SlowTimeout r\<rparr> else o0)
              in if R_LowPeersTimeout r > 0
                 then o1\<lparr>LowPeersThreshold := R_LowPeers r, LowPeersTimeoutMins := R_LowPeersTimeout r\<rparr> else o1))"

datatype got = GotSession | GotError dl_error | GotNothing | GotHang

text \<open>A download by one of the entries of \<open>Torrent\<close>, unless the library fails before the space check
  (\<open>e_lib\<close>); \<open>e_dl_tree\<close> is what is then in the download directory.\<close>

definition download_by ::
  "'seg task_env \<Rightarrow> agent_task \<Rightarrow> (ledger \<Rightarrow> ledger \<times> (dl_error + string) option) \<Rightarrow> task_world \<Rightarrow> task_world \<times> got" where
  "download_by e t f w =
     (let w1 = (case e_dl_tree e of Some n \<Rightarrow> put_tree (InTemp (dl_name (job_of_task t))) n w | None \<Rightarrow> w)
      in case e_lib e of
           Some err \<Rightarrow> (w1, GotError (LibError err))
         | None \<Rightarrow>
             (case f (Space w1) of
                (l, None) \<Rightarrow> (w1\<lparr>Space := l\<rparr>, GotHang)
              | (l, Some (Inl err)) \<Rightarrow> (w1\<lparr>Space := l\<rparr>, GotError err)
              | (l, Some (Inr path)) \<Rightarrow> (w1\<lparr>Space := l\<rparr>, GotSession)))"

definition download_source ::
  "'seg task_env \<Rightarrow> task_config \<Rightarrow> remote_config option \<Rightarrow> agent_task \<Rightarrow> task_world \<Rightarrow> task_world \<times> got" where
  "download_source e cfg rc t w =
     (let job = job_of_task t; opts = Some (dl_options cfg rc t); temp = P_TempDir (TC cfg);
          file = DownloadPrivateTorrentBytes (e_below95 e) (e_free e) (TSeed cfg) temp job opts (e_len e) (e_dl_start e) (e_dl e);
          cache = DownloadCachedTorrentBytes (e_below95 e) (e_free e) (TSeed cfg) temp job opts (e_len e) (e_dl_start e) (e_dl e);
          magnet = downloadMagnet (e_below95 e) (e_free e) (TSeed cfg) temp job opts (e_len e) (e_dl_start e) (e_dl e)
      in if from_site t
         then (case e_fetch e of
                 Inl err \<Rightarrow> (w, GotError (LibError err))
               | Inr blob \<Rightarrow> if blob = [] then (w, GotNothing) else download_by e t file w)
         else
           (let cached = (if K_InfoHash t = [] then [] else case e_cached e of Inr c \<Rightarrow> c | Inl err \<Rightarrow> [])
            in if cached \<noteq> [] then download_by e t cache w
               else download_by e t magnet (w\<lparr>Magnets := Magnets w @ [with_trackers (e_escape e) False (magnet_of t)]\<rparr>)))"

definition too_slow_text :: string where
  "too_slow_text = ''Download too slow '' @ [CHR 0xE2, CHR 0x80, CHR 0x94] @ '' skipping''"

text \<open>A missing session without an error is dereferenced.\<close>

definition download_step ::
  "'seg task_env \<Rightarrow> task_config \<Rightarrow> remote_config option \<Rightarrow> agent_task \<Rightarrow> task_world \<Rightarrow> task_world \<times> (task_end + place \<times> bool)" where
  "download_step e cfg rc t w =
     (case download_source e cfg rc t (say e t ''Downloading'' w) of
        (w1, GotHang) \<Rightarrow> (w1, Inl StillRunning)
      | (w1, GotNothing) \<Rightarrow> (w1, Inl Panicked)
      | (w1, GotError err) \<Rightarrow>
          (if err = SlowDownload then report e t ''Failed'' ''failed'' too_slow_text 0 w1
           else if e_ctx e \<or> err = Cancelled then report e t ''Skipped'' ''failed'' ''Task skipped by user'' 0 w1
           else fail_task e t ''Download error'' (dl_err (e_gb e) err) w1, Inl Finished)
      | (w1, GotSession) \<Rightarrow>
          (op_jobs (OpMeta (job_of_task t) (download_dir (P_TempDir (TC cfg)) (job_of_task t)) [] []) w1,
           Inr (InTemp (dl_name (job_of_task t)), True)))"

text \<open>The place of the content with whether there is a torrent session, or the end of the task.\<close>

definition acquire ::
  "'seg task_env \<Rightarrow> task_config \<Rightarrow> remote_config option \<Rightarrow> agent_task \<Rightarrow> task_world \<Rightarrow> task_world \<times> (task_end + place \<times> bool)" where
  "acquire e cfg rc t w =
     (case resume_place cfg t w of
        Some pl \<Rightarrow> (w, Inr (pl, False))
      | None \<Rightarrow> if TMode cfg = ''watch_folder'' then handoff_step e cfg t w else download_step e cfg rc t w)"

section \<open>The checks before staging\<close>

text \<open>\<^verbatim>\<open>os.Stat\<close> of a declared file, whose path stays below the directory.\<close>

fun stat_at :: "fnode \<Rightarrow> fpath \<Rightarrow> fnode option" where
  "stat_at n [] = resolve n"
| "stat_at n (a # p) =
     (case resolve n of
        Some (FDir xs) \<Rightarrow> (case map_of xs a of Some m \<Rightarrow> stat_at m p | None \<Rightarrow> None)
      | _ \<Rightarrow> None)"

definition path_elems :: "string \<Rightarrow> fpath" where
  "path_elems p = filter (\<lambda>x. x \<noteq> []) (split_on slash (path_clean (slash # p)))"

definition file_missing :: "fnode \<Rightarrow> ExpectedFile \<Rightarrow> bool" where
  "file_missing tree f \<longleftrightarrow> stat_at tree (path_elems (EPath f)) = None"

definition file_truncated :: "fnode \<Rightarrow> ExpectedFile \<Rightarrow> bool" where
  "file_truncated tree f \<longleftrightarrow>
     (case stat_at tree (path_elems (EPath f)) of None \<Rightarrow> False | Some n \<Rightarrow> int (lsize n) < ELength f)"

text \<open>The label and the beginning of the error, without one the staging goes on.\<close>

definition pre_stage_check ::
  "'seg task_env \<Rightarrow> string list \<Rightarrow> string \<Rightarrow> fnode \<Rightarrow> (string \<times> string) option" where
  "pre_stage_check e blocked base tree =
     (let expected = fst (ExpectedAfterBlocklist (e_declared e) (Some blocked))
      in if list_ex (\<lambda>f. file_missing tree f \<or> file_truncated tree f) expected
         then Some (''Pre-stage file check failed'', ''pre-stage file check failed'')
         else (case CountUploadableBytes base tree of
                 (actual, fileCount, r) \<Rightarrow>
                   if r = WNil \<and> e_len e > 0 \<and> e_below80 e actual (e_len e)
                   then Some (''Pre-stage size mismatch'', ''pre-stage size check failed'') else None))"

section \<open>The report of a release\<close>

text \<open>The site's answers to the attempts, each with whether the context is cancelled by then: maintenance
  is waited out, other errors are retried up to three times. The result is the last error, if any;
  without a result the loop goes on.\<close>

fun complete_loop ::
  "'seg task_env \<Rightarrow> agent_task \<Rightarrow> complete_result \<Rightarrow> nat \<Rightarrow> (answer \<times> bool) list \<Rightarrow> task_world
    \<Rightarrow> task_world \<times> string option option" where
  "complete_loop e t m attempts [] w = (w, None)"
| "complete_loop e t m attempts ((a, cancelled) # as) w =
     (let w1 = send m w
      in case a of
           Accepted \<Rightarrow> (w1, Some None)
         | InMaintenance err \<Rightarrow>
             (let w2 = say e t ''Waiting'' w1
              in if cancelled then (w2, Some (Some err)) else complete_loop e t m attempts as w2)
         | Refused err \<Rightarrow>
             if Suc attempts \<ge> 3 then (w1, Some (Some err)) else complete_loop e t m (Suc attempts) as w1)"

definition backup_name :: "agent_task \<Rightarrow> string" where
  "backup_name t = ''backup-request-'' @ itoa (K_RequestID t) @ ''.nzb''"

definition release_result :: "agent_task \<Rightarrow> publishResult \<Rightarrow> complete_result" where
  "release_result t r =
     \<lparr>CLockID = K_LockID t, CRequestID = K_RequestID t, CStatus = ''completed'', CFailReason = [],
      CNzb = NzbData r, CPassword = PPassword r, CDescribed = Described r, CTotalSize = 0\<rparr>"

definition report_release ::
  "'seg task_env \<Rightarrow> task_config \<Rightarrow> agent_task \<Rightarrow> bool \<Rightarrow> publishResult \<Rightarrow> task_world \<Rightarrow> task_world \<times> task_end" where
  "report_release e cfg t session r w =
     (case complete_loop e t (release_result t r) 0 (e_answers e) (say e t ''Reporting'' w) of
        (w1, None) \<Rightarrow> (w1, StillRunning)
      | (w1, Some (Some err)) \<Rightarrow>
          (say e t ''Failed''
             (if e_backup_ok e then put_tree (InTemp (backup_name t)) (FFile (bytes_of (NzbData r))) w1 else w1), Finished)
      | (w1, Some None) \<Rightarrow>
          (let w2 = op_jobs (OpUpdate (job_of_task t) ''Completed'' ''Uploaded and reported to site.'' 0x4059000000000000 (e_stamp e)) w1;
               w3 = w2\<lparr>Aborts := recordSuccess (Aborts w2)\<rparr>
           in if \<not> session then (w3, Finished)
              else (say e t ''Seeding'' w3,
                    case Seed (e_hours e) (e_ratio e) (TSeed cfg) (e_len e) (e_seed_start e) (e_seed e) of
                      Inl u \<Rightarrow> Finished | Inr (Some x) \<Rightarrow> Finished | Inr None \<Rightarrow> StillRunning)))"

section \<open>The pipeline of a task\<close>

definition task_progress :: "'seg task_env \<Rightarrow> agent_task \<Rightarrow> string \<Rightarrow> jobs_map option \<Rightarrow> jobs_map option" where
  "task_progress e t step m =
     (case op_locked (OpUpdate (job_of_task t) step [] 0 (e_stamp e)) m of Some m' \<Rightarrow> m' | None \<Rightarrow> m)"

definition task_publish :: "'seg task_env \<Rightarrow> task_config \<Rightarrow> agent_task \<Rightarrow> string \<Rightarrow> fnode \<Rightarrow> publishJob" where
  "task_publish e cfg t base tree =
     \<lparr>Cfg = TC cfg, JobName = job_of_task t, PTitle = K_Title t, PRequestID = K_RequestID t, ContentRoot = base,
      Content = tree, Describe = True, JProgress = task_progress e t\<rparr>"

text \<open>The tools before the blocklist; their failures are not fatal.\<close>

definition transform :: "'seg task_env \<Rightarrow> agent_task \<Rightarrow> place \<Rightarrow> task_world \<Rightarrow> task_world" where
  "transform e t pl w =
     (let w1 = (if K_Remux t \<noteq> [] \<and> K_Remux t \<noteq> ''none''
                then put_tree pl (e_remux e (the_tree pl w)) (say e t ''Remuxing'' w) else w)
      in if K_Upscale t \<noteq> [] then put_tree pl (e_upscale e (the_tree pl w1)) (say e t ''Upscaling'' w1) else w1)"

definition publish_step ::
  "'seg task_env \<Rightarrow> task_config \<Rightarrow> agent_task \<Rightarrow> bool \<Rightarrow> string \<Rightarrow> fnode \<Rightarrow> task_world \<Rightarrow> task_world \<times> task_end" where
  "publish_step e cfg t session base tree w =
     (case PublishDirectory (e_pub e) (e_media e tree) (task_publish e cfg t base tree) (TW w) of
        (tw, Inl pe) \<Rightarrow> (fail_task e t (Msg pe) (plain_err (Err pe)) (w\<lparr>TW := tw\<rparr>), Finished)
      | (tw, Inr r) \<Rightarrow> report_release e cfg t session r (w\<lparr>TW := tw\<rparr>))"

text \<open>The beginning of the reason when there is nothing to publish.\<close>

definition empty_reason :: "bool \<Rightarrow> string" where
  "empty_reason blocked =
     (if blocked then ''nothing left after blocklist sweep'' else ''download produced no usable files'')"

definition content_step ::
  "'seg task_env \<Rightarrow> task_config \<Rightarrow> agent_task \<Rightarrow> place \<Rightarrow> bool \<Rightarrow> task_world \<Rightarrow> task_world \<times> task_end" where
  "content_step e cfg t pl session w =
     (let base = path_base (place_path (P_TempDir (TC cfg)) pl);
          blocked = OnlineBlocklist (TBanned cfg);
          w1 = transform e t pl w;
          gone = removed_files base (Some blocked) (the_tree pl w1);
          tree = drop_blocked base blocked (the_tree pl w1);
          w2 = put_tree pl tree w1
      in if \<not> DirHasUsableFiles tree
         then (report e t ''Aborted'' ''aborted'' (empty_reason (gone \<noteq> [])) 0 w2, Finished)
         else (case (if session then pre_stage_check e blocked base tree else None) of
                 Some (msg, err) \<Rightarrow> (fail_task e t msg (plain_err err) w2, Finished)
               | None \<Rightarrow> publish_step e cfg t session base tree w2))"

definition task_body ::
  "'seg task_env \<Rightarrow> task_config \<Rightarrow> remote_config option \<Rightarrow> agent_task \<Rightarrow> task_world \<Rightarrow> task_world \<times> task_end" where
  "task_body e cfg rc t w0 =
     (let w1 = op_jobs (OpUpdate (job_of_task t) ''claimed'' [] 0 (e_stamp e)) w0;
          w2 = say e t ''Initializing'' (op_jobs (OpTitle (job_of_task t) (K_Title t)) w1)
      in case acquire e cfg rc t w2 of
           (w3, Inl r) \<Rightarrow> (w3, r)
         | (w3, Inr (pl, session)) \<Rightarrow>
             if TMode cfg = ''watch_folder'' then content_step e cfg t pl session w3
             else deferred_end (remove_tree pl) (content_step e cfg t pl session) w3)"

definition task_exit :: "agent_task \<Rightarrow> task_world \<Rightarrow> task_world" where
  "task_exit t w = w\<lparr>Space := ReleaseDisk (job_of_task t) (Space w), Cancels := removeAll (job_of_task t) (Cancels w)\<rparr>"

definition processTask ::
  "'seg task_env \<Rightarrow> task_config \<Rightarrow> remote_config option \<Rightarrow> agent_task \<Rightarrow> task_world \<Rightarrow> task_world \<times> task_end" where
  "processTask e cfg rc t w0 =
     (case shouldSkipOversize (e_skip_path e) (e_write e) (e_start e) (K_RequestID t) (Skips w0) of
        (True, sk) \<Rightarrow> (send (verdict t ''aborted'' ''too large for this agent (cooldown)'' 0) (w0\<lparr>Skips := sk\<rparr>), Finished)
      | (False, sk) \<Rightarrow>
          deferred_end (task_exit t) (task_body e cfg rc t)
            (w0\<lparr>Skips := sk, Cancels := List.insert (job_of_task t) (Cancels w0)\<rparr>))"

text \<open>The goroutine of a task: after it, its entry is removed from the map and the orphans are swept.\<close>

definition sweep_after :: "agent_task \<Rightarrow> task_world \<Rightarrow> task_world" where
  "sweep_after t w =
     (case end_of_task (job_of_task t) (map (\<lambda>(n, f). (n, None)) (Temp (TW w))) (JobsMap (TW w)) of
        None \<Rightarrow> w
      | Some (m, gone) \<Rightarrow> w\<lparr>TW := (TW w)\<lparr>JobsMap := m, Temp := filter (\<lambda>(n, f). n \<notin> set gone) (Temp (TW w))\<rparr>\<rparr>)"

definition run_task ::
  "'seg task_env \<Rightarrow> task_config \<Rightarrow> remote_config option \<Rightarrow> agent_task \<Rightarrow> task_world \<Rightarrow> task_world \<times> task_end" where
  "run_task e cfg rc t w =
     (case processTask e cfg rc t w of
        (w', Finished) \<Rightarrow> (sweep_after t w', Finished)
      | (w', r) \<Rightarrow> (w', r))"

section \<open>What the steps keep\<close>

text \<open>A step of a task leaves alone the entries of the other jobs, everything outside of the places \<open>P\<close> and
  the upload slot.\<close>

definition others :: "string \<Rightarrow> jobs_map option \<Rightarrow> jobs_map" where
  "others job m = AList.delete job (entries_of m)"

definition keeps :: "string \<Rightarrow> place set \<Rightarrow> task_world \<Rightarrow> task_world \<Rightarrow> bool" where
  "keeps job P w w' \<longleftrightarrow>
     (jobmap_ok (JobsMap (TW w)) \<longrightarrow> jobmap_ok (JobsMap (TW w')) \<and> others job (JobsMap (TW w')) = others job (JobsMap (TW w)))
     \<and> (\<forall>pl. pl \<notin> P \<longrightarrow> tree_in pl w' = tree_in pl w) \<and> (Slot (TW w') \<longrightarrow> Slot (TW w))"

lemma keeps_refl [simp, intro]: "keeps job P w w"
  by (simp add: keeps_def)

lemma keeps_trans [trans]: "keeps job P w w' \<Longrightarrow> keeps job P w' w'' \<Longrightarrow> keeps job P w w''"
  by (simp add: keeps_def)


lemma keepsD:
  assumes "keeps job P w w'"
  shows "pl \<notin> P \<Longrightarrow> tree_in pl w' = tree_in pl w"
    and "jobmap_ok (JobsMap (TW w)) \<Longrightarrow> jobmap_ok (JobsMap (TW w'))"
    and "jobmap_ok (JobsMap (TW w)) \<Longrightarrow> others job (JobsMap (TW w')) = others job (JobsMap (TW w))"
    and "\<not> Slot (TW w) \<Longrightarrow> \<not> Slot (TW w')"
  using assms by (auto simp: keeps_def)

text \<open>Steps that touch neither the job map nor a tree.\<close>

lemma tree_in_cong: "TW w' = TW w \<Longrightarrow> Outside w' = Outside w \<Longrightarrow> tree_in pl w' = tree_in pl w"
  by (cases pl) simp_all

lemma tree_in_field [simp]:
  "tree_in pl (w\<lparr>Space := a\<rparr>) = tree_in pl w" "tree_in pl (w\<lparr>Sent := b\<rparr>) = tree_in pl w"
  "tree_in pl (w\<lparr>Skips := c\<rparr>) = tree_in pl w" "tree_in pl (w\<lparr>Cancels := d\<rparr>) = tree_in pl w"
  "tree_in pl (w\<lparr>Aborts := f\<rparr>) = tree_in pl w" "tree_in pl (w\<lparr>Skips := c, Cancels := d\<rparr>) = tree_in pl w"
  by (cases pl; simp)+

lemma keeps_cong: "TW w' = TW w \<Longrightarrow> Outside w' = Outside w \<Longrightarrow> keeps job P w w'"
  using tree_in_cong [of w' w] by (simp add: keeps_def)

fun op_name :: "app_op \<Rightarrow> string" where
  "op_name (OpMeta name p pw z) = name"
| "op_name (OpTitle name s) = name"
| "op_name (OpStage name p) = name"
| "op_name (OpUpdate name ph s x now) = name"
| "op_name (OpRemove name) = name"

lemma on_job_others: "on_job name f m = Some m' \<Longrightarrow> others name m' = others name m"
  by (auto simp: on_job_def others_def entries_of_def delete_update_same split: option.splits)

lemma op_locked_others: "op_locked c m = Some m' \<Longrightarrow> others (op_name c) m' = others (op_name c) m"
proof (cases c)
  case (OpUpdate name ph s x now)
  assume r: "op_locked c m = Some m'"
  then obtain js where js: "m = Some js" using OpUpdate by (cases m) auto
  let ?js = "if map_of js name = None then AList.update name (Some (new_job name)) js else js"
  have "on_job name (set_progress ph s x now) (Some ?js) = Some m'" using r OpUpdate js by simp
  from on_job_others [OF this] show ?thesis
    by (simp add: OpUpdate js others_def entries_of_def delete_update_same)
next
  case (OpMeta name p pw z)
  assume r: "op_locked c m = Some m'"
  show ?thesis
  proof (cases "p = [] \<and> pw = [] \<and> z = []")
    case True
    then show ?thesis using r OpMeta by simp
  next
    case False
    then have "on_job name (set_meta p pw z) m = Some m'"
      using r unfolding OpMeta op_locked.simps by (simp only: if_False)
    from on_job_others [OF this] show ?thesis by (simp add: OpMeta)
  qed
next
  case (OpRemove name)
  assume "op_locked c m = Some m'"
  then show ?thesis using OpRemove by (auto simp: others_def entries_of_def delete_idem split: option.splits)
qed (auto dest: on_job_others)

lemma on_jobs_ok:
  assumes "jobmap_ok (JobsMap w)"
  shows "jobmap_ok (JobsMap (on_jobs c w)) \<and> others (op_name c) (JobsMap (on_jobs c w)) = others (op_name c) (JobsMap w)"
proof -
  from assms obtain m where "op_locked c (JobsMap w) = Some m" "jobmap_ok m" by (rule op_locked_ok)
  then show ?thesis using op_locked_others [of c] by (simp add: on_jobs_def)
qed

lemma op_jobs_sel [simp]:
  "Sent (op_jobs c w) = Sent w" "Space (op_jobs c w) = Space w" "Outside (op_jobs c w) = Outside w"
  "WatchFiles (op_jobs c w) = WatchFiles w" "Magnets (op_jobs c w) = Magnets w" "Skips (op_jobs c w) = Skips w"
  "Aborts (op_jobs c w) = Aborts w" "Cancels (op_jobs c w) = Cancels w" "tree_in pl (op_jobs c w) = tree_in pl w"
  "Temp (TW (op_jobs c w)) = Temp (TW w)" "Slot (TW (op_jobs c w)) = Slot (TW w)"
  by (cases pl; simp add: op_jobs_def)+

lemma keeps_op: "op_name c = job \<Longrightarrow> keeps job P w (op_jobs c w)"
  using on_jobs_ok [of "TW w" c] by (auto simp: keeps_def) (auto simp: op_jobs_def)

lemma say_sel [simp]:
  "Sent (say e t ph w) = Sent w" "Space (say e t ph w) = Space w" "Outside (say e t ph w) = Outside w"
  "WatchFiles (say e t ph w) = WatchFiles w" "Magnets (say e t ph w) = Magnets w" "Skips (say e t ph w) = Skips w"
  "Aborts (say e t ph w) = Aborts w" "Cancels (say e t ph w) = Cancels w" "tree_in pl (say e t ph w) = tree_in pl w"
  "Temp (TW (say e t ph w)) = Temp (TW w)" "Slot (TW (say e t ph w)) = Slot (TW w)"
  by (simp_all add: say_def)

text \<open>The rules that carry \<open>keeps\<close> through the steps.\<close>

lemma keeps_op_after: "keeps job P w w' \<Longrightarrow> op_name c = job \<Longrightarrow> keeps job P w (op_jobs c w')"
  using keeps_op keeps_trans by blast

lemma keeps_say: "keeps (job_of_task t) P w w' \<Longrightarrow> keeps (job_of_task t) P w (say e t ph w')"
  by (simp add: say_def keeps_op_after)

lemma keeps_field:
  assumes "keeps job P w w'"
  shows "keeps job P w (w'\<lparr>Space := a\<rparr>)" "keeps job P w (w'\<lparr>WatchFiles := b\<rparr>)" "keeps job P w (w'\<lparr>Sent := c\<rparr>)"
    "keeps job P w (w'\<lparr>Magnets := d\<rparr>)" "keeps job P w (w'\<lparr>Skips := f\<rparr>)" "keeps job P w (w'\<lparr>Aborts := g\<rparr>)"
    "keeps job P w (w'\<lparr>Cancels := h\<rparr>)" "keeps job P w (send m w')"
  using keeps_trans [OF assms keeps_cong] by (simp_all add: send_def)

lemma put_tree_sel [simp]:
  "Sent (put_tree pl n w) = Sent w" "Space (put_tree pl n w) = Space w" "Cancels (put_tree pl n w) = Cancels w"
  "Magnets (put_tree pl n w) = Magnets w" "Aborts (put_tree pl n w) = Aborts w" "Skips (put_tree pl n w) = Skips w"
  "JobsMap (TW (put_tree pl n w)) = JobsMap (TW w)" "Slot (TW (put_tree pl n w)) = Slot (TW w)"
  by (cases pl; simp add: set_temp_def)+

lemma remove_tree_sel [simp]:
  "Sent (remove_tree pl w) = Sent w" "Space (remove_tree pl w) = Space w" "Cancels (remove_tree pl w) = Cancels w"
  "Magnets (remove_tree pl w) = Magnets w" "Aborts (remove_tree pl w) = Aborts w" "Skips (remove_tree pl w) = Skips w"
  "JobsMap (TW (remove_tree pl w)) = JobsMap (TW w)" "Slot (TW (remove_tree pl w)) = Slot (TW w)"
  by (cases pl; simp add: remove_temp_def)+

lemma tree_in_put [simp]: "tree_in q (put_tree pl n w) = (if q = pl then Some n else tree_in q w)"
  by (cases pl; cases q) (simp_all add: update_conv')

lemma tree_in_remove [simp]: "tree_in q (remove_tree pl w) = (if q = pl then None else tree_in q w)"
  by (cases pl; cases q) (simp_all add: delete_conv')

lemma keeps_put: "keeps job P w w' \<Longrightarrow> pl \<in> P \<Longrightarrow> keeps job P w (put_tree pl n w')"
  by (auto simp: keeps_def)

lemma keeps_remove: "keeps job P w w' \<Longrightarrow> pl \<in> P \<Longrightarrow> keeps job P w (remove_tree pl w')"
  by (auto simp: keeps_def)

lemma keeps_report: "keeps (job_of_task t) P w w' \<Longrightarrow> keeps (job_of_task t) P w (report e t ph st re n w')"
  by (simp add: report_def keeps_field keeps_say)

lemmas keeps_basic = keeps_refl keeps_op_after keeps_say keeps_field keeps_put keeps_remove keeps_report

lemma keeps_fail: "keeps (job_of_task t) P w w' \<Longrightarrow> keeps (job_of_task t) P w (fail_task e t msg err w')"
  by (simp add: fail_task_def Let_def keeps_basic)

lemma keeps_handoff:
  "keeps (job_of_task t) P w w' \<Longrightarrow> keeps (job_of_task t) P w (fst (handoff_step e cfg t w'))"
  by (simp add: handoff_step_def Let_def keeps_basic keeps_fail split: sum.split prod.split option.split)



text \<open>Where a task gets its content: the download that is resumed, the directory the torrent client of the
  operator leaves, or the download directory.\<close>

definition done_place :: "task_config \<Rightarrow> agent_task \<Rightarrow> place" where
  "done_place cfg t = place_of (P_TempDir (TC cfg)) (done_target (TDoneDir cfg) (K_InfoHash t))"

definition content_place :: "task_config \<Rightarrow> agent_task \<Rightarrow> task_world \<Rightarrow> place" where
  "content_place cfg t w =
     (case resume_place cfg t w of
        Some pl \<Rightarrow> pl
      | None \<Rightarrow> if TMode cfg = ''watch_folder'' then done_place cfg t else InTemp (dl_name (job_of_task t)))"


lemma wait_path:
  assumes "fst (WaitForHandoffDone quiet timeout doneDir infoHash start ts) = Some (Inr p)"
  shows "p = done_target doneDir infoHash"
proof -
  obtain r beats where r: "wait_loop (or_default quiet 30000000000) start (start + or_default timeout (360 * minute)) None ts = (r, beats)"
    by fastforce
  have "map_option (\<lambda>r. case r of HandoffDone \<Rightarrow> Inr (done_target doneDir infoHash) | HandoffFailed e \<Rightarrow> Inl e) r = Some (Inr p)"
    using assms r by (simp add: WaitForHandoffDone_def)
  then obtain z where "(case z of HandoffDone \<Rightarrow> Inr (done_target doneDir infoHash) | HandoffFailed e \<Rightarrow> Inl e) = Inr p"
    by auto
  then show ?thesis by (cases z) auto
qed

lemma handoff_place:
  assumes "handoff_step e cfg t w = (w', Inr (pl, session))"
  shows "pl = done_place cfg t"
  using assms
  by (auto simp: handoff_step_def done_place_def Let_def dest!: wait_path split: sum.splits option.splits prod.splits)

lemma acquire_place:
  assumes "acquire e cfg rc t w = (w', Inr (pl, session))"
  shows "pl = content_place cfg t w"
  using assms handoff_place [of e cfg t w w' pl session]
  by (auto simp: acquire_def content_place_def download_step_def split: option.splits prod.splits got.splits if_splits)

lemma keeps_transform: "keeps (job_of_task t) P w w' \<Longrightarrow> pl \<in> P \<Longrightarrow> keeps (job_of_task t) P w (transform e t pl w')"
  by (simp add: transform_def Let_def keeps_basic del: put_tree.simps)

lemma task_progress_keeps:
  assumes "jobmap_ok m"
  shows "jobmap_ok (task_progress e t s m) \<and> others (job_of_task t) (task_progress e t s m) = others (job_of_task t) m"
proof -
  let ?c = "OpUpdate (job_of_task t) s [] 0 (e_stamp e)"
  from assms obtain m' where m': "op_locked ?c m = Some m'" "jobmap_ok m'" by (rule op_locked_ok)
  with op_locked_others [OF m'(1)] show ?thesis by (simp add: task_progress_def del: op_locked.simps)
qed

lemma task_publish_sel [simp]:
  "JobName (task_publish e cfg t base tree) = job_of_task t" "JProgress (task_publish e cfg t base tree) = task_progress e t"
  by (simp_all add: task_publish_def)

text \<open>The random names of the pipeline are unused.\<close>

definition pub_names :: "'seg task_env \<Rightarrow> string set" where
  "pub_names e = {stage_name (e_pub e), archive_name (e_pub e), enc_name (e_pub e)}"

definition fresh :: "'seg task_env \<Rightarrow> task_world \<Rightarrow> bool" where
  "fresh e w \<longleftrightarrow> stage_name (e_pub e) \<noteq> archive_name (e_pub e) \<and> (\<forall>n \<in> pub_names e. tree_in (InTemp n) w = None)"

lemma fresh_keeps:
  assumes "fresh e w" and "keeps job P w w'" and "P \<inter> InTemp ` pub_names e = {}"
  shows "fresh e w'"
proof -
  have "tree_in (InTemp n) w' = tree_in (InTemp n) w" if "n \<in> pub_names e" for n
    using keepsD(1) [OF assms(2), of "InTemp n"] assms(3) that by blast
  then show ?thesis using assms(1) by (simp add: fresh_def)
qed

lemma keeps_pipeline:
  assumes "keeps (job_of_task t) P w w'" and "fresh e w'" and "\<not> Slot (TW w')"
  shows "keeps (job_of_task t) P w
     (w'\<lparr>TW := fst (PublishDirectory (e_pub e) (e_media e tree) (task_publish e cfg t base tree) (TW w'))\<rparr>)"
proof -
  let ?job = "task_publish e cfg t base tree" and ?m = "e_media e tree"
  let ?tw = "fst (PublishDirectory (e_pub e) ?m ?job (TW w'))"
  have temp: "map_of (Temp ?tw) = map_of (Temp (TW w')) \<and> \<not> Slot ?tw"
    using assms(2,3) by (intro PublishDirectory_temp) (simp_all add: fresh_def pub_names_def)
  have tree: "tree_in pl (w'\<lparr>TW := ?tw\<rparr>) = tree_in pl w'" for pl
    using temp by (cases pl) simp_all
  let ?P = "\<lambda>m. jobmap_ok m \<and> others (job_of_task t) m = others (job_of_task t) (JobsMap (TW w'))"
  have "?P (JobsMap ?tw)" if ok: "jobmap_ok (JobsMap (TW w'))"
  proof (rule PublishDirectory_jobs)
    show "?P (JobsMap (TW w'))" using ok by simp
    show "?P (JProgress ?job step m)" if "?P m" for step m using that task_progress_keeps [of m e t step] by simp
    show "?P (JobsMap (on_jobs (OpStage (JobName ?job) p) w))" if "?P (JobsMap w)" for p w
      using that on_jobs_ok [of w "OpStage (job_of_task t) p"] by simp
  qed
  then have "keeps (job_of_task t) P w' (w'\<lparr>TW := ?tw\<rparr>)" using temp tree by (simp add: keeps_def)
  with assms(1) show ?thesis by (rule keeps_trans)
qed

lemma keeps_complete_loop:
  "keeps (job_of_task t) P w w' \<Longrightarrow> keeps (job_of_task t) P w (fst (complete_loop e t m n as w'))"
proof (induction as arbitrary: n w')
  case (Cons x as)
  obtain a c where x: "x = (a, c)" by fastforce
  show ?case using Cons by (cases a) (simp_all add: x Let_def keeps_basic)
qed simp

lemma keeps_report_release:
  assumes "keeps (job_of_task t) P w w'" and "InTemp (backup_name t) \<in> P"
  shows "keeps (job_of_task t) P w (fst (report_release e cfg t session r w'))"
proof -
  obtain w1 q where c: "complete_loop e t (release_result t r) 0 (e_answers e) (say e t ''Reporting'' w') = (w1, q)" by fastforce
  have "keeps (job_of_task t) P w w1"
    using keeps_complete_loop [OF keeps_say [OF assms(1), of e "''Reporting''"], where e = e and m = "release_result t r" and n = 0 and as = "e_answers e"] c
    by simp
  then show ?thesis using c assms(2)
    by (simp add: report_release_def Let_def keeps_basic split: option.split del: put_tree.simps)
qed

text \<open>The content after the removal of the blocked files, and the world with it.\<close>

definition swept_tree :: "'seg task_env \<Rightarrow> task_config \<Rightarrow> agent_task \<Rightarrow> place \<Rightarrow> task_world \<Rightarrow> fnode" where
  "swept_tree e cfg t pl w =
     drop_blocked (path_base (place_path (P_TempDir (TC cfg)) pl)) (OnlineBlocklist (TBanned cfg)) (the_tree pl (transform e t pl w))"

definition swept_world :: "'seg task_env \<Rightarrow> task_config \<Rightarrow> agent_task \<Rightarrow> place \<Rightarrow> task_world \<Rightarrow> task_world" where
  "swept_world e cfg t pl w = put_tree pl (swept_tree e cfg t pl w) (transform e t pl w)"

lemma keeps_swept: "keeps (job_of_task t) {pl} w (swept_world e cfg t pl w)"
  by (simp add: swept_world_def keeps_basic keeps_transform del: put_tree.simps)

lemma content_step_swept:
  assumes "fresh e w" and "\<not> Slot (TW w)" and "pl \<notin> InTemp ` pub_names e"
  shows "keeps (job_of_task t) {InTemp (backup_name t)} (swept_world e cfg t pl w) (fst (content_step e cfg t pl session w))"
proof -
  let ?w2 = "swept_world e cfg t pl w" and ?P = "{InTemp (backup_name t)}"
  define base where "base = path_base (place_path (P_TempDir (TC cfg)) pl)"
  define w1 where "w1 = transform e t pl w"
  define tree where "tree = drop_blocked base (OnlineBlocklist (TBanned cfg)) (the_tree pl w1)"
  have w2: "?w2 = put_tree pl tree w1" by (simp add: swept_world_def swept_tree_def w1_def base_def tree_def)
  have f2: "fresh e ?w2" "\<not> Slot (TW ?w2)"
    using fresh_keeps [OF assms(1) keeps_swept] keepsD(4) [OF keeps_swept] assms(2,3) by simp_all
  obtain tw r where p: "PublishDirectory (e_pub e) (e_media e tree) (task_publish e cfg t base tree) (TW ?w2) = (tw, r)" by fastforce
  have "keeps (job_of_task t) ?P ?w2 (?w2\<lparr>TW := tw\<rparr>)"
    using keeps_pipeline [where t = t, OF keeps_refl f2, where cfg = cfg and base = base and tree = tree] p by simp
  then have "keeps (job_of_task t) ?P ?w2 (fst (publish_step e cfg t session base tree ?w2))"
    using p by (cases r) (simp_all add: publish_step_def keeps_fail keeps_report_release)
  then show ?thesis
    by (cases session) (simp_all add: content_step_def Let_def keeps_basic keeps_fail split: option.split
        flip: base_def w1_def tree_def w2)
qed


section \<open>A resumed download\<close>

definition path_in :: "string \<Rightarrow> jobs_map option \<Rightarrow> string" where
  "path_in job m = (case map_of (entries_of m) job of Some (Some prev) \<Rightarrow> DownloadedPath prev | _ \<Rightarrow> [])"

lemma resume_place_path:
  "resume_place cfg t w =
     (let p = path_in (job_of_task t) (JobsMap (TW w)); pl = place_of (P_TempDir (TC cfg)) p
      in if p = [] then None
         else case tree_in pl w of
                None \<Rightarrow> None
              | Some n \<Rightarrow> (case resolve n of
                  None \<Rightarrow> None
                | Some info \<Rightarrow> if is_dir info \<and> ValidatePartialDownload p (Some n) 0 then Some pl else None))"
  by (simp add: resume_place_def path_in_def Let_def split: option.split)

lemma resume_place_start [simp]: "resume_place cfg t (w\<lparr>Skips := sk, Cancels := cs\<rparr>) = resume_place cfg t w"
  by (simp add: resume_place_path Let_def)

lemma path_in_update:
  assumes "op_locked (OpUpdate job ph s x now) m = Some m'"
  shows "path_in job m' = path_in job m"
proof -
  from assms obtain js where js: "m = Some js" by (cases m) auto
  show ?thesis using assms
    by (auto simp: js on_job_def path_in_def entries_of_def update_conv' set_progress_def new_job_def split: if_splits option.splits)
qed

lemma path_in_title: "op_locked (OpTitle job s) m = Some m' \<Longrightarrow> path_in job m' = path_in job m"
  by (auto simp: on_job_def path_in_def entries_of_def update_conv' split: option.splits)

lemma resume_place_op:
  assumes "c = OpUpdate (job_of_task t) ph s x now \<or> c = OpTitle (job_of_task t) s"
  shows "resume_place cfg t (op_jobs c w) = resume_place cfg t w"
proof -
  have "path_in (job_of_task t) (JobsMap (TW (op_jobs c w))) = path_in (job_of_task t) (JobsMap (TW w))"
    using assms path_in_update path_in_title
    by (auto simp: op_jobs_def on_jobs_def simp del: op_locked.simps split: option.split)
  then show ?thesis by (simp add: resume_place_path Let_def)
qed

text \<open>The world in which a task acquires its content.\<close>

definition claimed :: "'seg task_env \<Rightarrow> agent_task \<Rightarrow> task_world \<Rightarrow> task_world" where
  "claimed e t w = say e t ''Initializing''
     (op_jobs (OpTitle (job_of_task t) (K_Title t)) (op_jobs (OpUpdate (job_of_task t) ''claimed'' [] 0 (e_stamp e)) w))"

lemma task_body_claimed:
  "task_body e cfg rc t w =
     (case acquire e cfg rc t (claimed e t w) of
        (w3, Inl r) \<Rightarrow> (w3, r)
      | (w3, Inr (pl, session)) \<Rightarrow>
          if TMode cfg = ''watch_folder'' then content_step e cfg t pl session w3
          else deferred_end (remove_tree pl) (content_step e cfg t pl session) w3)"
  by (simp add: task_body_def claimed_def)

lemma claimed_resume [simp]: "resume_place cfg t (claimed e t w) = resume_place cfg t w"
  by (simp add: claimed_def say_def resume_place_op)

lemma claimed_sel [simp]: "Sent (claimed e t w) = Sent w" "Space (claimed e t w) = Space w" "tree_in pl (claimed e t w) = tree_in pl w"
  "Cancels (claimed e t w) = Cancels w" "Magnets (claimed e t w) = Magnets w" "Slot (TW (claimed e t w)) = Slot (TW w)"
  by (simp_all add: claimed_def)

lemma keeps_claimed: "keeps (job_of_task t) P w w' \<Longrightarrow> keeps (job_of_task t) P w (claimed e t w')"
  by (simp add: claimed_def keeps_basic)


lemma content_place_claimed [simp]: "content_place cfg t (claimed e t w) = content_place cfg t w"
  "content_place cfg t (w\<lparr>Skips := sk, Cancels := cs\<rparr>) = content_place cfg t w"
  by (simp_all add: content_place_def)


section \<open>What a task tells the site\<close>

text \<open>One verdict without a release, or the same release until the end.\<close>

definition rejects :: "agent_task \<Rightarrow> complete_result \<Rightarrow> bool" where
  "rejects t m \<longleftrightarrow> CLockID m = K_LockID t \<and> CRequestID m = K_RequestID t \<and> CStatus m \<in> {''failed'', ''aborted''}
     \<and> CNzb m = [] \<and> CPassword m = []"

definition published :: "'seg task_env \<Rightarrow> task_config \<Rightarrow> agent_task \<Rightarrow> publishResult \<Rightarrow> bool" where
  "published e cfg t r \<longleftrightarrow>
     (\<exists>base t0 tree tw. tree = drop_blocked base (OnlineBlocklist (TBanned cfg)) t0 \<and> DirHasUsableFiles tree
        \<and> snd (PublishDirectory (e_pub e) (e_media e tree) (task_publish e cfg t base tree) tw) = Inr r)"

lemma report_sent: "st \<in> {''failed'', ''aborted''} \<Longrightarrow> \<exists>m. Sent (report e t ph st re n w) = Sent w @ [m] \<and> rejects t m"
  by (auto simp: report_def send_def verdict_def rejects_def)

lemma fail_task_sent: "\<exists>m. Sent (fail_task e t msg err w) = Sent w @ [m] \<and> rejects t m"
  unfolding fail_task_def Let_def
  by (auto simp: report_def send_def verdict_def rejects_def)

text \<open>A release that was reported is accepted by the site or saved in the temporary directory.\<close>

definition kept :: "'seg task_env \<Rightarrow> agent_task \<Rightarrow> publishResult \<Rightarrow> task_world \<Rightarrow> bool" where
  "kept e t r w \<longleftrightarrow> Accepted \<in> fst ` set (e_answers e)
     \<or> (e_backup_ok e \<longrightarrow> tree_in (InTemp (backup_name t)) w = Some (FFile (bytes_of (NzbData r))))"

definition verdict_since :: "'seg task_env \<Rightarrow> task_config \<Rightarrow> agent_task \<Rightarrow> task_world \<Rightarrow> task_world \<Rightarrow> bool" where
  "verdict_since e cfg t w w' \<longleftrightarrow> (\<exists>ms. Sent w' = Sent w @ ms
     \<and> ((\<exists>m. ms = [m] \<and> rejects t m)
        \<or> (\<exists>r. published e cfg t r \<and> ms \<noteq> [] \<and> set ms = {release_result t r} \<and> kept e t r w')))"

lemma verdict_report: "Sent w1 = Sent w \<Longrightarrow> st \<in> {''failed'', ''aborted''} \<Longrightarrow> verdict_since e cfg t w (report e t ph st re n w1)"
  using report_sent [of st e t ph re n w1] by (auto simp: verdict_since_def)

lemma verdict_fail: "Sent w1 = Sent w \<Longrightarrow> verdict_since e cfg t w (fail_task e t msg err w1)"
  using fail_task_sent [of e t msg err w1] by (auto simp: verdict_since_def)

lemma handoff_step_sent:
  assumes "handoff_step e cfg t w = (w', a)" and "Sent w = Sent w0"
  shows "case a of Inl r \<Rightarrow> r \<noteq> Panicked \<and> (r = Finished \<longrightarrow> verdict_since e cfg t w0 w') | Inr b \<Rightarrow> Sent w' = Sent w0"
  using assms
  by (auto simp: handoff_step_def Let_def verdict_report verdict_fail split: sum.splits prod.splits option.splits if_splits)

lemma download_source_sent [simp]: "Sent (fst (download_source e cfg rc t w)) = Sent w"
  by (simp add: download_source_def download_by_def Let_def split: sum.split option.split prod.split del: put_tree.simps)

lemma download_step_sent:
  assumes "download_step e cfg rc t w = (w', a)" and "Sent w = Sent w0"
  shows "case a of Inl r \<Rightarrow> (r = Finished \<longrightarrow> verdict_since e cfg t w0 w') | Inr b \<Rightarrow> Sent w' = Sent w0"
proof -
  obtain w1 g where d: "download_source e cfg rc t (say e t ''Downloading'' w) = (w1, g)" by fastforce
  then have "Sent w1 = Sent w0" using download_source_sent [of e cfg rc t "say e t ''Downloading'' w"] assms(2) by simp
  then show ?thesis using assms(1) d
    by (cases g) (auto simp: download_step_def verdict_report verdict_fail split: if_splits)
qed

lemma acquire_sent:
  assumes "acquire e cfg rc t w = (w', a)" and "Sent w = Sent w0"
  shows "case a of Inl r \<Rightarrow> (r = Finished \<longrightarrow> verdict_since e cfg t w0 w') | Inr b \<Rightarrow> Sent w' = Sent w0"
  using assms handoff_step_sent [of e cfg t w w' a w0] download_step_sent [of e cfg rc t w w' a w0]
  by (auto simp: acquire_def split: option.splits if_splits sum.splits)

lemma transform_sel [simp]: "Sent (transform e t pl w) = Sent w" "Space (transform e t pl w) = Space w"
  "Cancels (transform e t pl w) = Cancels w" "Magnets (transform e t pl w) = Magnets w"
  by (simp_all add: transform_def Let_def del: put_tree.simps)

lemma complete_loop_sent:
  "complete_loop e t m n as w = (w', Some q) \<Longrightarrow> \<exists>k. Sent w' = Sent w @ replicate (Suc k) m"
proof (induction as arbitrary: n w)
  case (Cons x as)
  obtain a c where x: "x = (a, c)" by fastforce
  have step: "\<exists>k. Sent w' = Sent w @ replicate (Suc k) m"
    if "complete_loop e t m n' as w1 = (w', Some q)" and "Sent w1 = Sent w @ [m]" for n' w1
  proof -
    note s1 = that(2)
    from Cons.IH [OF that(1)] obtain k where "Sent w' = Sent w @ replicate (Suc (Suc k)) m" using s1 by auto
    then show ?thesis by blast
  qed
  have one: "\<exists>k. Sent w1 = Sent w @ replicate (Suc k) m" if "Sent w1 = Sent w @ [m]" for w1
    using that by (intro exI [of _ 0]) simp
  show ?case
  proof (cases a)
    case Accepted
    then have "w' = send m w" using Cons.prems by (simp add: x)
    then show ?thesis by (intro one) (simp add: send_def)
  next
    case (InMaintenance s)
    show ?thesis
    proof (cases c)
      case True
      then have "w' = say e t ''Waiting'' (send m w)" using InMaintenance Cons.prems by (simp add: x)
      then show ?thesis by (intro one) (simp add: send_def)
    next
      case False
      then have "complete_loop e t m n as (say e t ''Waiting'' (send m w)) = (w', Some q)"
        using InMaintenance Cons.prems by (simp add: x)
      then show ?thesis by (rule step) (simp add: send_def)
    qed
  next
    case (Refused s)
    show ?thesis
    proof (cases "Suc n \<ge> 3")
      case True
      then have "w' = send m w" using Refused Cons.prems by (simp add: x)
      then show ?thesis by (intro one) (simp add: send_def)
    next
      case False
      then have "complete_loop e t m (Suc n) as (send m w) = (w', Some q)" using Refused Cons.prems by (simp add: x)
      then show ?thesis by (rule step) (simp add: send_def)
    qed
  qed
qed simp

lemma complete_loop_accepted: "complete_loop e t m n as w = (w', Some None) \<Longrightarrow> Accepted \<in> fst ` set as"
proof (induction as arbitrary: n w)
  case (Cons x as)
  then show ?case by (cases x; cases "fst x") (auto simp: Let_def split: if_splits)
qed simp

lemma report_release_sent:
  assumes "report_release e cfg t session r w = (w', Finished)" and "Sent w = Sent w0" and "published e cfg t r"
  shows "verdict_since e cfg t w0 w'"
proof -
  let ?m = "release_result t r"
  obtain w1 q where c: "complete_loop e t ?m 0 (e_answers e) (say e t ''Reporting'' w) = (w1, q)" by fastforce
  then obtain q' where q': "q = Some q'" using assms(1) by (cases q) (auto simp: report_release_def)
  from complete_loop_sent [OF c [unfolded q']] obtain k where k: "Sent w1 = Sent w0 @ replicate (Suc k) ?m"
    using assms(2) by auto
  have "Sent w' = Sent w1" using assms(1) c q'
    by (cases q') (auto simp: report_release_def Let_def simp del: put_tree.simps split: if_splits)
  moreover have "kept e t r w'"
  proof (cases q')
    case None
    then show ?thesis using complete_loop_accepted c q' by (fastforce simp: kept_def)
  next
    case (Some err)
    then show ?thesis using assms(1) c q' by (auto simp: kept_def report_release_def simp del: put_tree.simps tree_in.simps)
  qed
  moreover have "replicate (Suc k) ?m \<noteq> [] \<and> set (replicate (Suc k) ?m) = {?m}" by auto
  ultimately show ?thesis using k assms(3) unfolding verdict_since_def by metis
qed

lemma content_step_sent:
  assumes "content_step e cfg t pl session w = (w', Finished)" and "Sent w = Sent w0"
  shows "verdict_since e cfg t w0 w'"
proof -
  define base where "base = path_base (place_path (P_TempDir (TC cfg)) pl)"
  define w1 where "w1 = transform e t pl w"
  define tree where "tree = drop_blocked base (OnlineBlocklist (TBanned cfg)) (the_tree pl w1)"
  define w2 where "w2 = put_tree pl tree w1"
  have s2: "Sent w2 = Sent w0" using assms(2) by (simp add: w2_def w1_def del: put_tree.simps)
  have pub: "verdict_since e cfg t w0 w'"
    if "publish_step e cfg t session base tree w2 = (w', Finished)" and use: "DirHasUsableFiles tree"
  proof -
    obtain tw r where p: "PublishDirectory (e_pub e) (e_media e tree) (task_publish e cfg t base tree) (TW w2) = (tw, r)" by fastforce
    show ?thesis
    proof (cases r)
      case (Inl pe)
      then show ?thesis using that p s2 by (auto simp: publish_step_def intro: verdict_fail)
    next
      case (Inr r')
      have "snd (PublishDirectory (e_pub e) (e_media e tree) (task_publish e cfg t base tree) (TW w2)) = Inr r'"
        using p Inr by simp
      then have "published e cfg t r'" using use tree_def by (auto simp: published_def)
      moreover have "report_release e cfg t session r' (w2\<lparr>TW := tw\<rparr>) = (w', Finished)"
        using that(1) p Inr by (simp add: publish_step_def)
      ultimately show ?thesis using report_release_sent [of e cfg t session r' "w2\<lparr>TW := tw\<rparr>" w' w0] s2 by simp
    qed
  qed
  show ?thesis using assms(1) s2 pub
    by (cases session) (auto simp: content_step_def Let_def verdict_report verdict_fail
        simp flip: base_def w1_def tree_def w2_def split: option.splits if_splits)
qed

lemma verdict_world:
  assumes "verdict_since e cfg t w w'" and "Sent w'' = Sent w'" and "tree_in (InTemp (backup_name t)) w'' = tree_in (InTemp (backup_name t)) w'"
  shows "verdict_since e cfg t w w''"
  using assms unfolding verdict_since_def kept_def by simp

lemma backup_name_apart: "backup_name t \<noteq> dl_name (job_of_task t)"
  by (simp add: backup_name_def dl_name_def)

lemma task_body_sent:
  assumes "task_body e cfg rc t w = (w', Finished)" and "Sent w = Sent w0"
    and "resume_place cfg t w \<noteq> Some (InTemp (backup_name t))"
  shows "verdict_since e cfg t w0 w'"
proof -
  obtain w1 a where acq: "acquire e cfg rc t (claimed e t w) = (w1, a)" by fastforce
  note sent = acquire_sent [OF acq, of w0]
  show ?thesis
  proof (cases a)
    case (Inl r)
    then show ?thesis using sent acq assms(1,2) by (auto simp: task_body_claimed)
  next
    case (Inr b)
    obtain pl session where b: "b = (pl, session)" by fastforce
    obtain w2 r where c: "content_step e cfg t pl session w1 = (w2, r)" by fastforce
    have r: "r = Finished" and w': "w' = (if TMode cfg = ''watch_folder'' then w2 else remove_tree pl w2)"
      using assms(1) acq Inr b c by (auto simp: task_body_claimed deferred_end_def split: if_splits)
    have v: "verdict_since e cfg t w0 w2" using content_step_sent [OF c [unfolded r]] sent Inr assms(2) by simp
    show ?thesis
    proof (cases "TMode cfg = ''watch_folder''")
      case True
      then show ?thesis using v w' by simp
    next
      case False
      have "pl = InTemp (dl_name (job_of_task t)) \<or> resume_place cfg t w = Some pl"
        using acquire_place [OF acq [unfolded Inr b]] False by (simp add: content_place_def split: option.splits)
      then have "pl \<noteq> InTemp (backup_name t)" using assms(3) backup_name_apart [of t] by auto
      then have "verdict_since e cfg t w0 (remove_tree pl w2)" using verdict_world [OF v, of "remove_tree pl w2"] by simp
      then show ?thesis using w' False by simp
    qed
  qed
qed

lemma task_exit_sel [simp]: "TW (task_exit t w) = TW w" "Sent (task_exit t w) = Sent w" "Outside (task_exit t w) = Outside w"
  "Space (task_exit t w) = ReleaseDisk (job_of_task t) (Space w)" "Cancels (task_exit t w) = removeAll (job_of_task t) (Cancels w)"
  "tree_in pl (task_exit t w) = tree_in pl w"
  by (simp_all add: task_exit_def)

lemma processTask_sent:
  assumes "processTask e cfg rc t w = (w', Finished)" and "resume_place cfg t w \<noteq> Some (InTemp (backup_name t))"
  shows "verdict_since e cfg t w w'"
proof -
  obtain b sk where s: "shouldSkipOversize (e_skip_path e) (e_write e) (e_start e) (K_RequestID t) (Skips w) = (b, sk)" by fastforce
  let ?w = "w\<lparr>Skips := sk, Cancels := List.insert (job_of_task t) (Cancels w)\<rparr>"
  show ?thesis
  proof (cases b)
    case True
    then have "w' = send (verdict t ''aborted'' ''too large for this agent (cooldown)'' 0) (w\<lparr>Skips := sk\<rparr>)"
      using assms(1) s by (simp add: processTask_def)
    then show ?thesis by (auto simp: verdict_since_def rejects_def verdict_def send_def)
  next
    case False
    then obtain w1 where w1: "task_body e cfg rc t ?w = (w1, Finished)" "w' = task_exit t w1"
      using assms(1) s by (auto simp: processTask_def deferred_end_def split: prod.splits if_splits)
    have "verdict_since e cfg t w w1" using task_body_sent [OF w1(1)] assms(2) by simp
    then show ?thesis using w1(2) by (auto intro: verdict_world)
  qed
qed


section \<open>What a task gives back\<close>

lemma report_sel [simp]: "Space (report e t ph st re n w) = Space w" "Cancels (report e t ph st re n w) = Cancels w"
  "Magnets (report e t ph st re n w) = Magnets w" "tree_in pl (report e t ph st re n w) = tree_in pl w"
  by (simp_all add: report_def send_def)

lemma fail_task_sel [simp]: "Space (fail_task e t msg err w) = Space w" "Cancels (fail_task e t msg err w) = Cancels w"
  "Magnets (fail_task e t msg err w) = Magnets w"
  by (simp_all add: fail_task_def Let_def)

lemma complete_loop_sel [simp]:
  "Space (fst (complete_loop e t m n as w)) = Space w" "Cancels (fst (complete_loop e t m n as w)) = Cancels w"
  "Magnets (fst (complete_loop e t m n as w)) = Magnets w"
  by (induction e t m n as w rule: complete_loop.induct) (auto simp: Let_def send_def split: answer.split)

lemma report_release_sel [simp]: "Space (fst (report_release e cfg t session r w)) = Space w"
  "Cancels (fst (report_release e cfg t session r w)) = Cancels w"
  "Magnets (fst (report_release e cfg t session r w)) = Magnets w"
proof -
  obtain w1 q where c: "complete_loop e t (release_result t r) 0 (e_answers e) (say e t ''Reporting'' w) = (w1, q)" by fastforce
  have "Space w1 = Space w" "Cancels w1 = Cancels w" "Magnets w1 = Magnets w"
    using complete_loop_sel [of e t "release_result t r" 0 "e_answers e" "say e t ''Reporting'' w"] c by simp_all
  then show "Space (fst (report_release e cfg t session r w)) = Space w"
    "Cancels (fst (report_release e cfg t session r w)) = Cancels w"
    "Magnets (fst (report_release e cfg t session r w)) = Magnets w"
    using c by (simp_all add: report_release_def Let_def del: put_tree.simps split: option.split)
qed

lemma publish_step_sel [simp]: "Space (fst (publish_step e cfg t session base tree w)) = Space w"
  "Cancels (fst (publish_step e cfg t session base tree w)) = Cancels w"
  "Magnets (fst (publish_step e cfg t session base tree w)) = Magnets w"
  by (simp_all add: publish_step_def split: prod.split sum.split)

lemma content_step_sel [simp]: "Space (fst (content_step e cfg t pl session w)) = Space w"
  "Cancels (fst (content_step e cfg t pl session w)) = Cancels w"
  "Magnets (fst (content_step e cfg t pl session w)) = Magnets w"
  by (simp_all add: content_step_def Let_def del: put_tree.simps split: option.split)

text \<open>The ledger of a world, the job's reservation apart.\<close>

definition same_space :: "string \<Rightarrow> task_world \<Rightarrow> task_world \<Rightarrow> bool" where
  "same_space job w w' \<longleftrightarrow>
     (Space w' = Space w \<or> (\<exists>n. Space w' = ReserveDisk job n (Space w))) \<and> Cancels w' = Cancels w"

definition reserves :: "string \<Rightarrow> (ledger \<Rightarrow> ledger \<times> 'r) \<Rightarrow> bool" where
  "reserves job f \<longleftrightarrow> (\<forall>l. fst (f l) = l \<or> (\<exists>n. fst (f l) = ReserveDisk job n l))"

lemma preflight_reserves: "fst (preflight eff job n l) = l \<or> fst (preflight eff job n l) = ReserveDisk job n l"
  by (simp add: preflight_def Let_def split: option.split)

lemma download_fst:
  "fst (downloadTorrentFile b eff so temp job len st es l) = fst (preflight eff job len l)"
  "fst (downloadMagnet b eff so temp job opts len st es l) = fst (preflight eff job len l)"
  by (simp_all add: downloadTorrentFile_def downloadMagnet_def split: prod.split option.split)

lemma downloads_reserve:
  "reserves job (DownloadPrivateTorrentBytes b eff so temp job opts len st es)"
  "reserves job (DownloadCachedTorrentBytes b eff so temp job opts len st es)"
  "reserves job (downloadMagnet b eff so temp job opts len st es)"
  using preflight_reserves [of eff job len]
  by (auto simp: reserves_def DownloadPrivateTorrentBytes_def DownloadCachedTorrentBytes_def download_fst)

lemma download_by_space:
  assumes "reserves (job_of_task t) f"
  shows "same_space (job_of_task t) w (fst (download_by e t f w))"
proof -
  have "fst (f (Space w)) = Space w \<or> (\<exists>n. fst (f (Space w)) = ReserveDisk (job_of_task t) n (Space w))"
    using assms by (simp add: reserves_def)
  then show ?thesis
    by (auto simp: same_space_def download_by_def Let_def simp del: put_tree.simps split: option.split prod.split sum.split)
qed

lemma download_source_space: "same_space (job_of_task t) w (fst (download_source e cfg rc t w))"
proof -
  have "same_space (job_of_task t) w (fst (download_by e t f (w\<lparr>Magnets := x\<rparr>)))" if "reserves (job_of_task t) f" for f x
    using download_by_space [OF that, of "w\<lparr>Magnets := x\<rparr>" e] by (simp add: same_space_def)
  moreover have "same_space (job_of_task t) w w" by (simp add: same_space_def)
  ultimately show ?thesis
    by (simp add: download_source_def Let_def download_by_space downloads_reserve split: sum.split)
qed

lemma acquire_space: "same_space (job_of_task t) w (fst (acquire e cfg rc t w))"
proof -
  have hand: "same_space (job_of_task t) w (fst (handoff_step e cfg t w))"
    by (simp add: same_space_def handoff_step_def Let_def split: sum.split prod.split option.split)
  obtain w1 g where d: "download_source e cfg rc t (say e t ''Downloading'' w) = (w1, g)" by fastforce
  have "same_space (job_of_task t) w w1"
    using download_source_space [of t "say e t ''Downloading'' w" e cfg rc] d by (simp add: same_space_def)
  then have "same_space (job_of_task t) w (fst (download_step e cfg rc t w))"
    using d by (cases g) (simp_all add: download_step_def same_space_def)
  then show ?thesis using hand by (simp add: acquire_def same_space_def split: option.split)
qed

lemma task_body_space:
  assumes "task_body e cfg rc t w = (w', r)"
  shows "same_space (job_of_task t) w w'"
proof -
  obtain w1 a where acq: "acquire e cfg rc t (claimed e t w) = (w1, a)" by fastforce
  have sp: "same_space (job_of_task t) w w1"
    using acquire_space [of t "claimed e t w" e cfg rc] acq by (simp add: same_space_def)
  show ?thesis
  proof (cases a)
    case (Inl r')
    then show ?thesis using sp acq assms by (simp add: task_body_claimed)
  next
    case (Inr b)
    obtain pl session where b: "b = (pl, session)" by fastforce
    obtain w2 r' where c: "content_step e cfg t pl session w1 = (w2, r')" by fastforce
    have "Space w2 = Space w1" "Cancels w2 = Cancels w1"
      using content_step_sel [of e cfg t pl session w1] c by simp_all
    then show ?thesis using sp acq Inr b c assms
      by (auto simp: same_space_def task_body_claimed deferred_end_def simp del: remove_tree.simps split: if_splits)
  qed
qed

text \<open>After the sweep.\<close>

lemma map_of_filter_fst: "map_of (filter (\<lambda>(n, f). P n) xs) k = (if P k then map_of xs k else None)"
  by (induction xs) auto


lemma sweep_after_sel [simp]: "Sent (sweep_after t w) = Sent w" "Space (sweep_after t w) = Space w" "Cancels (sweep_after t w) = Cancels w"
  "Outside (sweep_after t w) = Outside w"
  by (simp_all add: sweep_after_def split: option.split prod.split)

lemma sweep_after_backup: "tree_in (InTemp (backup_name t)) (sweep_after t w) = tree_in (InTemp (backup_name t)) w"
proof -
  have "\<not> sweep_matches False (backup_name t)" by (simp add: sweep_matches_def backup_name_def has_prefix_def)
  then have "backup_name t \<notin> set (SweepOrphanDownloads js entries)" for js entries
    by (auto simp: SweepOrphanDownloads_def sweepWithMinAge_def Let_def)
  then show ?thesis by (auto simp: sweep_after_def end_of_task_def map_of_filter_fst split: option.split)
qed

section \<open>A concrete task\<close>

definition demo_task :: agent_task where
  "demo_task = \<lparr>K_RequestID = 7, K_LockID = 70, K_Title = ''Film'', K_InfoHash = ''AB'', K_Boost = 0, K_Private = True,
     K_FileURL = ''u'', K_Remux = [], K_Upscale = []\<rparr>"

definition demo_task_env :: "bytes \<Rightarrow> (answer \<times> bool) list \<Rightarrow> string task_env" where
  "demo_task_env blob answers =
     \<lparr>e_start = 0, e_fail = 9, e_stamp = ''12:00:00'', e_skip_path = False, e_write = Written, e_fetch = Inr blob,
      e_cached = Inr [], e_hand = (True, None, True), e_wait_start = 0, e_wait = [], e_ctx = False,
      e_below95 = percent_below95, e_below80 = (\<lambda>a b. 100 * a < 80 * b), e_gb = (\<lambda>n. ''1.0''), e_escape = (\<lambda>s. s),
      e_lib = None, e_len = 2, e_free = None, e_dl_start = 0, e_dl = [WaitAllDone],
      e_dl_tree = Some (FDir [(''a.mkv'', FFile [1, 2]), (''x.exe'', FFile [3])]),
      e_declared = [\<lparr>EPath = ''a.mkv'', ELength = 2\<rparr>, \<lparr>EPath = ''x.exe'', ELength = 1\<rparr>],
      e_remux = (\<lambda>n. n), e_upscale = (\<lambda>n. n), e_pub = demo_env, e_media = (\<lambda>n. demo_media), e_answers = answers,
      e_backup_ok = True, e_hours = (\<lambda>x. 0), e_ratio = (\<lambda>a b. 0), e_seed_start = 0, e_seed = [None]\<rparr>"

definition demo_task_config :: "string \<Rightarrow> task_config" where
  "demo_task_config mode =
     \<lparr>TC = Cfg (demo_job False), TMode = mode, TWatchDir = ''/watch'', TDoneDir = ''/done'', THandoffMins = 60, TSlow = 0,
      TSlowMins = 0, TSeed = \<lparr>UploadKBps = 0, RatioTarget = 0, MaxHours = 0, RequireFull = False, StallMins = 0, ListenPort = 0\<rparr>, TBanned = None\<rparr>"

definition demo_task_world :: task_world where
  "demo_task_world = \<lparr>TW = \<lparr>Temp = [(''dl-request-8'', FDir []), (''stage-old'', FDir [])],
       JobsMap = Some [(''request-8'', Some (new_job ''request-8''))], Slot = False\<rparr>,
     Space = ledger_init, Outside = [], WatchFiles = [], Sent = [], Magnets = [], Skips = oversize_init,
     Aborts = abort_init, Cancels = [''request-8'']\<rparr>"





section \<open>Properties\<close>

text \<open>
  C2. A task that ends has told the site exactly once how: either a single report that gives the request
  back as failed or aborted, without an NZB; or reports, retried until the end, of one and the same
  release, which came out of the publish pipeline over content with usable files and after the removal
  of the blocked ones. The NZB of such a release is not lost: the site has accepted it, or it is saved
  in the temporary directory if that can be written. This holds for every failure on the way.
\<close>

theorem task_one_verdict:
  assumes "run_task e cfg rc t w = (w', Finished)" and "resume_place cfg t w \<noteq> Some (InTemp (backup_name t))"
  shows "\<exists>ms. Sent w' = Sent w @ ms
     \<and> ((\<exists>m. ms = [m] \<and> rejects t m)
        \<or> (\<exists>r. published e cfg t r \<and> ms \<noteq> [] \<and> set ms = {release_result t r} \<and> kept e t r w'))"
proof -
  obtain w1 where w1: "processTask e cfg rc t w = (w1, Finished)" "w' = sweep_after t w1"
    using assms(1) by (auto simp: run_task_def split: prod.splits task_end.splits)
  have "verdict_since e cfg t w w1" using processTask_sent w1(1) assms(2) .
  then have "verdict_since e cfg t w w'" using w1(2) sweep_after_backup [of t w1] by (auto intro: verdict_world)
  then show ?thesis by (simp only: verdict_since_def)
qed

theorem task_one_verdict_witness:
  "case run_task (demo_task_env [1] [(Refused ''x'', False), (Accepted, False)]) (demo_task_config ''builtin'') None
       demo_task demo_task_world of (w', r) \<Rightarrow>
     length (Sent w') = 2 \<and> (\<exists>ms. Sent w' = Sent demo_task_world @ ms
       \<and> ((\<exists>m. ms = [m] \<and> rejects demo_task m)
          \<or> (\<exists>r. published (demo_task_env [1] [(Refused ''x'', False), (Accepted, False)]) (demo_task_config ''builtin'') demo_task r
               \<and> ms \<noteq> [] \<and> set ms = {release_result demo_task r}
               \<and> kept (demo_task_env [1] [(Refused ''x'', False), (Accepted, False)]) demo_task r w')))"
proof -
  let ?e = "demo_task_env [1] [(Refused ''x'', False), (Accepted, False)]" and ?c = "demo_task_config ''builtin''"
  obtain w' r where run: "run_task ?e ?c None demo_task demo_task_world = (w', r)" by fastforce
  have "case run_task ?e ?c None demo_task demo_task_world of (w', r) \<Rightarrow> r = Finished \<and> length (Sent w') = 2" by code_simp
  then have fin: "r = Finished" "length (Sent w') = 2" using run by simp_all
  have "resume_place ?c demo_task demo_task_world = None" by code_simp
  then have "resume_place ?c demo_task demo_task_world \<noteq> Some (InTemp (backup_name demo_task))" by simp
  from task_one_verdict [OF run [unfolded fin(1)] this] fin(2) run show ?thesis by simp
qed

text \<open>
  A task that ends, or panics, leaves the ledger of reserved space and the table of cancellable jobs
  as it found them, whatever it reserved.
\<close>

theorem task_gives_back:
  assumes "processTask e cfg rc t w = (w', r)" and "r \<noteq> StillRunning"
    and "map_of (reservations (Space w)) (job_of_task t) = None" and "job_of_task t \<notin> set (Cancels w)"
  shows "Space w' = Space w \<and> Cancels w' = Cancels w"
proof -
  obtain b sk where s: "shouldSkipOversize (e_skip_path e) (e_write e) (e_start e) (K_RequestID t) (Skips w) = (b, sk)" by fastforce
  let ?w = "w\<lparr>Skips := sk, Cancels := List.insert (job_of_task t) (Cancels w)\<rparr>"
  show ?thesis
  proof (cases b)
    case True
    then show ?thesis using assms(1) s by (auto simp: processTask_def send_def)
  next
    case False
    obtain w1 r1 where b: "task_body e cfg rc t ?w = (w1, r1)" by fastforce
    have w': "w' = task_exit t w1" using assms(1,2) s False b by (auto simp: processTask_def deferred_end_def)
    have "same_space (job_of_task t) ?w w1" using task_body_space [OF b] .
    then show ?thesis using release_untouched [OF assms(3)] assms(4)
      by (auto simp: w' same_space_def removeAll_id)
  qed
qed

theorem task_gives_back_witness:
  "case processTask (demo_task_env [1] [(Accepted, False)]) (demo_task_config ''builtin'') None demo_task demo_task_world of
     (w', r) \<Rightarrow> Space w' = Space demo_task_world \<and> Cancels w' = Cancels demo_task_world"
proof -
  let ?e = "demo_task_env [1] [(Accepted, False)]" and ?c = "demo_task_config ''builtin''"
  obtain w' r where run: "processTask ?e ?c None demo_task demo_task_world = (w', r)" by fastforce
  have "snd (processTask ?e ?c None demo_task demo_task_world) = Finished" by code_simp
  then have "r \<noteq> StillRunning" using run by simp
  moreover have "map_of (reservations (Space demo_task_world)) (job_of_task demo_task) = None"
    "job_of_task demo_task \<notin> set (Cancels demo_task_world)" by code_simp+
  ultimately show ?thesis using task_gives_back [OF run] run by simp
qed

section \<open>The content and the hand-off after a task\<close>

text \<open>A task the cooldown lets through.\<close>

definition let_through :: "'seg task_env \<Rightarrow> agent_task \<Rightarrow> task_world \<Rightarrow> bool" where
  "let_through e t w \<longleftrightarrow> \<not> fst (shouldSkipOversize (e_skip_path e) (e_write e) (e_start e) (K_RequestID t) (Skips w))"

lemma processTask_through:
  assumes "let_through e t w"
  obtains sk where "processTask e cfg rc t w = deferred_end (task_exit t) (task_body e cfg rc t)
      (w\<lparr>Skips := sk, Cancels := List.insert (job_of_task t) (Cancels w)\<rparr>)"
proof -
  obtain b sk where "shouldSkipOversize (e_skip_path e) (e_write e) (e_start e) (K_RequestID t) (Skips w) = (b, sk)" by fastforce
  then show thesis using that [of sk] assms by (cases b) (simp_all add: let_through_def processTask_def)
qed

lemma files_sel [simp]:
  "WatchFiles (put_tree pl n w) = WatchFiles w" "WatchFiles (remove_tree pl w) = WatchFiles w"
  "WatchFiles (send m w) = WatchFiles w" "WatchFiles (report e t ph st re z w) = WatchFiles w"
  "WatchFiles (task_exit t w) = WatchFiles w" "WatchFiles (sweep_after t w) = WatchFiles w"
  "WatchFiles (claimed e t w) = WatchFiles w"
  by (cases pl; simp add: send_def report_def task_exit_def sweep_after_def claimed_def split: option.split prod.split)+

lemma fail_task_files [simp]: "WatchFiles (fail_task e t msg err w) = WatchFiles w"
  by (simp add: fail_task_def Let_def)

lemma complete_loop_files [simp]: "WatchFiles (fst (complete_loop e t m n as w)) = WatchFiles w"
  by (induction e t m n as w rule: complete_loop.induct) (auto simp: Let_def split: answer.split)

lemma report_release_files [simp]: "WatchFiles (fst (report_release e cfg t session r w)) = WatchFiles w"
proof -
  obtain w1 q where c: "complete_loop e t (release_result t r) 0 (e_answers e) (say e t ''Reporting'' w) = (w1, q)" by fastforce
  then have "WatchFiles w1 = WatchFiles w"
    using complete_loop_files [of e t "release_result t r" 0 "e_answers e" "say e t ''Reporting'' w"] by simp
  then show ?thesis using c by (simp add: report_release_def Let_def del: put_tree.simps split: option.split)
qed

lemma publish_step_files [simp]: "WatchFiles (fst (publish_step e cfg t session base tree w)) = WatchFiles w"
  by (simp add: publish_step_def split: prod.split sum.split)

lemma transform_files [simp]: "WatchFiles (transform e t pl w) = WatchFiles w"
  by (simp add: transform_def Let_def del: put_tree.simps)






















section \<open>Where the code does not do what it says\<close>

text \<open>
  An empty torrent file from the site, which \<^verbatim>\<open>FetchTorrentFile\<close> returns without an error for an empty
  reply, makes a private task dereference a session that was never made: the agent panics.
\<close>

theorem empty_torrent_file_panics:
  assumes "let_through e t w" and "resume_place cfg t w = None" and "TMode cfg \<noteq> ''watch_folder''"
    and "from_site t" and "e_fetch e = Inr []"
  shows "snd (processTask e cfg rc t w) = Panicked"
proof -
  from assms(1) obtain sk where
    run: "processTask e cfg rc t w = deferred_end (task_exit t) (task_body e cfg rc t)
      (w\<lparr>Skips := sk, Cancels := List.insert (job_of_task t) (Cancels w)\<rparr>)"
    by (rule processTask_through)
  show ?thesis using assms(2,3,4,5)
    by (simp add: run deferred_end_def task_body_claimed acquire_def download_step_def download_source_def)
qed

theorem empty_torrent_file_panics_witness:
  "snd (processTask (demo_task_env [] []) (demo_task_config ''builtin'') None demo_task demo_task_world) = Panicked"
  by (rule empty_torrent_file_panics; code_simp)

text \<open>
  A private task without a torrent file on the site goes to the library as a public magnet, with the
  public trackers appended, unless the cache of the site has it.
\<close>

theorem private_task_goes_public:
  assumes "let_through e t w" and "resume_place cfg t w = None" and "TMode cfg \<noteq> ''watch_folder''"
    and "K_Private t" and "K_FileURL t = []" and "e_cached e = Inr []"
  shows "with_trackers (e_escape e) False (magnet_of t) \<in> set (Magnets (fst (processTask e cfg rc t w)))"
proof -
  from assms(1) obtain sk where
    run: "processTask e cfg rc t w = deferred_end (task_exit t) (task_body e cfg rc t)
      (w\<lparr>Skips := sk, Cancels := List.insert (job_of_task t) (Cancels w)\<rparr>)"
    by (rule processTask_through)
  let ?w = "w\<lparr>Skips := sk, Cancels := List.insert (job_of_task t) (Cancels w)\<rparr>"
  let ?m = "with_trackers (e_escape e) False (magnet_of t)"
  obtain w1 g where d: "download_source e cfg rc t (say e t ''Downloading'' (claimed e t ?w)) = (w1, g)" by fastforce
  have "?m \<in> set (Magnets (fst (download_source e cfg rc t v)))" for v
    using assms(5,6) by (simp add: download_source_def from_site_def download_by_def Let_def del: put_tree.simps
        split: option.split prod.split sum.split)
  then have m1: "?m \<in> set (Magnets w1)" using d by (metis fst_conv)
  obtain w2 a where s: "download_step e cfg rc t (claimed e t ?w) = (w2, a)" by fastforce
  have m2: "?m \<in> set (Magnets w2)" using s d m1 by (cases g) (auto simp: download_step_def split: if_splits)
  obtain w3 r where b: "task_body e cfg rc t ?w = (w3, r)" by fastforce
  have "?m \<in> set (Magnets w3)"
  proof (cases a)
    case (Inl r')
    then show ?thesis using b s m2 assms(2,3) by (simp add: task_body_claimed acquire_def)
  next
    case (Inr x)
    obtain pl session where x: "x = (pl, session)" by fastforce
    then have "w3 = (if r = StillRunning then fst (content_step e cfg t pl session w2)
        else remove_tree pl (fst (content_step e cfg t pl session w2)))"
      using b s Inr assms(2,3) by (auto simp: task_body_claimed acquire_def deferred_end_def split: prod.splits)
    then show ?thesis using m2 by simp
  qed
  then show ?thesis by (simp add: run deferred_end_def b task_exit_def)
qed

theorem private_task_goes_public_witness:
  "with_trackers (\<lambda>s. s) False (magnet_of (demo_task\<lparr>K_FileURL := []\<rparr>))
     \<in> set (Magnets (fst (processTask (demo_task_env [] [(Accepted, False)]) (demo_task_config ''builtin'') None
         (demo_task\<lparr>K_FileURL := []\<rparr>) demo_task_world)))"
proof -
  let ?e = "demo_task_env [] [(Accepted, False)]" and ?c = "demo_task_config ''builtin''" and ?t = "demo_task\<lparr>K_FileURL := []\<rparr>"
  have "let_through ?e ?t demo_task_world" "resume_place ?c ?t demo_task_world = None" "TMode ?c \<noteq> ''watch_folder''"
    "K_Private ?t" "K_FileURL ?t = []" "e_cached ?e = Inr []" by code_simp+
  from private_task_goes_public [OF this, of None] show ?thesis by (simp add: demo_task_env_def)
qed

text \<open>
  In the watch-folder mode the content stays with the torrent client of the operator, but the removal of
  the blocked files is done in it: of the tree the client seeds, exactly the files with a blocked
  extension are gone afterwards, whatever became of the task.
\<close>

theorem watch_folder_deletes_blocked:
  assumes acq: "acquire e cfg rc t (claimed e t w) = (w1, Inr (Elsewhere p, session))"
    and mode: "TMode cfg = ''watch_folder''" and plain: "K_Remux t = []" "K_Upscale t = []"
    and tree: "tree_in (Elsewhere p) w1 = Some t0" "wf_tree t0" "readable no_skip [] t0" "is_dir t0"
    and free: "fresh e w1" "\<not> Slot (TW w1)"
  shows "file_at (the_tree (Elsewhere p) (fst (task_body e cfg rc t w))) q
     = (if q \<noteq> [] \<and> lower_ext (last q) \<in> set (OnlineBlocklist (TBanned cfg)) then None else file_at t0 q)"
proof -
  let ?pl = "Elsewhere p" and ?fin = "fst (task_body e cfg rc t w)"
  have tr: "transform e t ?pl w1 = w1" using plain by (simp add: transform_def)
  have "?pl \<notin> InTemp ` pub_names e" by auto
  note k = content_step_swept [OF free this, of t cfg session]
  have "?fin = fst (content_step e cfg t ?pl session w1)" by (simp add: task_body_claimed acq mode)
  then have "tree_in ?pl ?fin = tree_in ?pl (swept_world e cfg t ?pl w1)" using keepsD(1) [OF k, of ?pl] by simp
  also have "\<dots> = Some (swept_tree e cfg t ?pl w1)" by (simp add: swept_world_def del: put_tree.simps tree_in.simps)
  finally have "the_tree ?pl ?fin = drop_blocked (path_base p) (OnlineBlocklist (TBanned cfg)) t0"
    using tree(1) by (simp add: the_tree_def swept_tree_def tr del: tree_in.simps)
  then show ?thesis using drop_blocked_files [OF tree(2-4)] by simp
qed

theorem watch_folder_deletes_blocked_witness:
  "let e = (demo_task_env [1] [(Accepted, False)])\<lparr>e_wait := [\<lparr>w_clock = 1, w_cancelled = False, w_seen = DoneDir 3 0\<rparr>,
        \<lparr>w_clock = 60000000000, w_cancelled = False, w_seen = DoneDir 3 0\<rparr>]\<rparr>;
      w = demo_task_world\<lparr>Outside := [(''/done/ab'', FDir [(''a.mkv'', FFile [1, 2]), (''x.exe'', FFile [3])])]\<rparr>;
      w' = fst (task_body e (demo_task_config ''watch_folder'') None demo_task w)
   in file_at (the_tree (Elsewhere ''/done/ab'') w') [''x.exe''] = None"
proof -
  let ?e = "(demo_task_env [1] [(Accepted, False)])\<lparr>e_wait := [\<lparr>w_clock = 1, w_cancelled = False, w_seen = DoneDir 3 0\<rparr>,
        \<lparr>w_clock = 60000000000, w_cancelled = False, w_seen = DoneDir 3 0\<rparr>]\<rparr>"
  let ?t0 = "FDir [(''a.mkv'', FFile [1, 2]), (''x.exe'', FFile [3])]"
  let ?w = "demo_task_world\<lparr>Outside := [(''/done/ab'', ?t0)]\<rparr>" and ?c = "demo_task_config ''watch_folder''"
  obtain w1 a where acq: "acquire ?e ?c None demo_task (claimed ?e demo_task ?w) = (w1, a)" by fastforce
  have "snd (acquire ?e ?c None demo_task (claimed ?e demo_task ?w)) = Inr (Elsewhere ''/done/ab'', False)" by code_simp
  then have a: "a = Inr (Elsewhere ''/done/ab'', False)" using acq by simp
  have k: "keeps (job_of_task demo_task) {} ?w (fst (acquire ?e ?c None demo_task (claimed ?e demo_task ?w)))"
  proof -
    have "resume_place ?c demo_task ?w = None" by code_simp
    then show ?thesis by (simp add: acquire_def keeps_handoff keeps_claimed demo_task_config_def)
  qed
  then have k1: "keeps (job_of_task demo_task) {} ?w w1" using acq by simp
  have "fresh ?e ?w"
    by (simp add: fresh_def pub_names_def demo_task_env_def demo_env_def stage_name_def archive_name_def enc_name_def demo_task_world_def)
  then have f: "fresh ?e w1" by (rule fresh_keeps [OF _ k1]) simp
  have "\<not> Slot (TW ?w)" by (simp add: demo_task_world_def)
  then have sl: "\<not> Slot (TW w1)" by (rule keepsD(4) [OF k1])
  have t0: "tree_in (Elsewhere ''/done/ab'') w1 = Some ?t0" using keepsD(1) [OF k1, of "Elsewhere ''/done/ab''"] by simp
  have bl: "lower_ext (last [''x.exe'']) \<in> set (OnlineBlocklist (TBanned ?c))" by code_simp
  have "TMode ?c = ''watch_folder''" "K_Remux demo_task = []" "K_Upscale demo_task = []"
    by (simp_all add: demo_task_config_def demo_task_def)
  from watch_folder_deletes_blocked [OF acq [unfolded a] this t0 _ _ _ f sl, of "[''x.exe'']"] bl
  show ?thesis by (simp add: Let_def readable_def no_skip_def)
qed

text \<open>
  The path of a download is kept in the state across restarts, the mode it was made in is not: after a
  change from the watch-folder mode to the built-in client, a task that resumes in the directory of the
  torrent client deletes that directory when it ends.
\<close>

theorem resumed_directory_deleted:
  assumes "let_through e t w" and "resume_place cfg t w = Some pl" and "TMode cfg \<noteq> ''watch_folder''"
    and "snd (processTask e cfg rc t w) \<noteq> StillRunning"
  shows "tree_in pl (fst (processTask e cfg rc t w)) = None"
proof -
  from assms(1) obtain sk where
    run: "processTask e cfg rc t w = deferred_end (task_exit t) (task_body e cfg rc t)
      (w\<lparr>Skips := sk, Cancels := List.insert (job_of_task t) (Cancels w)\<rparr>)"
    by (rule processTask_through)
  let ?w = "w\<lparr>Skips := sk, Cancels := List.insert (job_of_task t) (Cancels w)\<rparr>"
  obtain w2 r where c: "content_step e cfg t pl False (claimed e t ?w) = (w2, r)" by fastforce
  show ?thesis using assms(2,3,4) c
    by (auto simp: run deferred_end_def task_body_claimed acquire_def split: prod.splits if_splits)
qed

theorem resumed_directory_deleted_witness:
  "tree_in (Elsewhere ''/done/ab'') (fst (processTask (demo_task_env [1] [(Accepted, False)]) (demo_task_config ''builtin'') None demo_task
     (demo_task_world\<lparr>TW := (TW demo_task_world)\<lparr>JobsMap := Some [(''request-7'', Some ((new_job ''request-7'')\<lparr>DownloadedPath := ''/done/ab''\<rparr>))]\<rparr>,
        Outside := [(''/done/ab'', FDir [(''a.mkv'', FFile [1, 2])])]\<rparr>))) = None"
  by (rule resumed_directory_deleted) code_simp+

text \<open>
  A request that did not fit on the disk is given back at once, without a download, when the site sends
  it again within half an hour; it never counts towards the pause.
\<close>

theorem oversize_redispatch:
  assumes "err_short err \<noteq> None" and "Skips w2 = Skips (fail_task e t msg err w)"
    and "K_RequestID t2 = K_RequestID t" and "e_start e2 \<le> e_fail e + oversizeSkipTTL"
  shows "Aborts (fail_task e t msg err w) = Aborts w
     \<and> processTask e2 cfg rc t2 w2 = (send (verdict t2 ''aborted'' ''too large for this agent (cooldown)'' 0) w2, Finished)"
proof -
  have "map_of (skip (Skips w2)) (K_RequestID t) = Some (e_fail e + oversizeSkipTTL)"
    using assms(1,2) by (simp add: fail_task_def Let_def markOversize_def saveOversizeSkipLocked_def update_conv' split: file_write.split)
  then have "shouldSkipOversize (e_skip_path e2) (e_write e2) (e_start e2) (K_RequestID t2) (Skips w2) = (True, Skips w2)"
    using assms(3,4) by (simp add: shouldSkipOversize_def)
  then show ?thesis using assms(1) by (simp add: processTask_def fail_task_def Let_def report_def send_def)
qed

theorem oversize_redispatch_witness:
  "let e = demo_task_env [1] []; w = fail_task e demo_task ''Download error'' (dl_err (\<lambda>n. ''1.0'') (DiskShortfall 90 5)) demo_task_world
   in Aborts w = Aborts demo_task_world
      \<and> processTask e (demo_task_config ''builtin'') None demo_task w
          = (send (verdict demo_task ''aborted'' ''too large for this agent (cooldown)'' 0) w, Finished)"
  unfolding Let_def by (rule oversize_redispatch) (simp_all add: demo_task_env_def oversizeSkipTTL_def)

end
