(* ===== verification/Poll.thy ===== *)
theory Poll
  imports Config Task
begin

text \<open>
  The poll loop of the agent (\<^verbatim>\<open>main\<close> of \<^verbatim>\<open>cmd/agent/main.go\<close>) with the directives of the site, the table of
  the active tasks, the answers of \<^verbatim>\<open>Poll\<close> (\<^verbatim>\<open>client/client.go\<close>) and the backfill of saved NZBs.
  \<open>poll_iter\<close> is one iteration: what it observes is in \<open>poll_input\<close>, what it decides is to sleep, to
  begin a task or to quit. \<open>agent_step\<close> interleaves the iterations with the tasks that end. Durations
  are nanoseconds. Percentages and gigabytes are rationals.
\<close>

section \<open>The answer of the site\<close>

text \<open>The decoders of the bodies are parameters.\<close>

record poll_codec =
  dec_poll :: "string \<Rightarrow> (agent_task \<times> string \<times> string) option"
  dec_maintenance :: "string \<Rightarrow> (bool \<times> u64 \<times> string) option"
  dec_upgrade :: "string \<Rightarrow> string"

datatype poll_error = UpgradeRequired string | Maintenance u64 string | PollFailed string

record poll_result =
  PTask :: "agent_task option"
  Reason :: string
  Command :: string

datatype http_reply = NoReply string | Reply int string

definition no_result :: poll_result where
  "no_result = \<lparr>PTask = None, Reason = [], Command = []\<rparr>"

definition Poll :: "poll_codec \<Rightarrow> http_reply \<Rightarrow> poll_error + poll_result" where
  "Poll c reply =
     (case reply of
        NoReply err \<Rightarrow> Inl (PollFailed (''poll request failed: '' @ err))
      | Reply status body \<Rightarrow>
          if status = 204 then Inr (no_result\<lparr>Reason := ''no content (legacy 204)''\<rparr>)
          else if status = 401 then Inl (PollFailed (''unauthorized '' @ [CHR 0xE2, CHR 0x80, CHR 0x94] @ '' check your AGENT_TOKEN''))
          else if status = 403 then Inl (PollFailed (''BLOCKED: '' @ body @ '' (approve new IP in Account Settings on the site)''))
          else if status = 426 then Inl (UpgradeRequired (dec_upgrade c body))
          else if status = 503 then
            (case dec_maintenance c body of
               Some (True, eta, why) \<Rightarrow> Inl (Maintenance eta why)
             | _ \<Rightarrow> Inl (PollFailed (''poll returned 503: '' @ body)))
          else if status \<noteq> 200 then Inl (PollFailed (''poll returned '' @ itoa status @ '': '' @ body))
          else (case dec_poll c body of
                  None \<Rightarrow> Inl (PollFailed ''decode poll response'')
                | Some (task, why, command) \<Rightarrow>
                    if command \<noteq> [] then Inr (no_result\<lparr>Command := command\<rparr>)
                    else if why \<noteq> [] then Inr (no_result\<lparr>Reason := why\<rparr>)
                    else if K_RequestID task = 0 then Inr (no_result\<lparr>Reason := ''empty response (no request_id)''\<rparr>)
                    else Inr (no_result\<lparr>PTask := Some task\<rparr>)))"

text \<open>The wait of a maintenance, computed in 64 bits (\<^verbatim>\<open>time.Duration\<close>), and its limits.\<close>

definition maintenance_wait :: "u64 \<Rightarrow> u64" where
  "maintenance_wait eta =
     (let w0 = (eta + 15) * 1000000000;
          w1 = (if sint w0 < 30000000000 then 30000000000 else w0)
      in if sint w1 > 600000000000 then 600000000000 else w1)"

section \<open>State\<close>

record poll_config = remote_config +
  R_MaxConcurrent :: int
  R_CpuMax :: int
  R_MaxDiskGB :: rat
  R_Banned :: "string list"
  R_Web :: "tier option"

record directive =
  D_ID :: int
  D_Kind :: string
  D_Payload :: "string + (string \<times> string) list"

text \<open>What is posted to the site's log.\<close>

datatype post =
  PostCpu rat rat
| PostPause int
| PostUpgrade string
| PostError string
| PostShutdown
| PostReason string
| PostPicked int string

text \<open>\<open>Interval\<close> is the pause between two polls, fixed when the agent starts.\<close>

record poll_state =
  PCfg :: "rat config"
  Interval :: int
  PLayered :: "layered option"
  YmlFile :: "string list"
  maxDL :: int
  diskMaxBytes :: u64
  Banned :: "string list option"
  Active :: "int list"
  PAborts :: abort_state
  PReserved :: int
  LastReason :: string
  Acks :: "(int \<times> string) list"
  Posts :: "post list"

record poll_params =
  q_parse :: "string \<Rightarrow> rat option"
  q_defs :: "rat \<times> rat \<times> rat"
  q_env :: "string \<Rightarrow> string option"
  q_gb :: "rat \<Rightarrow> u64"
  q_codec :: poll_codec
  q_start :: int

record poll_input =
  i_done :: bool
  i_config :: "poll_config option"
  i_report_ok :: bool
  i_dirs :: "(directive \<times> string option) list option"
  i_paused :: bool
  i_cpu :: "rat option"
  i_free :: "u64 option"
  i_tree :: fnode
  i_now :: int
  i_reply :: http_reply

section \<open>Directives\<close>

text \<open>\<open>disk\<close> is the error of writing the file, if any.\<close>

definition ack :: "int \<Rightarrow> string \<Rightarrow> poll_state \<Rightarrow> poll_state" where
  "ack i err s = s\<lparr>Acks := Acks s @ [(i, err)]\<rparr>"

definition refresh :: "poll_params \<Rightarrow> layered \<Rightarrow> poll_state \<Rightarrow> poll_state" where
  "refresh p l s = s\<lparr>PCfg := Refresh (q_parse p) (q_defs p) (q_env p) l (PCfg s)\<rparr>"

definition applyDirective :: "poll_params \<Rightarrow> directive \<Rightarrow> string option \<Rightarrow> poll_state \<Rightarrow> poll_state" where
  "applyDirective p d disk s =
     (if D_Kind d = ''write_config'' then
        (case D_Payload d of
           Inl err \<Rightarrow> ack (D_ID d) (''bad payload: '' @ err) s
         | Inr updates \<Rightarrow>
             (case PLayered s of
                None \<Rightarrow> ack (D_ID d) ''layered config not initialised'' s
              | Some l \<Rightarrow>
                  (case WriteYml disk l updates of
                     (l', Inl err) \<Rightarrow> ack (D_ID d) err (s\<lparr>PLayered := Some l'\<rparr>)
                   | (l', Inr (written, file_lines)) \<Rightarrow>
                       ack (D_ID d) [] (refresh p l' (s\<lparr>PLayered := Some l', YmlFile := file_lines\<rparr>)))))
      else ack (D_ID d) (''unknown directive kind: '' @ D_Kind d) s)"

section \<open>The table of active tasks\<close>

definition claimTask :: "int \<Rightarrow> int list \<Rightarrow> int list option" where
  "claimTask i active = (if i \<in> set active then None else Some (i # active))"

definition releaseTask :: "int \<Rightarrow> int list \<Rightarrow> int list" where
  "releaseTask i active = removeAll i active"

section \<open>One iteration\<close>

datatype decision = Quit | Sleep int | Begin agent_task "remote_config option"

definition InitDiskLimit :: "poll_params \<Rightarrow> rat \<Rightarrow> poll_state \<Rightarrow> poll_state" where
  "InitDiskLimit p gb s = (if gb > 0 then s\<lparr>diskMaxBytes := q_gb p gb\<rparr> else s)"

text \<open>The configuration the site has for the agent.\<close>

definition apply_remote :: "poll_params \<Rightarrow> poll_config \<Rightarrow> poll_state \<Rightarrow> poll_state" where
  "apply_remote p rc s =
     (let s1 = (if R_MaxConcurrent rc > 0 then s\<lparr>maxDL := R_MaxConcurrent rc\<rparr> else s);
          s2 = InitDiskLimit p (R_MaxDiskGB rc) s1;
          s3 = s2\<lparr>Banned := SetRemoteBannedExtensions (R_Banned rc)\<rparr>
      in case (R_Web rc, PLayered s3) of
           (Some w, Some l) \<Rightarrow> refresh p (ApplyWeb l w) (s3\<lparr>PLayered := Some (ApplyWeb l w)\<rparr>)
         | _ \<Rightarrow> s3)"

definition cpu_threshold :: "poll_input \<Rightarrow> poll_state \<Rightarrow> rat" where
  "cpu_threshold i s =
     (case i_config i of
        Some rc \<Rightarrow> if R_CpuMax rc > 0 then of_int (R_CpuMax rc) else CPUMaxPercent (PCfg s)
      | None \<Rightarrow> CPUMaxPercent (PCfg s))"

definition local_config_step :: "poll_params \<Rightarrow> poll_input \<Rightarrow> poll_state \<Rightarrow> poll_state" where
  "local_config_step p i s =
     (if PLayered s = None then s
      else (let s1 = (if \<not> i_report_ok i then s\<lparr>LastReason := ''local_config_post''\<rparr> else s)
            in case i_dirs i of
                 None \<Rightarrow> s1
               | Some ds \<Rightarrow> foldl (\<lambda>s (d, disk). applyDirective p d disk s) s1 ds))"

definition prepare_poll :: "poll_params \<Rightarrow> poll_input \<Rightarrow> poll_state \<Rightarrow> poll_state" where
  "prepare_poll p i s =
     local_config_step p i (case i_config i of Some rc \<Rightarrow> apply_remote p rc s | None \<Rightarrow> s)"

text \<open>A message for the site is posted when the reason is not the last one.\<close>

definition with_reason :: "string \<Rightarrow> post list \<Rightarrow> poll_state \<Rightarrow> poll_state" where
  "with_reason why ps s = (if LastReason s = why then s else s\<lparr>LastReason := why, Posts := Posts s @ ps\<rparr>)"

definition drop_reason :: "string \<Rightarrow> poll_state \<Rightarrow> poll_state" where
  "drop_reason why s = (if LastReason s = why then s\<lparr>LastReason := []\<rparr> else s)"

definition poll_sleep :: "poll_state \<Rightarrow> int" where
  "poll_sleep s = Interval s"

definition stopGuardDuration :: int where
  "stopGuardDuration = 600000000000"

definition minFreeSpaceGB :: u64 where
  "minFreeSpaceGB = 1"

definition on_result :: "poll_params \<Rightarrow> poll_input \<Rightarrow> poll_result \<Rightarrow> poll_state \<Rightarrow> poll_state \<times> decision" where
  "on_result p i r s =
     (if Command r = ''stop'' then (s, Sleep (poll_sleep s))
      else if Command r = ''stop_after_current'' then
        (if Active s = [] then
           (if i_now i - q_start p < stopGuardDuration then (s, Sleep (poll_sleep s))
            else (s\<lparr>Posts := Posts s @ [PostShutdown]\<rparr>, Quit))
         else (s, Sleep (poll_sleep s)))
      else case PTask r of
             None \<Rightarrow> (if Reason r \<noteq> [] then with_reason (Reason r) [PostReason (Reason r)] s else s, Sleep (poll_sleep s))
           | Some t \<Rightarrow>
               (let s1 = s\<lparr>LastReason := []\<rparr>
                in case claimTask (K_RequestID t) (Active s1) of
                     None \<Rightarrow> (s1, Sleep (poll_sleep s1))
                   | Some active \<Rightarrow>
                       (s1\<lparr>Active := active, Posts := Posts s1 @ [PostPicked (K_RequestID t) (K_Title t)]\<rparr>,
                        Begin t (map_option remote_config.truncate (i_config i)))))"

definition ask :: "poll_params \<Rightarrow> poll_input \<Rightarrow> poll_state \<Rightarrow> poll_state \<times> decision" where
  "ask p i s =
     (case Poll (q_codec p) (i_reply i) of
        Inl (UpgradeRequired msg) \<Rightarrow> (with_reason ''upgrade'' [PostUpgrade msg] s, Sleep 600000000000)
      | Inl (Maintenance eta why) \<Rightarrow> (with_reason ''maintenance'' [] s, Sleep (sint (maintenance_wait eta)))
      | Inl (PollFailed err) \<Rightarrow> (s\<lparr>Posts := Posts s @ [PostError err]\<rparr>, Sleep (poll_sleep s))
      | Inr r \<Rightarrow> on_result p i r (drop_reason ''maintenance'' s))"

definition cpu_high :: "poll_input \<Rightarrow> poll_state \<Rightarrow> rat option" where
  "cpu_high i s =
     (if cpu_threshold i s > 0
      then (case i_cpu i of Some pct \<Rightarrow> if pct > cpu_threshold i s then Some pct else None | None \<Rightarrow> None) else None)"

definition disk_low :: "poll_input \<Rightarrow> poll_state \<Rightarrow> bool" where
  "disk_low i s \<longleftrightarrow>
     (case FreeDiskAfterReservations (i_free i) (diskMaxBytes s) (i_tree i) (PReserved s) of
        Some effective \<Rightarrow> effective < minFreeSpaceGB * 2 ^ 30
      | None \<Rightarrow> False)"

definition poll_iter :: "poll_params \<Rightarrow> poll_input \<Rightarrow> poll_state \<Rightarrow> poll_state \<times> decision" where
  "poll_iter p i s =
     (if i_done i then (s, Quit)
      else
        (let s1 = prepare_poll p i s
         in if i_paused i then (with_reason ''queue_paused'' [] s1, Sleep (poll_sleep s1))
            else
              (let s2 = drop_reason ''queue_paused'' s1
               in if int (length (Active s2)) \<ge> maxDL s2 then (s2, Sleep (poll_sleep s2))
                  else case cpu_high i s of
                         Some pct \<Rightarrow>
                           (with_reason ''cpu_high'' [PostCpu pct (cpu_threshold i s)] s2, Sleep (poll_sleep s2))
                       | None \<Rightarrow>
                           if disk_low i s2 then (with_reason ''disk_low'' [] s2, Sleep (poll_sleep s2))
                           else
                             (let wait = abortPauseRemaining (i_now i) (PAborts s2)
                              in if wait > 0 then (with_reason ''abort_pause'' [PostPause wait] s2, Sleep (poll_sleep s2))
                                 else ask p i (drop_reason ''abort_pause'' s2)))))"

text \<open>The state at the start of the loop.\<close>

definition poll_init :: "poll_params \<Rightarrow> layered \<Rightarrow> string list \<Rightarrow> poll_state" where
  "poll_init p l file_lines =
     (let cfg = newConfigFromLayered (q_parse p) (q_defs p) (q_env p) l;
          s = \<lparr>PCfg = cfg, Interval = sint (word_of_int (PollInterval cfg * 1000000000) :: 64 word), PLayered = Some l, YmlFile = file_lines,
               maxDL = (if MaxConcurrentDownloads cfg < 1 then 1 else MaxConcurrentDownloads cfg), diskMaxBytes = 0,
               Banned = None, Active = [], PAborts = abort_init, PReserved = 0, LastReason = [], Acks = [], Posts = []\<rparr>
      in InitDiskLimit p (MaxDiskUsageGB cfg) s)"

section \<open>The agent\<close>

text \<open>The loop and the tasks it has begun. \<open>Begun\<close> and \<open>Ended\<close> list the requests of the tasks, \<open>Limits\<close>
  the limits of parallel downloads there have been. The tasks change the back-off and the ledger in
  between.\<close>

record agent =
  PS :: poll_state
  Running :: bool
  Begun :: "int list"
  Ended :: "int list"
  Limits :: "int list"

definition agent_init :: "poll_params \<Rightarrow> layered \<Rightarrow> string list \<Rightarrow> agent" where
  "agent_init p l file_lines =
     (let s = poll_init p l file_lines
      in \<lparr>PS = s, Running = True, Begun = [], Ended = [], Limits = [maxDL s]\<rparr>)"

inductive agent_step :: "poll_params \<Rightarrow> agent \<Rightarrow> agent \<Rightarrow> bool" for p where
  agent_iter: "Running a \<Longrightarrow> poll_iter p i (PS a) = (s, d)
     \<Longrightarrow> agent_step p a (a\<lparr>PS := s, Running := (d \<noteq> Quit), Limits := maxDL s # Limits a,
           Begun := (case d of Begin t rc \<Rightarrow> K_RequestID t # Begun a | _ \<Rightarrow> Begun a)\<rparr>)"
| agent_task_end: "i \<in> set (Active (PS a))
     \<Longrightarrow> agent_step p a (a\<lparr>PS := (PS a)\<lparr>Active := releaseTask i (Active (PS a))\<rparr>, Ended := i # Ended a\<rparr>)"
| agent_task_works: "agent_step p a (a\<lparr>PS := (PS a)\<lparr>PAborts := ab, PReserved := r\<rparr>\<rparr>)"

inductive agent_reach :: "poll_params \<Rightarrow> layered \<Rightarrow> string list \<Rightarrow> agent \<Rightarrow> bool" for p l file_lines where
  agent_reach_init: "agent_reach p l file_lines (agent_init p l file_lines)"
| agent_reach_step: "agent_reach p l file_lines a \<Longrightarrow> agent_step p a a' \<Longrightarrow> agent_reach p l file_lines a'"

inductive_cases agent_stepE: "agent_step p a a'"

section \<open>The backfill\<close>

text \<open>The saved NZBs in the temporary directory are submitted again at the next start. \<open>site\<close> is the
  answer to a submission, \<open>rm_ok\<close> whether a file can be removed. The result has the submissions and how many
  succeeded and failed.\<close>

definition is_backup :: "string \<Rightarrow> bool" where
  "is_backup name \<longleftrightarrow> has_prefix name ''backup-request-'' \<and> has_suffix name ''.nzb'' \<and> length name \<ge> 19"

definition backup_id :: "string \<Rightarrow> int option" where
  "backup_id name = go_atoi (trim_suffix (trim_prefix name ''backup-request-'') ''.nzb'')"

definition read_file :: "fnode \<Rightarrow> bytes option" where
  "read_file n = (case resolve n of Some (FFile b) \<Rightarrow> Some b | _ \<Rightarrow> None)"

record backfill =
  BTemp :: "(string \<times> fnode) list"
  Submitted :: "(int \<times> bytes) list"
  BOk :: nat
  BFail :: nat

definition backfill_one :: "(int \<Rightarrow> bytes \<Rightarrow> string + int) \<Rightarrow> (string \<Rightarrow> bool) \<Rightarrow> backfill \<Rightarrow> string \<Rightarrow> backfill" where
  "backfill_one site rm_ok b name =
     (case backup_id name of
        None \<Rightarrow> b
      | Some requestID \<Rightarrow>
          (case Option.bind (map_of (BTemp b) name) read_file of
             None \<Rightarrow> b\<lparr>BFail := Suc (BFail b)\<rparr>
           | Some data \<Rightarrow>
               (let b1 = b\<lparr>Submitted := Submitted b @ [(requestID, data)]\<rparr>
                in case site requestID data of
                     Inl err \<Rightarrow> b1\<lparr>BFail := Suc (BFail b1)\<rparr>
                   | Inr nzbID \<Rightarrow>
                       (if rm_ok name then b1\<lparr>BTemp := AList.delete name (BTemp b1)\<rparr> else b1)\<lparr>BOk := Suc (BOk b1)\<rparr>)))"

definition runBackfill :: "(int \<Rightarrow> bytes \<Rightarrow> string + int) \<Rightarrow> (string \<Rightarrow> bool) \<Rightarrow> (string \<times> fnode) list \<Rightarrow> backfill" where
  "runBackfill site rm_ok temp =
     foldl (backfill_one site rm_ok) \<lparr>BTemp = temp, Submitted = [], BOk = 0, BFail = 0\<rparr>
       (sort (filter is_backup (map fst temp)))"

section \<open>The preparation of an iteration\<close>

lemma refresh_sel [simp]: "Active (refresh p l s) = Active s" "maxDL (refresh p l s) = maxDL s"
  "diskMaxBytes (refresh p l s) = diskMaxBytes s" "PAborts (refresh p l s) = PAborts s" "PReserved (refresh p l s) = PReserved s"
  "Banned (refresh p l s) = Banned s"
  by (simp_all add: refresh_def)

lemma ack_sel [simp]: "Active (ack i err s) = Active s" "maxDL (ack i err s) = maxDL s"
  "diskMaxBytes (ack i err s) = diskMaxBytes s" "PAborts (ack i err s) = PAborts s" "PReserved (ack i err s) = PReserved s"
  "Banned (ack i err s) = Banned s"
  by (simp_all add: ack_def)

lemma applyDirective_sel [simp]: "Active (applyDirective p d disk s) = Active s" "maxDL (applyDirective p d disk s) = maxDL s"
  "diskMaxBytes (applyDirective p d disk s) = diskMaxBytes s" "PAborts (applyDirective p d disk s) = PAborts s"
  "PReserved (applyDirective p d disk s) = PReserved s" "Banned (applyDirective p d disk s) = Banned s"
  by (simp_all add: applyDirective_def split: sum.split option.split prod.split)

lemma directives_sel [simp]:
  "Active (foldl (\<lambda>s (d, disk). applyDirective p d disk s) s ds) = Active s"
  "maxDL (foldl (\<lambda>s (d, disk). applyDirective p d disk s) s ds) = maxDL s"
  "diskMaxBytes (foldl (\<lambda>s (d, disk). applyDirective p d disk s) s ds) = diskMaxBytes s"
  "PAborts (foldl (\<lambda>s (d, disk). applyDirective p d disk s) s ds) = PAborts s"
  "PReserved (foldl (\<lambda>s (d, disk). applyDirective p d disk s) s ds) = PReserved s"
  "Banned (foldl (\<lambda>s (d, disk). applyDirective p d disk s) s ds) = Banned s"
  by (induction ds arbitrary: s) auto

lemma local_config_sel [simp]: "Active (local_config_step p i s) = Active s" "maxDL (local_config_step p i s) = maxDL s"
  "diskMaxBytes (local_config_step p i s) = diskMaxBytes s" "PAborts (local_config_step p i s) = PAborts s"
  "PReserved (local_config_step p i s) = PReserved s" "Banned (local_config_step p i s) = Banned s"
  by (simp_all add: local_config_step_def Let_def split: option.split)

lemma apply_remote_sel [simp]: "Active (apply_remote p rc s) = Active s" "PAborts (apply_remote p rc s) = PAborts s"
  "PReserved (apply_remote p rc s) = PReserved s"
  "maxDL (apply_remote p rc s) = (if R_MaxConcurrent rc > 0 then R_MaxConcurrent rc else maxDL s)"
  "diskMaxBytes (apply_remote p rc s) = (if R_MaxDiskGB rc > 0 then q_gb p (R_MaxDiskGB rc) else diskMaxBytes s)"
  by (simp_all add: apply_remote_def InitDiskLimit_def Let_def split: option.split)

text \<open>The limits in force after the preparation.\<close>

definition limit_now :: "poll_input \<Rightarrow> poll_state \<Rightarrow> int" where
  "limit_now i s = (case i_config i of
     Some rc \<Rightarrow> if R_MaxConcurrent rc > 0 then R_MaxConcurrent rc else maxDL s | None \<Rightarrow> maxDL s)"

definition disk_cap_now :: "poll_params \<Rightarrow> poll_input \<Rightarrow> poll_state \<Rightarrow> u64" where
  "disk_cap_now p i s = (case i_config i of
     Some rc \<Rightarrow> if R_MaxDiskGB rc > 0 then q_gb p (R_MaxDiskGB rc) else diskMaxBytes s | None \<Rightarrow> diskMaxBytes s)"

lemma prepare_sel [simp]: "Active (prepare_poll p i s) = Active s" "PAborts (prepare_poll p i s) = PAborts s"
  "PReserved (prepare_poll p i s) = PReserved s" "maxDL (prepare_poll p i s) = limit_now i s"
  "diskMaxBytes (prepare_poll p i s) = disk_cap_now p i s"
  by (simp_all add: prepare_poll_def limit_now_def disk_cap_now_def split: option.split)

lemma reason_sel [simp]:
  "Active (with_reason why ps s) = Active s" "maxDL (with_reason why ps s) = maxDL s"
  "Active (drop_reason why s) = Active s" "maxDL (drop_reason why s) = maxDL s" "PAborts (drop_reason why s) = PAborts s"
  "PReserved (drop_reason why s) = PReserved s" "diskMaxBytes (drop_reason why s) = diskMaxBytes s"
  by (simp_all add: with_reason_def drop_reason_def)

lemma disk_low_drop [simp]: "disk_low i (drop_reason why s) = disk_low i s"
  by (simp add: disk_low_def)

text \<open>The agent may ask the site for a task.\<close>

definition may_ask :: "poll_params \<Rightarrow> poll_input \<Rightarrow> poll_state \<Rightarrow> bool" where
  "may_ask p i s \<longleftrightarrow> \<not> i_done i \<and> \<not> i_paused i \<and> int (length (Active s)) < limit_now i s
     \<and> (cpu_threshold i s \<le> 0 \<or> (\<forall>pct. i_cpu i = Some pct \<longrightarrow> pct \<le> cpu_threshold i s))
     \<and> (\<forall>n. FreeDiskAfterReservations (i_free i) (disk_cap_now p i s) (i_tree i) (PReserved s) = Some n \<longrightarrow> n \<ge> 2 ^ 30)
     \<and> abortPauseUntil (PAborts s) \<le> i_now i"

lemma Poll_task_command: "Poll c reply = Inr r \<Longrightarrow> PTask r = Some t \<Longrightarrow> Command r = []"
  by (auto simp: Poll_def no_result_def split: http_reply.splits if_splits option.splits prod.splits bool.splits)

lemma cpu_high_None: "cpu_high i s = None \<longleftrightarrow> cpu_threshold i s \<le> 0 \<or> (\<forall>pct. i_cpu i = Some pct \<longrightarrow> pct \<le> cpu_threshold i s)"
  by (auto simp: cpu_high_def not_less split: option.split)

lemma disk_low_prepared: "disk_low i (prepare_poll p i s)
    \<longleftrightarrow> \<not> (\<forall>n. FreeDiskAfterReservations (i_free i) (disk_cap_now p i s) (i_tree i) (PReserved s) = Some n \<longrightarrow> n \<ge> 2 ^ 30)"
  by (auto simp: disk_low_def minFreeSpaceGB_def not_less split: option.split)

lemma pause_over: "abortPauseRemaining now ab > 0 \<longleftrightarrow> \<not> abortPauseUntil ab \<le> now"
  by (simp add: abortPauseRemaining_def Let_def)

text \<open>An iteration sleeps with nothing begun, or it asks.\<close>

lemma poll_iter_cases:
  assumes "\<not> i_done i"
  shows "(\<not> may_ask p i s \<and> (\<exists>s' n. poll_iter p i s = (s', Sleep n) \<and> Active s' = Active s \<and> maxDL s' = limit_now i s))
     \<or> (may_ask p i s \<and> (\<exists>s'. poll_iter p i s = ask p i s' \<and> Active s' = Active s \<and> maxDL s' = limit_now i s))"
proof -
  let ?s1 = "prepare_poll p i s"
  let ?s2 = "drop_reason ''queue_paused'' ?s1"
  note d = poll_iter_def may_ask_def assms Let_def
  consider (paused) "i_paused i" | (full) "\<not> i_paused i" "\<not> int (length (Active s)) < limit_now i s"
    | (cpu) pct where "\<not> i_paused i" "int (length (Active s)) < limit_now i s" "cpu_high i s = Some pct"
    | (disk) "\<not> i_paused i" "int (length (Active s)) < limit_now i s" "cpu_high i s = None" "disk_low i ?s1"
    | (abort) "\<not> i_paused i" "int (length (Active s)) < limit_now i s" "cpu_high i s = None" "\<not> disk_low i ?s1"
        "abortPauseRemaining (i_now i) (PAborts s) > 0"
    | (open_gate) "\<not> i_paused i" "int (length (Active s)) < limit_now i s" "cpu_high i s = None" "\<not> disk_low i ?s1"
        "\<not> abortPauseRemaining (i_now i) (PAborts s) > 0"
    by (cases "cpu_high i s") blast+
  then show ?thesis
  proof cases
    case paused
    then show ?thesis by (simp add: d)
  next
    case full
    then show ?thesis by (simp add: d)
  next
    case cpu
    then have "\<not> (cpu_threshold i s \<le> 0 \<or> (\<forall>pct. i_cpu i = Some pct \<longrightarrow> pct \<le> cpu_threshold i s))"
      using cpu_high_None [of i s] by simp
    then show ?thesis using cpu by (simp add: d)
  next
    case disk
    then show ?thesis using disk_low_prepared [of i p s] by (simp add: d)
  next
    case abort
    then have "\<not> abortPauseUntil (PAborts s) \<le> i_now i" by (simp add: pause_over)
    then show ?thesis using abort by (simp add: d)
  next
    case open_gate
    then have "may_ask p i s" unfolding may_ask_def
      using assms cpu_high_None [of i s] disk_low_prepared [of i p s] pause_over by blast
    moreover have "poll_iter p i s = ask p i (drop_reason ''abort_pause'' ?s2)" using open_gate by (simp add: d)
    ultimately show ?thesis by (intro disjI2 conjI exI [of _ "drop_reason ''abort_pause'' ?s2"]) simp_all
  qed
qed

lemma ask_active:
  "maxDL (fst (ask p i s)) = maxDL s
   \<and> Active (fst (ask p i s)) = (case snd (ask p i s) of Begin t rc \<Rightarrow> K_RequestID t # Active s | _ \<Rightarrow> Active s)"
  by (auto simp: ask_def on_result_def claimTask_def Let_def split: sum.split poll_error.split option.split)

lemma ask_begin:
  "snd (ask p i s) = Begin t rc \<longleftrightarrow> (\<exists>r. Poll (q_codec p) (i_reply i) = Inr r \<and> PTask r = Some t)
     \<and> K_RequestID t \<notin> set (Active s) \<and> rc = map_option remote_config.truncate (i_config i)"
proof (cases "Poll (q_codec p) (i_reply i)")
  case (Inl err)
  then show ?thesis by (cases err) (simp_all add: ask_def)
next
  case (Inr r)
  show ?thesis
  proof (cases "PTask r")
    case None
    then show ?thesis using Inr by (simp add: ask_def on_result_def)
  next
    case (Some t')
    then have "Command r = []" using Poll_task_command Inr by blast
    then show ?thesis using Inr Some by (auto simp: ask_def on_result_def claimTask_def Let_def)
  qed
qed

lemma ask_quit:
  "snd (ask p i s) = Quit \<longleftrightarrow> (\<exists>r. Poll (q_codec p) (i_reply i) = Inr r \<and> Command r = ''stop_after_current'')
     \<and> Active s = [] \<and> i_now i - q_start p \<ge> stopGuardDuration"
  by (auto simp: ask_def on_result_def claimTask_def Let_def split: sum.split poll_error.split option.split)

section \<open>Properties\<close>

text \<open>
  C3. The agent begins a task exactly when nothing speaks against it: no shutdown, no pause by the
  operator or after repeated errors, fewer tasks than the limit in force (the site's, if it sets
  one), the processor and the disk within their limits, and the site offers a task whose request is not being worked
  on. The request is then in the table; otherwise the table is unchanged.
\<close>

theorem poll_begins_iff:
  "(snd (poll_iter p i s) = Begin t rc \<longleftrightarrow>
      may_ask p i s \<and> (\<exists>r. Poll (q_codec p) (i_reply i) = Inr r \<and> PTask r = Some t)
      \<and> K_RequestID t \<notin> set (Active s) \<and> rc = map_option remote_config.truncate (i_config i))
   \<and> Active (fst (poll_iter p i s))
      = (case snd (poll_iter p i s) of Begin t rc \<Rightarrow> K_RequestID t # Active s | Sleep n \<Rightarrow> Active s | Quit \<Rightarrow> Active s)"
proof (cases "i_done i")
  case True
  then show ?thesis by (simp add: poll_iter_def may_ask_def)
next
  case False
  from poll_iter_cases [OF False, of p s] show ?thesis
  proof (elim disjE conjE exE)
    fix s' n assume "\<not> may_ask p i s" "poll_iter p i s = (s', Sleep n)" "Active s' = Active s"
    then show ?thesis by simp
  next
    fix s' assume "may_ask p i s" and eq: "poll_iter p i s = ask p i s'" and act: "Active s' = Active s"
    then show ?thesis using ask_begin [of p i s' t rc] ask_active [of p i s']
      unfolding eq act by (simp split: decision.splits)
  qed
qed

text \<open>
  The agent quits only on a shutdown signal, or when the site asks it to stop after the current
  tasks, no task is active and it has been up for ten minutes: a stop that is left set on the site does
  not make a supervisor restart it in a loop.
\<close>

theorem quits_iff:
  "snd (poll_iter p i s) = Quit \<longleftrightarrow>
     i_done i
     \<or> (may_ask p i s \<and> (\<exists>r. Poll (q_codec p) (i_reply i) = Inr r \<and> Command r = ''stop_after_current'')
        \<and> Active s = [] \<and> i_now i \<ge> q_start p + 600000000000)"
proof (cases "i_done i")
  case True
  then show ?thesis by (simp add: poll_iter_def)
next
  case False
  from poll_iter_cases [OF False, of p s] show ?thesis
  proof (elim disjE conjE exE)
    fix s' n assume "\<not> may_ask p i s" "poll_iter p i s = (s', Sleep n)"
    then show ?thesis using False by simp
  next
    fix s' assume may: "may_ask p i s" and eq: "poll_iter p i s = ask p i s'" and act: "Active s' = Active s"
    show ?thesis using ask_quit [of p i s'] may False unfolding eq act by (auto simp: stopGuardDuration_def)
  qed
qed

section \<open>One task per request\<close>

definition agent_inv :: "agent \<Rightarrow> bool" where
  "agent_inv a \<longleftrightarrow> distinct (Active (PS a)) \<and> mset (Begun a) = mset (Active (PS a)) + mset (Ended a)
     \<and> maxDL (PS a) \<in> set (Limits a) \<and> (\<exists>m \<in> set (Limits a). int (length (Active (PS a))) \<le> max 0 m)"

lemma poll_iter_limit: "\<not> i_done i \<Longrightarrow> snd (poll_iter p i s) = Begin t rc
    \<Longrightarrow> int (length (Active s)) < maxDL (fst (poll_iter p i s))"
  using poll_iter_cases [of i p s] ask_active [of p i] by (auto simp: may_ask_def)

lemma agent_step_inv:
  assumes "agent_step p a a'" and inv: "agent_inv a"
  shows "agent_inv a'"
  using assms(1)
proof (cases rule: agent_step.cases)
  case (agent_iter i s d)
  note pb = poll_begins_iff [of p i "PS a"]
  have other: "agent_inv a'" if "\<forall>t rc. d \<noteq> Begin t rc"
  proof -
    have "Active s = Active (PS a)" using pb agent_iter(3) that by (cases d) auto
    then show ?thesis using inv that agent_iter(1) by (auto simp: agent_inv_def split: decision.split)
  qed
  show ?thesis
  proof (cases d)
    case (Begin t rc)
    have "\<not> i_done i" using agent_iter(3) Begin by (auto simp: poll_iter_def)
    then have lim: "int (length (Active (PS a))) < maxDL s"
      using poll_iter_limit [of i p "PS a" t rc] agent_iter(3) Begin by simp
    have act: "Active s = K_RequestID t # Active (PS a)" "K_RequestID t \<notin> set (Active (PS a))"
      using pb [of t rc] agent_iter(3) Begin by auto
    show ?thesis using inv lim act unfolding agent_iter(1) agent_inv_def by (simp add: Begin)
  qed (use other in simp_all)
next
  case (agent_task_end i)
  have "mset (Active (PS a)) = add_mset i (mset (removeAll i (Active (PS a))))"
    using inv agent_task_end(2) by (simp add: agent_inv_def distinct_remove1_removeAll [symmetric])
  moreover have "int (length (removeAll i (Active (PS a)))) \<le> int (length (Active (PS a)))" by simp
  then have "int (length (Active (PS a))) \<le> max 0 m \<Longrightarrow> int (length (removeAll i (Active (PS a)))) \<le> max 0 m" for m
    by (rule order_trans)
  ultimately show ?thesis using inv unfolding agent_task_end(1) agent_inv_def releaseTask_def
    by (auto simp: distinct_removeAll)
next
  case (agent_task_works ab r)
  then show ?thesis using inv by (simp add: agent_inv_def)
qed

text \<open>
  C4. Whatever the site answers, in every interleaving of the loop with the tasks that end, no request
  is worked on by two tasks at once, no task is forgotten, and there are never more tasks than some
  limit that was in force.
\<close>

theorem one_task_per_request:
  assumes "agent_reach p l file_lines a"
  shows "distinct (Active (PS a)) \<and> mset (Begun a) = mset (Active (PS a)) + mset (Ended a)
     \<and> (\<exists>m \<in> set (Limits a). int (length (Active (PS a))) \<le> max 0 m)"
proof -
  have "agent_inv a" using assms
  proof (induction rule: agent_reach.induct)
    case agent_reach_init
    show ?case by (simp add: agent_inv_def agent_init_def poll_init_def InitDiskLimit_def Let_def)
  next
    case (agent_reach_step a a')
    then show ?case by (simp add: agent_step_inv)
  qed
  then show ?thesis by (simp add: agent_inv_def)
qed

section \<open>The wait of a maintenance\<close>

text \<open>
  Whatever the site announces, in 64 bits, the agent waits between half a minute and ten
  minutes for a maintenance to end; within these limits it waits the announced time and 15 seconds.
\<close>

theorem maintenance_wait_bounds:
  "30000000000 \<le> sint (maintenance_wait eta) \<and> sint (maintenance_wait eta) \<le> 600000000000
   \<and> sint (maintenance_wait eta) = max 30000000000 (min 600000000000 (signed_take_bit 63 ((sint eta + 15) * 1000000000)))"
proof -
  have w: "sint ((eta + 15) * 1000000000) = signed_take_bit 63 ((sint eta + 15) * 1000000000)"
  proof -
    have "(eta + 15) * 1000000000 = word_of_int ((sint eta + 15) * 1000000000)" by simp
    then show ?thesis by (simp only: sint_sbintrunc')  simp
  qed
  have "sint (maintenance_wait eta) = max 30000000000 (min 600000000000 (sint ((eta + 15) * 1000000000)))"
    by (simp add: maintenance_wait_def Let_def)
  then show ?thesis unfolding w by simp
qed

section \<open>The way of a saved NZB\<close>

lemma atoi_itoa:
  assumes "- (2 ^ 63) \<le> i" and "i < 2 ^ 63"
  shows "go_atoi (itoa i) = Some i"
proof -
  have digits: "list_all is_digit (itoa_nat n)" for n using itoa_nat_digits [of n] by (simp add: list_all_iff)
  have hd: "hd (itoa_nat n) \<noteq> CHR ''-''" "hd (itoa_nat n) \<noteq> CHR ''+''" for n
    using bspec [OF itoa_nat_digits hd_in_set [OF itoa_nat_ne [of n]]] by (auto simp: is_digit_def chr_le_def)
  show ?thesis
  proof (cases "i < 0")
    case True
    then show ?thesis using assms digits by (simp add: itoa_def go_atoi_def Let_def)
  next
    case False
    then show ?thesis using assms digits hd by (simp add: itoa_def go_atoi_def Let_def)
  qed
qed

lemma backup_name_id:
  assumes "- (2 ^ 63) \<le> K_RequestID t" and "K_RequestID t < 2 ^ 63"
  shows "backup_id (backup_name t) = Some (K_RequestID t)" and "is_backup (backup_name t)"
proof -
  have n: "backup_name t = ''backup-request-'' @ itoa (K_RequestID t) @ ''.nzb''" by (simp add: backup_name_def)
  have "trim_prefix (backup_name t) ''backup-request-'' = itoa (K_RequestID t) @ ''.nzb''"
    by (simp add: n trim_prefix_def has_prefix_def)
  moreover have "trim_suffix (itoa (K_RequestID t) @ ''.nzb'') ''.nzb'' = itoa (K_RequestID t)"
    unfolding trim_suffix_def has_suffix_def by (simp only: suffixI [OF refl] if_True) simp
  ultimately show "backup_id (backup_name t) = Some (K_RequestID t)"
    using atoi_itoa [OF assms] by (simp add: backup_id_def)
  have "suffix ''.nzb'' ((''backup-request-'' @ itoa (K_RequestID t)) @ ''.nzb'')" by (rule suffixI [OF refl])
  then show "is_backup (backup_name t)" by (simp add: is_backup_def n has_prefix_def has_suffix_def)
qed

lemma backfill_one_other:
  "k \<noteq> name \<Longrightarrow> map_of (BTemp (backfill_one site rm_ok b name)) k = map_of (BTemp b) k"
  by (auto simp: backfill_one_def Let_def delete_conv' split: option.split sum.split)

lemma backfill_submitted_mono: "set (Submitted b) \<subseteq> set (Submitted (backfill_one site rm_ok b name))"
  by (auto simp: backfill_one_def Let_def split: option.split sum.split)

lemma backfill_other:
  "k \<notin> set names \<Longrightarrow> map_of (BTemp (foldl (backfill_one site rm_ok) b names)) k = map_of (BTemp b) k"
proof (induction names arbitrary: b)
  case (Cons n names)
  then show ?case using backfill_one_other [of k n site rm_ok b] by simp
qed simp

lemma backfill_submitted: "set (Submitted b) \<subseteq> set (Submitted (foldl (backfill_one site rm_ok) b names))"
proof (induction names arbitrary: b)
  case (Cons n names)
  then show ?case using backfill_submitted_mono [of b site rm_ok n] by (auto simp: subset_iff)
qed simp

lemma backfill_loop:
  assumes "distinct names" and "name \<in> set names" and "backup_id name = Some i"
    and "map_of (BTemp b) name = Some n" and "read_file n = Some data"
  shows "(i, data) \<in> set (Submitted (foldl (backfill_one site rm_ok) b names))
     \<and> map_of (BTemp (foldl (backfill_one site rm_ok) b names)) name
         = (case site i data of Inl err \<Rightarrow> Some n | Inr nzbID \<Rightarrow> if rm_ok name then None else Some n)"
  using assms(1,2,4)
proof (induction names arbitrary: b)
  case (Cons m names)
  let ?b = "backfill_one site rm_ok b m"
  show ?case
  proof (cases "m = name")
    case True
    have "(i, data) \<in> set (Submitted ?b)"
      using True assms(3,5) Cons.prems(3) by (simp add: backfill_one_def Let_def split: sum.split)
    moreover have "map_of (BTemp ?b) name
        = (case site i data of Inl err \<Rightarrow> Some n | Inr nzbID \<Rightarrow> if rm_ok name then None else Some n)"
      using True assms(3,5) Cons.prems(3) by (simp add: backfill_one_def Let_def delete_conv' split: sum.split)
    ultimately show ?thesis
      using True Cons.prems(1) backfill_submitted [of ?b site rm_ok names] backfill_other [of name names site rm_ok ?b] by auto
  next
    case False
    then have "map_of (BTemp ?b) name = Some n" using Cons.prems(3) backfill_one_other [of name m site rm_ok b] by simp
    from Cons.IH [OF _ _ this] Cons.prems(1,2) False show ?thesis by simp
  qed
qed simp

text \<open>
  C22. A release that could not be reported is not lost: the file the task left is recognised at the next
  start, whatever the number of its request, and its content is submitted under that number. The file
  goes when the site has accepted it, and stays for the start after that otherwise. No other file is touched.
\<close>

theorem backup_resubmitted:
  assumes "- (2 ^ 63) \<le> K_RequestID t" and "K_RequestID t < 2 ^ 63" and "distinct (map fst temp)"
    and "map_of temp (backup_name t) = Some (FFile (bytes_of nzb))"
  shows "(K_RequestID t, bytes_of nzb) \<in> set (Submitted (runBackfill site rm_ok temp))
     \<and> map_of (BTemp (runBackfill site rm_ok temp)) (backup_name t)
         = (case site (K_RequestID t) (bytes_of nzb) of
              Inl err \<Rightarrow> Some (FFile (bytes_of nzb))
            | Inr nzbID \<Rightarrow> if rm_ok (backup_name t) then None else Some (FFile (bytes_of nzb)))
     \<and> (\<forall>k. is_backup k \<or> map_of (BTemp (runBackfill site rm_ok temp)) k = map_of temp k)"
proof -
  let ?names = "sort (filter is_backup (map fst temp))"
  have "distinct ?names" using assms(3) by simp
  moreover have "backup_name t \<in> set ?names"
    using backup_name_id(2) [OF assms(1,2)] map_of_SomeD [OF assms(4)] by force
  ultimately have "(K_RequestID t, bytes_of nzb) \<in> set (Submitted (runBackfill site rm_ok temp))
     \<and> map_of (BTemp (runBackfill site rm_ok temp)) (backup_name t)
         = (case site (K_RequestID t) (bytes_of nzb) of
              Inl err \<Rightarrow> Some (FFile (bytes_of nzb))
            | Inr nzbID \<Rightarrow> if rm_ok (backup_name t) then None else Some (FFile (bytes_of nzb)))"
    unfolding runBackfill_def
    by (intro backfill_loop [OF _ _ backup_name_id(1) [OF assms(1,2)]]) (simp_all add: assms(4) read_file_def)
  moreover have "map_of (BTemp (runBackfill site rm_ok temp)) k = map_of temp k" if "\<not> is_backup k" for k
    unfolding runBackfill_def using backfill_other [of k ?names site rm_ok] that by simp
  ultimately show ?thesis by blast
qed

theorem backup_resubmitted_witness:
  "(7, bytes_of ''nzb'') \<in> set (Submitted (runBackfill (\<lambda>i d. Inr 1) (\<lambda>n. True) [(''backup-request-7.nzb'', FFile (bytes_of ''nzb'')), (''x'', FDir [])]))"
proof -
  have t: "K_RequestID demo_task = 7" "backup_name demo_task = ''backup-request-7.nzb''"
    by (simp_all add: demo_task_def) code_simp
  have "map_of [(''backup-request-7.nzb'', FFile (bytes_of ''nzb'')), (''x'', FDir [])] (backup_name demo_task) = Some (FFile (bytes_of ''nzb''))"
    by (simp add: t)
  from backup_resubmitted [OF _ _ _ this, of "\<lambda>i d. Inr 1" "\<lambda>n. True"] show ?thesis by (simp add: t)
qed

text \<open>
  The site documents \<open>0\<close> as "use the local default", but taking a limit back has no effect: once a poll
  has brought a limit of parallel downloads or of the disk, a configuration without them leaves both as
  they are, whatever the local configuration says and whatever directives change it.
\<close>

theorem limits_not_reset:
  assumes "i_config i = Some rc" and "R_MaxConcurrent rc = 0" and "R_MaxDiskGB rc = 0"
  shows "maxDL (fst (poll_iter p i s)) = maxDL s \<and> diskMaxBytes (prepare_poll p i s) = diskMaxBytes s"
proof -
  have lim: "limit_now i s = maxDL s" "disk_cap_now p i s = diskMaxBytes s" using assms by (simp_all add: limit_now_def disk_cap_now_def)
  show ?thesis
  proof (cases "i_done i")
    case True
    then show ?thesis using lim by (simp add: poll_iter_def)
  next
    case False
    from poll_iter_cases [OF this, of p s] show ?thesis using lim ask_active [of p i] by auto
  qed
qed

section \<open>A concrete loop\<close>

definition demo_params :: poll_params where
  "demo_params = \<lparr>q_parse = (\<lambda>s. None), q_defs = (0, 85, 1 / 20), q_env = (\<lambda>k. None), q_gb = (\<lambda>g. 2 ^ 30),
     q_codec = \<lparr>dec_poll = (\<lambda>b. Some (demo_task, [], [])), dec_maintenance = (\<lambda>b. None), dec_upgrade = (\<lambda>b. b)\<rparr>, q_start = 0\<rparr>"

definition demo_layered :: layered where
  "demo_layered = \<lparr>yml = [], env = [], web = [], writable = True\<rparr>"

definition demo_input :: "poll_config option \<Rightarrow> poll_input" where
  "demo_input rc = \<lparr>i_done = False, i_config = rc, i_report_ok = True, i_dirs = None, i_paused = False, i_cpu = None, i_free = None,
     i_tree = FDir [], i_now = 5, i_reply = Reply 200 []\<rparr>"

theorem one_task_per_request_witness:
  "\<exists>a. agent_reach demo_params demo_layered [] a \<and> Begun a = [7]
     \<and> distinct (Active (PS a)) \<and> mset (Begun a) = mset (Active (PS a)) + mset (Ended a)
     \<and> (\<exists>m \<in> set (Limits a). int (length (Active (PS a))) \<le> max 0 m)"
proof -
  let ?a = "agent_init demo_params demo_layered []" and ?i = "demo_input None"
  obtain s d where it: "poll_iter demo_params ?i (PS ?a) = (s, d)" by fastforce
  have "Poll (q_codec demo_params) (i_reply ?i) = Inr (no_result\<lparr>PTask := Some demo_task\<rparr>)"
    by (simp add: Poll_def demo_params_def demo_input_def demo_task_def)
  moreover have "may_ask demo_params ?i (PS ?a) \<and> K_RequestID demo_task \<notin> set (Active (PS ?a))"
    by (simp add: may_ask_def demo_input_def agent_init_def poll_init_def InitDiskLimit_def Let_def demo_params_def demo_layered_def
        newConfigFromLayered_def layeredFloat_def layeredInt_def Effective_def cpu_threshold_def limit_now_def abort_init_def
        FreeDiskAfterReservations_def)
  ultimately have "snd (poll_iter demo_params ?i (PS ?a)) = Begin demo_task (map_option remote_config.truncate (i_config ?i))"
    using poll_begins_iff [of demo_params ?i "PS ?a" demo_task "map_option remote_config.truncate (i_config ?i)"] by fastforce
  then have d: "d = Begin demo_task None" using it by (simp add: demo_input_def)
  let ?a' = "?a\<lparr>PS := s, Running := (d \<noteq> Quit), Limits := maxDL s # Limits ?a,
      Begun := (case d of Begin t rc \<Rightarrow> K_RequestID t # Begun ?a | _ \<Rightarrow> Begun ?a)\<rparr>"
  have "Running ?a" by (simp add: agent_init_def Let_def)
  then have reach: "agent_reach demo_params demo_layered [] ?a'"
    using agent_reach_step [OF agent_reach_init agent_iter [OF _ it]] by simp
  have "Begun ?a' = [7]" by (simp add: d agent_init_def Let_def demo_task_def)
  with reach one_task_per_request [OF reach] show ?thesis by blast
qed

theorem limits_not_reset_witness:
  "let rc = \<lparr>R_SlowThreshold = 0, R_SlowTimeout = 0, R_LowPeers = 0, R_LowPeersTimeout = 0, R_MaxConcurrent = 0, R_CpuMax = 0,
        R_MaxDiskGB = 0, R_Banned = [], R_Web = Some [(''max_concurrent_downloads'', ''1'')]\<rparr>;
      s = (poll_init demo_params demo_layered [])\<lparr>maxDL := 9, diskMaxBytes := 5\<rparr>
   in maxDL (fst (poll_iter demo_params (demo_input (Some rc)) s)) = maxDL s
      \<and> diskMaxBytes (prepare_poll demo_params (demo_input (Some rc)) s) = diskMaxBytes s"
  unfolding Let_def by (rule limits_not_reset, simp add: demo_input_def) simp_all

end
