(* ===== verification/Database.thy ===== *)
theory Database
  imports SiteGroups Stores
begin

text \<open>
  The rest of the store (\<^verbatim>\<open>storage/offer_paths.go\<close>, \<^verbatim>\<open>storage/scrape_cursors.go\<close>, the migrations of
  \<^verbatim>\<open>storage/db.go\<close>) and the whole store as a transition system: \<open>db_step\<close> has one rule for each
  statement the program issues, and \<open>db_ok\<close> holds in every state it reaches.
\<close>

section \<open>Offer routes\<close>

record OfferSourceRow =
  LocalPath :: string
  TorrentURL :: string
  SourceShort :: string
  SizeBytes :: int

definition no_route :: OfferSourceRow where
  "no_route = \<lparr>LocalPath = [], TorrentURL = [], SourceShort = [], SizeBytes = 0\<rparr>"

definition fill :: "string \<Rightarrow> string \<Rightarrow> string" where
  "fill new old = (if new \<noteq> [] then new else old)"

definition UpsertOfferSource :: "int \<Rightarrow> string \<Rightarrow> string \<Rightarrow> string \<Rightarrow> string \<Rightarrow> int \<Rightarrow> db \<Rightarrow> db" where
  "UpsertOfferSource now hash path url short sz d =
     (if hash = [] \<or> (path = [] \<and> url = []) then d
      else case find_row (\<lambda>r. o_hash r = hash) (offers d) of
        None \<Rightarrow> d\<lparr>offers := offers d @ [\<lparr>o_hash = hash, o_path = path, o_size = sz, o_seen = now, o_torrent = url, o_source = short\<rparr>]\<rparr>
      | Some _ \<Rightarrow>
          d\<lparr>offers := update_where (\<lambda>r. o_hash r = hash)
              (\<lambda>r. r\<lparr>o_path := fill path (o_path r), o_torrent := fill url (o_torrent r),
                     o_source := fill short (o_source r), o_size := sz, o_seen := now\<rparr>) (offers d)\<rparr>)"

definition UpsertOfferPath :: "int \<Rightarrow> string \<Rightarrow> string \<Rightarrow> int \<Rightarrow> db \<Rightarrow> db" where
  "UpsertOfferPath now hash path sz d = UpsertOfferSource now hash path [] [] sz d"

definition UpsertOfferRemote :: "int \<Rightarrow> string \<Rightarrow> string \<Rightarrow> string \<Rightarrow> int \<Rightarrow> db \<Rightarrow> db" where
  "UpsertOfferRemote now hash url short sz d = UpsertOfferSource now hash [] url short sz d"

definition GetOfferSource :: "string \<Rightarrow> db \<Rightarrow> OfferSourceRow" where
  "GetOfferSource hash d =
     (if hash = [] then no_route
      else case find_row (\<lambda>r. o_hash r = hash) (offers d) of
        None \<Rightarrow> no_route
      | Some r \<Rightarrow> \<lparr>LocalPath = o_path r, TorrentURL = o_torrent r, SourceShort = o_source r, SizeBytes = o_size r\<rparr>)"

definition GetOfferPath :: "string \<Rightarrow> db \<Rightarrow> string" where
  "GetOfferPath hash d =
     (if hash = [] then [] else case find_row (\<lambda>r. o_hash r = hash) (offers d) of None \<Rightarrow> [] | Some r \<Rightarrow> o_path r)"

text \<open>Instants in seconds, the resolution of the stored format.\<close>

definition PruneStaleOfferPaths :: "int \<Rightarrow> int \<Rightarrow> db \<Rightarrow> db \<times> nat" where
  "PruneStaleOfferPaths now olderThan d =
     (let age = (if olderThan \<le> 0 then 30 * 24 * 3600 else olderThan)
      in (d\<lparr>offers := delete_where (\<lambda>r. o_seen r < now - age) (offers d)\<rparr>,
          affected (\<lambda>r. o_seen r < now - age) (offers d)))"

section \<open>Scrape cursors\<close>

definition GetScrapeCursor :: "string \<Rightarrow> db \<Rightarrow> int" where
  "GetScrapeCursor short d = (case map_of (cursors d) short of None \<Rightarrow> 0 | Some n \<Rightarrow> n)"

definition SetScrapeCursor :: "string \<Rightarrow> int \<Rightarrow> db \<Rightarrow> db" where
  "SetScrapeCursor short n d =
     (let n' = (if n < 0 then 0 else n)
      in if short \<in> set (map fst (cursors d))
         then d\<lparr>cursors := map (\<lambda>(k, v). (k, if k = short then n' else v)) (cursors d)\<rparr>
         else d\<lparr>cursors := cursors d @ [(short, n')]\<rparr>)"

lemma cursor_map:
  "map_of (cursors (SetScrapeCursor short n d)) q
     = (if q = short then Some (max 0 n) else map_of (cursors d) q)"
proof (cases "short \<in> set (map fst (cursors d))")
  case True
  have "map_of (map (\<lambda>(k, v). (k, if k = short then m else v)) cs) q
      = (if q = short then map_option (\<lambda>_. m) (map_of cs q) else map_of cs q)" for m :: int and cs
    by (induction cs) auto
  moreover have "map_of (cursors d) short \<noteq> None" using True by (simp add: map_of_eq_None_iff)
  ultimately show ?thesis using True by (auto simp: SetScrapeCursor_def Let_def)
next
  case False
  then have "map_of (cursors d) short = None" by (simp add: map_of_eq_None_iff)
  then show ?thesis using False by (auto simp: SetScrapeCursor_def Let_def map_add_def split: option.splits)
qed

interpretation cursor_store: keyed_store
  "\<lambda>d k. map_of (cursors d) k" "\<lambda>k n d. Some (SetScrapeCursor k n d)" "\<lambda>n :: int. 0 \<le> n"
  by unfold_locales (auto simp: cursor_map)

section \<open>Migrations\<close>

text \<open>An entry of the embedded directory is its name and whether it is a directory; \<open>exec\<close> runs a
  migration in a transaction on a schema, \<open>None\<close> when a statement fails.\<close>

definition migration_names :: "(string \<times> bool) list \<Rightarrow> string list" where
  "migration_names entries = sort (map fst (filter (\<lambda>(n, isdir). \<not> isdir \<and> has_suffix n ''.sql'') entries))"

fun run_migrations :: "(string \<Rightarrow> 's \<Rightarrow> 's option) \<Rightarrow> string set \<Rightarrow> string list \<Rightarrow> 's \<times> string list \<Rightarrow> ('s \<times> string list) \<times> string option" where
  "run_migrations exec applied [] st = (st, None)"
| "run_migrations exec applied (n # ns) (s, done') =
     (if n \<in> applied then run_migrations exec applied ns (s, done')
      else case exec n s of
        None \<Rightarrow> ((s, done'), Some n)
      | Some s' \<Rightarrow> if n \<in> set done' then ((s, done'), Some n) else run_migrations exec applied ns (s', done' @ [n]))"

definition migrate :: "(string \<Rightarrow> 's \<Rightarrow> 's option) \<Rightarrow> (string \<times> bool) list \<Rightarrow> 's \<times> string list \<Rightarrow> ('s \<times> string list) \<times> string option" where
  "migrate exec entries st = run_migrations exec (set (snd st)) (migration_names entries) st"

section \<open>The store as a transition system\<close>

text \<open>One rule for each operation the program runs on the store: the pages of the local UI, the site
  synchronisation, the watcher, the processor, and the offer passes.\<close>

inductive db_step :: "db \<Rightarrow> db \<Rightarrow> bool" where
  create_group: "db_step d (fst (CreateGroup now g d))"
| update_group: "db_step d (fst (UpdateGroup now g d))"
| delete_group: "db_step d (fst (DeleteGroup i d))"
| sync: "db_step d (snd (sync_once now resp st d))"
| create_watch: "db_step d (fst (CreateWatch now w d))"
| update_watch: "db_step d (fst (UpdateWatch now w d))"
| delete_watch: "db_step d (fst (DeleteWatch i d))"
| scan: "db_step d (scanAllWatches now readDir d)"
| claim: "db_step d (fst (ClaimNextJob now d))"
| phase: "db_step d (UpdateJobPhase i p pct d)"
| complete: "db_step d (MarkJobCompleted now i nzb pw d)"
| fail: "db_step d (MarkJobFailed now i msg d)"
| retry: "db_step d (fst (ResetQueuedJob i d))"
| requeue: "db_step d (fst (RequeueStuckJobs d))"
| delete_job: "db_step d (fst (DeleteJob i d))"
| offer: "db_step d (UpsertOfferSource now hash path url short sz d)"
| prune: "db_step d (fst (PruneStaleOfferPaths now age d))"
| cursor: "db_step d (SetScrapeCursor short n d)"

inductive db_reach :: "db \<Rightarrow> bool" where
  init: "db_reach empty_db"
| step: "db_reach d \<Longrightarrow> db_step d d' \<Longrightarrow> db_reach d'"

definition watches_ok :: "db \<Rightarrow> bool" where
  "watches_ok d \<longleftrightarrow>
     distinct (map w_id (watches d)) \<and> (\<forall>r \<in> set (watches d). w_id r \<le> watches_seq d)
     \<and> distinct (map w_path (watches d))"

definition refs_ok :: "db \<Rightarrow> bool" where
  "refs_ok d \<longleftrightarrow>
     (\<forall>w \<in> set (watches d). fk_ok (w_group w) d) \<and> (\<forall>j \<in> set (jobs d). fk_ok (j_group j) d)"

definition offers_ok :: "db \<Rightarrow> bool" where
  "offers_ok d \<longleftrightarrow>
     distinct (map o_hash (offers d))
     \<and> (\<forall>r \<in> set (offers d). o_hash r \<noteq> [] \<and> (o_path r \<noteq> [] \<or> o_torrent r \<noteq> []))
     \<and> (\<forall>(s, n) \<in> set (cursors d). 0 \<le> n)"

definition rows_ok :: "db \<Rightarrow> bool" where
  "rows_ok d \<longleftrightarrow> (\<forall>r \<in> set (jobs d). job_row_ok r)"

definition db_ok :: "db \<Rightarrow> bool" where
  "db_ok d \<longleftrightarrow> groups_ok d \<and> watches_ok d \<and> jobs_ok d \<and> rows_ok d \<and> refs_ok d \<and> offers_ok d"

lemmas db_ok_defs = db_ok_def groups_ok_def watches_ok_def jobs_ok_def rows_ok_def refs_ok_def offers_ok_def

subsection \<open>Steps on jobs\<close>

lemma job_rows_step:
  assumes "db_ok d"
    and "\<And>r. j_id (f r) = j_id r \<and> j_source (f r) = j_source r \<and> j_group (f r) = j_group r"
    and "\<And>r. r \<in> set (jobs d) \<Longrightarrow> p r \<Longrightarrow> job_row_ok r \<Longrightarrow> job_row_ok (f r)"
  shows "db_ok (d\<lparr>jobs := update_where p f (jobs d)\<rparr>)"
proof -
  have k: "map j_id (update_where p f (jobs d)) = map j_id (jobs d)"
    "map j_source (update_where p f (jobs d)) = map j_source (jobs d)"
    using assms(2) by (auto simp: update_where_def)
  have g: "j_group (if p s then f s else s) = j_group s" "j_id (if p s then f s else s) = j_id s" for s
    using assms(2) by auto
  show ?thesis
    using assms by (auto simp: db_ok_defs k in_update_where fk_ok_def g split: option.splits)
qed

lemma row_ok_updates:
  "job_row_ok (done_row now nzb pw r)" "job_row_ok (failed_row now msg r)" "job_row_ok (reset_row r)"
  "job_row_ok r \<Longrightarrow> processing r \<Longrightarrow> job_row_ok (requeue_row r)"
  "job_row_ok r \<Longrightarrow> queued r \<Longrightarrow> job_row_ok (start_row now r)"
  "job_row_ok r \<Longrightarrow> job_row_ok (r\<lparr>j_phase := p, j_progress := pct\<rparr>)"
  by (auto simp: job_row_ok_def statuses_def queued_def processing_def done_row_def failed_row_def reset_row_def
      requeue_row_def start_row_def)

lemma job_ops_ok:
  assumes "db_ok d"
  shows "db_ok (UpdateJobPhase i p pct d)" "db_ok (MarkJobCompleted now i nzb pw d)" "db_ok (MarkJobFailed now i msg d)"
    "db_ok (fst (ResetQueuedJob i d))" "db_ok (fst (RequeueStuckJobs d))" "db_ok (fst (DeleteJob i d))"
proof -
  show "db_ok (UpdateJobPhase i p pct d)"
    unfolding UpdateJobPhase_def by (rule job_rows_step [OF assms]) (auto intro: row_ok_updates)
  show "db_ok (MarkJobCompleted now i nzb pw d)"
    unfolding MarkJobCompleted_def by (rule job_rows_step [OF assms]) (auto intro: row_ok_updates)
  show "db_ok (MarkJobFailed now i msg d)"
    unfolding MarkJobFailed_def by (rule job_rows_step [OF assms]) (auto intro: row_ok_updates)
  show "db_ok (fst (ResetQueuedJob i d))"
    unfolding ResetQueuedJob_def fst_conv by (rule job_rows_step [OF assms]) (auto intro: row_ok_updates)
  show "db_ok (fst (RequeueStuckJobs d))"
    unfolding RequeueStuckJobs_def fst_conv by (rule job_rows_step [OF assms]) (auto intro: row_ok_updates)
  show "db_ok (fst (DeleteJob i d))"
    using assms by (auto simp: DeleteJob_def db_ok_defs tables fk_ok_def split: option.splits)
qed

lemma claim_ok:
  assumes "db_ok d"
  shows "db_ok (fst (ClaimNextJob now d))"
proof (cases "next_queued (jobs d)")
  case None
  then show ?thesis using assms by (simp add: ClaimNextJob_def)
next
  case (Some r)
  have "queued s" if "s \<in> set (jobs d)" "j_id s = j_id r" for s
    using next_queued_mem [OF Some] that assms by (auto simp: db_ok_def jobs_ok_def distinct_map dest: inj_onD)
  then have "db_ok (d\<lparr>jobs := update_where (\<lambda>s. j_id s = j_id r) (start_row now) (jobs d)\<rparr>)"
    by (intro job_rows_step [OF assms]) (auto intro: row_ok_updates)
  then show ?thesis by (simp add: ClaimNextJob_def Some Let_def)
qed

lemma create_job_db_ok:
  assumes "db_ok d" and "Status j = []"
  shows "db_ok (fst (CreateOfflineJob now j d))"
  using assms
  by (auto simp: CreateOfflineJob_def Let_def db_ok_defs job_of_def job_row_ok_def statuses_def queued_def processing_def fk_ok_def
      split: option.splits)

lemma scan_entry_ok: "db_ok d \<Longrightarrow> db_ok (scan_entry now w e d)"
  by (auto simp: scan_entry_def intro!: create_job_db_ok) (simp add: watch_job_def)

lemma scan_ok:
  assumes "db_ok d"
  shows "db_ok (scanAllWatches now readDir d)"
proof -
  have one: "db_ok (scanOneWatch now w es d)" if "db_ok d" for w es d
  proof (cases es)
    case (Some xs)
    have "db_ok (foldl (\<lambda>d e. scan_entry now w e d) d xs)"
      using that by (induction xs arbitrary: d) (auto intro: scan_entry_ok)
    then show ?thesis using Some by (simp add: scanOneWatch_def)
  qed (use that in \<open>simp add: scanOneWatch_def\<close>)
  have "db_ok (foldl (\<lambda>d w. scanOneWatch now w (readDir (WPath w)) d) d ws)" for ws
    using assms by (induction ws arbitrary: d) (auto intro: one)
  then show ?thesis by (simp add: scanAllWatches_def)
qed

subsection \<open>Steps on groups and watches\<close>

lemma db_ok_groups:
  assumes "db_ok d" and "groups_ok d'" and "g_id ` set (groups d) \<subseteq> g_id ` set (groups d')"
    and "watches d' = watches d" "watches_seq d' = watches_seq d" "jobs d' = jobs d" "jobs_seq d' = jobs_seq d"
      "offers d' = offers d" "cursors d' = cursors d"
  shows "db_ok d'"
proof -
  have "fk_ok g d \<Longrightarrow> fk_ok g d'" for g using assms(3) by (auto simp: fk_ok_def split: option.splits)
  then show ?thesis
    using assms(1,2,4-) by (auto simp: db_ok_def watches_ok_def jobs_ok_def rows_ok_def refs_ok_def offers_ok_def)
qed

lemma db_ok_delete_group:
  assumes "db_ok d"
  shows "db_ok (delete_group i d)"
proof -
  have k: "map w_id (update_where (\<lambda>w. w_group w = Some i) (\<lambda>w. w\<lparr>w_group := None\<rparr>) (watches d)) = map w_id (watches d)"
    "map w_path (update_where (\<lambda>w. w_group w = Some i) (\<lambda>w. w\<lparr>w_group := None\<rparr>) (watches d)) = map w_path (watches d)"
    "map j_id (update_where (\<lambda>j. j_group j = Some i) (\<lambda>j. j\<lparr>j_group := None\<rparr>) (jobs d)) = map j_id (jobs d)"
    "map j_source (update_where (\<lambda>j. j_group j = Some i) (\<lambda>j. j\<lparr>j_group := None\<rparr>) (jobs d)) = map j_source (jobs d)"
    by (rule update_where_keeps; simp)+
  have r: "job_row_ok (j\<lparr>j_group := None\<rparr>) = job_row_ok j" for j
    by (simp add: job_row_ok_def queued_def processing_def)
  have fk: "fk_ok g d \<Longrightarrow> g \<noteq> Some i \<Longrightarrow> fk_ok g (delete_group i d)" for g
    by (auto simp: fk_ok_def delete_group_groups in_delete_where image_iff split: option.splits)
  have fkN: "fk_ok None (delete_group i d)" by (simp add: fk_ok_def)
  have "groups_ok (delete_group i d)" using assms by (simp add: db_ok_def delete_group_ok)
  moreover have "refs_ok (delete_group i d)"
    unfolding refs_ok_def
  proof
    show "\<forall>w \<in> set (watches (delete_group i d)). fk_ok (w_group w) (delete_group i d)"
      using assms fk fkN by (auto simp: db_ok_def refs_ok_def delete_group_def [of i d] unlink_group_def in_update_where)
    show "\<forall>j \<in> set (jobs (delete_group i d)). fk_ok (j_group j) (delete_group i d)"
      using assms fk fkN by (auto simp: db_ok_def refs_ok_def delete_group_def [of i d] unlink_group_def in_update_where)
  qed
  moreover have "watches_ok (delete_group i d)" "jobs_ok (delete_group i d)" "rows_ok (delete_group i d)" "offers_ok (delete_group i d)"
    using assms
    by (auto simp: db_ok_def watches_ok_def jobs_ok_def rows_ok_def offers_ok_def delete_group_def unlink_group_def k r in_update_where)
  ultimately show ?thesis by (simp add: db_ok_def)
qed

lemma db_ok_insert_group:
  assumes "db_ok d" and "validateGroup g0 = Inr g" and "GName g \<notin> g_name ` set (groups d)"
  shows "db_ok (insert_group v now g d)"
  by (rule db_ok_groups [OF assms(1) insert_group_ok [OF _ assms(2,3)]])
     (use assms(1) in \<open>auto simp: insert_group_def db_ok_def\<close>)

lemma db_ok_update_group:
  assumes "db_ok d" and "groups_ok (update_group i f d)" and "\<And>r. g_id (f r) = g_id r"
  shows "db_ok (update_group i f d)"
proof (rule db_ok_groups [OF assms(1,2)])
  have "map g_id (groups (update_group i f d)) = map g_id (groups d)"
    by (auto simp: update_group_def update_where_def assms(3))
  then show "g_id ` set (groups d) \<subseteq> g_id ` set (groups (update_group i f d))" by (metis list.set_map order_refl)
qed (simp_all add: update_group_def)

lemma upsert_db_ok:
  assumes "db_ok d"
  shows "db_ok (fst (UpsertSiteGroup now g0 d))"
proof -
  have g: "groups_ok d" using assms by (simp add: db_ok_def)
  from g show ?thesis
  proof (cases rule: upsert_cases [of d now g0])
    case (new g)
    then show ?thesis using db_ok_insert_group [OF assms new(1,3)] by simp
  next
    case (upd g r)
    then show ?thesis
      using upsert_ok [OF g, of now g0] by (auto intro!: db_ok_update_group assms)
  qed (use assms in auto)
qed

lemma sync_db_ok:
  assumes "db_ok d"
  shows "db_ok (snd (sync_once now resp st d))"
proof -
  have u: "db_ok (upsert_all now gs d)" for gs
    using assms unfolding upsert_all_def by (induction gs arbitrary: d) (auto intro: upsert_db_ok)
  have "db_ok (foldl (\<lambda>d i. delete_group i d) d ids)" if "db_ok d" for ids d
    using that by (induction ids arbitrary: d) (auto intro: db_ok_delete_group)
  then show ?thesis
    using u assms by (auto simp: sync_once_def Let_def ReconcileSiteGroups_def split: option.splits)
qed

lemma create_group_ok: "db_ok d \<Longrightarrow> db_ok (fst (CreateGroup now g d))"
  using db_ok_insert_group [of d g] by (auto simp: CreateGroup_def split: sum.splits)

lemma update_group_db_ok:
  assumes "db_ok d"
  shows "db_ok (fst (UpdateGroup now g0 d))"
proof (cases "validateGroup g0")
  case (Inr g)
  let ?f = "\<lambda>r. (set_group now g r)\<lparr>g_name := GName g, g_source := GSource g\<rparr>"
  have v: "GName g \<noteq> []" "trim_space (GName g) = GName g" "GSource g \<in> {''local'', ''site''}"
    using validateGroup_ok [OF Inr] by auto
  have go: "groups_ok d" using assms by (simp add: db_ok_def)
  have ok: "group_row_ok (?f r)" for r
    using validateGroup_ok [OF Inr] clean_names_ok v by (auto simp: group_row_ok_def set_group_def)
  show ?thesis
  proof (cases "GName g \<in> set (map g_name (delete_where (\<lambda>r. g_id r = GID g) (groups d))) \<or> affected (\<lambda>r. g_id r = GID g) (groups d) = 0")
    case False
    have "distinct (map g_name (update_where (\<lambda>s. g_id s = GID g) ?f (groups d)))"
      by (rule distinct_update_one [where n = "GName g"]) (use go False in \<open>auto simp: groups_ok_def\<close>)
    then have "groups_ok (update_group (GID g) ?f d)" by (intro update_group_ok go ok) auto
    then have "db_ok (update_group (GID g) ?f d)" by (intro db_ok_update_group assms) auto
    then show ?thesis using assms by (simp add: UpdateGroup_def Inr)
  qed (use assms in \<open>auto simp: UpdateGroup_def Inr\<close>)
qed (use assms in \<open>simp add: UpdateGroup_def\<close>)

lemma db_ok_watches:
  assumes "db_ok d" and "watches_ok d'" and "\<forall>w \<in> set (watches d'). fk_ok (w_group w) d"
    and "groups d' = groups d" "groups_seq d' = groups_seq d" "jobs d' = jobs d" "jobs_seq d' = jobs_seq d"
      "offers d' = offers d" "cursors d' = cursors d"
  shows "db_ok d'"
proof -
  have "fk_ok g d' = fk_ok g d" for g by (rule fk_ok_groups [OF assms(4)])
  then show ?thesis
    using assms by (auto simp: db_ok_def groups_ok_def jobs_ok_def rows_ok_def refs_ok_def offers_ok_def)
qed

lemma create_watch_ok:
  assumes "db_ok d"
  shows "db_ok (fst (CreateWatch now w d))"
proof (cases "validateWatch w")
  case (Inr v)
  have "watches_ok d" "refs_ok d" using assms by (simp_all add: db_ok_def)
  then show ?thesis
    using assms
    by (auto simp: CreateWatch_def Inr Let_def intro!: db_ok_watches [OF assms])
       (fastforce simp: watches_ok_def refs_ok_def)+
qed (use assms in \<open>simp add: CreateWatch_def\<close>)

lemma update_watch_ok:
  assumes "db_ok d"
  shows "db_ok (fst (UpdateWatch now w d))"
proof (cases "validateWatch w")
  case (Inr v)
  let ?d = "d\<lparr>watches := update_where (\<lambda>r. w_id r = WID v) (set_watch now v) (watches d)\<rparr>"
  have w: "watches_ok d" "refs_ok d" using assms by (simp_all add: db_ok_def)
  have "db_ok ?d" if "fk_ok (WGroupID v) d" "WPath v \<notin> set (map w_path (delete_where (\<lambda>r. w_id r = WID v) (watches d)))"
  proof (rule db_ok_watches [OF assms])
    have "distinct (map w_path (watches ?d))"
      using w(1) that(2) unfolding watches_ok_def
      by (auto intro!: distinct_update_one [where n = "WPath v"] simp: set_watch_def)
    moreover have "map w_id (watches ?d) = map w_id (watches d)" by (auto simp: update_where_def set_watch_def)
    moreover have "\<forall>r \<in> set (watches ?d). w_id r \<le> watches_seq d"
      using w(1) by (fastforce simp: watches_ok_def in_update_where set_watch_def)
    ultimately show "watches_ok ?d" using w(1) by (simp add: watches_ok_def)
    show "\<forall>w \<in> set (watches ?d). fk_ok (w_group w) d"
      using w(2) that(1) by (auto simp: refs_ok_def in_update_where set_watch_def)
  qed simp_all
  then show ?thesis using assms by (simp add: UpdateWatch_def Inr)
qed (use assms in \<open>simp add: UpdateWatch_def\<close>)

lemma delete_watch_ok:
  assumes "db_ok d"
  shows "db_ok (fst (DeleteWatch i d))"
  unfolding DeleteWatch_def fst_conv
  by (rule db_ok_watches [OF assms]) (use assms in \<open>auto simp: db_ok_def watches_ok_def refs_ok_def tables\<close>)

lemma db_ok_offers:
  assumes "db_ok d" and "offers_ok d'"
    and "groups d' = groups d" "groups_seq d' = groups_seq d" "jobs d' = jobs d" "jobs_seq d' = jobs_seq d"
      "watches d' = watches d" "watches_seq d' = watches_seq d"
  shows "db_ok d'"
proof -
  have "fk_ok g d' = fk_ok g d" for g by (rule fk_ok_groups [OF assms(3)])
  then show ?thesis
    using assms by (auto simp: db_ok_def groups_ok_def jobs_ok_def rows_ok_def refs_ok_def watches_ok_def)
qed

lemma upsert_offer_ok:
  assumes "db_ok d"
  shows "db_ok (UpsertOfferSource now hash path url short sz d)"
proof -
  have o: "offers_ok d" using assms by (simp add: db_ok_def)
  show ?thesis
  proof (cases "find_row (\<lambda>r. o_hash r = hash) (offers d)")
    case None
    then have n: "\<forall>r \<in> set (offers d). o_hash r \<noteq> hash" by (simp only: find_row_None)
    have "hash \<noteq> [] \<Longrightarrow> path \<noteq> [] \<or> url \<noteq> [] \<Longrightarrow> offers_ok (d\<lparr>offers := offers d @
        [\<lparr>o_hash = hash, o_path = path, o_size = sz, o_seen = now, o_torrent = url, o_source = short\<rparr>]\<rparr>)"
      using o n by (auto simp: offers_ok_def)
    then show ?thesis using assms None by (auto simp: UpsertOfferSource_def intro!: db_ok_offers [OF assms])
  next
    case (Some r)
    let ?f = "\<lambda>r. r\<lparr>o_path := fill path (o_path r), o_torrent := fill url (o_torrent r),
                     o_source := fill short (o_source r), o_size := sz, o_seen := now\<rparr>"
    have "map o_hash (update_where (\<lambda>r. o_hash r = hash) ?f (offers d)) = map o_hash (offers d)"
      by (rule update_where_keeps) simp
    then have "offers_ok (d\<lparr>offers := update_where (\<lambda>r. o_hash r = hash) ?f (offers d)\<rparr>)"
      using o update_where_all [where Q = "\<lambda>r. o_hash r \<noteq> [] \<and> (o_path r \<noteq> [] \<or> o_torrent r \<noteq> [])" and f = ?f
          and rs = "offers d" and p = "\<lambda>r. o_hash r = hash"]
      by (simp add: offers_ok_def fill_def)
    then show ?thesis using assms Some by (auto simp: UpsertOfferSource_def intro!: db_ok_offers [OF assms])
  qed
qed

lemma prune_ok:
  assumes "db_ok d"
  shows "db_ok (fst (PruneStaleOfferPaths now age d))"
  unfolding PruneStaleOfferPaths_def Let_def fst_conv
  by (rule db_ok_offers [OF assms]) (use assms in \<open>auto simp: db_ok_def offers_ok_def tables\<close>)

lemma cursor_ok:
  assumes "db_ok d"
  shows "db_ok (SetScrapeCursor short n d)"
proof (rule db_ok_offers [OF assms])
  have "offers_ok d" using assms by (simp add: db_ok_def)
  then show "offers_ok (SetScrapeCursor short n d)"
    by (auto simp: offers_ok_def SetScrapeCursor_def Let_def split: if_splits)
qed (simp_all add: SetScrapeCursor_def Let_def)

lemma db_step_ok: "db_step d d' \<Longrightarrow> db_ok d \<Longrightarrow> db_ok d'"
proof (induction rule: db_step.induct)
  case (delete_group d i)
  then show ?case by (simp add: DeleteGroup_def db_ok_delete_group)
qed (auto intro: create_group_ok update_group_db_ok sync_db_ok create_watch_ok update_watch_ok delete_watch_ok
       scan_ok claim_ok job_ops_ok upsert_offer_ok prune_ok cursor_ok)

text \<open>
  C10. Every state of the store that the program's operations can reach from the empty one is well
  formed: identifiers, group names, watch paths, job source paths and offer hashes are unique, every
  group has a trimmed name and a newsgroup, every group reference exists, every job row has the
  columns of its status (a queued job was not started and has no completion, a processing job has
  a start, a completed job an NZB and a completion, a failed job an error), every cached offer has a
  route and no cursor is negative.
\<close>

theorem db_invariant:
  assumes "db_reach d"
  shows "db_ok d"
  using assms
proof (induction rule: db_reach.induct)
  case init
  show ?case by (auto simp: db_ok_defs empty_db_def)
next
  case (step d d')
  then show ?case by (blast intro: db_step_ok)
qed

lemma db_invariant_witness:
  "db_ok (fst (ClaimNextJob 9 (scanAllWatches 5 (\<lambda>p. Some [\<lparr>e_name = ''a.mkv'', e_isdir = False, e_age = Some 40\<rparr>])
     (fst (CreateWatch 3 \<lparr>WID = 0, WPath = ''/w'', WGroupID = Some 1, WGroupName = [], WEnabled = True, WCreatedAt = 0, WUpdatedAt = 0\<rparr>
       (fst (CreateGroup 2 group_example empty_db)))))))"
  by (rule db_invariant, rule db_reach.step [OF db_reach.step [OF db_reach.step [OF db_reach.step [OF db_reach.init
      db_step.create_group] db_step.create_watch] db_step.scan] db_step.claim])

text \<open>
  Recording a route merges: each of path, address and source short name becomes the recorded one
  when that is not empty and otherwise stays as it was, so that learning one route never loses the
  other; the size is the latest one; nothing is recorded without a hash or any route; and no other
  hash is affected.
\<close>

theorem offer_routes_merge:
  "GetOfferSource h (UpsertOfferSource now hash path url short sz d) =
    (if h = hash \<and> hash \<noteq> [] \<and> \<not> (path = [] \<and> url = [])
     then (let old = GetOfferSource hash d in
       \<lparr>LocalPath = fill path (LocalPath old), TorrentURL = fill url (TorrentURL old),
        SourceShort = fill short (SourceShort old), SizeBytes = sz\<rparr>)
     else GetOfferSource h d)"
proof -
  let ?f = "\<lambda>r. r\<lparr>o_path := fill path (o_path r), o_torrent := fill url (o_torrent r),
                 o_source := fill short (o_source r), o_size := sz, o_seen := now\<rparr>"
  have same: "find_row (\<lambda>r. o_hash r = hash) (update_where (\<lambda>r. o_hash r = hash) ?f (offers d))
      = map_option ?f (find_row (\<lambda>r. o_hash r = hash) (offers d))"
    by (rule find_row_update) simp
  have other: "find_row (\<lambda>r. o_hash r = h) (update_where (\<lambda>r. o_hash r = hash) ?f (offers d))
      = find_row (\<lambda>r. o_hash r = h) (offers d)" if "h \<noteq> hash"
    by (rule find_row_update_other) (use that in auto)
  show ?thesis
  proof (cases "hash = [] \<or> (path = [] \<and> url = [])")
    case True
    then show ?thesis by (auto simp: UpsertOfferSource_def)
  next
    case ok: False
    show ?thesis
    proof (cases "find_row (\<lambda>r. o_hash r = hash) (offers d)")
      case None
      then show ?thesis using ok
        by (cases "find_row (\<lambda>r. o_hash r = h) (offers d)")
           (auto simp: UpsertOfferSource_def GetOfferSource_def find_row_append no_route_def fill_def Let_def)
    next
      case (Some r)
      then show ?thesis using ok same other by (auto simp: UpsertOfferSource_def GetOfferSource_def Let_def)
    qed
  qed
qed

section \<open>Facts on migrations\<close>

definition missing :: "(string \<times> bool) list \<Rightarrow> string list \<Rightarrow> string list" where
  "missing entries done' = filter (\<lambda>n. n \<notin> set done') (migration_names entries)"

lemma run_migrations_log:
  assumes "distinct ns" and "set lg \<inter> set (filter (\<lambda>n. n \<notin> A) ns) = {}"
    and "run_migrations exec A ns (s, lg) = ((s', lg'), res)"
  shows "case res of
      None \<Rightarrow> lg' = lg @ filter (\<lambda>n. n \<notin> A) ns
    | Some n \<Rightarrow> \<exists>pre post. filter (\<lambda>n. n \<notin> A) ns = pre @ n # post \<and> lg' = lg @ pre \<and> exec n s' = None"
  using assms
proof (induction ns arbitrary: s lg)
  case (Cons n ns)
  show ?case
  proof (cases "n \<in> A")
    case True
    then have "filter (\<lambda>n. n \<notin> A) (n # ns) = filter (\<lambda>n. n \<notin> A) ns" by simp
    then show ?thesis using Cons.prems True by (simp only:) (rule Cons.IH, auto)
  next
    case nA: False
    show ?thesis
    proof (cases "exec n s")
      case None
      then have "res = Some n \<and> s' = s \<and> lg' = lg" using nA Cons.prems(3) by simp
      then show ?thesis using nA None by (auto intro!: exI [of _ "[]"])
    next
      case (Some t)
      have "n \<notin> set lg" using Cons.prems nA by auto
      then have run: "run_migrations exec A ns (t, lg @ [n]) = ((s', lg'), res)" using Some nA Cons.prems(3) by simp
      have "distinct ns" "set (lg @ [n]) \<inter> set (filter (\<lambda>n. n \<notin> A) ns) = {}" using Cons.prems nA by auto
      note ih = Cons.IH [OF this run]
      show ?thesis
      proof (cases res)
        case None
        then show ?thesis using ih nA by simp
      next
        case r: (Some m)
        then obtain pre post where "filter (\<lambda>n. n \<notin> A) ns = pre @ m # post" "lg' = (lg @ [n]) @ pre" "exec m s' = None"
          using ih by auto
        then show ?thesis using r nA by (auto intro!: exI [of _ "n # pre"])
      qed
    qed
  qed
qed simp

text \<open>
  Migrations are applied in name order, each at most once: whatever was applied before, a run
  that reports no error has appended to the log exactly the missing names, in ascending order, and a
  second run changes nothing; a run that stops at a failing migration has kept the earlier ones.
\<close>

theorem migrate_once:
  assumes "distinct (map fst entries)"
  shows "\<exists>s' lg' res. migrate exec entries (s, lg) = ((s', lg'), res)
    \<and> (case res of
         None \<Rightarrow> lg' = lg @ missing entries lg \<and> sorted (missing entries lg)
           \<and> migrate exec entries (s', lg') = ((s', lg'), None)
       | Some n \<Rightarrow> \<exists>pre post. missing entries lg = pre @ n # post \<and> lg' = lg @ pre \<and> exec n s' = None)"
proof -
  have d: "distinct (migration_names entries)"
    using assms by (simp add: migration_names_def distinct_map_filter)
  obtain s' lg' res where m: "migrate exec entries (s, lg) = ((s', lg'), res)" by (metis prod.exhaust)
  have f: "case res of None \<Rightarrow> lg' = lg @ missing entries lg
    | Some n \<Rightarrow> \<exists>pre post. missing entries lg = pre @ n # post \<and> lg' = lg @ pre \<and> exec n s' = None"
    unfolding missing_def by (rule run_migrations_log [OF d _ m [unfolded migrate_def snd_conv]]) auto
  have skip: "set ns \<subseteq> A \<Longrightarrow> run_migrations exec A ns (s', lg') = ((s', lg'), None)" for A ns
    by (induction ns) auto
  have "migrate exec entries (s', lg') = ((s', lg'), None)" if "lg' = lg @ missing entries lg"
    unfolding migrate_def by (rule skip) (auto simp: that missing_def)
  moreover have "sorted (missing entries lg)"
    using sorted_filter [where f = "\<lambda>x. x" and xs = "migration_names entries"] by (simp add: missing_def migration_names_def)
  ultimately show ?thesis using m f by (auto split: option.splits)
qed

lemma migrate_once_witness:
  "\<exists>s' lg' res. migrate (\<lambda>n s. Some (s + 1)) [(''002_b.sql'', False), (''001_a.sql'', False)] (0 :: nat, [''001_a.sql'']) = ((s', lg'), res)
   \<and> (res = None \<longrightarrow> lg' = [''001_a.sql''] @ missing [(''002_b.sql'', False), (''001_a.sql'', False)] [''001_a.sql''])"
  using migrate_once [where entries = "[(''002_b.sql'', False), (''001_a.sql'', False)]" and exec = "\<lambda>n s. Some (s + 1)"
      and s = "0 :: nat" and lg = "[''001_a.sql'']"]
  by (auto split: option.splits)

end
