(* ===== verification/OfferRoute.thy ===== *)
theory OfferRoute
  imports Database Publish Torrent
begin

text \<open>
  How a request for an offer can be served (\<^verbatim>\<open>services/offer_fulfill.go\<close>,
  \<^verbatim>\<open>offer_fulfill_remote.go\<close>, \<^verbatim>\<open>offer_stage.go\<close>, \<^verbatim>\<open>offer_torrent_fetch.go\<close>, \<^verbatim>\<open>offer_cookies.go\<close>,
  \<^verbatim>\<open>offer_browser.go\<close>): the choice of the route, the cache of the published paths, the cookies and
  headers of a \<^verbatim>\<open>.torrent\<close> request and the checks of its response, and the staging of local content.
  A file system is a function from paths to nodes, as \<^verbatim>\<open>os.Lstat\<close> sees them.
\<close>

section \<open>Configuration\<close>

record offer_source =
  OType :: string
  OShortName :: string
  ORoot :: string
  OBrowser :: string

record offer_file =
  ODefaultBrowser :: string
  OCookiesFile :: string
  OSources :: "offer_source list"

record offer_config =
  F_Remote :: bool
  F_MaxGB :: int
  F_TimeoutMin :: int
  F_InventoryRoots :: string
  F_Loaded :: "offer_file option"
  F_Pub :: pub_config
  F_Seed :: "rat seedOpts"

section \<open>The route\<close>

datatype fulfillRoute = RouteNone | RouteLocal | RouteRemote | RouteRemoteDisabled

text \<open>Arithmetic of \<^verbatim>\<open>int64\<close>.\<close>

definition i64 :: "int \<Rightarrow> int" where
  "i64 x = sint (word_of_int x :: 64 word)"

definition chooseFulfillRoute :: "OfferSourceRow \<Rightarrow> offer_config option \<Rightarrow> fulfillRoute" where
  "chooseFulfillRoute src cfg =
     (if LocalPath src \<noteq> [] then RouteLocal
      else if TorrentURL src = [] then RouteNone
      else case cfg of
             None \<Rightarrow> RouteRemoteDisabled
           | Some c \<Rightarrow>
               if \<not> F_Remote c then RouteRemoteDisabled
               else if F_MaxGB c > 0 \<and> SizeBytes src > i64 (i64 (F_MaxGB c) * 2 ^ 30) then RouteRemoteDisabled
               else RouteRemote)"

definition shortHash :: "string \<Rightarrow> string" where
  "shortHash h = (if length h \<le> 12 then h else take 12 h)"

section \<open>The published paths\<close>

definition splitRoots :: "string \<Rightarrow> string list" where
  "splitRoots s = filter (\<lambda>p. p \<noteq> []) (map trim_space (split_on (CHR '','') s))"

text \<open>The folders of the sources, each once; the map \<^verbatim>\<open>seen\<close> holds what is already in the list.\<close>

definition add_root :: "string list \<Rightarrow> offer_source \<Rightarrow> string list" where
  "add_root roots src =
     (let r = trim_space (ORoot src)
      in if OType src = ''folder'' \<and> r \<noteq> [] \<and> r \<notin> set roots then roots @ [r] else roots)"

definition inventoryRoots :: "offer_config \<Rightarrow> string list" where
  "inventoryRoots cfg =
     (let roots = splitRoots (F_InventoryRoots cfg)
      in if roots \<noteq> [] then roots
         else case F_Loaded cfg of None \<Rightarrow> [] | Some f \<Rightarrow> foldl add_root [] (OSources f))"

text \<open>\<open>exists p\<close> is whether \<^verbatim>\<open>os.Stat\<close> succeeds on \<open>p\<close>.\<close>

fun first_existing :: "(string \<Rightarrow> bool) \<Rightarrow> string \<Rightarrow> string list \<Rightarrow> string" where
  "first_existing exists rel [] = []"
| "first_existing exists rel (r # rs) =
     (let candidate = path_join r rel in if exists candidate then candidate else first_existing exists rel rs)"

definition resolveAgainstRoots :: "(string \<Rightarrow> bool) \<Rightarrow> string list \<Rightarrow> string \<Rightarrow> string" where
  "resolveAgainstRoots exists roots relPath =
     (if path_rooted relPath then (if exists relPath then relPath else [])
      else first_existing exists relPath roots)"

record published_path =
  PubHash :: string
  PubPath :: string
  PubSize :: int

text \<open>\<open>saves r\<close> is whether the store takes the row. The counts are those of the two log lines.\<close>

definition cache_path ::
  "(string \<Rightarrow> bool) \<Rightarrow> string list \<Rightarrow> (published_path \<Rightarrow> bool) \<Rightarrow> int \<Rightarrow> db \<times> nat \<times> nat \<Rightarrow> published_path \<Rightarrow> db \<times> nat \<times> nat" where
  "cache_path exists roots saves now st r =
     (case st of (d, added, unresolved) \<Rightarrow>
        if PubHash r = [] \<or> PubPath r = [] then st
        else
          (let abs = resolveAgainstRoots exists roots (PubPath r)
           in if abs = [] then (d, added, Suc unresolved)
              else if \<not> saves r then st
              else (UpsertOfferPath now (PubHash r) abs (PubSize r) d, Suc added, unresolved)))"

definition refreshPublishedPaths ::
  "(string \<Rightarrow> bool) \<Rightarrow> offer_config \<Rightarrow> (published_path \<Rightarrow> bool) \<Rightarrow> int \<Rightarrow> published_path list option \<Rightarrow> db \<Rightarrow> db \<times> nat \<times> nat" where
  "refreshPublishedPaths exists cfg saves now answer d =
     (case answer of
        None \<Rightarrow> (d, 0, 0)
      | Some rows \<Rightarrow> foldl (cache_path exists (inventoryRoots cfg) saves now) (d, 0, 0) rows)"

section \<open>Cookies and headers\<close>

text \<open>A jar is a list of domains with their cookies, in the order in which this run of the program
  iterates over the map; \<open>read_jar\<close> is \<open>None\<close> where the file cannot be read or parsed.\<close>

type_synonym cookie_jar = "(string \<times> (string \<times> string) list) list"

definition LoadCookies :: "(string \<Rightarrow> cookie_jar option) \<Rightarrow> string \<Rightarrow> string \<Rightarrow> (string \<times> string) list" where
  "LoadCookies read_jar p domain =
     (if p = [] \<or> domain = [] then []
      else case read_jar p of
             None \<Rightarrow> []
           | Some jar \<Rightarrow>
               (case map_of jar domain of
                  Some cookies \<Rightarrow> cookies
                | None \<Rightarrow>
                    (case find (\<lambda>(stored, cookies). domain = stored \<or> has_suffix domain (dot # stored)) jar of
                       Some (stored, cookies) \<Rightarrow> cookies
                     | None \<Rightarrow> [])))"

definition CookieHeader :: "(string \<times> string) list \<Rightarrow> string" where
  "CookieHeader cookies = join ''; '' (map (\<lambda>(name, value). name @ ''='' @ value) cookies)"

text \<open>\<^verbatim>\<open>WriteCookieJar\<close> writes the whole jar beside the file and renames it; \<open>write_ok\<close> and \<open>rename_ok\<close>
  are the outcomes of the two calls. The result is the new content of the jar and of the file beside it.\<close>

definition WriteCookieJar ::
  "bool \<Rightarrow> bool \<Rightarrow> string \<Rightarrow> cookie_jar option \<Rightarrow> (string \<rightharpoonup> cookie_jar) \<Rightarrow> (string \<rightharpoonup> cookie_jar) \<times> bool" where
  "WriteCookieJar write_ok rename_done p jar fs =
     (if p = [] then (fs, True)
      else
        (let body = (case jar of None \<Rightarrow> [] | Some j \<Rightarrow> j); tmp = p @ ''.tmp''
         in if \<not> write_ok then (fs, False)
            else if \<not> rename_done then (fs(tmp \<mapsto> body), False)
            else (fs(tmp := None, p \<mapsto> body), True)))"

definition browserFor :: "offer_config \<Rightarrow> string \<Rightarrow> string" where
  "browserFor cfg shortName =
     (case F_Loaded cfg of
        None \<Rightarrow> []
      | Some f \<Rightarrow>
          (case find (\<lambda>src. OShortName src = shortName \<and> OBrowser src \<noteq> []) (OSources f) of
             Some src \<Rightarrow> OBrowser src
           | None \<Rightarrow> ODefaultBrowser f))"

definition cookiesPath :: "offer_config \<Rightarrow> string" where
  "cookiesPath cfg = (case F_Loaded cfg of None \<Rightarrow> [] | Some f \<Rightarrow> OCookiesFile f)"

definition userAgents :: "(string \<times> string) list" where
  "userAgents =
     [(''chrome'', ''Mozilla/5.0 (Windows NT 10.0; Win64; x64) AppleWebKit/537.36 (KHTML, like Gecko) Chrome/131.0.0.0 Safari/537.36''),
      (''firefox'', ''Mozilla/5.0 (Windows NT 10.0; Win64; x64; rv:133.0) Gecko/20100101 Firefox/133.0''),
      (''edge'', ''Mozilla/5.0 (Windows NT 10.0; Win64; x64) AppleWebKit/537.36 (KHTML, like Gecko) Chrome/131.0.0.0 Safari/537.36 Edg/131.0.0.0''),
      (''safari'', ''Mozilla/5.0 (Macintosh; Intel Mac OS X 10_15_7) AppleWebKit/605.1.15 (KHTML, like Gecko) Version/17.4 Safari/605.1.15'')]"

definition UserAgentFor :: "string \<Rightarrow> string" where
  "UserAgentFor browser =
     (case map_of userAgents browser of Some ua \<Rightarrow> ua | None \<Rightarrow> snd (hd userAgents))"

type_synonym headers = "(string \<times> string) list"

definition BrowserHeaders :: "string \<Rightarrow> headers" where
  "BrowserHeaders browser =
     [(''User-Agent'', UserAgentFor browser),
      (''Accept'', ''text/html,application/xhtml+xml,application/xml;q=0.9,image/avif,image/webp,*/*;q=0.8''),
      (''Accept-Language'', ''en-US,en;q=0.9''), (''Accept-Encoding'', ''gzip, deflate, br''),
      (''Sec-Fetch-Site'', ''same-origin''), (''Sec-Fetch-Mode'', ''navigate''), (''Sec-Fetch-User'', ''?1''),
      (''Sec-Fetch-Dest'', ''document''), (''Upgrade-Insecure-Requests'', ''1''), (''DNT'', ''1'')]"

section \<open>Fetching a torrent file\<close>

definition maxTorrentBytes :: nat where
  "maxTorrentBytes = 4194304"

datatype fetch_error = TorrentAuthWall | EmptyBody | NotBencode char | NoInfo | OtherFetch string

definition validateTorrentBytes :: "string \<Rightarrow> fetch_error option" where
  "validateTorrentBytes body =
     (case body of
        [] \<Rightarrow> Some EmptyBody
      | c # cs \<Rightarrow>
          (let head = trim_prefix (take 512 body) [CHR 0xEF, CHR 0xBB, CHR 0xBF];
               lower = to_lower (trim_space head)
           in if has_prefix lower ''<'' \<or> has_prefix lower ''<!doctype'' \<or> contains lower ''<html'' then Some TorrentAuthWall
              else if c \<noteq> CHR ''d'' then Some (NotBencode c)
              else if \<not> contains body ''4:info'' then Some NoInfo
              else None))"

text \<open>What the server sends: the status, the bytes of the body on the wire, whether they carry
  \<^verbatim>\<open>Content-Encoding: gzip\<close>, and whether reading them fails. Go's transport decodes a gzip body only
  when it added \<^verbatim>\<open>Accept-Encoding\<close> itself, that is when the request does not carry the header.\<close>

record http_reply =
  reply_status :: nat
  reply_gzip :: bool
  reply_body :: string
  reply_broken :: bool

definition body_seen :: "(string \<Rightarrow> string) \<Rightarrow> headers \<Rightarrow> http_reply \<Rightarrow> string" where
  "body_seen gunzip hs r =
     (if reply_gzip r \<and> map_of hs ''Accept-Encoding'' = None then gunzip (reply_body r) else reply_body r)"

text \<open>The world outside of the fetch: \<^verbatim>\<open>url.Parse\<close> with the scheme and host name it finds, the jar,
  the server, and the decoder of gzip.\<close>

record fetch_env =
  parse_url :: "string \<Rightarrow> string + string \<times> string"
  jars :: "string \<Rightarrow> cookie_jar option"
  server :: "string \<Rightarrow> headers \<Rightarrow> string + http_reply"
  unzip :: "string \<Rightarrow> string"

definition torrent_headers :: "string \<Rightarrow> string \<Rightarrow> headers" where
  "torrent_headers browser ck =
     (let hs = BrowserHeaders browser;
          hs' = (if ck \<noteq> [] then AList.update ''Cookie'' ck hs else hs)
      in AList.update ''Accept'' ''application/x-bittorrent,*/*'' hs')"

definition fetchTorrentBytes :: "fetch_env \<Rightarrow> string \<Rightarrow> string \<Rightarrow> string \<Rightarrow> fetch_error + string" where
  "fetchTorrentBytes e torrentURL browser cookies =
     (if torrentURL = [] then Inl (OtherFetch ''empty torrent URL'')
      else case parse_url e torrentURL of
             Inl err \<Rightarrow> Inl (OtherFetch err)
           | Inr (scheme, host) \<Rightarrow>
               if scheme \<noteq> ''http'' \<and> scheme \<noteq> ''https'' then Inl (OtherFetch ''refusing non-HTTP torrent URL scheme'')
               else
                 (let hs = torrent_headers browser (CookieHeader (LoadCookies (jars e) cookies host))
                  in case server e torrentURL hs of
                       Inl err \<Rightarrow> Inl (OtherFetch err)
                     | Inr r \<Rightarrow>
                         if reply_status r \<noteq> 200 then Inl (OtherFetch ''fetch .torrent: HTTP'')
                         else
                           (let body = take (maxTorrentBytes + 1) (body_seen (unzip e) hs r)
                            in if reply_broken r then Inl (OtherFetch ''read .torrent'')
                               else if length body > maxTorrentBytes then Inl (OtherFetch ''refusing .torrent larger than the cap'')
                               else case validateTorrentBytes body of Some err \<Rightarrow> Inl err | None \<Rightarrow> Inr body)))"

text \<open>The check of the size by counting, for evaluation.\<close>

fun fits :: "int \<Rightarrow> 'a list \<Rightarrow> bool" where
  "fits n [] \<longleftrightarrow> 0 \<le> n"
| "fits n (x # xs) \<longleftrightarrow> 1 \<le> n \<and> fits (n - 1) xs"

lemma fits_length: "fits n xs \<longleftrightarrow> int (length xs) \<le> n"
  by (induction n xs rule: fits.induct) auto

lemma fetchTorrentBytes_code [code]:
  "fetchTorrentBytes e torrentURL browser cookies =
     (if torrentURL = [] then Inl (OtherFetch ''empty torrent URL'')
      else case parse_url e torrentURL of
             Inl err \<Rightarrow> Inl (OtherFetch err)
           | Inr (scheme, host) \<Rightarrow>
               if scheme \<noteq> ''http'' \<and> scheme \<noteq> ''https'' then Inl (OtherFetch ''refusing non-HTTP torrent URL scheme'')
               else
                 (let hs = torrent_headers browser (CookieHeader (LoadCookies (jars e) cookies host))
                  in case server e torrentURL hs of
                       Inl err \<Rightarrow> Inl (OtherFetch err)
                     | Inr r \<Rightarrow>
                         if reply_status r \<noteq> 200 then Inl (OtherFetch ''fetch .torrent: HTTP'')
                         else if reply_broken r then Inl (OtherFetch ''read .torrent'')
                         else
                           (let body = body_seen (unzip e) hs r
                            in if \<not> fits 4194304 body then Inl (OtherFetch ''refusing .torrent larger than the cap'')
                               else case validateTorrentBytes body of Some err \<Rightarrow> Inl err | None \<Rightarrow> Inr body)))"
proof -
  have "(if length (take (maxTorrentBytes + 1) b) > maxTorrentBytes then x else f (take (maxTorrentBytes + 1) b))
      = (if \<not> fits 4194304 b then x else f b)" for b :: string and x :: "fetch_error + string" and f
    by (cases "length b \<le> maxTorrentBytes") (auto simp: fits_length maxTorrentBytes_def min_def)
  from this [where f = "\<lambda>b. case validateTorrentBytes b of Some err \<Rightarrow> Inl err | None \<Rightarrow> Inr b"]
  show ?thesis
    unfolding fetchTorrentBytes_def Let_def by (auto split: sum.split)
qed

section \<open>Staging local content\<close>

text \<open>The outcomes of the symbolic links, and what a relative link text resolves to from the directory
  of the link.\<close>

record stage_env =
  link_ok :: "fpath \<Rightarrow> bool"
  from_link :: "string \<Rightarrow> fnode option"

text \<open>\<^verbatim>\<open>os.Symlink\<close>, or a copy where that fails. \<open>p\<close> is the path of the source and \<open>src\<close> its node.\<close>

definition link_or_copy :: "stage_env \<Rightarrow> string \<Rightarrow> fnode option \<Rightarrow> fpath \<Rightarrow> fnode \<Rightarrow> fnode option" where
  "link_or_copy e p src dest dst =
     (case (if link_ok e dest \<and> node_at dst dest = None
            then tree_put dest (FLink (length p) (if path_rooted p then src else from_link e p)) dst else None) of
        Some d \<Rightarrow> Some d
      | None \<Rightarrow> (case src of None \<Rightarrow> None | Some n \<Rightarrow> copyFile n dest dst))"

definition wanted_names :: "string list \<Rightarrow> string list" where
  "wanted_names fileFilter = remdups (filter (\<lambda>n. n \<noteq> []) (map trim_space fileFilter))"

text \<open>The element of the stage directory; \<^verbatim>\<open>filepath.Join(dir, "/")\<close> is the directory itself.\<close>

definition stage_elem :: "string \<Rightarrow> fpath" where
  "stage_elem base = (if base = [slash] then [] else [base])"

definition walk_path :: "string \<Rightarrow> fpath \<Rightarrow> string" where
  "walk_path localPath p = (if p = [] then localPath else path_join_all (localPath # p))"

text \<open>The callback of the walk, with the names found and the tree staged so far.\<close>

definition filter_cb ::
  "stage_env \<Rightarrow> string list \<Rightarrow> string \<Rightarrow> string list \<times> fnode \<Rightarrow> fpath \<Rightarrow> fnode \<Rightarrow> (string list \<times> fnode) \<times> wres" where
  "filter_cb e wanted localPath s p n =
     (case s of (found, dst) \<Rightarrow>
        (case node_err n of
           Some err \<Rightarrow> (s, WErr err)
         | None \<Rightarrow>
             if is_dir n then (s, WNil)
             else
               (let base = base_of (path_base localPath) p
                in if base \<notin> set wanted \<or> base \<in> set found then (s, WNil)
                   else case link_or_copy e (walk_path localPath p) (Some n) (stage_elem (path_base localPath) @ [base]) dst of
                          None \<Rightarrow> (s, WErr ''copy failed'')
                        | Some d \<Rightarrow> ((base # found, d), WNil))))"

definition stageLocalContent ::
  "stage_env \<Rightarrow> string \<Rightarrow> fnode option \<Rightarrow> string list \<Rightarrow> fnode \<times> (string + unit)" where
  "stageLocalContent e localPath src fileFilter =
     (let base = path_base localPath; fresh = FDir [];
          whole = (case link_or_copy e localPath src (stage_elem base) fresh of
                     None \<Rightarrow> (fresh, Inl ''copy failed'')
                   | Some d \<Rightarrow> (d, Inr ()));
          wanted = wanted_names fileFilter
      in if fileFilter = [] then whole
         else case src of
                None \<Rightarrow> (fresh, Inl ''no such file or directory'')
              | Some n \<Rightarrow>
                  (case resolve n of
                     None \<Rightarrow> (fresh, Inl ''no such file or directory'')
                   | Some info \<Rightarrow>
                       if \<not> is_dir info
                       then (if base \<notin> set wanted then (fresh, Inl ''the source is a single file'') else whole)
                       else
                         (case file_walk (filter_cb e wanted localPath)
                                 ([], if base = [slash] then fresh else FDir [(base, FDir [])]) n of
                            ((found, dst), WErr err) \<Rightarrow> (dst, Inl err)
                          | ((found, dst), _) \<Rightarrow>
                              if length found \<noteq> length wanted then (dst, Inl ''inventory has drifted'') else (dst, Inr ()))))"

section \<open>What is staged\<close>

lemma obeys_filter_cb: "obeys no_skip (filter_cb e wanted lp)"
  by (auto simp: obeys_def no_skip_def filter_cb_def Let_def split: prod.splits option.splits)

lemma path_clean_rooted: "path_rooted p \<Longrightarrow> path_rooted (path_clean p)"
  by (simp add: path_clean_def path_rooted_def has_prefix_def Let_def)

lemma path_rooted_ne: "path_rooted p \<Longrightarrow> p \<noteq> []"
  by (auto simp: path_rooted_def has_prefix_def)

lemma path_rooted_append: "path_rooted p \<Longrightarrow> path_rooted (p @ q)"
  by (auto simp: path_rooted_def has_prefix_def)

lemma walk_path_rooted: "path_rooted lp \<Longrightarrow> path_rooted (walk_path lp p)"
proof -
  assume r: "path_rooted lp"
  have "path_rooted (join [slash] (lp # es))" for es
    using path_rooted_append [OF r] by (cases es) (simp_all add: r)
  then show ?thesis
    using r path_rooted_ne [OF r] by (simp add: walk_path_def path_join_all_def path_clean_rooted Let_def)
qed

text \<open>A staged file reads as the file it stands for.\<close>

lemma link_or_copy_Some:
  assumes "link_or_copy e p (Some n) dest dst = Some dst'" and "path_rooted p"
  obtains m where "tree_put dest m dst = Some dst'" and "\<not> is_dir m" and "resolve m = resolve n"
proof -
  define X where "X = (if link_ok e dest \<and> node_at dst dest = None then tree_put dest (FLink (length p) (Some n)) dst else None)"
  have L: "link_or_copy e p (Some n) dest dst = (case X of Some d \<Rightarrow> Some d | None \<Rightarrow> copyFile n dest dst)"
    unfolding link_or_copy_def X_def if_P [OF assms(2)] by (simp split: option.split)
  show thesis
  proof (cases X)
    case None
    then have "copyFile n dest dst = Some dst'" using assms(1) by (simp add: L)
    then obtain b where "resolve n = Some (FFile b)" "tree_put dest (FFile b) dst = Some dst'"
      by (auto simp: copyFile_def split: option.splits fnode.splits)
    then show thesis using that [of "FFile b"] by simp
  next
    case (Some d)
    then have "tree_put dest (FLink (length p) (Some n)) dst = Some dst'"
      using assms(1) by (simp add: L) (simp add: X_def split: if_splits)
    then show thesis using that [of "FLink (length p) (Some n)"] by simp
  qed
qed

text \<open>The invariant of the walk.\<close>

definition staged_ok :: "string \<Rightarrow> string list \<Rightarrow> fnode \<Rightarrow> string list \<times> fnode \<Rightarrow> bool" where
  "staged_ok base wanted src s \<longleftrightarrow>
     distinct (fst s) \<and> set (fst s) \<subseteq> set wanted
     \<and> (\<forall>p. file_at (snd s) p \<noteq> None \<longleftrightarrow> (\<exists>b \<in> set (fst s). p = [base, b]))
     \<and> (\<forall>b \<in> set (fst s). \<exists>q n m. file_at src q = Some n \<and> q \<noteq> [] \<and> last q = b
          \<and> file_at (snd s) [base, b] = Some m \<and> resolve m = resolve n)"

lemma filter_cb_step:
  assumes "staged_ok (path_base lp) wanted src s" and "path_rooted lp" and "path_base lp \<noteq> [slash]"
    and "\<not> is_dir n \<Longrightarrow> file_at src p = Some n \<and> p \<noteq> []"
  shows "staged_ok (path_base lp) wanted src (fst (filter_cb e wanted lp s p n))"
proof -
  obtain found dst where s: "s = (found, dst)" by fastforce
  let ?base = "path_base lp" and ?b = "base_of (path_base lp) p"
  show ?thesis
  proof (cases "node_err n = None \<and> \<not> is_dir n \<and> ?b \<in> set wanted \<and> ?b \<notin> set found")
    case False
    then show ?thesis using assms(1) by (auto simp: s filter_cb_def Let_def split: option.splits)
  next
    case True
    then have f: "file_at src p = Some n" "p \<noteq> []" "?b = last p" using assms(4) by (auto simp: base_of_def)
    show ?thesis
    proof (cases "link_or_copy e (walk_path lp p) (Some n) [?base, ?b] dst")
      case None
      then show ?thesis using assms(1,3) True by (simp add: s filter_cb_def Let_def stage_elem_def)
    next
      case (Some d)
      then obtain m where m: "tree_put [?base, ?b] m dst = Some d" "\<not> is_dir m" "resolve m = resolve n"
        using link_or_copy_Some walk_path_rooted [OF assms(2)] by blast
      note look = tree.look_put [OF m(2,1)]
      have "fst (filter_cb e wanted lp s p n) = (?b # found, d)"
        using Some assms(3) True by (simp add: s filter_cb_def Let_def stage_elem_def)
      moreover have "staged_ok ?base wanted src (?b # found, d)"
        using assms(1) True look f m(3) unfolding staged_ok_def s fst_conv snd_conv
        by (auto simp: Ball_def split: if_splits; blast)
      ultimately show ?thesis by simp
    qed
  qed
qed

lemma visited_file:
  assumes "wf_tree src" and "is_dir src" and "(p, n) \<in> set (visits no_skip [] src)" and "\<not> is_dir n"
  shows "file_at src p = Some n \<and> p \<noteq> []"
proof -
  have "file_at src p = Some n"
    using visits_file_at(1) [OF assms(1), of "[]" p n no_skip] assms(3,4) by (simp add: no_skip_def)
  then show ?thesis using file_at_Nil_dir [OF assms(2)] by auto
qed

lemma staged_ok_start: "staged_ok base wanted src ([], FDir [(base, FDir [])])"
proof -
  have "file_at (FDir [(base, FDir [])]) p = None" for p
    by (cases p) (auto simp: file_at_Cons file_at_Nil_dir)
  then show ?thesis by (simp add: staged_ok_def)
qed

lemma filter_walk_ok:
  assumes "wf_tree src" and "is_dir src" and "path_rooted lp" and "path_base lp \<noteq> [slash]"
  shows "staged_ok (path_base lp) wanted src
     (fst (file_walk (filter_cb e wanted lp) ([], FDir [(path_base lp, FDir [])]) src))"
proof -
  have "staged_ok (path_base lp) wanted src
      (fst (walk_seq (filter_cb e wanted lp) ([], FDir [(path_base lp, FDir [])]) (visits no_skip [] src)))"
  proof (rule walk_seq_inv)
    show "staged_ok (path_base lp) wanted src (fst (filter_cb e wanted lp s q n))"
      if "(q, n) \<in> set (visits no_skip [] src)" "staged_ok (path_base lp) wanted src s" for s q n
      using filter_cb_step [OF that(2) assms(3,4)] visited_file [OF assms(1,2) that(1)] by blast
  qed (rule staged_ok_start)
  then show ?thesis by (simp add: file_walk_seq [OF obeys_filter_cb] case_prod_beta)
qed

text \<open>When every link or copy succeeds, the walk over a directory that can be listed finds every
  wanted name that occurs.\<close>

definition two_level :: "string \<Rightarrow> fnode \<Rightarrow> bool" where
  "two_level base t \<longleftrightarrow> (\<exists>ys. t = FDir [(base, FDir ys)] \<and> (\<forall>(a, m) \<in> set ys. \<not> is_dir m))"

lemma two_level_put:
  assumes "two_level base t" and "\<not> is_dir m"
  obtains t' where "tree_put [base, b] m t = Some t'" and "two_level base t'"
proof -
  from assms(1) obtain ys where t: "t = FDir [(base, FDir ys)]" "\<forall>(a, m) \<in> set ys. \<not> is_dir m"
    by (auto simp: two_level_def)
  then have nd: "\<not> is_dir m'" if "map_of ys b = Some m'" for m' using that by (auto dest: map_of_SomeD)
  have "tree_put [base, b] m t = Some (FDir [(base, FDir (set_entry b m ys))])"
    using nd by (simp add: t(1) set_entry_def split: option.split)
  moreover have "two_level base (FDir [(base, FDir (set_entry b m ys))])"
    using t(2) assms(2) set_set_entry [of b m ys] by (auto simp: two_level_def)
  ultimately show thesis by (rule that)
qed

definition has_name :: "(fpath \<times> fnode) list \<Rightarrow> string \<Rightarrow> bool" where
  "has_name vs b \<longleftrightarrow> list_ex (\<lambda>(p, n). \<not> is_dir n \<and> last p = b) vs"

lemma has_name_simps [simp]: "\<not> has_name [] b"
  "has_name ((p, n) # vs) b \<longleftrightarrow> \<not> is_dir n \<and> last p = b \<or> has_name vs b"
  by (simp_all add: has_name_def)

lemma filter_walk_finds:
  assumes "\<And>p. link_ok e p" and "path_rooted lp" and "path_base lp \<noteq> [slash]"
    and "\<forall>(p, n) \<in> set vs. n \<noteq> FUnreadable \<and> (is_dir n \<or> p \<noteq> [])"
    and "two_level (path_base lp) dst" and "\<And>b. b \<notin> set found \<Longrightarrow> node_at dst [path_base lp, b] = None"
  shows "\<exists>found' dst'. walk_seq (filter_cb e wanted lp) (found, dst) vs = ((found', dst'), WNil)
     \<and> (\<forall>b. b \<in> set found' \<longleftrightarrow> b \<in> set found \<or> (b \<in> set wanted \<and> has_name vs b))"
  using assms(4-)
proof (induction vs arbitrary: found dst)
  case Nil
  then show ?case by simp
next
  case (Cons v vs)
  obtain p n where v: "v = (p, n)" by fastforce
  let ?b = "base_of (path_base lp) p"
  show ?case
  proof (cases "is_dir n \<or> ?b \<notin> set wanted \<or> ?b \<in> set found")
    case True
    have "node_err n = None" using Cons.prems(1) by (cases n) (auto simp: v)
    then have "filter_cb e wanted lp (found, dst) p n = ((found, dst), WNil)"
      using True by (auto simp: filter_cb_def Let_def)
    moreover have bl: "\<not> is_dir n \<Longrightarrow> ?b = last p" using Cons.prems(1) by (auto simp: v base_of_def)
    moreover have "\<forall>(p, n) \<in> set vs. n \<noteq> FUnreadable \<and> (is_dir n \<or> p \<noteq> [])" using Cons.prems(1) by simp
    from Cons.IH [OF this Cons.prems(2), of found] Cons.prems(3)
    obtain found' dst' where w: "walk_seq (filter_cb e wanted lp) (found, dst) vs = ((found', dst'), WNil)"
      "\<And>b. b \<in> set found' \<longleftrightarrow> b \<in> set found \<or> (b \<in> set wanted \<and> has_name vs b)"
      by blast
    have "b \<in> set found' \<longleftrightarrow> b \<in> set found \<or> (b \<in> set wanted \<and> has_name (v # vs) b)" for b
      using True bl w(2) [of b] by (cases "is_dir n") (auto simp: v)
    ultimately show ?thesis using w(1) by (simp add: v)
  next
    case False
    have lp: "?b = last p" using Cons.prems(1) False by (auto simp: v base_of_def)
    have link: "\<not> is_dir (FLink (length (walk_path lp p)) (Some n))" by simp
    obtain d where d: "tree_put [path_base lp, ?b] (FLink (length (walk_path lp p)) (Some n)) dst = Some d" "two_level (path_base lp) d"
      using two_level_put [OF Cons.prems(2) link] by blast
    have "link_or_copy e (walk_path lp p) (Some n) [path_base lp, ?b] dst = Some d"
      using assms(1) d(1) Cons.prems(3) [of ?b] False walk_path_rooted [OF assms(2)] by (simp add: link_or_copy_def)
    moreover have "node_err n = None" using False by (cases n) auto
    ultimately have cb: "filter_cb e wanted lp (found, dst) p n = ((?b # found, d), WNil)"
      using False assms(3) by (simp add: filter_cb_def Let_def stage_elem_def)
    have "node_at d [path_base lp, b] = None" if "b \<notin> set (?b # found)" for b
    proof -
      obtain ys where ys: "dst = FDir [(path_base lp, FDir ys)]" using Cons.prems(2) by (auto simp: two_level_def)
      have "d = FDir [(path_base lp, FDir (set_entry ?b (FLink (length (walk_path lp p)) (Some n)) ys))]"
        using d(1) by (auto simp: ys set_entry_def split: option.splits if_splits)
      then show ?thesis using Cons.prems(3) [of b] that by (simp add: ys)
    qed
    then obtain found' dst' where w: "walk_seq (filter_cb e wanted lp) (?b # found, d) vs = ((found', dst'), WNil)"
      "\<forall>b. b \<in> set found' \<longleftrightarrow> b \<in> set (?b # found) \<or> (b \<in> set wanted \<and> has_name vs b)"
      using Cons.IH [OF _ d(2), of "?b # found"] Cons.prems(1) by auto
    then show ?thesis using cb False lp by (auto simp: v)
  qed
qed

lemma two_level_start: "two_level base (FDir [(base, FDir [])])"
  by (simp add: two_level_def)

lemma is_dir_cases: "is_dir n \<Longrightarrow> n \<noteq> FUnreadable \<Longrightarrow> \<exists>xs. n = FDir xs"
  by (cases n) auto

text \<open>The filtered branch over a directory.\<close>

lemma stage_filtered:
  assumes "fileFilter \<noteq> []" and "is_dir src" and "path_base lp \<noteq> [slash]"
  shows "stageLocalContent e lp (Some src) fileFilter =
     (case file_walk (filter_cb e (wanted_names fileFilter) lp) ([], FDir [(path_base lp, FDir [])]) src of
        ((found, dst), WErr err) \<Rightarrow> (dst, Inl err)
      | ((found, dst), _) \<Rightarrow>
          if length found \<noteq> length (wanted_names fileFilter) then (dst, Inl ''inventory has drifted'') else (dst, Inr ()))"
proof -
  have "resolve src = Some src" using assms(2) by (cases src) auto
  then show ?thesis using assms by (simp add: stageLocalContent_def Let_def)
qed

lemma found_all:
  assumes "distinct found" and "distinct wanted" and "set found \<subseteq> set wanted"
  shows "length found = length wanted \<longleftrightarrow> set found = set wanted"
  using assms by (metis card_subset_eq distinct_card finite_set)

lemma distinct_wanted: "distinct (wanted_names fileFilter)"
  by (simp add: wanted_names_def)

section \<open>What is fetched\<close>

lemma torrent_headers_lookup:
  "map_of (torrent_headers browser ck) k =
     (if k = ''Accept'' then Some ''application/x-bittorrent,*/*''
      else if k = ''Cookie'' \<and> ck \<noteq> [] then Some ck
      else map_of (BrowserHeaders browser) k)"
  by (simp add: torrent_headers_def Let_def update_conv')

lemma no_unzip: "body_seen f (torrent_headers browser ck) r = reply_body r"
  by (simp add: body_seen_def torrent_headers_lookup BrowserHeaders_def)

lemma validate_None:
  "validateTorrentBytes body = None \<Longrightarrow> (\<exists>cs. body = CHR ''d'' # cs) \<and> contains body ''4:info''
     \<and> \<not> contains (to_lower (trim_space (take 512 body))) ''<html''"
  by (cases body) (auto simp: validateTorrentBytes_def Let_def trim_prefix_def has_prefix_def split: if_splits)

text \<open>A fetch that succeeds, and what it has seen.\<close>

lemma fetch_Inr:
  assumes "fetchTorrentBytes e url browser cookies = Inr body"
  obtains scheme host r where "parse_url e url = Inr (scheme, host)" and "scheme \<in> {''http'', ''https''}"
    and "server e url (torrent_headers browser (CookieHeader (LoadCookies (jars e) cookies host))) = Inr r"
    and "reply_status r = 200" and "body = reply_body r" and "length body \<le> maxTorrentBytes"
    and "validateTorrentBytes body = None"
proof -
  from assms obtain scheme host where u: "parse_url e url = Inr (scheme, host)" "scheme \<in> {''http'', ''https''}"
    by (auto simp: fetchTorrentBytes_def split: if_splits sum.splits)
  let ?hs = "torrent_headers browser (CookieHeader (LoadCookies (jars e) cookies host))"
  from assms u obtain r where r: "server e url ?hs = Inr r"
    by (auto simp: fetchTorrentBytes_def Let_def split: if_splits sum.splits)
  let ?body = "take (Suc maxTorrentBytes) (reply_body r)"
  have rest: "(if reply_status r \<noteq> 200 then Inl (OtherFetch ''fetch .torrent: HTTP'')
       else if reply_broken r then Inl (OtherFetch ''read .torrent'')
       else if length ?body > maxTorrentBytes then Inl (OtherFetch ''refusing .torrent larger than the cap'')
       else case validateTorrentBytes ?body of Some err \<Rightarrow> Inl err | None \<Rightarrow> Inr ?body) = Inr body"
    using assms u r by (auto simp: fetchTorrentBytes_def Let_def no_unzip split: if_splits)
  then have "reply_status r = 200" "length ?body \<le> maxTorrentBytes" "validateTorrentBytes ?body = None" "?body = body"
    by (auto split: if_splits option.splits)
  moreover from this(2) have "?body = reply_body r" by (intro take_all) (auto simp: min_def split: if_splits)
  ultimately show thesis using that u r by simp
qed

section \<open>What is cached\<close>

lemma cache_path_source:
  "GetOfferSource h (fst (cache_path exists roots saves now st r)) =
     (if h = PubHash r \<and> h \<noteq> [] \<and> PubPath r \<noteq> [] \<and> resolveAgainstRoots exists roots (PubPath r) \<noteq> [] \<and> saves r
      then (GetOfferSource h (fst st))\<lparr>LocalPath := resolveAgainstRoots exists roots (PubPath r), SizeBytes := PubSize r\<rparr>
      else GetOfferSource h (fst st))"
  by (cases st) (auto simp: cache_path_def Let_def UpsertOfferPath_def offer_routes_merge fill_def)

lemma resolve_exists:
  "resolveAgainstRoots exists roots rel = p \<Longrightarrow> p \<noteq> [] \<Longrightarrow> exists p"
proof -
  have "first_existing exists rel roots = p \<Longrightarrow> p \<noteq> [] \<Longrightarrow> exists p" for p
    by (induction roots) (auto simp: Let_def split: if_splits)
  then show "resolveAgainstRoots exists roots rel = p \<Longrightarrow> p \<noteq> [] \<Longrightarrow> exists p"
    by (auto simp: resolveAgainstRoots_def split: if_splits)
qed

section \<open>The remote route\<close>

lemma remote_route_char:
  assumes "F_MaxGB c < 2 ^ 33"
  shows "chooseFulfillRoute src (Some c) = RouteRemote \<longleftrightarrow>
     LocalPath src = [] \<and> TorrentURL src \<noteq> [] \<and> F_Remote c
     \<and> (F_MaxGB c \<le> 0 \<or> SizeBytes src \<le> F_MaxGB c * 2 ^ 30)"
proof -
  have small: "sint (word_of_int x :: 64 word) = x" if "0 \<le> x" "x < 2 ^ 63" for x
    using that by transfer (simp add: signed_take_bit_int_eq_self)
  have "i64 (i64 (F_MaxGB c) * 2 ^ 30) = F_MaxGB c * 2 ^ 30" if "F_MaxGB c > 0"
    using that assms small [of "F_MaxGB c"] small [of "F_MaxGB c * 2 ^ 30"] by (simp add: i64_def)
  then show ?thesis by (cases "F_MaxGB c > 0") (auto simp: chooseFulfillRoute_def)
qed

section \<open>Properties\<close>

text \<open>
  C20. A request scoped to named files is staged exactly: when \<^verbatim>\<open>stageLocalContent\<close> succeeds on a folder, the
  stage directory holds one directory with the name of the folder, and in it the wanted names and
  nothing else, each reading as a file of the folder with that base name.
\<close>

theorem stage_filter_exact:
  assumes "stageLocalContent e localPath (Some src) fileFilter = (t, Inr ())" and "fileFilter \<noteq> []"
    and "is_dir src" and "wf_tree src" and "path_rooted localPath" and "path_base localPath \<noteq> [slash]"
  shows "(file_at t p \<noteq> None \<longleftrightarrow> (\<exists>b \<in> set (wanted_names fileFilter). p = [path_base localPath, b]))
     \<and> (\<forall>b \<in> set (wanted_names fileFilter). \<exists>q n m. file_at src q = Some n \<and> q \<noteq> [] \<and> last q = b
          \<and> file_at t [path_base localPath, b] = Some m \<and> resolve m = resolve n)"
proof -
  let ?w = "wanted_names fileFilter"
  obtain found dst r where walk: "file_walk (filter_cb e ?w localPath) ([], FDir [(path_base localPath, FDir [])]) src = ((found, dst), r)"
    by (metis prod.exhaust)
  have ok: "staged_ok (path_base localPath) ?w src (found, dst)"
    using filter_walk_ok [OF assms(4,3,5,6), of ?w e] by (simp add: walk)
  have "t = dst \<and> length found = length ?w"
    using assms(1) by (cases r) (auto simp: stage_filtered [OF assms(2,3,6)] walk split: if_splits)
  moreover have "distinct found" "set found \<subseteq> set ?w" using ok by (simp_all add: staged_ok_def)
  ultimately have "t = dst" "set found = set ?w" using found_all [OF _ distinct_wanted] by auto
  then show ?thesis using ok by (simp add: staged_ok_def)
qed

definition demo_show :: fnode where
  "demo_show = FDir [(''S01'', FDir [(''e01.mkv'', FFile [1, 2]), (''e02.mkv'', FFile [3])]), (''nfo.txt'', FFile [4])]"

definition demo_stage :: stage_env where
  "demo_stage = \<lparr>link_ok = (\<lambda>p. True), from_link = (\<lambda>p. None)\<rparr>"

theorem stage_filter_exact_witness:
  "file_at (FDir [(''Show'', FDir [(''e02.mkv'', FLink 23 (Some (FFile [3])))])]) [''Show'', ''e02.mkv''] \<noteq> None"
proof -
  have s: "stageLocalContent demo_stage ''/media/Show'' (Some demo_show) ['' e02.mkv'']
      = (FDir [(''Show'', FDir [(''e02.mkv'', FLink 23 (Some (FFile [3])))])], Inr ())"
    by code_simp
  have b: "path_base ''/media/Show'' = ''Show''" "set (wanted_names ['' e02.mkv'']) = {''e02.mkv''}"
    "is_dir demo_show" "wf_tree demo_show" "path_rooted ''/media/Show''" "''Show'' \<noteq> [slash]"
    by code_simp+
  from stage_filter_exact [OF s, of "[''Show'', ''e02.mkv'']", unfolded b(1)] b(2-) show ?thesis by simp
qed

text \<open>
  When every link or copy succeeds and the folder can be listed, staging a scoped request succeeds
  exactly when every wanted name is the base name of a file of the folder, at any depth.
\<close>

theorem stage_filter_total:
  assumes "\<And>p. link_ok e p" and "is_dir src" and "wf_tree src" and "listable src"
    and "fileFilter \<noteq> []" and "path_rooted localPath" and "path_base localPath \<noteq> [slash]"
  shows "snd (stageLocalContent e localPath (Some src) fileFilter) = Inr ()
     \<longleftrightarrow> (\<forall>b \<in> set (wanted_names fileFilter). \<exists>q n. file_at src q = Some n \<and> last q = b)"
proof -
  let ?w = "wanted_names fileFilter" and ?vs = "visits no_skip [] src"
  have vs: "\<forall>(p, n) \<in> set ?vs. n \<noteq> FUnreadable \<and> (is_dir n \<or> p \<noteq> [])"
    using listable_visits(1) [OF assms(4)] visited_file [OF assms(3,2)] by blast
  from filter_walk_finds [OF assms(1,6,7) vs two_level_start, of "[]" ?w]
  obtain found dst where w: "walk_seq (filter_cb e ?w localPath) ([], FDir [(path_base localPath, FDir [])]) ?vs = ((found, dst), WNil)"
    "\<forall>b. b \<in> set found \<longleftrightarrow> b \<in> set ?w \<and> has_name ?vs b"
    by auto
  then have walk: "file_walk (filter_cb e ?w localPath) ([], FDir [(path_base localPath, FDir [])]) src = ((found, dst), WNil)"
    by (simp add: file_walk_seq [OF obeys_filter_cb])
  have "staged_ok (path_base localPath) ?w src (found, dst)"
    using filter_walk_ok [OF assms(3,2,6,7), of ?w e] by (simp add: walk)
  then have d: "distinct found" "set found \<subseteq> set ?w" by (simp_all add: staged_ok_def)
  have "snd (stageLocalContent e localPath (Some src) fileFilter) = Inr () \<longleftrightarrow> set found = set ?w"
    using found_all [OF d(1) distinct_wanted d(2)] by (simp add: stage_filtered [OF assms(5,2,7)] walk)
  also have "\<dots> \<longleftrightarrow> (\<forall>b \<in> set ?w. has_name ?vs b)" using w(2) by auto
  also have "\<dots> \<longleftrightarrow> (\<forall>b \<in> set ?w. \<exists>q n. file_at src q = Some n \<and> last q = b)"
    using visits_file_at(1) [OF assms(3), of "[]" _ _ no_skip]
    by (fastforce simp: has_name_def list_ex_iff no_skip_def)
  finally show ?thesis by simp
qed

theorem stage_filter_total_witness:
  "snd (stageLocalContent demo_stage ''/media/Show'' (Some demo_show) [''e02.mkv'', ''e01.mkv'']) = Inr ()"
proof -
  have w: "set (wanted_names [''e02.mkv'', ''e01.mkv'']) = {''e02.mkv'', ''e01.mkv''}" by code_simp
  have f: "file_at demo_show [''S01'', ''e02.mkv''] = Some (FFile [3])" "file_at demo_show [''S01'', ''e01.mkv''] = Some (FFile [1, 2])"
    by code_simp+
  have "\<forall>b \<in> {''e02.mkv'', ''e01.mkv''}. \<exists>q n. file_at demo_show q = Some n \<and> last q = b"
    using f by (metis insert_iff last.simps list.distinct(1) singletonD)
  then show ?thesis
    by (subst stage_filter_total)
       (simp_all add: demo_stage_def w, simp_all add: demo_show_def path_rooted_def has_prefix_def slash_def path_base_def
          trim_right_by_def)
qed

text \<open>
  What \<^verbatim>\<open>fetchTorrentBytes\<close> hands on came from an HTTP or HTTPS address with status 200, whole (never
  cut at the cap), at most 4 MiB, starts as a bencoded dictionary with an info key, and is not a web
  page; the request carried the agent string of the source's browser and the cookies of the host.
\<close>

theorem fetch_sound:
  assumes "fetchTorrentBytes e url browser cookies = Inr body"
  shows "\<exists>scheme host r hs. parse_url e url = Inr (scheme, host) \<and> scheme \<in> {''http'', ''https''}
     \<and> server e url hs = Inr r \<and> reply_status r = 200 \<and> reply_body r = body \<and> length body \<le> maxTorrentBytes
     \<and> (\<exists>cs. body = CHR ''d'' # cs) \<and> contains body ''4:info''
     \<and> \<not> contains (to_lower (trim_space (take 512 body))) ''<html''
     \<and> map_of hs ''User-Agent'' = Some (UserAgentFor browser)
     \<and> map_of hs ''Cookie'' = (let ck = CookieHeader (LoadCookies (jars e) cookies host) in if ck = [] then None else Some ck)"
proof -
  from fetch_Inr [OF assms] obtain scheme host r where r: "parse_url e url = Inr (scheme, host)" "scheme \<in> {''http'', ''https''}"
    "server e url (torrent_headers browser (CookieHeader (LoadCookies (jars e) cookies host))) = Inr r"
    "reply_status r = 200" "body = reply_body r" "length body \<le> maxTorrentBytes" "validateTorrentBytes body = None"
    by blast
  let ?hs = "torrent_headers browser (CookieHeader (LoadCookies (jars e) cookies host))"
  have "map_of ?hs ''User-Agent'' = Some (UserAgentFor browser)"
    "map_of ?hs ''Cookie'' = (let ck = CookieHeader (LoadCookies (jars e) cookies host) in if ck = [] then None else Some ck)"
    by (simp_all add: torrent_headers_lookup BrowserHeaders_def Let_def)
  then show ?thesis using r validate_None [OF r(7)] by (intro exI [of _ scheme] exI [of _ host] exI [of _ r] exI [of _ ?hs]) simp
qed

definition demo_fetch :: fetch_env where
  "demo_fetch =
     \<lparr>parse_url = (\<lambda>u. Inr (''https'', ''tracker.example.com'')),
      jars = (\<lambda>p. Some [(''example.com'', [(''sid'', ''7'')])]),
      server = (\<lambda>u hs. Inr \<lparr>reply_status = 200, reply_gzip = False, reply_body = ''d4:infode'', reply_broken = False\<rparr>),
      unzip = (\<lambda>s. s)\<rparr>"

theorem fetch_sound_witness:
  "\<exists>scheme host r hs. parse_url demo_fetch ''https://t/1'' = Inr (scheme, host) \<and> scheme \<in> {''http'', ''https''}
     \<and> server demo_fetch ''https://t/1'' hs = Inr r \<and> reply_status r = 200 \<and> reply_body r = ''d4:infode'' \<and> length ''d4:infode'' \<le> maxTorrentBytes
     \<and> (\<exists>cs. ''d4:infode'' = CHR ''d'' # cs) \<and> contains ''d4:infode'' ''4:info''
     \<and> \<not> contains (to_lower (trim_space (take 512 ''d4:infode''))) ''<html''
     \<and> map_of hs ''User-Agent'' = Some (UserAgentFor ''firefox'')
     \<and> map_of hs ''Cookie'' = (let ck = CookieHeader (LoadCookies (jars demo_fetch) ''c.json'' host) in if ck = [] then None else Some ck)"
proof (rule fetch_sound)
  have "validateTorrentBytes ''d4:infode'' = None" by code_simp
  then show "fetchTorrentBytes demo_fetch ''https://t/1'' ''firefox'' ''c.json'' = Inr ''d4:infode''"
    by (simp add: fetchTorrentBytes_def demo_fetch_def no_unzip maxTorrentBytes_def)
qed

text \<open>
  A tracker that compresses its answer is never understood: the request asks for gzip itself, so the
  transport does not decode the body, and no gzip stream is taken for a torrent, whatever torrent it
  holds.
\<close>

theorem compressed_torrent_refused:
  assumes "\<And>hs. server e url hs = Inr r" and "reply_gzip r" and "reply_body r = CHR 0x1F # rest"
  shows "fetchTorrentBytes e url browser cookies \<noteq> Inr body"
proof
  assume "fetchTorrentBytes e url browser cookies = Inr body"
  from fetch_Inr [OF this] have "validateTorrentBytes (reply_body r) = None" using assms(1) by auto
  then show False using validate_None [of "reply_body r"] assms(3) by auto
qed

definition demo_gzip :: fetch_env where
  "demo_gzip =
     \<lparr>parse_url = (\<lambda>u. Inr (''https'', ''tracker.example.com'')), jars = (\<lambda>p. None),
      server = (\<lambda>u hs. Inr \<lparr>reply_status = 200, reply_gzip = True, reply_body = [CHR 0x1F, CHR 0x8B], reply_broken = False\<rparr>),
      unzip = (\<lambda>s. ''d4:infode'')\<rparr>"

theorem compressed_torrent_refused_witness:
  "fetchTorrentBytes demo_gzip ''https://t/1'' ''firefox'' [] \<noteq> Inr (unzip demo_gzip [CHR 0x1F, CHR 0x8B])"
  by (rule compressed_torrent_refused
        [where r = "\<lparr>reply_status = 200, reply_gzip = True, reply_body = [CHR 0x1F, CHR 0x8B], reply_broken = False\<rparr>" and rest = "[CHR 0x8B]"])
     (simp_all add: demo_gzip_def)

text \<open>
  A jar that the site has pushed is the jar of the next request: after \<^verbatim>\<open>WriteCookieJar\<close> succeeds, the
  cookies of a domain of the jar are exactly the pushed ones, and when it fails the old jar is untouched.
\<close>

theorem cookies_roundtrip:
  assumes "p \<noteq> []" and "domain \<noteq> []" and "map_of jar domain = Some cookies"
  shows "LoadCookies (fst (WriteCookieJar True True p (Some jar) fs)) p domain = cookies
     \<and> (snd (WriteCookieJar write_ok rename_done p (Some jar) fs) \<or> fst (WriteCookieJar write_ok rename_done p (Some jar) fs) p = fs p)"
  using assms by (simp add: WriteCookieJar_def LoadCookies_def Let_def)

theorem cookies_roundtrip_witness:
  "LoadCookies (fst (WriteCookieJar True True ''c.json'' (Some [(''a.b'', [(''sid'', ''7'')])]) Map.empty)) ''c.json'' ''a.b'' = [(''sid'', ''7'')]"
  using cookies_roundtrip [of "''c.json''" "''a.b''" "[(''a.b'', [(''sid'', ''7'')])]" "[(''sid'', ''7'')]" Map.empty] by simp

text \<open>
  With two entries for parents of a domain, the cookies that are sent depend on the order in which
  Go iterates over the map, not on which parent is nearer.
\<close>

theorem cookies_depend_on_order:
  assumes "p \<noteq> []" and "d \<noteq> []" and "d \<noteq> d1" and "d \<noteq> d2" and "has_suffix d (dot # d1)" and "has_suffix d (dot # d2)"
  shows "LoadCookies (\<lambda>q. Some [(d1, c1), (d2, c2)]) p d = c1 \<and> LoadCookies (\<lambda>q. Some [(d2, c2), (d1, c1)]) p d = c2"
  using assms by (simp add: LoadCookies_def)

theorem cookies_depend_on_order_witness:
  "LoadCookies (\<lambda>q. Some [(''b.c'', [(''near'', ''1'')]), (''c'', [(''far'', ''2'')])]) ''c.json'' ''a.b.c'' = [(''near'', ''1'')]
     \<and> LoadCookies (\<lambda>q. Some [(''c'', [(''far'', ''2'')]), (''b.c'', [(''near'', ''1'')])]) ''c.json'' ''a.b.c'' = [(''far'', ''2'')]"
  by (rule cookies_depend_on_order) (simp_all add: has_suffix_def dot_def suffix_def)

text \<open>
  Refreshing the published paths only ever adds local routes that exist: for every bucket the torrent
  address and its source stay as they were, and a local path that changed is one that \<^verbatim>\<open>os.Stat\<close> has found
  and that the site listed for that bucket.
\<close>

theorem refresh_sound:
  "TorrentURL (GetOfferSource h (fst (refreshPublishedPaths exists cfg saves now answer d))) = TorrentURL (GetOfferSource h d)
   \<and> SourceShort (GetOfferSource h (fst (refreshPublishedPaths exists cfg saves now answer d))) = SourceShort (GetOfferSource h d)
   \<and> (LocalPath (GetOfferSource h (fst (refreshPublishedPaths exists cfg saves now answer d))) = LocalPath (GetOfferSource h d)
      \<or> (exists (LocalPath (GetOfferSource h (fst (refreshPublishedPaths exists cfg saves now answer d))))
         \<and> (\<exists>rows. answer = Some rows \<and> h \<in> PubHash ` set rows)))"
proof (cases answer)
  case None
  then show ?thesis by (simp add: refreshPublishedPaths_def)
next
  case (Some rows)
  let ?step = "cache_path exists (inventoryRoots cfg) saves now"
  have "TorrentURL (GetOfferSource h (fst (foldl ?step st rows))) = TorrentURL (GetOfferSource h (fst st))
     \<and> SourceShort (GetOfferSource h (fst (foldl ?step st rows))) = SourceShort (GetOfferSource h (fst st))
     \<and> (LocalPath (GetOfferSource h (fst (foldl ?step st rows))) = LocalPath (GetOfferSource h (fst st))
        \<or> (exists (LocalPath (GetOfferSource h (fst (foldl ?step st rows)))) \<and> h \<in> PubHash ` set rows))" for st
  proof (induction rows arbitrary: st)
    case (Cons r rs)
    let ?g = "\<lambda>st. GetOfferSource h (fst st)"
    have "TorrentURL (?g (?step st r)) = TorrentURL (?g st) \<and> SourceShort (?g (?step st r)) = SourceShort (?g st)
       \<and> (LocalPath (?g (?step st r)) = LocalPath (?g st) \<or> (exists (LocalPath (?g (?step st r))) \<and> h = PubHash r))"
      using resolve_exists [of exists "inventoryRoots cfg" "PubPath r"] by (simp add: cache_path_source)
    then show ?case using Cons.IH [of "?step st r"] by auto
  qed simp
  from this [of "(d, 0, 0)"] show ?thesis by (simp add: refreshPublishedPaths_def Some)
qed

text \<open>
  The roots do not confine what is served. Whatever they are, when the site lists an absolute path that
  exists for a bucket, the next request for that bucket takes the local route with that path.
\<close>

theorem absolute_path_served:
  assumes "path_rooted p" and "exists p" and "h \<noteq> []" and "saves \<lparr>PubHash = h, PubPath = p, PubSize = n\<rparr>"
  shows "LocalPath (GetOfferSource h (fst (refreshPublishedPaths exists cfg saves now (Some [\<lparr>PubHash = h, PubPath = p, PubSize = n\<rparr>]) d))) = p
     \<and> chooseFulfillRoute (GetOfferSource h (fst (refreshPublishedPaths exists cfg saves now (Some [\<lparr>PubHash = h, PubPath = p, PubSize = n\<rparr>]) d))) c
         = RouteLocal"
  using assms path_rooted_ne [OF assms(1)]
  by (simp add: refreshPublishedPaths_def cache_path_source resolveAgainstRoots_def chooseFulfillRoute_def)

definition demo_offer_config :: "offer_config" where
  "demo_offer_config =
     \<lparr>F_Remote = True, F_MaxGB = 25, F_TimeoutMin = 240, F_InventoryRoots = ''/media/anime'', F_Loaded = None,
      F_Pub = Cfg (demo_job False), F_Seed = \<lparr>UploadKBps = 0, RatioTarget = 0, MaxHours = 0, RequireFull = False, StallMins = 0, ListenPort = 0\<rparr>\<rparr>"

theorem absolute_path_served_witness:
  "LocalPath (GetOfferSource ''h1'' (fst (refreshPublishedPaths (\<lambda>p. p = ''/root/diary.txt'') demo_offer_config (\<lambda>r. True) 0
      (Some [\<lparr>PubHash = ''h1'', PubPath = ''/root/diary.txt'', PubSize = 3\<rparr>]) empty_db))) = ''/root/diary.txt''"
  using absolute_path_served [of "''/root/diary.txt''" "\<lambda>p. p = ''/root/diary.txt''" "''h1''" "\<lambda>r. True" 3 demo_offer_config 0 empty_db]
  by (simp add: path_rooted_def has_prefix_def slash_def)

text \<open>
  A remote download is chosen only when nothing is cached locally, an address is known, the operator
  has switched remote fulfilment on, and the scraped size is within the configured limit (any limit
  below 2^33 GB, beyond which the 64-bit product wraps).
\<close>

theorem remote_route_iff:
  assumes "F_MaxGB c < 2 ^ 33"
  shows "chooseFulfillRoute src (Some c) = RouteRemote \<longleftrightarrow>
     LocalPath src = [] \<and> TorrentURL src \<noteq> [] \<and> F_Remote c
     \<and> (F_MaxGB c \<le> 0 \<or> SizeBytes src \<le> F_MaxGB c * 2 ^ 30)"
  using remote_route_char [OF assms] .

theorem remote_route_iff_witness:
  "chooseFulfillRoute \<lparr>LocalPath = [], TorrentURL = ''https://t/1'', SourceShort = ''ab'', SizeBytes = 7\<rparr> (Some demo_offer_config) = RouteRemote"
  by (subst remote_route_iff) (simp_all add: demo_offer_config_def)

end
