(* ===== verification/OfferFulfill.thy ===== *)
theory OfferFulfill
  imports Task OfferRoute
begin

text \<open>
  Serving the requests for offers (\<^verbatim>\<open>services/offer_fulfill.go\<close>, \<^verbatim>\<open>services/offer_fulfill_remote.go\<close>): the
  poll and, for each request, the choice of the route, the claim, the content, the publish pipeline and
  the delivery or the release of the claim. The world is the one of \<open>Publish\<close> with the ledger, the store
  and the calls made to the site in order; what the site, the libraries and the system answer is in
  \<open>fulfil_env\<close>. A deferred call of the handler is a function applied to the world its body leaves. The
  goroutine that re-claims the request every seven minutes changes nothing but the log and is left out.
\<close>

section \<open>Requests, world and environment\<close>

record pending_request =
  QID :: int
  QStatus :: string
  QHash :: string
  QFilter :: "string list"

text \<open>The answers of the site: \<open>None\<close> is an error of the call.\<close>

datatype site_call =
    SiteClaim int "bool option"
  | SiteFail int
  | SiteDeliver int string publishResult "int option"
  | SiteShots int nat
  | SiteSubtitle int audioTrack

record offer_world =
  FW :: world
  FSpace :: ledger
  FDb :: db
  FCalls :: "site_call list"

record 'seg fulfil_env =
  v_db_err :: bool
  v_fs :: "string \<Rightarrow> fnode option"
  v_claim :: "bool option"
  v_fetch :: fetch_env
  v_lib :: "string option"
  v_below95 :: "int \<Rightarrow> int \<Rightarrow> bool"
  v_free :: "u64 option"
  v_len :: int
  v_dl_start :: int
  v_dl :: "dl_event list"
  v_dl_files :: "(string \<times> fnode) list option"
  v_suffix :: "string option"
  v_stage :: stage_env
  v_stamp :: string
  v_pub :: "'seg pub_env"
  v_media :: "fnode \<Rightarrow> media"
  v_upload :: "int option"

definition call_site :: "site_call \<Rightarrow> offer_world \<Rightarrow> offer_world" where
  "call_site c w = w\<lparr>FCalls := FCalls w @ [c]\<rparr>"

definition offer_job :: "pending_request \<Rightarrow> string" where
  "offer_job r = ''offer-'' @ itoa (QID r)"

text \<open>\<^verbatim>\<open>os.Stat\<close>.\<close>

definition stat_ok :: "(string \<Rightarrow> fnode option) \<Rightarrow> string \<Rightarrow> bool" where
  "stat_ok fs p = (case fs p of None \<Rightarrow> False | Some n \<Rightarrow> resolve n \<noteq> None)"

text \<open>\<^verbatim>\<open>storage.UpdateState\<close> with the job's name; the details are left out.\<close>

definition offer_mark :: "'seg fulfil_env \<Rightarrow> pending_request \<Rightarrow> string \<Rightarrow> jobs_map option \<Rightarrow> jobs_map option" where
  "offer_mark e r step m =
     (case op_locked (OpUpdate (offer_job r) step [] 0 (v_stamp e)) m of Some m' \<Rightarrow> m' | None \<Rightarrow> m)"

section \<open>The remote content\<close>

text \<open>How many times the download loop writes the state of the job: at each tick of a torrent with a
  length, and at the end.\<close>

fun dl_updates :: "(int \<Rightarrow> int \<Rightarrow> bool) \<Rightarrow> rules \<Rightarrow> int \<Rightarrow> int \<Rightarrow> dl_event list \<Rightarrow> dl_state \<Rightarrow> nat" where
  "dl_updates below95 r len startedAt [] s = 0"
| "dl_updates below95 r len startedAt (Cancel # es) s = 0"
| "dl_updates below95 r len startedAt (WaitAllDone # es) s = 1"
| "dl_updates below95 r len startedAt (Tick k # es) s =
     (case dl_tick below95 r len startedAt s k of
        None \<Rightarrow> 1
      | Some (s', ws) \<Rightarrow> (if len \<le> 0 then 0 else 1) + dl_updates below95 r len startedAt es s')"

text \<open>The download runs under a timeout, so the loop sees a cancellation at the latest after the events of
  \<open>v_dl\<close>. \<open>v_dl_files\<close> is what is then in the data directory, which the download creates; a data
  directory that is a file (the last branch of the code) does not occur. The result is the name of the
  directory and of the release.\<close>

definition downloadRemote ::
  "'seg fulfil_env \<Rightarrow> offer_config \<Rightarrow> pending_request \<Rightarrow> OfferSourceRow \<Rightarrow> offer_world \<Rightarrow> offer_world \<times> (string + string \<times> string)" where
  "downloadRemote e cfg r src w =
     (case fetchTorrentBytes (v_fetch e) (TorrentURL src) (browserFor cfg (SourceShort src)) (cookiesPath cfg) of
        Inl err \<Rightarrow> (w, Inl ''fetch .torrent'')
      | Inr blob \<Rightarrow>
          (let job = offer_job r; events = v_dl e @ [Cancel];
               w1 = (case v_dl_files e of None \<Rightarrow> w | Some xs \<Rightarrow> w\<lparr>FW := set_temp (dl_name job) (FDir xs) (FW w)\<rparr>)
           in case v_lib e of
                Some err \<Rightarrow> (w1, Inl ''download'')
              | None \<Rightarrow>
                  (case DownloadPrivateTorrentBytes (v_below95 e) (v_free e) (F_Seed cfg) (P_TempDir (F_Pub cfg)) job None
                          (v_len e) (v_dl_start e) events (FSpace w1) of
                     (l, res) \<Rightarrow>
                       (let n = (if snd (preflight (v_free e) job (v_len e) (FSpace w1)) = None
                                 then dl_updates (v_below95 e) (rules_of None (F_Seed cfg)) (v_len e) (v_dl_start e) events dl_init
                                 else 0);
                            w2 = w1\<lparr>FSpace := l,
                                    FW := (FW w1)\<lparr>JobsMap := (offer_mark e r ''Downloading'' ^^ n) (JobsMap (FW w1))\<rparr>\<rparr>
                        in case res of
                             Some (Inr p) \<Rightarrow>
                               (case map_of (Temp (FW w2)) (dl_name job) of
                                  None \<Rightarrow> (w2, Inl ''stat downloaded payload'')
                                | Some n \<Rightarrow> (w2, Inr (dl_name job, path_base p)))
                           | _ \<Rightarrow> (w2, Inl ''download'')))))"

section \<open>One request\<close>

definition offer_publish :: "'seg fulfil_env \<Rightarrow> offer_config \<Rightarrow> pending_request \<Rightarrow> string \<Rightarrow> fnode \<Rightarrow> string \<Rightarrow> publishJob" where
  "offer_publish e cfg r dirname tree releaseName =
     \<lparr>Cfg = F_Pub cfg, JobName = offer_job r, PTitle = trim_suffix releaseName (file_ext releaseName), PRequestID = QID r,
      ContentRoot = dirname, Content = tree, Describe = True, JProgress = offer_mark e r\<rparr>"

definition failRequest :: "pending_request \<Rightarrow> offer_world \<Rightarrow> offer_world" where
  "failRequest r w = call_site (SiteFail (QID r)) w"

text \<open>Steps 4 to 6: publish, deliver, and the images and subtitles of a delivery with an id.\<close>

definition extras :: "int \<Rightarrow> publishResult \<Rightarrow> site_call list" where
  "extras nzbID pub =
     (if nzbID > 0
      then (if description.Screenshots (Described pub) \<noteq> []
            then [SiteShots nzbID (length (description.Screenshots (Described pub)))] else [])
           @ map (SiteSubtitle nzbID) (Subtitles (Described pub))
      else [])"

definition publish_and_deliver ::
  "'seg fulfil_env \<Rightarrow> offer_config \<Rightarrow> pending_request \<Rightarrow> string \<Rightarrow> string \<Rightarrow> offer_world \<Rightarrow> offer_world" where
  "publish_and_deliver e cfg r dirname releaseName w =
     (let tree = temp_tree dirname (FW w)
      in case PublishDirectory (v_pub e) (v_media e tree) (offer_publish e cfg r dirname tree releaseName) (FW w) of
           (tw, Inl err) \<Rightarrow> failRequest r (w\<lparr>FW := tw\<rparr>)
         | (tw, Inr pub) \<Rightarrow>
             (let w1 = call_site (SiteDeliver (QID r) (releaseName @ ''.nzb'') pub (v_upload e)) (w\<lparr>FW := tw\<rparr>)
              in case v_upload e of
                   None \<Rightarrow> failRequest r w1
                 | Some nzbID \<Rightarrow> w1\<lparr>FCalls := FCalls w1 @ extras nzbID pub\<rparr>))"

text \<open>Step 3: the content by one of the two routes; \<open>v_suffix\<close> is the random part of \<^verbatim>\<open>os.MkdirTemp\<close>'s name,
  which is never that of an existing entry. The directory is removed when the handler returns, but
  only once the content is there (remote) or the directory is made (local).\<close>

definition remove_content :: "string \<Rightarrow> offer_world \<Rightarrow> offer_world" where
  "remove_content dirname w = w\<lparr>FW := remove_temp dirname (FW w)\<rparr>"

definition serve_remote :: "'seg fulfil_env \<Rightarrow> offer_config \<Rightarrow> pending_request \<Rightarrow> OfferSourceRow \<Rightarrow> offer_world \<Rightarrow> offer_world" where
  "serve_remote e cfg r src w =
     (case downloadRemote e cfg r src w of
        (w1, Inl err) \<Rightarrow> failRequest r w1
      | (w1, Inr (dirname, releaseName)) \<Rightarrow>
          remove_content dirname (publish_and_deliver e cfg r dirname releaseName w1))"

definition temp_name :: "pending_request \<Rightarrow> string \<Rightarrow> string" where
  "temp_name r suf = offer_job r @ ''-'' @ suf"

definition serve_local :: "'seg fulfil_env \<Rightarrow> offer_config \<Rightarrow> pending_request \<Rightarrow> string \<Rightarrow> offer_world \<Rightarrow> offer_world" where
  "serve_local e cfg r localPath w =
     (case v_suffix e of
        None \<Rightarrow> failRequest r w
      | Some suf \<Rightarrow>
          (let dirname = temp_name r suf
           in if map_of (Temp (FW w)) dirname \<noteq> None then failRequest r w
              else
                remove_content dirname
                  (case stageLocalContent (v_stage e) localPath (v_fs e localPath) (QFilter r) of
                     (t, Inl err) \<Rightarrow> failRequest r (w\<lparr>FW := set_temp dirname t (FW w)\<rparr>)
                   | (t, Inr u) \<Rightarrow>
                       publish_and_deliver e cfg r dirname (path_base localPath) (w\<lparr>FW := set_temp dirname t (FW w)\<rparr>))))"

definition release_offer :: "pending_request \<Rightarrow> offer_world \<Rightarrow> offer_world" where
  "release_offer r w = w\<lparr>FSpace := ReleaseDisk (offer_job r) (FSpace w)\<rparr>"

definition fulfillOne :: "'seg fulfil_env \<Rightarrow> offer_config \<Rightarrow> pending_request \<Rightarrow> offer_world \<Rightarrow> offer_world" where
  "fulfillOne e cfg r w =
     (if v_db_err e then w
      else
        (let src = GetOfferSource (QHash r) (FDb w); route = chooseFulfillRoute src (Some cfg)
         in if QFilter r \<noteq> [] \<and> route = RouteRemote then w
            else if route = RouteNone then w
            else if route = RouteRemoteDisabled then w
            else if route = RouteLocal \<and> \<not> stat_ok (v_fs e) (LocalPath src) then w
            else
              (let w1 = call_site (SiteClaim (QID r) (v_claim e)) w
               in if v_claim e \<noteq> Some True then w1
                  else release_offer r
                         (if route = RouteRemote then serve_remote e cfg r src w1
                          else serve_local e cfg r (LocalPath src) w1))))"

section \<open>The poll\<close>

text \<open>The list of requests and of published paths (\<open>None\<close> for an error), and for the \<open>k\<close>-th request
  whether the agent is stopping before it and what answers it.\<close>

record 'seg round_env =
  t_pending :: "pending_request list option"
  t_published :: "published_path list option"
  t_saves :: "published_path \<Rightarrow> bool"
  t_now :: int
  t_fs :: "string \<Rightarrow> fnode option"
  t_stop :: "nat \<Rightarrow> bool"
  t_env :: "nat \<Rightarrow> 'seg fulfil_env"

fun serve_all :: "'seg round_env \<Rightarrow> offer_config \<Rightarrow> nat \<Rightarrow> pending_request list \<Rightarrow> offer_world \<Rightarrow> offer_world" where
  "serve_all x cfg k [] w = w"
| "serve_all x cfg k (r # rs) w =
     (if t_stop x k then w
      else if QStatus r \<noteq> ''open'' \<and> QStatus r \<noteq> ''claimed'' then serve_all x cfg (Suc k) rs w
      else serve_all x cfg (Suc k) rs (fulfillOne (t_env x k) cfg r w))"

definition runOnce :: "'seg round_env \<Rightarrow> offer_config \<Rightarrow> offer_world \<Rightarrow> offer_world" where
  "runOnce x cfg w =
     (case t_pending x of
        None \<Rightarrow> w
      | Some requests \<Rightarrow>
          if requests = [] then w
          else serve_all x cfg 0 requests
                 (w\<lparr>FDb := fst (refreshPublishedPaths (stat_ok (t_fs x)) cfg (t_saves x) (t_now x) (t_published x) (FDb w))\<rparr>))"

section \<open>The calls made\<close>

fun is_verdict :: "site_call \<Rightarrow> bool" where
  "is_verdict (SiteFail i) = True"
| "is_verdict (SiteDeliver i n p (Some k)) = True"
| "is_verdict c = False"

definition verdicts :: "site_call list \<Rightarrow> site_call list" where
  "verdicts cs = filter is_verdict cs"

text \<open>The calls that \<open>w'\<close> has and \<open>w\<close> has not, where only calls were appended.\<close>

definition calls_since :: "offer_world \<Rightarrow> offer_world \<Rightarrow> site_call list" where
  "calls_since w w' = drop (length (FCalls w)) (FCalls w')"

definition ends_once :: "pending_request \<Rightarrow> site_call list \<Rightarrow> bool" where
  "ends_once r cs \<longleftrightarrow> (\<forall>c i a. c \<in> set cs \<longrightarrow> c \<noteq> SiteClaim i a)
     \<and> (\<exists>v. verdicts cs = [v] \<and> (v = SiteFail (QID r) \<or> (\<exists>name pub n. v = SiteDeliver (QID r) name pub (Some n))))"

lemma verdicts_simps [simp]: "verdicts [] = []" "verdicts (cs @ ds) = verdicts cs @ verdicts ds"
  "verdicts (c # cs) = (if is_verdict c then c # verdicts cs else verdicts cs)" "verdicts (extras n pub) = []"
proof -
  have "filter is_verdict (map (SiteSubtitle n) ss) = []" for ss by (induction ss) auto
  then show "verdicts (extras n pub) = []" by (simp add: verdicts_def extras_def)
qed (simp_all add: verdicts_def)

lemma extras_no_claim: "SiteClaim i a \<notin> set (extras n pub)" "SiteDeliver i nm p q \<notin> set (extras n pub)"
  by (auto simp: extras_def)

lemma call_sel [simp]:
  "FCalls (call_site c w) = FCalls w @ [c]" "FW (call_site c w) = FW w" "FSpace (call_site c w) = FSpace w" "FDb (call_site c w) = FDb w"
  "FCalls (failRequest r w) = FCalls w @ [SiteFail (QID r)]" "FW (failRequest r w) = FW w" "FSpace (failRequest r w) = FSpace w"
  "FCalls (remove_content d w) = FCalls w" "FW (remove_content d w) = remove_temp d (FW w)" "FSpace (remove_content d w) = FSpace w"
  "FCalls (release_offer r w) = FCalls w" "FW (release_offer r w) = FW w"
  "FSpace (release_offer r w) = ReleaseDisk (offer_job r) (FSpace w)"
  by (simp_all add: call_site_def failRequest_def remove_content_def release_offer_def)

lemma ends_fail [simp]: "ends_once r [SiteFail (QID r)]"
  by (simp add: ends_once_def)

lemma fail_ends: "FCalls w' = FCalls w @ [SiteFail (QID r)] \<Longrightarrow> \<exists>cs. FCalls w' = FCalls w @ cs \<and> ends_once r cs"
  by (simp add: ends_once_def)

lemma publish_and_deliver_ends:
  "\<exists>cs. FCalls (publish_and_deliver e cfg r d n w) = FCalls w @ cs \<and> ends_once r cs"
proof -
  let ?tree = "temp_tree d (FW w)"
  obtain tw res where p: "PublishDirectory (v_pub e) (v_media e ?tree) (offer_publish e cfg r d ?tree n) (FW w) = (tw, res)" by fastforce
  show ?thesis
  proof (cases res)
    case (Inl err)
    then show ?thesis using p by (intro fail_ends) (simp add: publish_and_deliver_def Let_def)
  next
    case (Inr pub)
    show ?thesis
    proof (cases "v_upload e")
      case None
      then show ?thesis using p Inr
        by (intro exI [of _ "[SiteDeliver (QID r) (n @ ''.nzb'') pub None, SiteFail (QID r)]"])
           (simp add: publish_and_deliver_def Let_def ends_once_def)
    next
      case (Some nzbID)
      then show ?thesis using p Inr extras_no_claim(1)
        by (intro exI [of _ "SiteDeliver (QID r) (n @ ''.nzb'') pub (Some nzbID) # extras nzbID pub"])
           (auto simp: publish_and_deliver_def Let_def ends_once_def)
    qed
  qed
qed

lemma downloadRemote_calls: "FCalls (fst (downloadRemote e cfg r src w)) = FCalls w"
  by (simp add: downloadRemote_def Let_def split: sum.split option.split prod.split)

lemma serve_ends:
  "\<exists>cs. FCalls (serve_remote e cfg r src w) = FCalls w @ cs \<and> ends_once r cs"
  "\<exists>cs. FCalls (serve_local e cfg r p w) = FCalls w @ cs \<and> ends_once r cs"
proof -
  obtain w1 res where d: "downloadRemote e cfg r src w = (w1, res)" by fastforce
  then have w1: "FCalls w1 = FCalls w" using downloadRemote_calls [of e cfg r src w] by simp
  show "\<exists>cs. FCalls (serve_remote e cfg r src w) = FCalls w @ cs \<and> ends_once r cs"
    using d w1 publish_and_deliver_ends [of e cfg r _ _ w1]
    by (cases res) (auto simp: serve_remote_def intro: fail_ends split: prod.split)
  show "\<exists>cs. FCalls (serve_local e cfg r p w) = FCalls w @ cs \<and> ends_once r cs"
  proof (cases "v_suffix e")
    case None
    then show ?thesis by (intro fail_ends) (simp add: serve_local_def)
  next
    case (Some suf)
    obtain t res where s: "stageLocalContent (v_stage e) p (v_fs e p) (QFilter r) = (t, res)" by fastforce
    show ?thesis
      using Some s publish_and_deliver_ends [of e cfg r _ _ "w\<lparr>FW := set_temp (temp_name r suf) t (FW w)\<rparr>"]
      by (cases res) (auto simp: serve_local_def Let_def intro: fail_ends)
  qed
qed

text \<open>The calls of the handler.\<close>

lemma fulfillOne_calls:
  "\<exists>cs. FCalls (fulfillOne e cfg r w) = FCalls w @ cs
     \<and> (cs = [] \<or> (v_claim e \<noteq> Some True \<and> cs = [SiteClaim (QID r) (v_claim e)])
        \<or> (\<exists>rest. v_claim e = Some True \<and> cs = SiteClaim (QID r) (Some True) # rest \<and> ends_once r rest))"
proof -
  define src where "src = GetOfferSource (QHash r) (FDb w)"
  define route where "route = chooseFulfillRoute src (Some cfg)"
  let ?w1 = "call_site (SiteClaim (QID r) (v_claim e)) w"
  show ?thesis
  proof (cases "v_claim e = Some True")
    case True
    obtain cs where r: "FCalls (serve_remote e cfg r src ?w1) = FCalls ?w1 @ cs" "ends_once r cs"
      using serve_ends(1) by blast
    obtain ds where l: "FCalls (serve_local e cfg r (LocalPath src) ?w1) = FCalls ?w1 @ ds" "ends_once r ds"
      using serve_ends(2) by blast
    show ?thesis using True r l
      by (simp add: fulfillOne_def Let_def src_def [symmetric] route_def [symmetric])
  next
    case False
    then show ?thesis by (simp add: fulfillOne_def Let_def)
  qed
qed

section \<open>What is left behind\<close>

text \<open>Only the calls, the ledger entry of the job and the given entries of the temporary directory change,
  and the slot stays free.\<close>

definition leaves :: "pending_request \<Rightarrow> string set \<Rightarrow> offer_world \<Rightarrow> offer_world \<Rightarrow> bool" where
  "leaves r names w w' \<longleftrightarrow>
     (\<forall>k. k \<notin> names \<longrightarrow> map_of (Temp (FW w')) k = map_of (Temp (FW w)) k)
     \<and> (\<not> Slot (FW w) \<longrightarrow> \<not> Slot (FW w'))
     \<and> (FSpace w' = FSpace w \<or> (\<exists>n. FSpace w' = ReserveDisk (offer_job r) n (FSpace w)))"

text \<open>The random names of the pipeline are unused, and none of them is that of the content directory.\<close>

definition unused :: "'seg fulfil_env \<Rightarrow> pending_request \<Rightarrow> offer_world \<Rightarrow> bool" where
  "unused e r w \<longleftrightarrow>
     distinct [stage_name (v_pub e), archive_name (v_pub e), enc_name (v_pub e)]
     \<and> (\<forall>n \<in> {stage_name (v_pub e), archive_name (v_pub e), enc_name (v_pub e)}.
          map_of (Temp (FW w)) n = None \<and> n \<noteq> dl_name (offer_job r) \<and> (\<forall>suf. v_suffix e = Some suf \<longrightarrow> n \<noteq> temp_name r suf))"

lemma publish_and_deliver_leaves:
  assumes "unused e r w0" and "\<not> Slot (FW w)"
    and "\<forall>k. k \<noteq> dl_name (offer_job r) \<and> (\<forall>suf. v_suffix e = Some suf \<longrightarrow> k \<noteq> temp_name r suf) \<longrightarrow> map_of (Temp (FW w)) k = map_of (Temp (FW w0)) k"
  shows "map_of (Temp (FW (publish_and_deliver e cfg r d n w))) = map_of (Temp (FW w))
     \<and> \<not> Slot (FW (publish_and_deliver e cfg r d n w)) \<and> FSpace (publish_and_deliver e cfg r d n w) = FSpace w"
proof -
  let ?tree = "temp_tree d (FW w)"
  let ?job = "offer_publish e cfg r d ?tree n"
  obtain tw res where p: "PublishDirectory (v_pub e) (v_media e ?tree) ?job (FW w) = (tw, res)" by fastforce
  have "map_of (Temp (fst (PublishDirectory (v_pub e) (v_media e ?tree) ?job (FW w)))) = map_of (Temp (FW w))
     \<and> \<not> Slot (fst (PublishDirectory (v_pub e) (v_media e ?tree) ?job (FW w)))"
    using assms by (intro PublishDirectory_temp) (auto simp: unused_def)
  then have "map_of (Temp tw) = map_of (Temp (FW w)) \<and> \<not> Slot tw" by (simp add: p)
  then show ?thesis
    using p by (simp add: publish_and_deliver_def Let_def split: sum.split option.split)
qed

lemma downloadRemote_leaves:
  "leaves r {dl_name (offer_job r)} w (fst (downloadRemote e cfg r src w))"
proof -
  let ?f = "DownloadPrivateTorrentBytes (v_below95 e) (v_free e) (F_Seed cfg) (P_TempDir (F_Pub cfg)) (offer_job r) None
     (v_len e) (v_dl_start e) (v_dl e @ [Cancel])"
  have "fst (?f l) = l \<or> (\<exists>n. fst (?f l) = ReserveDisk (offer_job r) n l)" for l
    using downloads_reserve(1) unfolding reserves_def by blast
  then show ?thesis
    by (auto simp: leaves_def downloadRemote_def Let_def split: sum.split option.split prod.split) (metis fst_conv)+
qed

lemma serve_remote_leaves:
  assumes "unused e r w" and "\<not> Slot (FW w)"
  shows "leaves r {dl_name (offer_job r)} w (serve_remote e cfg r src w)"
proof -
  obtain w1 res where d: "downloadRemote e cfg r src w = (w1, res)" by fastforce
  have l: "leaves r {dl_name (offer_job r)} w w1" using downloadRemote_leaves [of r w e cfg src] d by simp
  have slot: "\<not> Slot (FW w1)" using l assms(2) by (simp add: leaves_def)
  show ?thesis
  proof (cases res)
    case (Inl err)
    then show ?thesis using l d by (simp add: serve_remote_def leaves_def)
  next
    case (Inr x)
    obtain nm rel where x: "x = (nm, rel)" by fastforce
    have nm: "nm = dl_name (offer_job r)"
      using d Inr x by (auto simp: downloadRemote_def Let_def split: sum.splits option.splits prod.splits)
    have "map_of (Temp (FW (publish_and_deliver e cfg r nm rel w1))) = map_of (Temp (FW w1))
       \<and> \<not> Slot (FW (publish_and_deliver e cfg r nm rel w1)) \<and> FSpace (publish_and_deliver e cfg r nm rel w1) = FSpace w1"
      using l by (intro publish_and_deliver_leaves [OF assms(1) slot]) (simp add: leaves_def)
    then show ?thesis using l d Inr x nm by (simp add: serve_remote_def leaves_def)
  qed
qed

lemma serve_local_leaves:
  assumes "unused e r w" and "\<not> Slot (FW w)"
  shows "leaves r {} w (serve_local e cfg r p w)"
proof (cases "v_suffix e")
  case None
  then show ?thesis by (simp add: serve_local_def leaves_def)
next
  case (Some suf)
  obtain t res where s: "stageLocalContent (v_stage e) p (v_fs e p) (QFilter r) = (t, res)" by fastforce
  let ?w1 = "w\<lparr>FW := set_temp (temp_name r suf) t (FW w)\<rparr>"
  have pd: "map_of (Temp (FW (publish_and_deliver e cfg r d n ?w1))) = map_of (Temp (FW ?w1))
     \<and> \<not> Slot (FW (publish_and_deliver e cfg r d n ?w1)) \<and> FSpace (publish_and_deliver e cfg r d n ?w1) = FSpace ?w1" for d n
    using assms(2) Some by (intro publish_and_deliver_leaves [OF assms(1)]) simp_all
  show ?thesis
    using Some s pd assms(2) by (cases res) (auto simp: serve_local_def Let_def leaves_def)
qed

lemma leaves_call: "leaves r N (call_site c w) w' \<Longrightarrow> leaves r N w w'"
  by (simp add: leaves_def)

lemma fulfillOne_leaves:
  assumes "unused e r w" and "\<not> Slot (FW w)" and "map_of (reservations (FSpace w)) (offer_job r) = None"
  shows "(\<forall>k. k \<noteq> dl_name (offer_job r) \<longrightarrow> map_of (Temp (FW (fulfillOne e cfg r w))) k = map_of (Temp (FW w)) k)
     \<and> \<not> Slot (FW (fulfillOne e cfg r w)) \<and> FSpace (fulfillOne e cfg r w) = FSpace w"
proof -
  define src where "src = GetOfferSource (QHash r) (FDb w)"
  define route where "route = chooseFulfillRoute src (Some cfg)"
  let ?w1 = "call_site (SiteClaim (QID r) (v_claim e)) w"
  have u: "unused e r ?w1" "\<not> Slot (FW ?w1)" using assms(1,2) by (simp_all add: unused_def)
  have "leaves r {dl_name (offer_job r)} w (if route = RouteRemote then serve_remote e cfg r src ?w1 else serve_local e cfg r (LocalPath src) ?w1)"
    using leaves_call [OF serve_remote_leaves [OF u, of cfg src]] leaves_call [OF serve_local_leaves [OF u, of cfg "LocalPath src"]]
    by (auto simp: leaves_def)
  then show ?thesis
    using release_untouched [OF assms(3)] assms(2)
    by (auto simp: fulfillOne_def Let_def src_def [symmetric] route_def [symmetric] leaves_def)
qed

section \<open>What is delivered\<close>

lemma publish_and_deliver_deliver:
  assumes "FCalls (publish_and_deliver e cfg r d n w) = FCalls w @ cs" and "SiteDeliver i name pub a \<in> set cs"
  shows "i = QID r \<and> name = n @ ''.nzb'' \<and> a = v_upload e
     \<and> snd (PublishDirectory (v_pub e) (v_media e (temp_tree d (FW w))) (offer_publish e cfg r d (temp_tree d (FW w)) n) (FW w)) = Inr pub"
proof -
  let ?tree = "temp_tree d (FW w)"
  obtain tw res where p: "PublishDirectory (v_pub e) (v_media e ?tree) (offer_publish e cfg r d ?tree n) (FW w) = (tw, res)" by fastforce
  show ?thesis
  proof (cases res)
    case (Inl err)
    then have "cs = [SiteFail (QID r)]" using assms(1) p by (simp add: publish_and_deliver_def Let_def)
    then show ?thesis using assms(2) by simp
  next
    case (Inr q)
    then have "SiteDeliver i name pub a = SiteDeliver (QID r) (n @ ''.nzb'') q (v_upload e)"
      using assms p extras_no_claim(2) [of i name pub a _ q] by (auto simp: publish_and_deliver_def Let_def split: option.splits)
    then show ?thesis using p Inr by simp
  qed
qed

text \<open>A download that completes has the data directory as its path, and the release its name.\<close>

lemma path_of_download: "downloadAndWaitSeed b ru len st dir es s = Some (Inr p) \<Longrightarrow> p = dir"
proof (induction es arbitrary: s)
  case (Cons x xs)
  then show ?case by (cases x) (auto split: option.splits)
qed simp

lemma plain_dl_name: "plain_elem (dl_name (offer_job r))"
proof -
  have "slash \<notin> set (itoa (QID r))"
    using digits_no_dot [OF itoa_nat_digits] by (auto simp: itoa_def slash_def)
  then show ?thesis by (simp add: plain_elem_def dl_name_def offer_job_def slash_def)
qed

lemma remote_release:
  assumes "downloadRemote e cfg r src w = (w1, Inr (d, rel))" and "P_TempDir (F_Pub cfg) = abs_path es" and "list_all plain_elem es"
  shows "d = dl_name (offer_job r) \<and> rel = dl_name (offer_job r)"
proof -
  have "path_join_all [abs_path es, dl_name (offer_job r)] = abs_path (es @ [dl_name (offer_job r)])"
    using path_join_all_abs [OF assms(3), of "[dl_name (offer_job r)]"] plain_dl_name by simp
  then have dir: "path_base (download_dir (P_TempDir (F_Pub cfg)) (offer_job r)) = dl_name (offer_job r)"
    using path_base_abs [of "es @ [dl_name (offer_job r)]"] assms(2,3) plain_dl_name
    by (simp add: download_dir_def dl_name_def)
  from assms(1) obtain p where "d = dl_name (offer_job r)" "rel = path_base p"
    "p = download_dir (P_TempDir (F_Pub cfg)) (offer_job r)"
    by (auto simp: downloadRemote_def Let_def DownloadPrivateTorrentBytes_def downloadTorrentFile_def
        split: sum.splits option.splits prod.splits dest: path_of_download)
  then show ?thesis using dir by simp
qed

text \<open>The calls of a claimed request, by route.\<close>

lemma claimed_calls:
  assumes "FCalls (fulfillOne e cfg r w) = FCalls w @ cs" and "SiteDeliver i name pub a \<in> set cs"
  shows "\<exists>w1 ds. w1 = call_site (SiteClaim (QID r) (v_claim e)) w \<and> SiteDeliver i name pub a \<in> set ds
     \<and> FCalls (if LocalPath (GetOfferSource (QHash r) (FDb w)) = [] then serve_remote e cfg r (GetOfferSource (QHash r) (FDb w)) w1
               else serve_local e cfg r (LocalPath (GetOfferSource (QHash r) (FDb w))) w1) = FCalls w1 @ ds"
proof -
  define src where "src = GetOfferSource (QHash r) (FDb w)"
  let ?w1 = "call_site (SiteClaim (QID r) (v_claim e)) w"
  have loc: "chooseFulfillRoute src (Some cfg) = RouteRemote \<Longrightarrow> LocalPath src = []"
    "chooseFulfillRoute src (Some cfg) = RouteLocal \<Longrightarrow> LocalPath src \<noteq> []"
    by (auto simp: chooseFulfillRoute_def split: if_splits)
  let ?body = "if LocalPath src = [] then serve_remote e cfg r src ?w1 else serve_local e cfg r (LocalPath src) ?w1"
  have "FCalls (fulfillOne e cfg r w) \<in> {FCalls w, FCalls ?w1, FCalls ?body}"
    using loc by (cases "chooseFulfillRoute src (Some cfg)") (simp_all add: fulfillOne_def Let_def src_def [symmetric])
  moreover have "FCalls (fulfillOne e cfg r w) \<noteq> FCalls w" "FCalls (fulfillOne e cfg r w) \<noteq> FCalls ?w1"
    using assms by auto
  ultimately have b: "FCalls ?body = FCalls w @ cs" using assms(1) by simp
  obtain ds where ds: "FCalls ?body = FCalls ?w1 @ ds"
    using serve_ends(1) [of e cfg r src ?w1] serve_ends(2) [of e cfg r "LocalPath src" ?w1]
    by (cases "LocalPath src = []") (auto simp del: call_sel)
  then have "cs = SiteClaim (QID r) (v_claim e) # ds" using b by simp
  then have "SiteDeliver i name pub a \<in> set ds" using assms(2) by simp
  then show ?thesis using ds unfolding src_def by blast
qed

text \<open>A download that is cancelled before it completes has no path.\<close>

lemma no_path: "WaitAllDone \<notin> set es \<Longrightarrow> downloadAndWaitSeed b ru len st dir es s \<noteq> Some (Inr p)"
proof (induction es arbitrary: s)
  case (Cons x xs)
  then show ?case by (cases x) (auto split: option.splits)
qed simp

lemma ticked: "0 < len \<Longrightarrow> 0 < dl_updates b ru len st (Tick k # es) s"
  by (simp split: option.split)

section \<open>The entry of the job\<close>

lemma mark_ok:
  assumes "jobmap_ok m"
  shows "jobmap_ok (offer_mark e r step m) \<and> map_of (entries_of (offer_mark e r step m)) (offer_job r) \<noteq> None"
proof -
  let ?c = "OpUpdate (offer_job r) step [] 0 (v_stamp e)"
  from assms obtain m' where m': "op_locked ?c m = Some m'" "jobmap_ok m'" by (rule op_locked_ok)
  from assms obtain js where js: "m = Some js" "list_all named js" by (rule jobmap_okE)
  have "map_of (entries_of m') (offer_job r) \<noteq> None"
    using m'(1) js named_lookup [OF js(2), of "offer_job r"]
    by (auto simp: on_job_def entries_of_def update_conv' split: option.splits if_splits)
  then show ?thesis using m' by (simp add: offer_mark_def del: op_locked.simps)
qed

lemma marks_ok:
  assumes "jobmap_ok m" and "0 < n"
  shows "jobmap_ok ((offer_mark e r step ^^ n) m) \<and> map_of (entries_of ((offer_mark e r step ^^ n) m)) (offer_job r) \<noteq> None"
proof -
  have "jobmap_ok ((offer_mark e r step ^^ k) m)" for k
    using assms(1) mark_ok [THEN conjunct1] by (induction k) auto
  from mark_ok [OF this] show ?thesis using assms(2) by (cases n) simp_all
qed

lemma offer_job_ne [simp]: "offer_job r \<noteq> []"
  by (simp add: offer_job_def)

text \<open>While a job has its entry, no sweep takes its download directory, at the end of a task or at the start
  of the agent.\<close>

lemma entry_protects:
  assumes "jobmap_ok m" and "map_of (entries_of m) job \<noteq> None" and "job \<noteq> []"
  shows "dl_name job \<notin> set (SweepOrphanDownloads (entries_of m) es)"
    and "dl_name job \<notin> set (SweepOrphanTempStartup (entries_of m) es)"
proof -
  from assms(1) obtain js where js: "m = Some js" "list_all named js" by (rule jobmap_okE)
  then obtain x where "map_of js job = Some x" using assms(2) by (auto simp: entries_of_def)
  moreover from named_lookup [OF js(2) this] obtain j where "x = Some j" by blast
  ultimately have "(job, Some j) \<in> set js" by (auto dest: map_of_SomeD)
  then have "dl_name job \<in> set (concat (map keep_names js))"
    using assms(3) by (force simp: keep_names_def keep_dl_def)
  then show "dl_name job \<notin> set (SweepOrphanDownloads (entries_of m) es)"
    "dl_name job \<notin> set (SweepOrphanTempStartup (entries_of m) es)"
    by (auto simp: SweepOrphanDownloads_def SweepOrphanTempStartup_def sweepWithMinAge_def js(1) entries_of_def Let_def)
qed

section \<open>A folder behind a link\<close>

text \<open>A content directory whose only entry is a link with a name that is not on the allowlist: nothing is
  staged, with or without obfuscation.\<close>

lemma stage_link_only:
  assumes "\<not> isUploadableContent b" and "0 < n" and "base \<notin> set agentManagedDirs" and "dst \<notin> set agentManagedDirs"
    and "ContentRoot job = base" and "Content job = FDir [(b, FLink n t)]"
  shows "prepare e job dst (FDir []) = (FDir [], Inr ())"
  using assms
  by (simp add: prepare_def CopyFiles_def ObfuscateFiles_def stage_tree_def file_walk_def stage_cb_def base_of_def managed_dir_def
      auditStaged_def countStagedFiles_def count_cb_def)

definition tools_add_nothing :: "'seg pub_env \<Rightarrow> bool" where
  "tools_add_nothing e \<longleftrightarrow>
     (\<forall>k. fst (extractor e k (FDir [])) = FDir []) \<and> (\<forall>b opts. fst (par2_tool e (FDir []) b opts) = FDir [])"

lemma par2_step_nothing:
  assumes "tools_add_nothing e"
  shows "fst (par2_step e job (extract_all e (FDir [])) st) = FDir []"
proof -
  have "foldl (\<lambda>s k. fst (extractor e k s)) (FDir []) ks = FDir []" for ks
    using assms by (induction ks) (simp_all add: tools_add_nothing_def)
  then have "extract_all e (FDir []) = FDir []" unfolding extract_all_def .
  moreover have "fst (par2_step e job (FDir []) st) = fst (par2_tool e (FDir []) (par2_base e job) (par2_options (Cfg job)))"
    by (simp add: par2_step_def split: prod.split sum.split)
  ultimately show ?thesis using assms by (simp add: tools_add_nothing_def)
qed

lemma upload_nothing:
  assumes "map_of (Temp w) dirname = Some (FDir [])"
  shows "\<exists>err. snd (upload_step e job dirname pw d w) = Inl err"
  using assms
  by (simp add: upload_step_def Let_def temp_tree_def UploadDirectory_def upload_list_none split: option.split)

lemma publish_nothing:
  assumes "\<And>w. prepare e job (stage_name e) (FDir []) = (FDir [], Inr ())" and "tools_add_nothing e"
    and "\<not> P_Encrypt (Cfg job)" and "map_of (Temp w) (stage_name e) = None"
  shows "\<exists>err. snd (PublishDirectory e m job w) = Inl err"
proof -
  let ?w1 = "if Describe job then progress job ''Analyzing'' w else w"
  let ?d = "if Describe job then describeContent m no_description else no_description"
  show ?thesis
  proof (cases "mkdir_temp (mkdir_ok e) (stage_name e) ?w1")
    case None
    then show ?thesis by (simp add: PublishDirectory_def Let_def)
  next
    case (Some w2)
    let ?w3 = "on_jobs (OpStage (JobName job) (path_join_all [P_TempDir (Cfg job), stage_name e])) w2"
    have "map_of (Temp w2) (stage_name e) = Some (FDir [])"
      using mkdir_temp_Some [OF Some] assms(4) by simp
    then have fresh: "temp_tree (stage_name e) (progress job ''Preparing'' ?w3) = FDir []" by (simp add: temp_tree_def)
    obtain t st where par: "par2_step e job (extract_all e (FDir [])) (Stages ?d) = (t, st)" by fastforce
    with par2_step_nothing [OF assms(2), of job "Stages ?d"] have t: "t = FDir []" by simp
    let ?w5 = "set_temp (stage_name e) t (progress job ''PAR2'' (progress job ''Preparing'' ?w3))"
    have "\<exists>err. snd (upload_step e job (stage_name e) [] (?d\<lparr>Stages := st\<rparr>) ?w5) = Inl err"
      by (rule upload_nothing) (simp add: t)
    then have "\<exists>err. snd (stage_body e job ?d ?w3) = Inl err"
      using assms(1,3) par unfolding stage_body_def Let_def fresh by (simp add: encrypt_step_def)
    then show ?thesis using Some by (simp add: PublishDirectory_def Let_def)
  qed
qed

section \<open>The rounds\<close>

text \<open>The requests a round serves: the open and claimed ones before the agent stops.\<close>

fun served :: "'seg round_env \<Rightarrow> nat \<Rightarrow> pending_request list \<Rightarrow> pending_request list" where
  "served x k [] = []"
| "served x k (r # rs) =
     (if t_stop x k then [] else if QStatus r \<noteq> ''open'' \<and> QStatus r \<noteq> ''claimed'' then served x (Suc k) rs
      else r # served x (Suc k) rs)"

text \<open>The claims of a list of calls.\<close>

fun claims :: "site_call list \<Rightarrow> int list" where
  "claims [] = []"
| "claims (SiteClaim i a # cs) = i # claims cs"
| "claims (c # cs) = claims cs"

lemma claims_append [simp]: "claims (cs @ ds) = claims cs @ claims ds"
  by (induction cs rule: claims.induct) auto

lemma claims_none: "(\<And>c i a. c \<in> set cs \<Longrightarrow> c \<noteq> SiteClaim i a) \<Longrightarrow> claims cs = []"
proof (induction cs)
  case (Cons c cs)
  then show ?case by (cases c) force+
qed simp

lemma fulfillOne_claims:
  "\<exists>cs. FCalls (fulfillOne e cfg r w) = FCalls w @ cs \<and> (claims cs = [] \<or> claims cs = [QID r])
     \<and> length (verdicts cs) \<le> length (claims cs)"
proof -
  have "claims rest = [] \<and> length (verdicts rest) = 1" if "ends_once r rest" for rest
    using that claims_none [of rest] by (auto simp: ends_once_def)
  then show ?thesis using fulfillOne_calls [of e cfg r w] by (auto split: option.splits)
qed

lemma serve_all_claims:
  "\<exists>cs. FCalls (serve_all x cfg k rs w) = FCalls w @ cs \<and> subseq (claims cs) (map QID (served x k rs))
     \<and> length (verdicts cs) \<le> length (claims cs)"
proof (induction x cfg k rs w rule: serve_all.induct)
  case (1 x cfg k w)
  then show ?case by simp
next
  case (2 x cfg k r rs w)
  show ?case
  proof (cases "t_stop x k")
    case False
    show ?thesis
    proof (cases "QStatus r \<noteq> ''open'' \<and> QStatus r \<noteq> ''claimed''")
      case True
      then show ?thesis using 2(1) [OF False True] False by simp
    next
      case serve: False
      obtain cs where cs: "FCalls (fulfillOne (t_env x k) cfg r w) = FCalls w @ cs" "claims cs = [] \<or> claims cs = [QID r]"
        "length (verdicts cs) \<le> length (claims cs)" using fulfillOne_claims by blast
      from 2(2) [OF False serve] cs(1)
      obtain ds where ds: "FCalls (serve_all x cfg k (r # rs) w) = FCalls w @ cs @ ds"
        "subseq (claims ds) (map QID (served x (Suc k) rs))" "length (verdicts ds) \<le> length (claims ds)"
        using False serve by auto
      have "subseq (claims (cs @ ds)) (map QID (served x k (r # rs)))"
        using cs(2) ds(2) False serve by auto
      then show ?thesis using ds(1,3) cs(3) by (intro exI [of _ "cs @ ds"]) simp
    qed
  qed simp
qed

section \<open>Example\<close>

definition demo_request :: "string list \<Rightarrow> pending_request" where
  "demo_request flt = \<lparr>QID = 7, QStatus = ''open'', QHash = ''h1'', QFilter = flt\<rparr>"

definition demo_fulfil :: "dl_event list \<Rightarrow> string fulfil_env" where
  "demo_fulfil es =
     \<lparr>v_db_err = False, v_fs = (\<lambda>p. if p = ''/media/Show'' then Some demo_show else None), v_claim = Some True,
      v_fetch = demo_fetch, v_lib = None, v_below95 = (\<lambda>a b. True), v_free = None, v_len = 100, v_dl_start = 0, v_dl = es,
      v_dl_files = Some [(''a.mkv'', FFile [1])], v_suffix = Some ''42'', v_stage = demo_stage, v_stamp = ''t'',
      v_pub = demo_env, v_media = (\<lambda>t. demo_media), v_upload = Some 5\<rparr>"

definition demo_offer_world :: "string \<Rightarrow> string \<Rightarrow> offer_world" where
  "demo_offer_world p url =
     \<lparr>FW = \<lparr>Temp = [], JobsMap = Some [], Slot = False\<rparr>, FSpace = ledger_init,
      FDb = UpsertOfferSource 0 ''h1'' p url ''ab'' 7 empty_db, FCalls = []\<rparr>"

section \<open>Properties\<close>

text \<open>
  C6. The site hears of a request once. The handler appends to the calls it has made: nothing, when the
  request cannot be served; the claim alone, when the claim is refused or fails; and after a claim that
  is granted exactly one verdict for this request, a delivery that the site accepted or the release of
  the claim, on every path of the pipeline and of the download.
\<close>

theorem offer_one_verdict:
  "\<exists>cs. FCalls (fulfillOne e cfg r w) = FCalls w @ cs
     \<and> (cs = [] \<or> (v_claim e \<noteq> Some True \<and> cs = [SiteClaim (QID r) (v_claim e)])
        \<or> (\<exists>rest v. v_claim e = Some True \<and> cs = SiteClaim (QID r) (Some True) # rest \<and> verdicts rest = [v]
             \<and> (v = SiteFail (QID r) \<or> (\<exists>name pub n. v = SiteDeliver (QID r) name pub (Some n)))))"
  using fulfillOne_calls [of e cfg r w] unfolding ends_once_def by blast

text \<open>
  Serving a request leaves no trace on the machine, however it ends: the temporary directory is as it
  was except for the download directory of this request, the slot is free, and the ledger of reserved
  space is as it was. It relies on the random names being unused.
\<close>

theorem offer_leaves_nothing:
  assumes "unused e r w" and "\<not> Slot (FW w)" and "map_of (reservations (FSpace w)) (offer_job r) = None"
  shows "(\<forall>k. k \<noteq> dl_name (offer_job r) \<longrightarrow> map_of (Temp (FW (fulfillOne e cfg r w))) k = map_of (Temp (FW w)) k)
     \<and> \<not> Slot (FW (fulfillOne e cfg r w)) \<and> FSpace (fulfillOne e cfg r w) = FSpace w"
  using fulfillOne_leaves [OF assms] .

theorem offer_leaves_nothing_witness:
  "FSpace (fulfillOne (demo_fulfil [WaitAllDone]) demo_offer_config (demo_request []) (demo_offer_world [] ''https://t/1''))
     = FSpace (demo_offer_world [] ''https://t/1'')"
proof -
  let ?e = "demo_fulfil [WaitAllDone]" and ?r = "demo_request []" and ?w = "demo_offer_world [] ''https://t/1''"
  have "unused ?e ?r ?w" "\<not> Slot (FW ?w)" "map_of (reservations (FSpace ?w)) (offer_job ?r) = None"
    by (simp_all add: unused_def demo_fulfil_def demo_offer_world_def demo_env_def stage_name_def archive_name_def enc_name_def
        dl_name_def temp_name_def offer_job_def ledger_init_def)
  from offer_leaves_nothing [OF this] show ?thesis by blast
qed

text \<open>
  A claim is asked for only when the request can be served: a local path is cached that exists, or no
  local path but a torrent address with remote fulfilment on and the size within the limit, and then
  only for requests that are not scoped to files.
\<close>

theorem claim_only_servable:
  assumes "FCalls (fulfillOne e cfg r w) \<noteq> FCalls w" and "F_MaxGB cfg < 2 ^ 33"
  shows "let src = GetOfferSource (QHash r) (FDb w) in
     (LocalPath src \<noteq> [] \<and> stat_ok (v_fs e) (LocalPath src))
     \<or> (LocalPath src = [] \<and> TorrentURL src \<noteq> [] \<and> F_Remote cfg \<and> QFilter r = []
        \<and> (F_MaxGB cfg \<le> 0 \<or> SizeBytes src \<le> F_MaxGB cfg * 2 ^ 30))"
proof -
  define src where "src = GetOfferSource (QHash r) (FDb w)"
  have iff: "chooseFulfillRoute src (Some cfg) = RouteRemote \<longleftrightarrow>
     LocalPath src = [] \<and> TorrentURL src \<noteq> [] \<and> F_Remote cfg \<and> (F_MaxGB cfg \<le> 0 \<or> SizeBytes src \<le> F_MaxGB cfg * 2 ^ 30)"
    by (rule remote_route_char [OF assms(2)])
  have loc: "chooseFulfillRoute src (Some cfg) = RouteLocal \<longleftrightarrow> LocalPath src \<noteq> []"
    by (simp add: chooseFulfillRoute_def)
  show ?thesis
    using assms(1) iff loc
    by (cases "chooseFulfillRoute src (Some cfg)") (auto simp: fulfillOne_def Let_def src_def [symmetric] split: if_splits)
qed

theorem claim_only_servable_witness:
  "let src = GetOfferSource (QHash (demo_request [])) (FDb (demo_offer_world ''/media/Show'' [])) in
     (LocalPath src \<noteq> [] \<and> stat_ok (v_fs (demo_fulfil [])) (LocalPath src))
     \<or> (LocalPath src = [] \<and> TorrentURL src \<noteq> [] \<and> F_Remote demo_offer_config \<and> QFilter (demo_request []) = []
        \<and> (F_MaxGB demo_offer_config \<le> 0 \<or> SizeBytes src \<le> F_MaxGB demo_offer_config * 2 ^ 30))"
proof (rule claim_only_servable)
  have "length (FCalls (fulfillOne (demo_fulfil []) demo_offer_config (demo_request []) (demo_offer_world ''/media/Show'' []))) = 2"
    by code_simp
  then show "FCalls (fulfillOne (demo_fulfil []) demo_offer_config (demo_request []) (demo_offer_world ''/media/Show'' []))
     \<noteq> FCalls (demo_offer_world ''/media/Show'' [])"
    by (auto simp: demo_offer_world_def)
qed (simp add: demo_offer_config_def)

text \<open>
  C7. What is delivered for a bucket with a local path is what was staged for this request: staging
  succeeded for that path with the file filter of the request, the pipeline succeeded on exactly the
  staged tree, and the NZB is named after the file or folder.
\<close>

theorem local_delivery:
  assumes "FCalls (fulfillOne e cfg r w) = FCalls w @ cs" and "SiteDeliver i name pub a \<in> set cs"
    and "LocalPath (GetOfferSource (QHash r) (FDb w)) = p" and "p \<noteq> []"
  shows "i = QID r \<and> name = path_base p @ ''.nzb'' \<and> a = v_upload e
     \<and> (\<exists>suf t w1. v_suffix e = Some suf \<and> stageLocalContent (v_stage e) p (v_fs e p) (QFilter r) = (t, Inr ())
          \<and> snd (PublishDirectory (v_pub e) (v_media e t) (offer_publish e cfg r (temp_name r suf) t (path_base p)) w1) = Inr pub)"
proof -
  let ?w1 = "call_site (SiteClaim (QID r) (v_claim e)) w"
  obtain ds where ds: "SiteDeliver i name pub a \<in> set ds" "FCalls (serve_local e cfg r p ?w1) = FCalls ?w1 @ ds"
    using claimed_calls [OF assms(1,2)] assms(3,4) by auto
  obtain suf where suf: "v_suffix e = Some suf" "map_of (Temp (FW w)) (temp_name r suf) = None"
    using ds by (fastforce simp: serve_local_def Let_def split: option.splits if_splits)
  obtain t res where s: "stageLocalContent (v_stage e) p (v_fs e p) (QFilter r) = (t, res)" by fastforce
  let ?w2 = "?w1\<lparr>FW := set_temp (temp_name r suf) t (FW ?w1)\<rparr>"
  have res: "res = Inr ()"
    using ds suf s by (cases res) (fastforce simp: serve_local_def Let_def)+
  have "FCalls (publish_and_deliver e cfg r (temp_name r suf) (path_base p) ?w2) = FCalls ?w2 @ ds"
    using ds(2) suf s res by (simp add: serve_local_def Let_def)
  from publish_and_deliver_deliver [OF this ds(1)]
  have "i = QID r" "name = path_base p @ ''.nzb''" "a = v_upload e"
    "snd (PublishDirectory (v_pub e) (v_media e t) (offer_publish e cfg r (temp_name r suf) t (path_base p)) (FW ?w2)) = Inr pub"
    by (simp_all add: temp_tree_def)
  then show ?thesis using suf(1) s res by blast
qed

theorem local_delivery_witness:
  "\<exists>pub suf t w1. v_suffix (demo_fulfil []) = Some suf
     \<and> stageLocalContent (v_stage (demo_fulfil [])) ''/media/Show'' (v_fs (demo_fulfil []) ''/media/Show'') [''e02.mkv''] = (t, Inr ())
     \<and> snd (PublishDirectory (v_pub (demo_fulfil [])) (v_media (demo_fulfil []) t)
          (offer_publish (demo_fulfil []) demo_offer_config (demo_request [''e02.mkv'']) (temp_name (demo_request [''e02.mkv'']) suf) t
            (path_base ''/media/Show'')) w1) = Inr pub"
proof -
  let ?w = "demo_offer_world ''/media/Show'' []" and ?r = "demo_request [''e02.mkv'']"
  have "case FCalls (fulfillOne (demo_fulfil []) demo_offer_config ?r ?w) of
      [SiteClaim i b, SiteDeliver j n p a] \<Rightarrow> True | _ \<Rightarrow> False"
    by code_simp
  then obtain i b j n p a where c: "FCalls (fulfillOne (demo_fulfil []) demo_offer_config ?r ?w) = [SiteClaim i b, SiteDeliver j n p a]"
    by (auto split: list.splits site_call.splits)
  have cs: "FCalls (fulfillOne (demo_fulfil []) demo_offer_config ?r ?w) = FCalls ?w @ [SiteClaim i b, SiteDeliver j n p a]"
    unfolding c by (simp add: demo_offer_world_def)
  have lp: "LocalPath (GetOfferSource (QHash ?r) (FDb ?w)) = ''/media/Show''" by code_simp
  have "QFilter ?r = [''e02.mkv'']" by (simp add: demo_request_def)
  with local_delivery [OF cs, of j n p a "''/media/Show''"] lp show ?thesis by auto
qed

text \<open>
  A remote delivery is named after the working directory of the agent, whatever the torrent holds:
  its file is \<^verbatim>\<open>dl-offer-N.nzb\<close> for request \<open>N\<close>.
\<close>

theorem remote_delivery_name:
  assumes "FCalls (fulfillOne e cfg r w) = FCalls w @ cs" and "SiteDeliver i name pub a \<in> set cs"
    and "LocalPath (GetOfferSource (QHash r) (FDb w)) = []"
    and "P_TempDir (F_Pub cfg) = abs_path es" and "list_all plain_elem es"
  shows "name = ''dl-offer-'' @ itoa (QID r) @ ''.nzb''"
proof -
  let ?w1 = "call_site (SiteClaim (QID r) (v_claim e)) w" and ?src = "GetOfferSource (QHash r) (FDb w)"
  obtain ds where ds: "SiteDeliver i name pub a \<in> set ds" "FCalls (serve_remote e cfg r ?src ?w1) = FCalls ?w1 @ ds"
    using claimed_calls [OF assms(1,2)] assms(3) by auto
  obtain w2 res where d: "downloadRemote e cfg r ?src ?w1 = (w2, res)" by fastforce
  have w2: "FCalls w2 = FCalls ?w1" using downloadRemote_calls [of e cfg r ?src ?w1] d by simp
  obtain d' rel where res: "res = Inr (d', rel)"
    using ds d w2 by (cases res) (fastforce simp: serve_remote_def)+
  have "FCalls (publish_and_deliver e cfg r d' rel w2) = FCalls w2 @ ds"
    using ds(2) d w2 res by (simp add: serve_remote_def)
  from publish_and_deliver_deliver [OF this ds(1)] have "name = rel @ ''.nzb''" by simp
  then show ?thesis using remote_release [OF d [unfolded res] assms(4,5)] by (simp add: dl_name_def offer_job_def)
qed

theorem remote_delivery_name_witness:
  "\<exists>i pub a. SiteDeliver i ''dl-offer-7.nzb'' pub a
     \<in> set (FCalls (fulfillOne (demo_fulfil [WaitAllDone]) demo_offer_config (demo_request []) (demo_offer_world [] ''https://t/1'')))"
proof -
  let ?w = "demo_offer_world [] ''https://t/1''" and ?r = "demo_request []"
  have "case FCalls (fulfillOne (demo_fulfil [WaitAllDone]) demo_offer_config ?r ?w) of
      [SiteClaim i b, SiteDeliver j n p a] \<Rightarrow> True | _ \<Rightarrow> False"
    by code_simp
  then obtain i b j n p a where c: "FCalls (fulfillOne (demo_fulfil [WaitAllDone]) demo_offer_config ?r ?w) = [SiteClaim i b, SiteDeliver j n p a]"
    by (auto split: list.splits site_call.splits)
  have cs: "FCalls (fulfillOne (demo_fulfil [WaitAllDone]) demo_offer_config ?r ?w) = FCalls ?w @ [SiteClaim i b, SiteDeliver j n p a]"
    unfolding c by (simp add: demo_offer_world_def)
  have lp: "LocalPath (GetOfferSource (QHash ?r) (FDb ?w)) = []" by code_simp
  have t: "P_TempDir (F_Pub demo_offer_config) = abs_path [''tmp'']" "list_all plain_elem [''tmp'']"
    by (simp_all add: demo_offer_config_def demo_job_def abs_path_def slash_def plain_elem_def)
  have "n = ''dl-offer-'' @ itoa (QID ?r) @ ''.nzb''"
    by (rule remote_delivery_name [OF cs _ lp t]) simp
  moreover have "''dl-offer-'' @ itoa (QID ?r) @ ''.nzb'' = ''dl-offer-7.nzb''" by code_simp
  ultimately show ?thesis using c by auto
qed

text \<open>
  A folder offered as a whole is never delivered. The folder is staged as a link, the pipeline does not
  follow it and has nothing to upload, so every request for it is claimed and then failed (encryption
  off, a folder name that is not itself an upload name, and tools that add nothing to an empty directory).
\<close>

theorem folder_offer_never_delivered:
  assumes "\<not> v_db_err e" and "v_claim e = Some True" and "v_suffix e = Some suf"
    and "map_of (Temp (FW w)) (temp_name r suf) = None" and "map_of (Temp (FW w)) (stage_name (v_pub e)) = None"
    and "LocalPath (GetOfferSource (QHash r) (FDb w)) = p" and "path_rooted p" and "path_base p \<noteq> [slash]"
    and "v_fs e p = Some (FDir xs)" and "link_ok (v_stage e) [path_base p]" and "\<not> isUploadableContent (path_base p)"
    and "QFilter r = []" and "\<not> P_Encrypt (F_Pub cfg)" and "tools_add_nothing (v_pub e)"
  shows "FCalls (fulfillOne e cfg r w) = FCalls w @ [SiteClaim (QID r) (Some True), SiteFail (QID r)]"
proof -
  let ?w1 = "call_site (SiteClaim (QID r) (v_claim e)) w"
  let ?t = "FDir [(path_base p, FLink (length p) (Some (FDir xs)))]"
  let ?w2 = "?w1\<lparr>FW := set_temp (temp_name r suf) ?t (FW ?w1)\<rparr>"
  let ?job = "offer_publish e cfg r (temp_name r suf) ?t (path_base p)"
  have pne: "p \<noteq> []" by (rule path_rooted_ne [OF assms(7)])
  have st: "stageLocalContent (v_stage e) p (v_fs e p) (QFilter r) = (?t, Inr ())"
    using assms(7-12)
    by (simp add: stageLocalContent_def link_or_copy_def stage_elem_def set_entry_def Let_def)
  have "prepare (v_pub e) ?job (stage_name (v_pub e)) (FDir []) = (FDir [], Inr ())"
    by (rule stage_link_only [OF assms(11), of "length p" "temp_name r suf"])
       (use pne in \<open>simp_all add: temp_name_def offer_job_def agentManagedDirs_def stage_name_def offer_publish_def\<close>)
  moreover have "map_of (Temp (FW ?w2)) (stage_name (v_pub e)) = None"
    using assms(5) by (simp add: temp_name_def offer_job_def stage_name_def)
  ultimately have "\<exists>err. snd (PublishDirectory (v_pub e) (v_media e ?t) ?job (FW ?w2)) = Inl err"
    using assms(13,14) by (intro publish_nothing) (simp_all add: offer_publish_def)
  then obtain tw err where pub: "PublishDirectory (v_pub e) (v_media e ?t) ?job (FW ?w2) = (tw, Inl err)"
    by (metis prod.collapse)
  have "temp_tree (temp_name r suf) (FW ?w2) = ?t" by (simp add: temp_tree_def)
  then have "FCalls (publish_and_deliver e cfg r (temp_name r suf) (path_base p) ?w2) = FCalls ?w1 @ [SiteFail (QID r)]"
    using pub by (simp add: publish_and_deliver_def Let_def)
  then have "FCalls (serve_local e cfg r p ?w1) = FCalls ?w1 @ [SiteFail (QID r)]"
    using assms(3,4) st by (simp add: serve_local_def Let_def)
  then show ?thesis
    using assms(1,2,6,9,12) pne by (simp add: fulfillOne_def Let_def chooseFulfillRoute_def stat_ok_def)
qed

theorem folder_offer_never_delivered_witness:
  "FCalls (fulfillOne (demo_fulfil []) demo_offer_config (demo_request []) (demo_offer_world ''/media/Show'' []))
     = [SiteClaim 7 (Some True), SiteFail 7]"
proof -
  have "isUploadableContent ''Show'' = False" "path_base ''/media/Show'' = ''Show''"
    "LocalPath (GetOfferSource (QHash (demo_request [])) (FDb (demo_offer_world ''/media/Show'' []))) = ''/media/Show''"
    by code_simp+
  then show ?thesis
    using folder_offer_never_delivered
      [of "demo_fulfil []" "''42''" "demo_offer_world ''/media/Show'' []" "demo_request []" "''/media/Show''"
        "[(''S01'', FDir [(''e01.mkv'', FFile [1, 2]), (''e02.mkv'', FFile [3])]), (''nfo.txt'', FFile [4])]" demo_offer_config]
    by (simp add: demo_fulfil_def demo_offer_world_def demo_offer_config_def demo_job_def demo_stage_def demo_show_def
        path_rooted_def has_prefix_def slash_def tools_add_nothing_def demo_env_def) (simp add: demo_request_def)
qed

text \<open>
  A remote download that has started and does not complete leaves its directory for good: it is still
  there when the handler returns, and because the job keeps its entry in the state of the agent, neither
  the sweep after a task nor the one at the start takes it.
\<close>

theorem failed_download_stays:
  assumes "\<not> v_db_err e" and "v_claim e = Some True" and "QFilter r = []" and "jobmap_ok (JobsMap (FW w))"
    and "chooseFulfillRoute (GetOfferSource (QHash r) (FDb w)) (Some cfg) = RouteRemote"
    and "fetchTorrentBytes (v_fetch e) (TorrentURL (GetOfferSource (QHash r) (FDb w)))
           (browserFor cfg (SourceShort (GetOfferSource (QHash r) (FDb w)))) (cookiesPath cfg) = Inr blob"
    and "v_lib e = None" and "snd (preflight (v_free e) (offer_job r) (v_len e) (FSpace w)) = None"
    and "0 < v_len e" and "v_dl e = Tick k # es" and "WaitAllDone \<notin> set es" and "v_dl_files e = Some xs"
  shows "map_of (Temp (FW (fulfillOne e cfg r w))) (dl_name (offer_job r)) = Some (FDir xs)
     \<and> dl_name (offer_job r) \<notin> set (SweepOrphanDownloads (entries_of (JobsMap (FW (fulfillOne e cfg r w)))) entries)
     \<and> dl_name (offer_job r) \<notin> set (SweepOrphanTempStartup (entries_of (JobsMap (FW (fulfillOne e cfg r w)))) entries)"
proof -
  let ?src = "GetOfferSource (QHash r) (FDb w)" and ?w1 = "call_site (SiteClaim (QID r) (v_claim e)) w"
  obtain w2 res where d: "downloadRemote e cfg r ?src ?w1 = (w2, res)" by fastforce
  let ?n = "dl_updates (v_below95 e) (rules_of None (F_Seed cfg)) (v_len e) (v_dl_start e) (v_dl e @ [Cancel]) dl_init"
  have n: "0 < ?n" using ticked [OF assms(9)] assms(10) by simp
  obtain l p where pf: "preflight (v_free e) (offer_job r) (v_len e) (FSpace w) = (l, None)"
    using assms(8) by (metis prod.collapse)
  have none: "downloadAndWaitSeed (v_below95 e) (rules_of None (F_Seed cfg)) (v_len e) (v_dl_start e) dir (v_dl e @ [Cancel]) dl_init \<noteq> Some (Inr q)" for dir q
    by (rule no_path) (use assms(10,11) in simp)
  then have res: "\<exists>err. res = Inl err"
    and w2: "FW w2 = (set_temp (dl_name (offer_job r)) (FDir xs) (FW w))\<lparr>JobsMap := (offer_mark e r ''Downloading'' ^^ ?n) (JobsMap (FW w))\<rparr>"
    using d assms(6,7,12) pf
    by (auto simp: downloadRemote_def Let_def DownloadPrivateTorrentBytes_def downloadTorrentFile_def split: option.splits sum.splits)
  let ?w' = "fulfillOne e cfg r w"
  have w': "FW ?w' = FW w2"
    using assms(1-3,5) d res by (auto simp: fulfillOne_def Let_def serve_remote_def)
  note m = marks_ok [OF assms(4) n, of e r "''Downloading''"]
  have "map_of (Temp (FW ?w')) (dl_name (offer_job r)) = Some (FDir xs)" unfolding w' w2 by simp
  moreover have "JobsMap (FW ?w') = (offer_mark e r ''Downloading'' ^^ ?n) (JobsMap (FW w))" unfolding w' w2 by simp
  ultimately show ?thesis using entry_protects [of "JobsMap (FW ?w')" "offer_job r"] m by simp
qed

theorem failed_download_stays_witness:
  "map_of (Temp (FW (fulfillOne (demo_fulfil [Tick \<lparr>clock = 5, completed = 1, peers = 0\<rparr>]) demo_offer_config (demo_request [])
      (demo_offer_world [] ''https://t/1'')))) ''dl-offer-7'' = Some (FDir [(''a.mkv'', FFile [1])])"
proof -
  let ?t = "Tick \<lparr>clock = 5, completed = 1, peers = 0\<rparr>"
  let ?e = "demo_fulfil [?t]" and ?r = "demo_request []" and ?w = "demo_offer_world [] ''https://t/1''"
  let ?src = "GetOfferSource (QHash ?r) (FDb ?w)"
  have "chooseFulfillRoute ?src (Some demo_offer_config) = RouteRemote" "offer_job ?r = ''offer-7''" by code_simp+
  moreover have "case fetchTorrentBytes (v_fetch ?e) (TorrentURL ?src) (browserFor demo_offer_config (SourceShort ?src)) (cookiesPath demo_offer_config) of
      Inr b \<Rightarrow> True | Inl err \<Rightarrow> False" by code_simp
  then obtain b where "fetchTorrentBytes (v_fetch ?e) (TorrentURL ?src) (browserFor demo_offer_config (SourceShort ?src)) (cookiesPath demo_offer_config) = Inr b"
    by (auto split: sum.splits)
  moreover have "\<not> v_db_err ?e" "v_claim ?e = Some True" "QFilter ?r = []" "jobmap_ok (JobsMap (FW ?w))" "v_lib ?e = None"
    "snd (preflight (v_free ?e) (offer_job ?r) (v_len ?e) (FSpace ?w)) = None" "0 < v_len ?e" "v_dl ?e = ?t # []"
    "v_dl_files ?e = Some [(''a.mkv'', FFile [1])]"
    by (simp_all add: demo_fulfil_def demo_request_def demo_offer_world_def preflight_def Let_def)
  ultimately show ?thesis
    using failed_download_stays [of ?e ?r ?w demo_offer_config b "\<lparr>clock = 5, completed = 1, peers = 0\<rparr>" "[]" "[(''a.mkv'', FFile [1])]"]
    by (simp add: dl_name_def)
qed

text \<open>
  A round asks for the claim of open and claimed requests only, of each at most once and in the order
  of the list, of none after the agent is told to stop, and gives no more verdicts than it claims.
\<close>

theorem round_claims:
  "\<exists>cs. FCalls (runOnce x cfg w) = FCalls w @ cs
     \<and> subseq (claims cs) (case t_pending x of None \<Rightarrow> [] | Some rs \<Rightarrow> map QID (served x 0 rs))
     \<and> length (verdicts cs) \<le> length (claims cs)"
proof (cases "t_pending x")
  case None
  then show ?thesis by (simp add: runOnce_def)
next
  case (Some rs)
  define w1 where
    "w1 = w\<lparr>FDb := fst (refreshPublishedPaths (stat_ok (t_fs x)) cfg (t_saves x) (t_now x) (t_published x) (FDb w))\<rparr>"
  have "FCalls w1 = FCalls w" by (simp add: w1_def)
  moreover have "runOnce x cfg w = (if rs = [] then w else serve_all x cfg 0 rs w1)"
    by (simp add: runOnce_def Some w1_def)
  ultimately show ?thesis using serve_all_claims [of x cfg 0 rs w1] by (cases "rs = []") (simp_all add: Some)
qed

end
