(* ===== verification/Regex.thy ===== *)
theory Regex
  imports GoBase
begin

text \<open>
  The regular expressions the scanners use, as a small engine with the semantics of Go's
  \<^verbatim>\<open>regexp\<close>: of all matches the leftmost, and of those the one a backtracking search finds first
  (an earlier alternative before a later one, a greedy repetition longest first). \<open>re_all\<close>
  lists the matches of an expression at one place in that order, \<open>re_search\<close> is
  \<^verbatim>\<open>FindStringSubmatch\<close> and \<open>re_replace_all\<close> is \<^verbatim>\<open>ReplaceAllString\<close>. \<open>re_fit\<close> says declaratively what
  a match is; the engine is sound and complete for it.

  Text is bytes, as everywhere in the development: a byte of a multi-byte rune belongs to no class
  of ASCII letters, digits or spaces, so the negated classes used here take it like the rune it is
  part of. The two non-ASCII runes that \<^verbatim>\<open>(?i)\<close> folds to \<^verbatim>\<open>s\<close> and \<^verbatim>\<open>k\<close> (U+017F and U+212A) are not
  modelled.
\<close>

datatype re =
    Eps
  | Cls "char \<Rightarrow> bool"
  | Seq re re
  | Alt re re
  | Many "char \<Rightarrow> bool" nat "nat option"
  | Grp re
  | Bol
  | Eol

type_synonym re_match = "string \<times> string \<times> string list"

definition most :: "nat option \<Rightarrow> nat \<Rightarrow> nat" where
  "most hi n = (case hi of None \<Rightarrow> n | Some h \<Rightarrow> min h n)"

text \<open>A match is the text taken, the text left and the submatches. \<open>b\<close> tells that the place is the
  beginning of the text.\<close>

primrec re_all :: "re \<Rightarrow> bool \<Rightarrow> string \<Rightarrow> re_match list" where
  "re_all Eps b s = [([], s, [])]"
| "re_all (Cls f) b s = (case s of [] \<Rightarrow> [] | c # r \<Rightarrow> if f c then [([c], r, [])] else [])"
| "re_all (Seq x y) b s =
     concat (map (\<lambda>(w, r, cs). map (\<lambda>(w', r', cs'). (w @ w', r', cs @ cs')) (re_all y (b \<and> w = []) r))
       (re_all x b s))"
| "re_all (Alt x y) b s = re_all x b s @ re_all y b s"
| "re_all (Many f lo hi) b s =
     map (\<lambda>n. (take n s, drop n s, [])) (rev [lo..<Suc (most hi (length (takeWhile f s)))])"
| "re_all (Grp x) b s = map (\<lambda>(w, r, cs). (w, r, w # cs)) (re_all x b s)"
| "re_all Bol b s = (if b then [([], s, [])] else [])"
| "re_all Eol b s = (if s = [] then [([], s, [])] else [])"

definition re_first :: "re \<Rightarrow> bool \<Rightarrow> string \<Rightarrow> re_match option" where
  "re_first e b s = (case re_all e b s of [] \<Rightarrow> None | m # ms \<Rightarrow> Some m)"

fun re_from :: "re \<Rightarrow> bool \<Rightarrow> string \<Rightarrow> re_match option" where
  "re_from e b s = (case re_first e b s of Some m \<Rightarrow> Some m
     | None \<Rightarrow> (case s of [] \<Rightarrow> None | c # s' \<Rightarrow> re_from e False s'))"

declare re_from.simps [simp del]

definition re_search :: "re \<Rightarrow> string \<Rightarrow> string list option" where
  "re_search e s = map_option (\<lambda>(w, r, cs). cs) (re_from e True s)"

text \<open>Replacing every match; the expression it is used with never matches the empty text.\<close>

function re_replace_from :: "re \<Rightarrow> bool \<Rightarrow> string \<Rightarrow> string \<Rightarrow> string" where
  "re_replace_from e b new s =
     (case s of [] \<Rightarrow> []
      | c # s' \<Rightarrow>
          (case re_first e b s of
             Some (w, r, cs) \<Rightarrow> if length r < length s then new @ re_replace_from e False new r
                                else c # re_replace_from e False new s'
           | None \<Rightarrow> c # re_replace_from e False new s'))"
  by pat_completeness auto

termination
  by (relation "measure (\<lambda>(e, b, new, s). length s)") auto

declare re_replace_from.simps [simp del]

definition re_replace_all :: "re \<Rightarrow> string \<Rightarrow> string \<Rightarrow> string" where
  "re_replace_all e new s = re_replace_from e True new s"

section \<open>Building expressions\<close>

text \<open>A letter or word under \<^verbatim>\<open>(?i)\<close>, an option, the classes.\<close>

definition chr_ci :: "char \<Rightarrow> char \<Rightarrow> bool" where
  "chr_ci a c \<longleftrightarrow> lower_chr c = lower_chr a"

fun word_ci :: "string \<Rightarrow> re" where
  "word_ci [] = Eps"
| "word_ci [c] = Cls (chr_ci c)"
| "word_ci (c # cs) = Seq (Cls (chr_ci c)) (word_ci cs)"

definition re_opt :: "re \<Rightarrow> re" where
  "re_opt e = Alt e Eps"

fun re_seq :: "re list \<Rightarrow> re" where
  "re_seq [] = Eps"
| "re_seq [e] = e"
| "re_seq (e # es) = Seq e (re_seq es)"

fun re_alt :: "re list \<Rightarrow> re" where
  "re_alt [] = Cls (\<lambda>c. False)"
| "re_alt [e] = e"
| "re_alt (e # es) = Alt e (re_alt es)"

definition is_alnum :: "char \<Rightarrow> bool" where
  "is_alnum c \<longleftrightarrow> is_digit c \<or> is_lower c \<or> is_upper c"

definition re_space :: "char \<Rightarrow> bool" where
  "re_space c \<longleftrightarrow> c \<in> set [CHR 0x09, CHR 0x0A, CHR 0x0C, CHR 0x0D, CHR '' '']"

section \<open>What a match is\<close>

text \<open>\<open>re_fit e b w r cs\<close>: followed by \<open>r\<close>, the expression can take \<open>w\<close> with submatches \<open>cs\<close>.\<close>

primrec re_fit :: "re \<Rightarrow> bool \<Rightarrow> string \<Rightarrow> string \<Rightarrow> string list \<Rightarrow> bool" where
  "re_fit Eps b w r cs \<longleftrightarrow> w = [] \<and> cs = []"
| "re_fit (Cls f) b w r cs \<longleftrightarrow> (\<exists>c. w = [c] \<and> f c) \<and> cs = []"
| "re_fit (Seq x y) b w r cs \<longleftrightarrow> (\<exists>u v as bs. w = u @ v \<and> cs = as @ bs \<and> re_fit x b u (v @ r) as
     \<and> re_fit y (b \<and> u = []) v r bs)"
| "re_fit (Alt x y) b w r cs \<longleftrightarrow> re_fit x b w r cs \<or> re_fit y b w r cs"
| "re_fit (Many f lo hi) b w r cs \<longleftrightarrow> list_all f w \<and> lo \<le> length w
     \<and> (case hi of None \<Rightarrow> True | Some h \<Rightarrow> length w \<le> h) \<and> cs = []"
| "re_fit (Grp x) b w r cs \<longleftrightarrow> (\<exists>as. cs = w # as \<and> re_fit x b w r as)"
| "re_fit Bol b w r cs \<longleftrightarrow> w = [] \<and> b \<and> cs = []"
| "re_fit Eol b w r cs \<longleftrightarrow> w = [] \<and> r = [] \<and> cs = []"

lemma takeWhile_length_ge:
  "n \<le> length (takeWhile f s) \<longleftrightarrow> n \<le> length s \<and> list_all f (take n s)"
proof (induction s arbitrary: n)
  case (Cons c s)
  then show ?case by (cases n) auto
qed simp

lemma re_all_iff: "(w, r, cs) \<in> set (re_all e b s) \<longleftrightarrow> s = w @ r \<and> re_fit e b w r cs"
proof (induction e arbitrary: b s w r cs)
  case (Cls f)
  then show ?case by (auto split: list.splits)
next
  case (Seq x y)
  have "(w, r, cs) \<in> set (re_all (Seq x y) b s) \<longleftrightarrow>
    (\<exists>u q as v bs. (u, q, as) \<in> set (re_all x b s) \<and> (v, r, bs) \<in> set (re_all y (b \<and> u = []) q)
       \<and> w = u @ v \<and> cs = as @ bs)"
    (is "_ \<longleftrightarrow> ?ex")
  proof -
    have "(w, r, cs) \<in> set (re_all (Seq x y) b s) \<longleftrightarrow>
      (\<exists>m \<in> set (re_all x b s). \<exists>m' \<in> set (re_all y (b \<and> fst m = []) (fst (snd m))).
         w = fst m @ fst m' \<and> r = fst (snd m') \<and> cs = snd (snd m) @ snd (snd m'))"
      by (simp add: case_prod_beta image_iff)
    also have "\<dots> \<longleftrightarrow> ?ex"
      by (simp only: Bex_def split_paired_Ex fst_conv snd_conv) blast
    finally show ?thesis .
  qed
  also have "\<dots> \<longleftrightarrow> s = w @ r \<and> re_fit (Seq x y) b w r cs" (is "?l \<longleftrightarrow> ?r")
  proof
    assume ?l
    then show ?r unfolding Seq.IH re_fit.simps by (elim exE conjE, intro conjI) (simp, blast)
  next
    assume ?r
    then obtain u v as bs where "s = w @ r" "w = u @ v" "cs = as @ bs" "re_fit x b u (v @ r) as"
      "re_fit y (b \<and> u = []) v r bs" by auto
    then show ?l unfolding Seq.IH by (intro exI [of _ u] exI [of _ "v @ r"] exI [of _ as]
      exI [of _ v] exI [of _ bs]) simp
  qed
  finally show ?case .
next
  case (Many f lo hi)
  have "(w, r, cs) \<in> set (re_all (Many f lo hi) b s) \<longleftrightarrow>
    (\<exists>n. lo \<le> n \<and> n \<le> most hi (length (takeWhile f s)) \<and> w = take n s \<and> r = drop n s \<and> cs = [])"
    by (auto simp: image_iff Bex_def less_Suc_eq_le simp del: upt_Suc)
  also have "\<dots> \<longleftrightarrow> s = w @ r \<and> re_fit (Many f lo hi) b w r cs"
    by (auto simp: most_def takeWhile_length_ge split: option.splits intro!: exI [of _ "length w"])
  finally show ?case .
next
  case (Grp x)
  have "(w, r, cs) \<in> set (re_all (Grp x) b s) \<longleftrightarrow> (\<exists>as. cs = w # as \<and> (w, r, as) \<in> set (re_all x b s))"
    by (auto simp: image_iff Bex_def)
  then show ?case using Grp.IH by auto
qed auto

lemma re_first_some: "re_first e b s = Some (w, r, cs) \<Longrightarrow> s = w @ r \<and> re_fit e b w r cs"
  using re_all_iff [of w r cs e b s] by (auto simp: re_first_def split: list.splits)

lemma re_first_none: "re_first e b s = None \<longleftrightarrow> (\<forall>w r cs. \<not> (s = w @ r \<and> re_fit e b w r cs))"
  unfolding re_all_iff [symmetric] by (auto simp: re_first_def split: list.splits)

text \<open>The search finds a match exactly when the text has one, and finds the leftmost.\<close>

lemma re_from_some:
  "re_from e b s = Some (w, r, cs) \<Longrightarrow>
     \<exists>p. s = p @ w @ r \<and> re_first e (b \<and> p = []) (w @ r) = Some (w, r, cs)
       \<and> (\<forall>p' q. s = p' @ q \<and> length p' < length p \<longrightarrow> re_first e (b \<and> p' = []) q = None)"
proof (induction e b s rule: re_from.induct)
  case (1 e b s)
  show ?case
  proof (cases "re_first e b s")
    case None
    then obtain c s' where s: "s = c # s'" and m: "re_from e False s' = Some (w, r, cs)"
      using "1.prems" by (subst (asm) re_from.simps) (auto split: list.splits)
    from "1.IH" [OF None s m] obtain p where
      p: "s' = p @ w @ r" "re_first e False (w @ r) = Some (w, r, cs)"
        "\<forall>p' q. s' = p' @ q \<and> length p' < length p \<longrightarrow> re_first e False q = None" by auto
    have "re_first e (b \<and> p' = []) q = None" if "s = p' @ q" "length p' < length (c # p)" for p' q
      using that p(3) None by (cases p') (auto simp: s)
    then show ?thesis using p(1,2) by (intro exI [of _ "c # p"]) (simp add: s)
  next
    case (Some m)
    then have "m = (w, r, cs)" using "1.prems" by (subst (asm) re_from.simps) simp
    then show ?thesis using Some re_first_some by (intro exI [of _ "[]"]) fastforce
  qed
qed

lemma re_from_none:
  "re_from e b s = None \<longleftrightarrow> (\<forall>p q. s = p @ q \<longrightarrow> re_first e (b \<and> p = []) q = None)"
proof (induction e b s rule: re_from.induct)
  case (1 e b s)
  have *: "re_from e b s = None \<longleftrightarrow> re_first e b s = None \<and>
      (case s of [] \<Rightarrow> True | c # s' \<Rightarrow> re_from e False s' = None)"
    by (subst re_from.simps) (auto split: option.splits list.splits)
  show ?case
  proof (cases s)
    case Nil
    then show ?thesis by (simp add: * [unfolded Nil])
  next
    case (Cons c s')
    show ?thesis
    proof (cases "re_first e b s = None")
      case True
      have "(\<forall>p q. s = p @ q \<longrightarrow> re_first e (b \<and> p = []) q = None) \<longleftrightarrow>
            (\<forall>p q. s' = p @ q \<longrightarrow> re_first e (False \<and> p = []) q = None)" (is "?l \<longleftrightarrow> ?r")
      proof
        assume l: ?l
        show ?r
        proof (intro allI impI)
          fix p q assume "s' = p @ q"
          then have "s = (c # p) @ q" by (simp add: Cons)
          then have "re_first e (b \<and> c # p = []) q = None" using l by blast
          then show "re_first e (False \<and> p = []) q = None" by simp
        qed
      next
        assume r: ?r
        show ?l
        proof (intro allI impI)
          fix p q assume pq: "s = p @ q"
          show "re_first e (b \<and> p = []) q = None"
            using pq True r by (cases p) (auto simp: Cons)
        qed
      qed
      then show ?thesis using "1.IH" [OF True Cons] True by (simp add: * [unfolded Cons] Cons)
    next
      case False
      then have "re_from e b s \<noteq> None" using * by simp
      moreover have "\<not> (\<forall>p q. s = p @ q \<longrightarrow> re_first e (b \<and> p = []) q = None)"
        using False by (auto intro: exI [of _ "[]"])
      ultimately show ?thesis by blast
    qed
  qed
qed

text \<open>Where the expression first fits, the search answers with what it takes there.\<close>

lemma re_from_at:
  assumes "re_first e (b \<and> p = []) q = Some m"
    and "\<And>p' q'. p @ q = p' @ q' \<Longrightarrow> length p' < length p \<Longrightarrow> re_first e (b \<and> p' = []) q' = None"
  shows "re_from e b (p @ q) = Some m"
  using assms
proof (induction p arbitrary: b)
  case Nil
  then show ?case by (subst re_from.simps) simp
next
  case (Cons c p)
  have "re_first e b (c # p @ q) = None" using Cons.prems(2) [of "[]" "c # p @ q"] by simp
  moreover have "re_from e False (p @ q) = Some m"
  proof (rule Cons.IH)
    show "re_first e (False \<and> p = []) q = Some m" using Cons.prems(1) by simp
    fix p' q' assume "p @ q = p' @ q'" "length p' < length p"
    then show "re_first e (False \<and> p' = []) q' = None" using Cons.prems(2) [of "c # p'" q'] by simp
  qed
  ultimately show ?case by (subst re_from.simps) simp
qed

text \<open>The first match of a sequence from the first matches of its parts.\<close>

lemma re_first_Seq:
  "re_first x b s = Some (w, r, cs) \<Longrightarrow> re_first y (b \<and> w = []) r = Some (w', r', cs')
   \<Longrightarrow> re_first (Seq x y) b s = Some (w @ w', r', cs @ cs')"
  by (auto simp: re_first_def split: list.splits)

lemma re_first_Cls: "f c \<Longrightarrow> re_first (Cls f) b (c # r) = Some ([c], r, [])"
  by (simp add: re_first_def)

lemma re_first_Grp: "re_first x b s = Some (w, r, cs) \<Longrightarrow> re_first (Grp x) b s = Some (w, r, w # cs)"
  by (auto simp: re_first_def split: list.splits)

lemma takeWhile_run: "list_all f w \<Longrightarrow> r = [] \<or> \<not> f (hd r) \<Longrightarrow> takeWhile f (w @ r) = w"
  by (induction w) (cases r; simp)+

lemma re_first_Many:
  assumes "list_all f w" "r = [] \<or> \<not> f (hd r)" "lo \<le> length w"
    and "case hi of None \<Rightarrow> True | Some h \<Rightarrow> length w \<le> h"
  shows "re_first (Many f lo hi) b (w @ r) = Some (w, r, [])"
proof -
  have "most hi (length (takeWhile f (w @ r))) = length w"
    using assms takeWhile_run [OF assms(1,2)] by (auto simp: most_def split: option.splits)
  then show ?thesis using assms(3) by (simp add: re_first_def)
qed

section \<open>The matches of the built expressions\<close>

lemma re_fit_word: "re_fit (word_ci s) b w r cs \<longleftrightarrow> to_lower w = to_lower s \<and> cs = []"
proof (induction s arbitrary: b w r cs rule: word_ci.induct)
  case (3 c d s)
  have "re_fit (word_ci (c # d # s)) b w r cs \<longleftrightarrow>
      (\<exists>x v. w = x # v \<and> lower_chr x = lower_chr c \<and> to_lower v = to_lower (d # s) \<and> cs = [])"
    unfolding word_ci.simps re_fit.simps 3 chr_ci_def by (metis append_Cons append_Nil)
  then show ?case by (cases w) (auto simp: to_lower_def)
qed (auto simp: to_lower_def chr_ci_def)

lemma re_fit_opt: "re_fit (re_opt e) b w r cs \<longleftrightarrow> re_fit e b w r cs \<or> w = [] \<and> cs = []"
  by (simp add: re_opt_def)

lemma re_fit_alt: "re_fit (re_alt es) b w r cs \<longleftrightarrow> list_ex (\<lambda>e. re_fit e b w r cs) es"
  by (induction es rule: re_alt.induct) auto

lemma re_search_some:
  "re_search e s = Some cs \<Longrightarrow> \<exists>p w r. s = p @ w @ r \<and> re_fit e (p = []) w r cs"
proof -
  assume "re_search e s = Some cs"
  then obtain w r where "re_from e True s = Some (w, r, cs)" by (auto simp: re_search_def)
  from re_from_some [OF this] obtain p where
    "s = p @ w @ r" "re_first e (True \<and> p = []) (w @ r) = Some (w, r, cs)" by blast
  then have "re_fit e (p = []) w r cs" using re_first_some [of e "True \<and> p = []" "w @ r" w r cs] by simp
  then show ?thesis using \<open>s = p @ w @ r\<close> by blast
qed

lemma re_search_none:
  "re_search e s = None \<longleftrightarrow> (\<forall>p w r cs. \<not> (s = p @ w @ r \<and> re_fit e (p = []) w r cs))"
proof -
  have "re_search e s = None \<longleftrightarrow>
      (\<forall>p q. s = p @ q \<longrightarrow> (\<forall>w r cs. \<not> (q = w @ r \<and> re_fit e (p = []) w r cs)))"
    by (simp add: re_search_def re_from_none re_first_none)
  then show ?thesis by blast
qed

end
