(* ===== verification/OfferScan.thy ===== *)
theory OfferScan
  imports Regex OfferRoute
begin

text \<open>
  The folder scanner (\<^verbatim>\<open>services/offer_folder_scanner.go\<close>), the identity of an offer
  (\<^verbatim>\<open>services/offer_hash.go\<close>) and the reading of a scraped title (\<^verbatim>\<open>parseScrapedRelease\<close> and
  \<^verbatim>\<open>normalizeTitle\<close> of \<^verbatim>\<open>services/offer_sync.go\<close>). The patterns are those of the source, built from the
  constructors of the engine in \<open>Regex\<close>. SHA-1 with its hexadecimal digest is a parameter.
\<close>

section \<open>Patterns\<close>

definition reSeasonEp :: re where
  "reSeasonEp = re_seq [Cls (chr_ci (CHR ''s'')), Grp (Many is_digit 1 (Some 2)),
     Cls (chr_ci (CHR ''e'')), Grp (Many is_digit 1 (Some 3))]"

definition reResolution :: re where
  "reResolution = Grp (re_alt (map word_ci [''2160p'', ''1080p'', ''720p'', ''480p'', ''4k'', ''uhd'']))"

definition opt_dash :: re where
  "opt_dash = re_opt (Cls (\<lambda>c. c = CHR ''-''))"

definition reSourceTag :: re where
  "reSourceTag = Grp (re_alt
     [re_seq [word_ci ''bd'', opt_dash, word_ci ''remux''], word_ci ''bdrip'', word_ci ''brrip'',
      re_seq [word_ci ''web'', opt_dash, word_ci ''dl''], word_ci ''webrip'', word_ci ''hdtv'', word_ci ''dvdrip''])"

definition non_alnum :: re where
  "non_alnum = Cls (\<lambda>c. \<not> is_alnum c)"

definition reEpOnly :: re where
  "reEpOnly = re_seq [Alt Bol non_alnum, Cls (chr_ci (CHR ''e'')),
     re_opt (Seq (Cls (chr_ci (CHR ''p''))) (re_opt (word_ci ''isode''))), Many re_space 0 None,
     Grp (Many is_digit 1 (Some 3)), Alt non_alnum Eol]"

definition reDashEp :: re where
  "reDashEp = re_seq [Alt Bol (Cls re_space), Cls (\<lambda>c. c = CHR ''-''), Many re_space 0 None,
     Grp (Many is_digit 1 (Some 3)), re_opt (Seq (Cls (\<lambda>c. c = CHR ''v'')) (Cls is_digit)),
     re_alt [Cls re_space, Eol, Cls (\<lambda>c. c \<in> set ''(['')]]"

definition reSeasonOnly :: re where
  "reSeasonOnly = re_seq [Alt Bol non_alnum, Cls (chr_ci (CHR ''s'')), re_opt (word_ci ''eason''),
     Many re_space 0 None, Grp (Many is_digit 1 (Some 2)), Alt non_alnum Eol]"

definition reBracketGroup :: re where
  "reBracketGroup = re_seq [Cls (\<lambda>c. c = CHR ''[''), Many (\<lambda>c. c \<noteq> CHR '']'') 0 None, Cls (\<lambda>c. c = CHR '']'')]"

section \<open>Reading a name\<close>

record ScannedFile =
  SF_RawTitle :: string
  SF_Path :: string
  SF_SizeBytes :: int
  SF_Season :: nat
  SF_Episode :: nat
  SF_Resolution :: string
  SF_SourceTag :: string

text \<open>The submatches \<^verbatim>\<open>m[1]\<close> and \<^verbatim>\<open>m[2]\<close>; at most three digits, so \<^verbatim>\<open>Atoi\<close> never fails on them.\<close>

definition sub1 :: "string list \<Rightarrow> string" where
  "sub1 cs = cs ! 0"

definition sub2 :: "string list \<Rightarrow> string" where
  "sub2 cs = cs ! 1"

definition seasonFrom :: "string \<Rightarrow> nat" where
  "seasonFrom stem =
     (case re_search reSeasonOnly stem of
        Some m \<Rightarrow> if atoi_nat (sub1 m) > 0 then atoi_nat (sub1 m) else 1
      | None \<Rightarrow> 1)"

definition season_episode :: "string \<Rightarrow> nat \<times> nat" where
  "season_episode stem =
     (case re_search reSeasonEp stem of
        Some m \<Rightarrow> (atoi_nat (sub1 m), atoi_nat (sub2 m))
      | None \<Rightarrow>
          (case re_search reEpOnly stem of
             Some m \<Rightarrow> (seasonFrom stem, atoi_nat (sub1 m))
           | None \<Rightarrow>
               (case re_search reDashEp stem of
                  Some m \<Rightarrow> (seasonFrom stem, atoi_nat (sub1 m))
                | None \<Rightarrow> (0, 0))))"

definition resolution_hint :: "string \<Rightarrow> string" where
  "resolution_hint stem =
     (case re_search reResolution stem of
        Some m \<Rightarrow> (let r = to_lower (sub1 m) in if r = ''uhd'' then ''4k'' else r)
      | None \<Rightarrow> [])"

definition source_hint :: "string \<Rightarrow> string" where
  "source_hint stem =
     (case re_search reSourceTag stem of
        Some m \<Rightarrow>
          (let t = to_lower (filter (\<lambda>c. c \<noteq> CHR ''-'') (sub1 m))
           in if t = ''bdremux'' then ''bd-remux'' else if t = ''webdl'' then ''web-dl'' else t)
      | None \<Rightarrow> [])"

definition fields :: "string \<Rightarrow> string list" where
  "fields s = fields_func is_space s"

definition stem_of :: "string \<Rightarrow> string" where
  "stem_of path = (let base = path_base path in trim_suffix base (file_ext base))"

definition parseScannedFile :: "string \<Rightarrow> int \<Rightarrow> ScannedFile" where
  "parseScannedFile path sz =
     (let stem = stem_of path; se = season_episode stem;
          clean = re_replace_all reBracketGroup '' '' stem
      in \<lparr>SF_RawTitle = join '' '' (fields clean), SF_Path = path, SF_SizeBytes = sz,
          SF_Season = fst se, SF_Episode = snd se,
          SF_Resolution = resolution_hint stem, SF_SourceTag = source_hint stem\<rparr>)"

text \<open>\<^verbatim>\<open>parseScrapedRelease\<close> of \<^verbatim>\<open>offer_sync.go\<close>: season, episode, resolution, source tag.\<close>

definition scraped_episode :: "string \<Rightarrow> nat \<times> nat" where
  "scraped_episode title =
     (case re_search reSeasonEp title of
        Some m \<Rightarrow> (atoi_nat (sub1 m), atoi_nat (sub2 m))
      | None \<Rightarrow>
          (case re_search reEpOnly title of
             Some m \<Rightarrow> (1, atoi_nat (sub1 m))
           | None \<Rightarrow> (0, 0)))"

definition parseScrapedRelease :: "string \<Rightarrow> nat \<times> nat \<times> string \<times> string" where
  "parseScrapedRelease title =
     (let se = scraped_episode title in (fst se, snd se, resolution_hint title, source_hint title))"

fun strip_ext :: "string list \<Rightarrow> string \<Rightarrow> string" where
  "strip_ext [] t = t"
| "strip_ext (ext # es) t =
     (if length ext \<le> length t \<and> to_lower (drop (length t - length ext) t) = to_lower ext
      then take (length t - length ext) t else strip_ext es t)"

definition normalizeTitle :: "string \<Rightarrow> string" where
  "normalizeTitle s =
     (let t = strip_ext [''.mkv'', ''.mp4'', ''.avi'', ''.m4v''] (re_replace_all reBracketGroup '' '' s)
      in join '' '' (fields (to_lower t)))"

section \<open>The identity of an offer\<close>

definition SizeBucket :: "int \<Rightarrow> string" where
  "SizeBucket n =
     (if n < 524288000 then ''<500MB'' else if n < 1073741824 then ''<1GB''
      else if n < 2684354560 then ''<2.5GB'' else ''>=2.5GB'')"

definition offer_ident :: "string \<Rightarrow> int \<Rightarrow> nat \<Rightarrow> nat \<Rightarrow> string \<Rightarrow> string \<Rightarrow> string" where
  "offer_ident etype eid season ep res tag =
     join ''|'' [to_lower (trim_space etype), itoa eid, itoa (int season), itoa (int ep),
       to_lower (trim_space res), to_lower (trim_space tag)]"

definition ComputeOfferHash :: "(string \<Rightarrow> string) \<Rightarrow> string \<Rightarrow> int \<Rightarrow> nat \<Rightarrow> nat \<Rightarrow> string \<Rightarrow> string \<Rightarrow> string" where
  "ComputeOfferHash sha1hex etype eid season ep res tag = sha1hex (offer_ident etype eid season ep res tag)"

section \<open>The folder walk\<close>

definition knownSubdirs :: "string list" where
  "knownSubdirs = [''extras'', ''extra'', ''bonus'', ''sample'', ''samples'', ''behind the scenes'',
     ''behind_the_scenes'', ''behindthescenes'', ''shorts'', ''ovas'', ''ova'', ''specials'', ''special'',
     ''trailers'', ''credits'', ''intros'', ''outros'']"

definition isInSubdirectory :: "fpath \<Rightarrow> bool" where
  "isInSubdirectory p =
     (let parts = split_on slash (to_lower (rel_path p))
      in length parts > 1 \<and> to_lower (hd parts) \<in> set knownSubdirs)"

definition hidden_dir :: "string \<Rightarrow> fpath \<Rightarrow> bool" where
  "hidden_dir dir p \<longleftrightarrow>
     (let name = base_of (path_base dir) p in name \<noteq> ''.'' \<and> has_prefix name ''.'')"

definition allowed_exts :: "string list \<Rightarrow> string list" where
  "allowed_exts extensions = (if extensions = [] then [''.mkv'', ''.mp4''] else map to_lower extensions)"

definition scan_floor :: "int \<Rightarrow> int" where
  "scan_floor sizeMinMB = i64 (i64 (sizeMinMB * 1024) * 1024)"

definition scan_cb :: "string \<Rightarrow> string list \<Rightarrow> int \<Rightarrow> ScannedFile list \<Rightarrow> fpath \<Rightarrow> fnode \<Rightarrow> ScannedFile list \<times> wres" where
  "scan_cb dir exts minBytes out p n =
     (if node_err n \<noteq> None then (out, WNil)
      else if is_dir n then (out, if hidden_dir dir p then WSkipDir else WNil)
      else if to_lower (file_ext (walk_path dir p)) \<notin> set exts then (out, WNil)
      else if int (lsize n) < minBytes then (out, WNil)
      else if isInSubdirectory p then (out, WNil)
      else (out @ [parseScannedFile (walk_path dir p) (int (lsize n))], WNil))"

text \<open>\<open>tree\<close> is the node at the root, if \<^verbatim>\<open>os.Lstat\<close> finds one; when it does not, the callback gets
  the error and drops it. The callback never returns another error, so the result has none.\<close>

definition ScanFolder :: "(string \<Rightarrow> fnode option) \<Rightarrow> string \<Rightarrow> string list \<Rightarrow> int \<Rightarrow> ScannedFile list" where
  "ScanFolder fs dir extensions sizeMinMB =
     (if dir = [] then []
      else case fs dir of
             None \<Rightarrow> []
           | Some t \<Rightarrow> fst (file_walk (scan_cb dir (allowed_exts extensions) (scan_floor sizeMinMB)) [] t))"

section \<open>Walks that answer SkipDir for some directories\<close>

text \<open>A callback that answers \<^verbatim>\<open>SkipDir\<close> for the listable directories that \<open>skip\<close> selects and for no
  other listable directory or file; what it answers for an unlistable directory makes no difference,
  there is nothing below it.\<close>

definition skips :: "(fpath \<Rightarrow> bool) \<Rightarrow> ('s \<Rightarrow> fpath \<Rightarrow> fnode \<Rightarrow> 's \<times> wres) \<Rightarrow> bool" where
  "skips skip f \<longleftrightarrow>
     (\<forall>s p xs. (skip p \<longrightarrow> snd (f s p (FDir xs)) \<noteq> WNil) \<and> (\<not> skip p \<longrightarrow> snd (f s p (FDir xs)) \<noteq> WSkipDir))
   \<and> (\<forall>s p n. \<not> is_dir n \<longrightarrow> snd (f s p n) \<noteq> WSkipDir)"

definition as_nil :: "wres \<Rightarrow> wres" where
  "as_nil r = (if r = WSkipDir then WNil else r)"

lemma skips_walk:
  shows "skips skip f \<Longrightarrow> walk f s p t = (s', r) \<Longrightarrow>
           walk_seq f s (visits skip p t) = (s', as_nil r) \<and> (r = WSkipDir \<longrightarrow> is_dir t)"
    and "skips skip f \<Longrightarrow> walk_list f s p xs = walk_seq f s (visits_list skip p xs)"
proof (induction skip p t and skip p xs arbitrary: s s' r and s rule: visits_visits_list.induct)
  case (1 skip p xs)
  obtain s1 r1 where sr: "f s p (FDir xs) = (s1, r1)" by fastforce
  have r1: "skip p \<Longrightarrow> r1 \<noteq> WNil" "\<not> skip p \<Longrightarrow> r1 \<noteq> WSkipDir"
    using 1(2) sr unfolding skips_def by (metis snd_conv)+
  show ?case
  proof (cases "skip p")
    case True
    then show ?thesis using 1(3) sr r1 by (auto simp: as_nil_def)
  next
    case False
    show ?thesis
    proof (cases "r1 = WNil")
      case True
      then have w: "walk_seq f s1 (visits_list skip p xs) = (s', r)"
        using 1(1) [OF False 1(2)] 1(3) sr by simp
      then have "r \<noteq> WSkipDir" by (rule walk_seq_not_skip)
      then show ?thesis using w sr True False by (simp add: as_nil_def)
    next
      case False
      then show ?thesis using 1(3) sr r1(2) \<open>\<not> skip p\<close> by (simp add: as_nil_def)
    qed
  qed
next
  case (2 skip p b)
  have "snd (f s p (FFile b)) \<noteq> WSkipDir" using 2(1) by (simp add: skips_def)
  then show ?case using 2 by (cases "f s p (FFile b)") (auto simp: as_nil_def)
next
  case (3 skip p)
  then show ?case by (cases "f s p FUnreadable") (auto simp: as_nil_def)
next
  case (4 skip p n t)
  have "snd (f s p (FLink n t)) \<noteq> WSkipDir" using 4(1) by (simp add: skips_def)
  then show ?case using 4 by (cases "f s p (FLink n t)") (auto simp: as_nil_def)
next
  case (5 skip p)
  then show ?case by simp
next
  case (6 skip p n t xs)
  obtain s1 r1 where sr: "walk f s (p @ [n]) t = (s1, r1)" by fastforce
  from 6(1) [OF 6(3) sr] 6(2) [OF 6(3)] show ?case
    by (auto simp: sr walk_seq_append as_nil_def)
qed

lemma skips_file_walk:
  "skips skip f \<Longrightarrow> file_walk f s t = (case walk_seq f s (visits skip [] t) of (s', r) \<Rightarrow>
     (s', if r = WSkipAll then WNil else r))"
  using skips_walk(1) [of skip f s "[]" t]
  by (auto simp: file_walk_def as_nil_def split: prod.splits)

section \<open>What a scan finds\<close>

definition offerable :: "string \<Rightarrow> string list \<Rightarrow> int \<Rightarrow> fpath \<Rightarrow> fnode \<Rightarrow> bool" where
  "offerable dir exts minBytes p n \<longleftrightarrow> \<not> is_dir n \<and> to_lower (file_ext (walk_path dir p)) \<in> set exts
     \<and> minBytes \<le> int (lsize n) \<and> \<not> isInSubdirectory p"

definition scan_row :: "string \<Rightarrow> fpath \<times> fnode \<Rightarrow> ScannedFile" where
  "scan_row dir v = parseScannedFile (walk_path dir (fst v)) (int (lsize (snd v)))"

lemma not_dir_no_err: "\<not> is_dir n \<Longrightarrow> node_err n = None"
  by (cases n) auto

lemma skips_scan_cb: "skips (hidden_dir dir) (scan_cb dir exts m)"
  by (auto simp: skips_def scan_cb_def not_dir_no_err)

lemma scan_cb_cases:
  "scan_cb dir exts m out p n = (if offerable dir exts m p n then out @ [scan_row dir (p, n)] else out, WNil)
   \<or> scan_cb dir exts m out p n = (if offerable dir exts m p n then out @ [scan_row dir (p, n)] else out, WSkipDir)"
  using not_dir_no_err [of n] by (auto simp: scan_cb_def offerable_def scan_row_def)

lemma foldl_collect: "foldl (\<lambda>out v. if P v then out @ [g v] else out) acc vs = acc @ map g (filter P vs)"
  by (induction vs arbitrary: acc) auto

lemma ScanFolder_rows:
  assumes "dir \<noteq> []" and "fs dir = Some t"
  shows "ScanFolder fs dir extensions mb =
    map (scan_row dir) (filter (\<lambda>v. offerable dir (allowed_exts extensions) (scan_floor mb) (fst v) (snd v))
      (visits (hidden_dir dir) [] t))"
proof -
  let ?f = "scan_cb dir (allowed_exts extensions) (scan_floor mb)"
  let ?P = "\<lambda>v. offerable dir (allowed_exts extensions) (scan_floor mb) (fst v) (snd v)"
  let ?g = "\<lambda>out v. if ?P v then out @ [scan_row dir v] else out"
  have "walk_seq ?f [] (visits (hidden_dir dir) [] t) = (foldl ?g [] (visits (hidden_dir dir) [] t), WNil)"
    by (rule walk_seq_fold) (use scan_cb_cases in auto)
  then show ?thesis
    using assms by (simp add: ScanFolder_def skips_file_walk [OF skips_scan_cb] foldl_collect)
qed

section \<open>The hints\<close>

lemma lower_chr_back: "lower_chr c = d \<Longrightarrow> \<not> is_lower d \<Longrightarrow> c = d"
proof (cases "is_upper c")
  case True
  then have "of_char (lower_chr c) = (of_char c + 32 :: nat)"
    by (auto simp: lower_chr_def is_upper_def chr_le_def take_bit_nat_def)
  then have "is_lower (lower_chr c)"
    using True by (simp add: is_lower_def is_upper_def chr_le_def)
  then show "lower_chr c = d \<Longrightarrow> \<not> is_lower d \<Longrightarrow> c = d" by simp
qed (simp add: lower_chr_def)

lemma lower_dash: "lower_chr c = CHR ''-'' \<longleftrightarrow> c = CHR ''-''"
  using lower_chr_back [of c "CHR ''-''"] by (auto simp: is_lower_def is_upper_def chr_le_def lower_chr_def)

lemma lower_no_dash: "to_lower (filter (\<lambda>c. c \<noteq> CHR ''-'') w) = filter (\<lambda>c. c \<noteq> CHR ''-'') (to_lower w)"
  by (induction w) (auto simp: to_lower_def lower_dash)

definition resolutions :: "string list" where
  "resolutions = [[], ''2160p'', ''1080p'', ''720p'', ''480p'', ''4k'']"

definition source_tags :: "string list" where
  "source_tags = [[], ''bd-remux'', ''bdrip'', ''brrip'', ''web-dl'', ''webrip'', ''hdtv'', ''dvdrip'']"

lemma low_words:
  "to_lower ''2160p'' = ''2160p''" "to_lower ''1080p'' = ''1080p''" "to_lower ''720p'' = ''720p''"
  "to_lower ''480p'' = ''480p''" "to_lower ''4k'' = ''4k''" "to_lower ''uhd'' = ''uhd''"
  "to_lower ''bd'' = ''bd''" "to_lower ''remux'' = ''remux''" "to_lower ''bdrip'' = ''bdrip''"
  "to_lower ''brrip'' = ''brrip''" "to_lower ''web'' = ''web''" "to_lower ''dl'' = ''dl''"
  "to_lower ''webrip'' = ''webrip''" "to_lower ''hdtv'' = ''hdtv''" "to_lower ''dvdrip'' = ''dvdrip''"
  "to_lower ''-'' = ''-''" "to_lower ''isode'' = ''isode''" "to_lower ''eason'' = ''eason''"
  by (simp_all add: to_lower_def lower_chr_def is_upper_def chr_le_def)

lemma resolution_hint_in: "resolution_hint stem \<in> set resolutions"
proof (cases "re_search reResolution stem")
  case (Some m)
  from re_search_some [OF this] obtain p :: string and w r where "re_fit reResolution (p = []) w r m" by blast
  then have "m = [w]" "to_lower w \<in> set [''2160p'', ''1080p'', ''720p'', ''480p'', ''4k'', ''uhd'']"
    by (auto simp: reResolution_def re_fit_alt re_fit_word low_words simp del: word_ci.simps re_alt.simps)
  then show ?thesis by (auto simp: resolution_hint_def Some sub1_def resolutions_def Let_def)
qed (simp add: resolution_hint_def resolutions_def)

definition no_dash :: "string \<Rightarrow> string" where
  "no_dash w = to_lower (filter (\<lambda>c. c \<noteq> CHR ''-'') w)"

lemma tag_fit_word: "re_fit (word_ci a) b w r cs \<Longrightarrow> cs = [] \<and> no_dash w = no_dash a"
  by (simp add: re_fit_word no_dash_def lower_no_dash)

lemma tag_fit_dashed:
  assumes "re_fit (re_seq [word_ci a, opt_dash, word_ci b]) s w r cs"
  shows "cs = [] \<and> no_dash w = no_dash (a @ b)"
proof -
  from assms obtain u d v where w: "w = u @ d @ v" and cs: "cs = []" and u: "to_lower u = to_lower a"
    and v: "to_lower v = to_lower b" and d: "d = ''-'' \<or> d = []"
    by (auto simp: re_fit_word re_fit_opt opt_dash_def)
  from d have "no_dash w = no_dash (u @ v)" by (auto simp: w no_dash_def)
  also have "\<dots> = no_dash (a @ b)" by (simp only: no_dash_def lower_no_dash to_lower_append u v)
  finally show ?thesis using cs by simp
qed

lemma source_hint_in: "source_hint stem \<in> set source_tags"
proof (cases "re_search reSourceTag stem")
  case (Some m)
  from re_search_some [OF this] obtain p :: string and w r where "re_fit reSourceTag (p = []) w r m" by blast
  then have "\<exists>cs. m = w # cs \<and> (re_fit (re_seq [word_ci ''bd'', opt_dash, word_ci ''remux'']) (p = []) w r cs
      \<or> re_fit (re_seq [word_ci ''web'', opt_dash, word_ci ''dl'']) (p = []) w r cs
      \<or> (\<exists>a \<in> set [''bdrip'', ''brrip'', ''webrip'', ''hdtv'', ''dvdrip'']. re_fit (word_ci a) (p = []) w r cs))"
    by (auto simp: reSourceTag_def re_fit_alt simp del: re_seq.simps word_ci.simps re_alt.simps)
  then have m: "m = [w] \<and> no_dash w \<in> no_dash ` set [''bdremux'', ''bdrip'', ''brrip'', ''webdl'', ''webrip'', ''hdtv'', ''dvdrip'']"
    using tag_fit_dashed [of "''bd''" "''remux''"] tag_fit_dashed [of "''web''" "''dl''"] tag_fit_word
    by (auto simp del: re_seq.simps word_ci.simps)
  then have "no_dash w \<in> set [''bdremux'', ''bdrip'', ''brrip'', ''webdl'', ''webrip'', ''hdtv'', ''dvdrip'']"
    by (simp add: no_dash_def to_lower_def lower_chr_def is_upper_def chr_le_def)
  then show ?thesis using m by (auto simp: source_hint_def Some sub1_def source_tags_def Let_def no_dash_def)
qed (simp add: source_hint_def source_tags_def)

lemma atoi_bound:
  assumes "list_all is_digit w"
  shows "atoi_nat w < 10 ^ length w"
  using assms
proof (induction w rule: rev_induct)
  case (snoc c w)
  then have "digit_val c \<le> 9" by (auto simp: is_digit_def chr_le_def digit_val_def)
  then show ?case using snoc by (simp add: atoi_nat_def)
qed (simp add: atoi_nat_def)

lemma atoi_le:
  assumes "list_all is_digit w" and "length w \<le> k"
  shows "atoi_nat w < 10 ^ k"
  using atoi_bound [OF assms(1)] power_increasing [OF assms(2), of "10::nat"] by linarith

lemma chr_ci_lower: "is_lower a \<Longrightarrow> chr_ci a x \<longleftrightarrow> lower_chr x = a"
  by (auto simp: chr_ci_def lower_chr_def is_lower_def is_upper_def chr_le_def)

section \<open>What the parts of a match look like\<close>

text \<open>What an expression can take at some place.\<close>

definition takes :: "re \<Rightarrow> string \<Rightarrow> string list \<Rightarrow> bool" where
  "takes e w cs \<longleftrightarrow> (\<exists>b r. re_fit e b w r cs)"

lemma takes_seq:
  "es \<noteq> [] \<Longrightarrow> re_fit (re_seq es) b w r cs \<Longrightarrow>
     \<exists>ps. w = concat (map fst ps) \<and> cs = concat (map snd ps) \<and> list_all2 (\<lambda>e p. takes e (fst p) (snd p)) es ps"
proof (induction es arbitrary: b w cs rule: re_seq.induct)
  case (2 e)
  then show ?case by (intro exI [of _ "[(w, cs)]"]) (auto simp: takes_def)
next
  case (3 e f es)
  from 3(3) obtain u v as bs where uv: "w = u @ v" "cs = as @ bs" "re_fit e b u (v @ r) as"
    "re_fit (re_seq (f # es)) (b \<and> u = []) v r bs" by auto
  from 3(1) [OF _ uv(4)] obtain ps where "v = concat (map fst ps)" "bs = concat (map snd ps)"
    "list_all2 (\<lambda>e p. takes e (fst p) (snd p)) (f # es) ps" by blast
  then show ?case using uv(1-3)
    by (intro exI [of _ "(u, as) # ps"]) (auto simp: takes_def simp del: re_seq.simps)
qed simp

lemma takes_simps:
  "takes (Cls f) w cs \<longleftrightarrow> (\<exists>c. w = [c] \<and> f c) \<and> cs = []"
  "takes (Many f lo hi) w cs \<longleftrightarrow> list_all f w \<and> lo \<le> length w
     \<and> (case hi of None \<Rightarrow> True | Some h \<Rightarrow> length w \<le> h) \<and> cs = []"
  "takes (Grp x) w cs \<longleftrightarrow> (\<exists>as. cs = w # as \<and> takes x w as)"
  "takes (Alt x y) w cs \<longleftrightarrow> takes x w cs \<or> takes y w cs"
  "takes (re_opt x) w cs \<longleftrightarrow> takes x w cs \<or> w = [] \<and> cs = []"
  "takes (word_ci s) w cs \<longleftrightarrow> to_lower w = to_lower s \<and> cs = []"
  by (auto simp: takes_def re_fit_opt re_fit_word)

lemma takes_pair: "takes (Seq x y) w cs \<Longrightarrow> \<exists>u v as bs. w = u @ v \<and> cs = as @ bs \<and> takes x u as \<and> takes y v bs"
  unfolding takes_def re_fit.simps by blast

lemma no_dash_word: "to_lower w = to_lower s \<Longrightarrow> CHR ''-'' \<notin> set (to_lower s) \<Longrightarrow> CHR ''-'' \<notin> set w"
  using lower_dash [of "CHR ''-''"] by (auto simp: to_lower_def dest!: arg_cong [where f = set])
    (metis image_eqI)

lemma no_dash_space: "list_all re_space w \<Longrightarrow> CHR ''-'' \<notin> set w"
proof
  assume "list_all re_space w" "CHR ''-'' \<in> set w"
  then have "re_space (CHR ''-'')" by (simp add: list_all_iff)
  then show False by (simp add: re_space_def)
qed

lemma reSeasonEp_fit:
  assumes "re_fit reSeasonEp b w r cs"
  shows "\<exists>x ds y de. w = x # ds @ y # de \<and> lower_chr x = CHR ''s'' \<and> ds \<noteq> [] \<and> length ds \<le> 2 \<and> length de \<le> 3
     \<and> list_all is_digit ds \<and> list_all is_digit de \<and> cs = [ds, de]"
  using takes_seq [OF _ assms [unfolded reSeasonEp_def]]
  by (auto simp: list_all2_Cons1 takes_simps chr_ci_lower is_lower_def chr_le_def simp del: re_seq.simps)

lemma letter_run:
  assumes "re_fit (re_seq [h, Cls (chr_ci a), w1, Many re_space 0 None, Grp (Many is_digit 1 (Some k)), z]) b w r cs"
    and "is_lower a" and "\<And>u c. takes w1 u c \<Longrightarrow> c = [] \<and> CHR ''-'' \<notin> set u"
    and "\<And>u c. takes h u c \<Longrightarrow> c = []" and "\<And>u c. takes z u c \<Longrightarrow> c = []"
  shows "\<exists>u x m d v. w = u @ x # m @ d @ v \<and> lower_chr x = a \<and> CHR ''-'' \<notin> set m
     \<and> d \<noteq> [] \<and> length d \<le> k \<and> list_all is_digit d \<and> cs = [d]"
proof -
  from takes_seq [OF _ assms(1)] obtain u hc x p pc sp d v vc where
    w: "w = u @ [x] @ p @ sp @ d @ v" "cs = hc @ [] @ pc @ [] @ [d] @ vc"
    and t: "takes h u hc" "chr_ci a x" "takes w1 p pc" "list_all re_space sp" "list_all is_digit d" "1 \<le> length d"
      "length d \<le> k" "takes z v vc"
    by (auto simp: list_all2_Cons1 takes_simps simp del: re_seq.simps)
  then show ?thesis
    using assms(3) [OF t(3)] assms(4) [OF t(1)] assms(5) [OF t(8)] no_dash_space [OF t(4)] chr_ci_lower [OF assms(2)]
    by (intro exI [of _ u] exI [of _ x] exI [of _ "p @ sp"] exI [of _ d] exI [of _ v]) auto
qed

lemma takes_edges:
  "takes (Alt Bol non_alnum) u c \<Longrightarrow> c = []" "takes (Alt non_alnum Eol) u c \<Longrightarrow> c = []"
  by (auto simp: takes_def non_alnum_def)

lemma reEpOnly_fit:
  assumes "re_fit reEpOnly b w r cs"
  shows "\<exists>u x m d v. w = u @ x # m @ d @ v \<and> lower_chr x = CHR ''e'' \<and> CHR ''-'' \<notin> set m
     \<and> d \<noteq> [] \<and> length d \<le> 3 \<and> list_all is_digit d \<and> cs = [d]"
proof (rule letter_run [OF assms [unfolded reEpOnly_def]])
  fix u c assume "takes (re_opt (Seq (Cls (chr_ci CHR ''p'')) (re_opt (word_ci ''isode'')))) u c"
  then consider "u = [] \<and> c = []" | y v where "u = y # v" "c = []" "chr_ci (CHR ''p'') y"
      "v = [] \<or> to_lower v = to_lower ''isode''"
    unfolding takes_simps by (auto dest!: takes_pair simp only: takes_simps) auto
  then show "c = [] \<and> CHR ''-'' \<notin> set u"
  proof cases
    case (2 y v)
    have "y \<noteq> CHR ''-''" using 2(3) by (auto simp: chr_ci_def lower_chr_def is_upper_def chr_le_def)
    moreover have "CHR ''-'' \<notin> set v" using 2(4) no_dash_word [of v "''isode''"] low_words by auto
    ultimately show ?thesis using 2 by auto
  qed simp
qed (use takes_edges in \<open>auto simp: is_lower_def chr_le_def\<close>)

lemma reSeasonOnly_fit:
  assumes "re_fit reSeasonOnly b w r cs"
  shows "\<exists>u x m d v. w = u @ x # m @ d @ v \<and> lower_chr x = CHR ''s'' \<and> CHR ''-'' \<notin> set m
     \<and> d \<noteq> [] \<and> length d \<le> 2 \<and> list_all is_digit d \<and> cs = [d]"
proof (rule letter_run [OF assms [unfolded reSeasonOnly_def]])
  fix u c assume "takes (re_opt (word_ci ''eason'')) u c"
  then have "c = []" "u = [] \<or> to_lower u = to_lower ''eason''" unfolding takes_simps by auto
  then show "c = [] \<and> CHR ''-'' \<notin> set u" using no_dash_word [of u "''eason''"] low_words by auto
qed (use takes_edges in \<open>auto simp: is_lower_def chr_le_def\<close>)

lemma fit_pair: "re_fit (Seq x y) b w r cs \<Longrightarrow>
    \<exists>b' u v as bs. w = u @ v \<and> cs = as @ bs \<and> takes x u as \<and> re_fit y b' v r bs"
  unfolding takes_def re_fit.simps by blast

lemma reDashEp_fit:
  assumes "re_fit reDashEp b w r cs"
  shows "\<exists>h sp d v. w = h @ CHR ''-'' # sp @ d @ v \<and> length h \<le> 1 \<and> list_all re_space sp
     \<and> d \<noteq> [] \<and> length d \<le> 3 \<and> list_all is_digit d \<and> cs = [d] \<and> (v @ r = [] \<or> \<not> is_digit (hd (v @ r)))"
proof -
  let ?z = "re_alt [Cls re_space, Eol, Cls (\<lambda>c. c \<in> set ''(['')]"
  let ?o = "re_opt (Seq (Cls (\<lambda>c. c = CHR ''v'')) (Cls is_digit))"
  from fit_pair [OF assms [unfolded reDashEp_def re_seq.simps]] obtain b1 h v1 c0 c1 where 1: "w = h @ v1" "cs = c0 @ c1" "takes (Alt Bol (Cls re_space)) h c0"
      "re_fit (re_seq [Cls (\<lambda>c. c = CHR ''-''), Many re_space 0 None, Grp (Many is_digit 1 (Some 3)), ?o, ?z]) b1 v1 r c1"
    unfolding re_seq.simps by blast
  from fit_pair [OF 1(4) [unfolded re_seq.simps]] obtain b2 x v2 c2 c3 where 2: "v1 = x @ v2" "c1 = c2 @ c3" "takes (Cls (\<lambda>c. c = CHR ''-'')) x c2"
      "re_fit (re_seq [Many re_space 0 None, Grp (Many is_digit 1 (Some 3)), ?o, ?z]) b2 v2 r c3"
    unfolding re_seq.simps by blast
  from fit_pair [OF 2(4) [unfolded re_seq.simps]] obtain b3 sp v3 c4 c5 where 3: "v2 = sp @ v3" "c3 = c4 @ c5" "takes (Many re_space 0 None) sp c4"
      "re_fit (re_seq [Grp (Many is_digit 1 (Some 3)), ?o, ?z]) b3 v3 r c5"
    unfolding re_seq.simps by blast
  from fit_pair [OF 3(4) [unfolded re_seq.simps]] obtain b4 d v4 c6 c7 where 4: "v3 = d @ v4" "c5 = c6 @ c7" "takes (Grp (Many is_digit 1 (Some 3))) d c6"
      "re_fit (re_seq [?o, ?z]) b4 v4 r c7"
    unfolding re_seq.simps by blast
  from fit_pair [OF 4(4) [unfolded re_seq.simps]] obtain b5 q z c8 c9 where 5: "v4 = q @ z" "c7 = c8 @ c9" "takes ?o q c8" "re_fit ?z b5 z r c9"
    unfolding re_seq.simps by blast
  have h: "length h \<le> 1 \<and> c0 = []" using 1(3) by (auto simp: takes_def)
  have q: "q = [] \<and> c8 = [] \<or> (\<exists>e. q = [CHR ''v'', e]) \<and> c8 = []"
    using 5(3) by (auto simp: takes_def re_fit_opt)
  have z: "c9 = [] \<and> (z @ r = [] \<or> \<not> is_digit (hd (z @ r)))"
    using 5(4) by (auto simp: re_space_def is_digit_def chr_le_def)
  have v: "v4 @ r = [] \<or> \<not> is_digit (hd (v4 @ r))"
    using q z 5(1) by (auto simp: is_digit_def chr_le_def)
  have x: "x = ''-'' \<and> c2 = []" and sp: "list_all re_space sp \<and> c4 = []"
    and d: "list_all is_digit d \<and> 1 \<le> length d \<and> length d \<le> 3 \<and> c6 = [d]"
    using 2(3) 3(3) 4(3) by (simp_all add: takes_simps)
  have "w = h @ CHR ''-'' # sp @ d @ v4" "cs = [d]"
    using x sp d h q z by (auto simp: 1(1,2) 2(1,2) 3(1,2) 4(1,2) 5(2))
  moreover have "d \<noteq> []" using d by auto
  ultimately show ?thesis using sp d h v by blast
qed

section \<open>Names that state the episode after a dash\<close>

definition no_digits :: "string \<Rightarrow> bool" where
  "no_digits t \<longleftrightarrow> list_all (\<lambda>c. \<not> is_digit c) t"

lemma early_gap:
  assumes eq: "t @ '' - '' @ v = A @ x # m @ d @ B" and "length A < length t" and "no_digits t"
    and "CHR ''-'' \<notin> set m" and "d \<noteq> []" and "list_all is_digit d"
  shows False
proof -
  have "t @ ('' - '' @ v) = (A @ [x]) @ (m @ d @ B)" using eq by simp
  from iffD1 [OF append_eq_append_conv2 this]
  obtain us where "t = (A @ [x]) @ us \<and> us @ '' - '' @ v = m @ d @ B
      \<or> t @ us = A @ [x] \<and> '' - '' @ v = us @ m @ d @ B" by blast
  then have "\<exists>us. t = A @ x # us \<and> us @ '' - '' @ v = m @ d @ B"
  proof
    assume *: "t @ us = A @ [x] \<and> '' - '' @ v = us @ m @ d @ B"
    then have "length t + length us = length A + 1" by (metis length_append length_Cons list.size(3) One_nat_def)
    then have "length us = 0" using assms(2) by linarith
    then have "us = []" by simp
    then show ?thesis using * by (intro exI [of _ "[]"]) simp
  qed (intro exI [of _ us], simp)
  then obtain us where t: "t = A @ x # us" and us: "us @ '' - '' @ v = m @ d @ B" by blast
  have nd: "\<not> is_digit c" if "c \<in> set (us @ '' -'')" for c
    using that assms(3) t by (auto simp: no_digits_def list_all_iff is_digit_def chr_le_def)
  from us have "(us @ '' -'') @ '' '' @ v = m @ (d @ B)" by simp
  from iffD1 [OF append_eq_append_conv2 this]
  consider k where "us @ '' -'' = m @ k" "k @ '' '' @ v = d @ B" | k where "m = (us @ '' -'') @ k"
    by metis
  then show False
  proof cases
    case (1 k)
    have "k \<noteq> []" using 1(1) assms(4) by (metis append_Nil2 in_set_conv_decomp append_Cons append_Nil append_assoc)
    then have "hd k = hd d" "hd k \<in> set (us @ '' -'')" using 1 assms(5) by (metis hd_append2, metis UnCI hd_in_set set_append)
    then show False using nd assms(5,6) by (metis hd_in_set list_all_iff)
  next
    case (2 k)
    then show False using assms(4) by simp
  qed
qed

lemma letter_gap:
  assumes "t @ '' - '' @ v = A @ x # m @ d @ B" and "x \<notin> set v" and "x \<noteq> CHR ''-''" and "x \<noteq> CHR '' ''"
    and "no_digits t" and "CHR ''-'' \<notin> set m" and "d \<noteq> []" and "list_all is_digit d"
  shows False
proof (rule early_gap [OF assms(1) _ assms(5-8)])
  show "length A < length t"
  proof (rule ccontr)
    assume "\<not> length A < length t"
    then have *: "length t \<le> length A" by simp
    from iffD1 [OF append_eq_append_conv2 assms(1)]
    obtain k where "t = A @ k \<and> k @ '' - '' @ v = x # m @ d @ B
        \<or> t @ k = A \<and> '' - '' @ v = k @ x # m @ d @ B" by blast
    then have "\<exists>k. '' - '' @ v = k @ x # m @ d @ B"
    proof
      assume k: "t = A @ k \<and> k @ '' - '' @ v = x # m @ d @ B"
      then have "k = []" using * by simp
      then have "'' - '' @ v = [] @ x # m @ d @ B" using k by (simp only: append_Nil)
      then show ?thesis by blast
    qed blast
    then have "x \<in> set ('' - '' @ v)" by (metis in_set_conv_decomp)
    then show False using assms(2-4) by auto
  qed
qed

text \<open>A title without digits, the dash, one to three digits, and a rest that opens with a blank or a
  bracket and holds neither of the letters \<^verbatim>\<open>s\<close> and \<^verbatim>\<open>e\<close>, such as \<^verbatim>\<open>(1080p)\<close>.\<close>

definition episode_suffix :: "string \<Rightarrow> string \<Rightarrow> bool" where
  "episode_suffix ds u \<longleftrightarrow> ds \<noteq> [] \<and> length ds \<le> 3 \<and> list_all is_digit ds
     \<and> (u = [] \<or> re_space (hd u) \<or> hd u \<in> set ''(['')
     \<and> list_all (\<lambda>c. lower_chr c \<noteq> CHR ''s'' \<and> lower_chr c \<noteq> CHR ''e'') u"

lemma suffix_letter:
  assumes "episode_suffix ds u" and "lower_chr x = CHR ''s'' \<or> lower_chr x = CHR ''e''"
  shows "x \<notin> set (ds @ u)" "x \<noteq> CHR ''-''" "x \<noteq> CHR '' ''"
proof -
  have "x \<notin> set ds"
    using assms by (auto simp: episode_suffix_def list_all_iff is_digit_def lower_chr_def is_upper_def chr_le_def)
  then show "x \<notin> set (ds @ u)" using assms by (auto simp: episode_suffix_def list_all_iff)
qed (use assms(2) in \<open>auto simp: lower_chr_def is_upper_def chr_le_def\<close>)

lemma dash_no_letter_forms:
  assumes "no_digits t" and "episode_suffix ds u"
  shows "re_search reSeasonEp (t @ '' - '' @ ds @ u) = None" "re_search reEpOnly (t @ '' - '' @ ds @ u) = None"
    "re_search reSeasonOnly (t @ '' - '' @ ds @ u) = None"
proof -
  have gap: False if "t @ '' - '' @ ds @ u = A @ x # m @ d @ B" "lower_chr x = CHR ''s'' \<or> lower_chr x = CHR ''e''"
    "CHR ''-'' \<notin> set m" "d \<noteq> []" "list_all is_digit d" for A x m d B
    using letter_gap [OF that(1) suffix_letter [OF assms(2) that(2)] assms(1) that(3-5)] .
  show "re_search reSeasonEp (t @ '' - '' @ ds @ u) = None"
    unfolding re_search_none using gap [of _ _ "[]"] by (fastforce dest!: reSeasonEp_fit)
  show "re_search reEpOnly (t @ '' - '' @ ds @ u) = None"
    unfolding re_search_none
  proof (intro allI notI)
    fix p w r cs assume *: "t @ '' - '' @ ds @ u = p @ w @ r \<and> re_fit reEpOnly (p = []) w r cs"
    then obtain a x m d v where "w = a @ x # m @ d @ v" "lower_chr x = CHR ''e''" "CHR ''-'' \<notin> set m" "d \<noteq> []" "list_all is_digit d"
      using reEpOnly_fit by blast
    then show False using * gap [of "p @ a" x m d "v @ r"] by simp
  qed
  show "re_search reSeasonOnly (t @ '' - '' @ ds @ u) = None"
    unfolding re_search_none
  proof (intro allI notI)
    fix p w r cs assume *: "t @ '' - '' @ ds @ u = p @ w @ r \<and> re_fit reSeasonOnly (p = []) w r cs"
    then obtain a x m d v where "w = a @ x # m @ d @ v" "lower_chr x = CHR ''s''" "CHR ''-'' \<notin> set m" "d \<noteq> []" "list_all is_digit d"
      using reSeasonOnly_fit by blast
    then show False using * gap [of "p @ a" x m d "v @ r"] by simp
  qed
qed

lemma suffix_not_digit: "episode_suffix ds u \<Longrightarrow> u = [] \<or> \<not> is_digit (hd u)"
  by (auto simp: episode_suffix_def re_space_def is_digit_def chr_le_def)

lemma fit_pairI:
  "re_fit x b u (v @ r) as \<Longrightarrow> re_fit y (b \<and> u = []) v r bs \<Longrightarrow> re_fit (Seq x y) b (u @ v) r (as @ bs)"
  by auto

lemma dash_fits:
  assumes "episode_suffix ds u"
  shows "\<exists>w r. '' - '' @ ds @ u = w @ r \<and> re_fit reDashEp b w r [ds]"
proof -
  define z where "z = take 1 u"
  have z: "u = z @ drop 1 u" "re_fit (re_alt [Cls re_space, Eol, Cls (\<lambda>c. c \<in> set ''(['')]) b' z (drop 1 u) []" for b'
    using assms by (cases u; auto simp: z_def episode_suffix_def)+
  have "re_fit reDashEp b ('' '' @ ''-'' @ '' '' @ ds @ [] @ z) (drop 1 u) ([] @ [] @ [] @ [ds] @ [] @ [])"
    unfolding reDashEp_def re_seq.simps
    by (intro fit_pairI z(2)) (use assms in \<open>auto simp: re_space_def episode_suffix_def re_fit_opt Suc_le_eq\<close>)
  then show ?thesis using z(1)
    by (intro exI [of _ "'' - '' @ ds @ z"] exI [of _ "drop 1 u"]) simp
qed

lemma digits_until:
  assumes "d @ v = ds @ u" and "list_all is_digit d" and "list_all is_digit ds"
    and "v = [] \<or> \<not> is_digit (hd v)" and "u = [] \<or> \<not> is_digit (hd u)"
  shows "d = ds"
  using takeWhile_run [OF assms(2,4)] takeWhile_run [OF assms(3,5)] assms(1) by simp

lemma dash_search:
  assumes "no_digits t" and "episode_suffix ds u"
  shows "re_search reDashEp (t @ '' - '' @ ds @ u) = Some [ds]"
proof -
  have ds: "ds \<noteq> []" "list_all is_digit ds" using assms(2) by (auto simp: episode_suffix_def)
  have early: "re_first reDashEp (p = []) q = None" if "t @ '' - '' @ ds @ u = p @ q" "length p < length t" for p q
    unfolding re_first_none
  proof (intro allI notI)
    fix w r cs assume *: "q = w @ r \<and> re_fit reDashEp (p = []) w r cs"
    then obtain h sp d v where w: "w = h @ CHR ''-'' # sp @ d @ v" and h: "length h \<le> 1" and sp: "list_all re_space sp"
      and d: "d \<noteq> []" "list_all is_digit d" using reDashEp_fit by blast
    have eq: "t @ '' - '' @ (ds @ u) = (p @ h) @ CHR ''-'' # sp @ d @ (v @ r)" using that(1) * w by simp
    have "length (p @ h) < length t"
    proof (rule ccontr)
      assume "\<not> length (p @ h) < length t"
      then have "length (p @ h) = length t" using h that(2) by simp
      then have "'' - '' @ (ds @ u) = CHR ''-'' # sp @ d @ (v @ r)"
        using append_eq_append_conv [of t "p @ h"] eq by simp
      then show False by simp
    qed
    then show False by (rule early_gap [OF eq _ assms(1) no_dash_space [OF sp] d])
  qed
  obtain m where m: "re_first reDashEp (t = []) ('' - '' @ ds @ u) = Some m"
    using dash_fits [OF assms(2)] re_first_none [of reDashEp "t = []" "'' - '' @ ds @ u"] by fastforce
  obtain w r cs where mm: "m = (w, r, cs)" by (cases m) auto
  from re_first_some [OF m [unfolded mm]] obtain h sp d v where
    w: "'' - '' @ ds @ u = w @ r" "w = h @ CHR ''-'' # sp @ d @ v" and h: "length h \<le> 1" and sp: "list_all re_space sp"
    and d: "d \<noteq> []" "list_all is_digit d" "cs = [d]" "v @ r = [] \<or> \<not> is_digit (hd (v @ r))"
    using reDashEp_fit by blast
  have eq: "'' - '' @ ds @ u = h @ CHR ''-'' # sp @ d @ (v @ r)" using w by simp
  then have "h = '' ''" using h by (cases h) auto
  with eq have s: "'' '' @ (ds @ u) = sp @ (d @ (v @ r))" by simp
  have nospace: "\<not> re_space (hd x)" if "x \<noteq> []" "list_all is_digit x" for x
    using that by (cases x) (auto simp: re_space_def is_digit_def chr_le_def)
  have "takeWhile re_space ('' '' @ (ds @ u)) = '' ''"
    by (rule takeWhile_run) (use ds nospace in \<open>auto simp: re_space_def\<close>)
  moreover have "takeWhile re_space (sp @ (d @ (v @ r))) = sp"
    by (rule takeWhile_run) (use sp d nospace in auto)
  ultimately have "sp = '' ''" using s by metis
  then have "d @ (v @ r) = ds @ u" using s by simp
  then have "d = ds" using digits_until d(2,4) ds(2) suffix_not_digit [OF assms(2)] by blast
  moreover have "re_from reDashEp True (t @ '' - '' @ ds @ u) = Some m"
    by (rule re_from_at) (use m early in auto)
  ultimately show ?thesis by (simp add: re_search_def mm d(3))
qed

text \<open>The forms \<^verbatim>\<open>S01E07\<close>, after any text without digits.\<close>

lemma SxxEyy_search:
  assumes "no_digits t" and "ds \<noteq> []" "length ds \<le> 2" "list_all is_digit ds"
    and "de \<noteq> []" "length de \<le> 3" "list_all is_digit de" and "u = [] \<or> \<not> is_digit (hd u)"
  shows "re_search reSeasonEp (t @ ''S'' @ ds @ ''E'' @ de @ u) = Some [ds, de]"
proof -
  have low: "chr_ci (CHR ''s'') (CHR ''S'')" "chr_ci (CHR ''e'') (CHR ''E'')"
    by code_simp+
  have len: "Suc 0 \<le> length ds" "Suc 0 \<le> length de"
    using assms(2,5) by (cases ds; simp) (cases de; simp add: assms(5))
  have g1: "re_first (Grp (Many is_digit 1 (Some 2))) b (ds @ CHR ''E'' # de @ u) = Some (ds, CHR ''E'' # de @ u, [ds])" for b
    using re_first_Grp [OF re_first_Many [of is_digit ds "CHR ''E'' # de @ u" 1 "Some 2" b]] assms(3,4) len
    by (simp add: is_digit_def chr_le_def)
  have g2: "re_first (Grp (Many is_digit 1 (Some 3))) b (de @ u) = Some (de, u, [de])" for b
    using re_first_Grp [OF re_first_Many [of is_digit de u 1 "Some 3" b]] assms(6-8) len by simp
  have at: "re_first reSeasonEp b (CHR ''S'' # ds @ CHR ''E'' # de @ u) = Some ([CHR ''S''] @ ds @ [CHR ''E''] @ de, u, [] @ [ds] @ [] @ [de])" for b
    unfolding reSeasonEp_def re_seq.simps
    by (intro re_first_Seq [OF re_first_Cls [where f = "chr_ci (CHR ''s'')", OF low(1)]] re_first_Seq [OF g1]
          re_first_Seq [OF re_first_Cls [where f = "chr_ci (CHR ''e'')", OF low(2)]] g2)
  have early: "re_first reSeasonEp (p = []) q = None"
    if "t @ CHR ''S'' # ds @ CHR ''E'' # de @ u = p @ q" "length p < length t" for p q
    unfolding re_first_none
  proof (intro allI notI)
    fix w r cs assume *: "q = w @ r \<and> re_fit reSeasonEp (p = []) w r cs"
    then obtain x d y e where w: "w = x # d @ y # e" "d \<noteq> []" "list_all is_digit d" using reSeasonEp_fit by blast
    then obtain c d' where d: "d = c # d'" "is_digit c" by (cases d) auto
    have eq: "t @ CHR ''S'' # ds @ CHR ''E'' # de @ u = p @ x # c # d' @ y # e @ r" using that(1) * w d by simp
    have "(t @ CHR ''S'' # ds @ CHR ''E'' # de @ u) ! Suc (length p) = c" unfolding eq by (simp add: nth_append)
    moreover have "\<not> is_digit ((t @ CHR ''S'' # ds @ CHR ''E'' # de @ u) ! Suc (length p))"
      using that(2) assms(1) by (cases "Suc (length p) = length t")
        (auto simp: nth_append no_digits_def list_all_length is_digit_def chr_le_def)
    ultimately show False using d by simp
  qed
  have "re_from reSeasonEp True (t @ CHR ''S'' # ds @ CHR ''E'' # de @ u) = Some ([CHR ''S''] @ ds @ [CHR ''E''] @ de, u, [] @ [ds] @ [] @ [de])"
    by (rule re_from_at) (use at early in auto)
  then show ?thesis by (simp add: re_search_def)
qed

section \<open>Properties\<close>

text \<open>
  C26. A folder scan yields exactly the files with an allowed extension and size that no hidden
  directory and no known supplementary directory at the top excludes.
\<close>

theorem ScanFolder_exact:
  assumes "dir \<noteq> []" and "fs dir = Some t" and "wf_tree t"
  shows "row \<in> set (ScanFolder fs dir extensions mb) \<longleftrightarrow>
    (\<exists>p n. file_at t p = Some n \<and> (\<forall>k < length p. \<not> hidden_dir dir (take k p))
       \<and> to_lower (file_ext (walk_path dir p)) \<in> set (allowed_exts extensions)
       \<and> scan_floor mb \<le> int (lsize n) \<and> \<not> isInSubdirectory p
       \<and> row = parseScannedFile (walk_path dir p) (int (lsize n)))"
proof -
  have "row \<in> set (ScanFolder fs dir extensions mb) \<longleftrightarrow>
     (\<exists>p n. ((p, n) \<in> set (visits (hidden_dir dir) [] t) \<and> \<not> is_dir n)
       \<and> to_lower (file_ext (walk_path dir p)) \<in> set (allowed_exts extensions)
       \<and> scan_floor mb \<le> int (lsize n) \<and> \<not> isInSubdirectory p
       \<and> row = parseScannedFile (walk_path dir p) (int (lsize n)))"
    by (simp add: ScanFolder_rows [of dir fs t, OF assms(1,2)] offerable_def scan_row_def image_iff Bex_def split_paired_Ex)
  moreover have v: "(p, n) \<in> set (visits (hidden_dir dir) [] t) \<and> \<not> is_dir n
      \<longleftrightarrow> file_at t p = Some n \<and> (\<forall>k < length p. \<not> hidden_dir dir (take k p))" for p n
    using visits_file_at(1) [OF assms(3), of "[]" p n "hidden_dir dir"] by simp
  ultimately show ?thesis unfolding v conj_assoc by blast
qed

text \<open>
  C40. Whatever the name, season and episode are at most 99 and 999 and resolution and source
  tag are words of the fixed vocabulary.
\<close>

theorem scan_hints_bounded:
  "SF_Season (parseScannedFile path sz) \<le> 99 \<and> SF_Episode (parseScannedFile path sz) \<le> 999
   \<and> SF_Resolution (parseScannedFile path sz) \<in> set resolutions
   \<and> SF_SourceTag (parseScannedFile path sz) \<in> set source_tags"
proof -
  have two: "atoi_nat d \<le> 99" if "list_all is_digit d" "length d \<le> 2" for d
    using atoi_le [OF that] by simp
  have three: "atoi_nat d \<le> 999" if "list_all is_digit d" "length d \<le> 3" for d
    using atoi_le [OF that] by simp
  have se: "atoi_nat (sub1 m) \<le> 99 \<and> atoi_nat (sub2 m) \<le> 999" if "re_search reSeasonEp s = Some m" for m s
    using re_search_some [OF that] by (auto dest!: reSeasonEp_fit simp: sub1_def sub2_def two three)
  have ep: "atoi_nat (sub1 m) \<le> 999" if "re_search reEpOnly s = Some m" for m s
    using re_search_some [OF that] by (auto dest!: reEpOnly_fit simp: sub1_def three)
  have da: "atoi_nat (sub1 m) \<le> 999" if "re_search reDashEp s = Some m" for m s
    using re_search_some [OF that] by (auto dest!: reDashEp_fit simp: sub1_def three)
  have so: "atoi_nat (sub1 m) \<le> 99" if "re_search reSeasonOnly s = Some m" for m s
    using re_search_some [OF that] by (auto dest!: reSeasonOnly_fit simp: sub1_def two)
  have "seasonFrom s \<le> 99" for s by (auto simp: seasonFrom_def so split: option.splits)
  then have "fst (season_episode s) \<le> 99 \<and> snd (season_episode s) \<le> 999" for s
    by (auto simp: season_episode_def se ep da split: option.splits)
  then show ?thesis
    by (simp add: parseScannedFile_def Let_def resolution_hint_in source_hint_in)
qed

text \<open>
  A name whose title has no digit and that states the episode after a dash is read as that episode of
  season one when it is a file, and as no episode at all when it is a scraped title.
\<close>

theorem dash_names_read:
  assumes "no_digits t" and "episode_suffix ds u"
  shows "season_episode (t @ '' - '' @ ds @ u) = (1, atoi_nat ds) \<and> scraped_episode (t @ '' - '' @ ds @ u) = (0, 0)"
  using dash_no_letter_forms [OF assms] dash_search [OF assms]
  by (simp add: season_episode_def scraped_episode_def seasonFrom_def sub1_def)

theorem dash_names_read_witness:
  "season_episode ''Show Title - 07 (1080p)'' = (1, 7) \<and> scraped_episode ''Show Title - 07 (1080p)'' = (0, 0)"
proof -
  have n: "no_digits ''Show Title''" and s: "episode_suffix ''07'' '' (1080p)''" and a: "atoi_nat ''07'' = 7" by code_simp+
  have "''Show Title'' @ '' - '' @ ''07'' @ '' (1080p)'' = ''Show Title - 07 (1080p)''" by simp
  with dash_names_read [OF n s] show ?thesis unfolding a by metis
qed

text \<open>
  C27. A name that states season \<open>s\<close> below 100 and episode \<open>e\<close> below 1000 as \<open>S\<close>\<open>s\<close>\<open>E\<close>\<open>e\<close>, behind a title
  without digits and with no further digit directly after it, is read as that season and episode, of a
  file and of a scraped title alike, whatever else follows.
\<close>

theorem SxxEyy_names_read:
  assumes "no_digits t" and "s < 100" and "e < 1000" and "u = [] \<or> \<not> is_digit (hd u)"
  shows "season_episode (t @ ''S'' @ itoa_nat s @ ''E'' @ itoa_nat e @ u) = (s, e)
     \<and> scraped_episode (t @ ''S'' @ itoa_nat s @ ''E'' @ itoa_nat e @ u) = (s, e)"
proof -
  have dig: "list_all is_digit (itoa_nat n)" for n using itoa_nat_digits by (simp add: list_all_iff)
  have len: "length (itoa_nat n) \<le> 2" if "n < 100" for n
    using that by (subst itoa_nat.simps) (auto, subst itoa_nat.simps, simp)
  have len3: "length (itoa_nat n) \<le> 3" if "n < 1000" for n
    using that len [of "n div 10"] by (subst itoa_nat.simps) auto
  show ?thesis
    using SxxEyy_search [OF assms(1) itoa_nat_ne len [OF assms(2)] dig itoa_nat_ne len3 [OF assms(3)] dig assms(4)]
    by (simp add: season_episode_def scraped_episode_def sub1_def sub2_def)
qed

text \<open>A season the title states is the season of a dash name too.\<close>

theorem dash_season_stated:
  "season_episode ''Dr. Stone S3 - 07'' = (3, 7) \<and> season_episode ''Dr. Stone - 07'' = (1, 7)"
  by code_simp




theorem SxxEyy_names_read_witness:
  "season_episode ''Show.S2E105.mkv'' = (2, 105) \<and> scraped_episode ''Show.S2E105.mkv'' = (2, 105)"
proof -
  have n: "no_digits ''Show.''" and i: "itoa_nat 2 = ''2''" "itoa_nat 105 = ''105''" by code_simp+
  have "''Show.'' @ ''S'' @ itoa_nat 2 @ ''E'' @ itoa_nat 105 @ ''.mkv'' = ''Show.S2E105.mkv''" unfolding i by simp
  note eq = this
  have u: "''.mkv'' = [] \<or> \<not> is_digit (hd ''.mkv'')" by code_simp
  have "season_episode (''Show.'' @ ''S'' @ itoa_nat 2 @ ''E'' @ itoa_nat 105 @ ''.mkv'') = (2, 105)
      \<and> scraped_episode (''Show.'' @ ''S'' @ itoa_nat 2 @ ''E'' @ itoa_nat 105 @ ''.mkv'') = (2, 105)"
    by (rule SxxEyy_names_read [OF n _ _ u]) simp_all
  then show ?thesis unfolding eq .
qed

text \<open>Only the first directory below the root is compared with the known names, so the extras of a
  release that has a directory of its own are offered.\<close>

definition demo_library :: fnode where
  "demo_library = FDir [(''Show'', FDir [(''Extras'', FDir [(''Making Of.mkv'', FFile [1, 2])]), (''S01E01.mkv'', FFile [1])])]"

definition demo_fs :: "string \<Rightarrow> fnode option" where
  "demo_fs p = (if p = ''/m'' then Some demo_library else None)"

theorem nested_extras_offered:
  "map SF_Path (ScanFolder demo_fs ''/m'' [] 0) = [''/m/Show/Extras/Making Of.mkv'', ''/m/Show/S01E01.mkv'']"
  by code_simp

theorem ScanFolder_exact_witness:
  "parseScannedFile ''/m/Show/S01E01.mkv'' 1 \<in> set (ScanFolder demo_fs ''/m'' [] 0)"
proof -
  have 1: "''/m'' \<noteq> []" "demo_fs ''/m'' = Some demo_library" "wf_tree demo_library" by code_simp+
  have 2: "file_at demo_library [''Show'', ''S01E01.mkv''] = Some (FFile [1])"
    "\<not> hidden_dir ''/m'' []" "\<not> hidden_dir ''/m'' [''Show'']"
    "to_lower (file_ext (walk_path ''/m'' [''Show'', ''S01E01.mkv''])) \<in> set (allowed_exts [])"
    "scan_floor 0 \<le> 1" "\<not> isInSubdirectory [''Show'', ''S01E01.mkv'']"
    "walk_path ''/m'' [''Show'', ''S01E01.mkv''] = ''/m/Show/S01E01.mkv''" by code_simp+
  have k: "\<forall>k < length [''Show'', ''S01E01.mkv'']. \<not> hidden_dir ''/m'' (take k [''Show'', ''S01E01.mkv''])"
    using 2(2,3) by (auto simp: less_Suc_eq)
  show ?thesis
    unfolding ScanFolder_exact [where fs = demo_fs and t = demo_library, OF 1] by (intro exI [of _ "[''Show'', ''S01E01.mkv'']"] exI [of _ "FFile [1]"] conjI 2 k)
      (use 2 in simp_all)
qed

end
