(* ===== verification/Inventory.thy ===== *)
theory Inventory
  imports OfferScan Config
begin

text \<open>
  The inventory reports (\<^verbatim>\<open>services/inventory_scan.go\<close>, \<^verbatim>\<open>inventory_service.go\<close>,
  \<^verbatim>\<open>inventory_probe.go\<close> and the batch limits of \<^verbatim>\<open>client/inventory.go\<close> and
  \<^verbatim>\<open>client/inventory_media.go\<close>): the walk of one root, its batches, the posts of one generation, and
  one pass of the media prober. Log lines and the site's counts, which only feed them, are not
  modelled.
\<close>

section \<open>The walk\<close>

record InventoryOptions =
  MinSizeBytes :: int
  ExcludeExts :: "string list"
  MaxFiles :: int

record InventoryFile =
  IF_RelPath :: string
  IF_SizeBytes :: int
  IF_RawTitle :: string
  IF_Season :: nat
  IF_Episode :: nat
  IF_Resolution :: string
  IF_SourceTag :: string

record InventoryResult =
  IR_Files :: "InventoryFile list"
  IR_Truncated :: bool
  IR_Skipped :: nat

definition no_inventory :: InventoryResult where
  "no_inventory = \<lparr>IR_Files = [], IR_Truncated = False, IR_Skipped = 0\<rparr>"

definition DefaultInventoryExcludes :: "string list" where
  "DefaultInventoryExcludes = [''.nfo'', ''.sfv'', ''.md5'', ''.txt'', ''.url'', ''.lnk'', ''.db'', ''.ds_store'',
     ''.part'', ''.!qb'', ''.tmp'']"

definition MaxReached :: "InventoryOptions \<Rightarrow> InventoryResult \<Rightarrow> bool" where
  "MaxReached opts r \<longleftrightarrow> MaxFiles opts > 0 \<and> int (length (IR_Files r)) \<ge> MaxFiles opts"

definition inv_skip :: "fpath \<Rightarrow> bool" where
  "inv_skip p \<longleftrightarrow> p \<noteq> [] \<and> (has_prefix (last p) ''.'' \<or> last p = ''@eaDir'' \<or> last p = ''lost+found'')"

definition inv_row :: "string \<Rightarrow> fpath \<Rightarrow> int \<Rightarrow> InventoryFile" where
  "inv_row absRoot p sz =
     (let f = parseScannedFile (walk_path absRoot p) sz
      in \<lparr>IF_RelPath = rel_path p, IF_SizeBytes = sz, IF_RawTitle = SF_RawTitle f, IF_Season = SF_Season f,
          IF_Episode = SF_Episode f, IF_Resolution = SF_Resolution f, IF_SourceTag = SF_SourceTag f\<rparr>)"

definition inv_wanted :: "string \<Rightarrow> InventoryOptions \<Rightarrow> fpath \<Rightarrow> int \<Rightarrow> bool" where
  "inv_wanted absRoot opts p sz \<longleftrightarrow>
     to_lower (file_ext (walk_path absRoot p)) \<notin> set (ExcludeExts opts)
     \<and> \<not> (MinSizeBytes opts > 0 \<and> sz < MinSizeBytes opts)"

definition inv_cb :: "string \<Rightarrow> InventoryOptions \<Rightarrow> InventoryResult \<Rightarrow> fpath \<Rightarrow> fnode \<Rightarrow> InventoryResult \<times> wres" where
  "inv_cb absRoot opts r p n =
     (if node_err n \<noteq> None then (r\<lparr>IR_Skipped := Suc (IR_Skipped r)\<rparr>, if is_dir n then WSkipDir else WNil)
      else if is_dir n then (r, if inv_skip p then WSkipDir else WNil)
      else case n of
        FFile b \<Rightarrow>
          if MaxReached opts r then (r\<lparr>IR_Truncated := True\<rparr>, WSkipAll)
          else if \<not> inv_wanted absRoot opts p (int (length b)) then (r, WNil)
          else (r\<lparr>IR_Files := IR_Files r @ [inv_row absRoot p (int (length b))]\<rparr>, WNil)
      | _ \<Rightarrow> (r, WNil))"

text \<open>\<^verbatim>\<open>filepath.Abs\<close>, with the working directory if it is known.\<close>

definition path_abs :: "string option \<Rightarrow> string \<Rightarrow> string option" where
  "path_abs cwd p = (if path_rooted p then Some (path_clean p) else map_option (\<lambda>d. path_join d p) cwd)"

text \<open>\<open>fs\<close> is what \<^verbatim>\<open>os.Lstat\<close> finds; \<^verbatim>\<open>os.Stat\<close> follows links, \<^verbatim>\<open>Walk\<close> does not.\<close>

definition ScanInventory ::
  "(string \<Rightarrow> fnode option) \<Rightarrow> string option \<Rightarrow> string \<Rightarrow> InventoryOptions \<Rightarrow> InventoryResult \<times> string option" where
  "ScanInventory fs cwd dir opts =
     (if trim_space dir = [] then (no_inventory, Some ''inventory: empty root'')
      else case path_abs cwd dir of
        None \<Rightarrow> (no_inventory, Some ''inventory: resolving'')
      | Some absRoot \<Rightarrow>
          (case fs absRoot of
             None \<Rightarrow> (no_inventory, Some ''no such file or directory'')
           | Some t \<Rightarrow>
               (case resolve t of
                  None \<Rightarrow> (no_inventory, Some ''no such file or directory'')
                | Some info \<Rightarrow>
                    if \<not> is_dir info then (no_inventory, Some ''is not a directory'')
                    else
                      (let r = fst (file_walk (inv_cb absRoot opts) no_inventory t)
                       in (r\<lparr>IR_Files := sort_key IF_RelPath (IR_Files r)\<rparr>, None)))))"

section \<open>The generation\<close>

definition tag_chr :: "string \<Rightarrow> char" where
  "tag_chr r = (case r of [c] \<Rightarrow> if is_alnum c \<or> c = CHR ''-'' \<or> c = CHR ''_'' then c else CHR ''-'' | _ \<Rightarrow> CHR ''-'')"

text \<open>The loop stops after the rune with which 24 bytes are written; each writes one.\<close>

definition sanitiseScanTag :: "string \<Rightarrow> string" where
  "sanitiseScanTag s =
     (let out = trim_by (\<lambda>c. c = CHR ''-'') (map tag_chr (take 24 (runes s)))
      in if out = [] then ''root'' else out)"

text \<open>\<open>stamp\<close> is the start of the walk in the format \<^verbatim>\<open>20060102T150405Z\<close>.\<close>

definition NewScanID :: "string \<Rightarrow> string \<Rightarrow> string" where
  "NewScanID dir stamp =
     (let base = path_base (trim_right_by (\<lambda>c. c = slash) dir);
          base' = (if base = [] \<or> base = ''.'' \<or> base = ''/'' then ''root'' else base)
      in stamp @ ''-'' @ sanitiseScanTag base')"

function batches_from :: "nat \<Rightarrow> 'a list \<Rightarrow> 'a list list" where
  "batches_from n [] = []"
| "batches_from n (x # xs) = take (max 1 n) (x # xs) # batches_from n (drop (max 1 n) (x # xs))"
  by pat_completeness auto

termination
  by (relation "measure (\<lambda>(n, xs). length xs)") auto

definition BatchInventory :: "InventoryFile list \<Rightarrow> int \<Rightarrow> InventoryFile list list" where
  "BatchInventory files n = batches_from (nat n) files"

definition InventoryBatchMax :: nat where
  "InventoryBatchMax = 2000"

record inventory_post =
  P_ScanID :: string
  P_Final :: bool
  P_Files :: "InventoryFile list"

text \<open>\<^verbatim>\<open>OfferInventory\<close>: what is refused before the request is made. The entries of the request are
  the rows field by field.\<close>

definition refuses_post :: "inventory_post \<Rightarrow> bool" where
  "refuses_post q \<longleftrightarrow> P_ScanID q = [] \<or> length (P_Files q) > InventoryBatchMax"

text \<open>The surroundings of one report: the configuration, the file system, the clock as text, whether
  the context is cancelled before the \<open>i\<close>-th batch of a root and whether the site accepts it.\<close>

record 'f report_env =
  RE_cfg :: "'f config"
  RE_fs :: "string \<Rightarrow> fnode option"
  RE_cwd :: "string option"
  RE_stamp :: "string \<Rightarrow> string"
  RE_cancelled :: "string \<Rightarrow> nat \<Rightarrow> bool"
  RE_accepts :: "string \<Rightarrow> nat \<Rightarrow> bool"

fun ship :: "'f report_env \<Rightarrow> string \<Rightarrow> string \<Rightarrow> bool \<Rightarrow> nat \<Rightarrow> InventoryFile list list \<Rightarrow> inventory_post list \<times> string option" where
  "ship e dir scanID truncated i [] = ([], None)"
| "ship e dir scanID truncated i (b # bs) =
     (if RE_cancelled e dir i then ([], Some ''context canceled'')
      else
        (let q = \<lparr>P_ScanID = scanID, P_Final = (bs = [] \<and> \<not> truncated), P_Files = b\<rparr>
         in if refuses_post q then ([], Some ''offer inventory'')
            else if \<not> RE_accepts e dir i then ([q], Some ''offer inventory: HTTP'')
            else (case ship e dir scanID truncated (Suc i) bs of (qs, err) \<Rightarrow> (q # qs, err))))"

definition inventory_options :: "'f config \<Rightarrow> InventoryOptions" where
  "inventory_options cfg = \<lparr>MinSizeBytes = i64 (i64 (InventoryMinMB cfg * 1024) * 1024),
     ExcludeExts = DefaultInventoryExcludes, MaxFiles = InventoryMaxFiles cfg\<rparr>"

definition reportRoot :: "'f report_env \<Rightarrow> string \<Rightarrow> inventory_post list \<times> string option" where
  "reportRoot e dir =
     (case ScanInventory (RE_fs e) (RE_cwd e) dir (inventory_options (RE_cfg e)) of
        (res, Some err) \<Rightarrow> ([], Some err)
      | (res, None) \<Rightarrow>
          if IR_Files res = [] then ([], None)
          else ship e dir (NewScanID dir (RE_stamp e dir)) (IR_Truncated res) 0
                 (BatchInventory (IR_Files res) (int InventoryBatchMax)))"

text \<open>\<open>stop k\<close> is whether the context is cancelled before the \<open>k\<close>-th root.\<close>

fun report_roots :: "'f report_env \<Rightarrow> (nat \<Rightarrow> bool) \<Rightarrow> nat \<Rightarrow> string list \<Rightarrow> inventory_post list" where
  "report_roots e stop k [] = []"
| "report_roots e stop k (d # ds) = (if stop k then [] else fst (reportRoot e d) @ report_roots e stop (Suc k) ds)"

definition add_service_root :: "string list \<Rightarrow> offer_source \<Rightarrow> string list" where
  "add_service_root roots src =
     (if OType src = ''folder'' \<and> trim_space (ORoot src) \<noteq> [] \<and> ORoot src \<notin> set roots
      then roots @ [ORoot src] else roots)"

definition NewInventoryService :: "'f config \<Rightarrow> offer_file option \<Rightarrow> string list option" where
  "NewInventoryService cfg declared =
     (if \<not> InventoryEnabled cfg then None
      else
        (let roots = splitRoots (InventoryRoots cfg)
         in Some (if roots = [] then (case declared of None \<Rightarrow> [] | Some f \<Rightarrow> foldl add_service_root [] (OSources f))
                  else roots)))"

section \<open>The prober\<close>

definition NewInventoryProbeService :: "'f config \<Rightarrow> offer_file option \<Rightarrow> string list option" where
  "NewInventoryProbeService cfg declared =
     (if \<not> InventoryEnabled cfg \<or> \<not> InventoryProbeEnabled cfg then None else NewInventoryService cfg declared)"

definition InventoryMediaBatchMax :: int where
  "InventoryMediaBatchMax = 200"

definition probe_batch :: "'f config \<Rightarrow> int" where
  "probe_batch cfg =
     (if InventoryProbeBatch cfg \<le> 0 \<or> InventoryProbeBatch cfg > InventoryMediaBatchMax then 25
      else InventoryProbeBatch cfg)"

definition pending_limit :: "int \<Rightarrow> int" where
  "pending_limit limit = (if limit \<le> 0 \<or> limit > InventoryMediaBatchMax then InventoryMediaBatchMax else limit)"

text \<open>A media description is abstract: what \<^verbatim>\<open>toInventoryMedia\<close> keeps of a probe. \<open>PE_probe i\<close> is the
  answer of \<^verbatim>\<open>ProbeVideo\<close> for the \<open>i\<close>-th file, none for an error, and \<open>PE_cancelled i\<close> whether the context
  is cancelled when the \<open>i\<close>-th file is begun.\<close>

record 'm probe_env =
  PE_regular :: "string \<Rightarrow> bool"
  PE_probe :: "nat \<Rightarrow> string \<Rightarrow> 'm option"
  PE_cancelled :: "nat \<Rightarrow> bool"

fun probe_resolve :: "(string \<Rightarrow> bool) \<Rightarrow> string list \<Rightarrow> string \<Rightarrow> string option" where
  "probe_resolve regular [] rel = None"
| "probe_resolve regular (d # ds) rel =
     (let full = path_join d rel in if regular full then Some full else probe_resolve regular ds rel)"

fun probe_all :: "'m probe_env \<Rightarrow> string list \<Rightarrow> nat \<Rightarrow> string list \<Rightarrow> (string \<times> 'm option) list" where
  "probe_all e roots i [] = []"
| "probe_all e roots i (f # fs) =
     (if PE_cancelled e i then []
      else (f, case probe_resolve (PE_regular e) roots f of None \<Rightarrow> None | Some full \<Rightarrow> PE_probe e i full)
           # probe_all e roots (Suc i) fs)"

definition InventoryReportMedia :: "(string \<times> 'm option) list \<Rightarrow> (string \<times> 'm option) list option" where
  "InventoryReportMedia entries =
     (if entries = [] then None else if int (length entries) > InventoryMediaBatchMax then None else Some entries)"

text \<open>One pass: what is posted, if anything. \<open>site limit\<close> is the answer of the site to the request for
  pending files.\<close>

definition probe_once :: "'m probe_env \<Rightarrow> 'f config \<Rightarrow> string list \<Rightarrow> (int \<Rightarrow> string list option) \<Rightarrow> (string \<times> 'm option) list option" where
  "probe_once e cfg roots site =
     (case site (pending_limit (probe_batch cfg)) of
        None \<Rightarrow> None
      | Some pending_files \<Rightarrow>
          if pending_files = [] then None else InventoryReportMedia (probe_all e roots 0 pending_files))"

section \<open>What a walk finds\<close>


definition eligible :: "string \<Rightarrow> InventoryOptions \<Rightarrow> fpath \<times> fnode \<Rightarrow> bool" where
  "eligible absRoot opts v = (case snd v of FFile b \<Rightarrow> inv_wanted absRoot opts (fst v) (int (length b)) | _ \<Rightarrow> False)"


definition inv_found :: "string \<Rightarrow> fpath \<times> fnode \<Rightarrow> InventoryFile" where
  "inv_found absRoot v = inv_row absRoot (fst v) (int (lsize (snd v)))"

fun is_reg :: "fnode \<Rightarrow> bool" where
  "is_reg (FFile b) = True"
| "is_reg _ = False"

definition room :: "InventoryOptions \<Rightarrow> nat \<Rightarrow> bool" where
  "room opts n \<longleftrightarrow> \<not> (MaxFiles opts > 0 \<and> int n \<ge> MaxFiles opts)"

text \<open>The walk up to its end, or up to the first regular file after the limit is reached.\<close>

lemma inv_walk_seq:
  assumes "walk_seq (inv_cb absRoot opts) r vs = (r', w)" and "\<not> IR_Truncated r"
  shows "\<exists>us ws. vs = us @ ws \<and> IR_Files r' = IR_Files r @ map (inv_found absRoot) (filter (eligible absRoot opts) us)
      \<and> (IR_Truncated r' \<longleftrightarrow> ws \<noteq> [])
      \<and> (ws \<noteq> [] \<longrightarrow> is_reg (snd (hd ws)) \<and> \<not> room opts (length (IR_Files r')))
      \<and> IR_Skipped r' = IR_Skipped r + length (filter (\<lambda>v. snd v = FUnreadable) us)"
  using assms
proof (induction vs arbitrary: r)
  case Nil
  then show ?case by simp
next
  case (Cons v vs)
  obtain p n where v: "v = (p, n)" by fastforce
  obtain r1 w1 where f: "inv_cb absRoot opts r p n = (r1, w1)" by fastforce
  show ?case
  proof (cases "w1 = WNil \<or> w1 = WSkipDir")
    case True
    then have rest: "walk_seq (inv_cb absRoot opts) r1 vs = (r', w)" using Cons.prems(1) f v by simp
    have r1: "\<not> IR_Truncated r1" "IR_Files r1 = IR_Files r @ map (inv_found absRoot) (filter (eligible absRoot opts) [v])"
      "IR_Skipped r1 = IR_Skipped r + length (filter (\<lambda>v. snd v = FUnreadable) [v])"
      using f True Cons.prems(2) v
      by (cases n; auto simp: inv_cb_def eligible_def inv_found_def split: if_splits)+
    from Cons.IH [OF rest r1(1)] obtain us ws where "vs = us @ ws"
      "IR_Files r' = IR_Files r1 @ map (inv_found absRoot) (filter (eligible absRoot opts) us)"
      "IR_Truncated r' \<longleftrightarrow> ws \<noteq> []"
      "ws \<noteq> [] \<longrightarrow> is_reg (snd (hd ws)) \<and> \<not> room opts (length (IR_Files r'))"
      "IR_Skipped r' = IR_Skipped r1 + length (filter (\<lambda>v. snd v = FUnreadable) us)" by blast
    then show ?thesis using r1(2,3) by (intro exI [of _ "v # us"] exI [of _ ws]) auto
  next
    case False
    then have "r' = r1" using Cons.prems(1) f v by simp
    moreover have "is_reg n \<and> \<not> room opts (length (IR_Files r)) \<and> r1 = r\<lparr>IR_Truncated := True\<rparr>"
      using f False by (cases n) (auto simp: inv_cb_def room_def MaxReached_def split: if_splits)
    ultimately show ?thesis using v by (intro exI [of _ "[]"] exI [of _ "v # vs"]) simp
  qed
qed

text \<open>When the limit is never reached the walk sees every entry.\<close>

lemma inv_walk_room:
  assumes "walk_seq (inv_cb absRoot opts) no_inventory vs = (r', w)"
    and "room opts (length (filter (eligible absRoot opts) vs))"
  shows "\<not> IR_Truncated r'"
proof
  assume t: "IR_Truncated r'"
  from inv_walk_seq [OF assms(1)] obtain us ws where "vs = us @ ws"
    "IR_Files r' = map (inv_found absRoot) (filter (eligible absRoot opts) us)"
    "\<not> room opts (length (IR_Files r'))"
    using t by (auto simp: no_inventory_def)
  then show False using assms(2) by (auto simp: room_def)
qed



definition inventory_of :: "string \<Rightarrow> InventoryOptions \<Rightarrow> fnode \<Rightarrow> InventoryFile list" where
  "inventory_of absRoot opts t =
     sort_key IF_RelPath (map (inv_found absRoot) (filter (eligible absRoot opts) (visits inv_skip [] t)))"


section \<open>Batches and posts\<close>

lemma concat_batches: "concat (batches_from n xs) = xs"
  by (induction n xs rule: batches_from.induct) (simp_all del: append_take_drop_id add: append_take_drop_id)

lemma batch_sizes: "b \<in> set (batches_from n xs) \<Longrightarrow> b \<noteq> [] \<and> length b \<le> max 1 n"
  by (induction n xs rule: batches_from.induct) (auto simp: max_def split: if_splits)

text \<open>The posts of one walk: all carry its identifier, each holds its batch, and only a post whose
  successors are none is final.\<close>

lemma ship_posts:
  "ship e dir sid tr i bs = (qs, err) \<Longrightarrow>
     \<exists>k. map P_Files qs = take k bs \<and> (\<forall>q \<in> set qs. P_ScanID q = sid)
       \<and> (\<forall>j < length qs. P_Final (qs ! j) \<longleftrightarrow> Suc j = length bs \<and> \<not> tr)"
proof (induction e dir sid tr i bs arbitrary: qs err rule: ship.induct)
  case (1 e dir sid tr i)
  then show ?case by simp
next
  case (2 e dir sid tr i b bs)
  let ?q = "\<lparr>P_ScanID = sid, P_Final = (bs = [] \<and> \<not> tr), P_Files = b\<rparr>"
  show ?case
  proof (cases "RE_cancelled e dir i \<or> refuses_post ?q")
    case True
    then have "qs = []" using "2.prems" by (auto simp: Let_def split: if_splits)
    then show ?thesis by (intro exI [of _ 0]) simp
  next
    case False
    show ?thesis
    proof (cases "RE_accepts e dir i")
      case True
      obtain qs' err' where rest: "ship e dir sid tr (Suc i) bs = (qs', err')" by fastforce
      have qs: "qs = ?q # qs'" using "2.prems" False True rest by (simp add: Let_def)
      from "2.IH" [OF _ refl _ _ rest] False True obtain k where k: "map P_Files qs' = take k bs"
        "\<forall>q \<in> set qs'. P_ScanID q = sid"
        "\<forall>j < length qs'. P_Final (qs' ! j) \<longleftrightarrow> Suc j = length bs \<and> \<not> tr" by auto
      then show ?thesis unfolding qs
        by (intro exI [of _ "Suc k"]) (auto simp: nth_Cons' less_Suc_eq_0_disj split: if_splits)
    next
      case notacc: False
      then have "qs = [?q]" using "2.prems" False by (simp add: Let_def)
      then show ?thesis by (intro exI [of _ 1]) auto
    qed
  qed
qed


lemma scan_id_ne [simp]: "NewScanID dir stamp \<noteq> []"
  by (simp add: NewScanID_def Let_def)

lemma ship_all:
  assumes "\<And>i. \<not> RE_cancelled e dir i" and "\<And>i. RE_accepts e dir i"
    and "sid \<noteq> []" and "\<forall>b \<in> set bs. length b \<le> InventoryBatchMax" and "bs \<noteq> []"
  shows "snd (ship e dir sid tr i bs) = None \<and> map P_Files (fst (ship e dir sid tr i bs)) = bs
     \<and> P_Final (last (fst (ship e dir sid tr i bs))) = (\<not> tr)"
  using assms(4,5)
proof (induction bs arbitrary: i)
  case (Cons b bs)
  show ?case
  proof (cases "bs = []")
    case True
    then show ?thesis using Cons.prems assms(1-3) by (simp add: refuses_post_def)
  next
    case False
    obtain qs err where rest: "ship e dir sid tr (Suc i) bs = (qs, err)" by fastforce
    have "qs \<noteq> []" using Cons.IH [of "Suc i"] Cons.prems False rest by auto
    then show ?thesis using Cons.IH [of "Suc i"] Cons.prems False rest assms(1-3)
      by (simp add: refuses_post_def)
  qed
qed simp

section \<open>Properties\<close>


text \<open>
  What the agent sees of a tree on the disk when the directories \<open>bad\<close> cannot be listed: such a
  directory is there, its entries are not.
\<close>

fun blind :: "(fpath \<Rightarrow> bool) \<Rightarrow> fpath \<Rightarrow> fnode \<Rightarrow> fnode" where
  "blind bad p (FDir xs) = (if bad p then FUnreadable else FDir (map (\<lambda>(a, n). (a, blind bad (p @ [a]) n)) xs))"
| "blind bad p n = n"


lemma blind_dir: "is_dir (blind bad p n) = is_dir n"
  by (cases n) auto




text \<open>
  When every post is accepted, a walk that was not cut off reports all its files and closes
  its generation.
\<close>

theorem generation_closes:
  assumes "\<And>i. \<not> RE_cancelled e dir i" and "\<And>i. RE_accepts e dir i"
    and "ScanInventory (RE_fs e) (RE_cwd e) dir (inventory_options (RE_cfg e)) = (res, None)"
    and "IR_Files res \<noteq> []" and "\<not> IR_Truncated res"
  shows "snd (reportRoot e dir) = None \<and> P_Final (last (fst (reportRoot e dir)))
     \<and> concat (map P_Files (fst (reportRoot e dir))) = IR_Files res"
proof -
  let ?bs = "BatchInventory (IR_Files res) (int InventoryBatchMax)"
  have bs: "\<forall>b \<in> set ?bs. length b \<le> InventoryBatchMax" "concat ?bs = IR_Files res"
    using batch_sizes [of _ InventoryBatchMax "IR_Files res"]
    by (auto simp: BatchInventory_def concat_batches InventoryBatchMax_def max_def)
  have "?bs \<noteq> []" using bs(2) assms(4) by auto
  from ship_all [OF assms(1,2) scan_id_ne bs(1) this] bs(2) show ?thesis
    using assms(3-5) by (simp add: reportRoot_def)
qed

theorem inventory_truncated_never_closes:
  assumes "reportRoot e dir = (qs, err)" and "q \<in> set qs"
    and "ScanInventory (RE_fs e) (RE_cwd e) dir (inventory_options (RE_cfg e)) = (res, None)" and "IR_Truncated res"
  shows "\<not> P_Final q"
proof -
  have sh: "ship e dir (NewScanID dir (RE_stamp e dir)) True 0 (BatchInventory (IR_Files res) (int InventoryBatchMax)) = (qs, err)"
    using assms(1,2) unfolding reportRoot_def assms(3) prod.case option.case
    by (cases "IR_Files res = []") (simp_all add: assms(4))
  from ship_posts [OF sh] have "\<forall>j < length qs. \<not> P_Final (qs ! j)" by blast
  then show ?thesis using assms(2) by (metis in_set_conv_nth)
qed

section \<open>The prober\<close>

lemma probe_all_takes:
  "\<exists>k \<le> length fs. map fst (probe_all e roots i fs) = take k fs \<and> (k < length fs \<longrightarrow> PE_cancelled e (i + k))"
proof (induction e roots i fs rule: probe_all.induct)
  case (2 e roots i f fs)
  show ?case
  proof (cases "PE_cancelled e i")
    case True
    then show ?thesis by (intro exI [of _ 0]) simp
  next
    case False
    with 2 obtain k where "k \<le> length fs" "map fst (probe_all e roots (Suc i) fs) = take k fs"
      "k < length fs \<longrightarrow> PE_cancelled e (Suc i + k)" by auto
    then show ?thesis using False by (intro exI [of _ "Suc k"]) auto
  qed
qed simp

lemma probe_resolve_some:
  "probe_resolve regular roots rel = Some full \<Longrightarrow> regular full \<and> (\<exists>d \<in> set roots. full = path_join d rel)"
  by (induction regular roots rel rule: probe_resolve.induct) (auto simp: Let_def split: if_splits)

lemma probe_all_media:
  "(f, Some m) \<in> set (probe_all e roots i fs) \<Longrightarrow>
     \<exists>j d. i \<le> j \<and> d \<in> set roots \<and> PE_regular e (path_join d f) \<and> PE_probe e j (path_join d f) = Some m"
proof (induction e roots i fs rule: probe_all.induct)
  case (2 e roots i g fs)
  then have "\<not> PE_cancelled e i" by auto
  with 2(2) consider "f = g" "(case probe_resolve (PE_regular e) roots g of None \<Rightarrow> None | Some full \<Rightarrow> PE_probe e i full) = Some m"
    | "(f, Some m) \<in> set (probe_all e roots (Suc i) fs)" by auto
  then show ?case
  proof cases
    case 1
    then show ?thesis using probe_resolve_some [of "PE_regular e" roots g] by (auto split: option.splits)
  next
    case 2
    with "2.IH" [OF \<open>\<not> PE_cancelled e i\<close>] show ?thesis by (metis Suc_leD)
  qed
qed simp

theorem probe_reports:
  assumes "probe_once e cfg roots site = Some entries"
  shows "entries \<noteq> [] \<and> length entries \<le> 200
     \<and> (\<exists>fs k. site (pending_limit (probe_batch cfg)) = Some fs \<and> map fst entries = take k fs
          \<and> (k < length fs \<longrightarrow> PE_cancelled e k))
     \<and> (\<forall>f m. (f, Some m) \<in> set entries \<longrightarrow>
          (\<exists>j d. d \<in> set roots \<and> PE_regular e (path_join d f) \<and> PE_probe e j (path_join d f) = Some m))"
proof -
  from assms obtain fs where fs: "site (pending_limit (probe_batch cfg)) = Some fs" "entries = probe_all e roots 0 fs"
    "entries \<noteq> []" "int (length entries) \<le> 200"
    by (auto simp: probe_once_def InventoryReportMedia_def InventoryMediaBatchMax_def split: option.splits if_splits)
  moreover obtain k where "map fst entries = take k fs" "k < length fs \<longrightarrow> PE_cancelled e k"
    using probe_all_takes [of fs e roots 0] fs(2) by auto
  moreover have "\<exists>j d. d \<in> set roots \<and> PE_regular e (path_join d f) \<and> PE_probe e j (path_join d f) = Some m"
    if "(f, Some m) \<in> set entries" for f m
    using probe_all_media [of f m e roots 0 fs] that fs(2) by blast
  ultimately show ?thesis by auto
qed

section \<open>Examples\<close>

definition demo_config :: "int \<Rightarrow> nat config" where
  "demo_config maxFiles =
     newConfigFromLayered (\<lambda>s. None) (0, 0, 0)
       (\<lambda>k. if k = ''INVENTORY_MIN_MB'' then Some ''0'' else if k = ''INVENTORY_MAX_FILES'' then Some (itoa maxFiles) else None)
       \<lparr>yml = [], env = [], web = [], writable = False\<rparr>"

definition demo_report :: "int \<Rightarrow> fnode \<Rightarrow> nat report_env" where
  "demo_report maxFiles t =
     \<lparr>RE_cfg = demo_config maxFiles, RE_fs = (\<lambda>p. if p = ''/m'' then Some t else None), RE_cwd = None,
      RE_stamp = (\<lambda>d. ''20260815T100000Z''), RE_cancelled = (\<lambda>d i. False), RE_accepts = (\<lambda>d i. True)\<rparr>"

definition demo_disk :: fnode where
  "demo_disk = FDir [(''.git'', FDir [(''b.mkv'', FFile [1])]), (''S'', FDir [(''a.mkv'', FFile [1, 2])]), (''z.nfo'', FFile [1])]"

text \<open>A tree with a directory that will not be readable.\<close>

definition partly_readable :: fnode where
  "partly_readable = FDir [(''S'', FDir [(''a.mkv'', FFile [1, 2])]), (''T'', FDir [(''c.mkv'', FFile [1])])]"

definition a_row :: InventoryFile where
  "a_row = \<lparr>IF_RelPath = ''S/a.mkv'', IF_SizeBytes = 2, IF_RawTitle = ''a'', IF_Season = 0, IF_Episode = 0,
     IF_Resolution = [], IF_SourceTag = []\<rparr>"

definition a_post :: "bool \<Rightarrow> inventory_post" where
  "a_post final = \<lparr>P_ScanID = ''20260815T100000Z-m'', P_Final = final, P_Files = [a_row]\<rparr>"

lemma demo_options:
  "inventory_options (demo_config 0) = \<lparr>MinSizeBytes = 0, ExcludeExts = DefaultInventoryExcludes, MaxFiles = 0\<rparr>"
  "inventory_options (demo_config 1) = \<lparr>MinSizeBytes = 0, ExcludeExts = DefaultInventoryExcludes, MaxFiles = 1\<rparr>"
  by code_simp+

lemma demo_scan:
  "ScanInventory (RE_fs (demo_report 0 demo_disk)) None ''/m'' (inventory_options (demo_config 0)) = (\<lparr>IR_Files = [a_row], IR_Truncated = False, IR_Skipped = 0\<rparr>, None)"
  by code_simp

lemma demo_report_posts:
  "reportRoot (demo_report 0 demo_disk) ''/m'' = ([a_post True], None)"
  by code_simp


theorem generation_closes_witness:
  "P_Final (last (fst (reportRoot (demo_report 0 demo_disk) ''/m'')))"
proof -
  have s: "ScanInventory (RE_fs (demo_report 0 demo_disk)) (RE_cwd (demo_report 0 demo_disk)) ''/m''
      (inventory_options (RE_cfg (demo_report 0 demo_disk))) = (\<lparr>IR_Files = [a_row], IR_Truncated = False, IR_Skipped = 0\<rparr>, None)"
    using demo_scan by (simp add: demo_report_def)
  have "\<not> RE_cancelled (demo_report 0 demo_disk) ''/m'' i" "RE_accepts (demo_report 0 demo_disk) ''/m'' i" for i
    by (simp_all add: demo_report_def)
  from generation_closes [OF this s] show ?thesis by simp
qed

text \<open>The limit is looked at before the filters: a sidecar after the last reported file makes the walk
  count as truncated, although every file that matters was reported, and the generation stays open.\<close>

lemma demo_truncated:
  "ScanInventory (RE_fs (demo_report 1 demo_disk)) (RE_cwd (demo_report 1 demo_disk)) ''/m''
     (inventory_options (RE_cfg (demo_report 1 demo_disk))) = (\<lparr>IR_Files = [a_row], IR_Truncated = True, IR_Skipped = 0\<rparr>, None)"
  "reportRoot (demo_report 1 demo_disk) ''/m'' = ([a_post False], None)"
  by code_simp+

theorem inventory_truncated_never_closes_witness: "\<not> P_Final (a_post False)"
  using inventory_truncated_never_closes [OF demo_truncated(2) _ demo_truncated(1), of "a_post False"] by simp

theorem sidecar_counts_as_truncation:
  "inventory_of ''/m'' (inventory_options (demo_config 1)) demo_disk = [a_row]
   \<and> reportRoot (demo_report 1 demo_disk) ''/m'' = ([a_post False], None)"
  by code_simp

text \<open>A directory that cannot be listed is counted but does not keep the generation open: the post is
  final although an eligible file below that directory was never reached.\<close>

theorem unreadable_directory_still_closes:
  "reportRoot (demo_report 0 (blind (\<lambda>p. p = [''T'']) [] partly_readable)) ''/m'' = ([a_post True], None)
   \<and> file_at partly_readable [''T'', ''c.mkv''] = Some (FFile [1])"
  by code_simp

text \<open>A root that is a symbolic link to a directory passes the check of the root, but the walk does not
  follow it and finds nothing.\<close>

theorem linked_root_reports_nothing:
  "ScanInventory (\<lambda>p. if p = ''/m'' then Some (FLink 2 (Some demo_disk)) else None) None ''/m'' (inventory_options (demo_config 0))
     = (no_inventory, None)"
  by code_simp

text \<open>Two roots with the same last element get the same identifier in the same second.\<close>

theorem scan_ids_collide:
  "NewScanID ''/disk1/anime'' ''20260815T100000Z'' = NewScanID ''/disk2/anime/'' ''20260815T100000Z''"
  by code_simp

definition demo_probe :: "string probe_env" where
  "demo_probe = \<lparr>PE_regular = (\<lambda>p. p = ''/b/S/a.mkv''), PE_probe = (\<lambda>i p. Some ''hevc''), PE_cancelled = (\<lambda>i. i \<ge> 2)\<rparr>"

lemma demo_probe_once:
  "probe_once demo_probe (demo_config 0) [''/a'', ''/b''] (\<lambda>l. Some [''S/a.mkv'', ''gone.mkv'', ''late.mkv''])
     = Some [(''S/a.mkv'', Some ''hevc''), (''gone.mkv'', None)]"
  by code_simp

theorem probe_reports_witness:
  "\<exists>fs k. Some [''S/a.mkv'', ''gone.mkv'', ''late.mkv''] = Some fs
     \<and> map fst [(''S/a.mkv'', Some ''hevc''), (''gone.mkv'', None)] = take k fs"
  using probe_reports [OF demo_probe_once] by blast

end
