(* ===== verification/OfferSync.thy ===== *)
theory OfferSync
  imports Inventory
begin

text \<open>
  The offer synchronisation (\<^verbatim>\<open>services/offer_sync.go\<close>) and the Torznab scraper
  (\<^verbatim>\<open>services/offer_scraper_torznab.go\<close>, \<^verbatim>\<open>offer_scraper.go\<close>, \<^verbatim>\<open>offer_scraper_nyaa.go\<close>): the walk of a
  paged feed with its cursor, the pairing of scraped releases with local files, the batches of
  resolved titles and registered offers, and the routes cached on the way. The site's answers, the
  fetching and decoding of a feed page, and floating-point sizes are parameters.
\<close>

section \<open>Sources and releases\<close>

record sync_source = offer_source +
  SExtensions :: "string list"
  SSizeMinMB :: int
  SBaseURL :: string
  SUsername :: string
  SScraper :: string
  STorznabURL :: string
  SAPIKey :: string
  SCategoryIDs :: "int list"
  SPageDelay :: int
  SMaxPages :: int
  SDownloadsRoot :: string
  SDeliveryModes :: "string list"

record ScrapedRelease =
  RawTitle :: string
  RelSize :: int
  RelInfoHash :: string
  RelTorrentURL :: string

section \<open>Torznab\<close>

record torznab_item =
  TI_Title :: string
  TI_Link :: string
  TI_Size :: string
  TI_EncURL :: string
  TI_EncLength :: string
  TI_Attrs :: "(string \<times> string) list"

record torznab =
  TZ_short :: string
  TZ_feed :: string
  TZ_key :: string
  TZ_cats :: "int list"
  TZ_delay :: int
  TZ_pages :: int
  TZ_start :: int

text \<open>Delays in nanoseconds, as \<^verbatim>\<open>time.Duration\<close>.\<close>

definition torznabMinPageDelay :: int where
  "torznabMinPageDelay = 5000000000"

definition torznabDefaultPageDelay :: int where
  "torznabDefaultPageDelay = 20000000000"

definition newTorznabScraper :: "sync_source \<Rightarrow> int \<Rightarrow> int \<Rightarrow> torznab option" where
  "newTorznabScraper src runMaxPages start =
     (let feed = trim_right_by (\<lambda>c. c \<in> set ''/?&'') (trim_space (STorznabURL src));
          secs = i64 (SPageDelay src * 1000000000);
          delay = (if SPageDelay src > 0 then max secs torznabMinPageDelay else torznabDefaultPageDelay);
          wanted = (if SMaxPages src \<le> 0 then 10 else SMaxPages src);
          pages = (if runMaxPages > 0 \<and> wanted > runMaxPages then runMaxPages else wanted)
      in if feed = [] then None
         else Some \<lparr>TZ_short = OShortName src, TZ_feed = feed, TZ_key = trim_space (SAPIKey src), TZ_cats = SCategoryIDs src,
           TZ_delay = delay, TZ_pages = pages, TZ_start = start\<rparr>)"

fun item_attr :: "(string \<times> string) list \<Rightarrow> string \<Rightarrow> string" where
  "item_attr [] name = []"
| "item_attr ((n, v) # as) name = (if to_lower n = to_lower name then v else item_attr as name)"

fun first_size :: "string list \<Rightarrow> int" where
  "first_size [] = 0"
| "first_size (raw # rs) =
     (if raw = [] then first_size rs
      else case go_atoi (trim_space raw) of
             Some n \<Rightarrow> if n > 0 then n else first_size rs
           | None \<Rightarrow> first_size rs)"

definition sizeBytes :: "torznab_item \<Rightarrow> int" where
  "sizeBytes it = first_size [item_attr (TI_Attrs it) ''size'', TI_Size it, TI_EncLength it]"

definition pageURL :: "torznab \<Rightarrow> int \<Rightarrow> string" where
  "pageURL t offset =
     TZ_feed t @ ''?t=search&extended=1'' @ ''&limit='' @ itoa 100 @ ''&offset='' @ itoa offset
     @ (if TZ_key t \<noteq> [] then ''&apikey='' @ TZ_key t else [])
     @ (if TZ_cats t \<noteq> [] then ''&cat='' @ join '','' (map itoa (TZ_cats t)) else [])"

definition item_release :: "torznab_item \<Rightarrow> ScrapedRelease option" where
  "item_release it =
     (let title = trim_space (TI_Title it); link = trim_space (TI_Link it)
      in if title = [] then None
         else Some \<lparr>RawTitle = title, RelSize = sizeBytes it,
           RelInfoHash = to_lower (trim_space (item_attr (TI_Attrs it) ''infohash'')),
           RelTorrentURL = (if link = [] then trim_space (TI_EncURL it) else link)\<rparr>)"

definition page_releases :: "torznab_item list \<Rightarrow> ScrapedRelease list" where
  "page_releases its = List.map_filter item_release its"

text \<open>The loop over the pages with the number still allowed; the result is the releases, none for an
  error, and the offset that \<^verbatim>\<open>NextOffset\<close> reports. \<open>fetch url\<close> is the decoded page.\<close>

fun scan_pages :: "(string \<Rightarrow> torznab_item list option) \<Rightarrow> torznab \<Rightarrow> nat \<Rightarrow> int \<Rightarrow> ScrapedRelease list \<Rightarrow> ScrapedRelease list option \<times> int" where
  "scan_pages fetch t 0 offset out = (Some out, offset)"
| "scan_pages fetch t (Suc n) offset out =
     (case fetch (pageURL t offset) of
        None \<Rightarrow> if out = [] then (None, TZ_start t) else (Some out, offset)
      | Some items \<Rightarrow>
          if items = [] then (Some out, 0)
          else scan_pages fetch t n (offset + int (length items)) (out @ page_releases items))"

definition Scan :: "(string \<Rightarrow> torznab_item list option) \<Rightarrow> torznab \<Rightarrow> ScrapedRelease list option \<times> int" where
  "Scan fetch t = scan_pages fetch t (nat (TZ_pages t)) (TZ_start t) []"

section \<open>Nyaa\<close>

record rss_item =
  RI_Title :: string
  RI_Link :: string
  RI_Size :: string
  RI_InfoHash :: string

text \<open>\<open>parseSize\<close> stands for \<^verbatim>\<open>parseNyaaSize\<close>, which computes in floating point; \<open>feed\<close> is the decoded
  document for a base address and user.\<close>

definition nyaa_base :: "sync_source \<Rightarrow> string" where
  "nyaa_base src = (let b = trim_right_by (\<lambda>c. c = slash) (SBaseURL src) in if b = [] then ''https://nyaa.si'' else b)"

definition nyaa_release :: "(string \<Rightarrow> int) \<Rightarrow> string \<Rightarrow> rss_item \<Rightarrow> ScrapedRelease" where
  "nyaa_release parseSize base it =
     \<lparr>RawTitle = trim_space (RI_Title it), RelSize = parseSize (RI_Size it),
      RelInfoHash = to_lower (trim_space (RI_InfoHash it)),
      RelTorrentURL = (if has_prefix (RI_Link it) ''http'' then RI_Link it else base @ RI_Link it)\<rparr>"

definition nyaa_scan :: "(string \<Rightarrow> int) \<Rightarrow> (string \<Rightarrow> string \<Rightarrow> rss_item list option) \<Rightarrow> sync_source \<Rightarrow> ScrapedRelease list option" where
  "nyaa_scan parseSize feed src =
     map_option (map (nyaa_release parseSize (nyaa_base src))) (feed (nyaa_base src) (trim_space (SUsername src)))"

section \<open>The registry\<close>

text \<open>What running a scraper comes to: no implementation, a refused configuration, or a scan with the
  next offset of a resumable scraper.\<close>

datatype scrape =
    NoScraper
  | InitError
  | Scanned "int option" "ScrapedRelease list option"

record scrape_env =
  XE_fetch :: "string \<Rightarrow> torznab_item list option"
  XE_feed :: "string \<Rightarrow> string \<Rightarrow> rss_item list option"
  XE_size :: "string \<Rightarrow> int"

definition run_scraper :: "scrape_env \<Rightarrow> sync_source \<Rightarrow> int \<Rightarrow> int \<Rightarrow> scrape" where
  "run_scraper x src runMaxPages start =
     (let implKey = (if SScraper src = [] then OShortName src else SScraper src)
      in if implKey = ''torznab'' then
           (case newTorznabScraper src runMaxPages start of
              None \<Rightarrow> InitError
            | Some t \<Rightarrow> (case Scan (XE_fetch x) t of (rels, next_off) \<Rightarrow> Scanned (Some next_off) rels))
         else if implKey = ''nyaa'' then
           (if trim_space (SUsername src) = [] then InitError else Scanned None (nyaa_scan (XE_size x) (XE_feed x) src))
         else NoScraper)"

section \<open>Registering offers\<close>

record OfferEntry =
  OE_EntityType :: string
  OE_EntityID :: int
  OE_Season :: nat
  OE_Episode :: nat
  OE_Resolution :: string
  OE_SourceTag :: string
  OE_SizeBucket :: string
  OE_InfoHash :: string
  OE_DeliveryModes :: "string list"
  OE_Kind :: string

text \<open>The surroundings of a pass: the file system, the digest, the clock, which writes of the store
  succeed, and the site's answers to the \<open>i\<close>-th batch.\<close>

record sync_env =
  SE_fs :: "string \<Rightarrow> fnode option"
  SE_sha1 :: "string \<Rightarrow> string"
  SE_now :: int
  SE_saves :: "string \<Rightarrow> bool"
  SE_cursor_read :: bool
  SE_cursor_saves :: bool
  SE_resolve :: "nat \<Rightarrow> string list \<Rightarrow> (string \<times> int) list option"
  SE_registers :: "nat \<Rightarrow> bool"
  SE_scrape :: scrape_env

record sync_world =
  SW_db :: db
  SW_posted :: "(string \<times> OfferEntry list) list"

definition delivery_modes :: "sync_source \<Rightarrow> string list" where
  "delivery_modes src = (if SDeliveryModes src = [] then [''nzb''] else SDeliveryModes src)"

definition folder_row ::
  "sync_env \<Rightarrow> sync_source \<Rightarrow> db \<times> OfferEntry list \<Rightarrow> ScannedFile \<times> string \<times> int \<Rightarrow> db \<times> OfferEntry list" where
  "folder_row e src st v =
     (case (st, v) of ((d, entries), (r, et, eid)) \<Rightarrow>
        if eid = 0 then (d, entries)
        else
          (let res = to_lower (SF_Resolution r); tag = to_lower (SF_SourceTag r);
               hash = ComputeOfferHash (SE_sha1 e) et eid (SF_Season r) (SF_Episode r) res tag;
               d' = (if SE_saves e hash then UpsertOfferPath (SE_now e) hash (SF_Path r) (SF_SizeBytes r) d else d)
           in (d', entries @ [\<lparr>OE_EntityType = et, OE_EntityID = eid, OE_Season = SF_Season r, OE_Episode = SF_Episode r,
                 OE_Resolution = res, OE_SourceTag = tag, OE_SizeBucket = SizeBucket (SF_SizeBytes r), OE_InfoHash = [],
                 OE_DeliveryModes = delivery_modes src, OE_Kind = ''have''\<rparr>])))"

type_synonym local_index = "string \<Rightarrow> ScannedFile option"

definition indexDownloads :: "(string \<Rightarrow> fnode option) \<Rightarrow> sync_source \<Rightarrow> local_index" where
  "indexDownloads fs src =
     (if SDownloadsRoot src = [] then Map.empty
      else foldl (\<lambda>m r. m(normalizeTitle (SF_RawTitle r) \<mapsto> r)) Map.empty
             (ScanFolder fs (SDownloadsRoot src) (SExtensions src) (SSizeMinMB src)))"

definition scraped_row ::
  "sync_env \<Rightarrow> sync_source \<Rightarrow> local_index \<Rightarrow> db \<times> OfferEntry list \<Rightarrow> ScrapedRelease \<times> string \<times> int \<Rightarrow> db \<times> OfferEntry list" where
  "scraped_row e src idx st v =
     (case (st, v) of ((d, entries), (rel, et, eid)) \<Rightarrow>
        if eid = 0 then (d, entries)
        else
          (case parseScrapedRelease (RawTitle rel) of (rs, re, res, tag) \<Rightarrow>
            (let matched = idx (normalizeTitle (RawTitle rel));
                 localPath = (case matched of None \<Rightarrow> [] | Some m \<Rightarrow> SF_Path m);
                 sz = (case matched of None \<Rightarrow> RelSize rel | Some m \<Rightarrow> if SF_SizeBytes m > 0 then SF_SizeBytes m else RelSize rel);
                 season = (case matched of None \<Rightarrow> rs | Some m \<Rightarrow> if rs = 0 \<and> SF_Season m > 0 then SF_Season m else rs);
                 episode = (case matched of None \<Rightarrow> re | Some m \<Rightarrow> if re = 0 \<and> SF_Episode m > 0 then SF_Episode m else re);
                 hash = ComputeOfferHash (SE_sha1 e) et eid season episode res tag;
                 d' = (if (localPath \<noteq> [] \<or> RelTorrentURL rel \<noteq> []) \<and> SE_saves e hash
                       then UpsertOfferSource (SE_now e) hash localPath (RelTorrentURL rel) (OShortName src) sz d else d)
             in (d', entries @ [\<lparr>OE_EntityType = et, OE_EntityID = eid, OE_Season = season, OE_Episode = episode,
                   OE_Resolution = res, OE_SourceTag = tag, OE_SizeBucket = SizeBucket sz, OE_InfoHash = RelInfoHash rel,
                   OE_DeliveryModes = delivery_modes src,
                   OE_Kind = (if localPath \<noteq> [] then ''have'' else ''can_get'')\<rparr>]))))"

text \<open>The loop over the batches, which the two kinds of source share: resolve the titles, treat the
  rows, post the entries. The store keeps what was cached when a later step fails.\<close>

fun sync_batches ::
  "sync_env \<Rightarrow> string \<Rightarrow> ('r \<Rightarrow> string) \<Rightarrow> (db \<times> OfferEntry list \<Rightarrow> 'r \<times> string \<times> int \<Rightarrow> db \<times> OfferEntry list) \<Rightarrow>
     nat \<Rightarrow> 'r list list \<Rightarrow> sync_world \<Rightarrow> sync_world \<times> string option" where
  "sync_batches e short title row i [] w = (w, None)"
| "sync_batches e short title row i (b # bs) w =
     (case SE_resolve e i (map title b) of
        None \<Rightarrow> (w, Some ''resolve'')
      | Some resolved \<Rightarrow>
          if length resolved \<noteq> length b then (w, Some ''resolve length mismatch'')
          else
            (case foldl row (SW_db w, []) (zip b resolved) of (d, entries) \<Rightarrow>
               if entries = [] then sync_batches e short title row (Suc i) bs (w\<lparr>SW_db := d\<rparr>)
               else
                 (let w' = w\<lparr>SW_db := d, SW_posted := SW_posted w @ [(short, entries)]\<rparr>
                  in if SE_registers e i then sync_batches e short title row (Suc i) bs w'
                     else (w', Some ''register batch''))))"

definition syncFolder :: "sync_env \<Rightarrow> sync_source \<Rightarrow> sync_world \<Rightarrow> sync_world \<times> string option" where
  "syncFolder e src w =
     (if OShortName src = [] then (w, Some ''short_name required'')
      else
        (let rows = ScanFolder (SE_fs e) (ORoot src) (SExtensions src) (SSizeMinMB src)
         in if rows = [] then (w, None)
            else sync_batches e (OShortName src) SF_RawTitle (folder_row e src) 0 (batches_from 500 rows) w))"

definition syncScraper :: "sync_env \<Rightarrow> sync_source \<Rightarrow> sync_world \<Rightarrow> sync_world \<times> string option" where
  "syncScraper e src w =
     (let start = (if SE_cursor_read e then GetScrapeCursor (OShortName src) (SW_db w) else 0)
      in case run_scraper (SE_scrape e) src 50 start of
           NoScraper \<Rightarrow> (w, None)
         | InitError \<Rightarrow> (w, Some ''scraper init'')
         | Scanned next_off releases \<Rightarrow>
             (let w1 = (case next_off of
                          Some n \<Rightarrow> if SE_cursor_saves e then w\<lparr>SW_db := SetScrapeCursor (OShortName src) n (SW_db w)\<rparr> else w
                        | None \<Rightarrow> w)
              in case releases of
                   None \<Rightarrow> (w1, Some ''scraper scan'')
                 | Some rels \<Rightarrow>
                     if rels = [] then (w1, None)
                     else sync_batches e (OShortName src) RawTitle (scraped_row e src (indexDownloads (SE_fs e) src)) 0
                            (batches_from 500 rels) w1))"

definition syncOne :: "sync_env \<Rightarrow> sync_source \<Rightarrow> sync_world \<Rightarrow> sync_world \<times> string option" where
  "syncOne e src w =
     (if OType src = ''folder'' then syncFolder e src w
      else if OType src = ''scraper'' then syncScraper e src w
      else (w, Some ''unknown source type''))"

text \<open>\<open>answer\<close> is the site's answer: none for an error, an empty answer when no extension is installed.
  The result is what is written to the cookie file, if anything.\<close>

definition refreshCookieJars :: "string \<Rightarrow> 'j option option \<Rightarrow> (string \<times> 'j) option" where
  "refreshCookieJars path answer =
     (if path = [] then None
      else case answer of None \<Rightarrow> None | Some None \<Rightarrow> None | Some (Some j) \<Rightarrow> Some (path, j))"

text \<open>One tick over all sources; an error of one does not stop the next, a cancelled context does.\<close>

fun sync_sources :: "(nat \<Rightarrow> bool) \<Rightarrow> (nat \<Rightarrow> sync_env) \<Rightarrow> nat \<Rightarrow> sync_source list \<Rightarrow> sync_world \<Rightarrow> sync_world" where
  "sync_sources cancelled envs i [] w = w"
| "sync_sources cancelled envs i (s # ss) w =
     (if cancelled i then w else sync_sources cancelled envs (Suc i) ss (fst (syncOne (envs i) s w)))"

section \<open>Posted offers have a route\<close>

definition entry_hash :: "sync_env \<Rightarrow> OfferEntry \<Rightarrow> string" where
  "entry_hash e en = ComputeOfferHash (SE_sha1 e) (OE_EntityType en) (OE_EntityID en) (OE_Season en) (OE_Episode en)
     (OE_Resolution en) (OE_SourceTag en)"

definition routed :: "sync_env \<Rightarrow> db \<Rightarrow> OfferEntry \<Rightarrow> bool" where
  "routed e d en \<longleftrightarrow> (let r = GetOfferSource (entry_hash e en) d
     in (OE_Kind en = ''have'' \<longrightarrow> LocalPath r \<noteq> []) \<and> (LocalPath r \<noteq> [] \<or> TorrentURL r \<noteq> []))"

text \<open>No route is lost.\<close>

definition keeps_routes :: "db \<Rightarrow> db \<Rightarrow> bool" where
  "keeps_routes d d' \<longleftrightarrow> (\<forall>h. (LocalPath (GetOfferSource h d) \<noteq> [] \<longrightarrow> LocalPath (GetOfferSource h d') \<noteq> [])
     \<and> (TorrentURL (GetOfferSource h d) \<noteq> [] \<longrightarrow> TorrentURL (GetOfferSource h d') \<noteq> []))"

lemma routes_refl [intro]: "keeps_routes d d"
  by (simp add: keeps_routes_def)

lemma routes_trans: "keeps_routes d d' \<Longrightarrow> keeps_routes d' d'' \<Longrightarrow> keeps_routes d d''"
  by (simp add: keeps_routes_def)

lemma keeps_upsert: "keeps_routes d (UpsertOfferSource now hash path url short sz d)"
  by (auto simp: keeps_routes_def offer_routes_merge fill_def Let_def)

lemma routed_keeps: "routed e d en \<Longrightarrow> keeps_routes d d' \<Longrightarrow> routed e d' en"
  by (auto simp: routed_def keeps_routes_def Let_def)

text \<open>A row adds at most one entry, and one with a route.\<close>

definition row_ok :: "sync_env \<Rightarrow> (db \<times> OfferEntry list \<Rightarrow> 'r \<times> string \<times> int \<Rightarrow> db \<times> OfferEntry list) \<Rightarrow> 'r \<Rightarrow> bool" where
  "row_ok e row r \<longleftrightarrow> (\<forall>st v. keeps_routes (fst st) (fst (row st (r, v)))
     \<and> (snd (row st (r, v)) = snd st \<or> (\<exists>en. snd (row st (r, v)) = snd st @ [en] \<and> routed e (fst (row st (r, v))) en)))"

lemma rows_routed:
  assumes "\<forall>(r, v) \<in> set vs. row_ok e row r" and "\<forall>en \<in> set (snd st). routed e (fst st) en"
  shows "keeps_routes (fst st) (fst (foldl row st vs)) \<and> (\<forall>en \<in> set (snd (foldl row st vs)). routed e (fst (foldl row st vs)) en)"
  using assms
proof (induction vs arbitrary: st)
  case (Cons v vs)
  obtain r x where v: "v = (r, x)" by (cases v)
  from Cons.prems(1) v have ok: "row_ok e row r" by simp
  let ?st = "row st v"
  have k: "keeps_routes (fst st) (fst ?st)" and
    a: "snd ?st = snd st \<or> (\<exists>en. snd ?st = snd st @ [en] \<and> routed e (fst ?st) en)"
    using ok unfolding row_ok_def v by blast+
  have old: "\<forall>en \<in> set (snd st). routed e (fst ?st) en"
    using Cons.prems(2) routed_keeps [OF _ k] by blast
  have "\<forall>en \<in> set (snd ?st). routed e (fst ?st) en"
    using a
  proof
    assume "\<exists>en. snd ?st = snd st @ [en] \<and> routed e (fst ?st) en"
    then obtain en where "snd ?st = snd st @ [en]" "routed e (fst ?st) en" by blast
    then show ?thesis using old by simp
  qed (simp add: old)
  with Cons.IH [of ?st] Cons.prems(1) routes_trans [OF k] show ?case by simp
qed auto

definition all_routed :: "sync_env \<Rightarrow> sync_world \<Rightarrow> bool" where
  "all_routed e w \<longleftrightarrow> (\<forall>(s, es) \<in> set (SW_posted w). \<forall>en \<in> set es. routed e (SW_db w) en)"

lemma all_routed_keeps:
  "all_routed e w \<Longrightarrow> keeps_routes (SW_db w) d \<Longrightarrow> all_routed e (w\<lparr>SW_db := d\<rparr>)"
  unfolding all_routed_def using routed_keeps [of e "SW_db w" _ d] by fastforce

lemma batches_routed:
  assumes "\<forall>b \<in> set bs. \<forall>r \<in> set b. row_ok e row r" and "all_routed e w"
  shows "all_routed e (fst (sync_batches e short title row i bs w))"
  using assms
proof (induction e short title row i bs w rule: sync_batches.induct)
  case (1 e short title row i w)
  then show ?case by simp
next
  case (2 e short title row i b bs w)
  show ?case
  proof (cases "SE_resolve e i (map title b)")
    case None
    then show ?thesis using 2 by simp
  next
    case (Some rs)
    show ?thesis
    proof (cases "length rs = length b")
      case False
      then show ?thesis using 2 Some by simp
    next
      case len: True
      obtain d es where f: "foldl row (SW_db w, []) (zip b rs) = (d, es)" by fastforce
      have "\<forall>(r, v) \<in> set (zip b rs). row_ok e row r"
        using "2.prems"(1) by (auto dest: set_zip_leftD)
      from rows_routed [OF this, of "(SW_db w, [])"] have r: "keeps_routes (SW_db w) d" "\<forall>en \<in> set es. routed e d en"
        by (simp_all add: f)
      have w1: "all_routed e (w\<lparr>SW_db := d\<rparr>)" by (rule all_routed_keeps [OF "2.prems"(2) r(1)])
      then have w2: "all_routed e (w\<lparr>SW_db := d, SW_posted := SW_posted w @ [(short, es)]\<rparr>)"
        using r(2) by (auto simp: all_routed_def)
      show ?thesis using 2 Some len f w1 w2 by (simp add: Let_def)
    qed
  qed
qed

lemma path_clean_ne: "path_clean p \<noteq> []"
  by (auto simp: path_clean_def Let_def)

lemma walk_path_ne: "dir \<noteq> [] \<Longrightarrow> walk_path dir p \<noteq> []"
  by (simp add: walk_path_def path_join_all_def path_clean_ne Let_def)

lemma scanned_path_ne:
  assumes "r \<in> set (ScanFolder fs dir exts mb)"
  shows "SF_Path r \<noteq> []"
proof -
  have "dir \<noteq> []" using assms by (auto simp: ScanFolder_def)
  moreover obtain t where "fs dir = Some t" using assms by (cases "fs dir") (auto simp: ScanFolder_def split: if_splits)
  ultimately have "dir \<noteq> []" "fs dir = Some t" by blast+
  from ScanFolder_rows [where fs = fs and dir = dir and t = t, OF this] assms obtain v where "r = scan_row dir v" by auto
  then show ?thesis using walk_path_ne [OF \<open>dir \<noteq> []\<close>] by (simp add: scan_row_def parseScannedFile_def Let_def)
qed

lemma in_batches: "b \<in> set (batches_from n xs) \<Longrightarrow> r \<in> set b \<Longrightarrow> r \<in> set xs"
  using concat_batches [of n xs] by (metis UN_I set_concat)

lemma folder_row_ok:
  assumes "\<And>h. SE_saves e h" and "\<And>s. SE_sha1 e s \<noteq> []" and "SF_Path r \<noteq> []"
  shows "row_ok e (folder_row e src) r"
  using assms
  by (auto simp: row_ok_def folder_row_def Let_def UpsertOfferPath_def keeps_upsert routed_def entry_hash_def
      ComputeOfferHash_def offer_routes_merge fill_def split: prod.splits)

lemma indexed_scanned:
  "indexDownloads fs src k = Some m \<Longrightarrow> m \<in> set (ScanFolder fs (SDownloadsRoot src) (SExtensions src) (SSizeMinMB src))"
proof -
  have "foldl (\<lambda>m r. m(normalizeTitle (SF_RawTitle r) \<mapsto> r)) f rs k = Some m \<Longrightarrow> m \<in> set rs \<or> f k = Some m" for f rs
  proof (induction rs arbitrary: f)
    case (Cons a rs)
    from Cons.IH [of "f(normalizeTitle (SF_RawTitle a) \<mapsto> a)"] Cons.prems show ?case
      by (auto split: if_splits)
  qed simp
  then show "indexDownloads fs src k = Some m \<Longrightarrow> m \<in> set (ScanFolder fs (SDownloadsRoot src) (SExtensions src) (SSizeMinMB src))"
    by (fastforce simp: indexDownloads_def split: if_splits)
qed

lemma scraped_row_ok:
  assumes "\<And>h. SE_saves e h" and "\<And>s. SE_sha1 e s \<noteq> []" and "RelTorrentURL r \<noteq> []"
  shows "row_ok e (scraped_row e src idx) r"
  using assms
  by (auto simp: row_ok_def scraped_row_def Let_def keeps_upsert routed_def entry_hash_def
      ComputeOfferHash_def offer_routes_merge fill_def split: prod.splits)

lemma cursors_upsert: "cursors (UpsertOfferSource now hash path url short sz d) = cursors d"
  by (auto simp: UpsertOfferSource_def split: option.splits)

lemma cursors_rows:
  assumes "\<And>st v. cursors (fst (row st v)) = cursors (fst st)"
  shows "cursors (fst (foldl row st vs)) = cursors (fst st)"
  by (induction vs arbitrary: st) (simp_all add: assms)

lemma cursors_batches:
  assumes "\<And>st v. cursors (fst (row st v)) = cursors (fst st)"
  shows "cursors (SW_db (fst (sync_batches e short title row i bs w))) = cursors (SW_db w)"
proof (induction bs arbitrary: i w)
  case (Cons b bs)
  have f: "cursors (fst (foldl row (SW_db w, []) vs)) = cursors (SW_db w)" for vs
    using cursors_rows [of row "(SW_db w, [])" vs, OF assms] by simp
  show ?case
    using Cons.IH f by (simp add: case_prod_beta Let_def split: option.split)
qed simp

lemma cursors_scraped_row: "cursors (fst (scraped_row e src idx st v)) = cursors (fst st)"
  by (simp add: scraped_row_def Let_def cursors_upsert split: prod.split)

section \<open>A feed walked over several ticks\<close>

text \<open>A feed that does not change while it is walked: the page at an offset is what the feed holds from
  there, at most \<open>ps\<close> entries.\<close>

definition static_feed :: "torznab_item list \<Rightarrow> nat \<Rightarrow> torznab \<Rightarrow> (string \<Rightarrow> torznab_item list option) \<Rightarrow> bool" where
  "static_feed feed ps t fetch \<longleftrightarrow> ps > 0 \<and> (\<forall>o'. fetch (pageURL t (int o')) = Some (take ps (drop o' feed)))"

lemma page_releases_append: "page_releases (xs @ ys) = page_releases xs @ page_releases ys"
  by (simp add: page_releases_def List.map_filter_def)

lemma page_releases_Nil [simp]: "page_releases [] = []"
  by (simp add: page_releases_def List.map_filter_def)

lemma scan_static:
  assumes "static_feed feed ps t fetch" and "k \<le> length feed"
  shows "scan_pages fetch t (Suc n) (int k) out =
     (Some (out @ page_releases (take (Suc n * ps) (drop k feed))),
      if length feed \<le> k + n * ps then 0 else int (min (length feed) (k + Suc n * ps)))"
  using assms(2)
proof (induction n arbitrary: k out)
  case 0
  have f: "fetch (pageURL t (int k)) = Some (take ps (drop k feed))" and ps: "ps > 0"
    using assms(1) by (auto simp: static_feed_def)
  show ?case
  proof (cases "k = length feed")
    case True
    then show ?thesis using f by simp
  next
    case False
    then show ?thesis using f ps 0 by (simp add: min_def) arith
  qed
next
  case (Suc n)
  have f: "fetch (pageURL t (int k)) = Some (take ps (drop k feed))" and ps: "ps > 0"
    using assms(1) by (auto simp: static_feed_def)
  show ?case
  proof (cases "k = length feed")
    case True
    then show ?thesis using f by simp
  next
    case False
    define k' where "k' = k + length (take ps (drop k feed))"
    have k': "k' \<le> length feed" "k' = min (length feed) (k + ps)" using Suc.prems by (auto simp: k'_def)
    have ne: "take ps (drop k feed) \<noteq> []" using False Suc.prems ps by simp
    have step: "scan_pages fetch t (Suc (Suc n)) (int k) out =
        scan_pages fetch t (Suc n) (int k') (out @ page_releases (take ps (drop k feed)))"
      by (subst scan_pages.simps(2)) (use f ne in \<open>simp add: k'_def\<close>)
    have "take (Suc (Suc n) * ps) (drop k feed) = take ps (drop k feed) @ take (Suc n * ps) (drop k' feed)"
    proof (cases "k + ps \<le> length feed")
      case True
      then have "k' = k + ps" using k'(2) by simp
      then show ?thesis using take_add [of ps "Suc n * ps" "drop k feed"] by (simp add: add.commute add.left_commute)
    next
      case False
      then show ?thesis using k'(2) by simp
    qed
    moreover have "length feed \<le> k' + n * ps \<longleftrightarrow> length feed \<le> k + Suc n * ps"
      "min (length feed) (k' + Suc n * ps) = min (length feed) (k + Suc (Suc n) * ps)"
      using k'(2) by (auto simp: min_def)
    ultimately show ?thesis
      unfolding step Suc.IH [OF k'(1)] by (simp add: page_releases_append)
  qed
qed

text \<open>Ticks from a stored offset on: the releases of all, and the offset stored at the end.\<close>

fun ticks :: "(string \<Rightarrow> torznab_item list option) \<Rightarrow> torznab \<Rightarrow> nat \<Rightarrow> int \<Rightarrow> ScrapedRelease list \<times> int" where
  "ticks fetch t 0 k = ([], k)"
| "ticks fetch t (Suc n) k =
     (case Scan fetch (t\<lparr>TZ_start := k\<rparr>) of
        (rels, k') \<Rightarrow> (case ticks fetch t n k' of (rs, k'') \<Rightarrow> ((case rels of None \<Rightarrow> [] | Some r \<Rightarrow> r) @ rs, k'')))"

lemma scan_start: "static_feed feed ps (t\<lparr>TZ_start := k\<rparr>) fetch = static_feed feed ps t fetch"
  by (simp add: static_feed_def pageURL_def)

lemma walk_from:
  assumes "static_feed feed ps t fetch" and "TZ_pages t > 0" and "k \<le> length feed"
  shows "\<exists>n. 0 < n \<and> n \<le> Suc (length feed - k) \<and> ticks fetch t n (int k) = (page_releases (drop k feed), 0)"
  using assms(3)
proof (induction "length feed - k" arbitrary: k rule: less_induct)
  case less
  obtain m where m: "nat (TZ_pages t) = Suc m" using assms(2) by (metis Suc_pred zero_less_nat_eq)
  have ps: "ps > 0" using assms(1) by (simp add: static_feed_def)
  have s: "Scan fetch (t\<lparr>TZ_start := int k\<rparr>) =
     (Some (page_releases (take (Suc m * ps) (drop k feed))),
      if length feed \<le> k + m * ps then 0 else int (min (length feed) (k + Suc m * ps)))"
    using scan_static [of feed ps "t\<lparr>TZ_start := int k\<rparr>" fetch k m "[]"] assms(1) less.prems
    by (simp add: Scan_def m scan_start)
  show ?case
  proof (cases "length feed \<le> k + m * ps")
    case True
    then have "take (Suc m * ps) (drop k feed) = drop k feed" by simp
    then show ?thesis using s True by (intro exI [of _ 1]) simp
  next
    case False
    define k' where "k' = min (length feed) (k + Suc m * ps)"
    have k': "k' \<le> length feed" "length feed - k' < length feed - k"
      using False ps less.prems by (auto simp: k'_def min_def)
    from less.hyps [OF k'(2,1)] obtain n where n: "0 < n" "n \<le> Suc (length feed - k')"
      "ticks fetch t n (int k') = (page_releases (drop k' feed), 0)" by blast
    have "take (Suc m * ps) (drop k feed) @ drop k' feed = drop k feed"
    proof (cases "k + Suc m * ps \<le> length feed")
      case True
      then have "k' = k + Suc m * ps" by (simp add: k'_def)
      then have "drop k' feed = drop (Suc m * ps) (drop k feed)" by (simp add: add.commute)
      then show ?thesis by (simp only: append_take_drop_id)
    next
      case False
      then show ?thesis by (simp add: k'_def)
    qed
    then have "ticks fetch t (Suc n) (int k) = (page_releases (drop k feed), 0)"
      using s False n(3) unfolding k'_def [symmetric] by (simp add: page_releases_append [symmetric])
    then show ?thesis using n(1,2) k'(2) by (intro exI [of _ "Suc n"]) simp
  qed
qed

section \<open>Properties\<close>

text \<open>
  C15. If the store takes every row and every scraped release has an address, then whatever the
  site answers every offer posted for a source has a cached route, and one announced as in hand
  has a local file.
\<close>

theorem posted_offers_routed:
  assumes "\<And>h. SE_saves e h" and "\<And>s. SE_sha1 e s \<noteq> []" and "SW_posted w = []"
    and "\<And>n rels r. run_scraper (SE_scrape e) src 50
           (if SE_cursor_read e then GetScrapeCursor (OShortName src) (SW_db w) else 0) = Scanned n (Some rels) \<Longrightarrow>
           r \<in> set rels \<Longrightarrow> RelTorrentURL r \<noteq> []"
    and "(short, entries) \<in> set (SW_posted (fst (syncOne e src w)))" and "en \<in> set entries"
  shows "routed e (SW_db (fst (syncOne e src w))) en"
proof -
  have w: "all_routed e w" using assms(3) by (simp add: all_routed_def)
  have folder: "all_routed e (fst (syncFolder e src w))"
  proof -
    let ?rows = "ScanFolder (SE_fs e) (ORoot src) (SExtensions src) (SSizeMinMB src)"
    have "\<forall>b \<in> set (batches_from 500 ?rows). \<forall>r \<in> set b. row_ok e (folder_row e src) r"
      by (intro ballI folder_row_ok [OF assms(1,2)] scanned_path_ne) (rule in_batches)
    from batches_routed [OF this w] w show ?thesis by (simp add: syncFolder_def Let_def)
  qed
  have "all_routed e (fst (syncScraper e src w))"
  proof (cases "run_scraper (SE_scrape e) src 50 (if SE_cursor_read e then GetScrapeCursor (OShortName src) (SW_db w) else 0)")
    case (Scanned n rels)
    define w1 where "w1 = (case n of Some n \<Rightarrow> if SE_cursor_saves e then w\<lparr>SW_db := SetScrapeCursor (OShortName src) n (SW_db w)\<rparr> else w
                        | None \<Rightarrow> w)"
    have w1: "all_routed e w1" using assms(3) by (simp add: all_routed_def w1_def split: option.splits)
    show ?thesis
    proof (cases rels)
      case None
      then show ?thesis using Scanned w1 by (simp add: syncScraper_def Let_def w1_def [symmetric])
    next
      case (Some rs)
      have "\<forall>b \<in> set (batches_from 500 rs). \<forall>r \<in> set b. row_ok e (scraped_row e src (indexDownloads (SE_fs e) src)) r"
        by (intro ballI scraped_row_ok [OF assms(1,2)] assms(4) [OF Scanned [unfolded Some]]) (rule in_batches)
      from batches_routed [OF this w1] show ?thesis
        using Scanned Some w1 by (simp add: syncScraper_def Let_def w1_def [symmetric])
    qed
  qed (use w in \<open>simp_all add: syncScraper_def Let_def\<close>)
  with folder w have "all_routed e (fst (syncOne e src w))" by (simp add: syncOne_def)
  then show ?thesis using assms(5,6) by (auto simp: all_routed_def)
qed

theorem cursor_parked:
  assumes "OType src = ''scraper''" and "SE_cursor_saves e"
    and "run_scraper (SE_scrape e) src 50 (if SE_cursor_read e then GetScrapeCursor (OShortName src) (SW_db w) else 0) = Scanned (Some n) rels"
  shows "GetScrapeCursor (OShortName src) (SW_db (fst (syncOne e src w))) = max 0 n"
proof -
  have "cursors (SW_db (fst (syncOne e src w))) = cursors (SetScrapeCursor (OShortName src) n (SW_db w))"
    using assms by (simp add: syncOne_def syncScraper_def Let_def cursors_batches [OF cursors_scraped_row] split: option.split)
  then show ?thesis by (simp add: GetScrapeCursor_def cursor_map)
qed

text \<open>
  C16. Resumed from its stored offset, the walk over a feed that does not change reads every
  item once and is back at the start after at most one tick more than the feed has items.
\<close>

theorem torznab_walk_covers:
  assumes "newTorznabScraper src 50 start = Some t" and "static_feed feed ps t fetch"
  shows "\<exists>n. 0 < n \<and> n \<le> Suc (length feed) \<and> ticks fetch t n 0 = (page_releases feed, 0)"
proof -
  have "TZ_pages t > 0" using assms(1) by (auto simp: newTorznabScraper_def Let_def split: if_splits)
  from walk_from [OF assms(2) this, of 0] show ?thesis by simp
qed

theorem torznab_limits:
  assumes "newTorznabScraper src 50 start = Some t"
  shows "1 \<le> TZ_pages t \<and> TZ_pages t \<le> 50 \<and> 5000000000 \<le> TZ_delay t"
  using assms by (auto simp: newTorznabScraper_def Let_def torznabMinPageDelay_def torznabDefaultPageDelay_def split: if_splits)

section \<open>Examples\<close>

definition demo_feed :: "torznab_item list" where
  "demo_feed = map (\<lambda>t. \<lparr>TI_Title = t, TI_Link = ''https://t/'' @ t, TI_Size = [], TI_EncURL = [], TI_EncLength = ''7'', TI_Attrs = []\<rparr>)
     [''a'', ''b'', ''c'']"

definition demo_torznab_source :: sync_source where
  "demo_torznab_source = \<lparr>OType = ''scraper'', OShortName = ''az'', ORoot = [], OBrowser = [], SExtensions = [], SSizeMinMB = 0,
     SBaseURL = [], SUsername = [], SScraper = ''torznab'', STorznabURL = ''http://p/8/api/'', SAPIKey = [], SCategoryIDs = [57],
     SPageDelay = 1, SMaxPages = 1, SDownloadsRoot = ''/d'', SDeliveryModes = []\<rparr>"

definition demo_torznab :: torznab where
  "demo_torznab = \<lparr>TZ_short = ''az'', TZ_feed = ''http://p/8/api'', TZ_key = [], TZ_cats = [57], TZ_delay = 5000000000,
     TZ_pages = 1, TZ_start = 0\<rparr>"

lemma demo_new: "newTorznabScraper demo_torznab_source 50 0 = Some demo_torznab"
  by code_simp

text \<open>The server reads the offset out of the address; two entries per page.\<close>

definition before_offset :: string where
  "before_offset = ''http://p/8/api?t=search&extended=1&limit=100&offset=''"

definition offset_of :: "string \<Rightarrow> nat" where
  "offset_of url = atoi_nat (takeWhile is_digit (drop (length before_offset) url))"

definition demo_fetch_page :: "string \<Rightarrow> torznab_item list option" where
  "demo_fetch_page url = Some (take 2 (drop (offset_of url) demo_feed))"

lemma demo_offset: "offset_of (pageURL demo_torznab (int k)) = k"
proof -
  have t: "takeWhile is_digit (itoa_nat k @ ''&cat=57'') = itoa_nat k"
    by (rule takeWhile_run) (use itoa_nat_digits [of k] in \<open>auto simp: list_all_iff is_digit_def chr_le_def\<close>)
  have "itoa 100 = ''100''" "itoa 57 = ''57''" by code_simp+
  then have "TZ_feed demo_torznab @ ''?t=search&extended=1'' @ ''&limit='' @ itoa 100 @ ''&offset='' = before_offset"
    "(if TZ_key demo_torznab \<noteq> [] then ''&apikey='' @ TZ_key demo_torznab else [])
       @ (if TZ_cats demo_torznab \<noteq> [] then ''&cat='' @ join '','' (map itoa (TZ_cats demo_torznab)) else []) = ''&cat=57''"
    by (simp_all add: demo_torznab_def before_offset_def)
  then have "pageURL demo_torznab (int k) = before_offset @ itoa (int k) @ ''&cat=57''"
    unfolding pageURL_def by (simp only: append_assoc [symmetric])
  then show ?thesis using t by (simp add: offset_of_def itoa_def)
qed

lemma demo_static: "static_feed demo_feed 2 demo_torznab demo_fetch_page"
  by (simp add: static_feed_def demo_fetch_page_def demo_offset)

theorem torznab_walk_covers_witness:
  "\<exists>n. 0 < n \<and> n \<le> 4 \<and> ticks demo_fetch_page demo_torznab n 0 = (page_releases demo_feed, 0)"
proof -
  have "Suc (length demo_feed) = 4" by (simp add: demo_feed_def)
  with torznab_walk_covers [OF demo_new demo_static] show ?thesis by metis
qed

theorem torznab_limits_witness: "TZ_delay demo_torznab \<ge> 5000000000"
  using torznab_limits [OF demo_new] by simp

definition demo_downloads :: fnode where
  "demo_downloads = FDir [(''A - 3 [480p].mkv'', FFile [1]), (''A - 3 [4k].mkv'', FFile [2])]"

definition one_item :: "string \<Rightarrow> string \<Rightarrow> string \<Rightarrow> torznab_item list option" where
  "one_item title link url =
     Some (if url = pageURL demo_torznab 0 then [\<lparr>TI_Title = title, TI_Link = link, TI_Size = ''9'', TI_EncURL = [], TI_EncLength = [], TI_Attrs = []\<rparr>] else [])"

definition demo_sync :: "string \<Rightarrow> string \<Rightarrow> fnode \<Rightarrow> sync_env" where
  "demo_sync title link t = \<lparr>SE_fs = (\<lambda>p. if p = ''/d'' then Some t else None), SE_sha1 = (\<lambda>s. ''h:'' @ s), SE_now = 0,
     SE_saves = (\<lambda>h. True), SE_cursor_read = True, SE_cursor_saves = True,
     SE_resolve = (\<lambda>i ts. Some (map (\<lambda>t. (''anime'', 5)) ts)), SE_registers = (\<lambda>i. True),
     SE_scrape = \<lparr>XE_fetch = one_item title link, XE_feed = (\<lambda>b u. None), XE_size = (\<lambda>s. 0)\<rparr>\<rparr>"

definition empty_sync :: sync_world where
  "empty_sync = \<lparr>SW_db = empty_db, SW_posted = []\<rparr>"

definition demo_release :: "string \<Rightarrow> string \<Rightarrow> ScrapedRelease" where
  "demo_release title link = \<lparr>RawTitle = title, RelSize = 9, RelInfoHash = [], RelTorrentURL = link\<rparr>"

lemma demo_scrape:
  assumes "trim_space title = title" and "trim_space link = link" and "title \<noteq> []"
  shows "run_scraper (SE_scrape (demo_sync title link t)) demo_torznab_source 50 0 = Scanned (Some 1) (Some [demo_release title link])"
proof -
  have n: "trim_space ''9'' = ''9''" "go_atoi ''9'' = Some 9" "trim_space [] = []" "to_lower [] = []" by code_simp+
  have p: "nat (TZ_pages demo_torznab) = Suc 0" "TZ_start demo_torznab = 0" by (simp_all add: demo_torznab_def)
  have i: "SScraper demo_torznab_source = ''torznab''" by (simp add: demo_torznab_source_def)
  have it: "page_releases [\<lparr>TI_Title = title, TI_Link = link, TI_Size = ''9'', TI_EncURL = [], TI_EncLength = [], TI_Attrs = []\<rparr>]
      = [demo_release title link]"
    using assms n by (simp add: page_releases_def List.map_filter_def item_release_def sizeBytes_def demo_release_def Let_def)
  show ?thesis
    by (simp add: run_scraper_def i demo_new Scan_def p demo_sync_def one_item_def it)
qed

lemma demo_cursor: "GetScrapeCursor s empty_db = 0"
  by (simp add: GetScrapeCursor_def empty_db_def)

lemma demo_synced:
  assumes "trim_space title = title" and "trim_space link = link" and "title \<noteq> []"
  shows "fst (syncOne (demo_sync title link t) demo_torznab_source empty_sync) =
    (case scraped_row (demo_sync title link t) demo_torznab_source (indexDownloads (SE_fs (demo_sync title link t)) demo_torznab_source)
        (SetScrapeCursor ''az'' 1 empty_db, []) (demo_release title link, ''anime'', 5) of
       (d, es) \<Rightarrow> \<lparr>SW_db = d, SW_posted = (if es = [] then [] else [(''az'', es)])\<rparr>)"
proof -
  have o: "OType demo_torznab_source = ''scraper''" "OShortName demo_torznab_source = ''az''"
    by (simp_all add: demo_torznab_source_def)
  have e: "SE_cursor_read (demo_sync title link t)" "SE_cursor_saves (demo_sync title link t)"
    "SE_resolve (demo_sync title link t) i [x] = Some [(''anime'', 5)]" "SE_registers (demo_sync title link t) i" for i x
    by (simp_all add: demo_sync_def)
  show ?thesis
    by (simp add: syncOne_def syncScraper_def o e Let_def demo_scrape [OF assms] empty_sync_def demo_cursor case_prod_beta)
qed

lemma demo_rows:
  "map (\<lambda>r. (normalizeTitle (SF_RawTitle r), SF_Path r, SF_SizeBytes r, SF_Season r, SF_Episode r))
     (ScanFolder (SE_fs (demo_sync title link demo_downloads)) ''/d'' [] 0)
   = [(''a - 3'', ''/d/A - 3 [480p].mkv'', 1, 1, 3), (''a - 3'', ''/d/A - 3 [4k].mkv'', 1, 1, 3)]"
  by code_simp

lemma demo_titles:
  "parseScrapedRelease ''A - 3 [480p]'' = (0, 0, ''480p'', [])" "normalizeTitle ''A - 3 [480p]'' = ''a - 3''"
  "trim_space ''A - 3 [480p]'' = ''A - 3 [480p]''" "trim_space ''https://t/1'' = ''https://t/1''"
  by code_simp+

lemma demo_index:
  obtains m where "indexDownloads (SE_fs (demo_sync title link demo_downloads)) demo_torznab_source ''a - 3'' = Some m"
    "SF_Path m = ''/d/A - 3 [4k].mkv''" "SF_SizeBytes m = 1" "SF_Season m = 1" "SF_Episode m = 3"
proof -
  obtain r1 r2 where r: "ScanFolder (SE_fs (demo_sync title link demo_downloads)) ''/d'' [] 0 = [r1, r2]"
    "normalizeTitle (SF_RawTitle r2) = ''a - 3''" "SF_Path r2 = ''/d/A - 3 [4k].mkv''" "SF_SizeBytes r2 = 1" "SF_Season r2 = 1" "SF_Episode r2 = 3"
    using demo_rows [of title link] by (auto simp: map_eq_Cons_conv)
  have s: "SDownloadsRoot demo_torznab_source = ''/d''" "SExtensions demo_torznab_source = []" "SSizeMinMB demo_torznab_source = 0"
    by (simp_all add: demo_torznab_source_def)
  show ?thesis by (rule that [OF _ r(3-6)]) (simp add: indexDownloads_def s r(1,2))
qed

text \<open>The key of the pairing has no brackets, so the resolution in brackets is not part of it: the offer
  of the 480p release is recorded with the 4k file.\<close>

theorem pairing_ignores_brackets:
  "GetOfferSource (''h:'' @ offer_ident ''anime'' 5 1 3 ''480p'' [])
     (SW_db (fst (syncOne (demo_sync ''A - 3 [480p]'' ''https://t/1'' demo_downloads) demo_torznab_source empty_sync)))
   = \<lparr>LocalPath = ''/d/A - 3 [4k].mkv'', TorrentURL = ''https://t/1'', SourceShort = ''az'', SizeBytes = 1\<rparr>"
proof -
  from demo_index [of "''A - 3 [480p]''" "''https://t/1''"] obtain m where
    m: "indexDownloads (SE_fs (demo_sync ''A - 3 [480p]'' ''https://t/1'' demo_downloads)) demo_torznab_source ''a - 3'' = Some m"
    "SF_Path m = ''/d/A - 3 [4k].mkv''" "SF_SizeBytes m = 1" "SF_Season m = 1" "SF_Episode m = 3" by blast
  have e: "SE_sha1 (demo_sync a b t) s = ''h:'' @ s" "SE_now (demo_sync a b t) = 0" "SE_saves (demo_sync a b t) s" for a b t s
    by (simp_all add: demo_sync_def)
  have g: "GetOfferSource h (SetScrapeCursor ''az'' 1 empty_db) = no_route" for h
    by (simp add: GetOfferSource_def SetScrapeCursor_def empty_db_def Let_def find_row_def)
  have o: "OShortName demo_torznab_source = ''az''" by (simp add: demo_torznab_source_def)
  have d: "fst (scraped_row (demo_sync ''A - 3 [480p]'' ''https://t/1'' demo_downloads) demo_torznab_source
      (indexDownloads (SE_fs (demo_sync ''A - 3 [480p]'' ''https://t/1'' demo_downloads)) demo_torznab_source)
      (SetScrapeCursor ''az'' 1 empty_db, []) (demo_release ''A - 3 [480p]'' ''https://t/1'', ''anime'', 5))
    = UpsertOfferSource 0 (''h:'' @ offer_ident ''anime'' 5 1 3 ''480p'' []) ''/d/A - 3 [4k].mkv'' ''https://t/1'' ''az'' 1
        (SetScrapeCursor ''az'' 1 empty_db)"
    by (simp add: scraped_row_def demo_release_def demo_titles(1,2) m ComputeOfferHash_def e o Let_def)
  show ?thesis
    by (simp add: demo_synced [OF demo_titles(3,4)] case_prod_beta d offer_routes_merge g no_route_def fill_def)
qed

lemma demo_plain:
  "parseScrapedRelease ''S01E03'' = (1, 3, [], [])" "normalizeTitle ''S01E03'' = ''s01e03''"
  "trim_space ''S01E03'' = ''S01E03''" "trim_space [] = []"
  "ScanFolder (SE_fs (demo_sync title link (FDir []))) ''/d'' [] 0 = []"
  by code_simp+

lemma demo_no_index: "indexDownloads (SE_fs (demo_sync title link (FDir []))) demo_torznab_source = Map.empty"
  using demo_plain(5) by (simp add: indexDownloads_def demo_torznab_source_def)

definition demo_entry :: OfferEntry where
  "demo_entry = \<lparr>OE_EntityType = ''anime'', OE_EntityID = 5, OE_Season = 1, OE_Episode = 3, OE_Resolution = [], OE_SourceTag = [],
     OE_SizeBucket = ''<500MB'', OE_InfoHash = [], OE_DeliveryModes = [''nzb''], OE_Kind = ''can_get''\<rparr>"

lemma demo_row:
  "scraped_row (demo_sync title link (FDir [])) demo_torznab_source Map.empty (d, []) (demo_release ''S01E03'' link', ''anime'', 5)
     = (if link' = [] then d else UpsertOfferSource 0 (''h:'' @ offer_ident ''anime'' 5 1 3 [] []) [] link' ''az'' 9 d, [demo_entry])"
  by (simp add: scraped_row_def demo_release_def demo_plain(1,2) demo_sync_def ComputeOfferHash_def demo_entry_def
      delivery_modes_def demo_torznab_source_def SizeBucket_def)

text \<open>A release without a link and without a local file is posted although nothing can serve it.\<close>

theorem routeless_offer_posted:
  "SW_posted (fst (syncOne (demo_sync ''S01E03'' [] (FDir [])) demo_torznab_source empty_sync)) = [(''az'', [demo_entry])]
   \<and> offers (SW_db (fst (syncOne (demo_sync ''S01E03'' [] (FDir [])) demo_torznab_source empty_sync))) = []"
  by (simp add: demo_synced [OF demo_plain(3,4)] demo_no_index demo_row SetScrapeCursor_def empty_db_def Let_def)

theorem posted_offers_routed_witness:
  "routed (demo_sync ''S01E03'' ''https://t/1'' (FDir []))
     (SW_db (fst (syncOne (demo_sync ''S01E03'' ''https://t/1'' (FDir [])) demo_torznab_source empty_sync))) demo_entry"
proof (rule posted_offers_routed)
  show "(''az'', [demo_entry]) \<in> set (SW_posted (fst (syncOne (demo_sync ''S01E03'' ''https://t/1'' (FDir [])) demo_torznab_source empty_sync)))"
    by (simp add: demo_synced [OF demo_plain(3) demo_titles(4)] demo_no_index demo_row)
  fix n rels r
  let ?e = "demo_sync ''S01E03'' ''https://t/1'' (FDir [])"
  assume *: "run_scraper (SE_scrape ?e) demo_torznab_source 50
      (if SE_cursor_read ?e then GetScrapeCursor (OShortName demo_torznab_source) (SW_db empty_sync) else 0) = Scanned n (Some rels)"
    "r \<in> set rels"
  have "(if SE_cursor_read ?e then GetScrapeCursor (OShortName demo_torznab_source) (SW_db empty_sync) else 0) = 0"
    by (simp add: empty_sync_def demo_cursor)
  then have "rels = [demo_release ''S01E03'' ''https://t/1'']"
    using *(1) demo_scrape [OF demo_plain(3) demo_titles(4)] by simp
  then show "RelTorrentURL r \<noteq> []" using *(2) by (simp add: demo_release_def)
qed (simp_all add: demo_sync_def empty_sync_def)

theorem cursor_parked_witness:
  "GetScrapeCursor ''az'' (SW_db (fst (syncOne (demo_sync ''S01E03'' [] (FDir [])) demo_torznab_source empty_sync))) = 1"
proof -
  have s: "OType demo_torznab_source = ''scraper''" "OShortName demo_torznab_source = ''az''"
    by (simp_all add: demo_torznab_source_def)
  have "SE_cursor_saves (demo_sync ''S01E03'' [] (FDir []))" by (simp add: demo_sync_def)
  from cursor_parked [OF s(1) this, of empty_sync 1 "Some [demo_release ''S01E03'' []]"] show ?thesis
    using demo_scrape [OF demo_plain(3,4)] by (simp add: s empty_sync_def demo_cursor)
qed

end
