(* ===== verification/Collection.thy ===== *)
theory Collection
  imports OfferScan Config
begin

text \<open>
  The Collection scanner (\<^verbatim>\<open>services/collection_scanner.go\<close>), the bulk title match of
  \<^verbatim>\<open>client/title_match.go\<close> and the handlers of the Collection page (\<^verbatim>\<open>services/local_ui.go\<close>): the walk
  and the enrichment of a scan, the snapshot with the operator's edits, its file, and the interleaving
  of edits with the write of a scan. A time is its number of nanoseconds. Log lines are left out.
\<close>

section \<open>Data\<close>

record CollectionItem =
  CI_Path :: string
  CI_RelPath :: string
  CI_Filename :: string
  CI_SizeBytes :: int
  CI_ModTime :: int
  CI_Ext :: string
  CI_Matched :: bool
  CI_AID :: int
  CI_AnimeTitle :: string
  CI_MalID :: int
  CI_AnilistID :: int
  CI_Format :: string
  CI_CoverURL :: string
  CI_ResolutionHint :: string
  CI_SourceHint :: string
  CI_OverrideAID :: int
  CI_OverrideResolution :: string
  CI_OverrideSource :: string
  CI_OverrideSeason :: string
  CI_OverrideEpisode :: string
  CI_Selected :: bool
  CI_UploadStatus :: string
  CI_UploadDetail :: string

record FolderOverride =
  FO_AID :: int
  FO_Season :: string
  FO_Resolution :: string
  FO_Source :: string
  FO_Selected :: bool

text \<open>The map of folders is an association list without repeated keys; a nil map is an empty one,
  it is only read or replaced by an empty one.\<close>

record CollectionSnapshot =
  CS_ScanRoot :: string
  CS_ScannedAt :: int
  CS_TotalCount :: nat
  CS_Items :: "CollectionItem list"
  CS_FolderOverrides :: "(string \<times> FolderOverride) list"

record TitleMatchResult =
  TM_Title :: string
  TM_Matched :: bool
  TM_AID :: int
  TM_AnimeTitle :: string
  TM_MalID :: int
  TM_AnilistID :: int
  TM_Format :: string
  TM_CoverURL :: string
  TM_ResolutionHint :: string
  TM_SourceHint :: string

definition no_override :: FolderOverride where
  "no_override = \<lparr>FO_AID = 0, FO_Season = [], FO_Resolution = [], FO_Source = [], FO_Selected = False\<rparr>"

definition collectionVideoExts :: "string list" where
  "collectionVideoExts = [''mkv'', ''mp4'', ''avi'', ''mov'', ''wmv'', ''flv'', ''webm'', ''m4v'', ''ts'', ''m2ts'', ''cbz'', ''cbr'']"

definition collectionBatchSize :: nat where
  "collectionBatchSize = 200"

section \<open>The bulk title match\<close>

text \<open>The reply of the server: none when the request fails, else the status and the decoded rows.\<close>

type_synonym match_reply = "(nat \<times> TitleMatchResult list option) option"

definition TitleMatchBulk :: "(string list \<Rightarrow> match_reply) \<Rightarrow> string list \<Rightarrow> TitleMatchResult list option" where
  "TitleMatchBulk post titles =
     (if titles = [] then Some []
      else case post titles of
             None \<Rightarrow> None
           | Some (status, rows) \<Rightarrow> if status \<noteq> 200 then None else rows)"

section \<open>The walk\<close>

text \<open>What a scan observes: \<open>CE_fs\<close> is what \<^verbatim>\<open>os.Lstat\<close> finds at the root, \<open>CE_Info\<close> whether an entry
  is still there when its size is asked for, \<open>CE_WalkStop\<close> and \<open>CE_EnrichStop\<close> whether the context is
  over at the \<open>k\<close>-th file of the walk and at the batch that starts at row \<open>k\<close>.\<close>

record coll_env =
  CE_fs :: "string \<Rightarrow> fnode option"
  CE_Info :: "fpath \<Rightarrow> bool"
  CE_ModTime :: "fpath \<Rightarrow> int"
  CE_WalkStop :: "nat \<Rightarrow> bool"
  CE_EnrichStop :: "nat \<Rightarrow> bool"
  CE_Now :: int

definition coll_ext :: "string \<Rightarrow> string" where
  "coll_ext name = to_lower (trim_prefix (file_ext name) ''.'')"

definition coll_row :: "coll_env \<Rightarrow> string \<Rightarrow> fpath \<Rightarrow> fnode \<Rightarrow> CollectionItem" where
  "coll_row e dir p n =
     \<lparr>CI_Path = walk_path dir p, CI_RelPath = rel_path p, CI_Filename = base_of (path_base dir) p,
      CI_SizeBytes = int (lsize n), CI_ModTime = CE_ModTime e p, CI_Ext = coll_ext (base_of (path_base dir) p),
      CI_Matched = False, CI_AID = 0, CI_AnimeTitle = [], CI_MalID = 0, CI_AnilistID = 0, CI_Format = [],
      CI_CoverURL = [], CI_ResolutionHint = [], CI_SourceHint = [], CI_OverrideAID = 0,
      CI_OverrideResolution = [], CI_OverrideSource = [], CI_OverrideSeason = [], CI_OverrideEpisode = [],
      CI_Selected = False, CI_UploadStatus = [], CI_UploadDetail = []\<rparr>"

text \<open>For a directory that cannot be listed \<^verbatim>\<open>WalkDir\<close> calls the callback twice, and each call answers
  nil. The first part of the state counts the files seen.\<close>

definition coll_cb ::
  "coll_env \<Rightarrow> string \<Rightarrow> nat \<times> CollectionItem list \<Rightarrow> fpath \<Rightarrow> fnode \<Rightarrow> (nat \<times> CollectionItem list) \<times> wres" where
  "coll_cb e dir s p n =
     (if node_err n \<noteq> None then (s, WNil)
      else if is_dir n then (s, WNil)
      else if CE_WalkStop e (fst s) then (s, WErr ''context canceled'')
      else if coll_ext (base_of (path_base dir) p) \<notin> set collectionVideoExts then ((Suc (fst s), snd s), WNil)
      else if \<not> CE_Info e p then ((Suc (fst s), snd s), WNil)
      else if lsize n = 0 then ((Suc (fst s), snd s), WNil)
      else ((Suc (fst s), snd s @ [coll_row e dir p n]), WNil))"

text \<open>A root that \<^verbatim>\<open>Lstat\<close> does not find is reported to the callback, which drops the error.\<close>

definition coll_walk :: "coll_env \<Rightarrow> string \<Rightarrow> string + CollectionItem list" where
  "coll_walk e dir =
     (case CE_fs e dir of
        None \<Rightarrow> Inr []
      | Some t \<Rightarrow>
          (case file_walk (coll_cb e dir) (0, []) t of
             (s, WErr err) \<Rightarrow> Inl err
           | (s, _) \<Rightarrow> Inr (sort_key CI_RelPath (snd s))))"

section \<open>The enrichment\<close>

definition match_row :: "CollectionItem \<Rightarrow> TitleMatchResult \<Rightarrow> CollectionItem" where
  "match_row it r = it\<lparr>CI_Matched := TM_Matched r, CI_AID := TM_AID r, CI_AnimeTitle := TM_AnimeTitle r,
     CI_MalID := TM_MalID r, CI_AnilistID := TM_AnilistID r, CI_Format := TM_Format r,
     CI_CoverURL := TM_CoverURL r, CI_ResolutionHint := TM_ResolutionHint r, CI_SourceHint := TM_SourceHint r\<rparr>"

fun match_rows :: "CollectionItem list \<Rightarrow> TitleMatchResult list \<Rightarrow> CollectionItem list" where
  "match_rows (it # its) (r # rs) = match_row it r # match_rows its rs"
| "match_rows its rs = its"

lemma length_match_rows [simp]: "length (match_rows its rs) = length its"
  by (induction its rs rule: match_rows.induct) auto

text \<open>\<open>site k\<close> is the answer to the batch that starts at row \<open>k\<close>. The result has the rows and the
  number of failed batches, none when the context ended.\<close>

function enrich_from ::
  "(nat \<Rightarrow> bool) \<Rightarrow> (nat \<Rightarrow> string list \<Rightarrow> TitleMatchResult list option) \<Rightarrow> nat \<Rightarrow> nat \<Rightarrow> CollectionItem list
   \<Rightarrow> CollectionItem list \<times> nat option" where
  "enrich_from stop site start errs its =
     (if \<not> start < length its then (its, Some errs)
      else if stop start then (its, None)
      else
        (let batch = take collectionBatchSize (drop start its)
         in case site start (map CI_Filename batch) of
              None \<Rightarrow> enrich_from stop site (start + collectionBatchSize) (Suc errs) its
            | Some rs \<Rightarrow>
                enrich_from stop site (start + collectionBatchSize) errs
                  (take start its @ match_rows batch rs @ drop (start + collectionBatchSize) its)))"
  by pat_completeness auto

termination
  by (relation "measure (\<lambda>(stop, site, start, errs, its). length its - start)")
     (auto simp: collectionBatchSize_def)

declare enrich_from.simps [simp del]

definition enrich ::
  "coll_env \<Rightarrow> (nat \<Rightarrow> string list \<Rightarrow> TitleMatchResult list option) \<Rightarrow> CollectionItem list
   \<Rightarrow> CollectionItem list \<times> string option" where
  "enrich e site its =
     (case enrich_from (CE_EnrichStop e) site 0 0 its of
        (its', None) \<Rightarrow> (its', None)
      | (its', Some n) \<Rightarrow>
          (its', if n > 0 then Some (''enrichment: '' @ itoa (int n) @ '' batch(es) failed (rows shown without metadata)'') else None))"

section \<open>The file\<close>

text \<open>\<^verbatim>\<open>encoding/json\<close> writes every invalid byte of a string as the replacement character, so reading
  back gives the string of its runes. The keys of a map are written in order; a key that two keys turn
  into holds the value written last.\<close>

definition json_text :: "string \<Rightarrow> string" where
  "json_text s = concat (runes s)"

definition json_item :: "CollectionItem \<Rightarrow> CollectionItem" where
  "json_item it = it\<lparr>CI_Path := json_text (CI_Path it), CI_RelPath := json_text (CI_RelPath it),
     CI_Filename := json_text (CI_Filename it), CI_Ext := json_text (CI_Ext it),
     CI_AnimeTitle := json_text (CI_AnimeTitle it), CI_Format := json_text (CI_Format it),
     CI_CoverURL := json_text (CI_CoverURL it), CI_ResolutionHint := json_text (CI_ResolutionHint it),
     CI_SourceHint := json_text (CI_SourceHint it), CI_OverrideResolution := json_text (CI_OverrideResolution it),
     CI_OverrideSource := json_text (CI_OverrideSource it), CI_OverrideSeason := json_text (CI_OverrideSeason it),
     CI_OverrideEpisode := json_text (CI_OverrideEpisode it), CI_UploadStatus := json_text (CI_UploadStatus it),
     CI_UploadDetail := json_text (CI_UploadDetail it)\<rparr>"

definition json_folder :: "FolderOverride \<Rightarrow> FolderOverride" where
  "json_folder f = f\<lparr>FO_Season := json_text (FO_Season f), FO_Resolution := json_text (FO_Resolution f),
     FO_Source := json_text (FO_Source f)\<rparr>"

definition json_folders :: "(string \<times> FolderOverride) list \<Rightarrow> (string \<times> FolderOverride) list" where
  "json_folders m =
     foldl (\<lambda>acc kv. AList.update (json_text (fst kv)) (json_folder (snd kv)) acc) [] (sort_key fst m)"

definition json_snap :: "CollectionSnapshot \<Rightarrow> CollectionSnapshot" where
  "json_snap s = s\<lparr>CS_ScanRoot := json_text (CS_ScanRoot s), CS_Items := map json_item (CS_Items s),
     CS_FolderOverrides := json_folders (CS_FolderOverrides s)\<rparr>"

text \<open>The content of a file: just created, not the document of a snapshot, or the document of one, which
  is named by what reading it gives. \<open>D_Scan\<close> is the file a scan has open for writing: still the
  temporary one, by now the store, or one that no name leads to.\<close>

datatype coll_doc = Empty | Torn | Whole CollectionSnapshot

datatype open_file = AtTmp | AtStore | Unlinked

record coll_disk =
  D_Store :: "coll_doc option"
  D_Tmp :: "coll_doc option"
  D_Scan :: "open_file option"

datatype write_res = Write_no_open | Write_short | Write_ok

text \<open>How the calls of one write of the snapshot turn out. Encoding fails for a time whose year has not
  four digits.\<close>

record coll_io =
  IO_Mkdir :: bool
  IO_Encode :: bool
  IO_Write :: write_res
  IO_Rename :: bool

definition io_ok :: coll_io where
  "io_ok = \<lparr>IO_Mkdir = True, IO_Encode = True, IO_Write = Write_ok, IO_Rename = True\<rparr>"

fun moved :: "open_file \<Rightarrow> open_file" where
  "moved AtTmp = AtStore"
| "moved AtStore = Unlinked"
| "moved Unlinked = Unlinked"

definition rename_tmp :: "coll_disk \<Rightarrow> coll_disk option" where
  "rename_tmp d =
     (case D_Tmp d of
        None \<Rightarrow> None
      | Some x \<Rightarrow> Some (d\<lparr>D_Store := Some x, D_Tmp := None, D_Scan := map_option moved (D_Scan d)\<rparr>))"

definition persistSnapshot :: "coll_io \<Rightarrow> CollectionSnapshot \<Rightarrow> coll_disk \<Rightarrow> coll_disk \<times> string option" where
  "persistSnapshot io snap d =
     (if \<not> IO_Mkdir io then (d, Some ''mkdir'')
      else if \<not> IO_Encode io then (d, Some ''json'')
      else case IO_Write io of
        Write_no_open \<Rightarrow> (d, Some ''open'')
      | Write_short \<Rightarrow> (d\<lparr>D_Tmp := Some Torn\<rparr>, Some ''write'')
      | Write_ok \<Rightarrow>
          (let d1 = d\<lparr>D_Tmp := Some (Whole (json_snap snap))\<rparr>
           in if \<not> IO_Rename io then (d1, Some ''rename'')
              else case rename_tmp d1 of None \<Rightarrow> (d1, Some ''rename'') | Some d2 \<Rightarrow> (d2, None)))"

text \<open>The disks a crash in the middle of it can leave.\<close>

definition persist_crashes :: "CollectionSnapshot \<Rightarrow> coll_disk \<Rightarrow> coll_disk list" where
  "persist_crashes snap d =
     [d, d\<lparr>D_Tmp := Some Empty\<rparr>, d\<lparr>D_Tmp := Some Torn\<rparr>, d\<lparr>D_Tmp := Some (Whole (json_snap snap))\<rparr>,
      fst (persistSnapshot io_ok snap d)]"

fun loadSnapshot :: "coll_doc option \<Rightarrow> CollectionSnapshot option" where
  "loadSnapshot (Some (Whole s)) = Some s"
| "loadSnapshot x = None"

section \<open>The scanner\<close>

record coll_state =
  SC_Snap :: "CollectionSnapshot option"
  SC_Scanning :: bool
  SC_LastErr :: string
  SC_Disk :: coll_disk

definition NewCollectionScanner :: "coll_disk \<Rightarrow> coll_state" where
  "NewCollectionScanner d =
     \<lparr>SC_Snap = loadSnapshot (D_Store d), SC_Scanning = False, SC_LastErr = [], SC_Disk = d\<lparr>D_Scan := None\<rparr>\<rparr>"

definition setLastErr :: "string option \<Rightarrow> coll_state \<Rightarrow> coll_state" where
  "setLastErr err st = (case err of None \<Rightarrow> st | Some msg \<Rightarrow> st\<lparr>SC_LastErr := msg\<rparr>)"

text \<open>An operator's edit: under the lock, on the snapshot in memory, which is then written.\<close>

definition edit_snap ::
  "coll_io \<Rightarrow> (CollectionSnapshot \<Rightarrow> string + CollectionSnapshot) \<Rightarrow> coll_state \<Rightarrow> coll_state \<times> string option" where
  "edit_snap io f st =
     (case SC_Snap st of
        None \<Rightarrow> (st, Some ''no snapshot to edit'')
      | Some snap \<Rightarrow>
          (case f snap of
             Inl err \<Rightarrow> (st, Some err)
           | Inr snap' \<Rightarrow>
               (case persistSnapshot io snap' (SC_Disk st) of
                  (d, err) \<Rightarrow> (st\<lparr>SC_Snap := Some snap', SC_Disk := d\<rparr>, err))))"

fun edit_row :: "string \<Rightarrow> (CollectionItem \<Rightarrow> CollectionItem) \<Rightarrow> CollectionItem list \<Rightarrow> string + CollectionItem list" where
  "edit_row path f [] = Inl ''path not in current snapshot''"
| "edit_row path f (it # its) =
     (if CI_Path it \<noteq> path then map_sum (\<lambda>e. e) (Cons it) (edit_row path f its) else Inr (f it # its))"

definition edit_items ::
  "string \<Rightarrow> (CollectionItem \<Rightarrow> CollectionItem) \<Rightarrow> CollectionSnapshot \<Rightarrow> string + CollectionSnapshot" where
  "edit_items path f snap = map_sum (\<lambda>e. e) (\<lambda>its. snap\<lparr>CS_Items := its\<rparr>) (edit_row path f (CS_Items snap))"

definition override_row :: "int \<Rightarrow> string \<Rightarrow> string \<Rightarrow> string \<Rightarrow> string \<Rightarrow> CollectionItem \<Rightarrow> CollectionItem" where
  "override_row aid resolution src season episode it =
     it\<lparr>CI_OverrideAID := aid, CI_OverrideResolution := trim_space resolution, CI_OverrideSource := trim_space src,
        CI_OverrideSeason := trim_space season, CI_OverrideEpisode := trim_space episode\<rparr>"

definition UpdateOverrides ::
  "coll_io \<Rightarrow> string \<Rightarrow> int \<Rightarrow> string \<Rightarrow> string \<Rightarrow> string \<Rightarrow> string \<Rightarrow> coll_state \<Rightarrow> coll_state \<times> string option" where
  "UpdateOverrides io path aid resolution src season episode =
     edit_snap io (edit_items path (override_row aid resolution src season episode))"

definition SetSelected :: "coll_io \<Rightarrow> string \<Rightarrow> bool \<Rightarrow> coll_state \<Rightarrow> coll_state \<times> string option" where
  "SetSelected io path selected = edit_snap io (edit_items path (\<lambda>it. it\<lparr>CI_Selected := selected\<rparr>))"

definition folder_entry :: "CollectionSnapshot \<Rightarrow> string \<Rightarrow> FolderOverride" where
  "folder_entry snap folder = (case map_of (CS_FolderOverrides snap) folder of None \<Rightarrow> no_override | Some f \<Rightarrow> f)"

definition override_folder :: "string \<Rightarrow> int \<Rightarrow> string \<Rightarrow> string \<Rightarrow> string \<Rightarrow> CollectionSnapshot \<Rightarrow> string + CollectionSnapshot" where
  "override_folder folder aid season resolution src snap =
     (let f = (folder_entry snap folder)\<lparr>FO_AID := aid, FO_Season := trim_space season,
                FO_Resolution := trim_space resolution, FO_Source := trim_space src\<rparr>
      in Inr (snap\<lparr>CS_FolderOverrides :=
           (if FO_AID f = 0 \<and> FO_Season f = [] \<and> FO_Resolution f = [] \<and> FO_Source f = [] \<and> \<not> FO_Selected f
            then AList.delete folder (CS_FolderOverrides snap)
            else AList.update folder f (CS_FolderOverrides snap))\<rparr>))"

definition SetFolderOverride ::
  "coll_io \<Rightarrow> string \<Rightarrow> int \<Rightarrow> string \<Rightarrow> string \<Rightarrow> string \<Rightarrow> coll_state \<Rightarrow> coll_state \<times> string option" where
  "SetFolderOverride io folder aid season resolution src = edit_snap io (override_folder folder aid season resolution src)"

definition mark_folder :: "string \<Rightarrow> bool \<Rightarrow> CollectionSnapshot \<Rightarrow> string + CollectionSnapshot" where
  "mark_folder folder selected snap =
     Inr (snap\<lparr>CS_FolderOverrides :=
       AList.update folder ((folder_entry snap folder)\<lparr>FO_Selected := selected\<rparr>) (CS_FolderOverrides snap)\<rparr>)"

definition SelectFolder :: "coll_io \<Rightarrow> string \<Rightarrow> bool \<Rightarrow> coll_state \<Rightarrow> coll_state \<times> string option" where
  "SelectFolder io folder selected = edit_snap io (mark_folder folder selected)"

text \<open>The part before the last slash.\<close>

definition FolderOf :: "CollectionItem \<Rightarrow> string" where
  "FolderOf it =
     (if slash \<in> set (CI_RelPath it) then rev (tl (dropWhile (\<lambda>c. c \<noteq> slash) (rev (CI_RelPath it)))) else [])"

definition picked :: "CollectionSnapshot \<Rightarrow> CollectionItem \<Rightarrow> bool" where
  "picked snap it \<longleftrightarrow> CI_Selected it \<or> FO_Selected (folder_entry snap (FolderOf it))"

definition queue_row :: "CollectionItem \<Rightarrow> CollectionItem" where
  "queue_row it = it\<lparr>CI_Selected := False, CI_UploadStatus := ''queued'', CI_UploadDetail := ''Waiting for upload worker''\<rparr>"

definition queue_rows :: "CollectionSnapshot \<Rightarrow> CollectionSnapshot" where
  "queue_rows snap = snap\<lparr>CS_Items := map (\<lambda>it. if picked snap it then queue_row it else it) (CS_Items snap),
     CS_FolderOverrides := map (\<lambda>(k, f). (k, f\<lparr>FO_Selected := False\<rparr>)) (CS_FolderOverrides snap)\<rparr>"

definition QueueSelectedUploads :: "coll_io \<Rightarrow> coll_state \<Rightarrow> coll_state \<times> nat \<times> string option" where
  "QueueSelectedUploads io st =
     (case SC_Snap st of
        None \<Rightarrow> (st, 0, Some ''no snapshot to upload'')
      | Some snap \<Rightarrow>
          (let queued = length (filter (picked snap) (CS_Items snap)); snap' = queue_rows snap
           in if queued = 0 then (st\<lparr>SC_Snap := Some snap'\<rparr>, 0, None)
              else case persistSnapshot io snap' (SC_Disk st) of
                     (d, Some err) \<Rightarrow> (st\<lparr>SC_Snap := Some snap', SC_Disk := d\<rparr>, 0, Some err)
                   | (d, None) \<Rightarrow> (st\<lparr>SC_Snap := Some snap', SC_Disk := d\<rparr>, queued, None)))"

section \<open>The effective values\<close>

definition cascade :: "coll_state \<Rightarrow> CollectionItem \<Rightarrow> (FolderOverride \<Rightarrow> 'a option) \<Rightarrow> 'a \<Rightarrow> 'a" where
  "cascade st it get hint =
     (case SC_Snap st of
        None \<Rightarrow> hint
      | Some snap \<Rightarrow>
          (case map_of (CS_FolderOverrides snap) (FolderOf it) of
             None \<Rightarrow> hint
           | Some f \<Rightarrow> (case get f of None \<Rightarrow> hint | Some v \<Rightarrow> v)))"

definition set_int :: "int \<Rightarrow> int option" where
  "set_int n = (if n > 0 then Some n else None)"

definition set_str :: "string \<Rightarrow> string option" where
  "set_str s = (if s \<noteq> [] then Some s else None)"

definition EffectiveAID :: "coll_state \<Rightarrow> CollectionItem \<Rightarrow> int" where
  "EffectiveAID st it =
     (if CI_OverrideAID it > 0 then CI_OverrideAID it else cascade st it (\<lambda>f. set_int (FO_AID f)) (CI_AID it))"

definition EffectiveResolution :: "coll_state \<Rightarrow> CollectionItem \<Rightarrow> string" where
  "EffectiveResolution st it =
     (if CI_OverrideResolution it \<noteq> [] then CI_OverrideResolution it
      else cascade st it (\<lambda>f. set_str (FO_Resolution f)) (CI_ResolutionHint it))"

definition EffectiveSource :: "coll_state \<Rightarrow> CollectionItem \<Rightarrow> string" where
  "EffectiveSource st it =
     (if CI_OverrideSource it \<noteq> [] then CI_OverrideSource it else cascade st it (\<lambda>f. set_str (FO_Source f)) [])"

definition EffectiveSeason :: "coll_state \<Rightarrow> CollectionItem \<Rightarrow> string" where
  "EffectiveSeason st it =
     (if CI_OverrideSeason it \<noteq> [] then CI_OverrideSeason it else cascade st it (\<lambda>f. set_str (FO_Season f)) [])"

section \<open>A scan\<close>

definition fresh_snap :: "coll_env \<Rightarrow> string \<Rightarrow> CollectionItem list \<Rightarrow> CollectionSnapshot" where
  "fresh_snap e dir its = \<lparr>CS_ScanRoot = dir, CS_ScannedAt = CE_Now e, CS_TotalCount = length its, CS_Items = its,
     CS_FolderOverrides = []\<rparr>"

text \<open>The part before the lock is taken again: the new snapshot, with the error of the enrichment.\<close>

definition collect ::
  "coll_env \<Rightarrow> (nat \<Rightarrow> string list \<Rightarrow> TitleMatchResult list option) option \<Rightarrow> string
   \<Rightarrow> string + CollectionSnapshot \<times> string option" where
  "collect e site cfg_root =
     (let dir = trim_space cfg_root
      in if dir = [] then Inl ''scan root not configured (set COLLECTION_ROOT or fill it in via /config)''
         else case Option.bind (CE_fs e dir) resolve of
           None \<Rightarrow> Inl ''scan root not accessible''
         | Some _ \<Rightarrow>
             (case coll_walk e dir of
                Inl err \<Rightarrow> Inl err
              | Inr its \<Rightarrow>
                  (case site of
                     None \<Rightarrow> Inr (fresh_snap e dir its, None)
                   | Some s \<Rightarrow> (case enrich e s its of (its', err) \<Rightarrow> Inr (fresh_snap e dir its', err)))))"

definition scan_begin :: "coll_state \<Rightarrow> coll_state option" where
  "scan_begin st = (if SC_Scanning st then None else Some (st\<lparr>SC_Scanning := True, SC_LastErr := []\<rparr>))"

definition scan_end :: "coll_state \<Rightarrow> coll_state" where
  "scan_end st = st\<lparr>SC_Scanning := False\<rparr>"

definition scan_publish :: "CollectionSnapshot \<Rightarrow> string option \<Rightarrow> coll_state \<Rightarrow> coll_state" where
  "scan_publish snap err st = (setLastErr err st)\<lparr>SC_Snap := Some snap\<rparr>"

definition scan_persisted :: "coll_disk \<times> string option \<Rightarrow> coll_state \<Rightarrow> coll_state" where
  "scan_persisted r st = setLastErr (map_option (\<lambda>m. ''persist snapshot: '' @ m) (snd r)) (st\<lparr>SC_Disk := fst r\<rparr>)"

definition Scan ::
  "coll_env \<Rightarrow> coll_io \<Rightarrow> (nat \<Rightarrow> string list \<Rightarrow> TitleMatchResult list option) option \<Rightarrow> string \<Rightarrow> coll_state
   \<Rightarrow> coll_state \<times> string option" where
  "Scan e io site cfg_root st =
     (case scan_begin st of
        None \<Rightarrow> (st, Some ''scan already in progress'')
      | Some st1 \<Rightarrow>
          (case collect e site cfg_root of
             Inl err \<Rightarrow> (scan_end (setLastErr (Some err) st1), Some err)
           | Inr (snap, err) \<Rightarrow>
               (let st2 = scan_publish snap err st1; r = persistSnapshot io snap (SC_Disk st2)
                in (scan_end (scan_persisted r st2), snd r))))"

section \<open>Edits while a scan runs\<close>

text \<open>\<^verbatim>\<open>Scan\<close> writes its snapshot after it has released the lock, so an edit, which writes the same files
  under the lock, may come between any two of its calls. \<open>Encoded\<close> and \<open>Opened\<close> hold the document made
  of what the snapshot was when it was encoded; the file is closed before it is renamed.\<close>

datatype coll_flight = Idle | Walking | Published | Encoded CollectionSnapshot | Opened CollectionSnapshot | Written

datatype coll_op =
    OpOverride string int string string string string
  | OpSelect string bool
  | OpFolder string int string string string
  | OpSelectFolder string bool
  | OpQueue

fun coll_apply :: "coll_io \<Rightarrow> coll_op \<Rightarrow> coll_state \<Rightarrow> coll_state" where
  "coll_apply io (OpOverride path aid resolution src season episode) st =
     fst (UpdateOverrides io path aid resolution src season episode st)"
| "coll_apply io (OpSelect path selected) st = fst (SetSelected io path selected st)"
| "coll_apply io (OpFolder folder aid season resolution src) st = fst (SetFolderOverride io folder aid season resolution src st)"
| "coll_apply io (OpSelectFolder folder selected) st = fst (SelectFolder io folder selected st)"
| "coll_apply io OpQueue st = fst (QueueSelectedUploads io st)"

text \<open>Creating the temporary file, and a write to the open file: what was written by another hand in
  between does not go away.\<close>

definition scan_open :: "coll_disk \<Rightarrow> coll_disk" where
  "scan_open d = d\<lparr>D_Tmp := Some Empty, D_Scan := Some AtTmp\<rparr>"

definition written :: "coll_doc \<Rightarrow> coll_doc option \<Rightarrow> coll_doc" where
  "written doc old = (if old = Some Empty then doc else Torn)"

definition scan_write :: "coll_doc \<Rightarrow> coll_disk \<Rightarrow> coll_disk" where
  "scan_write doc d =
     (case D_Scan d of
        Some AtTmp \<Rightarrow> d\<lparr>D_Tmp := Some (written doc (D_Tmp d)), D_Scan := None\<rparr>
      | Some AtStore \<Rightarrow> d\<lparr>D_Store := Some (written doc (D_Store d)), D_Scan := None\<rparr>
      | _ \<Rightarrow> d\<lparr>D_Scan := None\<rparr>)"

definition scan_rename :: "coll_disk \<Rightarrow> coll_disk \<times> string option" where
  "scan_rename d = (case rename_tmp d of None \<Rightarrow> (d, Some ''rename'') | Some d' \<Rightarrow> (d', None))"

text \<open>One step: of the scan, of the operator (an edit, or one that a crash cuts short in the middle of its
  write, with the next start), or a crash elsewhere with the next start. A scan may stop at every call
  that can fail.\<close>

datatype coll_actor = ByScan | ByOperator | ByRestart

inductive coll_step :: "coll_actor \<Rightarrow> coll_state \<times> coll_flight \<Rightarrow> coll_state \<times> coll_flight \<Rightarrow> bool" where
  step_begin: "scan_begin st = Some st' \<Longrightarrow> coll_step ByScan (st, Idle) (st', Walking)"
| step_no_rows: "collect e site cfg_root = Inl err \<Longrightarrow>
    coll_step ByScan (st, Walking) (scan_end (setLastErr (Some err) st), Idle)"
| step_publish: "collect e site cfg_root = Inr (snap, err) \<Longrightarrow>
    coll_step ByScan (st, Walking) (scan_publish snap err st, Published)"
| step_encode: "SC_Snap st = Some snap \<Longrightarrow> coll_step ByScan (st, Published) (st, Encoded (json_snap snap))"
| step_no_encode: "coll_step ByScan (st, Published) (scan_end (scan_persisted (SC_Disk st, Some msg) st), Idle)"
| step_open: "coll_step ByScan (st, Encoded doc) (st\<lparr>SC_Disk := scan_open (SC_Disk st)\<rparr>, Opened doc)"
| step_no_open: "coll_step ByScan (st, Encoded doc) (scan_end (scan_persisted (SC_Disk st, Some ''open'') st), Idle)"
| step_write: "coll_step ByScan (st, Opened doc) (st\<lparr>SC_Disk := scan_write (Whole doc) (SC_Disk st)\<rparr>, Written)"
| step_short: "coll_step ByScan (st, Opened doc)
    (scan_end (scan_persisted (scan_write Torn (SC_Disk st), Some ''write'') st), Idle)"
| step_rename: "coll_step ByScan (st, Written) (scan_end (scan_persisted (scan_rename (SC_Disk st)) st), Idle)"
| step_no_rename: "coll_step ByScan (st, Written) (scan_end (scan_persisted (SC_Disk st, Some ''rename'') st), Idle)"
| step_edit: "coll_step ByOperator (st, fl) (coll_apply io op st, fl)"
| step_crash: "SC_Snap (coll_apply io op st) = Some snap \<Longrightarrow> d \<in> set (persist_crashes snap (SC_Disk st)) \<Longrightarrow>
    coll_step ByOperator (st, fl) (NewCollectionScanner d, Idle)"
| step_restart: "coll_step ByRestart (st, fl) (NewCollectionScanner (SC_Disk st), Idle)"

text \<open>Whether the scan has its write in hand.\<close>

fun writing :: "coll_flight \<Rightarrow> bool" where
  "writing (Encoded doc) = True"
| "writing (Opened doc) = True"
| "writing Written = True"
| "writing _ = False"

text \<open>The states of all runs from a start, and of the runs without an edit during the write of a scan.\<close>

inductive coll_reach :: "bool \<Rightarrow> coll_disk \<Rightarrow> coll_state \<times> coll_flight \<Rightarrow> bool" for calm d0 where
  reach_start: "coll_reach calm d0 (NewCollectionScanner d0, Idle)"
| reach_step: "coll_reach calm d0 s \<Longrightarrow> coll_step a s s' \<Longrightarrow> \<not> (calm \<and> a = ByOperator \<and> writing (snd s)) \<Longrightarrow>
    coll_reach calm d0 s'"

section \<open>The page\<close>

record file_view =
  FV_Item :: CollectionItem
  FV_Folder :: string
  FV_AID :: int
  FV_Resolution :: string
  FV_Source :: string
  FV_Season :: string

record folder_view =
  GV_Folder :: string
  GV_Override :: FolderOverride
  GV_Files :: "file_view list"
  GV_FileCount :: nat

definition view_row :: "coll_state \<Rightarrow> CollectionItem \<Rightarrow> file_view" where
  "view_row st it = \<lparr>FV_Item = it, FV_Folder = FolderOf it, FV_AID = EffectiveAID st it,
     FV_Resolution = EffectiveResolution st it, FV_Source = EffectiveSource st it, FV_Season = EffectiveSeason st it\<rparr>"

definition view_group :: "CollectionSnapshot \<Rightarrow> file_view \<Rightarrow> (string \<times> folder_view) list \<Rightarrow> (string \<times> folder_view) list" where
  "view_group snap v gs =
     (let g = (case map_of gs (FV_Folder v) of
                 Some g \<Rightarrow> g
               | None \<Rightarrow> \<lparr>GV_Folder = FV_Folder v, GV_Override = folder_entry snap (FV_Folder v), GV_Files = [], GV_FileCount = 0\<rparr>)
      in AList.update (FV_Folder v)
           (g\<lparr>GV_Files := GV_Files g @ [v], GV_FileCount := GV_FileCount g + 1\<rparr>) gs)"

text \<open>The rows in order and the folders in the order of their names; none without a snapshot.\<close>

definition handleCollection :: "coll_state \<Rightarrow> (file_view list \<times> folder_view list) option" where
  "handleCollection st =
     map_option (\<lambda>snap.
       (let fs = map (view_row st) (CS_Items snap)
        in (fs, sort_key GV_Folder (map snd (foldl (\<lambda>gs v. view_group snap v gs) [] fs))))) (SC_Snap st)"

text \<open>What a handler answers: a redirect, or one with a message and an error.\<close>

datatype ui_reply = Redirect string | Flash string string string

text \<open>The value \<^verbatim>\<open>Atoi\<close> returns beside its error: 0, or the nearest bound when the number is out of range.\<close>

definition atoi_value :: "string \<Rightarrow> int" where
  "atoi_value s =
     (case go_atoi s of
        Some n \<Rightarrow> n
      | None \<Rightarrow>
          (let ds = (if s \<noteq> [] \<and> hd s \<in> {CHR ''-'', CHR ''+''} then tl s else s)
           in if ds = [] \<or> \<not> list_all is_digit ds then 0
              else if hd s = CHR ''-'' then - (2 ^ 63) else 2 ^ 63 - 1))"

definition form_int :: "string \<Rightarrow> int" where
  "form_int s = atoi_value (trim_space s)"

text \<open>\<open>post\<close> is whether the request is a POST and \<open>form\<close> the values of its form.\<close>

definition handleCollectionScan :: "bool \<Rightarrow> (string \<Rightarrow> string) \<Rightarrow> string \<Rightarrow> ui_reply \<times> string option" where
  "handleCollectionScan post form cfg_root =
     (if \<not> post then (Redirect ''/collection'', None)
      else (let r = trim_space (form ''root'')
            in (Flash ''/collection'' ''Scan started'' [], Some (if r = [] then cfg_root else r))))"

definition flash_result :: "string \<Rightarrow> string \<Rightarrow> ui_reply \<Rightarrow> coll_state \<times> string option \<Rightarrow> coll_state \<times> ui_reply" where
  "flash_result page label ok r =
     (case r of (st, Some err) \<Rightarrow> (st, Flash page [] (label @ err)) | (st, None) \<Rightarrow> (st, ok))"

definition handleCollectionEdit :: "coll_io \<Rightarrow> bool \<Rightarrow> (string \<Rightarrow> string) \<Rightarrow> coll_state \<Rightarrow> coll_state \<times> ui_reply" where
  "handleCollectionEdit io post form st =
     (if \<not> post then (st, Redirect ''/collection'')
      else (let path = trim_space (form ''path'')
            in if path = [] then (st, Flash ''/collection'' [] ''Edit: path required'')
               else flash_result ''/collection'' ''Edit: '' (Flash ''/collection'' ''Row updated.'' [])
                      (UpdateOverrides io path (form_int (form ''aid'')) (trim_space (form ''resolution''))
                        (trim_space (form ''source'')) (trim_space (form ''season'')) (trim_space (form ''episode'')) st)))"

definition handleCollectionFolderEdit :: "coll_io \<Rightarrow> bool \<Rightarrow> (string \<Rightarrow> string) \<Rightarrow> coll_state \<Rightarrow> coll_state \<times> ui_reply" where
  "handleCollectionFolderEdit io post form st =
     (if \<not> post then (st, Redirect ''/collection'')
      else (let folder = form ''folder''; label = (if folder = [] then ''(root)'' else folder)
            in flash_result ''/collection?view=tree'' ''Folder edit: ''
                 (Flash ''/collection?view=tree'' (''Folder '' @ label @ '' updated'') [])
                 (SetFolderOverride io folder (form_int (form ''aid'')) (trim_space (form ''season''))
                   (trim_space (form ''resolution'')) (trim_space (form ''source'')) st)))"

definition handleCollectionFolderSelect :: "coll_io \<Rightarrow> bool \<Rightarrow> (string \<Rightarrow> string) \<Rightarrow> coll_state \<Rightarrow> coll_state \<times> ui_reply" where
  "handleCollectionFolderSelect io post form st =
     (if \<not> post then (st, Redirect ''/collection'')
      else flash_result ''/collection?view=tree'' ''Folder select: '' (Redirect ''/collection?view=tree'')
             (SelectFolder io (form ''folder'') (form ''selected'' = ''1'') st))"

definition handleCollectionSelect :: "coll_io \<Rightarrow> bool \<Rightarrow> (string \<Rightarrow> string) \<Rightarrow> coll_state \<Rightarrow> coll_state \<times> ui_reply" where
  "handleCollectionSelect io post form st =
     (if \<not> post then (st, Redirect ''/collection'')
      else (let path = trim_space (form ''path'')
            in if path = [] then (st, Flash ''/collection'' [] ''Select: path required'')
               else flash_result ''/collection'' ''Select: '' (Redirect ''/collection'')
                      (SetSelected io path (form ''selected'' = ''1'') st)))"

definition handleCollectionUpload :: "coll_io \<Rightarrow> bool \<Rightarrow> coll_state \<Rightarrow> coll_state \<times> ui_reply" where
  "handleCollectionUpload io post st =
     (if \<not> post then (st, Redirect ''/collection'')
      else case QueueSelectedUploads io st of
        (st', n, Some err) \<Rightarrow> (st', Flash ''/collection'' [] (''Upload: '' @ err))
      | (st', n, None) \<Rightarrow>
          (st', if n = 0 then Flash ''/collection'' [] ''No rows selected''
                else Flash ''/collection'' (''Queued '' @ itoa (int n) @ '' row(s) for upload.'') []))"

section \<open>What a scan finds\<close>

definition candidate :: "coll_env \<Rightarrow> string \<Rightarrow> fpath \<times> fnode \<Rightarrow> bool" where
  "candidate e dir v \<longleftrightarrow> \<not> is_dir (snd v) \<and> coll_ext (base_of (path_base dir) (fst v)) \<in> set collectionVideoExts
     \<and> CE_Info e (fst v) \<and> lsize (snd v) \<noteq> 0"

definition tree_rows :: "coll_env \<Rightarrow> string \<Rightarrow> fnode \<Rightarrow> CollectionItem list" where
  "tree_rows e dir t =
     sort_key CI_RelPath (map (\<lambda>v. coll_row e dir (fst v) (snd v)) (filter (candidate e dir) (visits no_skip [] t)))"

definition tree_files :: "fnode \<Rightarrow> (fpath \<times> fnode) list" where
  "tree_files t = filter (\<lambda>v. \<not> is_dir (snd v)) (visits no_skip [] t)"

lemma obeys_coll_cb: "obeys no_skip (coll_cb e dir)"
  by (auto simp: obeys_def no_skip_def coll_cb_def)

lemma coll_cb_file:
  assumes "\<not> is_dir n" and "\<not> CE_WalkStop e k"
  shows "coll_cb e dir (k, acc) p n =
    ((Suc k, acc @ (if candidate e dir (p, n) then [coll_row e dir p n] else [])), WNil)"
  using assms not_dir_no_err [OF assms(1)] by (simp add: coll_cb_def candidate_def)

lemma coll_cb_dir: "is_dir n \<Longrightarrow> coll_cb e dir s p n = (s, WNil) \<and> \<not> candidate e dir (p, n)"
  by (auto simp: coll_cb_def candidate_def)

lemma coll_walk_seq:
  "walk_seq (coll_cb e dir) (k, acc) vs =
     (let m = length (filter (\<lambda>v. \<not> is_dir (snd v)) vs)
      in if \<forall>j < m. \<not> CE_WalkStop e (k + j)
         then ((k + m, acc @ map (\<lambda>v. coll_row e dir (fst v) (snd v)) (filter (candidate e dir) vs)), WNil)
         else (fst (walk_seq (coll_cb e dir) (k, acc) vs), WErr ''context canceled''))"
proof (induction vs arbitrary: k acc)
  case Nil
  then show ?case by simp
next
  case (Cons v vs)
  obtain p n where v: "v = (p, n)" by fastforce
  consider "is_dir n" | "\<not> is_dir n" "CE_WalkStop e k" | "\<not> is_dir n" "\<not> CE_WalkStop e k" by blast
  then show ?case
  proof cases
    case 1
    then show ?thesis using Cons.IH [of k acc] coll_cb_dir [OF 1, of e dir "(k, acc)" p] by (simp add: v Let_def)
  next
    case 2
    then have "coll_cb e dir (k, acc) p n = ((k, acc), WErr ''context canceled'')"
      using not_dir_no_err [of n] by (simp add: coll_cb_def)
    then show ?thesis using 2 by (auto simp: v Let_def intro: exI [of _ 0])
  next
    case 3
    have all: "(\<forall>j < Suc m. \<not> CE_WalkStop e (k + j)) \<longleftrightarrow> (\<forall>j < m. \<not> CE_WalkStop e (Suc k + j))" for m
      using 3(2) by (auto simp: less_Suc_eq_0_disj)
    show ?thesis
      using 3 Cons.IH [of "Suc k" "acc @ (if candidate e dir (p, n) then [coll_row e dir p n] else [])"]
      by (simp add: v coll_cb_file Let_def all [simplified] del: all_simps)
  qed
qed

lemma coll_walk_iff:
  "coll_walk e dir =
     (case CE_fs e dir of
        None \<Rightarrow> Inr []
      | Some t \<Rightarrow> if \<forall>j < length (tree_files t). \<not> CE_WalkStop e j then Inr (tree_rows e dir t)
                  else Inl ''context canceled'')"
proof (cases "CE_fs e dir")
  case (Some t)
  let ?w = "walk_seq (coll_cb e dir) (0, []) (visits no_skip [] t)"
  let ?go = "\<forall>j < length (tree_files t). \<not> CE_WalkStop e j"
  have seq: "?w = (if ?go
      then ((length (tree_files t), map (\<lambda>v. coll_row e dir (fst v) (snd v)) (filter (candidate e dir) (visits no_skip [] t))), WNil)
      else (fst ?w, WErr ''context canceled''))"
    using coll_walk_seq [of e dir 0 "[]" "visits no_skip [] t"] unfolding tree_files_def Let_def add_0 append_Nil .
  have walk: "coll_walk e dir = (case ?w of (s, r) \<Rightarrow>
      (case (s, if r = WSkipAll then WNil else r) of
         (s, WErr err) \<Rightarrow> Inl err | (s, _) \<Rightarrow> Inr (sort_key CI_RelPath (snd s))))"
    by (simp add: coll_walk_def Some file_walk_seq [OF obeys_coll_cb] split: prod.splits)
  show ?thesis
  proof (cases ?go)
    case True
    show ?thesis unfolding walk trans [OF seq if_P [OF True]] using True by (simp add: Some tree_rows_def)
  next
    case False
    note s = trans [OF seq if_not_P [OF False]]
    show ?thesis unfolding walk by (subst s) (use False in \<open>simp add: Some\<close>)
  qed
qed (simp add: coll_walk_def)

lemma tree_rows_iff:
  assumes "wf_tree t"
  shows "it \<in> set (tree_rows e dir t) \<longleftrightarrow>
    (\<exists>p n. file_at t p = Some n \<and> candidate e dir (p, n) \<and> it = coll_row e dir p n)"
proof -
  have 1: "(p, n) \<in> set (visits no_skip [] t) \<and> \<not> is_dir n \<longleftrightarrow> file_at t p = Some n" for p n
    using visits_file_at(1) [OF assms, of "[]" p n no_skip] by (simp add: no_skip_def)
  have 2: "(p, n) \<in> set (visits no_skip [] t) \<and> candidate e dir (p, n) \<longleftrightarrow> file_at t p = Some n \<and> candidate e dir (p, n)"
    for p n
  proof -
    have "candidate e dir (p, n) \<Longrightarrow> \<not> is_dir n" by (simp add: candidate_def)
    then show ?thesis using 1 [of p n] by blast
  qed
  have "it \<in> set (tree_rows e dir t) \<longleftrightarrow>
      (\<exists>p n. (p, n) \<in> set (visits no_skip [] t) \<and> candidate e dir (p, n) \<and> it = coll_row e dir p n)"
    unfolding tree_rows_def by (simp only: set_sort set_map set_filter) (auto simp: image_iff)
  then show ?thesis using 2 by metis
qed

lemma tree_rows_sorted: "sorted (map CI_RelPath (tree_rows e dir t))"
  by (simp add: tree_rows_def)

text \<open>Each file has one row.\<close>

lemma tree_rows_count:
  assumes "wf_tree t"
  shows "length (tree_rows e dir t) = card {p. \<exists>n. file_at t p = Some n \<and> candidate e dir (p, n)}"
proof -
  let ?vs = "filter (candidate e dir) (visits no_skip [] t)"
  have d: "distinct (map fst ?vs)"
    using distinct_visits(1) [OF assms, of no_skip "[]"] by (simp add: distinct_map_filter)
  have "set (map fst ?vs) = {p. \<exists>n. file_at t p = Some n \<and> candidate e dir (p, n)}"
    using visits_file_at(1) [OF assms, of "[]" _ _ no_skip] by (force simp: candidate_def no_skip_def)
  then show ?thesis using distinct_card [OF d] by (simp add: tree_rows_def)
qed

section \<open>What the site adds\<close>

text \<open>The answer for a row: that of its batch at its place, if there is one.\<close>

definition batch_start :: "nat \<Rightarrow> nat" where
  "batch_start i = i div collectionBatchSize * collectionBatchSize"

definition site_row ::
  "(nat \<Rightarrow> bool) \<Rightarrow> (nat \<Rightarrow> string list \<Rightarrow> TitleMatchResult list option) \<Rightarrow> CollectionItem list \<Rightarrow> nat \<Rightarrow> CollectionItem" where
  "site_row stop site its i =
     (if \<exists>q \<le> i div collectionBatchSize. stop (q * collectionBatchSize) then its ! i
      else case site (batch_start i) (map CI_Filename (take collectionBatchSize (drop (batch_start i) its))) of
             None \<Rightarrow> its ! i
           | Some rs \<Rightarrow>
               if i mod collectionBatchSize < length rs then match_row (its ! i) (rs ! (i mod collectionBatchSize)) else its ! i)"

lemma nth_match_rows:
  "i < length its \<Longrightarrow> match_rows its rs ! i = (if i < length rs then match_row (its ! i) (rs ! i) else its ! i)"
proof (induction its rs arbitrary: i rule: match_rows.induct)
  case (1 it its r rs)
  then show ?case by (cases i) auto
qed auto

lemma filename_match_rows [simp]: "map CI_Filename (match_rows its rs) = map CI_Filename its"
  by (induction its rs rule: match_rows.induct) (auto simp: match_row_def)

lemma nth_spliced:
  assumes "start \<le> length its" and "length b = min n (length its - start)" and "i < length its"
  shows "(take start its @ b @ drop (start + n) its) ! i =
    (if i < start then its ! i else if i < start + n then b ! (i - start) else its ! i)"
  using assms by (auto simp: nth_append min_def not_less)

lemma drop_spliced:
  assumes "start \<le> length its" and "length b = min n (length its - start)"
  shows "drop (start + n) (take start its @ b @ drop (start + n) its) = drop (start + n) its"
  using assms by (auto simp: min_def)

lemma batch_div:
  assumes "q * B \<le> i" and "i < q * B + B" and "0 < (B::nat)"
  shows "i div B = q" "i mod B = i - q * B"
proof -
  show "i div B = q" using assms by (intro div_nat_eqI) (auto simp: algebra_simps)
  then show "i mod B = i - q * B" by (metis minus_div_mult_eq_mod)
qed

lemma enrich_from_length: "length (fst (enrich_from stop site start errs its)) = length its"
proof (induction stop site start errs its rule: enrich_from.induct)
  case (1 stop site start errs its)
  show ?case
  proof (cases "start < length its \<and> \<not> stop start")
    case True
    then have len: "length (take start its @ match_rows (take collectionBatchSize (drop start its)) rs
        @ drop (start + collectionBatchSize) its) = length its" for rs
      by (auto simp: min_def)
    show ?thesis
      using 1 True len
      by (subst enrich_from.simps) (auto simp: Let_def split: option.splits)
  next
    case False
    then show ?thesis by (subst enrich_from.simps) auto
  qed
qed

text \<open>The rows before the start stay, the others get the answers of their batches; the batches do not
  see each other's answers, only names.\<close>

lemma enrich_from_nth:
  assumes "start = q * collectionBatchSize" and "i < length its" and "\<forall>r < q. \<not> stop (r * collectionBatchSize)"
  shows "fst (enrich_from stop site start errs its) ! i = (if i < start then its ! i else site_row stop site its i)"
  using assms
proof (induction stop site start errs its arbitrary: q rule: enrich_from.induct)
  case (1 stop site start errs its)
  let ?B = collectionBatchSize
  have B: "0 < ?B" by (simp add: collectionBatchSize_def)
  show ?case
  proof (cases "start < length its \<and> \<not> stop start")
    case False
    have "site_row stop site its i = its ! i" if "\<not> i < start"
    proof -
      have "start < length its" using that 1(4) by simp
      then have "stop (q * ?B)" using False 1(3) by simp
      moreover have "q \<le> i div ?B" using that 1(3) B by (simp add: less_eq_div_iff_mult_less_eq)
      ultimately show ?thesis by (auto simp: site_row_def)
    qed
    then show ?thesis using False by (subst enrich_from.simps) auto
  next
    case True
    define batch where "batch = take ?B (drop start its)"
    have next_start: "start + ?B = Suc q * ?B" using 1(3) by simp
    have live: "\<forall>r < Suc q. \<not> stop (r * ?B)" using 1(5) True 1(3) by (auto simp: less_Suc_eq)
    have dm: "i div ?B = q" "i mod ?B = i - start" "batch_start i = start" if "start \<le> i" "i < start + ?B"
      using batch_div [of q ?B i] that 1(3) B by (simp_all add: batch_start_def)
    have no_stop: "\<not> (\<exists>r \<le> i div ?B. stop (r * ?B))" if "start \<le> i" "i < start + ?B"
      using live dm(1) [OF that] by (auto simp: less_Suc_eq_le)
    show ?thesis
    proof (cases "site start (map CI_Filename batch)")
      case None
      then have eq: "enrich_from stop site start errs its = enrich_from stop site (start + ?B) (Suc errs) its"
        using True by (subst enrich_from.simps) (simp add: batch_def Let_def)
      have IH: "fst (enrich_from stop site (start + ?B) (Suc errs) its) ! i =
          (if i < start + ?B then its ! i else site_row stop site its i)"
        using 1(1) [OF _ _ batch_def _ next_start 1(4) live] True None by simp
      have "site_row stop site its i = its ! i" if "start \<le> i" "i < start + ?B"
        using no_stop [OF that] dm [OF that] None by (simp add: site_row_def batch_def)
      then show ?thesis using IH by (auto simp: eq)
    next
      case (Some rs)
      define its' where "its' = take start its @ match_rows batch rs @ drop (start + ?B) its"
      have eq: "enrich_from stop site start errs its = enrich_from stop site (start + ?B) errs its'"
        using True Some by (subst enrich_from.simps) (simp add: batch_def its'_def Let_def)
      have lb: "length (match_rows batch rs) = min ?B (length its - start)" by (simp add: batch_def min.commute)
      have st: "start \<le> length its" using True by simp
      have len: "length its' = length its" using lb st by (auto simp: its'_def min_def)
      have i': "i < length its'" using 1(4) len by simp
      have IH: "fst (enrich_from stop site (start + ?B) errs its') ! i =
          (if i < start + ?B then its' ! i else site_row stop site its' i)"
        using 1(2) [OF _ _ batch_def _ next_start _ live] True Some i' by (simp add: its'_def)
      have nth': "its' ! i = (if i < start then its ! i else if i < start + ?B then match_rows batch rs ! (i - start) else its ! i)"
        unfolding its'_def by (rule nth_spliced [OF st lb 1(4)])
      have later: "site_row stop site its' i = site_row stop site its i" if "\<not> i < start + ?B"
      proof -
        have "Suc q \<le> i div ?B" using that next_start B by (simp add: less_eq_div_iff_mult_less_eq)
        then have "start + ?B \<le> batch_start i" using next_start by (simp add: batch_start_def del: mult_Suc)
        then obtain m where m: "batch_start i = m + (start + ?B)" using le_Suc_ex by (metis add.commute)
        have "drop (batch_start i) its' = drop (batch_start i) its"
          using drop_spliced [OF st lb] unfolding m its'_def by (metis drop_drop)
        moreover have "its' ! i = its ! i" using nth' that by simp
        ultimately show ?thesis by (simp only: site_row_def)
      qed
      have here: "match_rows batch rs ! (i - start) = site_row stop site its i" if "start \<le> i" "i < start + ?B"
      proof -
        have "i - start < length batch" using that 1(4) by (auto simp: batch_def)
        moreover have "batch ! (i - start) = its ! i" using that 1(4) by (simp add: batch_def)
        ultimately show ?thesis
          using no_stop [OF that] dm [OF that] Some by (auto simp: site_row_def nth_match_rows batch_def)
      qed
      show ?thesis using IH nth' later here by (auto simp: eq)
    qed
  qed
qed

lemma enrich_rows: "fst (enrich e site its) = map (site_row (CE_EnrichStop e) site its) [0..<length its]"
proof (rule nth_equalityI)
  have f: "fst (enrich e site its) = fst (enrich_from (CE_EnrichStop e) site 0 0 its)"
    by (simp add: enrich_def split: prod.splits option.splits)
  show "length (fst (enrich e site its)) = length (map (site_row (CE_EnrichStop e) site its) [0..<length its])"
    by (simp add: f enrich_from_length)
  fix i assume "i < length (fst (enrich e site its))"
  then have "i < length its" by (simp add: f enrich_from_length)
  then show "fst (enrich e site its) ! i = map (site_row (CE_EnrichStop e) site its) [0..<length its] ! i"
    using enrich_from_nth [of 0 0 i its "CE_EnrichStop e" site 0] by (simp add: f)
qed

section \<open>What every snapshot satisfies\<close>

definition row_ok :: "CollectionItem \<Rightarrow> bool" where
  "row_ok it \<longleftrightarrow> CI_Ext it \<in> set collectionVideoExts \<and> CI_SizeBytes it > 0
     \<and> (CI_UploadStatus it = [] \<and> CI_UploadDetail it = []
        \<or> CI_UploadStatus it = ''queued'' \<and> CI_UploadDetail it = ''Waiting for upload worker'')"

definition snap_ok :: "CollectionSnapshot \<Rightarrow> bool" where
  "snap_ok s \<longleftrightarrow> CS_TotalCount s = length (CS_Items s) \<and> distinct (map fst (CS_FolderOverrides s))
     \<and> (\<forall>it \<in> set (CS_Items s). row_ok it)"

text \<open>A row without what the operator may change.\<close>

definition scanned :: "CollectionItem \<Rightarrow> CollectionItem" where
  "scanned it = it\<lparr>CI_OverrideAID := 0, CI_OverrideResolution := [], CI_OverrideSource := [],
     CI_OverrideSeason := [], CI_OverrideEpisode := [], CI_Selected := False\<rparr>"

lemma row_ok_scanned: "row_ok (scanned it) = row_ok it"
  by (simp add: row_ok_def scanned_def)

text \<open>The contract of an operator's edit.\<close>

locale operator_edit =
  fixes edit :: "CollectionSnapshot \<Rightarrow> string + CollectionSnapshot"
  assumes rows_kept: "edit s = Inr s' \<Longrightarrow> map scanned (CS_Items s') = map scanned (CS_Items s)"
    and scan_kept: "edit s = Inr s' \<Longrightarrow> CS_ScanRoot s' = CS_ScanRoot s \<and> CS_ScannedAt s' = CS_ScannedAt s
      \<and> CS_TotalCount s' = CS_TotalCount s"
    and keys_kept: "edit s = Inr s' \<Longrightarrow> distinct (map fst (CS_FolderOverrides s))
      \<Longrightarrow> distinct (map fst (CS_FolderOverrides s'))"
begin

lemma edit_ok: "edit s = Inr s' \<Longrightarrow> snap_ok s \<Longrightarrow> snap_ok s'"
proof -
  assume e: "edit s = Inr s'" and ok: "snap_ok s"
  note rows = rows_kept [OF e]
  have "row_ok it'" if "it' \<in> set (CS_Items s')" for it'
  proof -
    have "scanned it' \<in> scanned ` set (CS_Items s)" using rows that by (metis image_eqI set_map)
    then obtain it where "it \<in> set (CS_Items s)" "scanned it' = scanned it" by blast
    then show ?thesis using ok row_ok_scanned by (metis snap_ok_def)
  qed
  moreover have "length (CS_Items s') = length (CS_Items s)" using rows by (metis length_map)
  ultimately show "snap_ok s'" using ok scan_kept [OF e] keys_kept [OF e] by (simp add: snap_ok_def)
qed

lemma edit_cases:
  "fst (edit_snap io edit st) = st
   \<or> (\<exists>s s'. SC_Snap st = Some s \<and> edit s = Inr s' \<and> fst (edit_snap io edit st) =
        st\<lparr>SC_Snap := Some s', SC_Disk := fst (persistSnapshot io s' (SC_Disk st))\<rparr>)"
  by (auto simp: edit_snap_def split: option.splits sum.splits prod.splits)

end

lemma edit_row_some:
  "edit_row path f its = Inr its' \<Longrightarrow>
     \<exists>us it vs. its = us @ it # vs \<and> CI_Path it = path \<and> path \<notin> CI_Path ` set us \<and> its' = us @ f it # vs"
proof (induction its arbitrary: its')
  case (Cons it its)
  show ?case
  proof (cases "CI_Path it = path")
    case True
    then show ?thesis using Cons.prems by (intro exI [of _ "[]"]) auto
  next
    case False
    then obtain r where r: "edit_row path f its = Inr r" "its' = it # r"
      using Cons.prems by (cases "edit_row path f its") auto
    from Cons.IH [OF r(1)] obtain us x vs where "its = us @ x # vs" "CI_Path x = path"
      "path \<notin> CI_Path ` set us" "r = us @ f x # vs" by blast
    then show ?thesis using False r(2) by (intro exI [of _ "it # us"] exI [of _ x] exI [of _ vs]) auto
  qed
qed simp

lemma edit_row_none: "edit_row path f its = Inl err \<longleftrightarrow> path \<notin> CI_Path ` set its \<and> err = ''path not in current snapshot''"
proof (induction its)
  case (Cons it its)
  then show ?case by (cases "edit_row path f its") auto
qed auto

lemma edit_items_some:
  assumes "edit_items path f s = Inr s'"
  obtains us it vs where "CS_Items s = us @ it # vs" "CI_Path it = path" "path \<notin> CI_Path ` set us"
    "s' = s\<lparr>CS_Items := us @ f it # vs\<rparr>"
proof -
  from assms obtain its where "edit_row path f (CS_Items s) = Inr its" "s' = s\<lparr>CS_Items := its\<rparr>"
    by (cases "edit_row path f (CS_Items s)") (auto simp: edit_items_def)
  then show ?thesis using edit_row_some that by blast
qed

lemma operator_edit_items:
  assumes "\<And>it. scanned (f it) = scanned it"
  shows "operator_edit (edit_items path f)"
  by unfold_locales (auto elim!: edit_items_some simp: assms)

interpretation override_edit: operator_edit "edit_items path (override_row aid resolution src season episode)"
  by (rule operator_edit_items) (simp add: scanned_def override_row_def)

interpretation select_edit: operator_edit "edit_items path (\<lambda>it. it\<lparr>CI_Selected := selected\<rparr>)"
  by (rule operator_edit_items) (simp add: scanned_def)

interpretation folder_edit: operator_edit "override_folder folder aid season resolution src"
  by unfold_locales
    (auto simp: override_folder_def Let_def distinct_update distinct_delete split: if_splits)

interpretation mark_edit: operator_edit "mark_folder folder selected"
  by unfold_locales (auto simp: mark_folder_def distinct_update)

lemma fst_queue_folders: "map fst (map (\<lambda>(k, f). (k, f\<lparr>FO_Selected := False\<rparr>)) m) = map fst m"
  by (induction m) auto

lemma queue_rows_ok: "snap_ok s \<Longrightarrow> snap_ok (queue_rows s)"
  unfolding snap_ok_def queue_rows_def
  by (auto simp: row_ok_def queue_row_def fst_queue_folders simp del: map_map)

lemma coll_apply_cases:
  assumes "\<forall>s. SC_Snap st = Some s \<longrightarrow> snap_ok s"
  shows "coll_apply io op st = st
    \<or> (\<exists>s' d. snap_ok s' \<and> SC_Snap st \<noteq> None \<and> coll_apply io op st = st\<lparr>SC_Snap := Some s', SC_Disk := d\<rparr>
         \<and> (d = SC_Disk st \<or> d = fst (persistSnapshot io s' (SC_Disk st))))"
proof (cases op)
  case (OpOverride path aid resolution src season episode)
  then show ?thesis
    using override_edit.edit_cases [of io path aid resolution src season episode st] assms override_edit.edit_ok
    by (fastforce simp: UpdateOverrides_def)
next
  case (OpSelect path selected)
  then show ?thesis
    using select_edit.edit_cases [of io path selected st] assms select_edit.edit_ok by (fastforce simp: SetSelected_def)
next
  case (OpFolder folder aid season resolution src)
  then show ?thesis
    using folder_edit.edit_cases [of io folder aid season resolution src st] assms folder_edit.edit_ok
    by (fastforce simp: SetFolderOverride_def)
next
  case (OpSelectFolder folder selected)
  then show ?thesis
    using mark_edit.edit_cases [of io folder selected st] assms mark_edit.edit_ok by (fastforce simp: SelectFolder_def)
next
  case OpQueue
  show ?thesis
  proof (cases "SC_Snap st")
    case (Some s)
    then have ok: "snap_ok (queue_rows s)" using assms queue_rows_ok by blast
    have "coll_apply io op st = st\<lparr>SC_Snap := Some (queue_rows s)\<rparr>
        \<or> coll_apply io op st = st\<lparr>SC_Snap := Some (queue_rows s), SC_Disk := fst (persistSnapshot io (queue_rows s) (SC_Disk st))\<rparr>"
      using Some by (auto simp: OpQueue QueueSelectedUploads_def Let_def split: prod.splits option.splits)
    then show ?thesis
    proof
      assume "coll_apply io op st = st\<lparr>SC_Snap := Some (queue_rows s)\<rparr>"
      then show ?thesis using ok Some by (intro disjI2 exI [of _ "queue_rows s"] exI [of _ "SC_Disk st"]) simp
    next
      assume "coll_apply io op st = st\<lparr>SC_Snap := Some (queue_rows s), SC_Disk := fst (persistSnapshot io (queue_rows s) (SC_Disk st))\<rparr>"
      then show ?thesis using ok Some by blast
    qed
  qed (simp add: OpQueue QueueSelectedUploads_def)
qed

section \<open>The file keeps it\<close>

lemma json_words:
  "json_text [] = []" "json_text ''queued'' = ''queued''"
  "json_text ''Waiting for upload worker'' = ''Waiting for upload worker''"
  by code_simp+

lemma json_exts: "x \<in> set collectionVideoExts \<Longrightarrow> json_text x = x"
proof -
  have "list_all (\<lambda>x. json_text x = x) collectionVideoExts" by code_simp
  then show "x \<in> set collectionVideoExts \<Longrightarrow> json_text x = x" by (simp add: list_all_iff)
qed

lemma row_ok_json: "row_ok it \<Longrightarrow> row_ok (json_item it)"
  using json_exts [of "CI_Ext it"] by (auto simp: row_ok_def json_item_def json_words)

lemma distinct_json_folders: "distinct (map fst (json_folders m))"
proof -
  have "distinct (map fst acc) \<Longrightarrow>
      distinct (map fst (foldl (\<lambda>acc kv. AList.update (json_text (fst kv)) (json_folder (snd kv)) acc) acc xs))" for acc xs
    by (induction xs arbitrary: acc) (simp_all add: distinct_update)
  then show ?thesis by (simp add: json_folders_def)
qed

lemma snap_ok_json: "snap_ok s \<Longrightarrow> snap_ok (json_snap s)"
  using row_ok_json by (auto simp: snap_ok_def json_snap_def distinct_json_folders)

lemma snap_ok_fresh:
  assumes "\<And>it. it \<in> set its \<Longrightarrow> row_ok it"
  shows "snap_ok (fresh_snap e dir its)"
  using assms by (simp add: snap_ok_def fresh_snap_def)

lemma row_ok_coll_row: "candidate e dir (p, n) \<Longrightarrow> row_ok (coll_row e dir p n)"
  by (auto simp: candidate_def row_ok_def coll_row_def)

lemma row_ok_site_row: "row_ok (its ! i) \<Longrightarrow> row_ok (site_row stop site its i)"
  by (auto simp: site_row_def row_ok_def match_row_def split: option.splits)

lemma collect_some:
  assumes "collect e site cfg_root = Inr (s, err)"
  shows "\<exists>t its. CE_fs e (trim_space cfg_root) = Some t \<and> coll_walk e (trim_space cfg_root) = Inr its
    \<and> s = fresh_snap e (trim_space cfg_root) (case site of None \<Rightarrow> its | Some f \<Rightarrow> fst (enrich e f its))"
proof (cases "coll_walk e (trim_space cfg_root)")
  case (Inl x)
  then show ?thesis using assms by (simp add: collect_def Let_def split: if_splits option.splits)
next
  case (Inr its)
  obtain t where t: "CE_fs e (trim_space cfg_root) = Some t"
    using assms by (cases "CE_fs e (trim_space cfg_root)") (simp_all add: collect_def Let_def split: if_splits)
  have "s = fresh_snap e (trim_space cfg_root) (case site of None \<Rightarrow> its | Some f \<Rightarrow> fst (enrich e f its))"
    using assms Inr by (cases site) (simp_all add: collect_def Let_def split: if_splits option.splits prod.splits)
  then show ?thesis using t Inr by blast
qed

lemma collect_ok:
  assumes "collect e site cfg_root = Inr (s, err)"
  shows "snap_ok s"
proof -
  from collect_some [OF assms] obtain its where w: "coll_walk e (trim_space cfg_root) = Inr its"
    and s: "s = fresh_snap e (trim_space cfg_root) (case site of None \<Rightarrow> its | Some f \<Rightarrow> fst (enrich e f its))"
    by blast
  have its: "row_ok it" if "it \<in> set its" for it
    using w that by (auto simp: coll_walk_iff tree_rows_def row_ok_coll_row split: option.splits if_splits)
  have "row_ok it" if "it \<in> set (fst (enrich e f its))" for it f
    using that its row_ok_site_row by (auto simp: enrich_rows)
  then show ?thesis unfolding s using its by (intro snap_ok_fresh) (auto split: option.splits)
qed

section \<open>Every run\<close>

fun doc_ok :: "coll_doc option \<Rightarrow> bool" where
  "doc_ok (Some (Whole s)) = snap_ok s"
| "doc_ok d = True"

fun flight_ok :: "coll_state \<Rightarrow> coll_flight \<Rightarrow> bool" where
  "flight_ok st Idle = True"
| "flight_ok st Walking = True"
| "flight_ok st (Encoded doc) = (SC_Snap st \<noteq> None \<and> snap_ok doc)"
| "flight_ok st (Opened doc) = (SC_Snap st \<noteq> None \<and> snap_ok doc)"
| "flight_ok st fl = (SC_Snap st \<noteq> None)"

definition coll_ok :: "coll_state \<Rightarrow> coll_flight \<Rightarrow> bool" where
  "coll_ok st fl \<longleftrightarrow> (\<forall>s. SC_Snap st = Some s \<longrightarrow> snap_ok s)
     \<and> doc_ok (D_Store (SC_Disk st)) \<and> doc_ok (D_Tmp (SC_Disk st))
     \<and> (SC_Scanning st \<longleftrightarrow> fl \<noteq> Idle) \<and> flight_ok st fl"

definition disk_ok :: "coll_disk \<Rightarrow> bool" where
  "disk_ok d \<longleftrightarrow> doc_ok (D_Store d) \<and> doc_ok (D_Tmp d)"

lemma start_ok: "disk_ok d \<Longrightarrow> coll_ok (NewCollectionScanner d) Idle"
  by (cases "D_Store d" rule: loadSnapshot.cases)
    (auto simp: NewCollectionScanner_def coll_ok_def disk_ok_def)

lemma rename_ok: "disk_ok d \<Longrightarrow> rename_tmp d = Some d' \<Longrightarrow> disk_ok d'"
  by (auto simp: rename_tmp_def disk_ok_def split: option.splits)

lemma persist_ok: "disk_ok d \<Longrightarrow> snap_ok s \<Longrightarrow> disk_ok (fst (persistSnapshot io s d))"
  using snap_ok_json [of s] rename_ok [of "d\<lparr>D_Tmp := Some (Whole (json_snap s))\<rparr>"]
  by (auto simp: persistSnapshot_def Let_def disk_ok_def split: write_res.splits option.splits)

lemma crash_ok: "disk_ok d \<Longrightarrow> snap_ok s \<Longrightarrow> d' \<in> set (persist_crashes s d) \<Longrightarrow> disk_ok d'"
  using persist_ok [of d s io_ok] snap_ok_json [of s] by (auto simp: persist_crashes_def disk_ok_def)

lemma write_ok: "disk_ok d \<Longrightarrow> doc_ok (Some x) \<Longrightarrow> disk_ok (scan_write x d)"
  by (auto simp: scan_write_def disk_ok_def written_def split: option.splits open_file.splits)

lemma coll_ok_disk: "coll_ok st fl \<longleftrightarrow> (\<forall>s. SC_Snap st = Some s \<longrightarrow> snap_ok s) \<and> disk_ok (SC_Disk st)
    \<and> (SC_Scanning st \<longleftrightarrow> fl \<noteq> Idle) \<and> flight_ok st fl"
  by (auto simp: coll_ok_def disk_ok_def)

lemma snap_setLastErr [simp]:
  "SC_Snap (setLastErr err st) = SC_Snap st" "SC_Disk (setLastErr err st) = SC_Disk st"
  "SC_Scanning (setLastErr err st) = SC_Scanning st"
  by (simp_all add: setLastErr_def split: option.splits)

lemma snap_scan_steps [simp]:
  "SC_Snap (scan_end st) = SC_Snap st" "SC_Disk (scan_end st) = SC_Disk st" "\<not> SC_Scanning (scan_end st)"
  "SC_Snap (scan_persisted r st) = SC_Snap st" "SC_Disk (scan_persisted r st) = fst r"
  "SC_Scanning (scan_persisted r st) = SC_Scanning st"
  "SC_Snap (scan_publish s err st) = Some s" "SC_Disk (scan_publish s err st) = SC_Disk st"
  "SC_Scanning (scan_publish s err st) = SC_Scanning st"
  by (simp_all add: scan_end_def scan_persisted_def scan_publish_def)

lemma flight_ok_snap: "flight_ok st fl \<Longrightarrow> (SC_Snap st \<noteq> None \<longrightarrow> SC_Snap st' \<noteq> None) \<Longrightarrow> flight_ok st' fl"
  by (cases fl) auto

lemma coll_step_ok:
  "coll_step a s s' \<Longrightarrow> coll_ok (fst s) (snd s) \<Longrightarrow> coll_ok (fst s') (snd s')"
proof (induction rule: coll_step.induct)
  case (step_begin st st')
  then show ?case by (auto simp: coll_ok_def scan_begin_def split: if_splits)
next
  case (step_publish e site cfg_root snap err st)
  then show ?case using collect_ok by (auto simp: coll_ok_def)
next
  case (step_encode st snap)
  then show ?case using snap_ok_json by (auto simp: coll_ok_def)
next
  case (step_write st doc)
  then show ?case using write_ok [of "SC_Disk st" "Whole doc"] by (auto simp: coll_ok_disk)
next
  case (step_short st doc)
  then show ?case using write_ok [of "SC_Disk st" Torn] by (auto simp: coll_ok_disk)
next
  case (step_rename st)
  then show ?case
    using rename_ok by (auto simp: coll_ok_disk scan_rename_def split: option.splits)
next
  case (step_edit st fl io op)
  then have c: "coll_ok st fl" by simp
  have ok: "\<forall>s. SC_Snap st = Some s \<longrightarrow> snap_ok s" using c by (simp add: coll_ok_def)
  have k: "disk_ok (SC_Disk st)" using c by (simp add: coll_ok_disk)
  from coll_apply_cases [of st io op, OF ok] show ?case
  proof (elim disjE)
    assume "coll_apply io op st = st"
    then show ?thesis using c by simp
  next
    assume "\<exists>s' d. snap_ok s' \<and> SC_Snap st \<noteq> None \<and> coll_apply io op st = st\<lparr>SC_Snap := Some s', SC_Disk := d\<rparr>
      \<and> (d = SC_Disk st \<or> d = fst (persistSnapshot io s' (SC_Disk st)))"
    then obtain s' d where s': "snap_ok s'" "SC_Snap st \<noteq> None"
      and r: "coll_apply io op st = st\<lparr>SC_Snap := Some s', SC_Disk := d\<rparr>"
      and d: "d = SC_Disk st \<or> d = fst (persistSnapshot io s' (SC_Disk st))" by blast
    have "disk_ok d" using d k persist_ok [OF k s'(1)] by blast
    moreover have "flight_ok (coll_apply io op st) fl" using c flight_ok_snap [of st fl] by (simp add: coll_ok_def r)
    ultimately show ?thesis using c s' by (simp add: coll_ok_disk r)
  qed
next
  case (step_crash io op st snap d fl)
  have ok: "\<forall>s. SC_Snap st = Some s \<longrightarrow> snap_ok s" using step_crash by (simp add: coll_ok_def)
  have snap: "snap_ok snap" using coll_apply_cases [of st io op, OF ok] step_crash(1) ok by auto
  have "disk_ok (SC_Disk st)" using step_crash(3) by (simp add: coll_ok_disk)
  then have "disk_ok d" using crash_ok snap step_crash(2) by blast
  then show ?case using start_ok by simp
next
  case (step_restart st fl)
  then show ?case using start_ok by (auto simp: coll_ok_disk)
qed (auto simp: coll_ok_disk scan_open_def disk_ok_def)

section \<open>The store file stays whole\<close>

fun whole :: "coll_doc option \<Rightarrow> bool" where
  "whole None = True"
| "whole (Some (Whole s)) = True"
| "whole d = False"

fun in_hand :: "coll_flight \<Rightarrow> coll_disk \<Rightarrow> bool" where
  "in_hand (Opened doc) d = (D_Tmp d = Some Empty \<and> D_Scan d = Some AtTmp)"
| "in_hand Written d = (D_Tmp d \<noteq> None \<and> whole (D_Tmp d) \<and> D_Scan d = None)"
| "in_hand fl d = (D_Scan d = None)"

definition calm_ok :: "coll_disk \<Rightarrow> coll_flight \<Rightarrow> bool" where
  "calm_ok d fl \<longleftrightarrow> whole (D_Store d) \<and> in_hand fl d"

lemma persist_calm:
  assumes "whole (D_Store d)" and "D_Scan d = None"
  shows "whole (D_Store (fst (persistSnapshot io s d))) \<and> D_Scan (fst (persistSnapshot io s d)) = None"
  using assms by (auto simp: persistSnapshot_def rename_tmp_def Let_def split: write_res.splits)

lemma crash_calm:
  assumes "whole (D_Store d)" and "D_Scan d = None" and "d' \<in> set (persist_crashes s d)"
  shows "whole (D_Store d')"
  using assms persist_calm [OF assms(1,2), of io_ok s] by (auto simp: persist_crashes_def)

lemma start_calm: "whole (D_Store d) \<Longrightarrow> calm_ok (SC_Disk (NewCollectionScanner d)) Idle"
  by (simp add: calm_ok_def NewCollectionScanner_def)

lemma not_writing: "\<not> writing fl \<Longrightarrow> in_hand fl d \<longleftrightarrow> D_Scan d = None"
  by (cases fl) auto

lemma coll_step_calm:
  "coll_step a s s' \<Longrightarrow> \<not> (a = ByOperator \<and> writing (snd s)) \<Longrightarrow> coll_ok (fst s) (snd s)
   \<Longrightarrow> calm_ok (SC_Disk (fst s)) (snd s) \<Longrightarrow> calm_ok (SC_Disk (fst s')) (snd s')"
proof (induction rule: coll_step.induct)
  case (step_begin st st')
  then show ?case by (auto simp: scan_begin_def calm_ok_def split: if_splits)
next
  case (step_edit st fl io op)
  then have d: "whole (D_Store (SC_Disk st))" "D_Scan (SC_Disk st) = None"
    by (simp_all add: calm_ok_def not_writing)
  have ok: "\<forall>s. SC_Snap st = Some s \<longrightarrow> snap_ok s" using step_edit(2) by (simp add: coll_ok_def)
  have "whole (D_Store (SC_Disk (coll_apply io op st))) \<and> D_Scan (SC_Disk (coll_apply io op st)) = None"
    using coll_apply_cases [of st io op, OF ok] d persist_calm [OF d] by auto
  then show ?case using step_edit(1) by (simp add: calm_ok_def not_writing)
next
  case (step_crash io op st snap d fl)
  then have d: "whole (D_Store (SC_Disk st))" "D_Scan (SC_Disk st) = None"
    by (simp_all add: calm_ok_def not_writing)
  show ?case using start_calm [OF crash_calm [OF d step_crash(2)]] by simp
next
  case (step_restart st fl)
  then show ?case using start_calm by (simp add: calm_ok_def)
qed (auto simp: calm_ok_def scan_open_def scan_write_def scan_rename_def rename_tmp_def written_def split: option.splits)

lemma reach_ok: "coll_reach calm d0 s \<Longrightarrow> disk_ok d0 \<Longrightarrow> coll_ok (fst s) (snd s)"
proof (induction rule: coll_reach.induct)
  case reach_start
  then show ?case using start_ok by simp
next
  case (reach_step s a s')
  then show ?case using coll_step_ok by blast
qed

lemma reach_calm:
  "coll_reach calm d0 s \<Longrightarrow> calm \<Longrightarrow> disk_ok d0 \<Longrightarrow> whole (D_Store d0) \<Longrightarrow> calm_ok (SC_Disk (fst s)) (snd s)"
proof (induction rule: coll_reach.induct)
  case reach_start
  then show ?case using start_calm by simp
next
  case (reach_step s a s')
  then show ?case using coll_step_calm reach_ok by blast
qed

text \<open>
  C17. In every run of scans, edits, crashes and restarts in which no edit falls into the write
  of a scan the snapshot file is absent or whole, and every snapshot holds only wanted files,
  in the counted number, each untouched or queued.
\<close>

theorem collection_store_whole:
  assumes "coll_reach True d0 (st, fl)" and "disk_ok d0" and "whole (D_Store d0)"
  shows "(D_Store (SC_Disk st) = None \<or> (\<exists>s. D_Store (SC_Disk st) = Some (Whole s) \<and> snap_ok s))
    \<and> (case SC_Snap st of None \<Rightarrow> True | Some s \<Rightarrow> snap_ok s) \<and> (SC_Scanning st \<longleftrightarrow> fl \<noteq> Idle)"
proof -
  have "whole (D_Store (SC_Disk st))" using reach_calm [OF assms(1) TrueI assms(2,3)] by (simp add: calm_ok_def)
  moreover have "coll_ok st fl" using reach_ok [OF assms(1,2)] by simp
  ultimately show ?thesis
    by (cases "D_Store (SC_Disk st)" rule: whole.cases) (auto simp: coll_ok_def split: option.splits)
qed

section \<open>What the operations do\<close>

lemma persist_ok_store:
  "persistSnapshot io s d = (d', None) \<Longrightarrow> D_Store d' = Some (Whole (json_snap s)) \<and> D_Tmp d' = None"
  by (auto simp: persistSnapshot_def rename_tmp_def Let_def split: if_splits write_res.splits option.splits)

text \<open>
  C18. A scan without an error leaves exactly one row for each video file of the tree, in order,
  with what the site answered for it, in memory and in the file.
\<close>

theorem Scan_exact:
  assumes "Scan e io site r st = (st', None)" and "CE_fs e (trim_space r) = Some t" and "wf_tree t"
  shows "\<exists>rows s. SC_Snap st' = Some s \<and> D_Store (SC_Disk st') = Some (Whole (json_snap s)) \<and> \<not> SC_Scanning st'
    \<and> sorted (map CI_RelPath rows)
    \<and> set rows = {coll_row e (trim_space r) p n | p n. file_at t p = Some n \<and> candidate e (trim_space r) (p, n)}
    \<and> length rows = card {p. \<exists>n. file_at t p = Some n \<and> candidate e (trim_space r) (p, n)}
    \<and> CS_Items s = (case site of None \<Rightarrow> rows | Some f \<Rightarrow> map (site_row (CE_EnrichStop e) f rows) [0..<length rows])
    \<and> CS_TotalCount s = length rows"
proof -
  obtain st1 where b: "scan_begin st = Some st1" using assms(1) by (auto simp: Scan_def split: option.splits)
  obtain s err where c: "collect e site r = Inr (s, err)"
    using assms(1) b by (auto simp: Scan_def split: sum.splits)
  obtain d where p: "persistSnapshot io s (SC_Disk (scan_publish s err st1)) = (d, None)"
    and st': "st' = scan_end (scan_persisted (d, None) (scan_publish s err st1))"
    using assms(1) b c by (auto simp: Scan_def Let_def) (metis prod.collapse)
  from collect_some [OF c] assms(2) obtain its where w: "coll_walk e (trim_space r) = Inr its"
    and s: "s = fresh_snap e (trim_space r) (case site of None \<Rightarrow> its | Some f \<Rightarrow> fst (enrich e f its))" by auto
  have its: "its = tree_rows e (trim_space r) t" using w assms(2) by (simp add: coll_walk_iff split: if_splits)
  have "SC_Snap st' = Some s \<and> D_Store (SC_Disk st') = Some (Whole (json_snap s)) \<and> \<not> SC_Scanning st'"
    using persist_ok_store [OF p] by (simp add: st')
  moreover have "set its = {coll_row e (trim_space r) p n | p n. file_at t p = Some n \<and> candidate e (trim_space r) (p, n)}"
    unfolding its by (intro set_eqI) (simp only: mem_Collect_eq tree_rows_iff [OF assms(3)], blast)
  moreover have "CS_Items s = (case site of None \<Rightarrow> its | Some f \<Rightarrow> map (site_row (CE_EnrichStop e) f its) [0..<length its])
      \<and> CS_TotalCount s = length its"
    unfolding s by (cases site) (simp_all add: fresh_snap_def enrich_rows)
  ultimately show ?thesis
    using tree_rows_sorted [of e "trim_space r" t] tree_rows_count [OF assms(3), of e "trim_space r"]
    unfolding its by blast
qed

lemma folder_entry_queue: "\<not> FO_Selected (folder_entry (queue_rows s) k)"
  by (auto simp: folder_entry_def queue_rows_def no_override_def split: option.splits dest!: map_of_SomeD)

lemma queue_nothing_left: "it \<in> set (CS_Items (queue_rows s)) \<Longrightarrow> \<not> picked (queue_rows s) it"
  by (auto simp: picked_def folder_entry_queue) (auto simp: queue_rows_def queue_row_def picked_def split: if_splits)

lemma queue_rows_again: "queue_rows (queue_rows s) = queue_rows s"
proof -
  have i: "CS_Items (queue_rows (queue_rows s)) = CS_Items (queue_rows s)"
    using queue_nothing_left [of _ s] by (subst queue_rows_def) (simp add: map_idI)
  have f: "CS_FolderOverrides (queue_rows (queue_rows s)) = CS_FolderOverrides (queue_rows s)"
    by (simp add: queue_rows_def comp_def split_beta)
  show ?thesis using i f by (intro CollectionSnapshot.equality) (simp_all add: queue_rows_def)
qed

text \<open>
  C19. Queueing marks exactly the rows that are selected themselves or lie directly in a selected folder,
  takes every selection of a row and of a folder back in memory and changes nothing else; queueing again
  does nothing. The result is stored if some row was queued; a click that queues none stores nothing, so
  the folder selections it took back are selected again after a restart.
\<close>

theorem QueueSelectedUploads_exact:
  assumes "SC_Snap st = Some s" and "QueueSelectedUploads io st = (st', n, None)"
  shows "(\<forall>it. picked s it \<longleftrightarrow> CI_Selected it \<or> FO_Selected (folder_entry s (FolderOf it)))
    \<and> (\<exists>s'. SC_Snap st' = Some s' \<and> n = length (filter (picked s) (CS_Items s))
    \<and> s' = s\<lparr>CS_Items := map (\<lambda>it. if picked s it then queue_row it else it) (CS_Items s),
             CS_FolderOverrides := map (\<lambda>(k, f). (k, f\<lparr>FO_Selected := False\<rparr>)) (CS_FolderOverrides s)\<rparr>
    \<and> (\<forall>it \<in> set (CS_Items s'). \<not> CI_Selected it) \<and> (\<forall>(k, f) \<in> set (CS_FolderOverrides s'). \<not> FO_Selected f)
    \<and> filter (picked s') (CS_Items s') = []
    \<and> (if n = 0 then SC_Disk st' = SC_Disk st else D_Store (SC_Disk st') = Some (Whole (json_snap s')))
    \<and> QueueSelectedUploads io st' = (st', 0, None))"
proof -
  have n: "n = length (filter (picked s) (CS_Items s))" and s': "SC_Snap st' = Some (queue_rows s)"
    and d: "if n = 0 then SC_Disk st' = SC_Disk st
      else persistSnapshot io (queue_rows s) (SC_Disk st) = (SC_Disk st', None)"
    using assms by (auto simp: QueueSelectedUploads_def Let_def split: if_splits option.splits prod.splits)
  have none: "filter (picked (queue_rows s)) (CS_Items (queue_rows s)) = []"
    using queue_nothing_left by (simp add: filter_empty_conv)
  then have again: "QueueSelectedUploads io st' = (st', 0, None)"
    using s' by (simp add: QueueSelectedUploads_def queue_rows_again)
  have rows: "\<forall>it \<in> set (CS_Items (queue_rows s)). \<not> CI_Selected it"
    using queue_nothing_left [of _ s] by (auto simp: picked_def)
  have folders: "\<forall>(k, f) \<in> set (CS_FolderOverrides (queue_rows s)). \<not> FO_Selected f"
    by (auto simp: queue_rows_def)
  have disk: "if n = 0 then SC_Disk st' = SC_Disk st else D_Store (SC_Disk st') = Some (Whole (json_snap (queue_rows s)))"
    using d persist_ok_store by (auto split: if_splits)
  show ?thesis
    by (intro conjI exI [of _ "queue_rows s"])
      (simp add: picked_def, fact s', fact n, simp only: queue_rows_def, fact rows, fact folders, fact none, fact disk, fact again)
qed

lemma persist_io_ok:
  "persistSnapshot io_ok s d =
     (d\<lparr>D_Store := Some (Whole (json_snap s)), D_Tmp := None, D_Scan := map_option moved (D_Scan d)\<rparr>, None)"
  by (simp add: persistSnapshot_def io_ok_def rename_tmp_def Let_def)

lemma edit_row_map:
  "distinct (map CI_Path its) \<Longrightarrow> path \<in> CI_Path ` set its \<Longrightarrow>
     edit_row path f its = Inr (map (\<lambda>it. if CI_Path it = path then f it else it) its)"
proof (induction its)
  case (Cons it its)
  show ?case
  proof (cases "CI_Path it = path")
    case True
    then have "map (\<lambda>it. if CI_Path it = path then f it else it) its = its"
      using Cons.prems(1) by (intro map_idI) (force simp: image_iff)
    then show ?thesis using True by simp
  next
    case False
    then show ?thesis using Cons by auto
  qed
qed simp

text \<open>
  With working storage an edit of a row changes that row and nothing else, in memory and in the file;
  for a path that is not in the snapshot it is an error that changes nothing.
\<close>

theorem UpdateOverrides_exact:
  assumes "SC_Snap st = Some s" and "distinct (map CI_Path (CS_Items s))"
  shows "UpdateOverrides io_ok path aid resolution src season episode st =
    (if path \<in> CI_Path ` set (CS_Items s)
     then (let s' = s\<lparr>CS_Items := map (\<lambda>it. if CI_Path it = path
                        then it\<lparr>CI_OverrideAID := aid, CI_OverrideResolution := trim_space resolution,
                               CI_OverrideSource := trim_space src, CI_OverrideSeason := trim_space season,
                               CI_OverrideEpisode := trim_space episode\<rparr>
                        else it) (CS_Items s)\<rparr>
           in (st\<lparr>SC_Snap := Some s', SC_Disk := fst (persistSnapshot io_ok s' (SC_Disk st))\<rparr>, None))
     else (st, Some ''path not in current snapshot''))"
proof (cases "path \<in> CI_Path ` set (CS_Items s)")
  case True
  let ?f = "\<lambda>it. it\<lparr>CI_OverrideAID := aid, CI_OverrideResolution := trim_space resolution,
      CI_OverrideSource := trim_space src, CI_OverrideSeason := trim_space season, CI_OverrideEpisode := trim_space episode\<rparr>"
  have eq: "override_row aid resolution src season episode = ?f"
    by (rule ext) (simp add: override_row_def)
  have "edit_items path ?f s = Inr (s\<lparr>CS_Items := map (\<lambda>it. if CI_Path it = path then ?f it else it) (CS_Items s)\<rparr>)"
    unfolding edit_items_def edit_row_map [OF assms(2) True] by simp
  then show ?thesis
    using True assms(1) unfolding UpdateOverrides_def eq by (simp add: edit_snap_def persist_io_ok Let_def)
next
  case False
  then have "edit_row path f (CS_Items s) = Inl ''path not in current snapshot''" for f
    using edit_row_none by blast
  then show ?thesis using False assms(1) by (simp add: UpdateOverrides_def edit_snap_def edit_items_def)
qed

lemma map_of_override:
  assumes "distinct (map fst (CS_FolderOverrides s))" and "override_folder folder aid season resolution src s = Inr s'"
  shows "(case map_of (CS_FolderOverrides s') k of None \<Rightarrow> no_override | Some f \<Rightarrow> f) =
    (if k = folder then (folder_entry s folder)\<lparr>FO_AID := aid, FO_Season := trim_space season,
       FO_Resolution := trim_space resolution, FO_Source := trim_space src\<rparr>
     else folder_entry s k)"
proof -
  have s': "s' = s\<lparr>CS_FolderOverrides := CS_FolderOverrides s'\<rparr>"
    using assms(2) by (auto simp: override_folder_def Let_def)
  show ?thesis
    using assms(2)
    by (auto simp: override_folder_def Let_def folder_entry_def update_conv' delete_conv' no_override_def
        split: if_splits option.splits)
qed

lemma cascade_entry:
  assumes "SC_Snap st = Some s" and "get no_override = None"
  shows "cascade st it get hint = (case get (folder_entry s (FolderOf it)) of None \<Rightarrow> hint | Some v \<Rightarrow> v)"
  using assms by (simp add: cascade_def folder_entry_def split: option.splits)

lemma no_override_unset:
  "set_int (FO_AID no_override) = None" "set_str (FO_Season no_override) = None"
  "set_str (FO_Resolution no_override) = None" "set_str (FO_Source no_override) = None"
  by (simp_all add: no_override_def set_int_def set_str_def)

text \<open>
  A value set for a folder is the effective one of every row of that folder that has none of its own,
  a cleared one uncovers the hint, and no other row changes.
\<close>

theorem SetFolderOverride_cascades:
  assumes "SC_Snap st = Some s" and "distinct (map fst (CS_FolderOverrides s))"
    and "SetFolderOverride io folder aid season resolution src st = (st', err)"
  shows "EffectiveAID st' it = (if CI_OverrideAID it > 0 then CI_OverrideAID it
      else if FolderOf it \<noteq> folder then EffectiveAID st it else if aid > 0 then aid else CI_AID it)"
    and "EffectiveSeason st' it = (if CI_OverrideSeason it \<noteq> [] then CI_OverrideSeason it
      else if FolderOf it \<noteq> folder then EffectiveSeason st it else trim_space season)"
    and "EffectiveResolution st' it = (if CI_OverrideResolution it \<noteq> [] then CI_OverrideResolution it
      else if FolderOf it \<noteq> folder then EffectiveResolution st it
      else if trim_space resolution \<noteq> [] then trim_space resolution else CI_ResolutionHint it)"
    and "EffectiveSource st' it = (if CI_OverrideSource it \<noteq> [] then CI_OverrideSource it
      else if FolderOf it \<noteq> folder then EffectiveSource st it else trim_space src)"
proof -
  obtain s' where o: "override_folder folder aid season resolution src s = Inr s'" and st': "SC_Snap st' = Some s'"
    using assms(1,3) by (auto simp: SetFolderOverride_def edit_snap_def override_folder_def Let_def split: prod.splits)
  have e: "folder_entry s' k = (if k = folder then (folder_entry s folder)\<lparr>FO_AID := aid, FO_Season := trim_space season,
       FO_Resolution := trim_space resolution, FO_Source := trim_space src\<rparr> else folder_entry s k)" for k
    using map_of_override [OF assms(2) o, of k] by (simp add: folder_entry_def)
  note c = cascade_entry [OF st'] cascade_entry [OF assms(1)]
  show "EffectiveAID st' it = (if CI_OverrideAID it > 0 then CI_OverrideAID it
      else if FolderOf it \<noteq> folder then EffectiveAID st it else if aid > 0 then aid else CI_AID it)"
    by (simp add: EffectiveAID_def c no_override_unset e) (simp add: set_int_def)
  show "EffectiveSeason st' it = (if CI_OverrideSeason it \<noteq> [] then CI_OverrideSeason it
      else if FolderOf it \<noteq> folder then EffectiveSeason st it else trim_space season)"
    by (simp add: EffectiveSeason_def c no_override_unset e) (simp add: set_str_def)
  show "EffectiveResolution st' it = (if CI_OverrideResolution it \<noteq> [] then CI_OverrideResolution it
      else if FolderOf it \<noteq> folder then EffectiveResolution st it
      else if trim_space resolution \<noteq> [] then trim_space resolution else CI_ResolutionHint it)"
    by (simp add: EffectiveResolution_def c no_override_unset e) (simp add: set_str_def)
  show "EffectiveSource st' it = (if CI_OverrideSource it \<noteq> [] then CI_OverrideSource it
      else if FolderOf it \<noteq> folder then EffectiveSource st it else trim_space src)"
    by (simp add: EffectiveSource_def c no_override_unset e) (simp add: set_str_def)
qed

section \<open>The folders of the page\<close>

lemma map_of_groups:
  "map_of (foldl (\<lambda>gs v. view_group s v gs) [] vs) k =
     (if k \<in> FV_Folder ` set vs
      then Some \<lparr>GV_Folder = k, GV_Override = folder_entry s k, GV_Files = filter (\<lambda>v. FV_Folder v = k) vs,
                 GV_FileCount = length (filter (\<lambda>v. FV_Folder v = k) vs)\<rparr>
      else None)"
proof (induction vs arbitrary: k rule: rev_induct)
  case (snoc v vs)
  define gs where "gs = foldl (\<lambda>gs v. view_group s v gs) [] vs"
  have IH: "map_of gs k = (if k \<in> FV_Folder ` set vs
      then Some \<lparr>GV_Folder = k, GV_Override = folder_entry s k, GV_Files = filter (\<lambda>v. FV_Folder v = k) vs,
                 GV_FileCount = length (filter (\<lambda>v. FV_Folder v = k) vs)\<rparr>
      else None)" for k
    using snoc [of k] by (simp add: gs_def)
  have none: "k \<notin> FV_Folder ` set vs \<Longrightarrow> filter (\<lambda>v. FV_Folder v = k) vs = []" for k
    by (auto simp: filter_empty_conv)
  have "map_of (view_group s v gs) k = (if k \<in> FV_Folder ` set (vs @ [v])
      then Some \<lparr>GV_Folder = k, GV_Override = folder_entry s k, GV_Files = filter (\<lambda>v. FV_Folder v = k) (vs @ [v]),
                 GV_FileCount = length (filter (\<lambda>v. FV_Folder v = k) (vs @ [v]))\<rparr>
      else None)"
  proof (cases "k = FV_Folder v")
    case True
    then show ?thesis
      by (cases "k \<in> FV_Folder ` set vs") (simp_all add: view_group_def Let_def update_conv' IH none)
  next
    case False
    then show ?thesis by (simp add: view_group_def Let_def update_conv' IH)
  qed
  then show ?case by (simp add: gs_def)
qed simp

lemma distinct_groups: "distinct (map fst (foldl (\<lambda>gs v. view_group s v gs) [] vs))"
  by (induction vs rule: rev_induct) (simp_all add: view_group_def Let_def distinct_update)

theorem page_folders:
  assumes "handleCollection st = Some (fs, folders)"
  shows "sorted (map GV_Folder folders)" and "distinct (map GV_Folder folders)"
    and "GV_Folder ` set folders = FV_Folder ` set fs"
    and "g \<in> set folders \<Longrightarrow> GV_Files g = filter (\<lambda>v. FV_Folder v = GV_Folder g) fs \<and> GV_FileCount g = length (GV_Files g)"
proof -
  obtain s where s: "SC_Snap st = Some s" and f: "fs = map (view_row st) (CS_Items s)"
    and g: "folders = sort_key GV_Folder (map snd (foldl (\<lambda>gs v. view_group s v gs) [] fs))"
    using assms by (auto simp: handleCollection_def Let_def)
  let ?gs = "foldl (\<lambda>gs v. view_group s v gs) [] fs"
  have m: "(k, x) \<in> set ?gs \<longleftrightarrow> k \<in> FV_Folder ` set fs \<and> x = \<lparr>GV_Folder = k, GV_Override = folder_entry s k,
      GV_Files = filter (\<lambda>v. FV_Folder v = k) fs, GV_FileCount = length (filter (\<lambda>v. FV_Folder v = k) fs)\<rparr>" for k x
    using map_of_eq_Some_iff [OF distinct_groups, of s fs k x] by (auto simp: map_of_groups split: if_splits)
  have names: "map (GV_Folder \<circ> snd) ?gs = map fst ?gs"
  proof (intro map_cong refl)
    fix kx assume "kx \<in> set ?gs"
    then show "(GV_Folder \<circ> snd) kx = fst kx" using m [of "fst kx" "snd kx"] by simp
  qed
  show "sorted (map GV_Folder folders)" by (simp add: g)
  have "distinct (map GV_Folder (map snd ?gs))"
    unfolding map_map names by (rule distinct_groups)
  then show "distinct (map GV_Folder folders)"
    by (auto simp: g distinct_map intro: inj_on_imageI2 inj_on_imageI)
  show "GV_Folder ` set folders = FV_Folder ` set fs"
  proof -
    have "GV_Folder ` set folders = set (map (GV_Folder \<circ> snd) ?gs)" by (simp add: g image_comp)
    also have "\<dots> = dom (map_of ?gs)" unfolding names by (simp add: dom_map_of_conv_image_fst)
    also have "\<dots> = FV_Folder ` set fs" by (auto simp: dom_def map_of_groups split: if_splits)
    finally show ?thesis .
  qed
  show "GV_Files g = filter (\<lambda>v. FV_Folder v = GV_Folder g) fs \<and> GV_FileCount g = length (GV_Files g)"
    if "g \<in> set folders" for g
    using that m unfolding \<open>folders = _\<close> by auto
qed

section \<open>The steps of a scan are the scan\<close>

lemma scan_write_file:
  "D_Scan d = None \<Longrightarrow> scan_rename (scan_write (Whole (json_snap s)) (scan_open d)) = persistSnapshot io_ok s d"
  by (simp add: scan_rename_def scan_write_def scan_open_def written_def rename_tmp_def persist_io_ok)

lemma Scan_steps:
  assumes "coll_reach calm d0 (st, Idle)" and "Scan e io_ok site r st = (st', None)" and "D_Scan (SC_Disk st) = None"
  shows "coll_reach calm d0 (st', Idle)"
proof -
  obtain st1 where b: "scan_begin st = Some st1" using assms(2) by (auto simp: Scan_def split: option.splits)
  obtain s err where c: "collect e site r = Inr (s, err)"
    using assms(2) b by (auto simp: Scan_def split: sum.splits)
  define st2 where "st2 = scan_publish s err st1"
  have d: "SC_Disk st1 = SC_Disk st" using b by (auto simp: scan_begin_def split: if_splits)
  define st3 where "st3 = st2\<lparr>SC_Disk := scan_open (SC_Disk st2)\<rparr>"
  define st4 where "st4 = st3\<lparr>SC_Disk := scan_write (Whole (json_snap s)) (SC_Disk st3)\<rparr>"
  have st': "st' = scan_end (scan_persisted (scan_rename (SC_Disk st4)) st4)"
    using assms(2) b c scan_write_file [of "SC_Disk st" s] assms(3)
    by (simp add: Scan_def Let_def st4_def st3_def st2_def d scan_persisted_def setLastErr_def persist_io_ok)
  have 1: "coll_reach calm d0 (st1, Walking)"
    by (rule reach_step [OF assms(1) step_begin [OF b]]) simp
  have 2: "coll_reach calm d0 (st2, Published)"
    unfolding st2_def by (rule reach_step [OF 1 step_publish [OF c]]) simp
  have "SC_Snap st2 = Some s" by (simp add: st2_def)
  from reach_step [OF 2 step_encode [OF this]] have 3: "coll_reach calm d0 (st2, Encoded (json_snap s))" by simp
  from reach_step [OF 3 step_open] have 4: "coll_reach calm d0 (st3, Opened (json_snap s))" by (simp add: st3_def)
  from reach_step [OF 4 step_write] have 5: "coll_reach calm d0 (st4, Written)" by (simp add: st4_def)
  from reach_step [OF 5 step_rename] show ?thesis by (simp add: st')
qed

section \<open>Which rows a folder has\<close>

lemma FolderOf_parent:
  assumes "list_all (\<lambda>a. slash \<notin> set a) p" and "p \<noteq> []"
  shows "FolderOf (coll_row e dir p n) = join [slash] (butlast p)"
proof -
  obtain q a where p: "p = q @ [a]" using assms(2) by (metis append_butlast_last_id)
  have a: "slash \<notin> set a" using assms(1) by (simp add: p)
  have rel: "CI_RelPath (coll_row e dir p n) = (if q = [] then a else join [slash] q @ slash # a)"
    by (simp add: coll_row_def rel_path_def p join_snoc)
  show ?thesis
  proof (cases "q = []")
    case True
    then show ?thesis using a unfolding FolderOf_def rel by (simp add: p)
  next
    case False
    have "dropWhile (\<lambda>c. c \<noteq> slash) (rev a @ slash # rev (join [slash] q)) = slash # rev (join [slash] q)"
      using a by (rule dropWhile_not_slash)
    then show ?thesis using False unfolding FolderOf_def rel by (simp add: p)
  qed
qed

section \<open>Concrete runs\<close>

definition demo_tree :: fnode where
  "demo_tree = FDir [(''S'', FDir [(''T'', FDir [(''b.mkv'', FFile [1])]), (''a.MKV'', FFile [1, 2]), (''c.mkv'', FFile []), (''n.nfo'', FFile [1])])]"

definition coll_demo :: coll_env where
  "coll_demo = \<lparr>CE_fs = (\<lambda>p. if p = ''/c'' then Some demo_tree else None), CE_Info = (\<lambda>p. True), CE_ModTime = (\<lambda>p. 0),
     CE_WalkStop = (\<lambda>k. False), CE_EnrichStop = (\<lambda>k. False), CE_Now = 1\<rparr>"

definition a_match :: TitleMatchResult where
  "a_match = \<lparr>TM_Title = ''b.mkv'', TM_Matched = True, TM_AID = 7, TM_AnimeTitle = ''B'', TM_MalID = 0, TM_AnilistID = 0,
     TM_Format = ''TV'', TM_CoverURL = [], TM_ResolutionHint = ''1080p'', TM_SourceHint = ''BD''\<rparr>"

text \<open>The site answers for the first row of a batch only.\<close>

definition demo_site :: "nat \<Rightarrow> string list \<Rightarrow> TitleMatchResult list option" where
  "demo_site k titles = TitleMatchBulk (\<lambda>ts. Some (200, Some [a_match])) titles"

definition no_disk :: coll_disk where
  "no_disk = \<lparr>D_Store = None, D_Tmp = None, D_Scan = None\<rparr>"

definition scanned_demo :: coll_state where
  "scanned_demo = fst (Scan coll_demo io_ok (Some demo_site) '' /c '' (NewCollectionScanner no_disk))"

definition row_b :: CollectionItem where
  "row_b = match_row (coll_row coll_demo ''/c'' [''S'', ''T'', ''b.mkv''] (FFile [1])) a_match"

definition row_a :: CollectionItem where
  "row_a = coll_row coll_demo ''/c'' [''S'', ''a.MKV''] (FFile [1, 2])"

definition demo_snap :: CollectionSnapshot where
  "demo_snap = \<lparr>CS_ScanRoot = ''/c'', CS_ScannedAt = 1, CS_TotalCount = 2, CS_Items = [row_b, row_a], CS_FolderOverrides = []\<rparr>"

lemma coll_demo_rows:
  "CI_Path row_b = ''/c/S/T/b.mkv'' \<and> CI_RelPath row_b = ''S/T/b.mkv'' \<and> CI_Ext row_b = ''mkv'' \<and> CI_AID row_b = 7
   \<and> CI_Path row_a = ''/c/S/a.MKV'' \<and> CI_RelPath row_a = ''S/a.MKV'' \<and> CI_Ext row_a = ''mkv'' \<and> \<not> CI_Matched row_a"
  by code_simp

lemma coll_demo_scan:
  "Scan coll_demo io_ok (Some demo_site) '' /c '' (NewCollectionScanner no_disk) =
     (\<lparr>SC_Snap = Some demo_snap, SC_Scanning = False, SC_LastErr = [],
       SC_Disk = \<lparr>D_Store = Some (Whole demo_snap), D_Tmp = None, D_Scan = None\<rparr>\<rparr>, None)"
  by code_simp

definition demo_state :: coll_state where
  "demo_state = \<lparr>SC_Snap = Some demo_snap, SC_Scanning = False, SC_LastErr = [],
     SC_Disk = \<lparr>D_Store = Some (Whole demo_snap), D_Tmp = None, D_Scan = None\<rparr>\<rparr>"

lemma demo_reached: "coll_reach calm no_disk (demo_state, Idle)"
proof (rule Scan_steps [OF reach_start])
  show "Scan coll_demo io_ok (Some demo_site) '' /c '' (NewCollectionScanner no_disk) = (demo_state, None)"
    by (simp only: coll_demo_scan demo_state_def)
  show "D_Scan (SC_Disk (NewCollectionScanner no_disk)) = None" by (simp add: NewCollectionScanner_def)
qed

lemma demo_disk_ok: "disk_ok no_disk" "whole (D_Store no_disk)"
  by (simp_all add: disk_ok_def no_disk_def)

theorem collection_store_whole_witness: "D_Store (SC_Disk demo_state) = Some (Whole demo_snap) \<and> snap_ok demo_snap"
  using collection_store_whole [OF demo_reached demo_disk_ok] by (simp add: demo_state_def)

theorem Scan_exact_witness:
  "set (CS_Items demo_snap) = {row_b, row_a} \<and> CS_TotalCount demo_snap = 2
   \<and> 2 = card {p. \<exists>n. file_at demo_tree p = Some n \<and> candidate coll_demo ''/c'' (p, n)}"
proof -
  have t: "trim_space '' /c '' = ''/c''" "CE_fs coll_demo ''/c'' = Some demo_tree" "wf_tree demo_tree" by code_simp+
  from Scan_exact [OF coll_demo_scan, of demo_tree] t obtain rows :: "CollectionItem list" and s where
    "SC_Snap \<lparr>SC_Snap = Some demo_snap, SC_Scanning = False, SC_LastErr = [],
       SC_Disk = \<lparr>D_Store = Some (Whole demo_snap), D_Tmp = None, D_Scan = None\<rparr>\<rparr> = Some s"
    "length rows = card {p. \<exists>n. file_at demo_tree p = Some n \<and> candidate coll_demo ''/c'' (p, n)}"
    "CS_TotalCount s = length rows" by auto
  moreover from this have "s = demo_snap" by simp
  ultimately show ?thesis by (simp add: demo_snap_def)
qed

theorem QueueSelectedUploads_exact_witness:
  "QueueSelectedUploads io_ok (fst (QueueSelectedUploads io_ok (fst (SetSelected io_ok ''/c/S/a.MKV'' True demo_state))))
     = (fst (QueueSelectedUploads io_ok (fst (SetSelected io_ok ''/c/S/a.MKV'' True demo_state))), 0, None)"
proof -
  let ?st = "fst (SetSelected io_ok ''/c/S/a.MKV'' True demo_state)"
  have s: "SC_Snap ?st = Some (demo_snap\<lparr>CS_Items := [row_b, row_a\<lparr>CI_Selected := True\<rparr>]\<rparr>)"
    and q: "snd (QueueSelectedUploads io_ok ?st) = (1, None)" by code_simp+
  have "QueueSelectedUploads io_ok ?st = (fst (QueueSelectedUploads io_ok ?st), 1, None)"
    using q by (metis prod.collapse)
  from QueueSelectedUploads_exact [OF s this] show ?thesis by blast
qed

theorem UpdateOverrides_exact_witness:
  "snd (UpdateOverrides io_ok ''/c/S/a.MKV'' 9 '' 720p'' [] [] ''07'' demo_state) = None
   \<and> snd (UpdateOverrides io_ok ''/c/gone.mkv'' 9 [] [] [] [] demo_state) \<noteq> None"
proof -
  have s: "SC_Snap demo_state = Some demo_snap" "distinct (map CI_Path (CS_Items demo_snap))"
    and p: "''/c/S/a.MKV'' \<in> CI_Path ` set (CS_Items demo_snap)" "''/c/gone.mkv'' \<notin> CI_Path ` set (CS_Items demo_snap)"
    by code_simp+
  show ?thesis unfolding UpdateOverrides_exact [OF s] using p by (simp add: Let_def)
qed

theorem SetFolderOverride_cascades_witness:
  "EffectiveAID (fst (SetFolderOverride io_ok ''S'' 9 [] [] [] demo_state)) row_a = 9
   \<and> EffectiveAID (fst (SetFolderOverride io_ok ''S'' 9 [] [] [] demo_state)) row_b = 7"
proof -
  have s: "SC_Snap demo_state = Some demo_snap" "distinct (map fst (CS_FolderOverrides demo_snap))"
    and r: "FolderOf row_a = ''S''" "FolderOf row_b = ''S/T''" "CI_OverrideAID row_a = 0" "CI_OverrideAID row_b = 0"
      "EffectiveAID demo_state row_b = 7"
    by code_simp+
  show ?thesis
    using r unfolding SetFolderOverride_cascades(1) [OF s prod.collapse [symmetric]] by simp
qed

section \<open>Where it falls short\<close>

text \<open>A scan starts from nothing: overrides, selections, queued uploads and everything set for a folder
  are gone after it, in memory and in the file.\<close>

theorem rescan_forgets_edits:
  assumes "Scan e io site r st = (st', None)"
  shows "\<exists>s. SC_Snap st' = Some s \<and> D_Store (SC_Disk st') = Some (Whole (json_snap s)) \<and> CS_FolderOverrides s = []
    \<and> list_all (\<lambda>it. scanned it = it \<and> CI_UploadStatus it = []) (CS_Items s)"
proof -
  obtain st1 where b: "scan_begin st = Some st1" using assms by (auto simp: Scan_def split: option.splits)
  obtain s err where c: "collect e site r = Inr (s, err)"
    using assms b by (auto simp: Scan_def split: sum.splits)
  obtain d where p: "persistSnapshot io s (SC_Disk (scan_publish s err st1)) = (d, None)"
    and st': "st' = scan_end (scan_persisted (d, None) (scan_publish s err st1))"
    using assms b c by (auto simp: Scan_def Let_def) (metis prod.collapse)
  from collect_some [OF c] obtain t its where t: "CE_fs e (trim_space r) = Some t" and w: "coll_walk e (trim_space r) = Inr its"
    and s: "s = fresh_snap e (trim_space r) (case site of None \<Rightarrow> its | Some f \<Rightarrow> fst (enrich e f its))" by blast
  have its: "scanned it = it \<and> CI_UploadStatus it = []" if "it \<in> set its" for it
    using w that t by (auto simp: coll_walk_iff tree_rows_def scanned_def coll_row_def split: if_splits)
  have "scanned it = it \<and> CI_UploadStatus it = []" if "it \<in> set (fst (enrich e f its))" for it f
  proof -
    from that obtain i where i: "i < length its" "it = site_row (CE_EnrichStop e) f its i" by (auto simp: enrich_rows)
    have m: "scanned (match_row x y) = match_row (scanned x) y \<and> CI_UploadStatus (match_row x y) = CI_UploadStatus x" for x y
      by (simp add: scanned_def match_row_def)
    have "its ! i \<in> set its" using i(1) by simp
    from its [OF this] show ?thesis
      using i(2) m by (auto simp: site_row_def split: option.splits)
  qed
  then have "list_all (\<lambda>it. scanned it = it \<and> CI_UploadStatus it = []) (CS_Items s)" "CS_FolderOverrides s = []"
    unfolding s using its by (auto simp: list_all_iff fresh_snap_def split: option.splits)
  then show ?thesis using persist_ok_store [OF p] by (simp add: st')
qed

text \<open>Selecting a folder does not pick the rows of its subfolders.\<close>

theorem nested_rows_not_picked:
  "fst (snd (QueueSelectedUploads io_ok (fst (SelectFolder io_ok ''S'' True demo_state)))) = 1
   \<and> fst (snd (QueueSelectedUploads io_ok (fst (SelectFolder io_ok [] True demo_state)))) = 0"
  by code_simp

text \<open>And a click that finds no row takes the selection back in memory only: after a restart it is
  there again.\<close>

theorem empty_click_not_stored:
  "(let st = fst (QueueSelectedUploads io_ok (fst (SelectFolder io_ok [] True demo_state)))
    in map_option (\<lambda>s. folder_entry s []) (SC_Snap st) = Some no_override
       \<and> map_option (\<lambda>s. FO_Selected (folder_entry s [])) (SC_Snap (NewCollectionScanner (SC_Disk st))) = Some True)"
  by code_simp

text \<open>The hint of the site for the source is never the effective value.\<close>

theorem source_hint_unused:
  "CI_SourceHint row_b = ''BD'' \<and> EffectiveSource demo_state row_b = [] \<and> EffectiveResolution demo_state row_b = ''1080p''"
  by code_simp

text \<open>A root that is a symbolic link passes the check but the walk does not follow it.\<close>

theorem linked_collection_empty:
  "map_option CS_Items (SC_Snap (fst (Scan (coll_demo\<lparr>CE_fs := (\<lambda>p. Some (FLink 2 (Some demo_tree)))\<rparr>) io_ok None ''/c''
     (NewCollectionScanner no_disk)))) = Some []"
  by code_simp

text \<open>An edit whose write comes between the calls of a scan's write: its file is overwritten in place.\<close>

theorem edit_tears_store:
  "\<exists>st. coll_reach False no_disk (st, Idle) \<and> D_Store (SC_Disk st) = Some Torn
     \<and> SC_Snap (NewCollectionScanner (SC_Disk st)) = None"
proof -
  define st1 where "st1 = demo_state\<lparr>SC_Scanning := True\<rparr>"
  define st2 where "st2 = scan_publish demo_snap None st1"
  have "scan_begin demo_state = Some st1" by (simp add: scan_begin_def demo_state_def st1_def)
  from reach_step [OF demo_reached step_begin [OF this], where calm = False]
  have 1: "coll_reach False no_disk (st1, Walking)" by simp
  have "collect coll_demo (Some demo_site) ''/c'' = Inr (demo_snap, None)" by code_simp
  from reach_step [OF 1 step_publish [OF this]] have 2: "coll_reach False no_disk (st2, Published)" by (simp add: st2_def)
  have "SC_Snap st2 = Some demo_snap" by (simp add: st2_def)
  from reach_step [OF 2 step_encode [OF this]] have 3: "coll_reach False no_disk (st2, Encoded (json_snap demo_snap))" by simp
  let ?st3 = "st2\<lparr>SC_Disk := scan_open (SC_Disk st2)\<rparr>"
  from reach_step [OF 3 step_open] have 4: "coll_reach False no_disk (?st3, Opened (json_snap demo_snap))" by simp
  let ?st4 = "coll_apply io_ok (OpSelectFolder ''S'' True) ?st3"
  from reach_step [OF 4 step_edit [where io = io_ok and op = "OpSelectFolder ''S'' True"]]
  have 5: "coll_reach False no_disk (?st4, Opened (json_snap demo_snap))" by simp
  let ?st5 = "?st4\<lparr>SC_Disk := scan_write (Whole (json_snap demo_snap)) (SC_Disk ?st4)\<rparr>"
  from reach_step [OF 5 step_write] have 6: "coll_reach False no_disk (?st5, Written)" by simp
  from reach_step [OF 6 step_rename]
  have 7: "coll_reach False no_disk (scan_end (scan_persisted (scan_rename (SC_Disk ?st5)) ?st5), Idle)" by simp
  have "SC_Disk st2 = SC_Disk demo_state" by (simp add: st2_def st1_def)
  then have "D_Store (SC_Disk ?st5) = Some Torn \<and> D_Tmp (SC_Disk ?st5) = None"
    by (simp add: SelectFolder_def edit_snap_def mark_folder_def st2_def persist_io_ok scan_open_def scan_write_def written_def)
  then have "D_Store (fst (scan_rename (SC_Disk ?st5))) = Some Torn" by (simp add: scan_rename_def rename_tmp_def)
  then show ?thesis using 7 by (intro exI [of _ "scan_end (scan_persisted (scan_rename (SC_Disk ?st5)) ?st5)"])
    (simp add: NewCollectionScanner_def del: coll_apply.simps)
qed

end
