(* ===== verification/Extract.thy ===== *)
theory Extract
  imports OfferScan
begin

text \<open>
  The extraction of archives in the stage directory (\<^verbatim>\<open>services/extract_*.go\<close>), the environment of the
  tools that are run (\<^verbatim>\<open>services/exec_tool.go\<close>). The stage directory is a tree; a link holds the node
  it leads to. What a ZIP or TAR reader yields is an observation, entry by entry, whatever happens to the
  archive meanwhile; the external tools are functions of the tree. Log lines are left out.
\<close>

section \<open>The environment of a tool\<close>

definition secretEnvKey :: "string \<Rightarrow> bool" where
  "secretEnvKey name =
     (let u = to_upper (trim_space name)
      in u \<in> set [''AGENT_TOKEN'', ''NNTP_PASS'', ''NNTP_USER'', ''VPN_USER'', ''VPN_PASS'']
         \<or> contains u ''PASS'' \<or> contains u ''TOKEN'' \<or> contains u ''SECRET'' \<or> contains u ''CRED''
         \<or> contains u ''APIKEY'' \<or> has_suffix u ''_KEY'')"

text \<open>The name of a variable: what is before the first \<^verbatim>\<open>=\<close>, if there is one and not at the front.\<close>

definition env_key :: "string \<Rightarrow> string option" where
  "env_key kv = (if CHR ''='' \<in> set kv \<and> hd kv \<noteq> CHR ''='' then Some (takeWhile (\<lambda>c. c \<noteq> CHR ''='') kv) else None)"

definition toolEnv :: "string list \<Rightarrow> string list" where
  "toolEnv vars = filter (\<lambda>kv. case env_key kv of Some k \<Rightarrow> \<not> secretEnvKey k | None \<Rightarrow> True) vars"

definition prepareTool :: "string list \<Rightarrow> string list option \<Rightarrow> string list" where
  "prepareTool vars own = (case own of None \<Rightarrow> toolEnv vars | Some xs \<Rightarrow> xs)"

fun after_sub :: "string \<Rightarrow> string \<Rightarrow> string option" where
  "after_sub s sub = (if has_prefix s sub then Some s else case s of [] \<Rightarrow> None | c # s' \<Rightarrow> after_sub s' sub)"

declare after_sub.simps [simp del]

definition exitSignal :: "string option \<Rightarrow> string" where
  "exitSignal err =
     (case err of None \<Rightarrow> []
      | Some s \<Rightarrow> (case after_sub s ''signal:'' of None \<Rightarrow> [] | Some t \<Rightarrow> trim_space t))"

definition tailStr :: "string \<Rightarrow> nat \<Rightarrow> string" where
  "tailStr s n =
     (let t = trim_space s
      in if length t \<le> n then t else [CHR 0xE2, CHR 0x80, CHR 0xA6] @ drop (length t - n) t)"

text \<open>The message for the site, if there is one.\<close>

definition escalateToolCrash :: "string \<Rightarrow> string \<Rightarrow> string \<Rightarrow> string option \<Rightarrow> (string \<times> string \<times> string \<times> string) option" where
  "escalateToolCrash tool target out err =
     (let sig = exitSignal err in if sig = [] then None else Some (tool, sig, target, tailStr out 600))"

section \<open>The names of archives\<close>

definition no_newline :: "char \<Rightarrow> bool" where
  "no_newline c \<longleftrightarrow> c \<noteq> CHR 0x0A"

text \<open>\<^verbatim>\<open>^(.+)\<close> followed by \<open>tail\<close> and the end. For the tails used here a name has at most one place where
  the tail can begin, so the lazy \<^verbatim>\<open>.+?\<close> of the RAR expressions takes the same stem.\<close>

definition stem_re :: "re list \<Rightarrow> re" where
  "stem_re tail = re_seq ([Bol, Grp (Many no_newline 1 None)] @ tail @ [Eol])"

definition rarPartRE :: re where
  "rarPartRE = stem_re [word_ci ''.part'', Grp (Many is_digit 1 None), word_ci ''.rar'']"

definition rarPlainRE :: re where
  "rarPlainRE = stem_re [word_ci ''.rar'']"

definition sevenZSplitRE :: re where
  "sevenZSplitRE = stem_re [word_ci ''.7z.'', Grp (Many is_digit 3 (Some 3))]"

definition sevenZPlainRE :: re where
  "sevenZPlainRE = stem_re [word_ci ''.7z'']"

definition isoRE :: re where
  "isoRE = stem_re [word_ci ''.iso'']"

definition miscFormats :: "re list" where
  "miscFormats = [stem_re [word_ci ''.'', re_alt [word_ci ''lzh'', word_ci ''lha'']], stem_re [word_ci ''.cab''],
     stem_re [word_ci ''.arj''], stem_re [word_ci ''.cpio'']]"

text \<open>\<^verbatim>\<open>Atoi\<close> of digits is one exactly when their value is; the value it returns for a number that is
  too large is not one.\<close>

definition rarFirstVolumeBase :: "string \<Rightarrow> string option" where
  "rarFirstVolumeBase name =
     (case re_search rarPartRE name of
        Some m \<Rightarrow> if atoi_nat (sub2 m) = 1 then Some (sub1 m) else None
      | None \<Rightarrow> map_option sub1 (re_search rarPlainRE name))"

definition digits_re :: "nat \<Rightarrow> nat option \<Rightarrow> re" where
  "digits_re lo hi = Many is_digit lo hi"

definition rar_tails :: re where
  "rar_tails = re_alt [re_seq [word_ci ''.part'', digits_re 1 None, word_ci ''.rar''],
     Seq (word_ci ''.r'') (digits_re 2 (Some 3)), Seq (word_ci ''.s'') (digits_re 2 (Some 3)), word_ci ''.rar'']"

definition par2_tails :: re where
  "par2_tails = Seq (re_opt (re_seq [word_ci ''.vol'', digits_re 1 None, word_ci ''+'', digits_re 1 None])) (word_ci ''.par2'')"

definition sevenz_tails :: re where
  "sevenz_tails = Seq (word_ci ''.7z'') (re_opt (Seq (word_ci ''.'') (digits_re 3 (Some 3))))"

text \<open>\<^verbatim>\<open>(?i)^\<close>, the quoted stem, the tails, \<^verbatim>\<open>$\<close>. \<^verbatim>\<open>MustCompile\<close> panics on a stem that is not UTF-8.\<close>

definition utf8_ok :: "string \<Rightarrow> bool" where
  "utf8_ok s \<longleftrightarrow> concat (runes s) = s"

definition set_matcher :: "re \<Rightarrow> string \<Rightarrow> (string \<Rightarrow> bool) option" where
  "set_matcher tails stem =
     (if utf8_ok stem then Some (\<lambda>n. re_search (re_seq [Bol, word_ci stem, tails, Eol]) n \<noteq> None) else None)"

definition volumeMatcherFor :: "string \<Rightarrow> (string \<Rightarrow> bool) option" where
  "volumeMatcherFor base = set_matcher rar_tails base"

definition par2MatcherFor :: "string \<Rightarrow> (string \<Rightarrow> bool) option" where
  "par2MatcherFor base = set_matcher par2_tails base"

datatype tarDecomp = tarPlain | tarGzip | tarBzip2 | tarXz | tarZstd

definition tarFormats :: "(string \<times> tarDecomp) list" where
  "tarFormats = [(''.tar.gz'', tarGzip), (''.tgz'', tarGzip), (''.tar.bz2'', tarBzip2), (''.tbz2'', tarBzip2),
     (''.tbz'', tarBzip2), (''.tar.xz'', tarXz), (''.txz'', tarXz), (''.tar.zst'', tarZstd), (''.tzst'', tarZstd),
     (''.tar'', tarPlain)]"

definition tar_format :: "string \<Rightarrow> (string \<times> tarDecomp) option" where
  "tar_format name = find (\<lambda>(suf, dec). has_suffix (to_lower name) suf) tarFormats"

section \<open>Writing into the stage directory\<close>

text \<open>\<^verbatim>\<open>MkdirAll\<close> and the opening for writing with all that is written; both go through links. A link
  that leads nowhere gets its file.\<close>

fun fresh_dir :: "fpath \<Rightarrow> fnode" where
  "fresh_dir [] = FDir []"
| "fresh_dir (a # p) = FDir [(a, fresh_dir p)]"

fun mkdir_at :: "fpath \<Rightarrow> fnode \<Rightarrow> fnode option" where
  "mkdir_at [] (FDir xs) = Some (FDir xs)"
| "mkdir_at [] FUnreadable = Some FUnreadable"
| "mkdir_at (a # p) (FDir xs) =
     (case map_of xs a of
        None \<Rightarrow> Some (FDir (set_entry a (fresh_dir p) xs))
      | Some m \<Rightarrow> map_option (\<lambda>m'. FDir (set_entry a m' xs)) (mkdir_at p m))"
| "mkdir_at p (FLink n (Some t)) = map_option (\<lambda>t'. FLink n (Some t')) (mkdir_at p t)"
| "mkdir_at p t = None"

fun write_at :: "fpath \<Rightarrow> bytes \<Rightarrow> fnode \<Rightarrow> fnode option" where
  "write_at [] b (FFile old) = Some (FFile b)"
| "write_at [] b (FLink n None) = Some (FLink n (Some (FFile b)))"
| "write_at (a # p) b (FDir xs) =
     (case map_of xs a of
        None \<Rightarrow> if p = [] then Some (FDir (set_entry a (FFile b) xs)) else None
      | Some m \<Rightarrow> map_option (\<lambda>m'. FDir (set_entry a m' xs)) (write_at p b m))"
| "write_at p b (FLink n (Some t)) = map_option (\<lambda>t'. FLink n (Some t')) (write_at p b t)"
| "write_at p b t = None"

fun rm_entry :: "string \<Rightarrow> fnode \<Rightarrow> fnode" where
  "rm_entry a (FDir xs) = FDir (filter (\<lambda>(b, m). b \<noteq> a) xs)"
| "rm_entry a (FLink n (Some t)) = FLink n (Some (rm_entry a t))"
| "rm_entry a t = t"

text \<open>What reading a file gives, through links.\<close>

fun data_at :: "fnode \<Rightarrow> fpath \<Rightarrow> bytes option" where
  "data_at (FFile b) [] = Some b"
| "data_at (FLink n (Some t)) p = data_at t p"
| "data_at (FDir xs) (a # p) = (case map_of xs a of None \<Rightarrow> None | Some m \<Rightarrow> data_at m p)"
| "data_at t p = None"

text \<open>Where an entry goes below the output directory; none when it would leave it.\<close>

definition below :: "string \<Rightarrow> string \<Rightarrow> fpath" where
  "below absOut target = (if target = absOut then [] else split_on slash (drop (Suc (length absOut)) target))"

definition entry_target :: "string \<Rightarrow> string \<Rightarrow> fpath option" where
  "entry_target absOut name =
     (let target = path_join absOut name
      in if target \<noteq> absOut \<and> \<not> has_prefix target (absOut @ [slash]) then None else Some (below absOut target))"

text \<open>The directory of the target; that of the output directory itself exists.\<close>

definition mkdir_parent :: "fpath \<Rightarrow> fnode \<Rightarrow> fnode option" where
  "mkdir_parent p t = (if p = [] then Some t else mkdir_at (butlast p) t)"

definition extractZIPMaxEntryBytes :: int where
  "extractZIPMaxEntryBytes = 53687091200"

text \<open>Copying at most the limit: what is written, and whether the copy sees the reader's error.\<close>

definition limited :: "int \<Rightarrow> bytes \<Rightarrow> bool \<Rightarrow> bytes \<times> bool" where
  "limited cap data err = (if int (length data) < cap then (data, err) else (take (nat cap) data, False))"

definition write_entry :: "fpath \<Rightarrow> bytes \<Rightarrow> bool \<Rightarrow> fnode \<Rightarrow> fnode \<times> string option" where
  "write_entry p data err t =
     (case limited extractZIPMaxEntryBytes data err of
        (b, bad) \<Rightarrow>
          (case write_at p b t of
             None \<Rightarrow> (t, Some ''open'')
           | Some t' \<Rightarrow> (t', if bad then Some ''copy'' else None)))"

section \<open>What an extraction observes\<close>

record zip_entry =
  ZE_Name :: string
  ZE_NonUTF8 :: bool
  ZE_Dir :: bool
  ZE_Store :: bool
  ZE_Open :: bool
  ZE_Data :: bytes
  ZE_Err :: bool

datatype tar_type = TypeDir | TypeReg | TypeOther

record tar_entry =
  TE_Name :: string
  TE_Type :: tar_type
  TE_Data :: bytes
  TE_Err :: bool

text \<open>\<open>XE_dir\<close> is the path of the stage directory as it is given and \<open>XE_out\<close> its absolute path; \<open>XE_stop\<close> and \<open>XE_stop_entry\<close> say whether the
  context is over before an archive and before its \<open>k\<close>-th entry; \<open>XE_zip\<close> and \<open>XE_tar\<close> are the
  entries of an archive with given bytes (those of a tarball with the error at their end), \<open>XE_sjis\<close> and
  \<open>XE_gbk\<close> the decoders, \<open>XE_path\<close> whether a program is found, \<open>XE_tool\<close> a run of an external extractor in
  that directory with its arguments and \<open>XE_wait\<close> the exit of a 7z that only
  decompresses, \<open>XE_rm\<close> whether a file can be removed.\<close>

record ext_env =
  XE_dir :: string
  XE_out :: "string option"
  XE_stop :: "string \<Rightarrow> bool"
  XE_stop_entry :: "string \<Rightarrow> nat \<Rightarrow> bool"
  XE_zip :: "string \<Rightarrow> bytes \<Rightarrow> zip_entry list option"
  XE_tar :: "string \<Rightarrow> tarDecomp \<Rightarrow> bytes \<Rightarrow> (tar_entry list \<times> string option) option"
  XE_sjis :: "string \<Rightarrow> string option"
  XE_gbk :: "string \<Rightarrow> string option"
  XE_path :: "string \<Rightarrow> bool"
  XE_tool :: "string list \<Rightarrow> fnode \<Rightarrow> fnode \<times> string option"
  XE_wait :: "string \<Rightarrow> string option"
  XE_rm :: "string \<Rightarrow> bool"

definition detectRARBinary :: "ext_env \<Rightarrow> string" where
  "detectRARBinary e = (if XE_path e ''unrar'' then ''unrar'' else if XE_path e ''7z'' then ''7z'' else [])"

definition detectSevenZipBinary :: "ext_env \<Rightarrow> string" where
  "detectSevenZipBinary e = (case find (XE_path e) [''7z'', ''7za'', ''7zr''] of Some n \<Rightarrow> n | None \<Rightarrow> [])"

section \<open>ZIP\<close>

definition decodeZipName :: "ext_env \<Rightarrow> zip_entry \<Rightarrow> string" where
  "decodeZipName e z =
     (if \<not> ZE_NonUTF8 z then ZE_Name z
      else if utf8_ok (ZE_Name z) then ZE_Name z
      else case XE_sjis e (ZE_Name z) of
        Some s \<Rightarrow> if utf8_ok s then s
                  else (case XE_gbk e (ZE_Name z) of Some g \<Rightarrow> if utf8_ok g then g else ZE_Name z | None \<Rightarrow> ZE_Name z)
      | None \<Rightarrow> (case XE_gbk e (ZE_Name z) of Some g \<Rightarrow> if utf8_ok g then g else ZE_Name z | None \<Rightarrow> ZE_Name z))"

definition writeZipEntry :: "zip_entry \<Rightarrow> fpath \<Rightarrow> fnode \<Rightarrow> fnode \<times> string option" where
  "writeZipEntry z p t = (if \<not> ZE_Open z then (t, Some ''entry'') else write_entry p (ZE_Data z) (ZE_Err z) t)"

fun zip_entries :: "ext_env \<Rightarrow> string \<Rightarrow> string \<Rightarrow> nat \<Rightarrow> zip_entry list \<Rightarrow> fnode \<Rightarrow> fnode \<times> string option" where
  "zip_entries e absOut a k [] t = (t, None)"
| "zip_entries e absOut a k (z # zs) t =
     (if XE_stop_entry e a k then (t, Some ''context canceled'')
      else case entry_target absOut (decodeZipName e z) of
        None \<Rightarrow> (t, Some ''unsafe zip entry path'')
      | Some p \<Rightarrow>
          if ZE_Dir z
          then (case mkdir_at p t of None \<Rightarrow> (t, Some ''mkdir'') | Some t1 \<Rightarrow> zip_entries e absOut a (Suc k) zs t1)
          else (case mkdir_parent p t of
                  None \<Rightarrow> (t, Some ''mkdir'')
                | Some t1 \<Rightarrow>
                    (case writeZipEntry z p t1 of
                       (t2, Some err) \<Rightarrow> (t2, Some err)
                     | (t2, None) \<Rightarrow> zip_entries e absOut a (Suc k) zs t2)))"

definition open_zip :: "ext_env \<Rightarrow> string \<Rightarrow> fnode \<Rightarrow> zip_entry list option" where
  "open_zip e a t = Option.bind (data_at t [a]) (XE_zip e a)"

definition extractOneZIP :: "ext_env \<Rightarrow> string \<Rightarrow> fnode \<Rightarrow> fnode \<times> string option" where
  "extractOneZIP e a t =
     (case open_zip e a t of
        None \<Rightarrow> (t, Some ''open'')
      | Some zs \<Rightarrow>
          (case XE_out e of
             None \<Rightarrow> (t, Some ''abs'')
           | Some absOut \<Rightarrow> zip_entries e absOut a 0 zs t))"

definition zipHasCompressedEntry :: "ext_env \<Rightarrow> string \<Rightarrow> fnode \<Rightarrow> bool option" where
  "zipHasCompressedEntry e a t = map_option (list_ex (\<lambda>z. \<not> ZE_Dir z \<and> \<not> ZE_Store z)) (open_zip e a t)"

definition top_files :: "fnode \<Rightarrow> string list option" where
  "top_files t = (case t of FDir xs \<Rightarrow> Some (map fst (filter (\<lambda>(a, n). \<not> is_dir n) xs)) | _ \<Rightarrow> None)"

definition rm_file :: "ext_env \<Rightarrow> string \<Rightarrow> fnode \<Rightarrow> fnode" where
  "rm_file e a t = (if XE_rm e a then rm_entry a t else t)"

fun zip_loop :: "ext_env \<Rightarrow> string list \<Rightarrow> fnode \<Rightarrow> nat \<Rightarrow> string option \<Rightarrow> fnode \<times> nat \<times> string option" where
  "zip_loop e [] t n err = (t, n, err)"
| "zip_loop e (a # as) t n err =
     (if XE_stop e a then (t, n, Some ''context canceled'')
      else case zipHasCompressedEntry e a t of
        None \<Rightarrow> zip_loop e as t n (Some ''inspect'')
      | Some False \<Rightarrow> zip_loop e as t n err
      | Some True \<Rightarrow>
          (case extractOneZIP e a t of
             (t1, Some er) \<Rightarrow> zip_loop e as t1 n (Some er)
           | (t1, None) \<Rightarrow> zip_loop e as (rm_file e a t1) (Suc n) err))"

definition is_zip :: "string \<Rightarrow> bool" where
  "is_zip a \<longleftrightarrow> to_lower (file_ext a) = ''.zip''"

definition ExtractZIPArchives :: "ext_env \<Rightarrow> fnode \<Rightarrow> fnode \<times> nat \<times> string option" where
  "ExtractZIPArchives e t =
     (case top_files t of
        None \<Rightarrow> (t, 0, Some ''read dir'')
      | Some names \<Rightarrow> zip_loop e (filter is_zip names) t 0 None)"

section \<open>The stages that remove a set\<close>

text \<open>What a stage returns; none is a panic, which ends the agent.\<close>

type_synonym ext_result = "(fnode \<times> nat \<times> string option) option"

definition remove_matching :: "ext_env \<Rightarrow> (string \<Rightarrow> bool) \<Rightarrow> string list \<Rightarrow> fnode \<Rightarrow> fnode" where
  "remove_matching e f names t = foldl (\<lambda>s n. rm_file e n s) t (filter f names)"

text \<open>A job is a file with its stem. \<open>stops\<close> is whether the stage looks at the context.\<close>

fun unpack_jobs ::
  "ext_env \<Rightarrow> bool \<Rightarrow> (string \<Rightarrow> fnode \<Rightarrow> fnode \<times> string option) \<Rightarrow> (string \<Rightarrow> string \<Rightarrow> fnode \<Rightarrow> fnode option)
   \<Rightarrow> (string \<times> string) list \<Rightarrow> fnode \<Rightarrow> nat \<Rightarrow> string option \<Rightarrow> ext_result" where
  "unpack_jobs e stops run clean [] t n err = Some (t, n, err)"
| "unpack_jobs e stops run clean ((a, stem) # js) t n err =
     (if stops \<and> XE_stop e a then Some (t, n, Some ''context canceled'')
      else case run a t of
        (t1, Some er) \<Rightarrow> unpack_jobs e stops run clean js t1 n (Some er)
      | (t1, None) \<Rightarrow>
          (case clean a stem t1 of
             None \<Rightarrow> None
           | Some t2 \<Rightarrow> unpack_jobs e stops run clean js t2 (Suc n) err))"

text \<open>Deleting the files of the first listing that one of the two matchers takes.\<close>

definition remove_set :: "ext_env \<Rightarrow> string list \<Rightarrow> re \<Rightarrow> string \<Rightarrow> fnode \<Rightarrow> fnode option" where
  "remove_set e names tails stem t =
     (case (set_matcher tails stem, par2MatcherFor stem) of
        (Some v, Some p) \<Rightarrow> Some (remove_matching e (\<lambda>n. v n \<or> p n) names t)
      | _ \<Rightarrow> None)"

definition removeRARSet :: "ext_env \<Rightarrow> string list \<Rightarrow> string \<Rightarrow> fnode \<Rightarrow> fnode option" where
  "removeRARSet e names base t = remove_set e names rar_tails base t"

definition remove7zSet :: "ext_env \<Rightarrow> string list \<Rightarrow> string \<Rightarrow> fnode \<Rightarrow> fnode option" where
  "remove7zSet e names stem t = remove_set e names sevenz_tails stem t"

text \<open>The archive goes first, then the matcher is built.\<close>

definition removeArchiveAndPar2 :: "ext_env \<Rightarrow> string list \<Rightarrow> string \<Rightarrow> string \<Rightarrow> fnode \<Rightarrow> fnode option" where
  "removeArchiveAndPar2 e names a stem t =
     (let t1 = rm_file e a t in map_option (\<lambda>p. remove_matching e p names t1) (par2MatcherFor stem))"

definition removeISOSet :: "ext_env \<Rightarrow> string list \<Rightarrow> string \<Rightarrow> string \<Rightarrow> fnode \<Rightarrow> fnode option" where
  "removeISOSet e names a stem t =
     (let t1 = rm_file e a t in map_option (\<lambda>p. remove_matching e p names t1) (par2MatcherFor stem))"

definition tool_path :: "ext_env \<Rightarrow> string \<Rightarrow> string" where
  "tool_path e archive = path_join (XE_dir e) archive"

definition extractOneRAR :: "ext_env \<Rightarrow> string \<Rightarrow> fnode \<Rightarrow> fnode \<times> string option" where
  "extractOneRAR e archive t =
     (if detectRARBinary e = ''unrar'' then XE_tool e [''unrar'', ''x'', ''-o+'', ''-y'', ''--'', tool_path e archive] t
      else if detectRARBinary e = ''7z'' then XE_tool e [''7z'', ''x'', ''-y'', ''-aoa'', tool_path e archive] t
      else (t, Some ''no rar extractor available''))"

definition extractOne7z :: "ext_env \<Rightarrow> string \<Rightarrow> fnode \<Rightarrow> fnode \<times> string option" where
  "extractOne7z e archive t = XE_tool e [detectSevenZipBinary e, ''x'', ''-y'', ''-aoa'', tool_path e archive] t"

definition rar_jobs :: "string list \<Rightarrow> (string \<times> string) list" where
  "rar_jobs names = List.map_filter (\<lambda>n. map_option (Pair n) (rarFirstVolumeBase n)) names"

definition ExtractRARArchives :: "ext_env \<Rightarrow> fnode \<Rightarrow> ext_result" where
  "ExtractRARArchives e t =
     (if detectRARBinary e = [] then Some (t, 0, None)
      else case top_files t of
        None \<Rightarrow> Some (t, 0, Some ''read dir'')
      | Some names \<Rightarrow>
          unpack_jobs e False (extractOneRAR e) (\<lambda>a base. removeRARSet e names base) (rar_jobs names) t 0 None)"

definition sevenz_job :: "string \<Rightarrow> (string \<times> string) option" where
  "sevenz_job n =
     (case re_search sevenZSplitRE n of
        Some m \<Rightarrow> if sub2 m = ''001'' then Some (n, sub1 m) else None
      | None \<Rightarrow> map_option (\<lambda>m. (n, sub1 m)) (re_search sevenZPlainRE n))"

definition with_7z :: "ext_env \<Rightarrow> fnode \<Rightarrow> (string list \<Rightarrow> ext_result) \<Rightarrow> ext_result" where
  "with_7z e t f =
     (if detectSevenZipBinary e = [] then Some (t, 0, None)
      else case top_files t of None \<Rightarrow> Some (t, 0, Some ''read dir'') | Some names \<Rightarrow> f names)"

definition Extract7zArchives :: "ext_env \<Rightarrow> fnode \<Rightarrow> ext_result" where
  "Extract7zArchives e t = with_7z e t (\<lambda>names.
     unpack_jobs e True (extractOne7z e) (\<lambda>a stem. remove7zSet e names stem) (List.map_filter sevenz_job names) t 0 None)"

definition stem_job :: "re list \<Rightarrow> string \<Rightarrow> (string \<times> string) option" where
  "stem_job rs n = Option.bind (find (\<lambda>r. re_search r n \<noteq> None) rs) (\<lambda>r. map_option (\<lambda>m. (n, sub1 m)) (re_search r n))"

definition ExtractISOArchives :: "ext_env \<Rightarrow> fnode \<Rightarrow> ext_result" where
  "ExtractISOArchives e t = with_7z e t (\<lambda>names.
     unpack_jobs e True (extractOne7z e) (removeISOSet e names) (List.map_filter (stem_job [isoRE]) names) t 0 None)"

definition ExtractMiscArchives :: "ext_env \<Rightarrow> fnode \<Rightarrow> ext_result" where
  "ExtractMiscArchives e t = with_7z e t (\<lambda>names.
     unpack_jobs e True (extractOne7z e) (removeArchiveAndPar2 e names) (List.map_filter (stem_job miscFormats) names) t 0 None)"

text \<open>The arguments of \<^verbatim>\<open>EncryptWith7z\<close>: every entry by name, after a readable listing.\<close>

definition EncryptWith7z_args :: "string \<Rightarrow> string \<Rightarrow> string \<Rightarrow> string list \<Rightarrow> string list" where
  "EncryptWith7z_args srcDir destPath password names =
     [''7z'', ''a'', ''-p'' @ password, ''-mhe=on'', ''-mx=0'', ''-mmt=on'', destPath] @ map (path_join srcDir) names"

section \<open>TAR\<close>

fun writeTarEntries :: "ext_env \<Rightarrow> string \<Rightarrow> string \<Rightarrow> nat \<Rightarrow> tar_entry list \<Rightarrow> string option \<Rightarrow> fnode \<Rightarrow> fnode \<times> string option" where
  "writeTarEntries e absOut a k [] fin t = (t, if XE_stop_entry e a k then Some ''context canceled'' else fin)"
| "writeTarEntries e absOut a k (h # hs) fin t =
     (if XE_stop_entry e a k then (t, Some ''context canceled'')
      else case entry_target absOut (TE_Name h) of
        None \<Rightarrow> (t, Some ''unsafe tar entry path'')
      | Some p \<Rightarrow>
          (case TE_Type h of
             TypeDir \<Rightarrow> (case mkdir_at p t of None \<Rightarrow> (t, Some ''mkdir'') | Some t1 \<Rightarrow> writeTarEntries e absOut a (Suc k) hs fin t1)
           | TypeReg \<Rightarrow>
               (case mkdir_parent p t of
                  None \<Rightarrow> (t, Some ''mkdir'')
                | Some t1 \<Rightarrow>
                    (case write_entry p (TE_Data h) (TE_Err h) t1 of
                       (t2, Some err) \<Rightarrow> (t2, Some err)
                     | (t2, None) \<Rightarrow> writeTarEntries e absOut a (Suc k) hs fin t2))
           | TypeOther \<Rightarrow> writeTarEntries e absOut a (Suc k) hs fin t))"

definition tar_stream :: "ext_env \<Rightarrow> string \<Rightarrow> tarDecomp \<Rightarrow> fnode \<Rightarrow> fnode \<times> string option" where
  "tar_stream e a dec t =
     (case Option.bind (data_at t [a]) (XE_tar e a dec) of
        None \<Rightarrow> (t, Some ''open'')
      | Some (hs, fin) \<Rightarrow>
          (case XE_out e of None \<Rightarrow> (t, Some ''abs'') | Some absOut \<Rightarrow> writeTarEntries e absOut a 0 hs fin t))"

definition extractTarVia7z :: "ext_env \<Rightarrow> string \<Rightarrow> tarDecomp \<Rightarrow> fnode \<Rightarrow> fnode \<times> string option" where
  "extractTarVia7z e a dec t =
     (if detectSevenZipBinary e = [] then (t, Some ''no 7z binary to decompress'')
      else case tar_stream e a dec t of
        (t1, Some err) \<Rightarrow> (t1, Some err)
      | (t1, None) \<Rightarrow> (t1, XE_wait e a))"

definition extractOneTar :: "ext_env \<Rightarrow> string \<Rightarrow> fnode \<Rightarrow> fnode \<times> string option" where
  "extractOneTar e a t =
     (case tar_format a of
        None \<Rightarrow> (t, None)
      | Some (suf, dec) \<Rightarrow> if dec = tarXz \<or> dec = tarZstd then extractTarVia7z e a dec t else tar_stream e a dec t)"

definition tar_job :: "string \<Rightarrow> (string \<times> string) option" where
  "tar_job n = map_option (\<lambda>(suf, dec). (n, take (length n - length suf) n)) (tar_format n)"

definition ExtractTarArchives :: "ext_env \<Rightarrow> fnode \<Rightarrow> ext_result" where
  "ExtractTarArchives e t =
     (case top_files t of
        None \<Rightarrow> Some (t, 0, Some ''read dir'')
      | Some names \<Rightarrow>
          unpack_jobs e True (extractOneTar e) (removeArchiveAndPar2 e names) (List.map_filter tar_job names) t 0 None)"

section \<open>Nothing is written outside\<close>

lemma has_prefix_iff: "has_prefix s p \<longleftrightarrow> (\<exists>r. s = p @ r)"
  by (auto simp: has_prefix_def prefix_def)

lemma plain_stack: "clean_stack True acc \<longleftrightarrow> list_all plain_elem acc"
proof -
  have "dots_below acc" if "''..'' \<notin> set acc" using that by (induction acc) auto
  then show ?thesis by (auto simp: clean_stack_def plain_elem_def list_all_iff)
qed

lemma clean_rooted:
  assumes "path_rooted s"
  shows "\<exists>es. path_clean s = abs_path es \<and> list_all plain_elem es"
proof -
  let ?es = "clean_elems True [] (split_on slash s)"
  have "clean_stack True (rev ?es)"
    by (rule clean_elems_stack) (use split_on_no_sep in auto)
  then have "list_all plain_elem ?es" by (simp add: plain_stack)
  then show ?thesis using assms by (auto simp: path_clean_def abs_path_def Let_def)
qed

lemma split_abs:
  "list_all plain_elem es \<Longrightarrow> es \<noteq> [] \<Longrightarrow> split_on slash (abs_path es) = [] # es"
  using split_on_join [of es slash] by (auto simp: abs_path_def plain_elem_def list_all_iff)

lemma abs_path_inj:
  assumes "list_all plain_elem es" "list_all plain_elem fs" and "abs_path es = abs_path fs"
  shows "es = fs"
proof -
  have j: "join [slash] gs = [] \<longleftrightarrow> gs = []" if "list_all plain_elem gs" for gs
    using that by (cases gs rule: rev_cases) (auto simp: join_snoc plain_elem_def)
  have "es = [] \<longleftrightarrow> fs = []" using assms(3) j [OF assms(1)] j [OF assms(2)] by (simp add: abs_path_def)
  then show ?thesis
    using split_abs [OF assms(1)] split_abs [OF assms(2)] assms(3) by (metis list.inject)
qed

lemma path_join_rooted: "a \<noteq> [] \<Longrightarrow> path_rooted a \<Longrightarrow> \<exists>es. path_join a b = abs_path es \<and> list_all plain_elem es"
  using clean_rooted [of a] clean_rooted [of "a @ slash # b"]
  by (auto simp: path_join_def path_rooted_def has_prefix_iff)

lemma entry_target_inside:
  assumes "list_all plain_elem outs" and "outs \<noteq> []" and "entry_target (abs_path outs) name = Some p"
  shows "path_join (abs_path outs) name = abs_path (outs @ p) \<and> list_all plain_elem p"
proof -
  let ?out = "abs_path outs"
  obtain es where es: "path_join ?out name = abs_path es" "list_all plain_elem es"
    using path_join_rooted [of ?out name] by (auto simp: abs_path_def path_rooted_def has_prefix_iff)
  from assms(3) have c: "abs_path es = ?out \<or> has_prefix (abs_path es) (?out @ [slash])"
    and p: "p = below ?out (abs_path es)"
    by (auto simp: entry_target_def es(1) Let_def split: if_splits)
  show ?thesis
  proof (cases "abs_path es = ?out")
    case True
    then show ?thesis using p es by (simp add: below_def)
  next
    case False
    then obtain r where r: "abs_path es = ?out @ slash # r" using c by (auto simp: has_prefix_iff)
    then have p': "p = split_on slash r" using p False by (simp add: below_def)
    have "es \<noteq> []" using r assms(2) by (auto simp: abs_path_def)
    then have "[] # es = split_on slash (?out @ slash # r)" using split_abs [OF es(2)] r by simp
    also have "\<dots> = ([] # outs) @ p" unfolding split_on_append p' split_abs [OF assms(1,2)] by simp
    finally have "es = outs @ p" by simp
    then show ?thesis using es by simp
  qed
qed

lemma abs_path_append: "outs \<noteq> [] \<Longrightarrow> p \<noteq> [] \<Longrightarrow> abs_path (outs @ p) = abs_path outs @ slash # join [slash] p"
proof (induction p rule: rev_induct)
  case (snoc e p)
  show ?case
  proof (cases "p = []")
    case True
    then show ?thesis using snoc(2) by (simp add: abs_path_snoc)
  next
    case False
    have "abs_path (outs @ p @ [e]) = abs_path (outs @ p) @ slash # e"
      using abs_path_snoc [of "outs @ p" e] False by simp
    then show ?thesis using False snoc by (simp add: join_snoc)
  qed
qed simp

lemma entry_target_below:
  assumes "outs \<noteq> []" and "list_all plain_elem p" and "path_join (abs_path outs) name = abs_path (outs @ p)"
  shows "entry_target (abs_path outs) name = Some p"
proof (cases "p = []")
  case True
  then show ?thesis using assms(3) by (simp add: entry_target_def below_def)
next
  case False
  have eq: "abs_path (outs @ p) = abs_path outs @ slash # join [slash] p" by (rule abs_path_append [OF assms(1) False])
  have "split_on slash (join [slash] p) = p"
    using split_on_join [of p slash] assms(2) False by (auto simp: plain_elem_def list_all_iff)
  then show ?thesis by (simp add: entry_target_def below_def Let_def assms(3) eq has_prefix_iff)
qed

section \<open>What an extraction writes\<close>

lemma data_at_Nil: "data_at (FDir xs) [] = None"
  by simp

lemma data_at_set: "data_at (FDir (set_entry a m xs)) q =
    (case q of [] \<Rightarrow> None | b # q' \<Rightarrow> if b = a then data_at m q' else data_at (FDir xs) q)"
  by (cases q) auto

lemma data_at_fresh_dir: "data_at (fresh_dir p) q = None"
proof (induction p arbitrary: q)
  case (Cons a p)
  then show ?case by (cases q) auto
qed (case_tac q; simp)

lemma mkdir_at_data: "mkdir_at p t = Some t' \<Longrightarrow> data_at t' q = data_at t q"
proof (induction p t arbitrary: t' q rule: mkdir_at.induct)
  case (3 a p xs)
  show ?case
  proof (cases "map_of xs a")
    case None
    then show ?thesis using 3(2) by (cases q) (auto simp: data_at_set data_at_fresh_dir)
  next
    case (Some m)
    then obtain m' where m': "mkdir_at p m = Some m'" "t' = FDir (set_entry a m' xs)" using 3(2) by auto
    from 3(1) [OF Some m'(1)] show ?thesis using Some m'(2) by (cases q) (auto simp: data_at_set)
  qed
qed auto

lemma write_at_data: "write_at p b t = Some t' \<Longrightarrow> data_at t' q = (if q = p then Some b else data_at t q)"
proof (induction p b t arbitrary: t' q rule: write_at.induct)
  case (3 a p b xs)
  show ?case
  proof (cases "map_of xs a")
    case None
    then have t': "t' = FDir (set_entry a (FFile b) xs)" and p: "p = []" using 3(2) by (auto split: if_splits)
    show ?thesis
    proof (cases q)
      case (Cons c q')
      then show ?thesis using None t' p by (cases q') (auto simp: data_at_set)
    qed (simp add: t')
  next
    case (Some m)
    then obtain m' where m': "write_at p b m = Some m'" "t' = FDir (set_entry a m' xs)" using 3(2) by auto
    from 3(1) [OF Some m'(1)] show ?thesis using Some m'(2) by (cases q) (auto simp: data_at_set)
  qed
next
  case (1 b old)
  then show ?case by (cases q) auto
next
  case (2 b n)
  then show ?case by (cases q) auto
qed auto

lemma mkdir_parent_data: "mkdir_parent p t = Some t' \<Longrightarrow> data_at t' q = data_at t q"
  using mkdir_at_data by (auto simp: mkdir_parent_def split: if_splits)

definition entry_bytes :: "bytes \<Rightarrow> bytes" where
  "entry_bytes d = fst (limited extractZIPMaxEntryBytes d False)"

lemma entry_bytes_take: "entry_bytes d = take (nat extractZIPMaxEntryBytes) d"
  by (auto simp: entry_bytes_def limited_def)

lemma limited_bytes: "limited extractZIPMaxEntryBytes d x = (b, bad) \<Longrightarrow> b = entry_bytes d"
  by (auto simp: entry_bytes_def limited_def split: if_splits)

lemma write_entry_ok:
  "write_entry p d x t = (t', None) \<Longrightarrow>
     data_at t' q = (if q = p then Some (entry_bytes d) else data_at t q)"
  using write_at_data limited_bytes by (auto simp: write_entry_def split: option.splits if_splits prod.splits)

lemma write_entry_other: "write_entry p d x t = (t', r) \<Longrightarrow> q \<noteq> p \<Longrightarrow> data_at t' q = data_at t q"
  using write_at_data by (auto simp: write_entry_def split: option.splits prod.splits)

text \<open>The entries of an archive with the path each file goes to; what a path gets is the data of the last
  entry that goes there.\<close>

definition zip_puts :: "ext_env \<Rightarrow> string \<Rightarrow> zip_entry list \<Rightarrow> (fpath \<times> bytes) list" where
  "zip_puts e absOut zs =
     List.map_filter (\<lambda>z. if ZE_Dir z then None
       else map_option (\<lambda>p. (p, entry_bytes (ZE_Data z))) (entry_target absOut (decodeZipName e z))) zs"

definition tar_puts :: "string \<Rightarrow> tar_entry list \<Rightarrow> (fpath \<times> bytes) list" where
  "tar_puts absOut hs =
     List.map_filter (\<lambda>h. if TE_Type h \<noteq> TypeReg then None
       else map_option (\<lambda>p. (p, entry_bytes (TE_Data h))) (entry_target absOut (TE_Name h))) hs"

definition last_put :: "(fpath \<times> bytes) list \<Rightarrow> fpath \<Rightarrow> bytes option" where
  "last_put puts q = map_of (rev puts) q"

lemma last_put_Cons: "last_put ((p, b) # puts) q =
    (case last_put puts q of None \<Rightarrow> if q = p then Some b else None | Some c \<Rightarrow> Some c)"
  by (auto simp: last_put_def map_add_def split: option.splits)

lemma zip_entries_done:
  "zip_entries e absOut a k zs t = (t', None) \<Longrightarrow>
     data_at t' q = (case last_put (zip_puts e absOut zs) q of None \<Rightarrow> data_at t q | Some b \<Rightarrow> Some b)"
proof (induction zs arbitrary: k t)
  case (Cons z zs)
  from Cons.prems obtain p where p: "entry_target absOut (decodeZipName e z) = Some p"
    by (auto split: if_splits option.splits)
  show ?case
  proof (cases "ZE_Dir z")
    case True
    then obtain t1 where t1: "mkdir_at p t = Some t1" "zip_entries e absOut a (Suc k) zs t1 = (t', None)"
      using Cons.prems p by (auto split: if_splits option.splits)
    have puts: "zip_puts e absOut (z # zs) = zip_puts e absOut zs" using True by (simp add: zip_puts_def map_filter_simps)
    show ?thesis using Cons.IH [OF t1(2)] mkdir_at_data [OF t1(1), of q] by (simp add: puts split: option.splits)
  next
    case False
    then obtain t1 t2 where t: "mkdir_parent p t = Some t1" "write_entry p (ZE_Data z) (ZE_Err z) t1 = (t2, None)"
        "zip_entries e absOut a (Suc k) zs t2 = (t', None)"
      using Cons.prems p by (auto simp: writeZipEntry_def split: if_splits option.splits prod.splits)
    have puts: "zip_puts e absOut (z # zs) = (p, entry_bytes (ZE_Data z)) # zip_puts e absOut zs"
      using False p by (simp add: zip_puts_def map_filter_simps)
    show ?thesis
      using Cons.IH [OF t(3)] write_entry_ok [OF t(2), of q] mkdir_parent_data [OF t(1), of q]
      by (auto simp: puts last_put_Cons split: option.splits)
  qed
qed (simp add: last_put_def zip_puts_def map_filter_simps)

lemma tar_entries_done:
  "writeTarEntries e absOut a k hs fin t = (t', None) \<Longrightarrow>
     data_at t' q = (case last_put (tar_puts absOut hs) q of None \<Rightarrow> data_at t q | Some b \<Rightarrow> Some b)"
proof (induction hs arbitrary: k t)
  case (Cons h hs)
  from Cons.prems obtain p where p: "entry_target absOut (TE_Name h) = Some p"
    by (auto split: if_splits option.splits)
  show ?case
  proof (cases "TE_Type h = TypeReg")
    case False
    then obtain k1 t1 where t1: "\<And>q. data_at t1 q = data_at t q" "writeTarEntries e absOut a k1 hs fin t1 = (t', None)"
      using Cons.prems p that [OF mkdir_at_data] that [OF refl] by (cases "TE_Type h") (auto split: if_splits option.splits)
    have puts: "tar_puts absOut (h # hs) = tar_puts absOut hs" using False by (simp add: tar_puts_def map_filter_simps)
    show ?thesis using Cons.IH [OF t1(2)] t1(1) [of q] by (simp add: puts split: option.splits)
  next
    case True
    then obtain t1 t2 where t: "mkdir_parent p t = Some t1" "write_entry p (TE_Data h) (TE_Err h) t1 = (t2, None)"
        "writeTarEntries e absOut a (Suc k) hs fin t2 = (t', None)"
      using Cons.prems p by (auto split: if_splits option.splits prod.splits)
    have puts: "tar_puts absOut (h # hs) = (p, entry_bytes (TE_Data h)) # tar_puts absOut hs"
      using True p by (simp add: tar_puts_def map_filter_simps)
    show ?thesis
      using Cons.IH [OF t(3)] write_entry_ok [OF t(2), of q] mkdir_parent_data [OF t(1), of q]
      by (auto simp: puts last_put_Cons split: option.splits)
  qed
qed (auto simp: last_put_def tar_puts_def map_filter_simps split: if_splits)

text \<open>Whatever becomes of it, an extraction touches no file that none of its entries goes to.\<close>

lemma zip_entries_other:
  "q \<notin> fst ` set (zip_puts e absOut zs) \<Longrightarrow> data_at (fst (zip_entries e absOut a k zs t)) q = data_at t q"
proof (induction zs arbitrary: k t)
  case (Cons z zs)
  have rest: "q \<notin> fst ` set (zip_puts e absOut zs)" using Cons.prems
    by (auto simp: zip_puts_def map_filter_simps split: option.splits)
  show ?case
  proof (cases "entry_target absOut (decodeZipName e z)")
    case (Some p)
    have p: "q \<noteq> p" if "\<not> ZE_Dir z" using Cons.prems that Some by (auto simp: zip_puts_def map_filter_simps)
    show ?thesis
      using Some Cons.IH [OF rest] mkdir_at_data mkdir_parent_data write_entry_other [OF _ p]
      by (auto simp: writeZipEntry_def split: option.splits prod.splits)
  qed simp
qed simp

lemma tar_entries_other:
  "q \<notin> fst ` set (tar_puts absOut hs) \<Longrightarrow> data_at (fst (writeTarEntries e absOut a k hs fin t)) q = data_at t q"
proof (induction hs arbitrary: k t)
  case (Cons h hs)
  have rest: "q \<notin> fst ` set (tar_puts absOut hs)" using Cons.prems
    by (auto simp: tar_puts_def map_filter_simps split: option.splits if_splits)
  show ?case
  proof (cases "entry_target absOut (TE_Name h)")
    case (Some p)
    have p: "q \<noteq> p" if "TE_Type h = TypeReg" using Cons.prems that Some by (auto simp: tar_puts_def map_filter_simps)
    show ?thesis
      using Some Cons.IH [OF rest] mkdir_at_data mkdir_parent_data write_entry_other [OF _ p]
      by (auto split: option.splits prod.splits tar_type.splits)
  qed simp
qed simp

lemma data_at_rm_entry: "data_at (rm_entry a t) q = (if q \<noteq> [] \<and> hd q = a then None else data_at t q)"
proof (induction a t arbitrary: q rule: rm_entry.induct)
  case (1 a xs)
  have "map_of (filter (\<lambda>(b, m). b \<noteq> a) xs) b = (if b = a then None else map_of xs b)" for b
    by (induction xs) auto
  then show ?case by (cases q) auto
qed (case_tac q; auto)+

lemma data_at_rm: "data_at (rm_file e a t) q = data_at t q \<or> q \<noteq> [] \<and> hd q = a \<and> data_at (rm_file e a t) q = None"
  by (auto simp: rm_file_def data_at_rm_entry)

lemma data_at_below: "data_at t p = Some b \<Longrightarrow> q \<noteq> [] \<Longrightarrow> data_at t (p @ q) = None"
proof (induction t p rule: data_at.induct)
  case (1 b)
  then show ?case by (cases q) auto
next
  case (3 xs a p)
  then show ?case by (auto split: option.splits)
qed auto

section \<open>The ZIP stage\<close>

text \<open>Whatever the archive \<open>a\<close> may hold when it is read, no entry of it goes to \<open>q\<close>.\<close>

definition zip_spares :: "ext_env \<Rightarrow> fpath \<Rightarrow> string \<Rightarrow> bool" where
  "zip_spares e q a \<longleftrightarrow>
     (\<forall>b zs out. XE_zip e a b = Some zs \<longrightarrow> XE_out e = Some out \<longrightarrow> q \<notin> fst ` set (zip_puts e out zs))"

definition zipped :: "ext_env \<Rightarrow> fnode \<Rightarrow> string \<Rightarrow> bool" where
  "zipped e t a \<longleftrightarrow> zipHasCompressedEntry e a t = Some True"

lemma extractOneZIP_other: "zip_spares e q a \<Longrightarrow> data_at (fst (extractOneZIP e a t)) q = data_at t q"
  by (auto simp: extractOneZIP_def open_zip_def zip_spares_def bind_eq_Some_conv zip_entries_other split: option.splits)

lemma open_zip_same: "data_at s [a] = data_at t [a] \<Longrightarrow> open_zip e a s = open_zip e a t"
  by (simp add: open_zip_def)

lemma zipped_same: "data_at s [a] = data_at t [a] \<Longrightarrow> zipped e s a \<longleftrightarrow> zipped e t a"
  by (simp add: zipped_def zipHasCompressedEntry_def open_zip_same [of s a t])

lemma zipped_data: "zipped e t a \<Longrightarrow> data_at t [a] \<noteq> None"
  by (auto simp: zipped_def zipHasCompressedEntry_def open_zip_def bind_eq_Some_conv)

text \<open>One round of the loop: the archive is passed over, fails, or is extracted and removed.\<close>

lemma zip_loop_round:
  obtains (stop) "XE_stop e a" "zip_loop e (a # as) t n err = (t, n, Some ''context canceled'')"
  | (skip) er where "\<not> XE_stop e a" "\<not> zipped e t a" "zip_loop e (a # as) t n err = zip_loop e as t n er" "er = None \<longrightarrow> err = None"
  | (fail) er where "\<not> XE_stop e a" "zipped e t a" "snd (extractOneZIP e a t) = Some er"
      "zip_loop e (a # as) t n err = zip_loop e as (fst (extractOneZIP e a t)) n (Some er)"
  | (unpack) "\<not> XE_stop e a" "zipped e t a" "snd (extractOneZIP e a t) = None"
      "zip_loop e (a # as) t n err = zip_loop e as (rm_file e a (fst (extractOneZIP e a t))) (Suc n) err"
proof (cases "XE_stop e a")
  case True
  then show ?thesis using stop by simp
next
  case go: False
  show ?thesis
  proof (cases "zipped e t a")
    case False
    show ?thesis
      by (rule skip [of "if zipHasCompressedEntry e a t = None then Some ''inspect'' else err"])
         (use go False in \<open>auto simp: zipped_def split: option.splits bool.splits\<close>)
  next
    case True
    then show ?thesis
      using go fail unpack by (cases "extractOneZIP e a t"; cases "snd (extractOneZIP e a t)") (auto simp: zipped_def)
  qed
qed

lemma zip_loop_other:
  assumes "\<forall>a \<in> set as. zip_spares e q a"
  shows "data_at (fst (zip_loop e as t n err)) q = data_at t q
    \<or> data_at (fst (zip_loop e as t n err)) q = None \<and> (\<exists>a \<in> set as. q = [a] \<and> zipped e t a)"
  using assms
proof (induction as arbitrary: t n err)
  case (Cons a as)
  have a: "zip_spares e q a" using Cons.prems by simp
  have IH: "data_at (fst (zip_loop e as s m er)) q = data_at t q
    \<or> data_at (fst (zip_loop e as s m er)) q = None \<and> (\<exists>a \<in> set as. q = [a] \<and> zipped e t a)"
    if "data_at s q = data_at t q" for s m er
    using Cons.IH [of s m er] Cons.prems that zipped_same [of s _ t e] by auto
  have x: "data_at (fst (extractOneZIP e a t)) q = data_at t q" by (rule extractOneZIP_other [OF a])
  show ?case
  proof (cases rule: zip_loop_round [of e a as t n err])
    case unpack
    let ?t2 = "rm_file e a (fst (extractOneZIP e a t))"
    from data_at_rm [of e a "fst (extractOneZIP e a t)" q] x
    consider "data_at ?t2 q = data_at t q" | "q \<noteq> []" "hd q = a" "data_at t q \<noteq> None" "data_at ?t2 q = None" by force
    then show ?thesis
    proof cases
      case 1
      from IH [OF 1] show ?thesis unfolding unpack(4) by auto
    next
      case 2
      have "data_at (fst (zip_loop e as ?t2 (Suc n) err)) q = None"
        using Cons.IH [of ?t2 "Suc n" err] Cons.prems 2(4) by auto
      moreover have "q = [a]"
      proof (rule ccontr)
        assume "q \<noteq> [a]"
        then obtain q' where "q = [a] @ q'" "q' \<noteq> []" using 2(1,2) by (cases q) auto
        then show False using data_at_below [of t "[a]" _ q'] zipped_data [OF unpack(2)] 2(3) by auto
      qed
      ultimately show ?thesis using unpack(2) unfolding unpack(4) by auto
    qed
  next
    case stop
    then show ?thesis by simp
  next
    case (skip er)
    from IH [OF refl, of n er] show ?thesis unfolding skip(3) by auto
  next
    case (fail er)
    from IH [OF x, of n "Some er"] show ?thesis unfolding fail(4) by auto
  qed
qed simp

definition puts_of :: "ext_env \<Rightarrow> string \<Rightarrow> fnode \<Rightarrow> string list \<Rightarrow> (fpath \<times> bytes) list" where
  "puts_of e out t as = concat (map (\<lambda>a. case open_zip e a t of Some zs \<Rightarrow> zip_puts e out zs | None \<Rightarrow> []) as)"

lemma last_put_append: "last_put (xs @ ys) q = (case last_put ys q of None \<Rightarrow> last_put xs q | Some b \<Rightarrow> Some b)"
  by (simp add: last_put_def map_add_def split: option.splits)

lemma last_put_none: "last_put puts q = None \<longleftrightarrow> q \<notin> fst ` set puts"
  by (simp add: last_put_def map_of_eq_None_iff)

lemma extractOneZIP_done:
  assumes "extractOneZIP e a t = (t', None)" and "XE_out e = Some out"
  shows "data_at t' q = (case last_put (puts_of e out t [a]) q of None \<Rightarrow> data_at t q | Some b \<Rightarrow> Some b)"
  using assms zip_entries_done by (auto simp: extractOneZIP_def puts_of_def split: option.splits)

lemma puts_of_spared: "zip_spares e [b] a \<Longrightarrow> XE_out e = Some out \<Longrightarrow> last_put (puts_of e out t [a]) [b] = None"
  by (cases "data_at t [a]"; cases "open_zip e a t")
    (auto simp: puts_of_def zip_spares_def open_zip_def last_put_none)

lemma rm_extracted:
  assumes "extractOneZIP e a t = (t1, None)" and "XE_out e = Some out" and "zipped e t a" and "zip_spares e [a] a"
  shows "data_at (rm_file e a t1) q = (if XE_rm e a \<and> q = [a] then None
    else case last_put (puts_of e out t [a]) q of None \<Rightarrow> data_at t q | Some b \<Rightarrow> Some b)"
proof -
  note d1 = extractOneZIP_done [OF assms(1,2)]
  have a1: "data_at t1 [a] \<noteq> None"
    using d1 [of "[a]"] puts_of_spared [OF assms(4,2), of t] zipped_data [OF assms(3)] by simp
  show ?thesis
  proof (cases "XE_rm e a \<and> q \<noteq> [] \<and> hd q = a")
    case True
    then obtain q' where q: "q = [a] @ q'" by (cases q) auto
    show ?thesis
    proof (cases "q' = []")
      case True
      then show ?thesis using \<open>XE_rm e a \<and> _\<close> q by (simp add: rm_file_def data_at_rm_entry)
    next
      case False
      then have "data_at t1 q = None" using data_at_below [of t1 "[a]" _ q'] a1 q by auto
      then show ?thesis using d1 [of q] q False True by (auto simp: rm_file_def data_at_rm_entry)
    qed
  next
    case False
    then show ?thesis using d1 [of q] a1 by (auto simp: rm_file_def data_at_rm_entry)
  qed
qed

lemma zip_loop_done:
  assumes "distinct as" and "\<forall>a \<in> set as. \<forall>b \<in> set as. zip_spares e [b] a" and "XE_out e = Some out"
    and "zip_loop e as t n err = (t', n', None)"
  shows "err = None \<and> n' = n + length (filter (zipped e t) as)
    \<and> data_at t' q = (case last_put (puts_of e out t (filter (zipped e t) as)) q of
        Some b \<Rightarrow> Some b
      | None \<Rightarrow> if \<exists>a \<in> set as. zipped e t a \<and> XE_rm e a \<and> q = [a] then None else data_at t q)"
  using assms(1,2,4)
proof (induction as arbitrary: t n err)
  case Nil
  then show ?case by (simp add: puts_of_def last_put_def)
next
  case (Cons a as)
  note IH = Cons.IH [OF distinct_tl [OF Cons.prems(1), simplified]]
  have sep: "\<forall>a \<in> set as. \<forall>b \<in> set as. zip_spares e [b] a" using Cons.prems(2) by simp
  show ?case
  proof (cases rule: zip_loop_round [of e a as t n err])
    case (skip er)
    have ex: "(\<exists>b \<in> set (a # as). zipped e t b \<and> XE_rm e b \<and> q = [b]) \<longleftrightarrow> (\<exists>b \<in> set as. zipped e t b \<and> XE_rm e b \<and> q = [b])"
      and f: "filter (zipped e t) (a # as) = filter (zipped e t) as" using skip(2) by auto
    have "zip_loop e as t n er = (t', n', None)" using Cons.prems(3) unfolding skip(3) .
    from IH [OF sep this] skip(4) show ?thesis unfolding ex f by blast
  next
    case (fail er)
    then show ?thesis using IH [OF sep, of _ n "Some er"] Cons.prems(3) by auto
  next
    case unpack
    let ?t1 = "fst (extractOneZIP e a t)" and ?t2 = "rm_file e a (fst (extractOneZIP e a t))"
    have dn: "extractOneZIP e a t = (?t1, None)" using unpack(3) by (metis prod.collapse)
    have loop: "zip_loop e as ?t2 (Suc n) err = (t', n', None)" using Cons.prems(3) unfolding unpack(4) .
    have a1: "data_at ?t1 [b] = data_at t [b]" if "b \<in> set (a # as)" for b
      using Cons.prems(2) that by (intro extractOneZIP_other) auto
    have same: "data_at ?t2 [b] = data_at t [b]" if "b \<in> set as" for b
      using a1 [of b] that Cons.prems(1) data_at_rm_entry [of a ?t1 "[b]"] by (auto simp: rm_file_def)
    have z: "filter (zipped e ?t2) as = filter (zipped e t) as"
      by (rule filter_cong [OF refl], rule zipped_same, rule same)
    have p: "puts_of e out ?t2 (filter (zipped e t) as) = puts_of e out t (filter (zipped e t) as)"
    proof -
      have "open_zip e b ?t2 = open_zip e b t" if "b \<in> set as" for b by (rule open_zip_same [OF same [OF that]])
      then show ?thesis unfolding puts_of_def by (intro arg_cong [where f = concat] map_cong) auto
    qed
    have p2: "puts_of e out t (filter (zipped e t) (a # as)) = puts_of e out t [a] @ puts_of e out t (filter (zipped e t) as)"
      using unpack(2) by (simp add: puts_of_def)
    have d2: "data_at ?t2 q = (if XE_rm e a \<and> q = [a] then None
        else case last_put (puts_of e out t [a]) q of None \<Rightarrow> data_at t q | Some b \<Rightarrow> Some b)"
      by (rule rm_extracted [OF dn assms(3) unpack(2)]) (use Cons.prems(2) in auto)
    let ?E = "\<exists>b \<in> set as. zipped e t b \<and> XE_rm e b \<and> q = [b]" and ?F = "XE_rm e a \<and> q = [a]"
      and ?L = "last_put (puts_of e out t (filter (zipped e t) as)) q" and ?M = "last_put (puts_of e out t [a]) q"
    have "(\<exists>b \<in> set as. zipped e ?t2 b \<and> XE_rm e b \<and> q = [b]) \<longleftrightarrow> ?E" using zipped_same [OF same] by blast
    from IH [OF sep loop, unfolded z p d2 this]
    have r: "err = None" "n' = Suc n + length (filter (zipped e t) as)"
      "data_at t' q = (case ?L of Some b \<Rightarrow> Some b | None \<Rightarrow> if ?E then None else if ?F then None
         else case ?M of None \<Rightarrow> data_at t q | Some b \<Rightarrow> Some b)" by blast+
    have ex: "(\<exists>b \<in> set (a # as). zipped e t b \<and> XE_rm e b \<and> q = [b]) \<longleftrightarrow> ?E \<or> ?F" using unpack(2) by auto
    have "last_put (puts_of e out t [a]) [b] = None" if "b \<in> set (a # as)" for b
      using Cons.prems(2) that assms(3) by (intro puts_of_spared) auto
    then have "?M = None" if "?E \<or> ?F" using that by auto
    then have "data_at t' q = (case (case ?L of None \<Rightarrow> ?M | Some b \<Rightarrow> Some b) of Some b \<Rightarrow> Some b
        | None \<Rightarrow> if ?E \<or> ?F then None else data_at t q)"
      unfolding r(3) by (cases ?L; cases ?M; cases "?E \<or> ?F") auto
    then show ?thesis unfolding ex p2 last_put_append using r(1,2) unpack(2) by simp
  qed (use Cons.prems(3) in simp)
qed

section \<open>The other stages\<close>

lemma remove_matching_data:
  "data_at (remove_matching e f names t) q =
     (if q \<noteq> [] \<and> hd q \<in> set names \<and> f (hd q) \<and> XE_rm e (hd q) then None else data_at t q)"
proof -
  have "data_at (foldl (\<lambda>s n. rm_file e n s) t ns) q =
      (if q \<noteq> [] \<and> hd q \<in> set ns \<and> XE_rm e (hd q) then None else data_at t q)" for ns
    by (induction ns arbitrary: t) (auto simp: rm_file_def data_at_rm_entry)
  then show ?thesis by (auto simp: remove_matching_def)
qed

text \<open>A stage touches a file only as one of its runs or removals does.\<close>

lemma unpack_jobs_data:
  assumes "\<forall>a stem s. (a, stem) \<in> set js \<longrightarrow> data_at (fst (go a s)) q = data_at s q"
    and "\<forall>a stem s s'. (a, stem) \<in> set js \<longrightarrow> clean a stem s = Some s' \<longrightarrow>
      data_at s' q = data_at s q \<or> data_at s' q = None \<and> swept a stem q"
    and "unpack_jobs e stops go clean js t n err = Some (t', n', err')"
  shows "data_at t' q = data_at t q \<or> data_at t' q = None \<and> (\<exists>(a, stem) \<in> set js. swept a stem q)"
  using assms
proof (induction js arbitrary: t n err)
  case (Cons j js)
  obtain a stem where j: "j = (a, stem)" by (cases j)
  obtain t1 r where go: "go a t = (t1, r)" by fastforce
  have t1: "data_at t1 q = data_at t q" using Cons.prems(1) go j by (metis fst_conv list.set_intros(1))
  have IH: "data_at t' q = data_at s q \<or> data_at t' q = None \<and> (\<exists>(a, stem) \<in> set js. swept a stem q)"
    if "unpack_jobs e stops go clean js s m er = Some (t', n', err')" for s m er
    using Cons.IH [OF _ _ that] Cons.prems(1,2) by auto
  show ?case
  proof (cases "stops \<and> XE_stop e a")
    case True
    then show ?thesis using Cons.prems(3) by (simp add: j)
  next
    case False
    show ?thesis
    proof (cases r)
      case (Some er)
      then have "unpack_jobs e stops go clean js t1 n (Some er) = Some (t', n', err')"
        using Cons.prems(3) False go by (simp add: j del: de_Morgan_conj)
      from IH [OF this] show ?thesis unfolding t1 by auto
    next
      case None
      then obtain t2 where t2: "clean a stem t1 = Some t2" "unpack_jobs e stops go clean js t2 (Suc n) err = Some (t', n', err')"
        using Cons.prems(3) False go by (auto simp: j simp del: de_Morgan_conj split: option.splits)
      have "data_at t2 q = data_at t q \<or> data_at t2 q = None \<and> swept a stem q"
        using Cons.prems(2) t2(1) t1 j by (metis list.set_intros(1))
      then show ?thesis using IH [OF t2(2)] by (auto simp: j)
    qed
  qed
qed simp

text \<open>The only panic is a stem that is not UTF-8.\<close>

lemma unpack_jobs_panic:
  assumes "unpack_jobs e stops go clean js t n err = None"
    and "\<forall>a stem s. (a, stem) \<in> set js \<longrightarrow> clean a stem s = None \<longrightarrow> \<not> utf8_ok stem"
  shows "\<exists>(a, stem) \<in> set js. \<not> utf8_ok stem"
  using assms
proof (induction js arbitrary: t n err)
  case (Cons j js)
  obtain a stem where j: "j = (a, stem)" by (cases j)
  show ?case
  proof (cases "utf8_ok stem")
    case True
    then have ne: "clean a stem s \<noteq> None" for s using Cons.prems(2) j by auto
    obtain t1 r where go: "go a t = (t1, r)" by fastforce
    have rest: "\<forall>a stem s. (a, stem) \<in> set js \<longrightarrow> clean a stem s = None \<longrightarrow> \<not> utf8_ok stem"
      using Cons.prems(2) by (meson list.set_intros(2))
    have "\<exists>s m er. unpack_jobs e stops go clean js s m er = None"
    proof (cases r)
      case None
      obtain t2 where "clean a stem t1 = Some t2" using ne by blast
      then show ?thesis using Cons.prems(1) go None by (auto simp: j split: if_splits)
    next
      case (Some er)
      then show ?thesis using Cons.prems(1) go by (auto simp: j split: if_splits)
    qed
    then obtain s m er where "unpack_jobs e stops go clean js s m er = None" by blast
    from Cons.IH [OF this rest] show ?thesis by auto
  qed (auto simp: j)
qed simp

lemma set_matcher_panic: "set_matcher tails stem = None \<longleftrightarrow> \<not> utf8_ok stem"
  by (simp add: set_matcher_def)

lemma clean_panic:
  "remove_set e names tails stem t = None \<longleftrightarrow> \<not> utf8_ok stem"
  "removeArchiveAndPar2 e names a stem t = None \<longleftrightarrow> \<not> utf8_ok stem"
  "removeISOSet e names a stem t = None \<longleftrightarrow> \<not> utf8_ok stem"
  by (auto simp: remove_set_def removeArchiveAndPar2_def removeISOSet_def par2MatcherFor_def set_matcher_panic Let_def
      split: option.splits)
    (auto simp: set_matcher_def split: if_splits)

section \<open>The names a set has\<close>

text \<open>What the matcher of a set takes, without the expressions.\<close>

lemma fit_set:
  "re_fit (re_seq [Bol, word_ci stem, tails, Eol]) b x r cs \<longleftrightarrow>
     b \<and> r = [] \<and> (\<exists>w v. x = w @ v \<and> to_lower w = to_lower stem \<and> re_fit tails (w = []) v [] cs)"
  by (cases b) (auto simp: re_fit_word)

lemma set_matcher_iff:
  assumes "set_matcher tails stem = Some f"
  shows "f n \<longleftrightarrow> (\<exists>w v cs. n = w @ v \<and> to_lower w = to_lower stem \<and> re_fit tails (w = []) v [] cs)"
proof -
  have f: "f n \<longleftrightarrow> re_search (re_seq [Bol, word_ci stem, tails, Eol]) n \<noteq> None"
    using assms by (auto simp: set_matcher_def split: if_splits)
  show ?thesis unfolding f re_search_none fit_set by auto
qed

text \<open>The tails, in lower case.\<close>

definition rar_tail :: "string \<Rightarrow> bool" where
  "rar_tail v \<longleftrightarrow> v = ''.rar'' \<or> (\<exists>d. d \<noteq> [] \<and> list_all is_digit d \<and> v = ''.part'' @ d @ ''.rar'')
     \<or> (\<exists>c d. c \<in> set ''rs'' \<and> length d \<in> {2, 3} \<and> list_all is_digit d \<and> v = CHR ''.'' # c # d)"

definition par2_tail :: "string \<Rightarrow> bool" where
  "par2_tail v \<longleftrightarrow> v = ''.par2'' \<or> (\<exists>d d'. d \<noteq> [] \<and> d' \<noteq> [] \<and> list_all is_digit d \<and> list_all is_digit d'
     \<and> v = ''.vol'' @ d @ ''+'' @ d' @ ''.par2'')"

definition sevenz_tail :: "string \<Rightarrow> bool" where
  "sevenz_tail v \<longleftrightarrow> v = ''.7z'' \<or> (\<exists>d. length d = 3 \<and> list_all is_digit d \<and> v = ''.7z.'' @ d)"

definition other_tail :: "string \<Rightarrow> bool" where
  "other_tail v \<longleftrightarrow> v \<in> set ([''.zip'', ''.iso'', ''.lzh'', ''.lha'', ''.cab'', ''.arj'', ''.cpio''] @ map fst tarFormats)"

lemma lower_digits: "list_all is_digit d \<Longrightarrow> to_lower d = d"
  by (induction d) (auto simp: to_lower_def digit_not_upper)

lemma low_tails:
  "to_lower ''.part'' = ''.part''" "to_lower ''.rar'' = ''.rar''" "to_lower ''.r'' = ''.r''" "to_lower ''.s'' = ''.s''"
  "to_lower ''.vol'' = ''.vol''" "to_lower ''+'' = ''+''" "to_lower ''.par2'' = ''.par2''" "to_lower ''.7z'' = ''.7z''"
  "to_lower ''.'' = ''.''" "to_lower ''.7z.'' = ''.7z.''"
  by code_simp+

lemmas fit_tails = re_alt.simps re_seq.simps re_fit.simps re_fit_word re_fit_opt digits_re_def option.case low_tails

lemma fit_rar: "re_fit rar_tails b v [] cs \<Longrightarrow> rar_tail (to_lower v)"
proof -
  assume fit: "re_fit rar_tails b v [] cs"
  then consider u d w where "v = u @ d @ w" "to_lower u = ''.part''" "1 \<le> length d" "list_all is_digit d" "to_lower w = ''.rar''"
    | u d where "v = u @ d" "to_lower u = ''.r'' \<or> to_lower u = ''.s''" "list_all is_digit d" "2 \<le> length d" "length d \<le> 3"
    | "to_lower v = ''.rar''"
    unfolding rar_tails_def fit_tails by blast
  then show ?thesis
  proof cases
    case 1
    then have "d \<noteq> []" by auto
    then show ?thesis using 1 by (auto simp: rar_tail_def lower_digits)
  next
    case 2
    obtain c where c: "c \<in> set ''rs''" "to_lower u = [CHR ''.'', c]" using 2(2) by auto
    have "to_lower v = CHR ''.'' # c # d" unfolding 2(1) to_lower_append c(2) lower_digits [OF 2(3)] by simp
    moreover have "length d \<in> {2, 3}" using 2(4,5) by auto
    ultimately show ?thesis unfolding rar_tail_def using c(1) 2(3) by blast
  qed (simp add: rar_tail_def)
qed

lemma fit_par2: "re_fit par2_tails b v [] cs \<Longrightarrow> par2_tail (to_lower v)"
proof -
  assume fit: "re_fit par2_tails b v [] cs"
  then consider u d p d' w where "v = u @ d @ p @ d' @ w" "to_lower u = ''.vol''" "1 \<le> length d" "list_all is_digit d"
      "to_lower p = ''+''" "1 \<le> length d'" "list_all is_digit d'" "to_lower w = ''.par2''"
    | "to_lower v = ''.par2''"
    unfolding par2_tails_def fit_tails by force
  then show ?thesis
  proof cases
    case 1
    then have "d \<noteq> []" "d' \<noteq> []" by auto
    then show ?thesis using 1 by (auto simp: par2_tail_def lower_digits)
  qed (simp add: par2_tail_def)
qed

lemma fit_7z: "re_fit sevenz_tails b v [] cs \<Longrightarrow> sevenz_tail (to_lower v)"
proof -
  assume fit: "re_fit sevenz_tails b v [] cs"
  then consider u p d where "v = u @ p @ d" "to_lower u = ''.7z''" "to_lower p = ''.''" "length d = 3" "list_all is_digit d"
    | "to_lower v = ''.7z''"
    unfolding sevenz_tails_def fit_tails by force
  then show ?thesis by cases (auto simp: sevenz_tail_def lower_digits)
qed

section \<open>The six stages\<close>

text \<open>Steps 4.5 to 4.10 of \<^verbatim>\<open>Publish\<close>: what a stage returns is only logged.\<close>

fun run_stages :: "(fnode \<Rightarrow> ext_result) list \<Rightarrow> fnode \<Rightarrow> fnode option" where
  "run_stages [] t = Some t"
| "run_stages (s # ss) t = (case s t of None \<Rightarrow> None | Some (t', n, err) \<Rightarrow> run_stages ss t')"

definition unpackArchives :: "ext_env \<Rightarrow> fnode \<Rightarrow> fnode option" where
  "unpackArchives e t =
     run_stages [ExtractRARArchives e, \<lambda>t. Some (ExtractZIPArchives e t), Extract7zArchives e, ExtractISOArchives e,
       ExtractTarArchives e, ExtractMiscArchives e] t"

text \<open>A name some stage takes for an archive, a volume or a recovery file.\<close>

definition sweepable :: "string \<Rightarrow> bool" where
  "sweepable n \<longleftrightarrow> (\<exists>w v. n = w @ v \<and>
     (rar_tail (to_lower v) \<or> par2_tail (to_lower v) \<or> sevenz_tail (to_lower v) \<or> other_tail (to_lower v)))"

lemma matched_sweepable:
  "volumeMatcherFor stem = Some f \<Longrightarrow> f n \<Longrightarrow> sweepable n"
  "par2MatcherFor stem = Some f \<Longrightarrow> f n \<Longrightarrow> sweepable n"
  "set_matcher sevenz_tails stem = Some f \<Longrightarrow> f n \<Longrightarrow> sweepable n"
  unfolding volumeMatcherFor_def par2MatcherFor_def sweepable_def
  using set_matcher_iff [of rar_tails stem f n] fit_rar apply blast
  using set_matcher_iff [of par2_tails stem f n] fit_par2 apply blast
  using set_matcher_iff [of sevenz_tails stem f n] fit_7z by blast

lemma re_seq_Cons: "es \<noteq> [] \<Longrightarrow> re_seq (x # es) = Seq x (re_seq es)"
  by (cases es) auto

lemma fit_to_end: "re_fit (re_seq (es @ [Eol])) b v r cs \<Longrightarrow> r = []"
  by (induction es arbitrary: b v cs) (auto simp: re_seq_Cons)

lemma fit_stem:
  assumes "re_search (stem_re tail) n = Some m"
  obtains w v cs where "n = w @ v" "re_fit (re_seq (tail @ [Eol])) False v [] cs" "m = w # cs"
proof -
  from re_search_some [OF assms] obtain p x r where x: "n = p @ x @ r" "re_fit (stem_re tail) (p = []) x r m" by blast
  then have p: "p = []" by (auto simp: stem_re_def re_seq_Cons)
  obtain w v cs where v: "x = w @ v" "Suc 0 \<le> length w" "re_fit (re_seq (tail @ [Eol])) (w = []) v r cs" "m = w # cs"
    using x(2) by (auto simp: stem_re_def re_seq_Cons)
  then have "(w = []) = False" by auto
  then show thesis using that [of w v cs] x(1) p v fit_to_end [OF v(3)] by simp
qed

lemma stem_sweepable:
  assumes "re_search (stem_re tail) n = Some m"
    and "\<And>v cs. re_fit (re_seq (tail @ [Eol])) False v [] cs \<Longrightarrow>
      rar_tail (to_lower v) \<or> par2_tail (to_lower v) \<or> sevenz_tail (to_lower v) \<or> other_tail (to_lower v)"
  shows "sweepable n"
  using fit_stem [OF assms(1)] assms(2) unfolding sweepable_def by metis

lemma low_other:
  "to_lower ''.iso'' = ''.iso''" "to_lower ''lzh'' = ''lzh''" "to_lower ''lha'' = ''lha''" "to_lower ''.cab'' = ''.cab''"
  "to_lower ''.arj'' = ''.arj''" "to_lower ''.cpio'' = ''.cpio''"
  by code_simp+

lemma iso_sweepable: "re_search isoRE n = Some m \<Longrightarrow> sweepable n"
  unfolding isoRE_def by (erule stem_sweepable) (auto simp: fit_tails low_other other_tail_def simp del: word_ci.simps)

lemma misc_sweepable: "r \<in> set miscFormats \<Longrightarrow> re_search r n = Some m \<Longrightarrow> sweepable n"
proof -
  assume "r \<in> set miscFormats" and s: "re_search r n = Some m"
  then consider "r = stem_re [word_ci ''.'', re_alt [word_ci ''lzh'', word_ci ''lha'']]" | "r = stem_re [word_ci ''.cab'']"
    | "r = stem_re [word_ci ''.arj'']" | "r = stem_re [word_ci ''.cpio'']"
    unfolding miscFormats_def by (auto simp del: word_ci.simps)
  then show ?thesis
  proof cases
    case 1
    show ?thesis
    proof (rule stem_sweepable [OF s [unfolded 1]])
      fix v cs assume "re_fit (re_seq ([word_ci ''.'', re_alt [word_ci ''lzh'', word_ci ''lha'']] @ [Eol])) False v [] cs"
      then have "to_lower v = ''.lzh'' \<or> to_lower v = ''.lha''"
        unfolding append.simps fit_tails low_other by force
      then show "rar_tail (to_lower v) \<or> par2_tail (to_lower v) \<or> sevenz_tail (to_lower v) \<or> other_tail (to_lower v)"
        by (auto simp: other_tail_def)
    qed
  next
    case 2
    show ?thesis
      by (rule stem_sweepable [OF s [unfolded 2]]) (auto simp: fit_tails low_other other_tail_def simp del: word_ci.simps)
  next
    case 3
    show ?thesis
      by (rule stem_sweepable [OF s [unfolded 3]]) (auto simp: fit_tails low_other other_tail_def simp del: word_ci.simps)
  next
    case 4
    show ?thesis
      by (rule stem_sweepable [OF s [unfolded 4]]) (auto simp: fit_tails low_other other_tail_def simp del: word_ci.simps)
  qed
qed

lemma tar_sweepable: "tar_format n = Some (suf, dec) \<Longrightarrow> sweepable n"
proof -
  assume "tar_format n = Some (suf, dec)"
  then have "(suf, dec) \<in> set tarFormats" "has_suffix (to_lower n) suf"
    by (auto simp: tar_format_def find_Some_iff) (metis nth_mem)
  moreover then obtain x where "to_lower n = x @ suf" by (auto simp: has_suffix_def suffix_def)
  then have "to_lower (drop (length x) n) = suf" by (simp add: to_lower_def flip: drop_map)
  ultimately have "other_tail (to_lower (drop (length x) n))" by (force simp: other_tail_def)
  then show ?thesis unfolding sweepable_def using append_take_drop_id [of "length x" n] by metis
qed

lemma zip_sweepable: "is_zip n \<Longrightarrow> sweepable n"
  using file_ext_shape [of n] by (force simp: is_zip_def sweepable_def other_tail_def)

section \<open>What the stages keep\<close>

definition tar_spares :: "ext_env \<Rightarrow> fpath \<Rightarrow> string \<Rightarrow> bool" where
  "tar_spares e q a \<longleftrightarrow>
     (\<forall>dec b hs fin out. XE_tar e a dec b = Some (hs, fin) \<longrightarrow> XE_out e = Some out \<longrightarrow> q \<notin> fst ` set (tar_puts out hs))"

text \<open>No extraction writes \<open>q\<close>: neither the program's own nor a tool's.\<close>

definition ext_spares :: "ext_env \<Rightarrow> fpath \<Rightarrow> bool" where
  "ext_spares e q \<longleftrightarrow> (\<forall>a. zip_spares e q a \<and> tar_spares e q a)
     \<and> (\<forall>args s. data_at (fst (XE_tool e args s)) q = data_at s q)"

lemma extractOneTar_other: "tar_spares e q a \<Longrightarrow> data_at (fst (extractOneTar e a t)) q = data_at t q"
proof -
  assume a: "tar_spares e q a"
  have s: "data_at (fst (tar_stream e a dec t)) q = data_at t q" for dec
  proof (cases "Option.bind (data_at t [a]) (XE_tar e a dec)")
    case (Some r)
    obtain hs fin where r: "r = (hs, fin)" by fastforce
    have "q \<notin> fst ` set (tar_puts out hs)" if "XE_out e = Some out" for out
      using a Some that unfolding tar_spares_def r bind_eq_Some_conv by metis
    then show ?thesis using Some by (auto simp: tar_stream_def r tar_entries_other split: option.splits)
  qed (simp add: tar_stream_def)
  then show ?thesis
    by (auto simp: extractOneTar_def extractTarVia7z_def split: option.splits prod.splits) (metis fst_conv)+
qed

lemma set_keeps:
  assumes "\<not> sweepable (hd q)" and "remove_set e names tails stem s = Some s'"
    and "\<And>f n. set_matcher tails stem = Some f \<Longrightarrow> f n \<Longrightarrow> sweepable n"
  shows "data_at s' q = data_at s q"
proof (cases "set_matcher tails stem"; cases "par2MatcherFor stem")
  fix f p assume f: "set_matcher tails stem = Some f" and p: "par2MatcherFor stem = Some p"
  then have "s' = remove_matching e (\<lambda>n. f n \<or> p n) names s" using assms(2) by (simp add: remove_set_def)
  then show ?thesis using assms(1,3) f matched_sweepable(2) [OF p] by (auto simp: remove_matching_data)
qed (use assms(2) in \<open>auto simp: remove_set_def\<close>)

lemma sweeps_keep:
  assumes "\<not> sweepable (hd q)"
  shows "removeRARSet e names stem s = Some s' \<Longrightarrow> data_at s' q = data_at s q"
    and "remove7zSet e names stem s = Some s' \<Longrightarrow> data_at s' q = data_at s q"
    and "sweepable a \<Longrightarrow> removeArchiveAndPar2 e names a stem s = Some s' \<Longrightarrow> data_at s' q = data_at s q"
    and "sweepable a \<Longrightarrow> removeISOSet e names a stem s = Some s' \<Longrightarrow> data_at s' q = data_at s q"
  using assms set_keeps [OF assms, of e names rar_tails stem s s'] set_keeps [OF assms, of e names sevenz_tails stem s s']
    matched_sweepable [of stem]
  by (auto simp: removeRARSet_def remove7zSet_def removeArchiveAndPar2_def removeISOSet_def remove_matching_data
      rm_file_def data_at_rm_entry Let_def volumeMatcherFor_def)

lemma job_sweepable:
  "stem_job rs n = Some (a, stem) \<Longrightarrow> rs = [isoRE] \<or> rs = miscFormats \<Longrightarrow> sweepable a"
  "tar_job n = Some (a, stem) \<Longrightarrow> sweepable a"
proof -
  assume "stem_job rs n = Some (a, stem)" and rs: "rs = [isoRE] \<or> rs = miscFormats"
  then obtain r m where "find (\<lambda>r. re_search r n \<noteq> None) rs = Some r" "re_search r n = Some m" "a = n"
    by (auto simp: stem_job_def bind_eq_Some_conv)
  then have "r \<in> set rs" by (auto simp: find_Some_iff)
  then show "sweepable a" using rs iso_sweepable misc_sweepable \<open>re_search r n = Some m\<close> \<open>a = n\<close> by auto
next
  assume "tar_job n = Some (a, stem)"
  then show "sweepable a" using tar_sweepable by (auto simp: tar_job_def)
qed

lemma jobs_sweepable:
  "(a, stem) \<in> set (List.map_filter (stem_job [isoRE]) names) \<Longrightarrow> sweepable a"
  "(a, stem) \<in> set (List.map_filter (stem_job miscFormats) names) \<Longrightarrow> sweepable a"
  "(a, stem) \<in> set (List.map_filter tar_job names) \<Longrightarrow> sweepable a"
  using job_sweepable(1) [of "[isoRE]"] job_sweepable(1) [of miscFormats] job_sweepable(2)
  by (auto simp: List.map_filter_def)

lemma jobs_keep:
  assumes go: "\<And>a s. data_at (fst (go a s)) q = data_at s q"
    and clean: "\<And>a stem s s'. (a, stem) \<in> set js \<Longrightarrow> clean a stem s = Some s' \<Longrightarrow> data_at s' q = data_at s q"
    and "unpack_jobs e st go clean js t 0 None = Some (u, n, er)"
  shows "data_at u q = data_at t q"
  using unpack_jobs_data [of js go q clean "\<lambda>a s q. False" e st t 0 None u n er] assms by auto

lemma stage_keeps:
  assumes "ext_spares e q" and "\<not> sweepable (hd q)"
  shows "ExtractRARArchives e t = Some (t', n, err) \<Longrightarrow> data_at t' q = data_at t q"
    and "data_at (fst (ExtractZIPArchives e t)) q = data_at t q"
    and "Extract7zArchives e t = Some (t', n, err) \<Longrightarrow> data_at t' q = data_at t q"
    and "ExtractISOArchives e t = Some (t', n, err) \<Longrightarrow> data_at t' q = data_at t q"
    and "ExtractTarArchives e t = Some (t', n, err) \<Longrightarrow> data_at t' q = data_at t q"
    and "ExtractMiscArchives e t = Some (t', n, err) \<Longrightarrow> data_at t' q = data_at t q"
proof -
  have tool: "data_at (fst (XE_tool e args s)) q = data_at s q" for args s using assms(1) by (simp add: ext_spares_def)
  have rar: "data_at (fst (extractOneRAR e a s)) q = data_at s q" for a s by (simp add: extractOneRAR_def tool)
  have sz: "data_at (fst (extractOne7z e a s)) q = data_at s q" for a s by (simp add: extractOne7z_def tool)
  have tar: "data_at (fst (extractOneTar e a s)) q = data_at s q" for a s
    using assms(1) by (intro extractOneTar_other) (simp add: ext_spares_def)
  note sweep = sweeps_keep [OF assms(2)] and jobs = jobs_keep
  show "ExtractRARArchives e t = Some (t', n, err) \<Longrightarrow> data_at t' q = data_at t q"
    by (auto simp: ExtractRARArchives_def split: if_splits option.splits intro: jobs [OF rar sweep(1)])
  show "Extract7zArchives e t = Some (t', n, err) \<Longrightarrow> data_at t' q = data_at t q"
    by (auto simp: Extract7zArchives_def with_7z_def split: if_splits option.splits intro: jobs [OF sz sweep(2)])
  have iso: "data_at s' q = data_at s q" if "(a, stem) \<in> set (List.map_filter (stem_job [isoRE]) names)"
      "removeISOSet e ns a stem s = Some s'" for a stem names ns s s'
    by (rule sweep(4) [OF jobs_sweepable(1) [OF that(1)] that(2)])
  show "ExtractISOArchives e t = Some (t', n, err) \<Longrightarrow> data_at t' q = data_at t q"
    by (auto simp: ExtractISOArchives_def with_7z_def split: if_splits option.splits intro: jobs [OF sz iso])
  have misc: "data_at s' q = data_at s q" if "(a, stem) \<in> set (List.map_filter (stem_job miscFormats) names)"
      "removeArchiveAndPar2 e ns a stem s = Some s'" for a stem names ns s s'
    by (rule sweep(3) [OF jobs_sweepable(2) [OF that(1)] that(2)])
  show "ExtractMiscArchives e t = Some (t', n, err) \<Longrightarrow> data_at t' q = data_at t q"
    by (auto simp: ExtractMiscArchives_def with_7z_def split: if_splits option.splits intro: jobs [OF sz misc])
  have tars: "data_at s' q = data_at s q" if "(a, stem) \<in> set (List.map_filter tar_job names)"
      "removeArchiveAndPar2 e ns a stem s = Some s'" for a stem names ns s s'
    by (rule sweep(3) [OF jobs_sweepable(3) [OF that(1)] that(2)])
  show "ExtractTarArchives e t = Some (t', n, err) \<Longrightarrow> data_at t' q = data_at t q"
    by (auto simp: ExtractTarArchives_def split: option.splits intro: jobs [OF tar tars])
  show "data_at (fst (ExtractZIPArchives e t)) q = data_at t q"
  proof (cases "top_files t")
    case (Some names)
    have "\<forall>a \<in> set (filter is_zip names). zip_spares e q a" using assms(1) by (simp add: ext_spares_def)
    from zip_loop_other [OF this, of t 0 None] show ?thesis
      using assms(2) zip_sweepable by (auto simp: ExtractZIPArchives_def Some)
  qed (simp add: ExtractZIPArchives_def)
qed

lemma run_stages_keep:
  "(\<forall>s \<in> set ss. \<forall>t t' n err. s t = Some (t', n, err) \<longrightarrow> data_at t' q = data_at t q) \<Longrightarrow> run_stages ss t = Some u
   \<Longrightarrow> data_at u q = data_at t q"
proof (induction ss arbitrary: t)
  case (Cons s ss)
  from Cons.prems(2) obtain t' n err where s: "s t = Some (t', n, err)" "run_stages ss t' = Some u"
    by (auto split: option.splits)
  then show ?case using Cons.IH [OF _ s(2)] Cons.prems(1) by auto
qed simp

text \<open>A stage directory without such names passes unchanged.\<close>

lemma rar_sweepable: "rarFirstVolumeBase n = Some b \<Longrightarrow> sweepable n"
proof -
  assume "rarFirstVolumeBase n = Some b"
  then obtain m where "re_search rarPartRE n = Some m \<or> re_search rarPlainRE n = Some m"
    by (auto simp: rarFirstVolumeBase_def split: option.splits)
  then show ?thesis
  proof
    assume s: "re_search rarPartRE n = Some m"
    show ?thesis
    proof (rule stem_sweepable [OF s [unfolded rarPartRE_def]])
      fix v cs
      assume "re_fit (re_seq ([word_ci ''.part'', Grp (Many is_digit 1 None), word_ci ''.rar''] @ [Eol])) False v [] cs"
      then obtain u d w where v: "v = u @ d @ w" "to_lower u = ''.part''" "1 \<le> length d" "list_all is_digit d" "to_lower w = ''.rar''"
        unfolding append.simps fit_tails by force
      then have "d \<noteq> []" by auto
      then show "rar_tail (to_lower v) \<or> par2_tail (to_lower v) \<or> sevenz_tail (to_lower v) \<or> other_tail (to_lower v)"
        using v by (auto simp: rar_tail_def lower_digits)
    qed
  next
    assume s: "re_search rarPlainRE n = Some m"
    show ?thesis
      by (rule stem_sweepable [OF s [unfolded rarPlainRE_def]])
        (auto simp: fit_tails rar_tail_def simp del: word_ci.simps)
  qed
qed

lemma sevenz_sweepable: "sevenz_job n = Some j \<Longrightarrow> sweepable n"
proof -
  assume "sevenz_job n = Some j"
  then obtain m where "re_search sevenZSplitRE n = Some m \<or> re_search sevenZPlainRE n = Some m"
    by (auto simp: sevenz_job_def split: option.splits if_splits)
  then show ?thesis
  proof
    assume s: "re_search sevenZSplitRE n = Some m"
    show ?thesis
    proof (rule stem_sweepable [OF s [unfolded sevenZSplitRE_def]])
      fix v cs
      assume "re_fit (re_seq ([word_ci ''.7z.'', Grp (Many is_digit 3 (Some 3))] @ [Eol])) False v [] cs"
      then obtain u d where v: "v = u @ d" "to_lower u = ''.7z.''" "length d = 3" "list_all is_digit d"
        unfolding append.simps fit_tails by force
      then show "rar_tail (to_lower v) \<or> par2_tail (to_lower v) \<or> sevenz_tail (to_lower v) \<or> other_tail (to_lower v)"
        by (auto simp: sevenz_tail_def lower_digits)
    qed
  next
    assume s: "re_search sevenZPlainRE n = Some m"
    show ?thesis
      by (rule stem_sweepable [OF s [unfolded sevenZPlainRE_def]])
        (auto simp: fit_tails sevenz_tail_def simp del: word_ci.simps)
  qed
qed

lemma map_filter_none: "(\<forall>n \<in> set names. f n = None) \<Longrightarrow> List.map_filter f names = []"
  by (induction names) (auto simp: map_filter_simps)

theorem unpack_without_archives:
  assumes "top_files t = Some names" and "\<forall>n \<in> set names. \<not> sweepable n"
  shows "unpackArchives e t = Some t"
proof -
  have "rarFirstVolumeBase n = None" if "n \<in> set names" for n
    using assms(2) rar_sweepable [of n] that by (cases "rarFirstVolumeBase n") auto
  then have "rar_jobs names = []" unfolding rar_jobs_def by (intro map_filter_none) simp
  moreover have "sevenz_job n = None" if "n \<in> set names" for n
    using assms(2) sevenz_sweepable [of n] that by (cases "sevenz_job n") auto
  then have "List.map_filter sevenz_job names = []" by (intro map_filter_none) simp
  moreover have "stem_job rs n = None" if "n \<in> set names" "rs = [isoRE] \<or> rs = miscFormats" for rs n
  proof (cases "stem_job rs n")
    case (Some j)
    then have "fst j = n" by (auto simp: stem_job_def bind_eq_Some_conv)
    then show ?thesis using Some job_sweepable(1) [of rs n n "snd j"] assms(2) that by (cases j) auto
  qed
  then have "List.map_filter (stem_job rs) names = []" if "rs = [isoRE] \<or> rs = miscFormats" for rs
    using that by (intro map_filter_none) simp
  moreover have "tar_format n = None" if "n \<in> set names" for n
    using assms(2) tar_sweepable [of n] that by (cases "tar_format n") auto
  then have "List.map_filter tar_job names = []" by (intro map_filter_none) (simp add: tar_job_def)
  moreover have "filter is_zip names = []" using assms(2) zip_sweepable by (auto simp: filter_empty_conv)
  ultimately show ?thesis
    by (simp add: unpackArchives_def ExtractRARArchives_def ExtractZIPArchives_def Extract7zArchives_def
        ExtractISOArchives_def ExtractMiscArchives_def ExtractTarArchives_def with_7z_def assms(1))
qed

section \<open>Properties\<close>

text \<open>What is bound to a name in an environment.\<close>

definition bound_to :: "string list \<Rightarrow> string \<Rightarrow> string list" where
  "bound_to vars name =
     List.map_filter (\<lambda>kv. if has_prefix kv (name @ ''='') then Some (drop (Suc (length name)) kv) else None) vars"

lemma env_key_bound:
  assumes "name \<noteq> []" and "CHR ''='' \<notin> set name" and "has_prefix kv (name @ ''='')"
  shows "env_key kv = Some name"
proof -
  obtain v where kv: "kv = name @ CHR ''='' # v" using assms(3) by (auto simp: has_prefix_iff)
  have "takeWhile (\<lambda>c. c \<noteq> CHR ''='') (name @ CHR ''='' # v) = name"
    using assms(2) by (subst takeWhile_append2) auto
  moreover have "hd kv \<noteq> CHR ''=''" using assms(1,2) kv by (cases name) auto
  ultimately show ?thesis by (simp add: env_key_def kv)
qed

text \<open>A tool gets no variable whose name is secret, and every other variable with the values it had.\<close>

theorem toolEnv_scrubbed:
  assumes "name \<noteq> []" and "CHR ''='' \<notin> set name"
  shows "bound_to (toolEnv vars) name = (if secretEnvKey name then [] else bound_to vars name)"
proof (induction vars)
  case Nil
  then show ?case by (simp add: bound_to_def toolEnv_def map_filter_simps)
next
  case (Cons kv vars)
  have "env_key kv = Some name" if "has_prefix kv (name @ ''='')" by (rule env_key_bound [OF assms that])
  then show ?case using Cons by (auto simp: bound_to_def toolEnv_def map_filter_simps split: option.splits if_splits)
qed

theorem toolEnv_scrubbed_witness:
  "bound_to (toolEnv [''PATH=/bin'', ''NNTP_PASS=x'', ''nntp_pass=y'', ''A=b=c'']) ''NNTP_PASS'' = []
   \<and> bound_to (toolEnv [''PATH=/bin'', ''NNTP_PASS=x'', ''nntp_pass=y'', ''A=b=c'']) ''A'' = [''b=c'']"
proof -
  have s: "secretEnvKey ''NNTP_PASS''" "\<not> secretEnvKey ''A''"
    "bound_to [''PATH=/bin'', ''NNTP_PASS=x'', ''nntp_pass=y'', ''A=b=c''] ''A'' = [''b=c'']" by code_simp+
  show ?thesis using toolEnv_scrubbed [of "''NNTP_PASS''"] toolEnv_scrubbed [of "''A''"] s by simp
qed

text \<open>
  C21. An entry of an archive is taken exactly when its name, joined to the stage directory and
  cleaned, is a path below it, and that path is where it goes; every other entry is refused.
\<close>

theorem entry_target_iff:
  assumes "list_all plain_elem outs" and "outs \<noteq> []"
  shows "entry_target (abs_path outs) name = Some p
    \<longleftrightarrow> list_all plain_elem p \<and> path_join (abs_path outs) name = abs_path (outs @ p)"
  using entry_target_inside [OF assms] entry_target_below [OF assms(2)] by blast

theorem entry_target_iff_witness:
  "entry_target (abs_path [''stage'']) ''a/../b//x.mkv'' = Some [''b'', ''x.mkv'']
   \<and> entry_target (abs_path [''stage'']) ''../stage2/x'' = None
   \<and> entry_target (abs_path [''stage'']) ''/etc/passwd'' = Some [''etc'', ''passwd'']"
proof -
  have s: "list_all plain_elem [''stage'']" by code_simp
  have j: "list_all plain_elem [''b'', ''x.mkv''] \<and> path_join (abs_path [''stage'']) ''a/../b//x.mkv'' = abs_path ([''stage''] @ [''b'', ''x.mkv''])"
    "list_all plain_elem [''etc'', ''passwd''] \<and> path_join (abs_path [''stage'']) ''/etc/passwd'' = abs_path ([''stage''] @ [''etc'', ''passwd''])"
    "entry_target (abs_path [''stage'']) ''../stage2/x'' = None" by code_simp+
  show ?thesis using entry_target_iff [OF s] j by auto
qed

text \<open>
  C29. A run of the ZIP stage without an error, in which no archive writes another, removes exactly
  the archives with a compressed entry and counts them, and leaves in the stage directory what was
  there and, over it, the files of their entries with the data of the last entry of a path, cut at
  the limit; archives that only store are kept.
\<close>

theorem ExtractZIPArchives_exact:
  assumes "wf_tree t" and "top_files t = Some names" and "XE_out e = Some out"
    and "\<forall>a \<in> set (filter is_zip names). \<forall>b \<in> set (filter is_zip names). zip_spares e [b] a"
    and "ExtractZIPArchives e t = (t', n, None)"
  shows "n = length (filter (zipped e t) (filter is_zip names))
    \<and> data_at t' q = (case last_put (puts_of e out t (filter (zipped e t) (filter is_zip names))) q of
        Some b \<Rightarrow> Some b
      | None \<Rightarrow> if \<exists>a \<in> set (filter is_zip names). zipped e t a \<and> XE_rm e a \<and> q = [a] then None else data_at t q)"
proof -
  obtain xs where t: "t = FDir xs" using assms(2) by (cases t) (auto simp: top_files_def)
  then have "distinct names" using assms(1,2) by (auto simp: top_files_def distinct_map_filter)
  then have "distinct (filter is_zip names)" by simp
  moreover have "zip_loop e (filter is_zip names) t 0 None = (t', n, None)"
    using assms(5) by (simp add: ExtractZIPArchives_def assms(2))
  ultimately show ?thesis using zip_loop_done [OF _ assms(4,3), of t 0 None t' n q] by simp
qed

text \<open>
  C13. A file that no extraction writes and whose name no stage takes for an archive, a volume or a
  recovery file has the same content after the six stages.
\<close>

theorem unpackArchives_keeps:
  assumes "ext_spares e q" and "\<not> sweepable (hd q)" and "unpackArchives e t = Some t'"
  shows "data_at t' q = data_at t q"
proof (rule run_stages_keep [OF _ assms(3) [unfolded unpackArchives_def]])
  note keeps = stage_keeps [OF assms(1,2)]
  have zip: "data_at u q = data_at s q" if "ExtractZIPArchives e s = (u, n, err)" for s u n err
    using keeps(2) [of s] that by simp
  show "\<forall>s \<in> set [ExtractRARArchives e, \<lambda>t. Some (ExtractZIPArchives e t), Extract7zArchives e, ExtractISOArchives e,
      ExtractTarArchives e, ExtractMiscArchives e]. \<forall>t t' n err. s t = Some (t', n, err) \<longrightarrow> data_at t' q = data_at t q"
    unfolding list.set ball_simps using keeps(1,3-6) zip by (intro conjI allI impI) (auto simp only: option.inject)
qed

section \<open>A stage directory with archives\<close>

definition zentry :: "string \<Rightarrow> bool \<Rightarrow> bytes \<Rightarrow> zip_entry" where
  "zentry name store data = \<lparr>ZE_Name = name, ZE_NonUTF8 = False, ZE_Dir = False, ZE_Store = store, ZE_Open = True,
     ZE_Data = data, ZE_Err = False\<rparr>"

definition demo_ext :: ext_env where
  "demo_ext = \<lparr>XE_dir = ''/stage'', XE_out = Some ''/stage'', XE_stop = (\<lambda>a. False), XE_stop_entry = (\<lambda>a k. False),
     XE_zip = (\<lambda>a b. if b = [90] then Some [zentry ''d/x.mkv'' False [1], zentry ''d/x.mkv'' True [2]]
       else if b = [83] then Some [zentry ''y.mkv'' True [3]] else None),
     XE_tar = (\<lambda>a dec b. if b = [84] then Some ([\<lparr>TE_Name = ''t.mkv'', TE_Type = TypeReg, TE_Data = [4], TE_Err = False\<rparr>], None) else None),
     XE_sjis = (\<lambda>s. None), XE_gbk = (\<lambda>s. None), XE_path = (\<lambda>p. p = ''7z''), XE_tool = (\<lambda>args t. (t, None)),
     XE_wait = (\<lambda>a. None), XE_rm = (\<lambda>a. True)\<rparr>"

definition ext_demo :: fnode where
  "ext_demo = FDir [(''a.zip'', FFile [90]), (''b.mkv'', FFile [109]), (''s.zip'', FFile [83]), (''t.tar'', FFile [84]),
     (''t.vol0+1.par2'', FFile [80])]"

lemma demo_unpacked:
  "ExtractZIPArchives demo_ext ext_demo = (FDir [(''b.mkv'', FFile [109]), (''d'', FDir [(''x.mkv'', FFile [2])]), (''s.zip'', FFile [83]),
     (''t.tar'', FFile [84]), (''t.vol0+1.par2'', FFile [80])], 1, None)"
  "unpackArchives demo_ext ext_demo = Some (FDir [(''b.mkv'', FFile [109]), (''d'', FDir [(''x.mkv'', FFile [2])]),
     (''s.zip'', FFile [83]), (''t.mkv'', FFile [4])])"
  by code_simp+

lemma demo_writes:
  "XE_zip demo_ext a b = Some zs \<Longrightarrow> XE_out demo_ext = Some out \<Longrightarrow>
     fst ` set (zip_puts demo_ext out zs) \<subseteq> {[''d'', ''x.mkv''], [''y.mkv'']}"
  "XE_tar demo_ext a dec b = Some (hs, fin) \<Longrightarrow> XE_out demo_ext = Some out \<Longrightarrow> fst ` set (tar_puts out hs) \<subseteq> {[''t.mkv'']}"
proof -
  have z: "fst ` set (zip_puts demo_ext ''/stage'' [zentry ''d/x.mkv'' False [1], zentry ''d/x.mkv'' True [2]]) = {[''d'', ''x.mkv'']}"
    "fst ` set (zip_puts demo_ext ''/stage'' [zentry ''y.mkv'' True [3]]) = {[''y.mkv'']}"
    "fst ` set (tar_puts ''/stage'' [\<lparr>TE_Name = ''t.mkv'', TE_Type = TypeReg, TE_Data = [4], TE_Err = False\<rparr>]) = {[''t.mkv'']}"
    by code_simp+
  show "XE_zip demo_ext a b = Some zs \<Longrightarrow> XE_out demo_ext = Some out \<Longrightarrow>
     fst ` set (zip_puts demo_ext out zs) \<subseteq> {[''d'', ''x.mkv''], [''y.mkv'']}"
    using z by (auto simp: demo_ext_def split: if_splits)
  show "XE_tar demo_ext a dec b = Some (hs, fin) \<Longrightarrow> XE_out demo_ext = Some out \<Longrightarrow> fst ` set (tar_puts out hs) \<subseteq> {[''t.mkv'']}"
    using z by (auto simp: demo_ext_def split: if_splits)
qed

lemma demo_spares: "q \<notin> {[''d'', ''x.mkv''], [''y.mkv''], [''t.mkv'']} \<Longrightarrow> ext_spares demo_ext q"
  using demo_writes by (fastforce simp: ext_spares_def zip_spares_def tar_spares_def demo_ext_def)

theorem ExtractZIPArchives_exact_witness:
  "length (filter (zipped demo_ext ext_demo) [''a.zip'', ''s.zip'']) = 1
   \<and> data_at (fst (ExtractZIPArchives demo_ext ext_demo)) [''d'', ''x.mkv''] = Some [2]
   \<and> data_at (fst (ExtractZIPArchives demo_ext ext_demo)) [''a.zip''] = None
   \<and> data_at (fst (ExtractZIPArchives demo_ext ext_demo)) [''s.zip''] = Some [83]"
proof -
  let ?ns = "[''a.zip'', ''b.mkv'', ''s.zip'', ''t.tar'', ''t.vol0+1.par2'']"
  have wf: "wf_tree ext_demo" and names: "top_files ext_demo = Some ?ns" and out: "XE_out demo_ext = Some ''/stage''"
    and zips: "filter is_zip ?ns = [''a.zip'', ''s.zip'']" by code_simp+
  have sep: "\<forall>a \<in> set (filter is_zip ?ns). \<forall>b \<in> set (filter is_zip ?ns). zip_spares demo_ext [b] a"
    using demo_spares by (auto simp: zips ext_spares_def)
  note exact = ExtractZIPArchives_exact [OF wf names out sep demo_unpacked(1), unfolded zips]
  have f: "filter (zipped demo_ext ext_demo) [''a.zip'', ''s.zip''] = [''a.zip'']"
    "last_put (puts_of demo_ext ''/stage'' ext_demo [''a.zip'']) [''d'', ''x.mkv''] = Some [2]"
    "last_put (puts_of demo_ext ''/stage'' ext_demo [''a.zip'']) [''a.zip''] = None"
    "last_put (puts_of demo_ext ''/stage'' ext_demo [''a.zip'']) [''s.zip''] = None"
    "zipped demo_ext ext_demo ''a.zip''" "\<not> zipped demo_ext ext_demo ''s.zip''" "XE_rm demo_ext ''a.zip''"
    "data_at ext_demo [''s.zip''] = Some [83]" by code_simp+
  show ?thesis unfolding demo_unpacked(1) fst_conv
    using exact [of "[''d'', ''x.mkv'']"] exact [of "[''a.zip'']"] exact [of "[''s.zip'']"] f by simp
qed

lemma last_chr: "s @ [c] = w @ v \<Longrightarrow> v \<noteq> [] \<Longrightarrow> last v = c"
  by (metis last_appendR last_snoc)

lemma not_sweepable_mkv: "\<not> sweepable ''b.mkv''"
proof
  assume "sweepable ''b.mkv''"
  then obtain w v where n: "''b.mkv'' = w @ v" and
    t: "rar_tail (to_lower v) \<or> par2_tail (to_lower v) \<or> sevenz_tail (to_lower v) \<or> other_tail (to_lower v)"
    by (auto simp: sweepable_def)
  have "v \<noteq> []" using t by (auto simp: rar_tail_def par2_tail_def sevenz_tail_def other_tail_def tarFormats_def)
  then have l: "last (to_lower v) = CHR ''v''" using last_chr [of "''b.mk''" "CHR ''v''" w v] n
    by (simp add: to_lower_def last_map lower_chr_def is_upper_def chr_le_def)
  have d: "last d \<noteq> CHR ''v''" if "list_all is_digit d" "d \<noteq> []" for d
    using that by (induction d) (auto simp: is_digit_def chr_le_def)
  from t show False
  proof (elim disjE)
    assume "rar_tail (to_lower v)"
    then show False using l d by (auto simp: rar_tail_def split: if_splits)
  next
    assume "par2_tail (to_lower v)"
    then show False using l by (auto simp: par2_tail_def)
  next
    assume "sevenz_tail (to_lower v)"
    then show False using l d by (auto simp: sevenz_tail_def split: if_splits)
  next
    assume "other_tail (to_lower v)"
    then show False using l by (auto simp: other_tail_def tarFormats_def)
  qed
qed

theorem unpackArchives_keeps_witness:
  "data_at (the (unpackArchives demo_ext ext_demo)) [''b.mkv''] = Some [109]"
proof -
  have "ext_spares demo_ext [''b.mkv'']" by (rule demo_spares) simp
  moreover have "\<not> sweepable (hd [''b.mkv''])" using not_sweepable_mkv by simp
  ultimately have "data_at (the (unpackArchives demo_ext ext_demo)) [''b.mkv''] = data_at ext_demo [''b.mkv'']"
    by (rule unpackArchives_keeps) (simp add: demo_unpacked)
  also have "\<dots> = Some [109]" by code_simp
  finally show ?thesis .
qed

section \<open>Where the code and its comments part\<close>

text \<open>Staging below the default \<^verbatim>\<open>./temp\<close> gives the tools a path relative to the agent's directory, but they run in
  the stage directory: a tool that opens its argument finds nothing, and nothing is extracted.\<close>

definition opening_tool :: "string list \<Rightarrow> fnode \<Rightarrow> fnode \<times> string option" where
  "opening_tool args t = (case data_at t (split_on slash (last args)) of
     None \<Rightarrow> (t, Some ''cannot open the file as archive'') | Some b \<Rightarrow> (t, None))"

theorem relative_stage_not_unpacked:
  "Extract7zArchives (demo_ext\<lparr>XE_dir := path_join ''./temp'' ''stage-x'', XE_tool := opening_tool\<rparr>) (FDir [(''a.7z'', FFile [1])])
     = Some (FDir [(''a.7z'', FFile [1])], 0, Some ''cannot open the file as archive'')"
  by code_simp

text \<open>The guard against leaving the stage directory compares names: an entry below a link that a tool has left in it is
  written where the link leads.\<close>

theorem entry_follows_link:
  "zip_entries demo_ext ''/stage'' ''a.zip'' 0 [zentry ''l/x'' False [1]] (FDir [(''l'', FLink 4 (Some (FDir [(''x'', FFile [9])])))])
     = (FDir [(''l'', FLink 4 (Some (FDir [(''x'', FFile [1])])))], None)"
  by code_simp

text \<open>A file name whose stem is not UTF-8 ends the agent once its archive has been extracted.\<close>

theorem bad_stem_panics:
  "ExtractRARArchives demo_ext (FDir [(CHR 0xE9 # ''.rar'', FFile [1])]) = None"
  by code_simp

text \<open>The sets are told apart by stem without case: the archive that failed goes with the one that did not.\<close>

definition failing_tool :: "string list \<Rightarrow> fnode \<Rightarrow> fnode \<times> string option" where
  "failing_tool args t = (if last args = ''/stage/A.7z'' then (t, Some ''Data Error'') else (t, None))"

theorem failed_source_swept:
  "Extract7zArchives (demo_ext\<lparr>XE_tool := failing_tool\<rparr>) (FDir [(''A.7z'', FFile [1]), (''a.7z.001'', FFile [2])])
     = Some (FDir [], 1, Some ''Data Error'')"
  by code_simp

text \<open>An archive that is refused is not left as it is: what came before the refused entry stays beside it.\<close>

theorem failed_archive_partly_unpacked:
  "zip_entries demo_ext ''/stage'' ''a.zip'' 0 [zentry ''x'' False [1], zentry ''../y'' False [2]] (FDir [(''a.zip'', FFile [90])])
     = (FDir [(''a.zip'', FFile [90]), (''x'', FFile [1])], Some ''unsafe zip entry path'')"
  by code_simp

text \<open>An entry beyond the limit is cut without an error, so its archive is removed.\<close>

theorem long_entry_cut:
  assumes "extractZIPMaxEntryBytes < int (length d)" and "write_at p (entry_bytes d) t = Some t'"
  shows "write_entry p d x t = (t', None) \<and> entry_bytes d \<noteq> d"
  using assms by (auto simp: write_entry_def limited_def entry_bytes_take extractZIPMaxEntryBytes_def)

end
