(* ===== verification/Spec2Isabelle.thy ===== *)
theory Spec2Isabelle
  imports Pool Yenc Poll Database OfferFulfill OfferSync Collection Extract
begin

text \<open>
  The agent of \<^verbatim>\<open>loon-agent\<close> (Go) takes releases from a watched folder or from tasks of an indexer
  site, stages them, protects them with PAR2, posts them to Usenet and writes an NZB.

  Theories and the code they model:

  \<^item> \<open>GoBase\<close>, \<open>Paths\<close>, \<open>FileTree\<close>, \<open>Stores\<close>: the parts of Go's standard library the code uses
    (byte strings, \<^verbatim>\<open>path/filepath\<close>, \<^verbatim>\<open>filepath.Walk\<close> over a tree of files, directories, links and
    unreadable directories) and the contract of a keyed store.
  \<^item> \<open>Tables\<close>, \<open>Jobs\<close>, \<open>Watches\<close>, \<open>SiteGroups\<close>, \<open>Database\<close>: the SQLite store (\<^verbatim>\<open>storage/\<close>) with the
    offline watcher, the processor loop and the synchronisation of groups with the site
    (\<^verbatim>\<open>services/network_offline_watcher.go\<close>, \<^verbatim>\<open>network_offline_processor.go\<close>,
    \<^verbatim>\<open>network_groups_sync.go\<close>). \<open>Database\<close> makes it one transition system and proves its invariant.
  \<^item> \<open>AppState\<close>: the map of running jobs and its file (\<^verbatim>\<open>storage/storage.go\<close>), its operations, the
    saves that may overlap, and the end of a task (\<^verbatim>\<open>cmd/agent/main.go\<close>).
  \<^item> \<open>Torrent\<close>: the download from a torrent with the rules that reject it, and the seeding
    (\<^verbatim>\<open>services/network_torrent.go\<close>). The torrent library is behind a sequence of observations.
  \<^item> \<open>Disk\<close>, \<open>Blocklist\<close>: disk reservations and the sweep of orphans, the extension blocklist, the
    check of a partial download (\<^verbatim>\<open>disk_reserve_sweep.go\<close>, \<^verbatim>\<open>disk_blocklist.go\<close>,
    \<^verbatim>\<open>resume_validation.go\<close>).
  \<^item> \<open>Staging\<close>, \<open>Manifest\<close>, \<open>Par2\<close>: the copy into the stage directory and its audits, the recovery
    data (\<^verbatim>\<open>upload_obfuscate.go\<close>, \<^verbatim>\<open>upload_manifest.go\<close>, \<^verbatim>\<open>upload_par2.go\<close>).
  \<^item> \<open>Uploader\<close>, \<open>Pool\<close>, \<open>Yenc\<close>, \<open>Crc32\<close>, \<open>Nzb\<close>: posting a directory, the worker pool of one
    file, the encoder, the checksum combination, the NZB (\<^verbatim>\<open>upload_usenet.go\<close>, \<^verbatim>\<open>upload_nzb.go\<close>).
  \<^item> \<open>Describe\<close>, \<open>Publish\<close>: the description of a release and the whole pipeline of a task from its
    content to the NZB, composed of the theories above (\<^verbatim>\<open>publish_pipeline.go\<close>).
  \<^item> \<open>Extract\<close>: the six stages that unpack archives in the stage directory, their entries and the sweep of
    their volumes and recovery files, with the environment of the tools (\<^verbatim>\<open>extract_*.go\<close>, \<^verbatim>\<open>exec_tool.go\<close>). In
    \<open>Publish\<close> the stages are the parameter \<open>extractor\<close>.
  \<^item> \<open>Names\<close>, \<open>Offline\<close>: the names made of titles and groups, and the pipeline of an offline job up
    to the row the processor writes (\<^verbatim>\<open>network_offline_processor.go\<close>).
  \<^item> \<open>Config\<close>: the layered configuration (\<^verbatim>\<open>config/\<close>).
  \<^item> \<open>Handoff\<close>, \<open>Backoff\<close>, \<open>Task\<close>: the hand-off to a torrent client of the operator
    (\<^verbatim>\<open>network_watch_handoff.go\<close>), the pause and the cooldowns, and one task of the site from its claim to
    its report and its sweep (\<^verbatim>\<open>processTask\<close> of \<^verbatim>\<open>cmd/agent/main.go\<close>), composed of \<open>Torrent\<close>,
    \<open>Handoff\<close>, \<open>Blocklist\<close>, \<open>Publish\<close>, \<open>Disk\<close> and \<open>AppState\<close>.
  \<^item> \<open>Poll\<close>: the poll loop with the directives and the remote configuration, the table of active tasks
    and the backfill of saved NZBs (\<^verbatim>\<open>main\<close>, \<^verbatim>\<open>runBackfill\<close>; \<^verbatim>\<open>Poll\<close> of \<^verbatim>\<open>client/client.go\<close>).
  \<^item> \<open>OfferRoute\<close>, \<open>OfferFulfill\<close>: how a request for an offer can be served, the fetch of its \<^verbatim>\<open>.torrent\<close>, the
    staging of the wanted files, and one request from its claim to the delivery or the release of the
    claim (\<^verbatim>\<open>offer_fulfill.go\<close>, \<^verbatim>\<open>offer_fulfill_remote.go\<close>, \<^verbatim>\<open>offer_stage.go\<close>, \<^verbatim>\<open>offer_torrent_fetch.go\<close>,
    \<^verbatim>\<open>offer_cookies.go\<close>), composed of \<open>Database\<close>, \<open>Torrent\<close>, \<open>Publish\<close> and \<open>Disk\<close>.
  \<^item> \<open>Regex\<close>, \<open>OfferScan\<close>: the engine of Go's regular expressions, sound and complete for a declarative
    reading of a match, and on it the folder scan, the reading of file names and scraped titles and the
    identity of an offer (\<^verbatim>\<open>offer_folder_scanner.go\<close>, \<^verbatim>\<open>offer_hash.go\<close>).
  \<^item> \<open>Inventory\<close>, \<open>OfferSync\<close>: the inventory reports with their generations and the prober
    (\<^verbatim>\<open>inventory_scan.go\<close>, \<^verbatim>\<open>inventory_service.go\<close>, \<^verbatim>\<open>inventory_probe.go\<close>), and the synchronisation of offers
    with the scrapers (\<^verbatim>\<open>offer_sync.go\<close>, \<^verbatim>\<open>offer_scraper_torznab.go\<close>), whose cached routes are the ones
    \<open>OfferRoute\<close> chooses from.
  \<^item> \<open>Collection\<close>: the Collection scanner (\<^verbatim>\<open>collection_scanner.go\<close>, \<^verbatim>\<open>client/title_match.go\<close>) with the
    operator's edits, the file of the snapshot and the steps of a scan that overlap them, and the handlers
    of its page (\<^verbatim>\<open>local_ui.go\<close>).

  State is explicit: every operation takes the state it works on and returns the new one. Errors
  are values of a sum or option type. Randomness, the clock, the network and external tools are
  arguments. A deferred call is the combinator \<open>deferred\<close> of \<open>Publish\<close>. Concurrency is a transition
  system where it matters (\<open>Pool\<close>, \<open>ledger_step\<close> in \<open>Disk\<close>, \<open>app_step\<close> in \<open>AppState\<close>,
  \<open>agent_step\<close> in \<open>Poll\<close>, \<open>coll_step\<close> in \<open>Collection\<close>).

  Fuel: \<open>climb\<close> in \<open>Disk\<close> goes from a path to its parents with fuel one more than its length; every
  parent is shorter. All other recursions end by themselves; the loops that wait for the outside
  (\<open>Torrent\<close>) run over the sequence of what they observe.

  Not modelled: HTTP, HTML and JSON, the media tools, the external extractors, the torrent library,
  failures of the database file, logging and progress reports. Left out of what is modelled: panics
  other than the ones the theories name and the recovery from them, the files the description of a release
  writes below its content directory, I/O errors in the middle of a copied file, the goroutine that keeps a
  claimed offer alive. Letters and blanks are the ASCII ones; counters of disk space are unbounded integers.
\<close>

end
